(* ===== verification/Sequencer_Prelude.thy ===== *)
theory Sequencer_Prelude
  imports Main "HOL-Library.Word" "HOL-Library.AList" "HOL-Library.Monad_Syntax"
begin

text \<open>
  The vocabulary shared by all components: machine integers, the way Rust's panics and
  results are represented, and the parts of Rust's standard collections that the code uses.

  \<^item> \<open>u8\<close>, \<open>u32\<close>, \<open>u64\<close>, \<open>u128\<close> are words; \<open>+\<close> wraps around, as release builds of the
    workspace do (\<^verbatim>\<open>src/Cargo.toml\<close> does not enable overflow checks).
  \<^item> A function that may panic returns an \<open>option\<close>, with \<open>None\<close> for the panic; \<open>rs_assert\<close> is
    Rust's \<^verbatim>\<open>assert!\<close>. A function that returns Rust's \<^verbatim>\<open>Result\<close> returns a sum, \<open>Inl\<close> for
    \<^verbatim>\<open>Err\<close>. A method on \<^verbatim>\<open>&mut self\<close> returns the state it leaves behind, also when it
    returns an error.
  \<^item> A \<^verbatim>\<open>HashMap\<close> that is only read and written by key is a map \<open>'k \<rightharpoonup> 'v\<close>; one that is
    iterated over is an association list with distinct keys.
\<close>

section \<open>Machine integers\<close>

type_synonym u8 = "8 word"
type_synonym u32 = "32 word"
type_synonym u64 = "64 word"
type_synonym u128 = "128 word"
type_synonym usize = "64 word"

definition checked_add :: "'a::len word \<Rightarrow> 'a word \<Rightarrow> 'a word option" where
  "checked_add a b = (if unat a + unat b < 2 ^ LENGTH('a) then Some (a + b) else None)"

definition checked_mul :: "'a::len word \<Rightarrow> 'a word \<Rightarrow> 'a word option" where
  "checked_mul a b = (if unat a * unat b < 2 ^ LENGTH('a) then Some (a * b) else None)"

definition checked_sub :: "'a::len word \<Rightarrow> 'a word \<Rightarrow> 'a word option" where
  "checked_sub a b = (if b \<le> a then Some (a - b) else None)"

definition saturating_add :: "'a::len word \<Rightarrow> 'a word \<Rightarrow> 'a word" where
  "saturating_add a b = (case checked_add a b of Some c \<Rightarrow> c | None \<Rightarrow> -1)"

definition saturating_sub :: "'a::len word \<Rightarrow> 'a word \<Rightarrow> 'a word" where
  "saturating_sub a b = (if b \<le> a then a - b else 0)"

definition saturating_mul :: "'a::len word \<Rightarrow> 'a word \<Rightarrow> 'a word" where
  "saturating_mul a b = (case checked_mul a b of Some c \<Rightarrow> c | None \<Rightarrow> -1)"

definition u64_try_from :: "u128 \<Rightarrow> u64 option" where
  "u64_try_from x = (if uint x < 2 ^ 64 then Some (ucast x) else None)"

text \<open>The same on binary integers, for evaluation.\<close>

lemma checked_code [code]:
  "checked_add (a :: 'a::len word) b = (if uint a + uint b < 2 ^ LENGTH('a) then Some (a + b) else None)"
  "checked_mul (a :: 'a::len word) b = (if uint a * uint b < 2 ^ LENGTH('a) then Some (a * b) else None)"
proof -
  have "int (unat a + unat b) < int (2 ^ LENGTH('a)) \<longleftrightarrow> uint a + uint b < 2 ^ LENGTH('a)"
    "int (unat a * unat b) < int (2 ^ LENGTH('a)) \<longleftrightarrow> uint a * uint b < 2 ^ LENGTH('a)"
    by simp_all
  then show
    "checked_add a b = (if uint a + uint b < 2 ^ LENGTH('a) then Some (a + b) else None)"
    "checked_mul a b = (if uint a * uint b < 2 ^ LENGTH('a) then Some (a * b) else None)"
    unfolding checked_add_def checked_mul_def of_nat_less_iff by simp_all
qed

lemma checked_add_Some_iff:
  "checked_add a b = Some c \<longleftrightarrow> unat c = unat a + unat b"
proof
  assume "checked_add a b = Some c"
  then show "unat c = unat a + unat b"
    by (auto simp: checked_add_def unat_word_ariths split: if_splits)
next
  assume *: "unat c = unat a + unat b"
  then have "unat a + unat b < 2 ^ LENGTH('a)"
    by (metis unsigned_less)
  moreover from this * have "unat c = unat (a + b)"
    by (simp add: unat_word_ariths)
  ultimately show "checked_add a b = Some c"
    by (simp add: checked_add_def word_unat_eq_iff)
qed

lemma checked_mul_Some_iff:
  "checked_mul a b = Some c \<longleftrightarrow> unat c = unat a * unat b"
proof
  assume "checked_mul a b = Some c"
  then show "unat c = unat a * unat b"
    by (auto simp: checked_mul_def unat_word_ariths split: if_splits)
next
  assume *: "unat c = unat a * unat b"
  then have "unat a * unat b < 2 ^ LENGTH('a)"
    by (metis unsigned_less)
  moreover from this * have "unat c = unat (a * b)"
    by (simp add: unat_word_ariths)
  ultimately show "checked_mul a b = Some c"
    by (simp add: checked_mul_def word_unat_eq_iff)
qed

lemma checked_sub_Some_iff: "checked_sub a b = Some c \<longleftrightarrow> unat a = unat b + unat c"
proof
  assume "checked_sub a b = Some c"
  then show "unat a = unat b + unat c"
    by (auto simp: checked_sub_def unat_sub word_le_nat_alt split: if_splits)
next
  assume *: "unat a = unat b + unat c"
  then have le: "b \<le> a" by (simp add: word_le_nat_alt)
  with * have "unat (a - b) = unat c" by (simp add: unat_sub)
  with le show "checked_sub a b = Some c" by (simp add: checked_sub_def word_unat_eq_iff)
qed

lemma checked_None_iff:
  "checked_add a b = None \<longleftrightarrow> 2 ^ LENGTH('a) \<le> unat (a :: 'a::len word) + unat b"
  "checked_mul a b = None \<longleftrightarrow> 2 ^ LENGTH('a) \<le> unat a * unat b"
  "checked_sub a b = None \<longleftrightarrow> unat a < unat b"
  by (auto simp: checked_add_def checked_mul_def checked_sub_def not_less word_le_nat_alt)

text \<open>Saturating operations stop at the largest value.\<close>

lemma unat_saturating:
  "unat (saturating_add a b) = min (unat (a :: 'a::len word) + unat b) (2 ^ LENGTH('a) - 1)"
  "unat (saturating_mul a b) = min (unat a * unat b) (2 ^ LENGTH('a) - 1)"
  "unat (saturating_sub a b) = unat a - unat b"
proof -
  have max: "unat (- 1 :: 'a word) = 2 ^ LENGTH('a) - 1" by (simp add: unsigned_minus_1_eq_mask mask_eq_exp_minus_1)
  have le: "x \<le> 2 ^ LENGTH('a) - 1 \<longleftrightarrow> x < 2 ^ LENGTH('a)" for x :: nat
    using zero_less_power[of "2 :: nat" "LENGTH('a)"] by linarith
  show "unat (saturating_add a b) = min (unat a + unat b) (2 ^ LENGTH('a) - 1)"
    by (cases "unat a + unat b < 2 ^ LENGTH('a)")
      (auto simp: saturating_add_def checked_add_def max unat_word_ariths min_def le simp del: One_nat_def)
  show "unat (saturating_mul a b) = min (unat a * unat b) (2 ^ LENGTH('a) - 1)"
    by (cases "unat a * unat b < 2 ^ LENGTH('a)")
      (auto simp: saturating_mul_def checked_mul_def max unat_word_ariths min_def le simp del: One_nat_def)
  show "unat (saturating_sub a b) = unat a - unat b"
    by (auto simp: saturating_sub_def unat_sub word_le_nat_alt)
qed

text \<open>Conversions between widths.\<close>

lemma u64_try_from_eq: "u64_try_from x = (if unat x < 2 ^ 64 then Some (ucast x) else None)"
proof -
  have "int (unat x) < int (2 ^ 64) \<longleftrightarrow> uint x < 2 ^ 64" by simp
  then show ?thesis unfolding of_nat_less_iff by (simp add: u64_try_from_def)
qed

lemma unat_u64: "unat (x :: u64) < 18446744073709551616"
  by (rule order_less_le_trans[OF unsigned_less]) simp

lemma unat_ucast_u128 [simp]: "unat (ucast (x :: u64) :: u128) = unat x"
  using unat_u64[of x] by (simp add: unsigned_ucast_eq take_bit_nat_eq_self_iff)

lemma unat_ucast_u64: "unat x < 2 ^ 64 \<Longrightarrow> unat (ucast (x :: u128) :: u64) = unat x"
  by (simp add: unsigned_ucast_eq take_bit_nat_eq_self)

section \<open>Panics\<close>

definition rs_assert :: "bool \<Rightarrow> unit option" where
  "rs_assert b = (if b then Some () else None)"

lemma rs_assert_simps [simp]:
  "rs_assert True = Some ()"
  "rs_assert False = None"
  "rs_assert b = Some u \<longleftrightarrow> b"
  "rs_assert b = None \<longleftrightarrow> \<not> b"
  by (auto simp: rs_assert_def)

lemma rs_assert_bind_Some [simp]:
  "rs_assert b \<bind> f = Some x \<longleftrightarrow> b \<and> f () = Some x"
  by (cases b) simp_all

text \<open>Rust's \<^verbatim>\<open>?\<close> on a computation that changes a state, may return an error and may panic.\<close>

type_synonym ('s, 'e, 'a) rs_result = "('s \<times> ('e + 'a)) option"

definition rs_try ::
    "('s, 'e, 'a) rs_result \<Rightarrow> ('s \<Rightarrow> 'a \<Rightarrow> ('s, 'e, 'b) rs_result) \<Rightarrow> ('s, 'e, 'b) rs_result" where
  "rs_try m f =
     (case m of
        None \<Rightarrow> None
      | Some (s, Inl e) \<Rightarrow> Some (s, Inl e)
      | Some (s, Inr a) \<Rightarrow> f s a)"

lemma rs_try_simps [simp]:
  "rs_try None f = None"
  "rs_try (Some (s, Inl e)) f = Some (s, Inl e)"
  "rs_try (Some (s, Inr a)) f = f s a"
  by (simp_all add: rs_try_def)

lemma rs_try_Inr_iff:
  "rs_try m f = Some (s', Inr b) \<longleftrightarrow> (\<exists>s a. m = Some (s, Inr a) \<and> f s a = Some (s', Inr b))"
  by (auto simp: rs_try_def split: option.splits sum.splits)

end
