(* ===== verification/Consensus_State_Machine.thy ===== *)
theory Consensus_State_Machine
  imports Sequencer_Prelude
begin

text \<open>
  The Tendermint state machine of one height,
  \<^verbatim>\<open>crates/sequencing/papyrus_consensus/src/state_machine.rs\<close>. The record
  \<open>state_machine\<close> has the fields of the struct; every method is one definition with the
  method's name. A method that returns output events returns the pair of the new state and
  the list of events. \<open>LOC\<close> numbers are those of the source's comments (lines of Algorithm 1
  of the Tendermint paper).

  The inner map of the vote counters is an association list, because
  \<^verbatim>\<open>round_has_enough_votes\<close> sums over its values.
\<close>

section \<open>Data\<close>

type_synonym validator_id = nat
type_synonym proposal_content_id = nat
type_synonym round = u32

datatype state_machine_event =
    GetProposal "proposal_content_id option" round
  | Proposal "proposal_content_id option" round "round option"
  | Prevote "proposal_content_id option" round
  | Precommit "proposal_content_id option" round
  | Decision proposal_content_id round
  | TimeoutPropose round
  | TimeoutPrevote round
  | TimeoutPrecommit round

datatype step = StepPropose | StepPrevote | StepPrecommit

type_synonym vote_counts = "(proposal_content_id option \<times> u32) list"
type_synonym round_votes = "round \<rightharpoonup> vote_counts"

record state_machine =
  sm_id :: validator_id
  sm_round :: round
  sm_step :: step
  sm_quorum :: u32
  round_skip_threshold :: u32
  is_observer :: bool
  sm_proposals :: "round \<rightharpoonup> proposal_content_id option \<times> round option"
  sm_prevotes :: round_votes
  sm_precommits :: round_votes
  awaiting_get_proposal :: bool
  events_queue :: "state_machine_event list"
  locked_value_round :: "(proposal_content_id \<times> round) option"
  valid_value_round :: "(proposal_content_id \<times> round) option"
  prevote_quorum :: "round set"
  mixed_prevote_quorum :: "round set"
  mixed_precommit_quorum :: "round set"

type_synonym sm_out = "state_machine \<times> state_machine_event list"

definition sm_new :: "validator_id \<Rightarrow> u32 \<Rightarrow> bool \<Rightarrow> state_machine" where
  "sm_new i total_weight obs = \<lparr>
     sm_id = i, sm_round = 0, sm_step = StepPropose,
     sm_quorum = (2 * total_weight) div 3 + 1,
     round_skip_threshold = total_weight div 3 + 1,
     is_observer = obs,
     sm_proposals = Map.empty, sm_prevotes = Map.empty, sm_precommits = Map.empty,
     awaiting_get_proposal = False, events_queue = [],
     locked_value_round = None, valid_value_round = None,
     prevote_quorum = {}, mixed_prevote_quorum = {}, mixed_precommit_quorum = {}\<rparr>"

section \<open>Counting votes\<close>

definition round_has_enough_votes :: "round_votes \<Rightarrow> round \<Rightarrow> u32 \<Rightarrow> bool" where
  "round_has_enough_votes votes r threshold \<longleftrightarrow>
     threshold \<le> (case votes r of None \<Rightarrow> 0 | Some v \<Rightarrow> sum_list (map snd v))"

definition value_has_enough_votes ::
    "round_votes \<Rightarrow> round \<Rightarrow> proposal_content_id option \<Rightarrow> u32 \<Rightarrow> bool" where
  "value_has_enough_votes votes r val threshold \<longleftrightarrow>
     threshold \<le> (case votes r of None \<Rightarrow> 0
                   | Some v \<Rightarrow> (case map_of v val of None \<Rightarrow> 0 | Some n \<Rightarrow> n))"

definition count_vote :: "round_votes \<Rightarrow> proposal_content_id option \<Rightarrow> round \<Rightarrow> round_votes" where
  "count_vote votes pid r =
     (let v = (case votes r of None \<Rightarrow> [] | Some v \<Rightarrow> v);
          n = (case map_of v pid of None \<Rightarrow> 0 | Some n \<Rightarrow> n)
      in votes(r \<mapsto> AList.update pid (n + 1) v))"

section \<open>The upon rules\<close>

text \<open>
  \<open>advance_to_step\<close> re-evaluates all rules of the current round
  (\<open>current_round_upons\<close>), and four of the rules call \<open>advance_to_step\<close>: the methods are
  mutually recursive, with the calls nested in one another. The recursion ends because
  every call of \<open>advance_to_step\<close> moves to a later step of the round. Its assertion that the
  step is not \<^verbatim>\<open>Propose\<close> is left out: all calls pass \<^verbatim>\<open>Prevote\<close> or \<^verbatim>\<open>Precommit\<close>.
\<close>

definition new_proposal_vote :: "state_machine \<Rightarrow> proposal_content_id option \<Rightarrow> proposal_content_id option" where
  "new_proposal_vote s pid =
     (case pid of
        None \<Rightarrow> None
      | Some v \<Rightarrow>
         (case locked_value_round s of
            None \<Rightarrow> pid
          | Some (locked_value, _) \<Rightarrow> if v = locked_value then pid else None))"

definition reproposal_vote ::
    "state_machine \<Rightarrow> proposal_content_id option \<Rightarrow> round \<Rightarrow> proposal_content_id option" where
  "reproposal_vote s pid valid_round =
     (case pid of
        None \<Rightarrow> None
      | Some v \<Rightarrow>
         (case locked_value_round s of
            None \<Rightarrow> pid
          | Some (locked_value, locked_round) \<Rightarrow>
              if locked_round \<le> valid_round \<or> locked_value = v then pid else None))"

definition maybe_initiate_timeout_prevote :: "state_machine \<Rightarrow> sm_out" where
  "maybe_initiate_timeout_prevote s =
     (if sm_step s \<noteq> StepPrevote then (s, [])
      else if \<not> round_has_enough_votes (sm_prevotes s) (sm_round s) (sm_quorum s) then (s, [])
      else if sm_round s \<in> mixed_prevote_quorum s then (s, [])
      else (s\<lparr>mixed_prevote_quorum := insert (sm_round s) (mixed_prevote_quorum s)\<rparr>,
            [TimeoutPrevote (sm_round s)]))"

definition maybe_initiate_timeout_precommit :: "state_machine \<Rightarrow> sm_out" where
  "maybe_initiate_timeout_precommit s =
     (if \<not> round_has_enough_votes (sm_precommits s) (sm_round s) (sm_quorum s) then (s, [])
      else if sm_round s \<in> mixed_precommit_quorum s then (s, [])
      else (s\<lparr>mixed_precommit_quorum := insert (sm_round s) (mixed_precommit_quorum s)\<rparr>,
            [TimeoutPrecommit (sm_round s)]))"

definition upon_decision :: "state_machine \<Rightarrow> round \<Rightarrow> sm_out" where
  "upon_decision s r =
     (case sm_proposals s r of
        Some (Some pid, _) \<Rightarrow>
          if \<not> value_has_enough_votes (sm_precommits s) r (Some pid) (sm_quorum s) then (s, [])
          else (s, [Decision pid r])
      | _ \<Rightarrow> (s, []))"

fun step_rank :: "step \<Rightarrow> nat" where
  "step_rank StepPropose = 2"
| "step_rank StepPrevote = 1"
| "step_rank StepPrecommit = 0"

function current_round_upons :: "state_machine \<Rightarrow> sm_out"
  and advance_to_step :: "step \<Rightarrow> state_machine \<Rightarrow> sm_out"
  and upon_new_proposal :: "state_machine \<Rightarrow> sm_out"
  and upon_reproposal :: "state_machine \<Rightarrow> sm_out"
  and upon_prevote_quorum :: "state_machine \<Rightarrow> sm_out"
  and upon_nil_prevote_quorum :: "state_machine \<Rightarrow> sm_out"
where
  "current_round_upons s =
     (let (s1, o1) = upon_new_proposal s;
          (s2, o2) = upon_reproposal s1;
          (s3, o3) = maybe_initiate_timeout_prevote s2;
          (s4, o4) = upon_prevote_quorum s3;
          (s5, o5) = upon_nil_prevote_quorum s4;
          (s6, o6) = maybe_initiate_timeout_precommit s5;
          (s7, o7) = upon_decision s6 (sm_round s6)
      in (s7, o1 @ o2 @ o3 @ o4 @ o5 @ o6 @ o7))"
| "advance_to_step st s = current_round_upons (s\<lparr>sm_step := st\<rparr>)"
| "upon_new_proposal s =
     (if sm_step s \<noteq> StepPropose then (s, [])
      else (case sm_proposals s (sm_round s) of
          None \<Rightarrow> (s, [])
        | Some (pid, Some _) \<Rightarrow> (s, [])
        | Some (pid, None) \<Rightarrow>
            (let (s', out) = advance_to_step StepPrevote s
             in (s', Prevote (new_proposal_vote s pid) (sm_round s) # out))))"
| "upon_reproposal s =
     (if sm_step s \<noteq> StepPropose then (s, [])
      else (case sm_proposals s (sm_round s) of
          None \<Rightarrow> (s, [])
        | Some (pid, None) \<Rightarrow> (s, [])
        | Some (pid, Some valid_round) \<Rightarrow>
            (if sm_round s \<le> valid_round then (s, [])
             else if \<not> value_has_enough_votes (sm_prevotes s) valid_round pid (sm_quorum s)
             then (s, [])
             else (let (s', out) = advance_to_step StepPrevote s
                   in (s', Prevote (reproposal_vote s pid valid_round) (sm_round s) # out)))))"
| "upon_prevote_quorum s =
     (if sm_step s = StepPropose then (s, [])
      else (case sm_proposals s (sm_round s) of
          Some (Some pid, _) \<Rightarrow>
            (if \<not> value_has_enough_votes (sm_prevotes s) (sm_round s) (Some pid) (sm_quorum s)
             then (s, [])
             else if sm_round s \<in> prevote_quorum s then (s, [])
             else (let s1 = s\<lparr>prevote_quorum := insert (sm_round s) (prevote_quorum s),
                              valid_value_round := Some (pid, sm_round s)\<rparr>
                   in if sm_step s1 \<noteq> StepPrevote then (s1, [])
                      else (let s2 = s1\<lparr>locked_value_round := Some (pid, sm_round s)\<rparr>;
                                (s', out) = advance_to_step StepPrecommit s2
                            in (s', Precommit (Some pid) (sm_round s) # out))))
        | _ \<Rightarrow> (s, [])))"
| "upon_nil_prevote_quorum s =
     (if sm_step s \<noteq> StepPrevote then (s, [])
      else if \<not> value_has_enough_votes (sm_prevotes s) (sm_round s) None (sm_quorum s)
      then (s, [])
      else (let (s', out) = advance_to_step StepPrecommit s
            in (s', Precommit None (sm_round s) # out)))"
  by pat_completeness auto


lemmas upons_psimps =
  current_round_upons.psimps advance_to_step.psimps upon_new_proposal.psimps
  upon_reproposal.psimps upon_prevote_quorum.psimps upon_nil_prevote_quorum.psimps

abbreviation rank_of :: "state_machine \<Rightarrow> nat" where
  "rank_of s \<equiv> step_rank (sm_step s)"

lemma maybe_initiate_timeout_prevote_frame [simp]:
  "sm_step (fst (maybe_initiate_timeout_prevote s)) = sm_step s"
  by (simp add: maybe_initiate_timeout_prevote_def)

lemma maybe_initiate_timeout_precommit_frame [simp]:
  "sm_step (fst (maybe_initiate_timeout_precommit s)) = sm_step s"
  by (simp add: maybe_initiate_timeout_precommit_def)

lemma upon_decision_frame [simp]: "fst (upon_decision s r) = s"
  by (simp add: upon_decision_def split: option.splits prod.splits)

lemma upons_rank_partial:
  "current_round_upons_advance_to_step_upon_new_proposal_upon_reproposal_upon_prevote_quorum_upon_nil_prevote_quorum_dom (Inl (Inl s)) \<Longrightarrow> rank_of (fst (current_round_upons s)) \<le> rank_of s"
  "current_round_upons_advance_to_step_upon_new_proposal_upon_reproposal_upon_prevote_quorum_upon_nil_prevote_quorum_dom (Inl (Inr (Inl (st, s)))) \<Longrightarrow> rank_of (fst (advance_to_step st s)) \<le> step_rank st"
  "current_round_upons_advance_to_step_upon_new_proposal_upon_reproposal_upon_prevote_quorum_upon_nil_prevote_quorum_dom (Inl (Inr (Inr s))) \<Longrightarrow> rank_of (fst (upon_new_proposal s)) \<le> rank_of s"
  "current_round_upons_advance_to_step_upon_new_proposal_upon_reproposal_upon_prevote_quorum_upon_nil_prevote_quorum_dom (Inr (Inl s)) \<Longrightarrow> rank_of (fst (upon_reproposal s)) \<le> rank_of s"
  "current_round_upons_advance_to_step_upon_new_proposal_upon_reproposal_upon_prevote_quorum_upon_nil_prevote_quorum_dom (Inr (Inr (Inl s))) \<Longrightarrow> rank_of (fst (upon_prevote_quorum s)) \<le> rank_of s"
  "current_round_upons_advance_to_step_upon_new_proposal_upon_reproposal_upon_prevote_quorum_upon_nil_prevote_quorum_dom (Inr (Inr (Inr s))) \<Longrightarrow> rank_of (fst (upon_nil_prevote_quorum s)) \<le> rank_of s"
proof (induction s and st s and s and s and s and s rule: current_round_upons_advance_to_step_upon_new_proposal_upon_reproposal_upon_prevote_quorum_upon_nil_prevote_quorum.pinduct)
  case (1 s)
  obtain s1 o1 where 1: "upon_new_proposal s = (s1, o1)" by force
  obtain s2 o2 where 2: "upon_reproposal s1 = (s2, o2)" by force
  obtain s3 o3 where 3: "maybe_initiate_timeout_prevote s2 = (s3, o3)" by force
  obtain s4 o4 where 4: "upon_prevote_quorum s3 = (s4, o4)" by force
  obtain s5 o5 where 5: "upon_nil_prevote_quorum s4 = (s5, o5)" by force
  obtain s6 o6 where 6: "maybe_initiate_timeout_precommit s5 = (s6, o6)" by force
  from 3 have r3: "sm_step s3 = sm_step s2"
    by (metis fst_conv maybe_initiate_timeout_prevote_frame)
  from 6 have r6: "sm_step s6 = sm_step s5"
    by (metis fst_conv maybe_initiate_timeout_precommit_frame)
  have "fst (current_round_upons s) = s6"
    using "1.hyps" by (simp add: upons_psimps 1 2 3 4 5 6 split: prod.split) (metis fst_conv upon_decision_frame)
  then show ?case
    using "1.IH" 1 2 3 4 5 r3 r6 by fastforce
next
  case (2 st s)
  then show ?case by (simp add: upons_psimps)
next
  case (3 s)
  then show ?case by (fastforce simp: upons_psimps split: option.splits prod.splits)
next
  case (4 s)
  then show ?case by (fastforce simp: upons_psimps split: option.splits prod.splits)
next
  case (5 s)
  then show ?case by (fastforce simp: upons_psimps Let_def split: option.splits prod.splits)
next
  case (6 s)
  then show ?case by (auto simp: upons_psimps split: prod.splits)
qed

fun upons_measure ::
    "(state_machine + step \<times> state_machine + state_machine) + state_machine + state_machine + state_machine \<Rightarrow> nat" where
  "upons_measure (Inl (Inl s)) = 3 * rank_of s + 1"
| "upons_measure (Inl (Inr (Inl (st, s)))) = 3 * step_rank st + 2"
| "upons_measure (Inl (Inr (Inr s))) = 3 * rank_of s"
| "upons_measure (Inr (Inl s)) = 3 * rank_of s"
| "upons_measure (Inr (Inr (Inl s))) = 3 * rank_of s"
| "upons_measure (Inr (Inr (Inr s))) = 3 * rank_of s"

lemma upons_rank_pair:
  "current_round_upons_advance_to_step_upon_new_proposal_upon_reproposal_upon_prevote_quorum_upon_nil_prevote_quorum_dom (Inl (Inr (Inr s))) \<Longrightarrow> (s', out) = upon_new_proposal s \<Longrightarrow> rank_of s' \<le> rank_of s"
  "current_round_upons_advance_to_step_upon_new_proposal_upon_reproposal_upon_prevote_quorum_upon_nil_prevote_quorum_dom (Inr (Inl s)) \<Longrightarrow> (s', out) = upon_reproposal s \<Longrightarrow> rank_of s' \<le> rank_of s"
  "current_round_upons_advance_to_step_upon_new_proposal_upon_reproposal_upon_prevote_quorum_upon_nil_prevote_quorum_dom (Inr (Inr (Inl s))) \<Longrightarrow> (s', out) = upon_prevote_quorum s \<Longrightarrow> rank_of s' \<le> rank_of s"
  "(s', out) = maybe_initiate_timeout_prevote s \<Longrightarrow> rank_of s' \<le> rank_of s"
  using upons_rank_partial(3-5)[of s] maybe_initiate_timeout_prevote_frame[of s]
  by (metis fst_conv order_refl)+

termination current_round_upons
proof (relation "measure upons_measure", goal_cases)
  case (3 s x xa y)
  then have "rank_of xa \<le> rank_of s"
    using upons_rank_pair(1) by blast
  then show ?case by simp
next
  case (4 s x xa y xb xc ya xd xe yb)
  then have "rank_of xa \<le> rank_of s" "rank_of xc \<le> rank_of xa" "rank_of xe \<le> rank_of xc"
    using upons_rank_pair(1,2,4) by blast+
  then show ?case by simp
next
  case (5 s x xa y xb xc ya xd xe yb xf xg yc)
  then have "rank_of xa \<le> rank_of s" "rank_of xc \<le> rank_of xa" "rank_of xe \<le> rank_of xc"
      "rank_of xg \<le> rank_of xe"
    using upons_rank_pair by blast+
  then show ?case by simp
qed simp_all

lemmas upons_simps [simp del] =
  current_round_upons.simps advance_to_step.simps upon_new_proposal.simps
  upon_reproposal.simps upon_prevote_quorum.simps upon_nil_prevote_quorum.simps

section \<open>Rounds and events\<close>

definition past_round_upons :: "state_machine \<Rightarrow> round \<Rightarrow> sm_out" where
  "past_round_upons s r =
     (let (s1, o1) = upon_reproposal s;
          (s2, o2) = upon_decision s1 r
      in (s2, o1 @ o2))"

definition advance_to_round :: "state_machine \<Rightarrow> round \<Rightarrow> (round \<Rightarrow> validator_id) \<Rightarrow> sm_out" where
  "advance_to_round s r leader_fn =
     (let s1 = s\<lparr>sm_round := r, sm_step := StepPropose\<rparr>
      in if \<not> is_observer s1 \<and> sm_id s1 = leader_fn (sm_round s1)
         then (case valid_value_round s1 of
             Some (pid, valid_round) \<Rightarrow>
               (let (s2, out) = current_round_upons s1
                in (s2, Proposal (Some pid) (sm_round s1) (Some valid_round) # out))
           | None \<Rightarrow> (s1\<lparr>awaiting_get_proposal := True\<rparr>, [GetProposal None (sm_round s1)]))
         else (let (s2, out) = current_round_upons s1
               in (s2, TimeoutPropose (sm_round s1) # out)))"

definition maybe_advance_to_round ::
    "state_machine \<Rightarrow> round \<Rightarrow> (round \<Rightarrow> validator_id) \<Rightarrow> sm_out" where
  "maybe_advance_to_round s r leader_fn =
     (if round_has_enough_votes (sm_prevotes s) r (round_skip_threshold s)
         \<or> round_has_enough_votes (sm_precommits s) r (round_skip_threshold s)
      then advance_to_round s r leader_fn else (s, []))"

definition map_round_to_upons :: "state_machine \<Rightarrow> round \<Rightarrow> (round \<Rightarrow> validator_id) \<Rightarrow> sm_out" where
  "map_round_to_upons s r leader_fn =
     (if r < sm_round s then past_round_upons s r
      else if r = sm_round s then current_round_upons s
      else maybe_advance_to_round s r leader_fn)"

definition handle_get_proposal ::
    "state_machine \<Rightarrow> proposal_content_id option \<Rightarrow> round \<Rightarrow> sm_out option" where
  "handle_get_proposal s pid r = do {
     rs_assert (awaiting_get_proposal s);
     rs_assert (r = sm_round s);
     Some (s\<lparr>awaiting_get_proposal := False\<rparr>, [Proposal pid r None]) }"

definition handle_proposal ::
    "state_machine \<Rightarrow> proposal_content_id option \<Rightarrow> round \<Rightarrow> round option
      \<Rightarrow> (round \<Rightarrow> validator_id) \<Rightarrow> sm_out option" where
  "handle_proposal s pid r valid_round leader_fn = do {
     let old = sm_proposals s r;
     let s1 = s\<lparr>sm_proposals := (sm_proposals s)(r \<mapsto> (pid, valid_round))\<rparr>;
     rs_assert (old = None);
     Some (map_round_to_upons s1 r leader_fn) }"

definition handle_timeout_propose :: "state_machine \<Rightarrow> round \<Rightarrow> sm_out" where
  "handle_timeout_propose s r =
     (if sm_step s \<noteq> StepPropose \<or> r \<noteq> sm_round s then (s, [])
      else (let (s', out) = advance_to_step StepPrevote s in (s', Prevote None r # out)))"

definition handle_prevote ::
    "state_machine \<Rightarrow> proposal_content_id option \<Rightarrow> round \<Rightarrow> (round \<Rightarrow> validator_id) \<Rightarrow> sm_out" where
  "handle_prevote s pid r leader_fn =
     map_round_to_upons (s\<lparr>sm_prevotes := count_vote (sm_prevotes s) pid r\<rparr>) r leader_fn"

definition handle_timeout_prevote :: "state_machine \<Rightarrow> round \<Rightarrow> sm_out" where
  "handle_timeout_prevote s r =
     (if sm_step s \<noteq> StepPrevote \<or> r \<noteq> sm_round s then (s, [])
      else (let (s', out) = advance_to_step StepPrecommit s in (s', Precommit None r # out)))"

definition handle_precommit ::
    "state_machine \<Rightarrow> proposal_content_id option \<Rightarrow> round \<Rightarrow> (round \<Rightarrow> validator_id) \<Rightarrow> sm_out" where
  "handle_precommit s pid r leader_fn =
     map_round_to_upons (s\<lparr>sm_precommits := count_vote (sm_precommits s) pid r\<rparr>) r leader_fn"

definition handle_timeout_precommit ::
    "state_machine \<Rightarrow> round \<Rightarrow> (round \<Rightarrow> validator_id) \<Rightarrow> sm_out" where
  "handle_timeout_precommit s r leader_fn =
     (if r \<noteq> sm_round s then (s, []) else advance_to_round s (r + 1) leader_fn)"

fun is_GetProposal :: "state_machine_event \<Rightarrow> bool" where
  "is_GetProposal (GetProposal _ _) = True"
| "is_GetProposal _ = False"

definition handle_event_internal ::
    "state_machine \<Rightarrow> state_machine_event \<Rightarrow> (round \<Rightarrow> validator_id) \<Rightarrow> sm_out option" where
  "handle_event_internal s event leader_fn = do {
     rs_assert (awaiting_get_proposal s \<longrightarrow> is_GetProposal event);
     (case event of
        GetProposal pid r \<Rightarrow> handle_get_proposal s pid r
      | Proposal pid r valid_round \<Rightarrow> handle_proposal s pid r valid_round leader_fn
      | Prevote pid r \<Rightarrow> Some (handle_prevote s pid r leader_fn)
      | Precommit pid r \<Rightarrow> Some (handle_precommit s pid r leader_fn)
      | Decision _ _ \<Rightarrow> None
      | TimeoutPropose r \<Rightarrow> Some (handle_timeout_propose s r)
      | TimeoutPrevote r \<Rightarrow> Some (handle_timeout_prevote s r)
      | TimeoutPrecommit r \<Rightarrow> Some (handle_timeout_precommit s r leader_fn)) }"

fun is_Decision :: "state_machine_event \<Rightarrow> bool" where
  "is_Decision (Decision _ _) = True"
| "is_Decision _ = False"

fun is_self_sent :: "state_machine_event \<Rightarrow> bool" where
  "is_self_sent (Proposal _ _ _) = True"
| "is_self_sent (Prevote _ _) = True"
| "is_self_sent (Precommit _ _) = True"
| "is_self_sent _ = False"

text \<open>
  The inner loop of \<^verbatim>\<open>handle_enqueued_events\<close>, over the events one call of
  \<open>handle_event_internal\<close> returned: which of them are sent to self, which are reported to
  the caller, and whether the method returns at once (the third component).
\<close>

fun dispatch_events ::
    "state_machine \<Rightarrow> state_machine_event list
      \<Rightarrow> (state_machine \<times> state_machine_event list \<times> bool) option" where
  "dispatch_events s [] = Some (s, [], False)"
| "dispatch_events s (e # es) =
     (if is_self_sent e then
        (if is_observer s then dispatch_events s es
         else do {
           (s', out, ret) \<leftarrow> dispatch_events (s\<lparr>events_queue := events_queue s @ [e]\<rparr>) es;
           Some (s', e # out, ret) })
      else if is_Decision e then Some (s, [e], True)
      else if is_GetProposal e then do {
        rs_assert (es = []);
        rs_assert (\<not> is_observer s);
        Some (s, [e], True) }
      else do {
        (s', out, ret) \<leftarrow> dispatch_events s es;
        Some (s', e # out, ret) })"

section \<open>The upon rules as a relation\<close>

text \<open>
  The rules of Algorithm 1 that the methods above implement, one introduction rule per
  \<open>upon\<close> clause, without the control flow of the code: any rule whose guard holds may fire.
  \<open>upon_rules\<close> is a sequence of firings with the concatenation of what they emit.
\<close>

inductive upon_rule :: "state_machine \<Rightarrow> state_machine_event list \<Rightarrow> state_machine \<Rightarrow> bool" where
  loc22: "sm_step s = StepPropose \<Longrightarrow> sm_proposals s (sm_round s) = Some (pid, None) \<Longrightarrow>
     upon_rule s [Prevote (new_proposal_vote s pid) (sm_round s)] (s\<lparr>sm_step := StepPrevote\<rparr>)"
| loc28: "sm_step s = StepPropose \<Longrightarrow> sm_proposals s (sm_round s) = Some (pid, Some vr) \<Longrightarrow>
     vr < sm_round s \<Longrightarrow> value_has_enough_votes (sm_prevotes s) vr pid (sm_quorum s) \<Longrightarrow>
     upon_rule s [Prevote (reproposal_vote s pid vr) (sm_round s)] (s\<lparr>sm_step := StepPrevote\<rparr>)"
| loc34: "sm_step s = StepPrevote \<Longrightarrow>
     round_has_enough_votes (sm_prevotes s) (sm_round s) (sm_quorum s) \<Longrightarrow>
     sm_round s \<notin> mixed_prevote_quorum s \<Longrightarrow>
     upon_rule s [TimeoutPrevote (sm_round s)]
       (s\<lparr>mixed_prevote_quorum := insert (sm_round s) (mixed_prevote_quorum s)\<rparr>)"
| loc36_lock: "sm_step s = StepPrevote \<Longrightarrow> sm_proposals s (sm_round s) = Some (Some pid, vr) \<Longrightarrow>
     value_has_enough_votes (sm_prevotes s) (sm_round s) (Some pid) (sm_quorum s) \<Longrightarrow>
     sm_round s \<notin> prevote_quorum s \<Longrightarrow>
     upon_rule s [Precommit (Some pid) (sm_round s)]
       (s\<lparr>prevote_quorum := insert (sm_round s) (prevote_quorum s),
          valid_value_round := Some (pid, sm_round s),
          locked_value_round := Some (pid, sm_round s),
          sm_step := StepPrecommit\<rparr>)"
| loc36_valid: "sm_step s = StepPrecommit \<Longrightarrow> sm_proposals s (sm_round s) = Some (Some pid, vr) \<Longrightarrow>
     value_has_enough_votes (sm_prevotes s) (sm_round s) (Some pid) (sm_quorum s) \<Longrightarrow>
     sm_round s \<notin> prevote_quorum s \<Longrightarrow>
     upon_rule s []
       (s\<lparr>prevote_quorum := insert (sm_round s) (prevote_quorum s),
          valid_value_round := Some (pid, sm_round s)\<rparr>)"
| loc44: "sm_step s = StepPrevote \<Longrightarrow>
     value_has_enough_votes (sm_prevotes s) (sm_round s) None (sm_quorum s) \<Longrightarrow>
     upon_rule s [Precommit None (sm_round s)] (s\<lparr>sm_step := StepPrecommit\<rparr>)"
| loc47: "round_has_enough_votes (sm_precommits s) (sm_round s) (sm_quorum s) \<Longrightarrow>
     sm_round s \<notin> mixed_precommit_quorum s \<Longrightarrow>
     upon_rule s [TimeoutPrecommit (sm_round s)]
       (s\<lparr>mixed_precommit_quorum := insert (sm_round s) (mixed_precommit_quorum s)\<rparr>)"
| loc49: "sm_proposals s r = Some (Some pid, vr) \<Longrightarrow>
     value_has_enough_votes (sm_precommits s) r (Some pid) (sm_quorum s) \<Longrightarrow>
     upon_rule s [Decision pid r] s"

inductive upon_rules :: "state_machine \<Rightarrow> state_machine_event list \<Rightarrow> state_machine \<Rightarrow> bool" where
  refl: "upon_rules s [] s"
| step: "upon_rule s o1 s1 \<Longrightarrow> upon_rules s1 o2 s2 \<Longrightarrow> upon_rules s (o1 @ o2) s2"

lemma upon_rules_trans:
  "upon_rules s o1 s1 \<Longrightarrow> upon_rules s1 o2 s2 \<Longrightarrow> upon_rules s (o1 @ o2) s2"
  by (induction rule: upon_rules.induct) (auto intro: upon_rules.step)

lemma upon_rules_single: "upon_rule s out s' \<Longrightarrow> upon_rules s out s'"
  using upon_rules.step[OF _ upon_rules.refl] by fastforce

lemma upon_rules_cons: "upon_rule s [e] s1 \<Longrightarrow> upon_rules s1 out s' \<Longrightarrow> upon_rules s (e # out) s'"
  using upon_rules.step by fastforce

lemma maybe_initiate_timeout_prevote_rules:
  "maybe_initiate_timeout_prevote s = (s', out) \<Longrightarrow> upon_rules s out s'"
  by (auto simp: maybe_initiate_timeout_prevote_def
      intro: upon_rules.refl upon_rules_single loc34 split: if_splits)

lemma maybe_initiate_timeout_precommit_rules:
  "maybe_initiate_timeout_precommit s = (s', out) \<Longrightarrow> upon_rules s out s'"
  by (auto simp: maybe_initiate_timeout_precommit_def
      intro: upon_rules.refl upon_rules_single loc47 split: if_splits)

lemma upon_decision_rules: "upon_decision s r = (s', out) \<Longrightarrow> upon_rules s out s'"
  by (auto simp: upon_decision_def
      intro!: upon_rules.refl upon_rules_single[OF loc49] split: if_splits option.splits)

lemma upons_follow_rules:
  "\<And>s' out. current_round_upons s = (s', out) \<Longrightarrow> upon_rules s out s'"
  "\<And>s' out. advance_to_step st s = (s', out) \<Longrightarrow> upon_rules (s\<lparr>sm_step := st\<rparr>) out s'"
  "\<And>s' out. upon_new_proposal s = (s', out) \<Longrightarrow> upon_rules s out s'"
  "\<And>s' out. upon_reproposal s = (s', out) \<Longrightarrow> upon_rules s out s'"
  "\<And>s' out. upon_prevote_quorum s = (s', out) \<Longrightarrow> upon_rules s out s'"
  "\<And>s' out. upon_nil_prevote_quorum s = (s', out) \<Longrightarrow> upon_rules s out s'"
proof (induction s and st s and s and s and s and s rule: current_round_upons_advance_to_step_upon_new_proposal_upon_reproposal_upon_prevote_quorum_upon_nil_prevote_quorum.induct)
  case (1 s)
  obtain s1 o1 where 1: "upon_new_proposal s = (s1, o1)" by force
  obtain s2 o2 where 2: "upon_reproposal s1 = (s2, o2)" by force
  obtain s3 o3 where 3: "maybe_initiate_timeout_prevote s2 = (s3, o3)" by force
  obtain s4 o4 where 4: "upon_prevote_quorum s3 = (s4, o4)" by force
  obtain s5 o5 where 5: "upon_nil_prevote_quorum s4 = (s5, o5)" by force
  obtain s6 o6 where 6: "maybe_initiate_timeout_precommit s5 = (s6, o6)" by force
  obtain s7 o7 where 7: "upon_decision s6 (sm_round s6) = (s7, o7)" by force
  have "upon_rules s o1 s1" "upon_rules s1 o2 s2" "upon_rules s3 o4 s4" "upon_rules s4 o5 s5"
    using "1.IH" 1 2 3 4 5 by metis+
  moreover have "upon_rules s2 o3 s3" "upon_rules s5 o6 s6" "upon_rules s6 o7 s7"
    using 3 6 7 by (auto dest: maybe_initiate_timeout_prevote_rules
        maybe_initiate_timeout_precommit_rules upon_decision_rules)
  ultimately have "upon_rules s (o1 @ o2 @ o3 @ o4 @ o5 @ o6 @ o7) s7"
    by (blast intro: upon_rules_trans)
  then show ?case
    using "1.prems" by (simp add: current_round_upons.simps 1 2 3 4 5 6 7)
next
  case (2 st s)
  then show ?case by (simp add: advance_to_step.simps)
next
  case (3 s)
  then show ?case
    by (auto simp: upon_new_proposal.simps intro!: upon_rules.refl intro: upon_rules_cons loc22
        split: if_splits option.splits prod.splits)
next
  case (4 s)
  then show ?case
    by (auto simp: upon_reproposal.simps not_le intro!: upon_rules.refl intro: upon_rules_cons loc28
        split: if_splits option.splits prod.splits)
next
  case (5 s)
  then show ?case
    by (cases "sm_step s")
      (auto simp: upon_prevote_quorum.simps Let_def intro!: upon_rules.refl intro: upon_rules_cons loc36_lock
        upon_rules_single loc36_valid split: if_splits option.splits prod.splits)
next
  case (6 s)
  then show ?case
    by (auto simp: upon_nil_prevote_quorum.simps intro!: upon_rules.refl intro: upon_rules_cons loc44
        split: if_splits option.splits prod.splits)
qed

section \<open>What the rules leave unchanged, and how much they emit\<close>

definition same_log :: "state_machine \<Rightarrow> state_machine \<Rightarrow> bool" where
  "same_log s s' \<longleftrightarrow>
     sm_id s' = sm_id s \<and> sm_quorum s' = sm_quorum s \<and>
     round_skip_threshold s' = round_skip_threshold s \<and> is_observer s' = is_observer s \<and>
     sm_proposals s' = sm_proposals s \<and> sm_prevotes s' = sm_prevotes s \<and>
     sm_precommits s' = sm_precommits s \<and> events_queue s' = events_queue s"

lemma same_log_refl [simp]: "same_log s s"
  by (simp add: same_log_def)

lemma same_log_trans: "same_log s1 s2 \<Longrightarrow> same_log s2 s3 \<Longrightarrow> same_log s1 s3"
  by (simp add: same_log_def)

fun event_round :: "state_machine_event \<Rightarrow> round" where
  "event_round (GetProposal _ r) = r"
| "event_round (Proposal _ r _) = r"
| "event_round (Prevote _ r) = r"
| "event_round (Precommit _ r) = r"
| "event_round (Decision _ r) = r"
| "event_round (TimeoutPropose r) = r"
| "event_round (TimeoutPrevote r) = r"
| "event_round (TimeoutPrecommit r) = r"

abbreviation n_self_sent :: "state_machine_event list \<Rightarrow> nat" where
  "n_self_sent out \<equiv> length (filter is_self_sent out)"

lemma upon_rule_effect:
  assumes "upon_rule s out s'"
  shows "same_log s s'" "sm_round s' = sm_round s"
    "awaiting_get_proposal s' = awaiting_get_proposal s"
    "n_self_sent out + rank_of s' \<le> rank_of s"
    "\<forall>e \<in> set out. is_self_sent e \<longrightarrow> event_round e = sm_round s"
    "\<forall>e \<in> set out. \<not> is_GetProposal e"
  using assms by (induction rule: upon_rule.induct) (simp_all add: same_log_def)

lemma upon_rules_effect:
  assumes "upon_rules s out s'"
  shows "same_log s s'" "sm_round s' = sm_round s"
    "awaiting_get_proposal s' = awaiting_get_proposal s"
    "n_self_sent out + rank_of s' \<le> rank_of s"
    "\<forall>e \<in> set out. is_self_sent e \<longrightarrow> event_round e = sm_round s"
    "\<forall>e \<in> set out. \<not> is_GetProposal e"
  using assms
  by (induction rule: upon_rules.induct)
    (auto dest: upon_rule_effect same_log_trans)

end
