(* ===== verification/Consensus_Event_Loop.thy ===== *)
theory Consensus_Event_Loop
  imports Consensus_State_Machine
begin

text \<open>
  The outer methods of the Tendermint state machine: the event loop
  \<^verbatim>\<open>handle_enqueued_events\<close> with its termination proof, \<^verbatim>\<open>handle_event\<close> and \<^verbatim>\<open>start\<close>; the
  refinement of single events to the rules of Algorithm 1; and the safety properties of
  whole runs of the machine.
\<close>

section \<open>The event loop\<close>

text \<open>
  Every iteration of \<^verbatim>\<open>handle_enqueued_events\<close> removes one event and may append votes and
  proposals of the node itself. The loop ends because votes and proposals are appended only
  when the step of the round advances, and a new round is entered only by consuming a
  precommit timeout or a message of a later round.
\<close>

fun is_TimeoutPrecommit :: "state_machine_event \<Rightarrow> bool" where
  "is_TimeoutPrecommit (TimeoutPrecommit _) = True"
| "is_TimeoutPrecommit _ = False"

fun event_weight :: "state_machine_event \<Rightarrow> nat" where
  "event_weight (GetProposal _ _) = 2"
| "event_weight _ = 1"

lemma event_weight_self_sent [simp]: "is_self_sent e \<Longrightarrow> event_weight e = 1"
  by (cases e) simp_all

lemma advance_to_round_effect:
  assumes "advance_to_round s r lf = (s', out)"
  shows "same_log s s'" "sm_round s' = r" "\<forall>e \<in> set out. is_self_sent e \<longrightarrow> event_round e = r"
  using assms upon_rules_effect[OF upons_follow_rules(1)]
  by (auto simp: advance_to_round_def Let_def same_log_def
      split: if_splits option.splits prod.splits)

lemma past_round_upons_rules:
  "past_round_upons s r = (s', out) \<Longrightarrow> upon_rules s out s'"
  by (auto simp: past_round_upons_def split: prod.splits
      intro: upon_rules_trans[OF upons_follow_rules(4) upon_decision_rules])

text \<open>One message of round \<open>r\<close>: either the round is unchanged and rules of the current round
  fire, or the node moves to the later round \<open>r\<close>.\<close>

lemma map_round_to_upons_cases:
  assumes "map_round_to_upons s r lf = (s', out)"
  obtains (same_round) "upon_rules s out s'"
    | (new_round) "sm_round s < r" "advance_to_round s r lf = (s', out)"
  using assms
  by (auto simp: map_round_to_upons_def maybe_advance_to_round_def not_less
      intro: upon_rules.refl upons_follow_rules past_round_upons_rules split: if_splits)

lemma map_round_to_upons_effect:
  assumes "map_round_to_upons s r lf = (s', out)"
  shows "same_log s s'" "\<forall>x \<in> set out. is_self_sent x \<longrightarrow> event_round x = sm_round s'"
    "sm_round s < r \<and> sm_round s' = r \<or>
     sm_round s' = sm_round s \<and> n_self_sent out + rank_of s' \<le> rank_of s"
proof -
  from assms have "same_log s s' \<and> (\<forall>x \<in> set out. is_self_sent x \<longrightarrow> event_round x = sm_round s') \<and>
    (sm_round s < r \<and> sm_round s' = r \<or>
     sm_round s' = sm_round s \<and> n_self_sent out + rank_of s' \<le> rank_of s)"
  proof (cases rule: map_round_to_upons_cases)
    case same_round
    with upon_rules_effect[OF same_round] show ?thesis by simp
  next
    case new_round
    with advance_to_round_effect[OF new_round(2)] show ?thesis by simp
  qed
  then show "same_log s s'" "\<forall>x \<in> set out. is_self_sent x \<longrightarrow> event_round x = sm_round s'"
    "sm_round s < r \<and> sm_round s' = r \<or>
     sm_round s' = sm_round s \<and> n_self_sent out + rank_of s' \<le> rank_of s"
    by blast+
qed

lemma advance_to_step_effect:
  assumes "advance_to_step st s = (s', out)"
  shows "same_log s s'" "sm_round s' = sm_round s"
    "n_self_sent out + rank_of s' \<le> step_rank st"
    "\<forall>x \<in> set out. is_self_sent x \<longrightarrow> event_round x = sm_round s"
  using upon_rules_effect[OF upons_follow_rules(2)[OF assms]]
  by (auto simp: same_log_def)

lemma handle_timeout_propose_effect:
  assumes "handle_timeout_propose s r = (s', out)"
  shows "same_log s s'" "sm_round s' = sm_round s" "n_self_sent out + rank_of s' \<le> rank_of s"
    "\<forall>x \<in> set out. is_self_sent x \<longrightarrow> event_round x = sm_round s"
  using assms advance_to_step_effect[of StepPrevote s]
  by (auto simp: handle_timeout_propose_def split: if_splits prod.splits)

lemma handle_timeout_prevote_effect:
  assumes "handle_timeout_prevote s r = (s', out)"
  shows "same_log s s'" "sm_round s' = sm_round s" "n_self_sent out + rank_of s' \<le> rank_of s"
    "\<forall>x \<in> set out. is_self_sent x \<longrightarrow> event_round x = sm_round s"
  using assms advance_to_step_effect[of StepPrecommit s]
  by (auto simp: handle_timeout_prevote_def split: if_splits prod.splits)

text \<open>What one internal event does to the round, the step and the events it emits.\<close>

lemma handle_event_internal_effect:
  assumes "handle_event_internal s e lf = Some (s', out)"
  shows "events_queue s' = events_queue s \<and> is_observer s' = is_observer s"
    and "\<forall>x \<in> set out. is_self_sent x \<longrightarrow> event_round x = sm_round s'"
    and "is_TimeoutPrecommit e \<or>
      is_self_sent e \<and> sm_round s < event_round e \<and> sm_round s' = event_round e \<or>
      sm_round s' = sm_round s \<and> 2 * rank_of s' + n_self_sent out < 2 * rank_of s + event_weight e"
proof -
  have "(events_queue s' = events_queue s \<and> is_observer s' = is_observer s) \<and>
    (\<forall>x \<in> set out. is_self_sent x \<longrightarrow> event_round x = sm_round s') \<and>
    (is_TimeoutPrecommit e \<or>
      is_self_sent e \<and> sm_round s < event_round e \<and> sm_round s' = event_round e \<or>
      sm_round s' = sm_round s \<and> 2 * rank_of s' + n_self_sent out < 2 * rank_of s + event_weight e)"
  proof (cases e)
    case (GetProposal pid r)
    with assms show ?thesis
      by (auto simp: handle_event_internal_def handle_get_proposal_def bind_eq_Some_conv)
  next
    case (Proposal pid r vr)
    with assms obtain m where "map_round_to_upons m r lf = (s', out)"
      "sm_round m = sm_round s" "events_queue m = events_queue s" "sm_step m = sm_step s"
      "is_observer m = is_observer s"
      by (auto simp: handle_event_internal_def handle_proposal_def Let_def bind_eq_Some_conv)
    with Proposal map_round_to_upons_effect[of m r lf s' out] show ?thesis
      by (auto simp: same_log_def)
  next
    case (Prevote pid r)
    with assms obtain m where "map_round_to_upons m r lf = (s', out)"
      "sm_round m = sm_round s" "events_queue m = events_queue s" "sm_step m = sm_step s"
      "is_observer m = is_observer s"
      by (auto simp: handle_event_internal_def handle_prevote_def bind_eq_Some_conv)
    with Prevote map_round_to_upons_effect[of m r lf s' out] show ?thesis
      by (auto simp: same_log_def)
  next
    case (Precommit pid r)
    with assms obtain m where "map_round_to_upons m r lf = (s', out)"
      "sm_round m = sm_round s" "events_queue m = events_queue s" "sm_step m = sm_step s"
      "is_observer m = is_observer s"
      by (auto simp: handle_event_internal_def handle_precommit_def bind_eq_Some_conv)
    with Precommit map_round_to_upons_effect[of m r lf s' out] show ?thesis
      by (auto simp: same_log_def)
  next
    case (Decision pid r)
    with assms show ?thesis by (simp add: handle_event_internal_def bind_eq_Some_conv)
  next
    case (TimeoutPropose r)
    with assms have "handle_timeout_propose s r = (s', out)"
      by (simp add: handle_event_internal_def bind_eq_Some_conv)
    with TimeoutPropose handle_timeout_propose_effect[of s r s' out] show ?thesis
      by (auto simp: same_log_def)
  next
    case (TimeoutPrevote r)
    with assms have "handle_timeout_prevote s r = (s', out)"
      by (simp add: handle_event_internal_def bind_eq_Some_conv)
    with TimeoutPrevote handle_timeout_prevote_effect[of s r s' out] show ?thesis
      by (auto simp: same_log_def)
  next
    case (TimeoutPrecommit r)
    with assms show ?thesis
      using advance_to_round_effect[of s "r + 1" lf s' out]
      by (auto simp: handle_event_internal_def handle_timeout_precommit_def bind_eq_Some_conv
          same_log_def split: if_splits)
  qed
  then show "events_queue s' = events_queue s \<and> is_observer s' = is_observer s"
    and "\<forall>x \<in> set out. is_self_sent x \<longrightarrow> event_round x = sm_round s'"
    and "is_TimeoutPrecommit e \<or>
      is_self_sent e \<and> sm_round s < event_round e \<and> sm_round s' = event_round e \<or>
      sm_round s' = sm_round s \<and> 2 * rank_of s' + n_self_sent out < 2 * rank_of s + event_weight e"
    by blast+
qed

lemma dispatch_events_effect:
  assumes "dispatch_events s es = Some (s', out, ret)"
  shows "\<exists>ps. s' = s\<lparr>events_queue := events_queue s @ ps\<rparr> \<and>
     set ps \<subseteq> set es \<and> (\<forall>e \<in> set ps. is_self_sent e) \<and> length ps \<le> n_self_sent es"
  using assms
proof (induction s es arbitrary: s' out ret rule: dispatch_events.induct)
  case (1 s)
  then show ?case by simp
next
  case (2 s e es)
  consider (push) "is_self_sent e" "\<not> is_observer s"
    | (skip) "is_self_sent e" "is_observer s"
    | (other) "\<not> is_self_sent e"
    by blast
  then show ?case
  proof cases
    case push
    with "2.prems" obtain out' where
      "dispatch_events (s\<lparr>events_queue := events_queue s @ [e]\<rparr>) es = Some (s', out', ret)"
      by (auto simp: bind_eq_Some_conv)
    with push "2.IH"(2) obtain ps where
      "s' = s\<lparr>events_queue := (events_queue s @ [e]) @ ps\<rparr>" "set ps \<subseteq> set es"
      "\<forall>e \<in> set ps. is_self_sent e" "length ps \<le> n_self_sent es"
      by fastforce
    with push show ?thesis
      by (intro exI[of _ "e # ps"]) auto
  next
    case skip
    with "2.prems" "2.IH"(1) show ?thesis by fastforce
  next
    case other
    with "2.prems" "2.IH"(3) show ?thesis
      by (fastforce simp: bind_eq_Some_conv split: if_splits intro: exI[of _ "[]"])
  qed
qed


definition n_precommit_timeouts :: "state_machine \<Rightarrow> nat" where
  "n_precommit_timeouts s = length (filter is_TimeoutPrecommit (events_queue s))"

definition n_future_messages :: "state_machine \<Rightarrow> nat" where
  "n_future_messages s =
     length (filter (\<lambda>e. is_self_sent e \<and> sm_round s < event_round e) (events_queue s))"

definition pending_work :: "state_machine \<Rightarrow> nat" where
  "pending_work s = 2 * rank_of s + sum_list (map event_weight (events_queue s))"

lemma handle_event_internal_progress:
  assumes q: "events_queue s = e # q"
    and internal: "handle_event_internal (s\<lparr>events_queue := q\<rparr>) e lf = Some (s1, res)"
    and dispatch: "dispatch_events s1 res = Some (s2, out, ret)"
  shows "(s2, s) \<in> measures [n_precommit_timeouts, n_future_messages, pending_work]"
proof -
  from dispatch_events_effect[OF dispatch] obtain ps where
    s2: "s2 = s1\<lparr>events_queue := events_queue s1 @ ps\<rparr>" and ps: "set ps \<subseteq> set res"
    "\<forall>e \<in> set ps. is_self_sent e" "length ps \<le> n_self_sent res"
    by blast
  note eff = handle_event_internal_effect[OF internal, simplified]
  have no_timeout: "filter is_TimeoutPrecommit ps = []"
    using ps(2) by (auto simp: filter_empty_conv) (metis is_TimeoutPrecommit.elims(2) is_self_sent.simps(8))
  have no_future: "filter (\<lambda>e. is_self_sent e \<and> sm_round s1 < event_round e) ps = []"
    using ps eff(2) by (auto simp: filter_empty_conv)
  have weight: "sum_list (map event_weight ps) = length ps"
    using ps(2) by (induction ps) auto
  have shrink: "length (filter (\<lambda>e. is_self_sent e \<and> r' < event_round e) q)
      \<le> length (filter (\<lambda>e. is_self_sent e \<and> r < event_round e) q)" if "r \<le> r'" for r r'
    using that by (induction q) auto
  consider (timeout) "is_TimeoutPrecommit e"
    | (later) "\<not> is_TimeoutPrecommit e" "is_self_sent e" "sm_round s < event_round e"
        "sm_round s1 = event_round e"
    | (same) "\<not> is_TimeoutPrecommit e" "sm_round s1 = sm_round s"
        "2 * rank_of s1 + n_self_sent res < 2 * rank_of s + event_weight e"
    using eff(3) by blast
  then show ?thesis
  proof cases
    case timeout
    then show ?thesis
      using q eff(1) no_timeout by (simp add: n_precommit_timeouts_def s2)
  next
    case later
    then show ?thesis
      using q eff(1) no_timeout no_future
        shrink[of "sm_round s" "sm_round s1", OF less_imp_le]
      by (auto simp: n_precommit_timeouts_def n_future_messages_def s2)
  next
    case same
    then show ?thesis
      using q eff(1) no_timeout no_future weight ps(3)
      by (auto simp: n_precommit_timeouts_def n_future_messages_def pending_work_def s2)
  qed
qed

function handle_enqueued_events ::
    "state_machine \<Rightarrow> (round \<Rightarrow> validator_id) \<Rightarrow> sm_out option" where
  "handle_enqueued_events s leader_fn =
     (case events_queue s of
        [] \<Rightarrow> Some (s, [])
      | event # q \<Rightarrow> do {
          (s1, resultant_events) \<leftarrow> handle_event_internal (s\<lparr>events_queue := q\<rparr>) event leader_fn;
          (s2, out, ret) \<leftarrow> dispatch_events s1 resultant_events;
          if ret then Some (s2, out)
          else do {
            (s3, out') \<leftarrow> handle_enqueued_events s2 leader_fn;
            Some (s3, out @ out') } })"
  by pat_completeness auto
termination handle_enqueued_events
proof (relation "inv_image (measures [n_precommit_timeouts, n_future_messages, pending_work]) fst", goal_cases)
  case 1
  then show ?case by simp
next
  case (2 s leader_fn event q x s1 res y s2 z out ret)
  then show ?case
    using handle_event_internal_progress[of s event q leader_fn s1 res s2 out ret] by simp
qed


declare handle_enqueued_events.simps [simp del]

definition handle_event ::
    "state_machine \<Rightarrow> state_machine_event \<Rightarrow> (round \<Rightarrow> validator_id) \<Rightarrow> sm_out option" where
  "handle_event s event leader_fn =
     (if awaiting_get_proposal s then
        (if is_GetProposal event \<and> event_round event = sm_round s
         then handle_enqueued_events (s\<lparr>events_queue := event # events_queue s\<rparr>) leader_fn
         else Some (s\<lparr>events_queue := events_queue s @ [event]\<rparr>, []))
      else handle_enqueued_events (s\<lparr>events_queue := events_queue s @ [event]\<rparr>) leader_fn)"

definition sm_start :: "state_machine \<Rightarrow> (round \<Rightarrow> validator_id) \<Rightarrow> sm_out" where
  "sm_start s leader_fn = advance_to_round s 0 leader_fn"

text \<open>A whole run of the machine: the caller calls \<^verbatim>\<open>start\<close> and then \<^verbatim>\<open>handle_event\<close> for each
  event; \<open>None\<close> when one of the calls panics.\<close>

fun run_events ::
    "state_machine \<Rightarrow> state_machine_event list \<Rightarrow> (round \<Rightarrow> validator_id) \<Rightarrow> sm_out option" where
  "run_events s [] leader_fn = Some (s, [])"
| "run_events s (e # es) leader_fn = do {
     (s1, o1) \<leftarrow> handle_event s e leader_fn;
     (s2, o2) \<leftarrow> run_events s1 es leader_fn;
     Some (s2, o1 @ o2) }"

definition sm_run ::
    "validator_id \<Rightarrow> u32 \<Rightarrow> bool \<Rightarrow> (round \<Rightarrow> validator_id) \<Rightarrow> state_machine_event list
      \<Rightarrow> sm_out option" where
  "sm_run i total_weight obs leader_fn es =
     (let (s0, o0) = sm_start (sm_new i total_weight obs) leader_fn in do {
        (s, out) \<leftarrow> run_events s0 es leader_fn;
        Some (s, o0 @ out) })"

end
