(* ===== verification/Consensus_Safety.thy ===== *)
theory Consensus_Safety
  imports Consensus_Event_Loop "HOL-Library.Sublist"
begin

text \<open>
  Safety of the Tendermint state machine of
  \<^verbatim>\<open>crates/sequencing/papyrus_consensus/src/state_machine.rs\<close>: handling one event is a
  sequence of rules of Algorithm 1; over a whole run the machine emits at most one prevote
  and one precommit per round; votes for a value and decisions are justified by the recorded
  proposals and votes.
\<close>

section \<open>Refinement to the rules of the algorithm\<close>

text \<open>
  \<open>tm_rule\<close> adds to the \<open>upon\<close> rules what the timeouts and the start of a round do while an event \<open>e\<close> is
  handled. A timeout acts only when its own event is handled in its round. A round is only ever entered from an
  earlier one, with enough votes of the new round to skip to it (LOC 55) or, for the next round, on the precommit
  timeout of the current one (LOC 65).
\<close>

definition may_enter :: "state_machine_event \<Rightarrow> state_machine \<Rightarrow> round \<Rightarrow> bool" where
  "may_enter e s r \<longleftrightarrow> sm_round s < r \<and>
     (round_has_enough_votes (sm_prevotes s) r (round_skip_threshold s) \<or>
      round_has_enough_votes (sm_precommits s) r (round_skip_threshold s) \<or>
      e = TimeoutPrecommit (sm_round s) \<and> r = sm_round s + 1)"

inductive tm_rule ::
    "state_machine_event \<Rightarrow> (round \<Rightarrow> validator_id) \<Rightarrow> state_machine \<Rightarrow> state_machine_event list \<Rightarrow> state_machine \<Rightarrow> bool"
  for e leader_fn where
  upon: "upon_rule s out s' \<Longrightarrow> tm_rule e leader_fn s out s'"
| loc19: "awaiting_get_proposal s \<Longrightarrow> e = GetProposal pid (sm_round s) \<Longrightarrow>
     tm_rule e leader_fn s [Proposal pid (sm_round s) None] (s\<lparr>awaiting_get_proposal := False\<rparr>)"
| loc57: "sm_step s = StepPropose \<Longrightarrow> e = TimeoutPropose (sm_round s) \<Longrightarrow>
     tm_rule e leader_fn s [Prevote None (sm_round s)] (s\<lparr>sm_step := StepPrevote\<rparr>)"
| loc61: "sm_step s = StepPrevote \<Longrightarrow> e = TimeoutPrevote (sm_round s) \<Longrightarrow>
     tm_rule e leader_fn s [Precommit None (sm_round s)] (s\<lparr>sm_step := StepPrecommit\<rparr>)"
| loc11_repropose: "may_enter e s r \<Longrightarrow> \<not> is_observer s \<Longrightarrow> sm_id s = leader_fn r \<Longrightarrow>
     valid_value_round s = Some (pid, vr) \<Longrightarrow>
     tm_rule e leader_fn s [Proposal (Some pid) r (Some vr)]
       (s\<lparr>sm_round := r, sm_step := StepPropose\<rparr>)"
| loc11_build: "may_enter e s r \<Longrightarrow> \<not> is_observer s \<Longrightarrow> sm_id s = leader_fn r \<Longrightarrow>
     valid_value_round s = None \<Longrightarrow>
     tm_rule e leader_fn s [GetProposal None r]
       (s\<lparr>sm_round := r, sm_step := StepPropose, awaiting_get_proposal := True\<rparr>)"
| loc11_follow: "may_enter e s r \<Longrightarrow> is_observer s \<or> sm_id s \<noteq> leader_fn r \<Longrightarrow>
     tm_rule e leader_fn s [TimeoutPropose r] (s\<lparr>sm_round := r, sm_step := StepPropose\<rparr>)"

inductive tm_rules ::
    "state_machine_event \<Rightarrow> (round \<Rightarrow> validator_id) \<Rightarrow> state_machine \<Rightarrow> state_machine_event list \<Rightarrow> state_machine \<Rightarrow> bool"
  for e leader_fn where
  refl: "tm_rules e leader_fn s [] s"
| step: "tm_rule e leader_fn s o1 s1 \<Longrightarrow> tm_rules e leader_fn s1 o2 s2
     \<Longrightarrow> tm_rules e leader_fn s (o1 @ o2) s2"

lemma may_enter_later: "may_enter e s r \<Longrightarrow> sm_round s < r"
  by (simp add: may_enter_def)

lemma tm_rules_cons:
  "tm_rule e lf s [x] s1 \<Longrightarrow> tm_rules e lf s1 out s' \<Longrightarrow> tm_rules e lf s (x # out) s'"
  using tm_rules.step by fastforce

lemma tm_rules_single: "tm_rule e lf s [x] s' \<Longrightarrow> tm_rules e lf s [x] s'"
  by (rule tm_rules_cons[OF _ tm_rules.refl])

lemma upon_rules_tm_rules: "upon_rules s out s' \<Longrightarrow> tm_rules e lf s out s'"
  by (induction rule: upon_rules.induct) (auto intro: tm_rules.intros tm_rule.upon)

lemma current_round_upons_tm_rules: "current_round_upons s = (s', out) \<Longrightarrow> tm_rules e lf s out s'"
  by (rule upon_rules_tm_rules[OF upons_follow_rules(1)])

lemma advance_to_step_tm_rules:
  "advance_to_step st s = (s', out) \<Longrightarrow> tm_rules e lf (s\<lparr>sm_step := st\<rparr>) out s'"
  by (rule upon_rules_tm_rules[OF upons_follow_rules(2)])

text \<open>How an incoming message is recorded before the rules are evaluated.\<close>

fun log_event :: "state_machine_event \<Rightarrow> state_machine \<Rightarrow> state_machine" where
  "log_event (Proposal pid r vr) s = s\<lparr>sm_proposals := (sm_proposals s)(r \<mapsto> (pid, vr))\<rparr>"
| "log_event (Prevote pid r) s = s\<lparr>sm_prevotes := count_vote (sm_prevotes s) pid r\<rparr>"
| "log_event (Precommit pid r) s = s\<lparr>sm_precommits := count_vote (sm_precommits s) pid r\<rparr>"
| "log_event _ s = s"

lemma advance_to_round_tm_rules:
  assumes "advance_to_round s r lf = (s', out)" "may_enter e s r"
  shows "tm_rules e lf s out s'"
  using assms
  by (auto simp: advance_to_round_def Let_def split: if_splits option.splits prod.splits
      intro!: tm_rules_cons[OF loc11_repropose current_round_upons_tm_rules]
        tm_rules_single[OF loc11_build] tm_rules_cons[OF loc11_follow current_round_upons_tm_rules])

lemma map_round_to_upons_tm_rules:
  assumes "map_round_to_upons s r lf = (s', out)"
  shows "tm_rules e lf s out s'"
proof (cases "sm_round s < r")
  case True
  with assms have "maybe_advance_to_round s r lf = (s', out)" by (auto simp: map_round_to_upons_def split: if_splits)
  with True show ?thesis
    by (auto simp: maybe_advance_to_round_def may_enter_def intro: tm_rules.refl advance_to_round_tm_rules split: if_splits)
next
  case False
  with assms show ?thesis
    by (auto elim!: map_round_to_upons_cases intro: upon_rules_tm_rules)
qed

lemma word_less_add_one:
  assumes "(r::round) \<noteq> -1"
  shows "r < r + 1"
proof -
  from assms have "1 + r \<noteq> 0"
    by (metis add_eq_0_iff)
  then have "unat (1 + r) = Suc (unat r)"
    by (rule unatSuc)
  then show ?thesis
    by (simp add: word_less_nat_alt add.commute)
qed

lemma handle_event_internal_tm_rules:
  assumes "handle_event_internal s e lf = Some (s', out)" and "e \<noteq> TimeoutPrecommit (-1)"
  shows "tm_rules e lf (log_event e s) out s'"
proof (cases e)
  case (TimeoutPrecommit r)
  with assms word_less_add_one[of r] show ?thesis
    by (auto simp: handle_event_internal_def handle_timeout_precommit_def may_enter_def
        intro: tm_rules.refl advance_to_round_tm_rules split: if_splits)
next
  case (TimeoutPropose r)
  with assms show ?thesis
    by (auto simp: handle_event_internal_def handle_timeout_propose_def split: if_splits prod.splits
        intro: tm_rules.refl tm_rules_cons[OF loc57 advance_to_step_tm_rules])
next
  case (TimeoutPrevote r)
  with assms show ?thesis
    by (auto simp: handle_event_internal_def handle_timeout_prevote_def split: if_splits prod.splits
        intro: tm_rules.refl tm_rules_cons[OF loc61 advance_to_step_tm_rules])
next
  case (GetProposal pid r)
  with assms show ?thesis
    by (auto simp: handle_event_internal_def handle_get_proposal_def bind_eq_Some_conv
        intro: tm_rules_single[OF loc19])
qed (use assms in \<open>auto simp: handle_event_internal_def handle_proposal_def handle_prevote_def
    handle_precommit_def Let_def bind_eq_Some_conv intro: map_round_to_upons_tm_rules\<close>)

section \<open>One vote of each kind per round\<close>

fun is_Prevote :: "state_machine_event \<Rightarrow> bool" where
  "is_Prevote (Prevote _ _) = True"
| "is_Prevote _ = False"

fun is_Precommit :: "state_machine_event \<Rightarrow> bool" where
  "is_Precommit (Precommit _ _) = True"
| "is_Precommit _ = False"

definition prevote_rounds :: "state_machine_event list \<Rightarrow> round list" where
  "prevote_rounds out = map event_round (filter is_Prevote out)"

definition precommit_rounds :: "state_machine_event list \<Rightarrow> round list" where
  "precommit_rounds out = map event_round (filter is_Precommit out)"

definition votes_in_order :: "state_machine \<Rightarrow> state_machine_event list \<Rightarrow> bool" where
  "votes_in_order s out \<longleftrightarrow>
     sorted_wrt (<) (prevote_rounds out) \<and> sorted_wrt (<) (precommit_rounds out) \<and>
     (\<forall>r \<in> set (prevote_rounds out). r < sm_round s \<or> r = sm_round s \<and> sm_step s \<noteq> StepPropose) \<and>
     (\<forall>r \<in> set (precommit_rounds out). r < sm_round s \<or> r = sm_round s \<and> sm_step s = StepPrecommit)"

lemma vote_rounds_simps [simp]:
  "prevote_rounds [] = []" "precommit_rounds [] = []"
  "prevote_rounds (e # es) = (if is_Prevote e then [event_round e] else []) @ prevote_rounds es"
  "precommit_rounds (e # es) = (if is_Precommit e then [event_round e] else []) @ precommit_rounds es"
  "prevote_rounds (xs @ ys) = prevote_rounds xs @ prevote_rounds ys"
  "precommit_rounds (xs @ ys) = precommit_rounds xs @ precommit_rounds ys"
  by (simp_all add: prevote_rounds_def precommit_rounds_def)

lemma votes_in_order_upon_rule:
  "upon_rule s out s' \<Longrightarrow> votes_in_order s before \<Longrightarrow> votes_in_order s' (before @ out)"
  by (induction rule: upon_rule.induct) (auto simp: votes_in_order_def sorted_wrt_append)

lemma votes_in_order_tm_rule:
  "tm_rule e lf s out s' \<Longrightarrow> votes_in_order s before \<Longrightarrow> votes_in_order s' (before @ out)"
proof (induction rule: tm_rule.induct)
  case (upon s out s')
  then show ?case by (rule votes_in_order_upon_rule)
qed (auto simp: votes_in_order_def sorted_wrt_append dest!: may_enter_later)

lemma votes_in_order_tm_rules:
  "tm_rules e lf s out s' \<Longrightarrow> votes_in_order s before \<Longrightarrow> votes_in_order s' (before @ out)"
proof (induction arbitrary: before rule: tm_rules.induct)
  case (step s o1 s1 o2 s2)
  then have "votes_in_order s2 ((before @ o1) @ o2)"
    by (blast intro: votes_in_order_tm_rule)
  then show ?case by simp
qed simp

lemma dispatch_events_subseq:
  "dispatch_events s es = Some (s', out, ret) \<Longrightarrow> subseq out es"
  by (induction s es arbitrary: s' out ret rule: dispatch_events.induct)
    (auto simp: bind_eq_Some_conv split: if_splits)

lemma subseq_sorted_wrt: "subseq xs ys \<Longrightarrow> sorted_wrt P ys \<Longrightarrow> sorted_wrt P xs"
  by (induction rule: list_emb.induct) (auto dest: list_emb_set)

lemma votes_in_order_subseq:
  assumes "subseq out res" "votes_in_order s (before @ res)"
  shows "votes_in_order s (before @ out)"
proof -
  from assms(1) have "subseq (prevote_rounds (before @ out)) (prevote_rounds (before @ res))"
    "subseq (precommit_rounds (before @ out)) (precommit_rounds (before @ res))"
    by (simp_all add: prevote_rounds_def precommit_rounds_def subseq_map subseq_filter
        list_emb_append_mono)
  note sorted = this[THEN subseq_sorted_wrt]
  have "set out \<subseteq> set res"
    by (auto elim: list_emb_set[OF assms(1)])
  then have "set (prevote_rounds out) \<subseteq> set (prevote_rounds res)"
    "set (precommit_rounds out) \<subseteq> set (precommit_rounds res)"
    by (auto simp: prevote_rounds_def precommit_rounds_def)
  with assms(2) sorted show ?thesis
    unfolding votes_in_order_def by (simp add: subset_iff Ball_def)
qed

lemma votes_in_order_queue [simp]:
  "votes_in_order (s\<lparr>events_queue := q\<rparr>) out = votes_in_order s out"
  by (simp add: votes_in_order_def)

lemma votes_in_order_log_event [simp]: "votes_in_order (log_event e s) out = votes_in_order s out"
  by (cases e) (simp_all add: votes_in_order_def)

lemma handle_enqueued_events_votes:
  assumes "handle_enqueued_events s lf = Some (s', out)"
    and "votes_in_order s before" and "TimeoutPrecommit (-1) \<notin> set (events_queue s)"
  shows "votes_in_order s' (before @ out) \<and> TimeoutPrecommit (-1) \<notin> set (events_queue s')"
  using assms
proof (induction s lf arbitrary: s' out before rule: handle_enqueued_events.induct)
  case (1 s lf)
  show ?case
  proof (cases "events_queue s")
    case Nil
    with "1.prems" show ?thesis by (simp add: handle_enqueued_events.simps)
  next
    case (Cons e q)
    with "1.prems"(1) obtain s1 res s2 o1 ret where
      int: "handle_event_internal (s\<lparr>events_queue := q\<rparr>) e lf = Some (s1, res)" and
      dis: "dispatch_events s1 res = Some (s2, o1, ret)" and
      rest: "if ret then s' = s2 \<and> out = o1
        else \<exists>o2. handle_enqueued_events s2 lf = Some (s', o2) \<and> out = o1 @ o2"
      by (subst (asm) handle_enqueued_events.simps)
        (auto simp: bind_eq_Some_conv split: if_splits)
    from int Cons "1.prems"(3)
    have "tm_rules e lf (log_event e (s\<lparr>events_queue := q\<rparr>)) res s1"
      by (intro handle_event_internal_tm_rules) auto
    then have "votes_in_order s1 (before @ res)"
      by (rule votes_in_order_tm_rules) (simp add: "1.prems"(2))
    then have v1: "votes_in_order s1 (before @ o1)"
      by (rule votes_in_order_subseq[OF dispatch_events_subseq[OF dis]])
    from dispatch_events_effect[OF dis] obtain ps where
      s2: "s2 = s1\<lparr>events_queue := events_queue s1 @ ps\<rparr>" "\<forall>e \<in> set ps. is_self_sent e"
      by blast
    then have q2: "TimeoutPrecommit (-1) \<notin> set (events_queue s2)"
      using "1.prems"(3) Cons handle_event_internal_effect(1)[OF int] by force
    from v1 s2 have v2: "votes_in_order s2 (before @ o1)"
      by simp
    show ?thesis
    proof (cases ret)
      case True
      with rest v2 q2 show ?thesis by simp
    next
      case False
      with rest obtain o2 where o2: "handle_enqueued_events s2 lf = Some (s', o2)" "out = o1 @ o2"
        by auto
      with "1.IH"[OF Cons int _ dis _ _ False o2(1) v2 q2] show ?thesis by simp
    qed
  qed
qed

lemma handle_event_votes:
  assumes "handle_event s e lf = Some (s', out)" "e \<noteq> TimeoutPrecommit (-1)"
    and "votes_in_order s before" and "TimeoutPrecommit (-1) \<notin> set (events_queue s)"
  shows "votes_in_order s' (before @ out) \<and> TimeoutPrecommit (-1) \<notin> set (events_queue s')"
  using assms handle_enqueued_events_votes[of "s\<lparr>events_queue := _\<rparr>" lf s' out before]
  by (auto simp: handle_event_def split: if_splits)

lemma run_events_votes:
  assumes "run_events s es lf = Some (s', out)" "TimeoutPrecommit (-1) \<notin> set es"
    and "votes_in_order s before" and "TimeoutPrecommit (-1) \<notin> set (events_queue s)"
  shows "votes_in_order s' (before @ out)"
  using assms
proof (induction s es lf arbitrary: s' out before rule: run_events.induct)
  case (2 s e es lf)
  then obtain s1 o1 o2 where h: "handle_event s e lf = Some (s1, o1)"
    "run_events s1 es lf = Some (s', o2)" "out = o1 @ o2"
    by (auto simp: bind_eq_Some_conv)
  with "2.prems" have "votes_in_order s1 (before @ o1) \<and> TimeoutPrecommit (-1) \<notin> set (events_queue s1)"
    by (intro handle_event_votes) auto
  with "2.IH"[OF h(1) _ h(2), of _ "before @ o1"] h(3) "2.prems"(2) show ?case by auto
qed simp

section \<open>Votes and decisions are justified\<close>

text \<open>Once the precommit of a round is out, no rule votes again or changes the lock.\<close>

lemma upon_rule_after_precommit:
  assumes "upon_rule s out s'" "sm_step s = StepPrecommit"
  shows "sm_step s' = StepPrecommit" "locked_value_round s' = locked_value_round s"
    "\<forall>e \<in> set out. \<not> is_self_sent e"
  using assms by (induction rule: upon_rule.induct) auto

lemma upon_rules_after_precommit:
  assumes "upon_rules s out s'" "sm_step s = StepPrecommit"
  shows "sm_step s' = StepPrecommit \<and> locked_value_round s' = locked_value_round s \<and>
    (\<forall>e \<in> set out. \<not> is_self_sent e)"
  using assms
  by (induction rule: upon_rules.induct)
    (auto dest: upon_rule_after_precommit(1,3) simp: upon_rule_after_precommit(2))

definition precommit_justified :: "state_machine \<Rightarrow> proposal_content_id \<Rightarrow> round \<Rightarrow> bool" where
  "precommit_justified s v r \<longleftrightarrow>
     value_has_enough_votes (sm_prevotes s) r (Some v) (sm_quorum s) \<and>
     (\<exists>vr. sm_proposals s r = Some (Some v, vr))"

text \<open>A prevote for \<open>v\<close> respects the lock: either the node is not locked, or it is locked on
  \<open>v\<close>, or the proposal carries a prevote quorum for \<open>v\<close> from a round at least as late as the
  lock.\<close>

definition prevote_justified ::
    "(proposal_content_id \<times> round) option \<Rightarrow> state_machine \<Rightarrow> proposal_content_id \<Rightarrow> round \<Rightarrow> bool" where
  "prevote_justified lock s v r \<longleftrightarrow>
     (\<exists>vr. sm_proposals s r = Some (Some v, vr) \<and>
        (case vr of None \<Rightarrow> True
         | Some vr' \<Rightarrow> vr' < r \<and> value_has_enough_votes (sm_prevotes s) vr' (Some v) (sm_quorum s)) \<and>
        (case lock of None \<Rightarrow> True
         | Some (lv, lr) \<Rightarrow> lv = v \<or> (\<exists>vr'. vr = Some vr' \<and> lr \<le> vr')))"

definition decision_justified :: "state_machine \<Rightarrow> proposal_content_id \<Rightarrow> round \<Rightarrow> bool" where
  "decision_justified s v r \<longleftrightarrow>
     value_has_enough_votes (sm_precommits s) r (Some v) (sm_quorum s) \<and>
     (\<exists>vr. sm_proposals s r = Some (Some v, vr))"

lemma justified_same_log:
  assumes "same_log s s'"
  shows "precommit_justified s' v r = precommit_justified s v r"
    "prevote_justified lock s' v r = prevote_justified lock s v r"
    "decision_justified s' v r = decision_justified s v r"
proof -
  from assms have eq: "sm_prevotes s' = sm_prevotes s" "sm_precommits s' = sm_precommits s"
    "sm_proposals s' = sm_proposals s" "sm_quorum s' = sm_quorum s"
    by (simp_all add: same_log_def)
  show "precommit_justified s' v r = precommit_justified s v r"
    "prevote_justified lock s' v r = prevote_justified lock s v r"
    "decision_justified s' v r = decision_justified s v r"
    unfolding precommit_justified_def prevote_justified_def decision_justified_def eq
    by simp_all
qed

lemma upon_rules_precommit:
  assumes "upon_rules s out s'" "Precommit (Some v) r \<in> set out"
  shows "r = sm_round s \<and> locked_value_round s' = Some (v, r) \<and> precommit_justified s v r"
  using assms
proof (induction rule: upon_rules.induct)
  case (step s o1 s1 o2 s2)
  show ?case
  proof (cases "Precommit (Some v) r \<in> set o1")
    case True
    with step.hyps(1) have "r = sm_round s \<and> locked_value_round s1 = Some (v, r) \<and>
        sm_step s1 = StepPrecommit \<and> precommit_justified s v r"
      by cases (auto simp: precommit_justified_def)
    with upon_rules_after_precommit[OF step.hyps(2)] show ?thesis by auto
  next
    case False
    with step show ?thesis
      using upon_rule_effect(1,2)[OF step.hyps(1)] justified_same_log(1) by auto
  qed
qed simp

lemma upon_rules_prevote:
  assumes "upon_rules s out s'" "Prevote (Some v) r \<in> set out"
  shows "r = sm_round s \<and> sm_step s = StepPropose \<and> prevote_justified (locked_value_round s) s v r"
  using assms
proof (induction rule: upon_rules.induct)
  case (step s o1 s1 o2 s2)
  show ?case
  proof (cases "Prevote (Some v) r \<in> set o1")
    case True
    with step.hyps(1) show ?thesis
      by cases (auto simp: prevote_justified_def new_proposal_vote_def reproposal_vote_def
          split: option.splits if_splits)
  next
    case False
    with step have IH: "r = sm_round s1" "sm_step s1 = StepPropose"
      "prevote_justified (locked_value_round s1) s1 v r"
      by auto
    from step.hyps(1) IH(2) have "sm_step s = StepPropose \<and> locked_value_round s1 = locked_value_round s"
      by cases auto
    with IH show ?thesis
      using upon_rule_effect(1,2)[OF step.hyps(1)] justified_same_log(2) by metis
  qed
qed simp

lemma upon_rules_decision:
  assumes "upon_rules s out s'" "Decision v r \<in> set out"
  shows "decision_justified s v r"
  using assms
proof (induction rule: upon_rules.induct)
  case (step s o1 s1 o2 s2)
  show ?case
  proof (cases "Decision v r \<in> set o1")
    case True
    with step.hyps(1) show ?thesis
      by cases (auto simp: decision_justified_def)
  next
    case False
    with step show ?thesis
      using upon_rule_effect(1)[OF step.hyps(1)] justified_same_log(3) by auto
  qed
qed simp

text \<open>Every internal event is: record the message, perhaps start a round or fire a timeout,
  then evaluate the \<open>upon\<close> rules.\<close>

fun is_value_event :: "state_machine_event \<Rightarrow> bool" where
  "is_value_event (Prevote (Some _) _) = True"
| "is_value_event (Precommit (Some _) _) = True"
| "is_value_event (Decision _ _) = True"
| "is_value_event _ = False"

definition settles_by_rules ::
    "state_machine \<Rightarrow> state_machine \<Rightarrow> state_machine_event list \<Rightarrow> bool" where
  "settles_by_rules s s' out \<longleftrightarrow>
     (\<exists>m pre out'. upon_rules m out' s' \<and> out = pre @ out' \<and> filter is_value_event pre = [] \<and>
        locked_value_round m = locked_value_round s \<and> same_log s m)"

lemma settles_by_rulesI:
  "upon_rules m out s' \<Longrightarrow> filter is_value_event pre = [] \<Longrightarrow>
   locked_value_round m = locked_value_round s \<Longrightarrow> same_log s m \<Longrightarrow> settles_by_rules s s' (pre @ out)"
  unfolding settles_by_rules_def by blast

lemma settles_by_rules_cons:
  "upon_rules m out s' \<Longrightarrow> \<not> is_value_event e \<Longrightarrow>
   locked_value_round m = locked_value_round s \<Longrightarrow> same_log s m \<Longrightarrow> settles_by_rules s s' (e # out)"
  using settles_by_rulesI[where pre = "[e]"] by simp

lemma settles_by_rules_upon: "upon_rules s out s' \<Longrightarrow> settles_by_rules s s' out"
  using settles_by_rulesI[where pre = "[]"] by simp

lemma advance_to_round_settles:
  "advance_to_round s r lf = (s', out) \<Longrightarrow> settles_by_rules s s' out"
  by (auto simp: advance_to_round_def Let_def same_log_def
      split: if_splits option.splits prod.splits
      intro!: settles_by_rules_cons[OF upons_follow_rules(1)] settles_by_rules_cons[OF upon_rules.refl])

lemma map_round_to_upons_settles:
  "map_round_to_upons s r lf = (s', out) \<Longrightarrow> settles_by_rules s s' out"
  by (erule map_round_to_upons_cases) (auto intro: settles_by_rules_upon advance_to_round_settles)

lemma handle_event_internal_settles:
  assumes "handle_event_internal s e lf = Some (s', out)"
  shows "settles_by_rules (log_event e s) s' out"
proof (cases e)
  case (TimeoutPrecommit r)
  with assms show ?thesis
    by (auto simp: handle_event_internal_def handle_timeout_precommit_def
        intro: settles_by_rules_upon upon_rules.refl advance_to_round_settles split: if_splits)
next
  case (TimeoutPropose r)
  with assms show ?thesis
    by (auto simp: handle_event_internal_def handle_timeout_propose_def same_log_def
        split: if_splits prod.splits
        intro: settles_by_rules_upon[OF upon_rules.refl]
          settles_by_rules_cons[OF upons_follow_rules(2)])
next
  case (TimeoutPrevote r)
  with assms show ?thesis
    by (auto simp: handle_event_internal_def handle_timeout_prevote_def same_log_def
        split: if_splits prod.splits
        intro: settles_by_rules_upon[OF upon_rules.refl]
          settles_by_rules_cons[OF upons_follow_rules(2)])
next
  case (GetProposal pid r)
  with assms show ?thesis
    by (auto simp: handle_event_internal_def handle_get_proposal_def same_log_def
        intro!: settles_by_rules_cons[OF upon_rules.refl])
qed (use assms in \<open>auto simp: handle_event_internal_def handle_proposal_def handle_prevote_def
    handle_precommit_def Let_def intro: map_round_to_upons_settles\<close>)

lemma settles_by_rules_justified:
  assumes "settles_by_rules s s' out"
  shows "Precommit (Some v) r \<in> set out \<Longrightarrow>
      r = sm_round s' \<and> locked_value_round s' = Some (v, r) \<and> precommit_justified s' v r"
    and "Prevote (Some v) r \<in> set out \<Longrightarrow>
      r = sm_round s' \<and> prevote_justified (locked_value_round s) s' v r"
    and "Decision v r \<in> set out \<Longrightarrow> decision_justified s' v r"
proof -
  from assms obtain m pre out' where m: "upon_rules m out' s'" "out = pre @ out'"
    "filter is_value_event pre = []" "locked_value_round m = locked_value_round s"
    by (auto simp: settles_by_rules_def)
  note eff = upon_rules_effect(1,2)[OF m(1)]
  have pre: "e \<in> set out \<Longrightarrow> is_value_event e \<Longrightarrow> e \<in> set out'" for e
    using m(2,3) by (auto simp: filter_empty_conv)
  show "Precommit (Some v) r \<in> set out \<Longrightarrow>
      r = sm_round s' \<and> locked_value_round s' = Some (v, r) \<and> precommit_justified s' v r"
    using upon_rules_precommit[OF m(1)] pre[of "Precommit (Some v) r"] eff
      justified_same_log(1)[OF eff(1)] by simp
  show "Prevote (Some v) r \<in> set out \<Longrightarrow>
      r = sm_round s' \<and> prevote_justified (locked_value_round s) s' v r"
    using upon_rules_prevote[OF m(1)] pre[of "Prevote (Some v) r"] eff
      justified_same_log(2)[OF eff(1)] m(4) by simp
  show "Decision v r \<in> set out \<Longrightarrow> decision_justified s' v r"
    using upon_rules_decision[OF m(1)] pre[of "Decision v r"]
      justified_same_log(3)[OF eff(1)] by simp
qed

lemma log_event_lock [simp]: "locked_value_round (log_event e s) = locked_value_round s"
  by (cases e) simp_all

end
