(* ===== verification/Consensus_Properties.thy ===== *)
theory Consensus_Properties
  imports Consensus_Safety
begin

text \<open>
  What the Tendermint state machine of \<^verbatim>\<open>papyrus_consensus/src/state_machine.rs\<close> guarantees, as
  properties of \<open>handle_event_internal\<close> and of whole runs \<open>sm_run\<close>, with instances of four
  validators. The lemmas they rest on are in \<open>Consensus_Safety\<close>.
\<close>

section \<open>Starting, observing and quorums\<close>

lemma sm_start_votes:
  assumes "sm_start (sm_new i w obs) lf = (s, out)"
  shows "votes_in_order s out \<and> events_queue s = []"
proof -
  define s1 where "s1 = (sm_new i w obs)\<lparr>sm_round := 0, sm_step := StepPropose\<rparr>"
  obtain s2 o2 where u: "current_round_upons s1 = (s2, o2)" by force
  have "votes_in_order s1 []" "events_queue s1 = []"
    by (simp_all add: votes_in_order_def s1_def sm_new_def)
  with upon_rules_effect(1)[OF upons_follow_rules(1)[OF u]]
    votes_in_order_tm_rules[OF current_round_upons_tm_rules[OF u], of "[]"]
  have "votes_in_order s2 o2" "events_queue s2 = []"
    by (simp_all add: same_log_def)
  with assms u show ?thesis
    by (auto simp: sm_start_def advance_to_round_def votes_in_order_def s1_def[symmetric] Let_def
        split: if_splits option.splits) (simp_all add: s1_def sm_new_def)
qed

lemma handle_event_internal_keeps_observer:
  assumes "handle_event_internal s e lf = Some (s', out)"
  shows "is_observer s' = is_observer s"
proof -
  from handle_event_internal_settles[OF assms] obtain m out' where
    "upon_rules m out' s'" "same_log (log_event e s) m"
    by (auto simp: settles_by_rules_def)
  then have "is_observer s' = is_observer (log_event e s)"
    by (auto simp: same_log_def dest: upon_rules_effect(1))
  then show ?thesis by (cases e) simp_all
qed

definition silent :: "state_machine_event list \<Rightarrow> bool" where
  "silent out \<longleftrightarrow> list_all (\<lambda>e. \<not> is_self_sent e \<and> \<not> is_GetProposal e) out"

lemma silent_append [simp]: "silent (xs @ ys) \<longleftrightarrow> silent xs \<and> silent ys"
  by (simp add: silent_def)

lemma dispatch_events_observer:
  assumes "dispatch_events s es = Some (s', out, ret)" "is_observer s"
  shows "s' = s \<and> silent out"
  using assms
  by (induction s es arbitrary: s' out ret rule: dispatch_events.induct)
    (auto simp: silent_def bind_eq_Some_conv elim: is_Decision.elims split: if_splits)

lemma handle_enqueued_events_observer:
  assumes "handle_enqueued_events s lf = Some (s', out)" "is_observer s"
  shows "is_observer s' \<and> silent out"
  using assms
proof (induction s lf arbitrary: s' out rule: handle_enqueued_events.induct)
  case (1 s lf)
  show ?case
  proof (cases "events_queue s")
    case Nil
    with "1.prems" show ?thesis by (simp add: handle_enqueued_events.simps silent_def)
  next
    case (Cons e q)
    with "1.prems"(1) obtain s1 res s2 o1 ret where
      int: "handle_event_internal (s\<lparr>events_queue := q\<rparr>) e lf = Some (s1, res)" and
      dis: "dispatch_events s1 res = Some (s2, o1, ret)" and
      rest: "if ret then s' = s2 \<and> out = o1
        else \<exists>o2. handle_enqueued_events s2 lf = Some (s', o2) \<and> out = o1 @ o2"
      by (subst (asm) handle_enqueued_events.simps)
        (auto simp: bind_eq_Some_conv split: if_splits)
    from handle_event_internal_keeps_observer[OF int] "1.prems"(2) have obs: "is_observer s1"
      by simp
    with dispatch_events_observer[OF dis] have s2: "s2 = s1" "silent o1" by simp_all
    show ?thesis
    proof (cases ret)
      case False
      with rest obtain o2 where o2: "handle_enqueued_events s2 lf = Some (s', o2)" "out = o1 @ o2"
        by auto
      with "1.IH"[OF Cons int _ dis _ _ False o2(1)] s2 obs show ?thesis by simp
    qed (use rest s2 obs in simp)
  qed
qed

lemma run_events_observer:
  "run_events s es lf = Some (s', out) \<Longrightarrow> is_observer s \<Longrightarrow> silent out"
proof (induction s es lf arbitrary: s' out rule: run_events.induct)
  case (2 s e es lf)
  then obtain s1 o1 o2 where h: "handle_event s e lf = Some (s1, o1)"
    "run_events s1 es lf = Some (s', o2)" "out = o1 @ o2"
    by (auto simp: bind_eq_Some_conv)
  from h(1) "2.prems"(2) have "is_observer s1 \<and> silent o1"
    by (auto simp: handle_event_def silent_def[of "[]"] split: if_splits
        dest: handle_enqueued_events_observer)
  with "2.IH"[OF h(1) _ h(2)] h(3) show ?case by simp
qed (simp add: silent_def)

lemma sm_start_observer:
  assumes "sm_start (sm_new i w True) lf = (s, out)"
  shows "is_observer s \<and> out = [TimeoutPropose 0]"
proof -
  have "unat (2 * w) < 2 ^ LENGTH(32)"
    by (rule unsigned_less)
  then have "unat (2 * w div 3) < 2 ^ 32 - 1"
    by (simp add: unat_div)
  then have "0 < (2 * w div 3 + 1 :: u32)"
    by (simp add: word_less_nat_alt unat_word_ariths)
  then have "current_round_upons ((sm_new i w True)\<lparr>sm_round := 0, sm_step := StepPropose\<rparr>) =
     ((sm_new i w True)\<lparr>sm_round := 0, sm_step := StepPropose\<rparr>, [])"
    by (simp add: current_round_upons.simps upon_new_proposal.simps upon_reproposal.simps
        upon_prevote_quorum.simps upon_nil_prevote_quorum.simps maybe_initiate_timeout_prevote_def
        maybe_initiate_timeout_precommit_def upon_decision_def sm_new_def
        round_has_enough_votes_def)
  with assms show ?thesis
    by (auto simp: sm_start_def advance_to_round_def sm_new_def)
qed

lemma quorum_bounds:
  assumes "unat w < 2 ^ 31"
  shows "unat (sm_quorum (sm_new i w obs)) = 2 * unat w div 3 + 1"
    and "unat (round_skip_threshold (sm_new i w obs)) = unat w div 3 + 1"
  using assms
  by (simp_all add: sm_new_def unat_word_ariths unat_div)

lemma card_Int_ge:
  assumes "finite V" "A \<subseteq> V" "B \<subseteq> V"
  shows "card A + card B \<le> card V + card (A \<inter> B)"
proof -
  have "card A + card B = card (A \<union> B) + card (A \<inter> B)"
    using assms by (intro card_Un_Int) (auto intro: finite_subset)
  moreover have "card (A \<union> B) \<le> card V"
    using assms by (intro card_mono) auto
  ultimately show ?thesis by simp
qed

lemma not_subset_of_smaller: "finite F \<Longrightarrow> card F < card A \<Longrightarrow> \<not> A \<subseteq> F"
  by (meson card_mono leD)

section \<open>The properties\<close>

text \<open>A run of validator 1 of four, to which the leader 0 proposes 7 and which then receives two
  more prevotes and two more precommits for it.\<close>

definition sample_events :: "state_machine_event list" where
  "sample_events = [Proposal (Some 7) 0 None, Prevote (Some 7) 0, Prevote (Some 7) 0,
     Precommit (Some 7) 0, Precommit (Some 7) 0]"

definition sample_out :: "state_machine_event list" where
  "sample_out = [TimeoutPropose 0, Prevote (Some 7) 0, TimeoutPrevote 0, Precommit (Some 7) 0,
     TimeoutPrecommit 0, Decision 7 0]"

lemma sample_run:
  "map_option snd (sm_run 1 4 False (\<lambda>_. 0) sample_events) = Some sample_out"
  by code_simp

text \<open>C1: Over a whole run the rounds of the prevotes that the machine emits are strictly
  increasing, and so are the rounds of its precommits: the node never sends two prevotes, or two
  precommits, for one round, and never votes for a round it has left. (The timeout of round
  \<^verbatim>\<open>u32::MAX\<close>, whose successor wraps around to 0, is excluded.)\<close>

theorem sm_run_votes_once_per_round:
  assumes "sm_run i w obs lf es = Some (s, out)" "TimeoutPrecommit (-1) \<notin> set es"
  shows "sorted_wrt (<) (prevote_rounds out) \<and> sorted_wrt (<) (precommit_rounds out)"
proof -
  obtain s0 o0 where s0: "sm_start (sm_new i w obs) lf = (s0, o0)" by force
  with assms(1) obtain o1 where r: "run_events s0 es lf = Some (s, o1)" "out = o0 @ o1"
    by (auto simp: sm_run_def bind_eq_Some_conv)
  from sm_start_votes[OF s0] r(1) assms(2) have "votes_in_order s (o0 @ o1)"
    by (intro run_events_votes) auto
  with r(2) show ?thesis by (simp add: votes_in_order_def)
qed

theorem sm_run_votes_once_per_round_witness:
  "sorted_wrt (<) (prevote_rounds sample_out) \<and> sorted_wrt (<) (precommit_rounds sample_out) \<and>
   prevote_rounds sample_out = [0] \<and> precommit_rounds sample_out = [0]"
proof -
  obtain s where "sm_run 1 4 False (\<lambda>_. 0) sample_events = Some (s, sample_out)"
    using sample_run by auto
  from sm_run_votes_once_per_round[OF this] show ?thesis
    by (simp add: sample_events_def sample_out_def)
qed

text \<open>C6: The machine refines Algorithm 1: whatever \<open>handle_event_internal\<close> does with an event is
  the recording of the message followed by a sequence of firings of the algorithm's rules whose
  guards hold, and what it returns is what those rules emit, in order. In particular a later round is
  entered only with enough votes of that round to skip to it, or after the precommit timeout of the
  round before, and a timeout acts only in its own round and step.\<close>

theorem handle_event_internal_refines_algorithm:
  assumes "handle_event_internal s e lf = Some (s', out)" and "e \<noteq> TimeoutPrecommit (-1)"
  shows "tm_rules e lf (log_event e s) out s'"
  using assms by (rule handle_event_internal_tm_rules)

definition sample_state :: state_machine where
  "sample_state = (sm_new 1 4 False)\<lparr>sm_prevotes := [0 \<mapsto> [(Some 7, 2)]]\<rparr>"

text \<open>The proposal arrives when two prevotes for it are known: the machine prevotes (and would
  precommit on handling its own prevote).\<close>

theorem handle_event_internal_refines_algorithm_witness:
  "tm_rules (Proposal (Some 7) 0 None) (\<lambda>_. 0) (log_event (Proposal (Some 7) 0 None) sample_state) [Prevote (Some 7) 0]
     (log_event (Proposal (Some 7) 0 None) sample_state\<lparr>sm_step := StepPrevote\<rparr>)"
  by (rule handle_event_internal_refines_algorithm) (simp, code_simp, simp)

definition sample_prevoted :: state_machine where
  "sample_prevoted = (sm_new 1 4 False)\<lparr>sm_step := StepPrevote, sm_proposals := [0 \<mapsto> (Some 7, None)],
     sm_prevotes := [0 \<mapsto> [(Some 7, 2)]]\<rparr>"

text \<open>C11: A precommit for a value is emitted only for the current round, only with a prevote
  quorum for the round's proposal recorded, and it locks the node on that value and round.\<close>

theorem precommit_is_justified_and_locks:
  assumes "handle_event_internal s e lf = Some (s', out)" "Precommit (Some v) r \<in> set out"
  shows "r = sm_round s' \<and> locked_value_round s' = Some (v, r) \<and> precommit_justified s' v r"
  using settles_by_rules_justified(1)[OF handle_event_internal_settles] assms .

theorem precommit_is_justified_and_locks_witness:
  "\<exists>s' out. handle_event_internal sample_prevoted (Prevote (Some 7) 0) (\<lambda>_. 0) = Some (s', out) \<and>
     locked_value_round s' = Some (7, 0) \<and> precommit_justified s' 7 0"
proof -
  have "map_option snd (handle_event_internal sample_prevoted (Prevote (Some 7) 0) (\<lambda>_. 0)) =
    Some [TimeoutPrevote 0, Precommit (Some 7) 0]"
    by code_simp
  then obtain s' where
    h: "handle_event_internal sample_prevoted (Prevote (Some 7) 0) (\<lambda>_. 0) =
      Some (s', [TimeoutPrevote 0, Precommit (Some 7) 0])"
    by auto
  from precommit_is_justified_and_locks[OF h] h show ?thesis by auto
qed

text \<open>C12: A prevote for a value respects the lock the node had before the event: the value is the
  proposal of the current round, and a node locked on another value prevotes it only if the
  proposal names an earlier round, not before the lock, with a recorded prevote quorum for it.\<close>

theorem prevote_respects_lock:
  assumes "handle_event_internal s e lf = Some (s', out)" "Prevote (Some v) r \<in> set out"
  shows "r = sm_round s' \<and> prevote_justified (locked_value_round s) s' v r"
  using settles_by_rules_justified(2)[OF handle_event_internal_settles] assms by fastforce

definition sample_relocking :: state_machine where
  "sample_relocking = (sm_new 1 4 False)\<lparr>sm_round := 2, locked_value_round := Some (5, 0),
     sm_prevotes := [1 \<mapsto> [(Some 7, 3)]]\<rparr>"

theorem prevote_respects_lock_witness:
  "\<exists>s' out. handle_event_internal sample_relocking (Proposal (Some 7) 2 (Some 1)) (\<lambda>_. 0) = Some (s', out) \<and>
     sm_round s' = 2 \<and> prevote_justified (Some (5, 0)) s' 7 2"
proof -
  have "map_option snd (handle_event_internal sample_relocking (Proposal (Some 7) 2 (Some 1)) (\<lambda>_. 0)) =
    Some [Prevote (Some 7) 2]"
    by code_simp
  then obtain s' where
    h: "handle_event_internal sample_relocking (Proposal (Some 7) 2 (Some 1)) (\<lambda>_. 0) =
      Some (s', [Prevote (Some 7) 2])"
    by auto
  from prevote_respects_lock[OF h, of 7 2] h show ?thesis by (simp add: sample_relocking_def)
qed

text \<open>C13: A decision names a round whose recorded proposal is the decided value and for which a
  quorum of precommits for that value has been counted.\<close>

theorem decision_is_justified:
  assumes "handle_event_internal s e lf = Some (s', out)" "Decision v r \<in> set out"
  shows "decision_justified s' v r"
  using settles_by_rules_justified(3)[OF handle_event_internal_settles] assms .

definition sample_precommitted :: state_machine where
  "sample_precommitted = sample_prevoted\<lparr>sm_step := StepPrecommit, sm_precommits := [0 \<mapsto> [(Some 7, 2)]],
     mixed_precommit_quorum := {0}\<rparr>"

theorem decision_is_justified_witness:
  "\<exists>s' out. handle_event_internal sample_precommitted (Precommit (Some 7) 0) (\<lambda>_. 0) = Some (s', out) \<and>
     decision_justified s' 7 0"
proof -
  have "map_option snd (handle_event_internal sample_precommitted (Precommit (Some 7) 0) (\<lambda>_. 0)) =
    Some [Decision 7 0]"
    by code_simp
  then obtain s' where
    h: "handle_event_internal sample_precommitted (Precommit (Some 7) 0) (\<lambda>_. 0) = Some (s', [Decision 7 0])"
    by auto
  from decision_is_justified[OF h, of 7 0] h show ?thesis by simp
qed

text \<open>An observer never takes part: over a whole run it sends no proposal, no prevote and no
  precommit, and never asks for a proposal to be built.\<close>

theorem observer_is_silent:
  assumes "sm_run i w True lf es = Some (s, out)"
  shows "\<forall>e \<in> set out. \<not> is_self_sent e \<and> \<not> is_GetProposal e"
proof -
  obtain s0 o0 where s0: "sm_start (sm_new i w True) lf = (s0, o0)" by force
  with assms obtain o1 where "run_events s0 es lf = Some (s, o1)" "out = o0 @ o1"
    by (auto simp: sm_run_def bind_eq_Some_conv)
  with sm_start_observer[OF s0] run_events_observer show ?thesis
    by (fastforce simp: silent_def list_all_iff)
qed

definition sample_observed :: "state_machine_event list" where
  "sample_observed = [Proposal (Some 7) 0 None, Prevote (Some 7) 0, Prevote (Some 7) 0,
     Prevote (Some 7) 0, Precommit (Some 7) 0, Precommit (Some 7) 0, Precommit (Some 7) 0]"

theorem observer_is_silent_witness:
  "\<exists>s out. sm_run 0 4 True (\<lambda>_. 0) sample_observed = Some (s, out) \<and> Decision 7 0 \<in> set out \<and>
     list_all (\<lambda>e. \<not> is_self_sent e \<and> \<not> is_GetProposal e) out"
proof -
  have "map_option snd (sm_run 0 4 True (\<lambda>_. 0) sample_observed) =
    Some [TimeoutPropose 0, TimeoutPrevote 0, TimeoutPrecommit 0, Decision 7 0]"
    by code_simp
  then obtain s where h: "sm_run 0 4 True (\<lambda>_. 0) sample_observed =
    Some (s, [TimeoutPropose 0, TimeoutPrevote 0, TimeoutPrecommit 0, Decision 7 0])"
    by auto
  from observer_is_silent[OF h] h show ?thesis by (simp add: list_all_iff)
qed

text \<open>C14: Quorum arithmetic: with fewer than a third of the validators faulty, any two sets of
  voters that reach the quorum share a correct validator, and any set that reaches the
  round-skip threshold contains a correct one.\<close>

theorem quorums_share_a_correct_validator:
  assumes "finite V" "card V = unat w" "unat w < 2 ^ 31" "F \<subseteq> V" "3 * card F < card V"
    and "A \<subseteq> V" "B \<subseteq> V" "C \<subseteq> V"
    and "unat (sm_quorum (sm_new i w obs)) \<le> card A"
    and "unat (sm_quorum (sm_new i w obs)) \<le> card B"
    and "unat (round_skip_threshold (sm_new i w obs)) \<le> card C"
  shows "(\<exists>v \<in> A \<inter> B. v \<notin> F) \<and> (\<exists>v \<in> C. v \<notin> F)"
proof -
  note q = quorum_bounds[OF assms(3), of i obs]
  have fin: "finite F" using assms(1,4) finite_subset by blast
  from assms(2,5,9,10) q card_Int_ge[OF assms(1,6,7)] have "card F < card (A \<inter> B)"
    by linarith
  moreover from assms(2,5,11) q have "card F < card C"
    by linarith
  ultimately show ?thesis
    using not_subset_of_smaller[OF fin] by blast
qed

theorem quorums_share_a_correct_validator_witness:
  "(\<exists>v \<in> {0, 1, 2} \<inter> {1, 2, 3 :: validator_id}. v \<notin> {1}) \<and> (\<exists>v \<in> {1, 2 :: validator_id}. v \<notin> {1})"
  by (rule quorums_share_a_correct_validator[of "{0, 1, 2, 3}" 4 _ _ _ _ 0 False])
    (simp_all add: sm_new_def)

end
