(* ===== verification/Single_Height_Consensus.thy ===== *)
theory Single_Height_Consensus
  imports Consensus_Properties
begin

text \<open>
  One height of consensus,
  \<^verbatim>\<open>crates/sequencing/papyrus_consensus/src/single_height_consensus.rs\<close>, with the types of
  \<^verbatim>\<open>types.rs\<close>: the layer between the state machine and the node. It records the votes of the
  validators, feeds them to the machine once each, carries out what the machine emits, and
  assembles the decision with the precommits that support it.

  The trait \<^verbatim>\<open>ConsensusContext\<close> is the record \<open>consensus_context\<close> of its methods, over an arbitrary
  state \<open>'c\<close> of the context and an arbitrary type \<open>'p\<close> of proposal parts. A method that may return an
  error and changes the height and the context has the type \<open>shc_result\<close>; \<open>None\<close> is a panic. The
  receivers that the context returns are handles. Of an error message the fixed part is kept.
\<close>

section \<open>Messages, errors and the context\<close>

type_synonym block_number = u64
type_synonym duration = nat
type_synonym receiver = nat

datatype vote_type = VotePrevote | VotePrecommit

record vote =
  vote_type :: vote_type
  vote_height :: u64
  vote_round :: u32
  vote_block_hash :: "proposal_content_id option"
  vote_voter :: validator_id

record proposal_init =
  init_height :: block_number
  init_round :: u32
  init_valid_round :: "u32 option"
  init_proposer :: validator_id

record proposal_fin =
  fin_proposal_content_id :: proposal_content_id

datatype protobuf_conversion_error =
    OutOfRangeValue string string
  | MissingField string
  | BytesDataLengthMismatch string usize "u8 list"
  | WrongEnumVariant string string string
  | DecodeError string
  | CompressionError string
  | SerdeJsonError string

datatype consensus_error =
    Canceled
  | ProtobufConversionError protobuf_conversion_error
  | InvalidEvent string
  | InvalidProposal validator_id block_number string
  | SendError string
  | Equivocation block_number vote vote
  | InternalNetworkError string
  | SyncError string
  | InternalInconsistency string
  | OtherError string

record decision =
  dec_precommits :: "vote list"
  dec_block :: proposal_content_id

text \<open>The receiving end of a \<^verbatim>\<open>futures::channel::mpsc\<close> channel: what is in the channel, and whether the
  sender is closed.\<close>

record 'p mpsc_receiver =
  mpsc_queue :: "'p list"
  mpsc_closed :: bool

definition mpsc_try_next :: "'p mpsc_receiver \<Rightarrow> (unit + 'p option) \<times> 'p mpsc_receiver" where
  "mpsc_try_next rx =
     (case mpsc_queue rx of
        p # ps \<Rightarrow> (Inr (Some p), rx\<lparr>mpsc_queue := ps\<rparr>)
      | [] \<Rightarrow> (if mpsc_closed rx then Inr None else Inl (), rx))"

record ('c, 'p) consensus_context =
  part_into_init :: "'p \<Rightarrow> protobuf_conversion_error + proposal_init"
  build_proposal :: "'c \<Rightarrow> proposal_init \<Rightarrow> duration \<Rightarrow> receiver \<times> 'c"
  validate_proposal :: "'c \<Rightarrow> proposal_init \<Rightarrow> duration \<Rightarrow> 'p mpsc_receiver \<Rightarrow> receiver \<times> 'c"
  repropose :: "'c \<Rightarrow> proposal_content_id \<Rightarrow> proposal_init \<Rightarrow> 'c"
  ctx_validators :: "'c \<Rightarrow> block_number \<Rightarrow> validator_id list"
  proposer :: "'c \<Rightarrow> block_number \<Rightarrow> round \<Rightarrow> validator_id"
  broadcast :: "'c \<Rightarrow> vote \<Rightarrow> (consensus_error + unit) \<times> 'c"
  decision_reached :: "'c \<Rightarrow> proposal_content_id \<Rightarrow> vote list \<Rightarrow> (consensus_error + unit) \<times> 'c"
  try_sync :: "'c \<Rightarrow> block_number \<Rightarrow> bool \<times> 'c"
  set_height_and_round :: "'c \<Rightarrow> block_number \<Rightarrow> round \<Rightarrow> 'c"

record timeouts_config =
  proposal_timeout :: duration
  prevote_timeout :: duration
  precommit_timeout :: duration

section \<open>Tasks and events\<close>

datatype shc_event =
    EvTimeoutPropose state_machine_event
  | EvTimeoutPrevote state_machine_event
  | EvTimeoutPrecommit state_machine_event
  | EvPrevote state_machine_event
  | EvPrecommit state_machine_event
  | EvBuildProposal state_machine_event
  | EvValidateProposal state_machine_event "proposal_fin option"

datatype shc_task =
    TaskTimeoutPropose duration state_machine_event
  | TaskTimeoutPrevote duration state_machine_event
  | TaskTimeoutPrecommit duration state_machine_event
  | TaskPrevote duration state_machine_event
  | TaskPrecommit duration state_machine_event
  | TaskBuildProposal round receiver
  | TaskValidateProposal proposal_init receiver

datatype shc_return = Tasks "shc_task list" | ShcDecision decision

text \<open>The event of a finished task; \<open>built\<close> and \<open>validated\<close> are what the receivers deliver, \<open>None\<close> when
  the context dropped the sender.\<close>

fun shc_task_run ::
    "(receiver \<Rightarrow> proposal_content_id option) \<Rightarrow> (receiver \<Rightarrow> (proposal_content_id \<times> proposal_fin) option)
      \<Rightarrow> shc_task \<Rightarrow> shc_event" where
  "shc_task_run built validated (TaskTimeoutPropose d e) = EvTimeoutPropose e"
| "shc_task_run built validated (TaskTimeoutPrevote d e) = EvTimeoutPrevote e"
| "shc_task_run built validated (TaskTimeoutPrecommit d e) = EvTimeoutPrecommit e"
| "shc_task_run built validated (TaskPrevote d e) = EvPrevote e"
| "shc_task_run built validated (TaskPrecommit d e) = EvPrecommit e"
| "shc_task_run built validated (TaskBuildProposal r rx) = EvBuildProposal (GetProposal (built rx) r)"
| "shc_task_run built validated (TaskValidateProposal init rx) =
     (let (built_content_id, received_proposal_id) =
        (case validated rx of
           Some (built_content_id, received_proposal_id) \<Rightarrow> (Some built_content_id, Some received_proposal_id)
         | None \<Rightarrow> (None, None))
      in EvValidateProposal (Proposal built_content_id (init_round init) (init_valid_round init))
           received_proposal_id)"

section \<open>The state of a height\<close>

record shc =
  shc_height :: block_number
  shc_validators :: "validator_id list"
  shc_id :: validator_id
  shc_timeouts :: timeouts_config
  shc_state_machine :: state_machine
  shc_proposals :: "round \<rightharpoonup> proposal_content_id option"
  shc_prevotes :: "round \<times> validator_id \<rightharpoonup> vote"
  shc_precommits :: "round \<times> validator_id \<rightharpoonup> vote"
  last_prevote :: "vote option"
  last_precommit :: "vote option"

type_synonym ('c, 'a) shc_result = "(shc \<times> 'c, consensus_error, 'a) rs_result"

definition shc_new ::
    "block_number \<Rightarrow> bool \<Rightarrow> validator_id \<Rightarrow> validator_id list \<Rightarrow> timeouts_config \<Rightarrow> shc option" where
  "shc_new height obs i validators timeouts = do {
     rs_assert (int (length validators) < 2 ^ 32);
     Some \<lparr>shc_height = height, shc_validators = validators, shc_id = i, shc_timeouts = timeouts,
       shc_state_machine = sm_new i (word_of_nat (length validators)) obs,
       shc_proposals = Map.empty, shc_prevotes = Map.empty, shc_precommits = Map.empty,
       last_prevote = None, last_precommit = None\<rparr> }"

section \<open>Carrying out what the state machine emits\<close>

definition handle_state_machine_get_proposal ::
    "('c, 'p) consensus_context \<Rightarrow> shc \<Rightarrow> 'c \<Rightarrow> proposal_content_id option \<Rightarrow> round
      \<Rightarrow> (shc_task list \<times> 'c) option" where
  "handle_state_machine_get_proposal ctx s c pid r = do {
     rs_assert (pid = None);
     let init = \<lparr>init_height = shc_height s, init_round = r, init_valid_round = None,
       init_proposer = shc_id s\<rparr>;
     let (fin_receiver, c') = build_proposal ctx c init (proposal_timeout (shc_timeouts s));
     Some ([TaskBuildProposal r fin_receiver], c') }"

definition handle_state_machine_proposal ::
    "('c, 'p) consensus_context \<Rightarrow> shc \<Rightarrow> 'c \<Rightarrow> proposal_content_id option \<Rightarrow> round \<Rightarrow> round option
      \<Rightarrow> (shc \<times> 'c) option" where
  "handle_state_machine_proposal ctx s c pid r valid_round =
     (case valid_round of
        None \<Rightarrow> Some (s, c)
      | Some vr \<Rightarrow> do {
          proposal_id \<leftarrow> pid;
          stored \<leftarrow> shc_proposals s vr;
          i \<leftarrow> stored;
          rs_assert (i = proposal_id);
          let init = \<lparr>init_height = shc_height s, init_round = r, init_valid_round = Some vr,
            init_proposer = shc_id s\<rparr>;
          let c' = repropose ctx c i init;
          let old = shc_proposals s r;
          let s' = s\<lparr>shc_proposals := (shc_proposals s)(r \<mapsto> Some proposal_id)\<rparr>;
          rs_assert (old = None);
          Some (s', c') })"

text \<open>The part of \<^verbatim>\<open>handle_state_machine_vote\<close> that records the vote, for the map of the votes of its
  kind and the last vote of that kind.\<close>

definition record_own_vote ::
    "(round \<times> validator_id \<rightharpoonup> vote) \<Rightarrow> vote option \<Rightarrow> vote
      \<Rightarrow> (round \<times> validator_id \<rightharpoonup> vote) \<times> (consensus_error + vote option)" where
  "record_own_vote votes last_vote v =
     (let votes' = votes((vote_round v, vote_voter v) \<mapsto> v)
      in case votes (vote_round v, vote_voter v) of
           Some old \<Rightarrow>
             (votes', Inl (InternalInconsistency ''State machine should not send repeat votes''))
         | None \<Rightarrow>
             (votes',
              case last_vote of
                None \<Rightarrow> Inr (Some v)
              | Some l \<Rightarrow>
                  if vote_round l < vote_round v then Inr (Some v)
                  else Inl (InternalInconsistency ''State machine must progress in time'')))"

definition handle_state_machine_vote ::
    "('c, 'p) consensus_context \<Rightarrow> shc \<Rightarrow> 'c \<Rightarrow> proposal_content_id option \<Rightarrow> round \<Rightarrow> vote_type
      \<Rightarrow> ('c, shc_task list) shc_result" where
  "handle_state_machine_vote ctx s c pid r vt =
     (let v = \<lparr>vote_type = vt, vote_height = shc_height s, vote_round = r, vote_block_hash = pid,
                vote_voter = shc_id s\<rparr>;
          (s1, res, task) =
            (case vt of
               VotePrevote \<Rightarrow>
                 (let (votes, res) = record_own_vote (shc_prevotes s) (last_prevote s) v
                  in (s\<lparr>shc_prevotes := votes,
                       last_prevote := (case res of Inr l \<Rightarrow> l | Inl _ \<Rightarrow> last_prevote s)\<rparr>, res,
                      TaskPrevote (prevote_timeout (shc_timeouts s)) (Prevote pid r)))
             | VotePrecommit \<Rightarrow>
                 (let (votes, res) = record_own_vote (shc_precommits s) (last_precommit s) v
                  in (s\<lparr>shc_precommits := votes,
                       last_precommit := (case res of Inr l \<Rightarrow> l | Inl _ \<Rightarrow> last_precommit s)\<rparr>, res,
                      TaskPrecommit (precommit_timeout (shc_timeouts s)) (Precommit pid r))))
      in case res of
           Inl e \<Rightarrow> Some ((s1, c), Inl e)
         | Inr _ \<Rightarrow>
             (case broadcast ctx c v of
                (Inl e, c') \<Rightarrow> Some ((s1, c'), Inl e)
              | (Inr _, c') \<Rightarrow> Some ((s1, c'), Inr [task])))"

definition supporting_precommits :: "shc \<Rightarrow> round \<Rightarrow> proposal_content_id \<Rightarrow> vote list" where
  "supporting_precommits s r pid =
     List.map_filter
       (\<lambda>v. case shc_precommits s (r, v) of
              None \<Rightarrow> None
            | Some vt \<Rightarrow> if vote_block_hash vt = Some pid then Some vt else None)
       (shc_validators s)"

definition handle_state_machine_decision ::
    "shc \<Rightarrow> proposal_content_id \<Rightarrow> round \<Rightarrow> shc \<times> (consensus_error + shc_return)" where
  "handle_state_machine_decision s pid r =
     (let s' = s\<lparr>shc_proposals := (shc_proposals s)(r := None)\<rparr>
      in case shc_proposals s r of
           None \<Rightarrow> (s', Inl (InternalInconsistency ''Decided on an unknown proposal''))
         | Some None \<Rightarrow>
             (s', Inl (InternalInconsistency ''Decided on a proposal which was not succesfully validated''))
         | Some (Some block) \<Rightarrow>
             if block \<noteq> pid
             then (s', Inl (InternalInconsistency ''StateMachine block hash should match the stored block''))
             else (let supporting = supporting_precommits s r pid;
                       quorum_size = unat (sm_quorum (shc_state_machine s))
                   in if quorum_size > length supporting
                      then (s', Inl (InternalInconsistency ''Not enough supporting votes''))
                      else (s', Inr (ShcDecision \<lparr>dec_precommits = supporting, dec_block = block\<rparr>))))"

fun handle_state_machine_events_loop ::
    "('c, 'p) consensus_context \<Rightarrow> shc \<Rightarrow> 'c \<Rightarrow> shc_task list \<Rightarrow> state_machine_event list
      \<Rightarrow> ('c, shc_return) shc_result" where
  "handle_state_machine_events_loop ctx s c ret_val [] = Some ((s, c), Inr (Tasks ret_val))"
| "handle_state_machine_events_loop ctx s c ret_val (event # events) =
     (case event of
        GetProposal pid r \<Rightarrow> do {
          (tasks, c') \<leftarrow> handle_state_machine_get_proposal ctx s c pid r;
          handle_state_machine_events_loop ctx s c' (ret_val @ tasks) events }
      | Proposal pid r vr \<Rightarrow> do {
          (s', c') \<leftarrow> handle_state_machine_proposal ctx s c pid r vr;
          handle_state_machine_events_loop ctx s' c' ret_val events }
      | Decision pid r \<Rightarrow>
          (let (s', res) = handle_state_machine_decision s pid r in Some ((s', c), res))
      | Prevote pid r \<Rightarrow>
          rs_try (handle_state_machine_vote ctx s c pid r VotePrevote)
            (\<lambda>(s', c') tasks. handle_state_machine_events_loop ctx s' c' (ret_val @ tasks) events)
      | Precommit pid r \<Rightarrow>
          rs_try (handle_state_machine_vote ctx s c pid r VotePrecommit)
            (\<lambda>(s', c') tasks. handle_state_machine_events_loop ctx s' c' (ret_val @ tasks) events)
      | TimeoutPropose r \<Rightarrow>
          handle_state_machine_events_loop ctx s c
            (ret_val @ [TaskTimeoutPropose (proposal_timeout (shc_timeouts s)) event]) events
      | TimeoutPrevote r \<Rightarrow>
          handle_state_machine_events_loop ctx s c
            (ret_val @ [TaskTimeoutPrevote (prevote_timeout (shc_timeouts s)) event]) events
      | TimeoutPrecommit r \<Rightarrow>
          handle_state_machine_events_loop ctx s c
            (ret_val @ [TaskTimeoutPrecommit (precommit_timeout (shc_timeouts s)) event]) events)"

definition handle_state_machine_events ::
    "('c, 'p) consensus_context \<Rightarrow> shc \<Rightarrow> 'c \<Rightarrow> state_machine_event list \<Rightarrow> ('c, shc_return) shc_result" where
  "handle_state_machine_events ctx s c events = handle_state_machine_events_loop ctx s c [] events"

section \<open>The methods that the manager calls\<close>

definition leader_fn :: "('c, 'p) consensus_context \<Rightarrow> shc \<Rightarrow> 'c \<Rightarrow> round \<Rightarrow> validator_id" where
  "leader_fn ctx s c r = proposer ctx c (shc_height s) r"

text \<open>Passing an event to the state machine and carrying out what it emits.\<close>

definition feed_state_machine ::
    "('c, 'p) consensus_context \<Rightarrow> shc \<Rightarrow> 'c \<Rightarrow> state_machine_event \<Rightarrow> ('c, shc_return) shc_result" where
  "feed_state_machine ctx s c event = do {
     (m, sm_events) \<leftarrow> handle_event (shc_state_machine s) event (leader_fn ctx s c);
     handle_state_machine_events ctx (s\<lparr>shc_state_machine := m\<rparr>) c sm_events }"

definition update_context ::
    "('c, 'p) consensus_context \<Rightarrow> ('c, 'a) shc_result \<Rightarrow> ('c, 'a) shc_result" where
  "update_context ctx res =
     map_option (\<lambda>((s, c), ret).
       ((s, set_height_and_round ctx c (shc_height s) (sm_round (shc_state_machine s))), ret)) res"

definition shc_start ::
    "('c, 'p) consensus_context \<Rightarrow> shc \<Rightarrow> 'c \<Rightarrow> ('c, shc_return) shc_result" where
  "shc_start ctx s c =
     (let c1 = set_height_and_round ctx c (shc_height s) (sm_round (shc_state_machine s));
          (m, events) = sm_start (shc_state_machine s) (leader_fn ctx s c1)
      in update_context ctx (handle_state_machine_events ctx (s\<lparr>shc_state_machine := m\<rparr>) c1 events))"

definition shc_handle_proposal ::
    "('c, 'p) consensus_context \<Rightarrow> shc \<Rightarrow> 'c \<Rightarrow> proposal_init \<Rightarrow> 'p mpsc_receiver
      \<Rightarrow> ('c, shc_return) shc_result" where
  "shc_handle_proposal ctx s c init p2p_messages_receiver =
     (let proposer_id = proposer ctx c (shc_height s) (init_round init)
      in if init_height init \<noteq> shc_height s
         then Some ((s, c), Inl (InvalidProposal proposer_id (shc_height s) ''invalid height''))
         else if init_proposer init \<noteq> proposer_id
         then Some ((s, c), Inl (InvalidProposal proposer_id (shc_height s) ''invalid proposer''))
         else case shc_proposals s (init_round init) of
             Some _ \<Rightarrow> Some ((s, c), Inr (Tasks []))
           | None \<Rightarrow>
               (let s' = s\<lparr>shc_proposals := (shc_proposals s)(init_round init \<mapsto> None)\<rparr>;
                    (block_receiver, c') = validate_proposal ctx c init
                      (proposal_timeout (shc_timeouts s)) p2p_messages_receiver
                in update_context ctx
                     (Some ((s', c'), Inr (Tasks [TaskValidateProposal init block_receiver])))))"

text \<open>Re-broadcasting the last vote of a kind, with the task that does it again.\<close>

definition rebroadcast ::
    "('c, 'p) consensus_context \<Rightarrow> shc \<Rightarrow> 'c \<Rightarrow> vote option \<Rightarrow> round \<Rightarrow> string \<Rightarrow> shc_task
      \<Rightarrow> ('c, shc_return) shc_result" where
  "rebroadcast ctx s c last_vote r msg task =
     (case last_vote of
        None \<Rightarrow> Some ((s, c), Inl (InvalidEvent msg))
      | Some l \<Rightarrow>
          if vote_round l > r then Some ((s, c), Inr (Tasks []))
          else (case broadcast ctx c l of
              (Inl e, c') \<Rightarrow> Some ((s, c'), Inl e)
            | (Inr _, c') \<Rightarrow> update_context ctx (Some ((s, c'), Inr (Tasks [task])))))"

definition shc_handle_event ::
    "('c, 'p) consensus_context \<Rightarrow> shc \<Rightarrow> 'c \<Rightarrow> shc_event \<Rightarrow> ('c, shc_return) shc_result" where
  "shc_handle_event ctx s c event =
     (case event of
        EvTimeoutPropose e \<Rightarrow> update_context ctx (feed_state_machine ctx s c e)
      | EvTimeoutPrevote e \<Rightarrow> update_context ctx (feed_state_machine ctx s c e)
      | EvTimeoutPrecommit e \<Rightarrow> update_context ctx (feed_state_machine ctx s c e)
      | EvPrevote (Prevote pid r) \<Rightarrow>
          rebroadcast ctx s c (last_prevote s) r ''No prevote to send''
            (TaskPrevote (prevote_timeout (shc_timeouts s)) (Prevote pid r))
      | EvPrecommit (Precommit pid r) \<Rightarrow>
          rebroadcast ctx s c (last_precommit s) r ''No precommit to send''
            (TaskPrecommit (precommit_timeout (shc_timeouts s)) (Precommit pid r))
      | EvValidateProposal (Proposal built_id r valid_round) received_fin \<Rightarrow>
          if built_id \<noteq> map_option fin_proposal_content_id received_fin
          then Some ((s, c), Inr (Tasks []))
          else do {
            old \<leftarrow> shc_proposals s r;
            rs_assert (old = None);
            update_context ctx
              (feed_state_machine ctx (s\<lparr>shc_proposals := (shc_proposals s)(r \<mapsto> built_id)\<rparr>) c
                (Proposal built_id r valid_round)) }
      | EvBuildProposal (GetProposal pid r) \<Rightarrow> do {
          rs_assert (shc_proposals s r = None);
          update_context ctx
            (feed_state_machine ctx (s\<lparr>shc_proposals := (shc_proposals s)(r \<mapsto> pid)\<rparr>) c
              (GetProposal pid r)) }
      | _ \<Rightarrow> None)"

definition shc_handle_vote ::
    "('c, 'p) consensus_context \<Rightarrow> shc \<Rightarrow> 'c \<Rightarrow> vote \<Rightarrow> ('c, shc_return) shc_result" where
  "shc_handle_vote ctx s c v =
     (if vote_voter v \<notin> set (shc_validators s) then Some ((s, c), Inr (Tasks []))
      else
        (let key = (vote_round v, vote_voter v);
             (old_vote, s', sm_vote) =
               (case vote_type v of
                  VotePrevote \<Rightarrow>
                    (shc_prevotes s key, s\<lparr>shc_prevotes := (shc_prevotes s)(key \<mapsto> v)\<rparr>,
                     Prevote (vote_block_hash v) (vote_round v))
                | VotePrecommit \<Rightarrow>
                    (shc_precommits s key, s\<lparr>shc_precommits := (shc_precommits s)(key \<mapsto> v)\<rparr>,
                     Precommit (vote_block_hash v) (vote_round v)))
         in case old_vote of
              Some old \<Rightarrow>
                if vote_block_hash old \<noteq> vote_block_hash v
                then Some ((s, c), Inl (Equivocation (shc_height s) old v))
                else Some ((s, c), Inr (Tasks []))
            | None \<Rightarrow> update_context ctx (feed_state_machine ctx s' c sm_vote)))"

end
