(* ===== verification/Ordered_Collections.thy ===== *)
theory Ordered_Collections
  imports Sequencer_Prelude
begin

text \<open>
  Rust's ordered collections, as the components use them. A \<^verbatim>\<open>BTreeSet\<close> whose element type has
  its own \<^verbatim>\<open>Ord\<close> is a list that is strictly increasing in the key that \<^verbatim>\<open>Ord\<close> compares; two
  elements with equal keys are the same element for the set, so \<open>bts_insert\<close> keeps the old one. A
  \<^verbatim>\<open>BTreeMap\<close> is an association list strictly increasing in its keys; inserting replaces the
  value.
\<close>

section \<open>Ordered sets\<close>

definition increasing :: "('a \<Rightarrow> 'k::linorder) \<Rightarrow> 'a list \<Rightarrow> bool" where
  "increasing key = sorted_wrt (\<lambda>x y. key x < key y)"

lemma increasing_simps [simp]:
  "increasing key []"
  "increasing key (x # xs) \<longleftrightarrow> (\<forall>y \<in> set xs. key x < key y) \<and> increasing key xs"
  "increasing key (xs @ ys) \<longleftrightarrow>
     increasing key xs \<and> increasing key ys \<and> (\<forall>x \<in> set xs. \<forall>y \<in> set ys. key x < key y)"
  by (simp_all add: increasing_def sorted_wrt_append)

lemma increasing_filter: "increasing key xs \<Longrightarrow> increasing key (filter P xs)"
  by (simp add: increasing_def sorted_wrt_filter)

lemma increasing_distinct: "increasing key xs \<Longrightarrow> distinct xs"
  by (induction xs) auto

lemma increasing_inj_on: "increasing key xs \<Longrightarrow> inj_on key (set xs)"
proof (induction xs)
  case (Cons x xs)
  then have "key x \<notin> key ` set xs" "inj_on key (set xs)" by auto
  then show ?case by (auto simp: inj_on_insert)
qed simp

lemma increasing_distinct_keys: "increasing key xs \<Longrightarrow> distinct (map key xs)"
  by (simp add: distinct_map increasing_distinct increasing_inj_on)

lemma increasing_set_eq:
  "increasing key xs \<Longrightarrow> increasing key ys \<Longrightarrow> set xs = set ys \<Longrightarrow> xs = ys"
proof (induction xs arbitrary: ys)
  case (Cons x xs)
  then obtain y zs where ys: "ys = y # zs" by (cases ys) auto
  show ?case
  proof (cases "x = y")
    case 1: True
    from Cons.prems ys 1 have "x \<notin> set xs" "x \<notin> set zs" by auto
    with Cons.prems(3) ys 1 have "set xs = set zs" by auto
    with Cons ys 1 show ?thesis by simp
  next
    case False
    with Cons.prems(3) ys have "x \<in> set zs" "y \<in> set xs" by auto
    with Cons.prems(1,2) ys have "key x < key y" "key y < key x" by auto
    then show ?thesis by simp
  qed
qed simp

fun bts_insert :: "('a \<Rightarrow> 'k::linorder) \<Rightarrow> 'a \<Rightarrow> 'a list \<Rightarrow> 'a list \<times> bool" where
  "bts_insert key x [] = ([x], True)"
| "bts_insert key x (y # ys) =
     (if key x < key y then (x # y # ys, True)
      else if key x = key y then (y # ys, False)
      else (let (zs, b) = bts_insert key x ys in (y # zs, b)))"

fun bts_remove :: "('a \<Rightarrow> 'k) \<Rightarrow> 'k \<Rightarrow> 'a list \<Rightarrow> 'a list \<times> bool" where
  "bts_remove key k [] = ([], False)"
| "bts_remove key k (y # ys) =
     (if key y = k then (ys, True) else (let (zs, b) = bts_remove key k ys in (y # zs, b)))"

definition bts_split_off :: "('a \<Rightarrow> 'k::linorder) \<Rightarrow> 'k \<Rightarrow> 'a list \<Rightarrow> 'a list \<times> 'a list" where
  "bts_split_off key k xs = (takeWhile (\<lambda>x. key x < k) xs, dropWhile (\<lambda>x. key x < k) xs)"

fun bts_extend :: "('a \<Rightarrow> 'k::linorder) \<Rightarrow> 'a list \<Rightarrow> 'a list \<Rightarrow> 'a list" where
  "bts_extend key xs [] = xs"
| "bts_extend key xs (y # ys) = bts_extend key (fst (bts_insert key y xs)) ys"

lemma bts_insert_set:
  "increasing key xs \<Longrightarrow> set (fst (bts_insert key x xs)) =
     (if key x \<in> key ` set xs then set xs else insert x (set xs))"
  by (induction xs) (auto split: prod.splits)

lemma bts_insert_flag:
  "increasing key xs \<Longrightarrow> snd (bts_insert key x xs) \<longleftrightarrow> key x \<notin> key ` set xs"
  by (induction xs) (auto split: prod.splits)

lemma bts_insert_subset: "set (fst (bts_insert key x xs)) \<subseteq> insert x (set xs)"
  by (induction xs) (auto split: prod.splits)

lemma bts_insert_increasing [simp]:
  "increasing key xs \<Longrightarrow> increasing key (fst (bts_insert key x xs))"
proof (induction xs)
  case (Cons y ys)
  obtain zs b where "bts_insert key x ys = (zs, b)" by force
  with Cons bts_insert_subset[of key x ys] show ?case by auto
qed simp

lemma bts_remove_set:
  "increasing key xs \<Longrightarrow> set (fst (bts_remove key k xs)) = {x \<in> set xs. key x \<noteq> k}"
  by (induction xs) (auto split: prod.splits)

lemma bts_remove_flag: "snd (bts_remove key k xs) \<longleftrightarrow> k \<in> key ` set xs"
  by (induction xs) (auto split: prod.splits)

lemma bts_remove_filter:
  "increasing key xs \<Longrightarrow> fst (bts_remove key k xs) = filter (\<lambda>x. key x \<noteq> k) xs"
proof (induction xs)
  case (Cons y ys)
  then have "key y = k \<Longrightarrow> filter (\<lambda>x. key x \<noteq> k) ys = ys"
    by (intro filter_True) auto
  with Cons show ?case by (auto split: prod.splits)
qed simp

lemma bts_remove_increasing [simp]:
  "increasing key xs \<Longrightarrow> increasing key (fst (bts_remove key k xs))"
  by (simp add: bts_remove_filter increasing_filter)

lemma bts_split_off_filter:
  "increasing key xs \<Longrightarrow>
   bts_split_off key k xs = (filter (\<lambda>x. key x < k) xs, filter (\<lambda>x. k \<le> key x) xs)"
proof (induction xs)
  case (Cons y ys)
  have "\<not> key y < k \<Longrightarrow> filter (\<lambda>x. key x < k) ys = []" "\<not> key y < k \<Longrightarrow> filter (\<lambda>x. k \<le> key x) ys = ys"
    using Cons.prems by (auto simp: filter_empty_conv filter_id_conv)
  with Cons show ?case by (auto simp: bts_split_off_def)
qed (simp add: bts_split_off_def)

lemma bts_extend_increasing [simp]:
  "increasing key xs \<Longrightarrow> increasing key (bts_extend key xs ys)"
  by (induction ys arbitrary: xs) simp_all

lemma bts_extend_set:
  "increasing key xs \<Longrightarrow> inj_on key (set xs \<union> set ys) \<Longrightarrow> set (bts_extend key xs ys) = set xs \<union> set ys"
proof (induction ys arbitrary: xs)
  case (Cons y ys)
  have "set (fst (bts_insert key y xs)) = insert y (set xs)"
    using Cons.prems by (auto simp: bts_insert_set inj_on_def)
  with Cons.IH[of "fst (bts_insert key y xs)"] Cons.prems show ?case by simp
qed simp

section \<open>Ordered maps\<close>

fun btm_insert :: "'k::linorder \<Rightarrow> 'v \<Rightarrow> ('k \<times> 'v) list \<Rightarrow> ('k \<times> 'v) list" where
  "btm_insert k v [] = [(k, v)]"
| "btm_insert k v ((k', v') # m) =
     (if k < k' then (k, v) # (k', v') # m
      else if k = k' then (k, v) # m
      else (k', v') # btm_insert k v m)"

definition btm_remove :: "'k \<Rightarrow> ('k \<times> 'v) list \<Rightarrow> ('k \<times> 'v) list" where
  "btm_remove k m = filter (\<lambda>(k', _). k' \<noteq> k) m"

lemma btm_insert_keys [simp]: "fst ` set (btm_insert k v m) = insert k (fst ` set m)"
  by (induction k v m rule: btm_insert.induct) auto

lemma btm_insert_subset: "set (btm_insert k v m) \<subseteq> insert (k, v) (set m)"
  by (induction k v m rule: btm_insert.induct) auto

lemma btm_insert_increasing [simp]: "increasing fst m \<Longrightarrow> increasing fst (btm_insert k v m)"
proof (induction k v m rule: btm_insert.induct)
  case (2 k v k' v' m)
  have "k' < fst y" if "y \<in> set (btm_insert k v m)" "\<not> k < k'" "k \<noteq> k'" for y
    using that btm_insert_subset[of k v m] "2.prems" by auto
  with 2 show ?case by auto
qed simp

lemma increasing_map_of_None:
  "increasing fst ((k', v') # m) \<Longrightarrow> k < k' \<Longrightarrow> map_of m k = None"
  by (force simp: map_of_eq_None_iff)

lemma map_of_btm_insert [simp]:
  "increasing fst m \<Longrightarrow> map_of (btm_insert k v m) = (map_of m)(k \<mapsto> v)"
  by (induction k v m rule: btm_insert.induct) auto

lemma btm_insert_not_Nil [simp]: "btm_insert k v m \<noteq> []"
  by (cases "(k, v, m)" rule: btm_insert.cases) auto

lemma map_of_btm_remove [simp]: "map_of (btm_remove k m) = (map_of m)(k := None)"
  by (induction m) (auto simp: btm_remove_def)

lemma btm_remove_increasing [simp]: "increasing fst m \<Longrightarrow> increasing fst (btm_remove k m)"
  by (simp add: btm_remove_def increasing_filter)

lemma btm_remove_Nil_iff: "btm_remove k m = [] \<longleftrightarrow> fst ` set m \<subseteq> {k}"
  by (auto simp: btm_remove_def filter_empty_conv)

lemma increasing_fst_map_of:
  assumes "increasing fst m"
  shows "map_of m k = Some v \<longleftrightarrow> (k, v) \<in> set m"
proof (rule map_of_eq_Some_iff)
  show "distinct (map fst m)"
    by (rule increasing_distinct_keys[OF assms])
qed

end
