(* ===== verification/Consensus_Manager.thy ===== *)
theory Consensus_Manager
  imports Single_Height_Consensus Ordered_Collections
begin

text \<open>
  Consensus over many heights, \<^verbatim>\<open>crates/sequencing/papyrus_consensus/src/manager.rs\<close>: the manager runs
  one \<open>shc\<close> per height, feeds it the messages of that height, keeps the messages of later heights,
  and hands every decision to the context.

  The \<^verbatim>\<open>select!\<close> of \<^verbatim>\<open>run_height\<close> is modelled by the list of what becomes ready, in any order: a vote, a
  proposal stream, the completion of one of the pending tasks, or the sync timer. The reports of peers
  and the propagation of votes, whose results the code ignores, are left out, and so are sleeping,
  logging and metrics. \<open>BTreeMap\<close>s are association lists in increasing order of the keys.
\<close>

section \<open>The manager and its caches\<close>

record 'p manager =
  mg_validator_id :: validator_id
  future_votes :: "(u64 \<times> vote list) list"
  cached_proposals :: "(u64 \<times> (u32 \<times> proposal_init \<times> 'p mpsc_receiver) list) list"
  mg_timeouts :: timeouts_config

datatype run_height_res = RhDecision decision | RhSync block_number

definition manager_new :: "validator_id \<Rightarrow> timeouts_config \<Rightarrow> 'p manager" where
  "manager_new i timeouts =
     \<lparr>mg_validator_id = i, future_votes = [], cached_proposals = [], mg_timeouts = timeouts\<rparr>"

text \<open>\<open>entry(k).or_default()\<close>\<close>

definition entry_or_default :: "(u64 \<times> 'a list) list \<Rightarrow> u64 \<Rightarrow> 'a list" where
  "entry_or_default m k = (case map_of m k of None \<Rightarrow> [] | Some v \<Rightarrow> v)"

fun get_current_height_proposals ::
    "(u64 \<times> (u32 \<times> 'a) list) list \<Rightarrow> block_number \<Rightarrow> 'a list \<times> (u64 \<times> (u32 \<times> 'a) list) list" where
  "get_current_height_proposals [] height = ([], [])"
| "get_current_height_proposals ((k, submap) # m) height =
     (if k > height then ([], (k, submap) # m)
      else if k = height then (map snd submap, m)
      else get_current_height_proposals m height)"

fun get_current_height_votes ::
    "(u64 \<times> vote list) list \<Rightarrow> block_number \<Rightarrow> vote list \<times> (u64 \<times> vote list) list" where
  "get_current_height_votes [] height = ([], [])"
| "get_current_height_votes ((k, votes) # m) height =
     (if k > height then ([], (k, votes) # m)
      else if k = height then (votes, m)
      else get_current_height_votes m height)"

section \<open>One height\<close>

type_synonym ('c, 'p) manager_result = "('p manager \<times> shc \<times> 'c, consensus_error, shc_return) rs_result"

definition with_manager ::
    "'p manager \<Rightarrow> ('c, shc_return) shc_result \<Rightarrow> ('c, 'p) manager_result" where
  "with_manager mg res = map_option (\<lambda>((s, c), ret). ((mg, s, c), ret)) res"

text \<open>The loops of \<^verbatim>\<open>start_height\<close> over the cached messages: tasks are collected, a decision ends the
  loop.\<close>

fun handle_cached ::
    "(shc \<Rightarrow> 'c \<Rightarrow> 'm \<Rightarrow> ('c, shc_return) shc_result) \<Rightarrow> shc \<Rightarrow> 'c \<Rightarrow> shc_task list \<Rightarrow> 'm list
      \<Rightarrow> ('c, shc_return) shc_result" where
  "handle_cached handle s c tasks [] = Some ((s, c), Inr (Tasks tasks))"
| "handle_cached handle s c tasks (m # ms) =
     rs_try (handle s c m)
       (\<lambda>(s', c') ret. case ret of
          ShcDecision d \<Rightarrow> Some ((s', c'), Inr (ShcDecision d))
        | Tasks new_tasks \<Rightarrow> handle_cached handle s' c' (tasks @ new_tasks) ms)"

definition start_height ::
    "('c, 'p) consensus_context \<Rightarrow> 'p manager \<Rightarrow> 'c \<Rightarrow> block_number \<Rightarrow> shc \<Rightarrow> ('c, 'p) manager_result" where
  "start_height ctx mg c height s =
     rs_try (with_manager mg (shc_start ctx s c)) (\<lambda>(mg, s, c) ret. case ret of
       ShcDecision d \<Rightarrow> Some ((mg, s, c), Inr (ShcDecision d))
     | Tasks tasks \<Rightarrow>
         (let (proposals, rest) = get_current_height_proposals (cached_proposals mg) height
          in rs_try (with_manager (mg\<lparr>cached_proposals := rest\<rparr>)
                (handle_cached (\<lambda>s c (init, content_receiver). shc_handle_proposal ctx s c init content_receiver)
                  s c tasks proposals))
              (\<lambda>(mg, s, c) ret. case ret of
                 ShcDecision d \<Rightarrow> Some ((mg, s, c), Inr (ShcDecision d))
               | Tasks tasks \<Rightarrow>
                   (let (votes, rest) = get_current_height_votes (future_votes mg) height
                    in with_manager (mg\<lparr>future_votes := rest\<rparr>)
                         (handle_cached (shc_handle_vote ctx) s c tasks votes)))))"

definition manager_handle_proposal ::
    "('c, 'p) consensus_context \<Rightarrow> 'p manager \<Rightarrow> 'c \<Rightarrow> block_number \<Rightarrow> shc \<Rightarrow> 'p mpsc_receiver
      \<Rightarrow> ('c, 'p) manager_result" where
  "manager_handle_proposal ctx mg c height s content_receiver =
     (case mpsc_try_next content_receiver of
        (Inl _, _) \<Rightarrow> Some ((mg, s, c), Inl (InternalNetworkError
          ''Stream handler must fill the first message before sending the stream''))
      | (Inr None, _) \<Rightarrow> Some ((mg, s, c), Inl (InternalNetworkError ''Proposal receiver closed''))
      | (Inr (Some first_part), content_receiver') \<Rightarrow>
          (case part_into_init ctx first_part of
             Inl e \<Rightarrow> Some ((mg, s, c), Inl (ProtobufConversionError e))
           | Inr init \<Rightarrow>
               if init_height init > height then
                 (let of_height = entry_or_default (cached_proposals mg) (init_height init);
                      of_height' = (case map_of of_height (init_round init) of
                          None \<Rightarrow> btm_insert (init_round init) (init, content_receiver') of_height
                        | Some _ \<Rightarrow> of_height)
                  in Some ((mg\<lparr>cached_proposals :=
                         btm_insert (init_height init) of_height' (cached_proposals mg)\<rparr>, s, c),
                       Inr (Tasks [])))
               else if init_height init < height then Some ((mg, s, c), Inr (Tasks []))
               else with_manager mg (shc_handle_proposal ctx s c init content_receiver')))"

definition manager_handle_vote ::
    "('c, 'p) consensus_context \<Rightarrow> 'p manager \<Rightarrow> 'c \<Rightarrow> block_number \<Rightarrow> shc
      \<Rightarrow> (protobuf_conversion_error + vote) option \<Rightarrow> ('c, 'p) manager_result" where
  "manager_handle_vote ctx mg c height s message =
     (case message of
        None \<Rightarrow> Some ((mg, s, c), Inl (InternalNetworkError ''NetworkReceiver should never be closed''))
      | Some (Inl e) \<Rightarrow> Some ((mg, s, c), Inl (ProtobufConversionError e))
      | Some (Inr v) \<Rightarrow>
          if vote_height v > height then
            Some ((mg\<lparr>future_votes := btm_insert (vote_height v)
                 (entry_or_default (future_votes mg) (vote_height v) @ [v]) (future_votes mg)\<rparr>, s, c),
               Inr (Tasks []))
          else if vote_height v < height then Some ((mg, s, c), Inr (Tasks []))
          else with_manager mg (shc_handle_vote ctx s c v))"

datatype 'p height_input =
    VoteMessage "(protobuf_conversion_error + vote) option"
  | ProposalStream "'p mpsc_receiver"
  | TaskDone nat "proposal_content_id option" "(proposal_content_id \<times> proposal_fin) option"
  | SyncTimer

record ('c, 'p) height_state =
  hs_manager :: "'p manager"
  hs_context :: 'c
  hs_shc :: shc
  hs_events :: "shc_task list"

datatype ('c, 'p) height_outcome =
    Running "('c, 'p) height_state"
  | Returned "'p manager" 'c "consensus_error + run_height_res"

definition after_return ::
    "shc_task list \<Rightarrow> ('c, 'p) manager_result \<Rightarrow> ('c, 'p) height_outcome option" where
  "after_return shc_events res =
     map_option (\<lambda>((mg, s, c), ret). case ret of
         Inl e \<Rightarrow> Returned mg c (Inl e)
       | Inr (ShcDecision d) \<Rightarrow> Returned mg c (Inr (RhDecision d))
       | Inr (Tasks tasks) \<Rightarrow>
           Running \<lparr>hs_manager = mg, hs_context = c, hs_shc = s, hs_events = shc_events @ tasks\<rparr>) res"

text \<open>One iteration of the loop of \<^verbatim>\<open>run_height\<close>. The arm of the pending tasks is only taken by a task
  that is pending.\<close>

definition run_height_step ::
    "('c, 'p) consensus_context \<Rightarrow> block_number \<Rightarrow> ('c, 'p) height_state \<Rightarrow> 'p height_input
      \<Rightarrow> ('c, 'p) height_outcome option" where
  "run_height_step ctx height st input =
     (let mg = hs_manager st; c = hs_context st; s = hs_shc st; shc_events = hs_events st
      in case input of
           VoteMessage message \<Rightarrow> after_return shc_events (manager_handle_vote ctx mg c height s message)
         | ProposalStream content_receiver \<Rightarrow>
             after_return shc_events (manager_handle_proposal ctx mg c height s content_receiver)
         | TaskDone i built validated \<Rightarrow>
             if length shc_events \<le> i then Some (Running st)
             else after_return (take i shc_events @ drop (Suc i) shc_events)
                 (with_manager mg
                   (shc_handle_event ctx s c (shc_task_run (\<lambda>_. built) (\<lambda>_. validated) (shc_events ! i))))
         | SyncTimer \<Rightarrow>
             (case try_sync ctx c height of
                (True, c') \<Rightarrow> Some (Returned mg c' (Inr (RhSync height)))
              | (False, c') \<Rightarrow> Some (Running (st\<lparr>hs_context := c'\<rparr>))))"

fun run_height_loop ::
    "('c, 'p) consensus_context \<Rightarrow> block_number \<Rightarrow> ('c, 'p) height_outcome \<Rightarrow> 'p height_input list
      \<Rightarrow> ('c, 'p) height_outcome option" where
  "run_height_loop ctx height (Returned mg c res) inputs = Some (Returned mg c res)"
| "run_height_loop ctx height (Running st) [] = Some (Running st)"
| "run_height_loop ctx height (Running st) (input # inputs) = do {
     out \<leftarrow> run_height_step ctx height st input;
     run_height_loop ctx height out inputs }"

definition run_height ::
    "('c, 'p) consensus_context \<Rightarrow> 'p manager \<Rightarrow> 'c \<Rightarrow> block_number \<Rightarrow> bool \<Rightarrow> 'p height_input list
      \<Rightarrow> ('c, 'p) height_outcome option" where
  "run_height ctx mg c height must_observer inputs = do {
     let validators = ctx_validators ctx c height;
     let obs = (must_observer \<or> mg_validator_id mg \<notin> set validators);
     s \<leftarrow> shc_new height obs (mg_validator_id mg) validators (mg_timeouts mg);
     out \<leftarrow> after_return [] (start_height ctx mg c height s);
     run_height_loop ctx height out inputs }"

section \<open>All heights\<close>

text \<open>
  \<^verbatim>\<open>run_consensus\<close>, given what becomes ready during each height. Besides the error with which it ends
  (\<open>None\<close> while it is still running) the model returns the calls of \<^verbatim>\<open>decision_reached\<close>, with their
  heights, in order.
\<close>

fun run_consensus_loop ::
    "('c, 'p) consensus_context \<Rightarrow> block_number \<Rightarrow> 'p manager \<Rightarrow> 'c \<Rightarrow> block_number
      \<Rightarrow> 'p height_input list list
      \<Rightarrow> ((block_number \<times> decision) list \<times> consensus_error option) option" where
  "run_consensus_loop ctx start_active_height mg c current_height [] = Some ([], None)"
| "run_consensus_loop ctx start_active_height mg c current_height (inputs # heights) = do {
     out \<leftarrow> run_height ctx mg c current_height (current_height < start_active_height) inputs;
     (case out of
        Running st \<Rightarrow> Some ([], None)
      | Returned mg' c' (Inl e) \<Rightarrow> Some ([], Some e)
      | Returned mg' c' (Inr (RhDecision d)) \<Rightarrow>
          (case decision_reached ctx c' (dec_block d) (dec_precommits d) of
             (Inl e, c'') \<Rightarrow> Some ([(current_height, d)], Some e)
           | (Inr _, c'') \<Rightarrow> do {
               (ds, e) \<leftarrow> run_consensus_loop ctx start_active_height mg' c'' (current_height + 1) heights;
               Some ((current_height, d) # ds, e) })
      | Returned mg' c' (Inr (RhSync sync_height)) \<Rightarrow>
          run_consensus_loop ctx start_active_height mg' c' (sync_height + 1) heights) }"

definition run_consensus ::
    "('c, 'p) consensus_context \<Rightarrow> 'c \<Rightarrow> block_number \<Rightarrow> block_number \<Rightarrow> validator_id \<Rightarrow> timeouts_config
      \<Rightarrow> 'p height_input list list
      \<Rightarrow> ((block_number \<times> decision) list \<times> consensus_error option) option" where
  "run_consensus ctx c start_active_height start_observe_height i timeouts heights = do {
     rs_assert (start_observe_height \<le> start_active_height);
     run_consensus_loop ctx start_active_height (manager_new i timeouts) c start_observe_height heights }"

end
