(* ===== verification/Consensus_Decisions.thy ===== *)
theory Consensus_Decisions
  imports Consensus_Manager
begin

text \<open>
  What the manager hands to the node: every decision carries a quorum of precommits of distinct
  validators for its block, all of its height and of one round, which is what the documentation of
  \<^verbatim>\<open>decision_reached\<close> in \<^verbatim>\<open>types.rs\<close> requires. Also how the manager keeps messages of later heights, and
  two inputs that end consensus.
\<close>

section \<open>The quorum of the state machine is fixed\<close>

lemma handle_event_internal_quorum:
  assumes "handle_event_internal s e lf = Some (s', out)"
  shows "sm_quorum s' = sm_quorum s"
proof -
  from handle_event_internal_settles[OF assms] obtain m out' where
    "upon_rules m out' s'" "same_log (log_event e s) m"
    by (auto simp: settles_by_rules_def)
  then have "sm_quorum s' = sm_quorum (log_event e s)"
    by (auto simp: same_log_def dest: upon_rules_effect(1))
  then show ?thesis by (cases e) simp_all
qed

lemma handle_enqueued_events_quorum:
  "handle_enqueued_events s lf = Some (s', out) \<Longrightarrow> sm_quorum s' = sm_quorum s"
proof (induction s lf arbitrary: s' out rule: handle_enqueued_events.induct)
  case (1 s lf)
  show ?case
  proof (cases "events_queue s")
    case Nil
    with "1.prems" show ?thesis by (simp add: handle_enqueued_events.simps)
  next
    case (Cons e q)
    with "1.prems"(1) obtain s1 res s2 o1 ret where
      int: "handle_event_internal (s\<lparr>events_queue := q\<rparr>) e lf = Some (s1, res)" and
      dis: "dispatch_events s1 res = Some (s2, o1, ret)" and
      rest: "if ret then s' = s2 \<and> out = o1
        else \<exists>o2. handle_enqueued_events s2 lf = Some (s', o2) \<and> out = o1 @ o2"
      by (subst (asm) handle_enqueued_events.simps)
        (auto simp: bind_eq_Some_conv split: if_splits)
    from dispatch_events_effect[OF dis] handle_event_internal_quorum[OF int]
    have s2: "sm_quorum s2 = sm_quorum s" by auto
    show ?thesis
    proof (cases ret)
      case False
      with rest obtain o2 where o2: "handle_enqueued_events s2 lf = Some (s', o2)" by auto
      with "1.IH"[OF Cons int _ dis _ _ False o2] s2 show ?thesis by simp
    qed (use rest s2 in simp)
  qed
qed

lemma handle_event_quorum:
  "handle_event s e lf = Some (s', out) \<Longrightarrow> sm_quorum s' = sm_quorum s"
  by (auto simp: handle_event_def split: if_splits dest: handle_enqueued_events_quorum)

lemma sm_start_quorum: "sm_start s lf = (s', out) \<Longrightarrow> sm_quorum s' = sm_quorum s"
  using advance_to_round_effect(1)[of s 0 lf s' out] by (simp add: sm_start_def same_log_def)

section \<open>The recorded precommits\<close>

definition decision_supported :: "block_number \<Rightarrow> validator_id list \<Rightarrow> decision \<Rightarrow> bool" where
  "decision_supported h vs d \<longleftrightarrow>
     (\<exists>r. list_all (\<lambda>v. vote_type v = VotePrecommit \<and> vote_height v = h \<and> vote_round v = r \<and>
        vote_block_hash v = Some (dec_block d)) (dec_precommits d)) \<and>
     distinct (map vote_voter (dec_precommits d)) \<and>
     set (map vote_voter (dec_precommits d)) \<subseteq> set vs \<and>
     2 * length vs < 3 * length (dec_precommits d)"

definition precommit_of :: "block_number \<Rightarrow> round \<Rightarrow> validator_id \<Rightarrow> vote \<Rightarrow> bool" where
  "precommit_of h r x v \<longleftrightarrow>
     vote_type v = VotePrecommit \<and> vote_height v = h \<and> vote_round v = r \<and> vote_voter v = x"

definition shc_ok :: "block_number \<Rightarrow> validator_id list \<Rightarrow> shc \<Rightarrow> bool" where
  "shc_ok h vs s \<longleftrightarrow> shc_height s = h \<and> shc_validators s = vs \<and> distinct vs \<and>
     unat (sm_quorum (shc_state_machine s)) = 2 * length vs div 3 + 1 \<and>
     (\<forall>r x v. shc_precommits s (r, x) = Some v \<longrightarrow> precommit_of h r x v)"

lemma shc_ok_frame:
  "shc_ok h vs s \<Longrightarrow> shc_height s' = shc_height s \<Longrightarrow> shc_validators s' = shc_validators s \<Longrightarrow>
   sm_quorum (shc_state_machine s') = sm_quorum (shc_state_machine s) \<Longrightarrow>
   shc_precommits s' = shc_precommits s \<Longrightarrow> shc_ok h vs s'"
  by (simp add: shc_ok_def)

lemma map_filter_voters:
  assumes "\<And>x v. x \<in> set xs \<Longrightarrow> f x = Some v \<Longrightarrow> vote_voter v = x"
  shows "map vote_voter (List.map_filter f xs) = filter (\<lambda>x. f x \<noteq> None) xs"
  using assms by (induction xs) (auto simp: List.map_filter_def)

lemma supporting_precommits_supported:
  assumes "shc_ok h vs s" "unat (sm_quorum (shc_state_machine s)) \<le> length (supporting_precommits s r pid)"
  shows "decision_supported h vs \<lparr>dec_precommits = supporting_precommits s r pid, dec_block = pid\<rparr>"
proof -
  let ?f = "\<lambda>v. case shc_precommits s (r, v) of
     None \<Rightarrow> None | Some vt \<Rightarrow> if vote_block_hash vt = Some pid then Some vt else None"
  from assms(1) have eq: "supporting_precommits s r pid = List.map_filter ?f vs"
    by (simp add: supporting_precommits_def shc_ok_def)
  from assms(1) have f: "?f x = Some v \<Longrightarrow> precommit_of h r x v \<and> vote_block_hash v = Some pid" for x v
    by (auto simp: shc_ok_def split: option.splits if_splits)
  have voters: "map vote_voter (List.map_filter ?f vs) = filter (\<lambda>x. ?f x \<noteq> None) vs"
    using f by (intro map_filter_voters) (simp add: precommit_of_def)
  have "list_all (\<lambda>v. vote_type v = VotePrecommit \<and> vote_height v = h \<and> vote_round v = r \<and>
      vote_block_hash v = Some pid) (List.map_filter ?f vs)"
    using f by (fastforce simp: list_all_iff List.map_filter_def precommit_of_def)
  moreover have "2 * length vs < 3 * length (List.map_filter ?f vs)"
    using assms by (auto simp: eq shc_ok_def)
  moreover have "distinct vs" using assms(1) by (simp add: shc_ok_def)
  ultimately show ?thesis
    by (auto simp: decision_supported_def eq voters simp flip: set_map)
qed

definition ok_return :: "block_number \<Rightarrow> validator_id list \<Rightarrow> consensus_error + shc_return \<Rightarrow> bool" where
  "ok_return h vs ret \<longleftrightarrow> (\<forall>d. ret = Inr (ShcDecision d) \<longrightarrow> decision_supported h vs d)"

definition ok_result :: "block_number \<Rightarrow> validator_id list \<Rightarrow> ('c, shc_return) shc_result \<Rightarrow> bool" where
  "ok_result h vs res \<longleftrightarrow> (\<forall>s c ret. res = Some ((s, c), ret) \<longrightarrow> shc_ok h vs s \<and> ok_return h vs ret)"

lemma ok_result_simps [simp]:
  "ok_result h vs None"
  "ok_result h vs (Some ((s, c), Inl e)) \<longleftrightarrow> shc_ok h vs s"
  "ok_result h vs (Some ((s, c), Inr (Tasks ts))) \<longleftrightarrow> shc_ok h vs s"
  "ok_result h vs (Some ((s, c), Inr (ShcDecision d))) \<longleftrightarrow> shc_ok h vs s \<and> decision_supported h vs d"
  by (simp_all add: ok_result_def ok_return_def)

lemma ok_result_update_context [simp]: "ok_result h vs (update_context ctx res) = ok_result h vs res"
  by (auto simp: ok_result_def update_context_def)

lemma ok_result_rs_try:
  assumes "\<And>s c e. m = Some ((s, c), Inl e) \<Longrightarrow> shc_ok h vs s"
    and "\<And>s c a. m = Some ((s, c), Inr a) \<Longrightarrow> ok_result h vs (f (s, c) a)"
  shows "ok_result h vs (rs_try m f)"
  using assms by (auto simp: rs_try_def split: option.splits sum.splits)

lemma handle_state_machine_decision_ok:
  assumes "shc_ok h vs s" "handle_state_machine_decision s pid r = (s', ret)"
  shows "ok_result h vs (Some ((s', c), ret))"
  using assms supporting_precommits_supported[OF assms(1), of r pid]
  by (auto simp: handle_state_machine_decision_def Let_def shc_ok_def not_less
      split: option.splits if_splits)

lemma handle_state_machine_vote_ok:
  assumes "shc_ok h vs s" "handle_state_machine_vote ctx s c pid r vt = Some ((s', c'), ret)"
  shows "shc_ok h vs s'"
  using assms
  by (cases vt)
    (auto simp: handle_state_machine_vote_def record_own_vote_def Let_def shc_ok_def precommit_of_def
      split: option.splits sum.splits prod.splits if_splits)

lemma handle_state_machine_proposal_frame:
  "handle_state_machine_proposal ctx s c pid r vr = Some (s', c') \<Longrightarrow>
   \<exists>p. s' = s\<lparr>shc_proposals := p\<rparr>"
  by (auto simp: handle_state_machine_proposal_def bind_eq_Some_conv Let_def split: option.splits
      intro: exI[of _ "shc_proposals s"])

lemma handle_state_machine_events_loop_ok:
  "shc_ok h vs s \<Longrightarrow> ok_result h vs (handle_state_machine_events_loop ctx s c ret_val events)"
proof (induction events arbitrary: s c ret_val)
  case (Cons e es)
  show ?case
  proof (cases e)
    case (GetProposal pid r)
    with Cons show ?thesis
      by (cases "handle_state_machine_get_proposal ctx s c pid r") auto
  next
    case (Proposal pid r vr)
    with Cons show ?thesis
      by (cases "handle_state_machine_proposal ctx s c pid r vr")
        (auto dest!: handle_state_machine_proposal_frame intro!: Cons.IH shc_ok_frame[OF Cons.prems])
  next
    case (Decision pid r)
    with handle_state_machine_decision_ok[OF Cons.prems] show ?thesis
      by (auto split: prod.splits)
  qed (use Cons in \<open>auto intro!: ok_result_rs_try Cons.IH elim!: handle_state_machine_vote_ok[OF Cons.prems]\<close>)
qed simp

lemma handle_state_machine_events_ok:
  "shc_ok h vs s \<Longrightarrow> ok_result h vs (handle_state_machine_events ctx s c events)"
  by (simp add: handle_state_machine_events_def handle_state_machine_events_loop_ok)

lemma feed_state_machine_ok:
  "shc_ok h vs s \<Longrightarrow> ok_result h vs (feed_state_machine ctx s c e)"
  by (cases "handle_event (shc_state_machine s) e (leader_fn ctx s c)")
    (auto simp: feed_state_machine_def dest!: handle_event_quorum
      intro!: handle_state_machine_events_ok elim: shc_ok_frame)

lemma shc_start_ok: "shc_ok h vs s \<Longrightarrow> ok_result h vs (shc_start ctx s c)"
  by (auto simp: shc_start_def Let_def split: prod.splits dest!: sm_start_quorum
      intro!: handle_state_machine_events_ok elim: shc_ok_frame)

lemma shc_handle_proposal_ok:
  "shc_ok h vs s \<Longrightarrow> ok_result h vs (shc_handle_proposal ctx s c init rx)"
  by (auto simp: shc_handle_proposal_def Let_def split: option.splits prod.splits
      elim: shc_ok_frame)

lemma rebroadcast_ok: "shc_ok h vs s \<Longrightarrow> ok_result h vs (rebroadcast ctx s c l r msg t)"
  by (auto simp: rebroadcast_def split: option.splits prod.splits sum.splits)

lemma shc_handle_event_ok:
  "shc_ok h vs s \<Longrightarrow> ok_result h vs (shc_handle_event ctx s c e)"
  by (auto simp: shc_handle_event_def rebroadcast_ok feed_state_machine_ok rs_assert_def
      split: shc_event.splits state_machine_event.splits Option.bind_splits
      intro!: feed_state_machine_ok elim: shc_ok_frame)

lemma shc_handle_vote_ok:
  assumes "shc_ok h vs s" "vote_height v = h"
  shows "ok_result h vs (shc_handle_vote ctx s c v)"
proof -
  from assms have "vote_type v = VotePrecommit \<Longrightarrow>
      shc_ok h vs (s\<lparr>shc_precommits := (shc_precommits s)((vote_round v, vote_voter v) \<mapsto> v)\<rparr>)"
    by (auto simp: shc_ok_def precommit_of_def)
  with assms show ?thesis
    by (auto simp: shc_handle_vote_def Let_def split: vote_type.splits option.splits
        intro!: feed_state_machine_ok elim: shc_ok_frame)
qed


section \<open>Heights and the manager\<close>

definition manager_ok :: "'p manager \<Rightarrow> bool" where
  "manager_ok mg \<longleftrightarrow> increasing fst (future_votes mg) \<and>
     (\<forall>(h, votes) \<in> set (future_votes mg). \<forall>v \<in> set votes. vote_height v = h)"

definition ok_manager_result ::
    "block_number \<Rightarrow> validator_id list \<Rightarrow> ('c, 'p) manager_result \<Rightarrow> bool" where
  "ok_manager_result h vs res \<longleftrightarrow> (\<forall>mg s c ret. res = Some ((mg, s, c), ret) \<longrightarrow>
     manager_ok mg \<and> shc_ok h vs s \<and> ok_return h vs ret)"

lemma ok_manager_result_simps [simp]:
  "ok_manager_result h vs (Some ((mg, s, c), Inl e)) \<longleftrightarrow> manager_ok mg \<and> shc_ok h vs s"
  "ok_manager_result h vs (Some ((mg, s, c), Inr (Tasks ts))) \<longleftrightarrow> manager_ok mg \<and> shc_ok h vs s"
  by (simp_all add: ok_manager_result_def ok_return_def)

lemma ok_manager_result_with_manager:
  "manager_ok mg \<Longrightarrow> ok_result h vs res \<Longrightarrow> ok_manager_result h vs (with_manager mg res)"
  by (auto simp: ok_manager_result_def ok_result_def with_manager_def)

lemma ok_manager_result_rs_try:
  assumes "ok_manager_result h vs m"
    and "\<And>mg s c ret. manager_ok mg \<Longrightarrow> shc_ok h vs s \<Longrightarrow> ok_return h vs (Inr ret) \<Longrightarrow>
      ok_manager_result h vs (f (mg, s, c) ret)"
  shows "ok_manager_result h vs (rs_try m f)"
proof (cases m)
  case (Some x)
  obtain mg s c ret where x: "x = ((mg, s, c), ret)" by (metis prod.exhaust)
  with assms(1) Some have ok: "manager_ok mg" "shc_ok h vs s" "ok_return h vs ret"
    by (simp_all add: ok_manager_result_def)
  show ?thesis
  proof (cases ret)
    case (Inr a)
    with assms(2)[OF ok(1,2), of a] ok(3) Some x show ?thesis by simp
  qed (use ok Some x in \<open>simp add: ok_manager_result_def\<close>)
qed (simp add: ok_manager_result_def)

lemma get_current_height_votes_eq:
  "increasing fst m \<Longrightarrow> get_current_height_votes m h = (entry_or_default m h, filter (\<lambda>(k, _). h < k) m)"
proof (induction m h rule: get_current_height_votes.induct)
  case (2 k votes m h)
  have "h \<le> k \<Longrightarrow> filter (\<lambda>(k, _). h < k) m = m" "h < k \<Longrightarrow> map_of m h = None"
    using "2.prems" by (auto simp: filter_id_conv map_of_eq_None_iff)
  with 2 show ?case
    by (auto simp: entry_or_default_def)
qed (simp add: entry_or_default_def)

lemma entry_or_default_in:
  "v \<in> set (entry_or_default m k) \<Longrightarrow> \<exists>vs. (k, vs) \<in> set m \<and> v \<in> set vs"
  by (cases "map_of m k") (auto simp: entry_or_default_def dest: map_of_SomeD)

lemma manager_ok_cached:
  assumes "manager_ok mg" "get_current_height_votes (future_votes mg) h = (votes, rest)"
  shows "manager_ok (mg\<lparr>future_votes := rest\<rparr>)" "v \<in> set votes \<Longrightarrow> vote_height v = h"
proof -
  from assms have eq: "votes = entry_or_default (future_votes mg) h"
    "rest = filter (\<lambda>(k, _). h < k) (future_votes mg)"
    by (simp_all add: manager_ok_def get_current_height_votes_eq)
  from assms(1) show "manager_ok (mg\<lparr>future_votes := rest\<rparr>)"
    by (auto simp: manager_ok_def eq increasing_filter)
  show "v \<in> set votes \<Longrightarrow> vote_height v = h"
    using assms(1) entry_or_default_in[of v "future_votes mg" h] by (auto simp: eq manager_ok_def)
qed

lemma handle_cached_ok:
  assumes "\<And>s c m. shc_ok h vs s \<Longrightarrow> m \<in> set ms \<Longrightarrow> ok_result h vs (handle s c m)" "shc_ok h vs s"
  shows "ok_result h vs (handle_cached handle s c tasks ms)"
  using assms
proof (induction ms arbitrary: s c tasks)
  case (Cons m ms)
  have ok: "ok_result h vs (handle s c m)" using Cons.prems by simp
  show ?case
    unfolding handle_cached.simps
  proof (rule ok_result_rs_try, goal_cases)
    case (2 s' c' a)
    with ok Cons show ?case by (cases a) simp_all
  qed (use ok in simp)
qed simp

lemma start_height_ok:
  assumes "manager_ok mg" "shc_ok h vs s"
  shows "ok_manager_result h vs (start_height ctx mg c h s)"
  unfolding start_height_def
proof (rule ok_manager_result_rs_try[OF ok_manager_result_with_manager[OF assms(1) shc_start_ok[OF assms(2)]]],
    goal_cases)
  case (1 mg s c ret)
  show ?case
  proof (cases ret)
    case (Tasks tasks)
    obtain proposals rest where g: "get_current_height_proposals (cached_proposals mg) h = (proposals, rest)"
      by force
    have m: "manager_ok (mg\<lparr>cached_proposals := rest\<rparr>)" using 1 by (simp add: manager_ok_def)
    have "ok_manager_result h vs (with_manager (mg\<lparr>cached_proposals := rest\<rparr>)
        (handle_cached (\<lambda>s c (init, rx). shc_handle_proposal ctx s c init rx) s c tasks proposals))"
      by (rule ok_manager_result_with_manager[OF m handle_cached_ok])
        (use 1 in \<open>auto intro: shc_handle_proposal_ok\<close>)
    then show ?thesis
      unfolding Tasks g shc_return.case Let_def prod.case
    proof (rule ok_manager_result_rs_try, goal_cases)
      case (1 mg s c ret)
      obtain votes rest where v: "get_current_height_votes (future_votes mg) h = (votes, rest)" by force
      note c = manager_ok_cached[OF 1(1) v]
      show ?case
      proof (cases ret)
        case (Tasks tasks)
        with c 1(2) show ?thesis
          by (auto simp: v intro!: ok_manager_result_with_manager handle_cached_ok shc_handle_vote_ok)
      qed (use 1 in \<open>simp add: ok_manager_result_def\<close>)
    qed
  qed (use 1 in \<open>simp add: ok_manager_result_def\<close>)
qed

lemma manager_handle_proposal_ok:
  assumes "manager_ok mg" "shc_ok h vs s"
  shows "ok_manager_result h vs (manager_handle_proposal ctx mg c h s rx)"
proof -
  have "manager_ok (mg\<lparr>cached_proposals := x\<rparr>)" for x
    using assms(1) by (simp add: manager_ok_def)
  then show ?thesis
    using assms ok_manager_result_with_manager[OF assms(1) shc_handle_proposal_ok[OF assms(2)]]
    by (auto simp: manager_handle_proposal_def Let_def split: prod.splits sum.splits option.splits)
qed

lemma manager_ok_insert:
  assumes "manager_ok mg"
  shows "manager_ok (mg\<lparr>future_votes := btm_insert (vote_height v)
    (entry_or_default (future_votes mg) (vote_height v) @ [v]) (future_votes mg)\<rparr>)"
  using assms btm_insert_subset[of "vote_height v"
      "entry_or_default (future_votes mg) (vote_height v) @ [v]" "future_votes mg"]
    entry_or_default_in[of _ "future_votes mg" "vote_height v"]
  by (fastforce simp: manager_ok_def)

lemma manager_handle_vote_ok:
  assumes "manager_ok mg" "shc_ok h vs s"
  shows "ok_manager_result h vs (manager_handle_vote ctx mg c h s message)"
proof -
  have "vote_height v = h \<Longrightarrow> ok_manager_result h vs (with_manager mg (shc_handle_vote ctx s c v))" for v
    by (rule ok_manager_result_with_manager[OF assms(1) shc_handle_vote_ok[OF assms(2)]])
  then show ?thesis
    using assms manager_ok_insert[OF assms(1)]
    by (auto simp: manager_handle_vote_def split: sum.splits option.splits)
qed

definition ok_outcome ::
    "block_number \<Rightarrow> validator_id list \<Rightarrow> ('c, 'p) height_outcome \<Rightarrow> bool" where
  "ok_outcome h vs out \<longleftrightarrow>
     (case out of
        Running st \<Rightarrow> manager_ok (hs_manager st) \<and> shc_ok h vs (hs_shc st)
      | Returned mg c res \<Rightarrow>
          manager_ok mg \<and> (\<forall>d. res = Inr (RhDecision d) \<longrightarrow> decision_supported h vs d))"

lemma after_return_cases:
  assumes "after_return ts res = Some out"
  obtains mg s c e where "res = Some ((mg, s, c), Inl e)" "out = Returned mg c (Inl e)"
  | mg s c d where "res = Some ((mg, s, c), Inr (ShcDecision d))" "out = Returned mg c (Inr (RhDecision d))"
  | mg s c new where "res = Some ((mg, s, c), Inr (Tasks new))"
    "out = Running \<lparr>hs_manager = mg, hs_context = c, hs_shc = s, hs_events = ts @ new\<rparr>"
proof -
  from assms obtain mg s c ret where res: "res = Some ((mg, s, c), ret)"
    by (auto simp: after_return_def)
  with assms show thesis
    by (cases ret rule: sum.exhaust; cases "projr ret") (auto simp: after_return_def intro: that)
qed

lemma after_return_ok:
  assumes "ok_manager_result h vs res" "after_return ts res = Some out"
  shows "ok_outcome h vs out"
  using assms(2,1)
  by (cases rule: after_return_cases) (simp_all add: ok_outcome_def ok_manager_result_def ok_return_def)

lemma run_height_step_ok:
  assumes "ok_outcome h vs (Running st)" "run_height_step ctx h st input = Some out"
  shows "ok_outcome h vs out"
proof -
  from assms(1) have i: "manager_ok (hs_manager st)" "shc_ok h vs (hs_shc st)"
    by (simp_all add: ok_outcome_def)
  note after = after_return_ok[OF manager_handle_vote_ok[OF i]]
    after_return_ok[OF manager_handle_proposal_ok[OF i]]
    after_return_ok[OF ok_manager_result_with_manager[OF i(1) shc_handle_event_ok[OF i(2)]]]
  show ?thesis
    using assms(2) i
    by (auto simp: run_height_step_def Let_def ok_outcome_def[of h vs "Running _"]
        ok_outcome_def[of h vs "Returned _ _ (Inr (RhSync _))"]
        split: height_input.splits if_splits prod.splits bool.splits dest: after)
qed

lemma run_height_loop_ok:
  "run_height_loop ctx h out inputs = Some out' \<Longrightarrow> ok_outcome h vs out \<Longrightarrow> ok_outcome h vs out'"
  by (induction ctx h out inputs rule: run_height_loop.induct)
    (auto simp: bind_eq_Some_conv dest: run_height_step_ok)

lemma shc_new_ok:
  assumes "shc_new h obs i vs t = Some s" "distinct vs" "length vs < 2 ^ 31"
  shows "shc_ok h vs s"
proof -
  from assms(3) have "unat (word_of_nat (length vs) :: u32) = length vs"
    by (simp add: unat_of_nat)
  with assms quorum_bounds(1)[of "word_of_nat (length vs)" i obs] show ?thesis
    by (auto simp: shc_new_def shc_ok_def)
qed

lemma run_height_ok:
  assumes "run_height ctx mg c h obs inputs = Some out" "manager_ok mg"
    and "distinct (ctx_validators ctx c h)" "length (ctx_validators ctx c h) < 2 ^ 31"
  shows "ok_outcome h (ctx_validators ctx c h) out"
  using assms
  by (auto simp: run_height_def Let_def bind_eq_Some_conv
      dest!: shc_new_ok dest: after_return_ok[OF start_height_ok] intro: run_height_loop_ok)


lemma run_consensus_loop_decisions:
  assumes "run_consensus_loop ctx active mg c h heights = Some (ds, e)" "manager_ok mg"
    and "\<And>c h. ctx_validators ctx c h = vs h" "\<And>h. distinct (vs h)" "\<And>h. length (vs h) < 2 ^ 31"
  shows "list_all (\<lambda>(h, d). decision_supported h (vs h) d) ds"
  using assms(1,2)
proof (induction heights arbitrary: mg c h ds e)
  case (Cons inputs heights)
  from Cons.prems(1) obtain out where
    out: "run_height ctx mg c h (h < active) inputs = Some out" by (auto simp: bind_eq_Some_conv)
  have ok: "ok_outcome h (vs h) out"
    using run_height_ok[OF out Cons.prems(2)] assms(3-5) by simp
  show ?case
  proof (cases out)
    case (Returned mg' c' res)
    with ok have mg': "manager_ok mg'" by (simp add: ok_outcome_def)
    consider (err) x where "res = Inl x" | (dec) d where "res = Inr (RhDecision d)"
      | (sync) k where "res = Inr (RhSync k)"
      by (metis run_height_res.exhaust sum.exhaust)
    then show ?thesis
    proof cases
      case dec
      with ok Returned have "decision_supported h (vs h) d" by (simp add: ok_outcome_def)
      with Cons.prems(1) out Returned dec Cons.IH[OF _ mg'] show ?thesis
        by (cases "decision_reached ctx c' (dec_block d) (dec_precommits d)")
          (auto simp: bind_eq_Some_conv split: sum.splits)
    qed (use Cons.prems(1) out Returned Cons.IH[OF _ mg'] in auto)
  qed (use Cons.prems(1) out in auto)
qed simp


section \<open>Votes of later heights\<close>

abbreviation votes_at :: "'p manager \<Rightarrow> block_number \<Rightarrow> vote list" where
  "votes_at mg k \<equiv> fst (get_current_height_votes (future_votes mg) k)"

lemma votes_at_eq: "manager_ok mg \<Longrightarrow> votes_at mg k = entry_or_default (future_votes mg) k"
  by (simp add: manager_ok_def get_current_height_votes_eq)

lemma entry_or_default_btm_insert:
  "increasing fst m \<Longrightarrow> entry_or_default (btm_insert k v m) k' = (if k' = k then v else entry_or_default m k')"
  by (simp add: entry_or_default_def)

lemma entry_or_default_filter:
  "h < k \<Longrightarrow> entry_or_default (filter (\<lambda>(k, _). h < k) m) k = entry_or_default m k"
  by (induction m) (auto simp: entry_or_default_def)

lemma run_height_step_future_vote:
  assumes "manager_ok (hs_manager st)" "h < vote_height v"
  obtains mg where "run_height_step ctx h st (VoteMessage (Some (Inr v))) = Some (Running (st\<lparr>hs_manager := mg\<rparr>))"
    "manager_ok mg" "\<And>k. votes_at mg k = votes_at (hs_manager st) k @ (if vote_height v = k then [v] else [])"
proof
  let ?mg = "(hs_manager st)\<lparr>future_votes := btm_insert (vote_height v)
    (entry_or_default (future_votes (hs_manager st)) (vote_height v) @ [v]) (future_votes (hs_manager st))\<rparr>"
  show "run_height_step ctx h st (VoteMessage (Some (Inr v))) = Some (Running (st\<lparr>hs_manager := ?mg\<rparr>))"
    using assms(2) by (simp add: run_height_step_def Let_def manager_handle_vote_def after_return_def)
  show ok: "manager_ok ?mg"
    by (rule manager_ok_insert[OF assms(1)])
  show "votes_at ?mg k = votes_at (hs_manager st) k @ (if vote_height v = k then [v] else [])" for k
    using assms(1) unfolding votes_at_eq[OF ok] votes_at_eq[OF assms(1)]
    by (simp add: manager_ok_def entry_or_default_btm_insert)
qed

lemma run_height_loop_future_votes:
  assumes "manager_ok (hs_manager st)" "list_all (\<lambda>v. h < vote_height v) votes"
  shows "\<exists>mg. run_height_loop ctx h (Running st) (map (\<lambda>v. VoteMessage (Some (Inr v))) votes)
       = Some (Running (st\<lparr>hs_manager := mg\<rparr>)) \<and> manager_ok mg \<and>
     (\<forall>k. votes_at mg k = votes_at (hs_manager st) k @ filter (\<lambda>v. vote_height v = k) votes)"
  using assms
proof (induction votes arbitrary: st)
  case Nil
  then show ?case by (intro exI[of _ "hs_manager st"]) simp
next
  case (Cons v votes)
  then obtain mg where mg: "run_height_step ctx h st (VoteMessage (Some (Inr v))) = Some (Running (st\<lparr>hs_manager := mg\<rparr>))"
    "manager_ok mg" "\<And>k. votes_at mg k = votes_at (hs_manager st) k @ (if vote_height v = k then [v] else [])"
    using run_height_step_future_vote[of st h v ctx] by auto
  with Cons.IH[of "st\<lparr>hs_manager := mg\<rparr>"] Cons.prems(2) show ?case by auto
qed

section \<open>Recorded votes stay recorded\<close>

definition recorded_vote :: "shc \<Rightarrow> vote_type \<Rightarrow> round \<times> validator_id \<Rightarrow> vote option" where
  "recorded_vote s t key = (case t of VotePrevote \<Rightarrow> shc_prevotes s key | VotePrecommit \<Rightarrow> shc_precommits s key)"

lemma recorded_vote_frame [simp]:
  "recorded_vote (s\<lparr>shc_state_machine := m\<rparr>) t key = recorded_vote s t key"
  "recorded_vote (s\<lparr>shc_proposals := p\<rparr>) t key = recorded_vote s t key"
  by (simp_all add: recorded_vote_def split: vote_type.split)

lemma handle_state_machine_vote_keeps:
  assumes "handle_state_machine_vote ctx s c pid r vt = Some ((s', c'), Inr ts)"
    and "recorded_vote s t key = Some v"
  shows "recorded_vote s' t key = Some v"
  using assms
  by (cases vt; cases t)
    (auto simp: handle_state_machine_vote_def record_own_vote_def recorded_vote_def Let_def
      split: option.splits sum.splits prod.splits if_splits)

lemma handle_state_machine_events_loop_keeps:
  assumes "handle_state_machine_events_loop ctx s c ret_val events = Some ((s', c'), Inr ret)"
    and "recorded_vote s t key = Some v"
  shows "recorded_vote s' t key = Some v"
  using assms
proof (induction events arbitrary: s c ret_val)
  case (Cons e es)
  show ?case
  proof (cases e)
    case (Proposal pid r vr)
    with Cons.prems(1) obtain s1 c1 where h: "handle_state_machine_proposal ctx s c pid r vr = Some (s1, c1)"
      "handle_state_machine_events_loop ctx s1 c1 ret_val es = Some ((s', c'), Inr ret)"
      by (auto simp: bind_eq_Some_conv)
    from handle_state_machine_proposal_frame[OF h(1)] Cons.prems(2) have "recorded_vote s1 t key = Some v"
      by auto
    with Cons.IH[OF h(2)] show ?thesis by simp
  next
    case (Decision pid r)
    with Cons.prems show ?thesis
      by (auto simp: handle_state_machine_decision_def Let_def split: option.splits if_splits)
  qed (use Cons in \<open>auto simp: bind_eq_Some_conv rs_try_Inr_iff dest: handle_state_machine_vote_keeps\<close>)
qed (auto simp: recorded_vote_def)

lemma feed_state_machine_keeps:
  assumes "feed_state_machine ctx s c e = Some ((s', c'), Inr ret)" "recorded_vote s t key = Some v"
  shows "recorded_vote s' t key = Some v"
proof -
  from assms(1) obtain m events where
    "handle_state_machine_events_loop ctx (s\<lparr>shc_state_machine := m\<rparr>) c [] events = Some ((s', c'), Inr ret)"
    by (auto simp: feed_state_machine_def handle_state_machine_events_def bind_eq_Some_conv)
  from handle_state_machine_events_loop_keeps[OF this] assms(2) show ?thesis by simp
qed

lemma shc_handle_vote_records:
  assumes "shc_handle_vote ctx s c v = Some ((s', c'), Inr ret)" "vote_voter v \<in> set (shc_validators s)"
  shows "\<exists>old. recorded_vote s' (vote_type v) (vote_round v, vote_voter v) = Some old \<and>
    vote_block_hash old = vote_block_hash v"
proof (cases "recorded_vote s (vote_type v) (vote_round v, vote_voter v)")
  case (Some old)
  with assms show ?thesis
    by (auto simp: shc_handle_vote_def recorded_vote_def Let_def split: vote_type.splits if_splits)
next
  case None
  with assms obtain s1 sm_vote where
    "update_context ctx (feed_state_machine ctx s1 c sm_vote) = Some ((s', c'), Inr ret)"
    "recorded_vote s1 (vote_type v) (vote_round v, vote_voter v) = Some v"
    by (auto simp: shc_handle_vote_def recorded_vote_def Let_def split: vote_type.splits if_splits)
  then show ?thesis
    by (auto simp: update_context_def dest: feed_state_machine_keeps)
qed

lemma shc_handle_vote_equivocation:
  assumes "recorded_vote s (vote_type v) (vote_round v, vote_voter v) = Some old"
    and "vote_block_hash old \<noteq> vote_block_hash v" "vote_voter v \<in> set (shc_validators s)"
  shows "shc_handle_vote ctx s c v = Some ((s, c), Inl (Equivocation (shc_height s) old v))"
  using assms by (auto simp: shc_handle_vote_def recorded_vote_def Let_def split: vote_type.splits)

lemma shc_handle_vote_keeps:
  assumes "shc_handle_vote ctx s c a = Some ((s', c'), Inr ret)" "recorded_vote s t key = Some v"
  shows "recorded_vote s' t key = Some v"
proof (cases "recorded_vote s (vote_type a) (vote_round a, vote_voter a)")
  case (Some old)
  with assms show ?thesis
    by (auto simp: shc_handle_vote_def recorded_vote_def Let_def split: vote_type.splits if_splits)
next
  case None
  let ?s1 = "case vote_type a of
      VotePrevote \<Rightarrow> s\<lparr>shc_prevotes := (shc_prevotes s)((vote_round a, vote_voter a) \<mapsto> a)\<rparr>
    | VotePrecommit \<Rightarrow> s\<lparr>shc_precommits := (shc_precommits s)((vote_round a, vote_voter a) \<mapsto> a)\<rparr>"
  have "recorded_vote ?s1 t key = Some v"
    using assms(2) None by (cases t) (auto simp: recorded_vote_def split: vote_type.splits)
  moreover have "s' = s \<or> (\<exists>e. update_context ctx (feed_state_machine ctx ?s1 c e) = Some ((s', c'), Inr ret))"
    using assms(1) None by (auto simp: shc_handle_vote_def recorded_vote_def Let_def split: vote_type.splits if_splits)
  ultimately show ?thesis using assms(2) by (auto simp: update_context_def dest: feed_state_machine_keeps)
qed

lemma shc_handle_proposal_keeps:
  "shc_handle_proposal ctx s c init rx = Some ((s', c'), Inr ret) \<Longrightarrow> recorded_vote s' t key = recorded_vote s t key"
  by (auto simp: shc_handle_proposal_def update_context_def Let_def split: if_splits option.splits prod.splits)

lemma shc_handle_event_keeps:
  "shc_handle_event ctx s c e = Some ((s', c'), Inr ret) \<Longrightarrow> recorded_vote s t key = Some v \<Longrightarrow> recorded_vote s' t key = Some v"
  by (auto simp: shc_handle_event_def update_context_def rebroadcast_def bind_eq_Some_conv
      split: shc_event.splits state_machine_event.splits if_splits option.splits prod.splits sum.splits
      dest: feed_state_machine_keeps)

lemma run_height_step_keeps:
  assumes "run_height_step ctx h st input = Some (Running st')" "recorded_vote (hs_shc st) t key = Some v"
  shows "recorded_vote (hs_shc st') t key = Some v"
proof (cases input)
  case (VoteMessage m)
  with assms show ?thesis
    by (auto simp: run_height_step_def Let_def manager_handle_vote_def with_manager_def
        elim!: after_return_cases split: option.splits sum.splits if_splits dest: shc_handle_vote_keeps)
next
  case (ProposalStream rx)
  with assms show ?thesis
    by (auto simp: run_height_step_def Let_def manager_handle_proposal_def with_manager_def
        elim!: after_return_cases split: option.splits sum.splits if_splits prod.splits dest: shc_handle_proposal_keeps[where t = t and key = key])
next
  case (TaskDone i built validated)
  with assms show ?thesis
    by (auto simp: run_height_step_def Let_def with_manager_def
        elim!: after_return_cases split: if_splits dest: shc_handle_event_keeps)
next
  case SyncTimer
  with assms show ?thesis by (auto simp: run_height_step_def Let_def split: prod.splits bool.splits)
qed

lemma run_height_step_vote_running:
  assumes "run_height_step ctx h st (VoteMessage (Some (Inr v))) = Some (Running st')" "vote_height v = h"
  obtains ret where "shc_handle_vote ctx (hs_shc st) (hs_context st) v = Some ((hs_shc st', hs_context st'), Inr ret)"
  using assms
  by (auto simp: run_height_step_def Let_def manager_handle_vote_def with_manager_def
      elim!: after_return_cases)

text \<open>A vote that counts, whether it was handled or repeats a vote that was, is on record.\<close>

definition on_record :: "shc \<Rightarrow> vote \<Rightarrow> bool" where
  "on_record s a \<longleftrightarrow> (\<exists>old. recorded_vote s (vote_type a) (vote_round a, vote_voter a) = Some old \<and>
     vote_block_hash old = vote_block_hash a)"

lemma run_height_loop_running:
  assumes "run_height_loop ctx h out (input # inputs) = Some (Running st')"
  obtains st st1 where "out = Running st" "run_height_step ctx h st input = Some (Running st1)"
    "run_height_loop ctx h (Running st1) inputs = Some (Running st')"
proof (cases out)
  case (Running st)
  with assms obtain out1 where out1: "run_height_step ctx h st input = Some out1"
    "run_height_loop ctx h out1 inputs = Some (Running st')" by (auto simp: bind_eq_Some_conv)
  with Running that show thesis by (cases out1) auto
qed (use assms in simp)

lemma run_height_loop_keeps:
  "run_height_loop ctx h (Running st) inputs = Some (Running st') \<Longrightarrow> on_record (hs_shc st) a \<Longrightarrow> on_record (hs_shc st') a"
proof (induction inputs arbitrary: st)
  case (Cons input inputs)
  from Cons.prems(1) obtain st1 where st1: "run_height_step ctx h st input = Some (Running st1)"
    "run_height_loop ctx h (Running st1) inputs = Some (Running st')"
    by (rule run_height_loop_running) auto
  from Cons.prems(2) run_height_step_keeps[OF st1(1)] have "on_record (hs_shc st1) a"
    unfolding on_record_def by blast
  with Cons.IH[OF st1(2)] show ?case .
qed simp

lemma run_height_loop_records:
  assumes "run_height_loop ctx h (Running st) inputs = Some (Running st')" "ok_outcome h vs (Running st)"
    and "VoteMessage (Some (Inr a)) \<in> set inputs" "vote_height a = h" "vote_voter a \<in> set vs"
  shows "on_record (hs_shc st') a"
  using assms(1-3)
proof (induction inputs arbitrary: st)
  case (Cons input inputs)
  from Cons.prems(1) obtain st1 where st1: "run_height_step ctx h st input = Some (Running st1)"
    "run_height_loop ctx h (Running st1) inputs = Some (Running st')"
    by (rule run_height_loop_running) auto
  show ?case
  proof (cases "input = VoteMessage (Some (Inr a))")
    case True
    with st1(1) obtain ret where
      "shc_handle_vote ctx (hs_shc st) (hs_context st) a = Some ((hs_shc st1, hs_context st1), Inr ret)"
      by (auto elim: run_height_step_vote_running[OF _ assms(4)])
    from shc_handle_vote_records[OF this] Cons.prems(2) assms(5) have "on_record (hs_shc st1) a"
      by (simp add: on_record_def ok_outcome_def shc_ok_def)
    with run_height_loop_keeps[OF st1(2)] show ?thesis by simp
  next
    case False
    with Cons.prems(3) Cons.IH[OF st1(2) run_height_step_ok[OF Cons.prems(2) st1(1)]] show ?thesis by simp
  qed
qed simp

text \<open>The votes that were kept for a height are handled when it starts.\<close>

lemma handle_cached_ConsE:
  assumes "handle_cached f s c ts (m # ms) = Some ((s', c'), Inr (Tasks ts'))"
  obtains s1 c1 new where "f s c m = Some ((s1, c1), Inr (Tasks new))"
    "handle_cached f s1 c1 (ts @ new) ms = Some ((s', c'), Inr (Tasks ts'))"
proof -
  from assms obtain s1 c1 ret where r: "f s c m = Some ((s1, c1), Inr ret)"
    "(case ret of ShcDecision d \<Rightarrow> Some ((s1, c1), Inr (ShcDecision d))
      | Tasks new \<Rightarrow> handle_cached f s1 c1 (ts @ new) ms) = Some ((s', c'), Inr (Tasks ts'))"
    by (auto simp: rs_try_Inr_iff)
  then show thesis by (cases ret) (auto intro: that)
qed

lemma handle_cached_votes:
  assumes "handle_cached (shc_handle_vote ctx) s c ts votes = Some ((s', c'), Inr (Tasks ts'))"
    and "shc_validators s = vs" "vote_voter a \<in> set vs" "list_all (\<lambda>v. vote_height v = h) votes" "shc_ok h vs s"
  shows "(on_record s a \<or> a \<in> set votes) \<longrightarrow> on_record s' a"
  using assms
proof (induction votes arbitrary: s c ts)
  case (Cons v votes)
  from Cons.prems(1) obtain s1 c1 new where
    v: "shc_handle_vote ctx s c v = Some ((s1, c1), Inr (Tasks new))" and
    rest: "handle_cached (shc_handle_vote ctx) s1 c1 (ts @ new) votes = Some ((s', c'), Inr (Tasks ts'))"
    by (rule handle_cached_ConsE)
  have ok: "shc_ok h vs s1" using shc_handle_vote_ok[of h vs s v ctx c] Cons.prems(4,5) v by simp
  have "on_record s1 a" if "on_record s a" using that shc_handle_vote_keeps[OF v] by (auto simp: on_record_def)
  moreover have "on_record s1 a" if "v = a"
    using shc_handle_vote_records[OF v] that Cons.prems(2,3) by (simp add: on_record_def)
  ultimately show ?case
    using Cons.IH[OF rest _ Cons.prems(3) _ ok] Cons.prems(4) ok by (auto simp: shc_ok_def)
qed simp

lemma not_decision: "(\<forall>d. r \<noteq> ShcDecision d) \<longleftrightarrow> (\<exists>ts. r = Tasks ts)"
  by (cases r) auto

lemma start_height_votes:
  assumes "start_height ctx mg c h s = Some ((mg', s', c'), Inr (Tasks ts))" "manager_ok mg" "shc_ok h vs s"
    and "a \<in> set (votes_at mg h)" "vote_voter a \<in> set vs"
  shows "on_record s' a"
proof -
  obtain proposals rest where p: "get_current_height_proposals (cached_proposals mg) h = (proposals, rest)" by force
  obtain votes rest' where v: "get_current_height_votes (future_votes mg) h = (votes, rest')" by force
  from assms(1) obtain s1 c1 ts1 s2 c2 ts2 where
    s1: "shc_start ctx s c = Some ((s1, c1), Inr (Tasks ts1))" and
    s2: "handle_cached (\<lambda>s c (init, rx). shc_handle_proposal ctx s c init rx) s1 c1 ts1 proposals =
      Some ((s2, c2), Inr (Tasks ts2))" and
    s': "handle_cached (shc_handle_vote ctx) s2 c2 ts2 votes = Some ((s', c'), Inr (Tasks ts))"
    by (auto simp: start_height_def with_manager_def rs_try_Inr_iff p v Let_def not_decision split: shc_return.splits)
  have "shc_ok h vs s1" using shc_start_ok[OF assms(3), of ctx c] s1 by simp
  moreover have "ok_result h vs (handle_cached (\<lambda>s c (init, rx). shc_handle_proposal ctx s c init rx) s1 c1 ts1 proposals)"
    using calculation by (rule handle_cached_ok[rotated]) (auto intro: shc_handle_proposal_ok)
  ultimately have s2_ok: "shc_ok h vs s2" using s2 by simp
  have "list_all (\<lambda>v. vote_height v = h) votes"
    using manager_ok_cached(2)[OF assms(2) v] by (simp add: list_all_iff)
  with handle_cached_votes[OF s' _ assms(5) _ s2_ok] s2_ok assms(4) v show ?thesis by (simp add: shc_ok_def)
qed

text \<open>The votes of a height that a node has when it has run with some inputs: those that it had kept and
  those that arrived.\<close>

definition votes_of_height :: "'p manager \<Rightarrow> block_number \<Rightarrow> 'p height_input list \<Rightarrow> vote set" where
  "votes_of_height mg h inputs =
     set (votes_at mg h) \<union> {v. VoteMessage (Some (Inr v)) \<in> set inputs \<and> vote_height v = h}"

lemma run_height_records:
  assumes "run_height ctx mg c h obs inputs = Some (Running st)" "manager_ok mg"
    and vs: "distinct (ctx_validators ctx c h)" "length (ctx_validators ctx c h) < 2 ^ 31"
    and "a \<in> votes_of_height mg h inputs" "vote_voter a \<in> set (ctx_validators ctx c h)"
  shows "on_record (hs_shc st) a"
proof -
  let ?vs = "ctx_validators ctx c h"
  from assms(1) obtain s out where
    s: "shc_new h (obs \<or> mg_validator_id mg \<notin> set ?vs) (mg_validator_id mg) ?vs (mg_timeouts mg) = Some s" and
    out: "after_return [] (start_height ctx mg c h s) = Some out" and loop: "run_height_loop ctx h out inputs = Some (Running st)"
    by (auto simp: run_height_def Let_def bind_eq_Some_conv)
  have ok: "shc_ok h ?vs s" by (rule shc_new_ok[OF s vs])
  note out_ok = after_return_ok[OF start_height_ok[OF assms(2) ok] out]
  obtain st0 where st0: "out = Running st0" using loop by (cases out) auto
  show ?thesis
  proof (cases "a \<in> set (votes_at mg h)")
    case True
    from out st0 obtain mg' c' ts where "start_height ctx mg c h s = Some ((mg', hs_shc st0, c'), Inr (Tasks ts))"
      by (auto elim!: after_return_cases)
    from start_height_votes[OF this assms(2) ok True assms(6)] loop st0 show ?thesis
      by (auto intro: run_height_loop_keeps)
  next
    case False
    with assms(5) have "VoteMessage (Some (Inr a)) \<in> set inputs" "vote_height a = h"
      by (auto simp: votes_of_height_def)
    with run_height_loop_records[of ctx h st0 inputs st ?vs a] loop out_ok st0 assms(6) show ?thesis by simp
  qed
qed

lemma run_height_loop_append:
  "run_height_loop ctx h out (xs @ ys) = Option.bind (run_height_loop ctx h out xs) (\<lambda>o1. run_height_loop ctx h o1 ys)"
  by (induction ctx h out xs rule: run_height_loop.induct) (auto split: bind_splits)

lemma run_height_continues:
  "run_height ctx mg c h obs xs = Some out \<Longrightarrow> run_height ctx mg c h obs (xs @ ys) = run_height_loop ctx h out ys"
  by (auto simp: run_height_def Let_def run_height_loop_append bind_eq_Some_conv)

lemma run_height_equivocation:
  assumes "run_height ctx mg c h obs inputs = Some (Running st)" "manager_ok mg"
    and vs: "distinct (ctx_validators ctx c h)" "length (ctx_validators ctx c h) < 2 ^ 31"
    and "a \<in> votes_of_height mg h inputs" "vote_height a = h" "vote_voter a \<in> set (ctx_validators ctx c h)" "x \<noteq> vote_block_hash a"
  shows "\<exists>old. vote_block_hash old = vote_block_hash a \<and>
    recorded_vote (hs_shc st) (vote_type a) (vote_round a, vote_voter a) = Some old \<and>
    run_height ctx mg c h obs (inputs @ VoteMessage (Some (Inr (a\<lparr>vote_block_hash := x\<rparr>))) # rest) =
      Some (Returned (hs_manager st) (hs_context st) (Inl (Equivocation h old (a\<lparr>vote_block_hash := x\<rparr>))))"
proof -
  let ?b = "a\<lparr>vote_block_hash := x\<rparr>"
  from run_height_records[OF assms(1-5,7)] obtain old where
    old: "recorded_vote (hs_shc st) (vote_type a) (vote_round a, vote_voter a) = Some old"
      "vote_block_hash old = vote_block_hash a" by (auto simp: on_record_def)
  from run_height_ok[OF assms(1,2) vs] have st: "shc_height (hs_shc st) = h" "shc_validators (hs_shc st) = ctx_validators ctx c h"
    by (simp_all add: ok_outcome_def shc_ok_def)
  have "shc_handle_vote ctx (hs_shc st) (hs_context st) ?b =
      Some ((hs_shc st, hs_context st), Inl (Equivocation (shc_height (hs_shc st)) old ?b))"
    by (rule shc_handle_vote_equivocation) (use old assms(7,8) st in auto)
  with run_height_continues[OF assms(1)] assms(6) st(1) old show ?thesis
    by (auto simp: run_height_step_def Let_def manager_handle_vote_def with_manager_def after_return_def)
qed

text \<open>How consensus gets to a height: the decisions made so far, the manager, the context and the height
  after heights that have ended with a decision or by catching up.\<close>

fun reach_height ::
    "('c, 'p) consensus_context \<Rightarrow> block_number \<Rightarrow> 'p manager \<Rightarrow> 'c \<Rightarrow> block_number \<Rightarrow> 'p height_input list list
      \<Rightarrow> ((block_number \<times> decision) list \<times> 'p manager \<times> 'c \<times> block_number) option" where
  "reach_height ctx active mg c h [] = Some ([], mg, c, h)"
| "reach_height ctx active mg c h (inputs # heights) =
     (case run_height ctx mg c h (h < active) inputs of
        Some (Returned mg' c' (Inr (RhDecision d))) \<Rightarrow>
          (case decision_reached ctx c' (dec_block d) (dec_precommits d) of
             (Inl e, c'') \<Rightarrow> None
           | (Inr _, c'') \<Rightarrow> do {
               (ds, r) \<leftarrow> reach_height ctx active mg' c'' (h + 1) heights;
               Some ((h, d) # ds, r) })
      | Some (Returned mg' c' (Inr (RhSync k))) \<Rightarrow> reach_height ctx active mg' c' (k + 1) heights
      | _ \<Rightarrow> None)"

lemma reach_height_loop:
  assumes "reach_height ctx active mg c h heights = Some (ds, mg1, c1, h1)" "manager_ok mg"
    and vs: "\<And>c h. distinct (ctx_validators ctx c h)" "\<And>c h. length (ctx_validators ctx c h) < 2 ^ 31"
  shows "manager_ok mg1 \<and> (run_consensus_loop ctx active mg1 c1 h1 later = Some (ds1, e) \<longrightarrow>
    run_consensus_loop ctx active mg c h (heights @ later) = Some (ds @ ds1, e))"
  using assms(1,2)
proof (induction heights arbitrary: mg c h ds)
  case (Cons inputs heights)
  from Cons.prems(1) obtain mg' c' r where out: "run_height ctx mg c h (h < active) inputs = Some (Returned mg' c' (Inr r))"
    by (auto split: option.splits height_outcome.splits sum.splits)
  have ok: "manager_ok mg'" using run_height_ok[OF out Cons.prems(2) vs] by (simp add: ok_outcome_def)
  show ?case
  proof (cases r)
    case (RhDecision d)
    with Cons.prems(1) out obtain u c'' ds' where
      "decision_reached ctx c' (dec_block d) (dec_precommits d) = (Inr u, c'')"
      "reach_height ctx active mg' c'' (h + 1) heights = Some (ds', mg1, c1, h1)" "ds = (h, d) # ds'"
      by (auto simp: bind_eq_Some_conv split: prod.splits sum.splits)
    with Cons.IH[of mg' c'' "h + 1" ds'] ok out RhDecision show ?thesis by auto
  next
    case (RhSync k)
    with Cons.prems(1) out Cons.IH[of mg' c' "k + 1" ds] ok show ?thesis by auto
  qed
qed simp

section \<open>The properties\<close>

text \<open>C35: Whatever arrives from the network and in whatever order, every decision that consensus hands to
  the node is supported: its precommits are for its block, of its height and of one round, cast by
  distinct validators of that height, and they are more than two thirds of the validators. (The
  validators of a height are a set that does not change, of fewer than \<open>2 ^ 31\<close> members.)\<close>

theorem reached_decisions_are_supported:
  assumes "run_consensus ctx c active observe i timeouts heights = Some (ds, e)"
    and "\<And>c h. ctx_validators ctx c h = vs h" "\<And>h. distinct (vs h)" "\<And>h. length (vs h) < 2 ^ 31"
  shows "list_all (\<lambda>(h, d). decision_supported h (vs h) d) ds"
  using assms run_consensus_loop_decisions[of ctx active "manager_new i timeouts" c observe heights ds e vs]
  by (simp add: run_consensus_def manager_new_def manager_ok_def)

text \<open>Three validators besides node 1, the first of which proposes; the context counts its calls.\<close>

definition sample_context :: "(nat, proposal_init) consensus_context" where
  "sample_context = \<lparr>part_into_init = Inr,
     build_proposal = (\<lambda>c init d. (c, c + 1)),
     validate_proposal = (\<lambda>c init d rx. (c, c + 1)),
     repropose = (\<lambda>c i init. c + 1),
     ctx_validators = (\<lambda>c h. [0, 1, 2, 3]),
     proposer = (\<lambda>c h r. 0),
     broadcast = (\<lambda>c v. (Inr (), c + 1)),
     decision_reached = (\<lambda>c b p. (Inr (), c + 1)),
     try_sync = (\<lambda>c h. (False, c)),
     set_height_and_round = (\<lambda>c h r. c)\<rparr>"

definition sample_timeouts :: timeouts_config where
  "sample_timeouts = \<lparr>proposal_timeout = 3, prevote_timeout = 1, precommit_timeout = 1\<rparr>"

definition sample_vote :: "vote_type \<Rightarrow> u64 \<Rightarrow> proposal_content_id option \<Rightarrow> validator_id \<Rightarrow> vote" where
  "sample_vote t h b x =
     \<lparr>vote_type = t, vote_height = h, vote_round = 0, vote_block_hash = b, vote_voter = x\<rparr>"

definition sample_init :: "u64 \<Rightarrow> proposal_init" where
  "sample_init h = \<lparr>init_height = h, init_round = 0, init_valid_round = None, init_proposer = 0\<rparr>"

text \<open>The proposal of height 5 arrives and is validated (task 1, after the timeout of the round), two
  validators prevote and precommit; one of them already precommits for height 6.\<close>

definition sample_height :: "proposal_init height_input list" where
  "sample_height = [
     ProposalStream \<lparr>mpsc_queue = [sample_init 5], mpsc_closed = False\<rparr>,
     VoteMessage (Some (Inr (sample_vote VotePrecommit 6 (Some 8) 2))),
     TaskDone 1 None (Some (7, \<lparr>fin_proposal_content_id = 7\<rparr>)),
     VoteMessage (Some (Inr (sample_vote VotePrevote 5 (Some 7) 0))),
     VoteMessage (Some (Inr (sample_vote VotePrevote 5 (Some 7) 2))),
     VoteMessage (Some (Inr (sample_vote VotePrecommit 5 (Some 7) 0))),
     VoteMessage (Some (Inr (sample_vote VotePrecommit 5 (Some 7) 2)))]"

definition sample_decision :: decision where
  "sample_decision = \<lparr>dec_precommits = map (sample_vote VotePrecommit 5 (Some 7)) [0, 1, 2], dec_block = 7\<rparr>"

lemma sample_consensus:
  "run_consensus sample_context 0 5 5 1 sample_timeouts [sample_height] = Some ([(5, sample_decision)], None)"
  by code_simp

theorem reached_decisions_are_supported_witness:
  "run_consensus sample_context 0 5 5 1 sample_timeouts [sample_height] = Some ([(5, sample_decision)], None) \<and>
   decision_supported 5 [0, 1, 2, 3] sample_decision"
  using reached_decisions_are_supported[OF sample_consensus, of "\<lambda>_. [0, 1, 2, 3]"] sample_consensus
  by (simp add: sample_context_def)


text \<open>A height of validator \<open>i\<close> of four, with its pending tasks.\<close>

definition sample_height_state ::
    "validator_id \<Rightarrow> shc_task list \<Rightarrow> (nat, proposal_init) height_state" where
  "sample_height_state i tasks = \<lparr>hs_manager = manager_new i sample_timeouts, hs_context = 0,
     hs_shc = \<lparr>shc_height = 5, shc_validators = [0, 1, 2, 3], shc_id = i, shc_timeouts = sample_timeouts,
       shc_state_machine = fst (sm_start (sm_new i 4 False) (\<lambda>_. 0)),
       shc_proposals = Map.empty, shc_prevotes = Map.empty, shc_precommits = Map.empty,
       last_prevote = None, last_precommit = None\<rparr>,
     hs_events = tasks\<rparr>"

lemma sample_height_state_ok:
  "ok_outcome 5 [0, 1, 2, 3] (Running (sample_height_state i tasks))"
proof -
  have "sm_quorum (fst (sm_start (sm_new i 4 False) (\<lambda>_. 0))) = 3"
    using sm_start_quorum[of "sm_new i 4 False" "\<lambda>_. 0"]
    by (cases "sm_start (sm_new i 4 False) (\<lambda>_. 0)") (simp add: sm_new_def)
  then show ?thesis
    by (simp add: ok_outcome_def sample_height_state_def manager_new_def manager_ok_def shc_ok_def)
qed

text \<open>Votes of later heights that arrive during a height are kept: when one of these heights is
  started, exactly its votes are handled, in the order in which they arrived and after those kept
  before, and the votes of still later heights remain.\<close>

theorem future_votes_are_delivered_in_order:
  assumes "manager_ok (hs_manager st)" "list_all (\<lambda>v. h < vote_height v) votes"
  shows "\<exists>mg. run_height_loop ctx h (Running st) (map (\<lambda>v. VoteMessage (Some (Inr v))) votes)
       = Some (Running (st\<lparr>hs_manager := mg\<rparr>)) \<and>
     (\<forall>k. fst (get_current_height_votes (future_votes mg) k) =
        fst (get_current_height_votes (future_votes (hs_manager st)) k) @
          filter (\<lambda>v. vote_height v = k) votes) \<and>
     (\<forall>k k'. k < k' \<longrightarrow>
        fst (get_current_height_votes (snd (get_current_height_votes (future_votes mg) k)) k') =
        fst (get_current_height_votes (future_votes mg) k'))"
proof -
  from run_height_loop_future_votes[OF assms] obtain mg where
    mg: "run_height_loop ctx h (Running st) (map (\<lambda>v. VoteMessage (Some (Inr v))) votes)
       = Some (Running (st\<lparr>hs_manager := mg\<rparr>))" "manager_ok mg"
     "\<forall>k. votes_at mg k = votes_at (hs_manager st) k @ filter (\<lambda>v. vote_height v = k) votes"
    by blast
  from mg(2) have "increasing fst (future_votes mg)" by (simp add: manager_ok_def)
  then have "k < k' \<Longrightarrow> fst (get_current_height_votes (snd (get_current_height_votes (future_votes mg) k)) k') =
      votes_at mg k'" for k k'
    by (simp add: get_current_height_votes_eq increasing_filter entry_or_default_filter)
  with mg show ?thesis by (intro exI[of _ mg]) blast
qed

theorem future_votes_are_delivered_in_order_witness:
  "\<exists>mg. run_height_loop sample_context 5 (Running (sample_height_state 1 []))
       (map (\<lambda>v. VoteMessage (Some (Inr v)))
         [sample_vote VotePrecommit 7 None 2, sample_vote VotePrevote 6 None 3, sample_vote VotePrevote 7 None 0])
     = Some (Running (sample_height_state 1 []\<lparr>hs_manager := mg\<rparr>)) \<and>
     fst (get_current_height_votes (future_votes mg) 7) =
       [sample_vote VotePrecommit 7 None 2, sample_vote VotePrevote 7 None 0]"
  using future_votes_are_delivered_in_order[of "sample_height_state 1 []" 5
      "[sample_vote VotePrecommit 7 None 2, sample_vote VotePrevote 6 None 3, sample_vote VotePrevote 7 None 0]"
      sample_context]
    sample_height_state_ok[of 1 "[]"]
  by (auto simp: sample_vote_def ok_outcome_def)
    (auto simp: sample_height_state_def manager_new_def)

text \<open>C36: One validator that votes twice in a round stops the whole node. Consensus has gone through the
  heights \<open>ended\<close> with the decisions \<open>ds\<close> and runs the height \<open>h\<close>, in which it has a vote \<open>a\<close> of a
  validator, received in the course of the height or kept from before. If at that point, however much has
  happened since \<open>a\<close>, a vote of the same kind, round and validator for another block arrives, then \<^verbatim>\<open>run_consensus\<close>
  returns the error \<^verbatim>\<open>Equivocation\<close> with the two votes, without a further decision and whatever would arrive
  afterwards.\<close>

theorem equivocation_ends_consensus:
  assumes "\<And>c h. distinct (ctx_validators ctx c h)" "\<And>c h. length (ctx_validators ctx c h) < 2 ^ 31" "observe \<le> active"
    and "reach_height ctx active (manager_new i timeouts) c observe ended = Some (ds, mg, c1, h)"
    and "run_height ctx mg c1 h (h < active) inputs = Some (Running st)"
    and "a \<in> votes_of_height mg h inputs" "vote_height a = h" "vote_voter a \<in> set (ctx_validators ctx c1 h)"
    and "x \<noteq> vote_block_hash a"
  shows "\<exists>old. vote_block_hash old = vote_block_hash a \<and>
    run_consensus ctx c active observe i timeouts
      (ended @ (inputs @ VoteMessage (Some (Inr (a\<lparr>vote_block_hash := x\<rparr>))) # rest) # later) =
    Some (ds, Some (Equivocation h old (a\<lparr>vote_block_hash := x\<rparr>)))"
proof -
  have new: "manager_ok (manager_new i timeouts)" by (simp add: manager_new_def manager_ok_def)
  note reach = reach_height_loop[OF assms(4) new assms(1,2)]
  then have "manager_ok mg" by blast
  from run_height_equivocation[OF assms(5) this assms(1,2,6-9), of rest] obtain old where
    old: "vote_block_hash old = vote_block_hash a"
    "run_height ctx mg c1 h (h < active) (inputs @ VoteMessage (Some (Inr (a\<lparr>vote_block_hash := x\<rparr>))) # rest) =
      Some (Returned (hs_manager st) (hs_context st) (Inl (Equivocation h old (a\<lparr>vote_block_hash := x\<rparr>))))" by blast
  then have "run_consensus_loop ctx active mg c1 h
      ((inputs @ VoteMessage (Some (Inr (a\<lparr>vote_block_hash := x\<rparr>))) # rest) # later) =
    Some ([], Some (Equivocation h old (a\<lparr>vote_block_hash := x\<rparr>)))" by simp
  with reach old(1) assms(3) show ?thesis by (auto simp: run_consensus_def rs_assert_def)
qed

text \<open>Height 5 is decided; in height 6 a prevote arrives, then the proposal, and then the second prevote. Validator 2
  had already precommitted for height 6 during height 5.\<close>

definition sample_next_height :: "proposal_init height_input list" where
  "sample_next_height = [
     VoteMessage (Some (Inr (sample_vote VotePrevote 6 (Some 8) 3))),
     ProposalStream \<lparr>mpsc_queue = [sample_init 6], mpsc_closed = False\<rparr>]"

theorem equivocation_ends_consensus_witness:
  "(\<exists>old. vote_block_hash old = Some 8 \<and> run_consensus sample_context 0 5 5 1 sample_timeouts
       [sample_height, sample_next_height @ [VoteMessage (Some (Inr (sample_vote VotePrevote 6 None 3))), SyncTimer], sample_height] =
     Some ([(5, sample_decision)], Some (Equivocation 6 old (sample_vote VotePrevote 6 None 3)))) \<and>
   (\<exists>old. vote_block_hash old = Some 8 \<and> run_consensus sample_context 0 5 5 1 sample_timeouts
       [sample_height, sample_next_height @ [VoteMessage (Some (Inr (sample_vote VotePrecommit 6 None 2)))]] =
     Some ([(5, sample_decision)], Some (Equivocation 6 old (sample_vote VotePrecommit 6 None 2))))"
proof -
  have "(case reach_height sample_context 5 (manager_new 1 sample_timeouts) 0 5 [sample_height] of
      Some (ds, mg, c, h) \<Rightarrow> ds = [(5, sample_decision)] \<and> h = 6 \<and>
        votes_at mg 6 = [sample_vote VotePrecommit 6 (Some 8) 2] \<and>
        (case run_height sample_context mg c 6 False sample_next_height of Some (Running st) \<Rightarrow> True | _ \<Rightarrow> False)
    | None \<Rightarrow> False)"
    by code_simp
  then obtain mg c st where r: "reach_height sample_context 5 (manager_new 1 sample_timeouts) 0 5 [sample_height] =
      Some ([(5, sample_decision)], mg, c, 6)" "votes_at mg 6 = [sample_vote VotePrecommit 6 (Some 8) 2]"
      "run_height sample_context mg c 6 (6 < (5 :: u64)) sample_next_height = Some (Running st)"
    by (auto split: option.splits prod.splits height_outcome.splits)
  have vs: "ctx_validators sample_context c h = [0, 1, 2, 3]" for c h by (simp add: sample_context_def)
  note E = equivocation_ends_consensus[where ctx = sample_context, OF _ _ _ r(1,3), unfolded vs]
  have votes: "sample_vote VotePrevote 6 (Some 8) 3 \<in> votes_of_height mg 6 sample_next_height"
    "sample_vote VotePrecommit 6 (Some 8) 2 \<in> votes_of_height mg 6 sample_next_height"
    using r(2) by (simp_all add: votes_of_height_def sample_next_height_def sample_vote_def)
  show ?thesis
    using E[OF _ _ _ votes(1), of None "[SyncTimer]" "[sample_height]"] E[OF _ _ _ votes(2), of None "[]" "[]"]
    by (simp add: sample_vote_def)
qed

text \<open>C37: A proposal of a peer in the name of the node itself makes the node panic: when the node, as the
  leader of a round, waits for its block to be built, a proposal for that round that names the leader is
  taken in for validation, and then the completion of the block fails an assertion.\<close>

theorem forged_own_proposal_panics:
  assumes "i < length (hs_events st)" "hs_events st ! i = TaskBuildProposal r rx"
    and "shc_height (hs_shc st) = h" "shc_proposals (hs_shc st) r = None"
    and "part_into_init ctx part = Inr \<lparr>init_height = h, init_round = r, init_valid_round = vr,
      init_proposer = proposer ctx (hs_context st) h r\<rparr>"
  shows "run_height_loop ctx h (Running st)
    [ProposalStream \<lparr>mpsc_queue = part # parts, mpsc_closed = b\<rparr>, TaskDone i built validated] = None"
  using assms
  by (auto simp: run_height_step_def Let_def manager_handle_proposal_def mpsc_try_next_def with_manager_def
      shc_handle_proposal_def update_context_def after_return_def nth_append shc_handle_event_def
      split: prod.splits)

text \<open>From the start of the height: the leader 0 receives the stream and then its own block.\<close>

theorem forged_own_proposal_panics_witness:
  "run_height_loop sample_context 5 (Running (sample_height_state 0 [TaskBuildProposal 0 0]))
     [ProposalStream \<lparr>mpsc_queue = [sample_init 5], mpsc_closed = False\<rparr>, TaskDone 0 (Some 7) None] = None \<and>
   run_consensus sample_context 0 5 5 0 sample_timeouts
     [[ProposalStream \<lparr>mpsc_queue = [sample_init 5], mpsc_closed = False\<rparr>, TaskDone 0 (Some 7) None]] = None"
proof
  show "run_height_loop sample_context 5 (Running (sample_height_state 0 [TaskBuildProposal 0 0]))
     [ProposalStream \<lparr>mpsc_queue = [sample_init 5], mpsc_closed = False\<rparr>, TaskDone 0 (Some 7) None] = None"
    by (rule forged_own_proposal_panics[where r = 0 and rx = 0 and vr = None])
      (simp_all add: sample_height_state_def sample_context_def sample_init_def)
  show "run_consensus sample_context 0 5 5 0 sample_timeouts
     [[ProposalStream \<lparr>mpsc_queue = [sample_init 5], mpsc_closed = False\<rparr>, TaskDone 0 (Some 7) None]] = None"
    by code_simp
qed

end
