(* ===== verification/Consensus_Consistency.thy ===== *)
theory Consensus_Consistency
  imports Consensus_Decisions
begin

text \<open>
  The height and its state machine agree. Each of them keeps its own account of proposals and votes, and the
  code of the height checks at many places, with assertions and with the error \<^verbatim>\<open>InternalInconsistency\<close>,
  that what the machine emits fits its own records. Here these checks are shown never to fail as long as no
  peer sends messages in the node's own name.

  \<open>consistent\<close> relates the two states. Every rule of the machine keeps it once the height has carried out
  what the rule emits, so it holds after every event, and with it the machine cannot panic either.
\<close>

section \<open>The cases of one internal event\<close>

inductive entry_rule ::
    "(round \<Rightarrow> validator_id) \<Rightarrow> state_machine \<Rightarrow> state_machine_event list \<Rightarrow> state_machine \<Rightarrow> bool"
  for lf where
  stay: "entry_rule lf s [] s"
| propose_timeout: "sm_step s = StepPropose \<Longrightarrow>
     entry_rule lf s [Prevote None (sm_round s)] (s\<lparr>sm_step := StepPrevote\<rparr>)"
| prevote_timeout: "sm_step s = StepPrevote \<Longrightarrow>
     entry_rule lf s [Precommit None (sm_round s)] (s\<lparr>sm_step := StepPrecommit\<rparr>)"
| repropose: "sm_round s < r \<Longrightarrow> \<not> is_observer s \<Longrightarrow> sm_id s = lf r \<Longrightarrow>
     valid_value_round s = Some (pid, vr) \<Longrightarrow>
     entry_rule lf s [Proposal (Some pid) r (Some vr)] (s\<lparr>sm_round := r, sm_step := StepPropose\<rparr>)"
| follow: "sm_round s < r \<Longrightarrow>
     entry_rule lf s [TimeoutPropose r] (s\<lparr>sm_round := r, sm_step := StepPropose\<rparr>)"

definition enters_by_rules ::
    "(round \<Rightarrow> validator_id) \<Rightarrow> state_machine \<Rightarrow> state_machine \<Rightarrow> state_machine_event list \<Rightarrow> bool" where
  "enters_by_rules lf s s' out \<longleftrightarrow>
     (\<exists>o1 m o2. entry_rule lf s o1 m \<and> upon_rules m o2 s' \<and> out = o1 @ o2)"

definition asks_for_proposal ::
    "(round \<Rightarrow> validator_id) \<Rightarrow> state_machine \<Rightarrow> state_machine \<Rightarrow> state_machine_event list \<Rightarrow> bool" where
  "asks_for_proposal lf s s' out \<longleftrightarrow>
     (\<exists>r. sm_round s < r \<and> \<not> is_observer s \<and> sm_id s = lf r \<and> out = [GetProposal None r] \<and>
        s' = s\<lparr>sm_round := r, sm_step := StepPropose, awaiting_get_proposal := True\<rparr>)"

lemma enters_by_rules_cons:
  "entry_rule lf s [x] m \<Longrightarrow> upon_rules m out s' \<Longrightarrow> enters_by_rules lf s s' (x # out)"
  unfolding enters_by_rules_def by fastforce

lemma enters_by_rules_upon: "upon_rules s out s' \<Longrightarrow> enters_by_rules lf s s' out"
  unfolding enters_by_rules_def using stay by fastforce

lemma advance_to_round_enters:
  assumes "advance_to_round s r lf = (s', out)" "sm_round s < r"
  shows "enters_by_rules lf s s' out \<or> asks_for_proposal lf s s' out"
  using assms
  by (auto simp: advance_to_round_def Let_def asks_for_proposal_def
      split: if_splits option.splits prod.splits
      intro: enters_by_rules_cons[OF repropose upons_follow_rules(1)]
        enters_by_rules_cons[OF follow upons_follow_rules(1)])

lemma map_round_to_upons_enters:
  assumes "map_round_to_upons s r lf = (s', out)"
  shows "enters_by_rules lf s s' out \<or> asks_for_proposal lf s s' out"
  using assms
  by (cases rule: map_round_to_upons_cases) (auto intro: enters_by_rules_upon dest: advance_to_round_enters)

lemma handle_event_internal_enters:
  assumes "handle_event_internal s e lf = Some (s', out)" "e \<noteq> TimeoutPrecommit (-1)" "\<not> is_GetProposal e"
  shows "enters_by_rules lf (log_event e s) s' out \<or> asks_for_proposal lf (log_event e s) s' out"
proof (cases e)
  case (TimeoutPrecommit r)
  with assms word_less_add_one[of r] show ?thesis
    by (auto simp: handle_event_internal_def handle_timeout_precommit_def
        intro: enters_by_rules_upon upon_rules.refl dest: advance_to_round_enters split: if_splits)
next
  case (TimeoutPropose r)
  with assms show ?thesis
    by (auto simp: handle_event_internal_def handle_timeout_propose_def split: if_splits prod.splits
        intro: enters_by_rules_upon upon_rules.refl
          enters_by_rules_cons[OF propose_timeout upons_follow_rules(2)])
next
  case (TimeoutPrevote r)
  with assms show ?thesis
    by (auto simp: handle_event_internal_def handle_timeout_prevote_def split: if_splits prod.splits
        intro: enters_by_rules_upon upon_rules.refl
          enters_by_rules_cons[OF prevote_timeout upons_follow_rules(2)])
qed (use assms in \<open>auto simp: handle_event_internal_def handle_proposal_def handle_prevote_def
    handle_precommit_def Let_def bind_eq_Some_conv dest: map_round_to_upons_enters\<close>)

lemma handle_event_internal_total:
  assumes "\<not> awaiting_get_proposal s" "\<not> is_GetProposal e" "\<not> is_Decision e"
    and "\<And>pid r vr. e = Proposal pid r vr \<Longrightarrow> sm_proposals s r = None"
  shows "\<exists>s' out. handle_event_internal s e lf = Some (s', out)"
  using assms
  by (cases e) (auto simp: handle_event_internal_def handle_proposal_def Let_def)

section \<open>What the height does with an emitted event\<close>

text \<open>The state of the height after it has carried out an event of the machine, when all its checks
  succeed; the context has no part in it.\<close>

definition own_vote :: "shc \<Rightarrow> vote_type \<Rightarrow> proposal_content_id option \<Rightarrow> round \<Rightarrow> vote" where
  "own_vote s t pid r = \<lparr>vote_type = t, vote_height = shc_height s, vote_round = r, vote_block_hash = pid,
     vote_voter = shc_id s\<rparr>"

fun absorb :: "shc \<Rightarrow> state_machine_event \<Rightarrow> shc option" where
  "absorb s (GetProposal pid r) = (if pid = None then Some s else None)"
| "absorb s (Proposal pid r vr) =
     (case vr of
        None \<Rightarrow> Some s
      | Some v \<Rightarrow>
          if pid \<noteq> None \<and> shc_proposals s v = Some pid \<and> shc_proposals s r = None
          then Some (s\<lparr>shc_proposals := (shc_proposals s)(r \<mapsto> pid)\<rparr>) else None)"
| "absorb s (Prevote pid r) =
     (let v = own_vote s VotePrevote pid r
      in case record_own_vote (shc_prevotes s) (last_prevote s) v of
           (votes, Inr l) \<Rightarrow> Some (s\<lparr>shc_prevotes := votes, last_prevote := l\<rparr>)
         | (votes, Inl e) \<Rightarrow> None)"
| "absorb s (Precommit pid r) =
     (let v = own_vote s VotePrecommit pid r
      in case record_own_vote (shc_precommits s) (last_precommit s) v of
           (votes, Inr l) \<Rightarrow> Some (s\<lparr>shc_precommits := votes, last_precommit := l\<rparr>)
         | (votes, Inl e) \<Rightarrow> None)"
| "absorb s (Decision pid r) =
     (case handle_state_machine_decision s pid r of (s', Inr d) \<Rightarrow> Some s | (s', Inl e) \<Rightarrow> None)"
| "absorb s _ = Some s"

text \<open>A list of events is carried out up to the first decision.\<close>

fun absorb_all :: "shc \<Rightarrow> state_machine_event list \<Rightarrow> shc option" where
  "absorb_all s [] = Some s"
| "absorb_all s (e # es) = (if is_Decision e then absorb s e else absorb s e \<bind> (\<lambda>s'. absorb_all s' es))"

lemma absorb_all_append:
  "absorb_all s (xs @ ys) = (if list_ex is_Decision xs then absorb_all s xs else absorb_all s xs \<bind> (\<lambda>s'. absorb_all s' ys))"
  by (induction xs arbitrary: s) (auto split: Option.bind_splits)

section \<open>Consistency\<close>

definition precommit_count :: "state_machine \<Rightarrow> round \<Rightarrow> proposal_content_id option \<Rightarrow> nat" where
  "precommit_count m r v =
     (case sm_precommits m r of None \<Rightarrow> 0 | Some a \<Rightarrow> (case map_of a v of None \<Rightarrow> 0 | Some n \<Rightarrow> unat n))"

definition precommit_voters :: "shc \<Rightarrow> round \<Rightarrow> proposal_content_id option \<Rightarrow> validator_id set" where
  "precommit_voters s r v =
     {x \<in> set (shc_validators s). map_option vote_block_hash (shc_precommits s (r, x)) = Some v}"

text \<open>The node itself: its identity, and that its votes are those of rounds and steps it has passed.\<close>

definition same_node :: "shc \<Rightarrow> state_machine \<Rightarrow> bool" where
  "same_node s m \<longleftrightarrow> sm_id m = shc_id s \<and> sm_quorum m = sm_quorum (shc_state_machine s) \<and>
     distinct (shc_validators s) \<and> (\<not> is_observer m \<longrightarrow> shc_id s \<in> set (shc_validators s))"

definition own_votes_passed :: "shc \<Rightarrow> state_machine \<Rightarrow> bool" where
  "own_votes_passed s m \<longleftrightarrow>
     (\<forall>r. shc_prevotes s (r, shc_id s) \<noteq> None \<longrightarrow> (\<exists>l. last_prevote s = Some l \<and> r \<le> vote_round l)) \<and>
     (\<forall>r. shc_precommits s (r, shc_id s) \<noteq> None \<longrightarrow> (\<exists>l. last_precommit s = Some l \<and> r \<le> vote_round l)) \<and>
     (\<forall>l. last_prevote s = Some l \<longrightarrow>
        vote_round l < sm_round m \<or> vote_round l = sm_round m \<and> sm_step m \<noteq> StepPropose) \<and>
     (\<forall>l. last_precommit s = Some l \<longrightarrow>
        vote_round l < sm_round m \<or> vote_round l = sm_round m \<and> sm_step m = StepPrecommit)"

text \<open>Every precommit that the machine has counted, or has queued to count, is recorded.\<close>

definition precommits_recorded :: "shc \<Rightarrow> state_machine \<Rightarrow> state_machine_event list \<Rightarrow> bool" where
  "precommits_recorded s m Q \<longleftrightarrow>
     (\<forall>r v. precommit_count m r v + count_list Q (Precommit v r) \<le> card (precommit_voters s r v))"

fun is_Proposal_event :: "state_machine_event \<Rightarrow> bool" where
  "is_Proposal_event (Proposal _ _ _) = True"
| "is_Proposal_event _ = False"

definition proposal_rounds :: "state_machine_event list \<Rightarrow> round list" where
  "proposal_rounds Q = map event_round (filter is_Proposal_event Q)"

text \<open>Every proposal that the machine knows, or has queued, is recorded; \<open>V\<close> are the rounds whose proposals
  are being validated.\<close>

definition proposals_recorded ::
    "(round \<Rightarrow> validator_id) \<Rightarrow> shc \<Rightarrow> state_machine \<Rightarrow> state_machine_event list \<Rightarrow> round list \<Rightarrow> bool" where
  "proposals_recorded L s m Q V \<longleftrightarrow>
     (\<forall>r p vr. sm_proposals m r = Some (p, vr) \<longrightarrow> shc_proposals s r = Some p) \<and>
     (\<forall>p r vr. Proposal p r vr \<in> set Q \<longrightarrow> sm_proposals m r = None \<and> shc_proposals s r = Some p) \<and>
     distinct (proposal_rounds Q) \<and> distinct V \<and>
     (\<forall>r \<in> set V. shc_proposals s r = Some None \<and> sm_proposals m r = None \<and> r \<notin> set (proposal_rounds Q)) \<and>
     (\<forall>r. L r = shc_id s \<and> shc_proposals s r \<noteq> None \<longrightarrow> r \<le> sm_round m) \<and>
     (awaiting_get_proposal m \<longrightarrow>
        L (sm_round m) = shc_id s \<and> \<not> is_observer m \<and> shc_proposals s (sm_round m) = None) \<and>
     (\<forall>p vr. valid_value_round m = Some (p, vr) \<longrightarrow> (\<exists>x. sm_proposals m vr = Some (Some p, x)))"

definition queue_ok :: "state_machine_event list \<Rightarrow> bool" where
  "queue_ok Q \<longleftrightarrow> list_all (\<lambda>e. \<not> is_GetProposal e \<and> \<not> is_Decision e \<and> e \<noteq> TimeoutPrecommit (-1)) Q"

definition consistent ::
    "(round \<Rightarrow> validator_id) \<Rightarrow> shc \<Rightarrow> state_machine \<Rightarrow> state_machine_event list \<Rightarrow> round list \<Rightarrow> bool" where
  "consistent L s m Q V \<longleftrightarrow> same_node s m \<and> own_votes_passed s m \<and> precommits_recorded s m Q \<and>
     proposals_recorded L s m Q V \<and> queue_ok Q"

lemmas consistent_defs = consistent_def same_node_def own_votes_passed_def precommits_recorded_def
  proposals_recorded_def queue_ok_def


section \<open>Votes and proposals of the node itself\<close>

lemma record_own_vote_fresh:
  assumes "votes (vote_round v, vote_voter v) \<noteq> None \<Longrightarrow> \<exists>l. lst = Some l \<and> vote_round v \<le> vote_round l"
    and "\<And>l. lst = Some l \<Longrightarrow> vote_round l < vote_round v"
  shows "votes (vote_round v, vote_voter v) = None"
    "record_own_vote votes lst v = (votes((vote_round v, vote_voter v) \<mapsto> v), Inr (Some v))"
proof -
  show fresh: "votes (vote_round v, vote_voter v) = None"
    using assms by (metis leD)
  show "record_own_vote votes lst v = (votes((vote_round v, vote_voter v) \<mapsto> v), Inr (Some v))"
    using assms(2) fresh by (auto simp: record_own_vote_def Let_def split: option.splits)
qed

lemma finite_precommit_voters [simp]: "finite (precommit_voters s r v)"
  by (simp add: precommit_voters_def)

lemma card_precommit_voters_update:
  assumes "shc_precommits s (r, x) = None" "x \<in> set (shc_validators s)"
    and "shc_precommits s' = (shc_precommits s)((r, x) \<mapsto> vt)" "shc_validators s' = shc_validators s"
  shows "card (precommit_voters s' r' v) =
    card (precommit_voters s r' v) + (if r' = r \<and> vote_block_hash vt = v then 1 else 0)"
proof (cases "r' = r \<and> vote_block_hash vt = v")
  case True
  with assms have "precommit_voters s' r' v = insert x (precommit_voters s r' v)"
    "x \<notin> precommit_voters s r' v"
    by (auto simp: precommit_voters_def split: if_splits)
  with True show ?thesis by simp
next
  case False
  with assms have "precommit_voters s' r' v = precommit_voters s r' v"
    by (auto simp: precommit_voters_def split: if_splits)
  with False show ?thesis by auto
qed

lemma proposal_rounds_simps [simp]:
  "proposal_rounds [] = []"
  "proposal_rounds (e # Q) = (if is_Proposal_event e then [event_round e] else []) @ proposal_rounds Q"
  "proposal_rounds (Q @ Q') = proposal_rounds Q @ proposal_rounds Q'"
  by (simp_all add: proposal_rounds_def)

lemma proposal_rounds_iff: "r \<in> set (proposal_rounds Q) \<longleftrightarrow> (\<exists>p vr. Proposal p r vr \<in> set Q)"
  by (induction Q) (auto elim: is_Proposal_event.elims)

text \<open>What of the machine matters to \<open>consistent\<close>: when these do not change, and the node moves forward, it
  is kept.\<close>

definition moves_on :: "state_machine \<Rightarrow> state_machine \<Rightarrow> bool" where
  "moves_on m m' \<longleftrightarrow> same_log m m' \<and> awaiting_get_proposal m' = awaiting_get_proposal m \<and>
     (sm_round m < sm_round m' \<or> sm_round m = sm_round m' \<and> rank_of m' \<le> rank_of m) \<and>
     (awaiting_get_proposal m \<longrightarrow> sm_round m' = sm_round m) \<and>
     (\<forall>p vr. valid_value_round m' = Some (p, vr) \<longrightarrow>
        valid_value_round m = Some (p, vr) \<or> (\<exists>x. sm_proposals m vr = Some (Some p, x)))"

lemma step_rank_cases:
  "step_rank st' \<le> step_rank st \<Longrightarrow> st \<noteq> StepPropose \<Longrightarrow> st' \<noteq> StepPropose"
  "step_rank st' \<le> step_rank st \<Longrightarrow> st = StepPrecommit \<Longrightarrow> st' = StepPrecommit"
  by (cases st; cases st'; simp)+

lemma own_votes_passed_moves_on:
  assumes "own_votes_passed s m"
    "sm_round m < sm_round m' \<or> sm_round m = sm_round m' \<and> rank_of m' \<le> rank_of m"
  shows "own_votes_passed s m'"
proof -
  have "l < sm_round m \<or> l = sm_round m \<and> sm_step m \<noteq> StepPropose \<Longrightarrow>
      l < sm_round m' \<or> l = sm_round m' \<and> sm_step m' \<noteq> StepPropose"
    "l < sm_round m \<or> l = sm_round m \<and> sm_step m = StepPrecommit \<Longrightarrow>
      l < sm_round m' \<or> l = sm_round m' \<and> sm_step m' = StepPrecommit" for l
    using assms(2) step_rank_cases[of "sm_step m'" "sm_step m"] by auto
  with assms(1) show ?thesis unfolding own_votes_passed_def by blast
qed

lemma consistent_moves_on:
  assumes "consistent L s m Q V" "moves_on m m'"
  shows "consistent L s m' Q V"
proof -
  from assms(2) have m': "same_log m m'" "awaiting_get_proposal m' = awaiting_get_proposal m"
    "sm_round m < sm_round m' \<or> sm_round m = sm_round m' \<and> rank_of m' \<le> rank_of m"
    "awaiting_get_proposal m \<longrightarrow> sm_round m' = sm_round m"
    "\<And>p vr. valid_value_round m' = Some (p, vr) \<Longrightarrow>
        valid_value_round m = Some (p, vr) \<or> (\<exists>x. sm_proposals m vr = Some (Some p, x))"
    by (auto simp: moves_on_def)
  have le: "sm_round m \<le> sm_round m'" using m'(3) by auto
  have "proposals_recorded L s m' Q V"
    using assms(1) m'(1,2,4,5) le
    unfolding consistent_def proposals_recorded_def same_log_def
    by (auto dest: order_trans)
  moreover have "own_votes_passed s m'"
    using assms(1) m'(3) own_votes_passed_moves_on by (auto simp: consistent_def)
  ultimately show ?thesis
    using assms(1) m'(1)
    by (auto simp: consistent_def same_node_def same_log_def precommits_recorded_def precommit_count_def)
qed

lemma absorb_prevote:
  assumes "consistent L s m Q V" "sm_step m = StepPropose" "moves_on m m'" "sm_round m' = sm_round m"
    and "sm_step m' \<noteq> StepPropose"
  shows "\<exists>s'. absorb s (Prevote pid (sm_round m)) = Some s' \<and> consistent L s' m' (Q @ [Prevote pid (sm_round m)]) V"
proof -
  let ?v = "own_vote s VotePrevote pid (sm_round m)"
  let ?s = "s\<lparr>shc_prevotes := (shc_prevotes s)((sm_round m, shc_id s) \<mapsto> ?v), last_prevote := Some ?v\<rparr>"
  have m': "consistent L s m' Q V" by (rule consistent_moves_on[OF assms(1,3)])
  have "absorb s (Prevote pid (sm_round m)) = Some ?s"
    using assms(1,2) record_own_vote_fresh[of "shc_prevotes s" ?v "last_prevote s"]
    by (auto simp: consistent_def own_votes_passed_def own_vote_def)
  moreover have "own_votes_passed ?s m'"
    using m' assms(1,2,4,5) unfolding consistent_def own_votes_passed_def
    by (auto simp: own_vote_def)
  moreover have "consistent L ?s m' Q V \<longleftrightarrow> own_votes_passed ?s m'"
    using m' by (auto simp: consistent_def same_node_def precommits_recorded_def precommit_voters_def
        proposals_recorded_def)
  ultimately show ?thesis
    by (auto simp: consistent_def precommits_recorded_def proposals_recorded_def queue_ok_def)
qed

lemma absorb_precommit:
  assumes "consistent L s m Q V" "sm_step m = StepPrevote" "moves_on m m'" "sm_round m' = sm_round m"
    and "sm_step m' = StepPrecommit" "\<not> is_observer m"
  shows "\<exists>s'. absorb s (Precommit pid (sm_round m)) = Some s' \<and> consistent L s' m' (Q @ [Precommit pid (sm_round m)]) V"
proof -
  let ?v = "own_vote s VotePrecommit pid (sm_round m)"
  let ?s = "s\<lparr>shc_precommits := (shc_precommits s)((sm_round m, shc_id s) \<mapsto> ?v), last_precommit := Some ?v\<rparr>"
  have m': "consistent L s m' Q V" by (rule consistent_moves_on[OF assms(1,3)])
  note fresh = record_own_vote_fresh[of "shc_precommits s" ?v "last_precommit s"]
  have "absorb s (Precommit pid (sm_round m)) = Some ?s"
    using assms(1,2) fresh by (auto simp: consistent_def own_votes_passed_def own_vote_def)
  moreover have "own_votes_passed ?s m'"
    using m' assms(1,2,4,5) unfolding consistent_def own_votes_passed_def
    by (auto simp: own_vote_def)
  moreover have "precommits_recorded ?s m' (Q @ [Precommit pid (sm_round m)])"
  proof -
    have "shc_precommits s (sm_round m, shc_id s) = None"
      using assms(1,2) fresh(1) by (auto simp: consistent_def own_votes_passed_def own_vote_def)
    moreover have "shc_id s \<in> set (shc_validators s)"
      using assms(1,6) by (auto simp: consistent_def same_node_def)
    ultimately have "card (precommit_voters ?s r v) =
        card (precommit_voters s r v) + (if r = sm_round m \<and> pid = v then 1 else 0)" for r v
      using card_precommit_voters_update[of s "sm_round m" "shc_id s" ?s ?v r v]
      by (simp add: own_vote_def)
    with m' show ?thesis by (auto simp: consistent_def precommits_recorded_def)
  qed
  ultimately show ?thesis
    using m' by (auto simp: consistent_def same_node_def proposals_recorded_def queue_ok_def)
qed

lemma own_round_fresh:
  assumes "consistent L s m Q V" "L r = sm_id m" "sm_round m < r"
  shows "shc_proposals s r = None"
proof (rule ccontr)
  assume "shc_proposals s r \<noteq> None"
  moreover have "sm_id m = shc_id s" using assms(1) by (simp add: consistent_def same_node_def)
  ultimately have "r \<le> sm_round m"
    using assms(1,2) unfolding consistent_def proposals_recorded_def by presburger
  with assms(3) show False by simp
qed

lemma unrecorded_round:
  assumes "consistent L s m Q V" "shc_proposals s r = None"
  shows "sm_proposals m r = None" "r \<notin> set (proposal_rounds Q)" "r \<notin> set V"
proof -
  have rec: "sm_proposals m r = Some (p, vr) \<Longrightarrow> shc_proposals s r = Some p"
    "Proposal p r vr \<in> set Q \<Longrightarrow> shc_proposals s r = Some p"
    "r \<in> set V \<Longrightarrow> shc_proposals s r = Some None" for p vr
    using assms(1) unfolding consistent_def proposals_recorded_def by blast+
  show "sm_proposals m r = None" using rec(1) assms(2) by (cases "sm_proposals m r") auto
  show "r \<notin> set (proposal_rounds Q)" using rec(2) assms(2) by (auto simp: proposal_rounds_iff)
  show "r \<notin> set V" using rec(3) assms(2) by auto
qed

lemma absorb_repropose:
  assumes "consistent L s m Q V" "sm_round m < r" "\<not> is_observer m" "\<not> awaiting_get_proposal m"
    and "sm_id m = L r" "valid_value_round m = Some (pid, vr)"
  shows "\<exists>s'. absorb s (Proposal (Some pid) r (Some vr)) = Some s' \<and>
    consistent L s' (m\<lparr>sm_round := r, sm_step := StepPropose\<rparr>) (Q @ [Proposal (Some pid) r (Some vr)]) V"
proof -
  let ?s = "s\<lparr>shc_proposals := (shc_proposals s)(r \<mapsto> Some pid)\<rparr>"
  let ?m = "m\<lparr>sm_round := r, sm_step := StepPropose\<rparr>"
  have fresh: "shc_proposals s r = None"
    using own_round_fresh[OF assms(1) _ assms(2)] assms(5) by simp
  have stored: "shc_proposals s vr = Some (Some pid)"
    using assms(1,6) by (auto simp: consistent_def proposals_recorded_def)
  have "moves_on m ?m" using assms(2,4) by (simp add: moves_on_def same_log_def)
  from consistent_moves_on[OF assms(1) this] have m: "consistent L s ?m Q V" .
  note new = unrecorded_round[OF assms(1) fresh]
  have "proposals_recorded L ?s ?m (Q @ [Proposal (Some pid) r (Some vr)]) V"
    using m new assms(4) fresh new(2)[unfolded proposal_rounds_iff]
    by (auto simp: consistent_def proposals_recorded_def)
  then have "consistent L ?s ?m (Q @ [Proposal (Some pid) r (Some vr)]) V"
    using m by (auto simp: consistent_def same_node_def own_votes_passed_def precommits_recorded_def
        precommit_voters_def queue_ok_def)
  with fresh stored show ?thesis by simp
qed

lemma length_supporting_precommits:
  assumes "distinct (shc_validators s)"
  shows "length (supporting_precommits s r pid) = card (precommit_voters s r (Some pid))"
proof -
  let ?P = "\<lambda>x. map_option vote_block_hash (shc_precommits s (r, x)) = Some (Some pid)"
  have "length (List.map_filter (\<lambda>v. case shc_precommits s (r, v) of None \<Rightarrow> None
      | Some vt \<Rightarrow> if vote_block_hash vt = Some pid then Some vt else None) xs) = length (filter ?P xs)" for xs
    by (induction xs) (auto simp: List.map_filter_def split: option.splits)
  moreover have "length (filter ?P (shc_validators s)) = card (set (filter ?P (shc_validators s)))"
    using assms distinct_card[of "filter ?P (shc_validators s)"] by simp
  ultimately show ?thesis
    by (simp add: supporting_precommits_def precommit_voters_def)
qed

lemma value_has_enough_votes_count:
  "value_has_enough_votes (sm_precommits m) r v q \<Longrightarrow> unat q \<le> precommit_count m r v"
  by (auto simp: value_has_enough_votes_def precommit_count_def word_le_nat_alt split: option.splits)

lemma absorb_decision:
  assumes "consistent L s m Q V" "sm_proposals m r = Some (Some pid, vr)"
    and "value_has_enough_votes (sm_precommits m) r (Some pid) (sm_quorum m)"
  shows "absorb s (Decision pid r) = Some s"
proof -
  have "precommit_count m r (Some pid) \<le> card (precommit_voters s r (Some pid))"
    using assms(1) unfolding consistent_def precommits_recorded_def by (metis add_leD1)
  with value_has_enough_votes_count[OF assms(3)]
  have "unat (sm_quorum m) \<le> length (supporting_precommits s r pid)"
    using assms(1) by (simp add: consistent_def same_node_def length_supporting_precommits)
  moreover have "shc_proposals s r = Some (Some pid)"
    using assms(1,2) by (auto simp: consistent_def proposals_recorded_def)
  ultimately show ?thesis
    using assms(1) by (auto simp: handle_state_machine_decision_def consistent_def same_node_def Let_def)
qed


section \<open>The rules keep consistency\<close>

text \<open>Which of the emitted events are put into the queue, and which are reported to the height: an observer
  drops its own messages, and nothing after a decision is looked at.\<close>

fun queued :: "bool \<Rightarrow> state_machine_event list \<Rightarrow> state_machine_event list" where
  "queued obs [] = []"
| "queued obs (e # es) =
     (if is_self_sent e then (if obs then queued obs es else e # queued obs es)
      else if is_Decision e then [] else queued obs es)"

fun reported :: "bool \<Rightarrow> state_machine_event list \<Rightarrow> state_machine_event list" where
  "reported obs [] = []"
| "reported obs (e # es) =
     (if is_self_sent e then (if obs then reported obs es else e # reported obs es)
      else if is_Decision e then [e] else e # reported obs es)"

lemma self_sent_not_decision: "is_self_sent e \<Longrightarrow> \<not> is_Decision e"
  by (cases e) simp_all

lemma dispatch_events_eq:
  "list_all (\<lambda>e. \<not> is_GetProposal e) es \<Longrightarrow>
   dispatch_events s es = Some (s\<lparr>events_queue := events_queue s @ queued (is_observer s) es\<rparr>,
     reported (is_observer s) es, list_ex is_Decision es)"
proof (induction es arbitrary: s)
  case (Cons e es)
  have "list_all (\<lambda>e. \<not> is_GetProposal e) es" using Cons.prems by simp
  note IH = Cons.IH[OF this, of s] Cons.IH[OF this, of "s\<lparr>events_queue := events_queue s @ [e]\<rparr>"]
  have "\<not> is_GetProposal e" using Cons.prems by simp
  with IH self_sent_not_decision[of e] show ?case
    by (cases "is_self_sent e"; cases "is_Decision e"; cases "is_observer s"; simp)
qed simp

lemma decision_reported: "list_ex is_Decision (reported obs es) \<longleftrightarrow> list_ex is_Decision es"
  by (induction es) (auto dest: self_sent_not_decision)

text \<open>Carrying out the reported events of \<open>out\<close> succeeds and leads to a consistent height, unless a decision
  ends it.\<close>

definition absorbs ::
    "(round \<Rightarrow> validator_id) \<Rightarrow> shc \<Rightarrow> state_machine_event list \<Rightarrow> state_machine_event list \<Rightarrow> round list
      \<Rightarrow> state_machine_event list \<Rightarrow> state_machine \<Rightarrow> bool" where
  "absorbs L s Q q V out m \<longleftrightarrow>
     (\<exists>s'. absorb_all s out = Some s' \<and> (list_ex is_Decision out \<or> consistent L s' m (Q @ q) V))"

lemma absorbs_refl: "consistent L s m Q V \<Longrightarrow> absorbs L s Q [] V [] m"
  by (simp add: absorbs_def)

lemma absorbs_append:
  assumes "absorbs L s Q q1 V o1 m1" "\<not> list_ex is_Decision o1"
    and "\<And>s1. consistent L s1 m1 (Q @ q1) V \<Longrightarrow> absorbs L s1 (Q @ q1) q2 V o2 m2"
  shows "absorbs L s Q (q1 @ q2) V (o1 @ o2) m2"
  using assms by (fastforce simp: absorbs_def absorb_all_append)

lemma absorbs_single:
  "\<not> is_Decision x \<Longrightarrow> \<exists>s'. absorb s x = Some s' \<and> consistent L s' m (Q @ q) V \<Longrightarrow> absorbs L s Q q V [x] m"
  by (auto simp: absorbs_def)

lemma moves_on_step:
  "rank_of m' \<le> rank_of m \<Longrightarrow> same_log m m' \<Longrightarrow> sm_round m' = sm_round m \<Longrightarrow>
   awaiting_get_proposal m' = awaiting_get_proposal m \<Longrightarrow>
   (\<And>p vr. valid_value_round m' = Some (p, vr) \<Longrightarrow>
     valid_value_round m = Some (p, vr) \<or> (\<exists>x. sm_proposals m vr = Some (Some p, x))) \<Longrightarrow> moves_on m m'"
  by (simp add: moves_on_def)

lemma upon_rule_moves_on: "upon_rule m out m' \<Longrightarrow> moves_on m m'"
  by (induction rule: upon_rule.induct) (auto simp: same_log_def intro!: moves_on_step)

lemma absorbs_dropped:
  assumes "consistent L s m Q V" "moves_on m m'" "is_observer m" "is_self_sent x"
  shows "absorbs L s Q (queued (is_observer m) [x]) V (reported (is_observer m) [x]) m'"
  using assms consistent_moves_on[OF assms(1,2)] by (simp add: absorbs_def)

lemma absorbs_timeout:
  assumes "consistent L s m Q V" "moves_on m m'"
  shows "absorbs L s Q (queued obs [TimeoutPropose r]) V (reported obs [TimeoutPropose r]) m'"
    "absorbs L s Q (queued obs [TimeoutPrevote r]) V (reported obs [TimeoutPrevote r]) m'"
    "absorbs L s Q (queued obs [TimeoutPrecommit r]) V (reported obs [TimeoutPrecommit r]) m'"
  using consistent_moves_on[OF assms] by (auto simp: absorbs_def)

lemma absorbs_prevote:
  assumes "consistent L s m Q V" "sm_step m = StepPropose" "moves_on m m'" "sm_round m' = sm_round m"
    and "sm_step m' \<noteq> StepPropose" "r = sm_round m"
  shows "absorbs L s Q (queued (is_observer m) [Prevote v r]) V (reported (is_observer m) [Prevote v r]) m'"
proof (cases "is_observer m")
  case False
  with absorb_prevote[OF assms(1-5)] assms(6) show ?thesis by (simp add: absorbs_single)
qed (rule absorbs_dropped[OF assms(1,3)]; simp)

lemma absorbs_precommit:
  assumes "consistent L s m Q V" "sm_step m = StepPrevote" "moves_on m m'" "sm_round m' = sm_round m"
    and "sm_step m' = StepPrecommit" "r = sm_round m"
  shows "absorbs L s Q (queued (is_observer m) [Precommit v r]) V (reported (is_observer m) [Precommit v r]) m'"
proof (cases "is_observer m")
  case False
  with absorb_precommit[OF assms(1-5)] assms(6) show ?thesis by (simp add: absorbs_single)
qed (rule absorbs_dropped[OF assms(1,3)]; simp)

lemma absorbs_upon_rule:
  assumes "upon_rule m out m'" "consistent L s m Q V"
  shows "absorbs L s Q (queued (is_observer m) out) V (reported (is_observer m) out) m'"
  using assms upon_rule_moves_on[OF assms(1)]
proof (induction rule: upon_rule.induct)
  case (loc36_valid m pid vr)
  then show ?case by (simp add: absorbs_def consistent_moves_on)
next
  case (loc49 m r pid vr)
  then show ?case by (simp add: absorbs_def absorb_decision del: absorb.simps)
qed (auto intro!: absorbs_prevote absorbs_precommit absorbs_timeout simp del: queued.simps reported.simps)

lemma entry_rule_cases_moves_on:
  "entry_rule L m out m' \<Longrightarrow> \<not> awaiting_get_proposal m \<Longrightarrow> moves_on m m'"
  by (induction rule: entry_rule.induct) (auto simp: same_log_def moves_on_def)

lemma absorbs_entry_rule:
  assumes "entry_rule L m out m'" "consistent L s m Q V" "\<not> awaiting_get_proposal m"
  shows "absorbs L s Q (queued (is_observer m) out) V (reported (is_observer m) out) m'"
  using assms entry_rule_cases_moves_on[OF assms(1,3)]
proof (induction rule: entry_rule.induct)
  case (stay m)
  then show ?case by (simp add: absorbs_refl)
next
  case (repropose m r pid vr)
  then show ?case using absorb_repropose[of L s m Q V r pid vr]
    by (simp add: absorbs_single del: absorb.simps)
qed (auto intro!: absorbs_prevote absorbs_precommit absorbs_timeout simp del: queued.simps reported.simps)

lemma queued_append:
  "queued obs (xs @ ys) = queued obs xs @ (if list_ex is_Decision xs then [] else queued obs ys)"
  by (induction xs) (auto dest: self_sent_not_decision)

lemma reported_append:
  "reported obs (xs @ ys) = reported obs xs @ (if list_ex is_Decision xs then [] else reported obs ys)"
  by (induction xs) (auto dest: self_sent_not_decision)

lemma absorbs_decision:
  "absorbs L s Q q V out m \<Longrightarrow> list_ex is_Decision out \<Longrightarrow> absorbs L s Q q' V out m'"
  by (auto simp: absorbs_def)

lemma absorbs_then:
  assumes "absorbs L s Q (queued obs o1) V (reported obs o1) m1"
    and "\<And>s1. consistent L s1 m1 (Q @ queued obs o1) V \<Longrightarrow>
      absorbs L s1 (Q @ queued obs o1) (queued obs o2) V (reported obs o2) m2"
  shows "absorbs L s Q (queued obs (o1 @ o2)) V (reported obs (o1 @ o2)) m2"
proof (cases "list_ex is_Decision o1")
  case True
  with absorbs_decision[OF assms(1)] show ?thesis
    by (simp add: queued_append reported_append decision_reported)
next
  case False
  with absorbs_append[OF assms(1) _ assms(2)] show ?thesis
    by (simp add: queued_append reported_append decision_reported)
qed

lemma absorbs_upon_rules:
  assumes "upon_rules m out m'" "consistent L s m Q V"
  shows "absorbs L s Q (queued (is_observer m) out) V (reported (is_observer m) out) m'"
  using assms
proof (induction arbitrary: s Q rule: upon_rules.induct)
  case (step m o1 m1 o2 m2)
  have "is_observer m1 = is_observer m"
    using upon_rule_effect(1)[OF step.hyps(1)] by (simp add: same_log_def)
  with absorbs_then[OF absorbs_upon_rule[OF step.hyps(1) step.prems]] step.IH show ?case by simp
qed (simp add: absorbs_refl)

lemma absorbs_enters_by_rules:
  assumes "enters_by_rules L m m' out" "consistent L s m Q V" "\<not> awaiting_get_proposal m"
  shows "absorbs L s Q (queued (is_observer m) out) V (reported (is_observer m) out) m'"
    and "\<not> awaiting_get_proposal m'" "list_all (\<lambda>e. \<not> is_GetProposal e) out" "is_observer m' = is_observer m"
proof -
  from assms(1) obtain o1 m1 o2 where r: "entry_rule L m o1 m1" "upon_rules m1 o2 m'" "out = o1 @ o2"
    by (auto simp: enters_by_rules_def)
  have m1: "is_observer m1 = is_observer m" "\<not> awaiting_get_proposal m1"
    using entry_rule_cases_moves_on[OF r(1) assms(3)] assms(3) by (auto simp: moves_on_def same_log_def)
  show "absorbs L s Q (queued (is_observer m) out) V (reported (is_observer m) out) m'"
    unfolding r(3) using m1(1) absorbs_upon_rules[OF r(2)]
    by (intro absorbs_then[OF absorbs_entry_rule[OF r(1) assms(2,3)]]) simp
  show "\<not> awaiting_get_proposal m'" "is_observer m' = is_observer m"
    using m1 upon_rules_effect(1,3)[OF r(2)] by (simp_all add: same_log_def)
  have "list_all (\<lambda>e. \<not> is_GetProposal e) o1" using r(1) by cases simp_all
  with upon_rules_effect(6)[OF r(2)] show "list_all (\<lambda>e. \<not> is_GetProposal e) out"
    by (auto simp: r(3) list_all_iff)
qed

section \<open>Events keep consistency\<close>

lemma consistent_queue [simp]: "consistent L s (m\<lparr>events_queue := q\<rparr>) Q V = consistent L s m Q V"
  by (simp add: consistent_defs precommit_count_def)

lemma unat_add_one_le: "unat (n + 1 :: u32) \<le> unat n + 1"
  by (simp add: unat_word_ariths)

lemma precommit_count_log:
  "precommit_count (log_event e m) r v \<le> precommit_count m r v + (if e = Precommit v r then 1 else 0)"
  using unat_add_one_le
  by (cases e) (auto simp: precommit_count_def count_vote_def Let_def AList.update_conv' split: option.splits)

lemma consistent_log_event:
  assumes "consistent L s m (e # Q) V" "\<not> awaiting_get_proposal m"
  shows "consistent L s (log_event e m) Q V"
proof -
  have node: "same_node s (log_event e m)" "own_votes_passed s (log_event e m)" "queue_ok Q"
    using assms(1) by (cases e; simp add: consistent_def same_node_def own_votes_passed_def queue_ok_def)+
  have before: "precommit_count m r v + count_list (e # Q) (Precommit v r) \<le> card (precommit_voters s r v)" for r v
    using assms(1) unfolding consistent_def precommits_recorded_def by blast
  have "precommit_count (log_event e m) r v + count_list Q (Precommit v r) \<le> card (precommit_voters s r v)" for r v
    using before[of r v] precommit_count_log[of e m r v] by (simp split: if_splits)
  then have "precommits_recorded s (log_event e m) Q"
    by (simp add: precommits_recorded_def)
  moreover have "proposals_recorded L s (log_event e m) Q V"
    using assms unfolding consistent_def proposals_recorded_def
    by (cases e) (auto simp: proposal_rounds_iff)
  ultimately show ?thesis using node by (simp add: consistent_def)
qed

lemma consistent_asks:
  assumes "asks_for_proposal L m m' out" "consistent L s m Q V"
  shows "consistent L s m' Q V" "awaiting_get_proposal m'" "out = [GetProposal None (sm_round m')]"
    "\<not> is_observer m'"
proof -
  from assms(1) obtain r where r: "sm_round m < r" "\<not> is_observer m" "sm_id m = L r" "out = [GetProposal None r]"
    "m' = m\<lparr>sm_round := r, sm_step := StepPropose, awaiting_get_proposal := True\<rparr>"
    by (auto simp: asks_for_proposal_def)
  have fresh: "shc_proposals s r = None" using own_round_fresh[OF assms(2) r(3)[symmetric] r(1)] .
  have "own_votes_passed s m'"
    by (rule own_votes_passed_moves_on[of s m]) (use assms(2) r(1) in \<open>simp_all add: consistent_def r(5)\<close>)
  moreover have "proposals_recorded L s m' Q V"
    using assms(2) r(2,3) fresh order_trans[OF _ less_imp_le[OF r(1)]]
    unfolding consistent_def proposals_recorded_def same_node_def r(5)
    by (simp; blast)
  ultimately show "consistent L s m' Q V"
    using assms(2) by (simp add: consistent_def same_node_def precommits_recorded_def precommit_count_def r(5))
  show "awaiting_get_proposal m'" "out = [GetProposal None (sm_round m')]" "\<not> is_observer m'"
    using r by simp_all
qed

definition built_rounds :: "state_machine_event list \<Rightarrow> round list" where
  "built_rounds out = map event_round (filter is_GetProposal out)"

definition settled ::
    "(round \<Rightarrow> validator_id) \<Rightarrow> shc \<Rightarrow> round list \<Rightarrow> state_machine_event list \<Rightarrow> state_machine \<Rightarrow> bool" where
  "settled L s V out m \<longleftrightarrow>
     (\<exists>s'. absorb_all s out = Some s' \<and>
        (list_ex is_Decision out \<or>
         consistent L s' m (events_queue m) V \<and>
         built_rounds out = (if awaiting_get_proposal m then [sm_round m] else [])))"

text \<open>One iteration of the event loop: it does not panic, and either the loop goes on with a consistent
  height, or it ends with a decision or a request for a proposal.\<close>

lemma iteration_cases:
  assumes "consistent L s m (e # Q) V" "\<not> awaiting_get_proposal m" "events_queue m = e # Q"
  obtains m1 res m2 o1 ret where
    "handle_event_internal (m\<lparr>events_queue := Q\<rparr>) e L = Some (m1, res)"
    "dispatch_events m1 res = Some (m2, o1, ret)" "ret" "settled L s V o1 m2"
  | m1 res m2 o1 s1 where
    "handle_event_internal (m\<lparr>events_queue := Q\<rparr>) e L = Some (m1, res)"
    "dispatch_events m1 res = Some (m2, o1, False)" "absorb_all s o1 = Some s1"
    "consistent L s1 m2 (events_queue m2) V" "\<not> awaiting_get_proposal m2" "\<not> list_ex is_Decision o1"
    "built_rounds o1 = []"
proof -
  let ?m = "m\<lparr>events_queue := Q\<rparr>"
  have e: "\<not> is_GetProposal e" "\<not> is_Decision e" "e \<noteq> TimeoutPrecommit (-1)"
    "\<And>p r vr. e = Proposal p r vr \<Longrightarrow> sm_proposals ?m r = None"
    using assms(1) by (auto simp: consistent_def queue_ok_def proposals_recorded_def)
  from handle_event_internal_total[of ?m e L] e assms(2) obtain m1 res where
    int: "handle_event_internal ?m e L = Some (m1, res)" by auto
  have log: "consistent L s (log_event e ?m) Q V" "\<not> awaiting_get_proposal (log_event e ?m)"
    "is_observer (log_event e ?m) = is_observer m" "events_queue m1 = Q"
    using consistent_log_event[of L s ?m e Q V] assms(1,2) handle_event_internal_effect(1)[OF int]
    by (cases e; simp)+
  from handle_event_internal_enters[OF int e(3,1)] show thesis
  proof
    assume ask: "asks_for_proposal L (log_event e ?m) m1 res"
    note a = consistent_asks[OF ask log(1)]
    have "dispatch_events m1 res = Some (m1, res, True)" using a(3,4) by simp
    moreover have "settled L s V res m1"
      using a log(4) by (simp add: settled_def built_rounds_def)
    ultimately show thesis using that(1) int by blast
  next
    assume enter: "enters_by_rules L (log_event e ?m) m1 res"
    note r = absorbs_enters_by_rules[OF enter log(1,2)]
    let ?m2 = "m1\<lparr>events_queue := events_queue m1 @ queued (is_observer m1) res\<rparr>"
    have dis: "dispatch_events m1 res = Some (?m2, reported (is_observer m1) res, list_ex is_Decision res)"
      by (rule dispatch_events_eq[OF r(3)])
    from r(1) obtain s1 where s1: "absorb_all s (reported (is_observer m1) res) = Some s1"
      "list_ex is_Decision res \<or> consistent L s1 ?m2 (events_queue ?m2) V"
      using log(3,4) r(4) by (auto simp: absorbs_def decision_reported)
    have none: "built_rounds (reported obs res) = []" for obs
      using r(3) by (induction res) (auto simp: built_rounds_def)
    show thesis
    proof (cases "list_ex is_Decision res")
      case True
      with s1(1) have "settled L s V (reported (is_observer m1) res) ?m2"
        by (simp add: settled_def decision_reported)
      with that(1)[OF int dis True] show thesis .
    next
      case False
      with dis have "dispatch_events m1 res = Some (?m2, reported (is_observer m1) res, False)" by simp
      from that(2)[OF int this s1(1)] False s1(2) r(2) none show thesis
        by (simp add: decision_reported)
    qed
  qed
qed

lemma handle_enqueued_events_settles:
  assumes "consistent L s m (events_queue m) V" "\<not> awaiting_get_proposal m"
  shows "\<exists>m' out. handle_enqueued_events m L = Some (m', out) \<and> settled L s V out m'"
  using assms
proof (induction m L arbitrary: s rule: handle_enqueued_events.induct)
  case (1 m L)
  show ?case
  proof (cases "events_queue m")
    case Nil
    with "1.prems" show ?thesis
      by (simp add: handle_enqueued_events.simps[of m] settled_def built_rounds_def)
  next
    case (Cons e Q)
    show ?thesis
    proof (rule iteration_cases[OF "1.prems"(1)[unfolded Cons] "1.prems"(2) Cons])
      fix m1 res m2 o1 ret
      assume "handle_event_internal (m\<lparr>events_queue := Q\<rparr>) e L = Some (m1, res)"
        "dispatch_events m1 res = Some (m2, o1, ret)" "ret" "settled L s V o1 m2"
      then show ?thesis
        by (subst handle_enqueued_events.simps) (simp add: Cons)
    next
      fix m1 res m2 o1 s1
      assume it: "handle_event_internal (m\<lparr>events_queue := Q\<rparr>) e L = Some (m1, res)"
        "dispatch_events m1 res = Some (m2, o1, False)" and
        s1: "absorb_all s o1 = Some s1" "consistent L s1 m2 (events_queue m2) V" "\<not> awaiting_get_proposal m2"
        "\<not> list_ex is_Decision o1" "built_rounds o1 = []"
      from "1.IH"[OF Cons it(1) HOL.refl it(2) HOL.refl HOL.refl _ s1(2,3)] obtain m' o2 where
        rest: "handle_enqueued_events m2 L = Some (m', o2)" "settled L s1 V o2 m'"
        by auto
      have "handle_enqueued_events m L = Some (m', o1 @ o2)"
        by (subst handle_enqueued_events.simps) (simp add: Cons it rest(1))
      moreover have "settled L s V (o1 @ o2) m'"
        using rest(2) s1 by (auto simp: settled_def absorb_all_append built_rounds_def)
      ultimately show ?thesis by blast
    qed
  qed
qed

section \<open>Passing events to the machine\<close>

definition pending_build :: "state_machine \<Rightarrow> round list" where
  "pending_build m = (if awaiting_get_proposal m then [sm_round m] else [])"

definition advances ::
    "(round \<Rightarrow> validator_id) \<Rightarrow> shc \<Rightarrow> round list \<Rightarrow> round list \<Rightarrow> state_machine_event list \<Rightarrow> state_machine \<Rightarrow> bool" where
  "advances L s V B out m \<longleftrightarrow>
     (\<exists>s'. absorb_all s out = Some s' \<and>
        (list_ex is_Decision out \<or>
         consistent L s' m (events_queue m) V \<and> B @ built_rounds out = pending_build m))"

lemma handle_event_advances:
  assumes "consistent L s m (events_queue m @ [e]) V" "\<not> is_GetProposal e"
  shows "\<exists>m' out. handle_event m e L = Some (m', out) \<and> advances L s V (pending_build m) out m'"
proof (cases "awaiting_get_proposal m")
  case True
  with assms show ?thesis
    by (simp add: handle_event_def advances_def pending_build_def built_rounds_def)
next
  case False
  with assms handle_enqueued_events_settles[of L s "m\<lparr>events_queue := events_queue m @ [e]\<rparr>" V] show ?thesis
    by (auto simp: handle_event_def advances_def settled_def pending_build_def)
qed

lemma consistent_built_proposal:
  assumes "consistent L s m Q V" "awaiting_get_proposal m" "sm_round m = r"
  shows "consistent L (s\<lparr>shc_proposals := (shc_proposals s)(r \<mapsto> pid)\<rparr>) (m\<lparr>awaiting_get_proposal := False\<rparr>)
    (Q @ [Proposal pid r None]) V"
proof -
  let ?s = "s\<lparr>shc_proposals := (shc_proposals s)(r \<mapsto> pid)\<rparr>"
  let ?m = "m\<lparr>awaiting_get_proposal := False\<rparr>"
  have none: "shc_proposals s r = None"
    using assms unfolding consistent_def proposals_recorded_def by blast
  note new = unrecorded_round[OF assms(1) none]
  have "proposals_recorded L ?s ?m (Q @ [Proposal pid r None]) V"
    using assms(1,3) new new(2)[unfolded proposal_rounds_iff] none
    by (auto simp: consistent_def proposals_recorded_def)
  then show ?thesis
    using assms(1) by (auto simp: consistent_def same_node_def own_votes_passed_def precommits_recorded_def
        precommit_voters_def precommit_count_def queue_ok_def)
qed

lemma handle_event_built_proposal:
  assumes "consistent L s m (events_queue m) V" "awaiting_get_proposal m" "sm_round m = r"
  shows "\<exists>m' out. handle_event m (GetProposal pid r) L = Some (m', out) \<and>
    advances L (s\<lparr>shc_proposals := (shc_proposals s)(r \<mapsto> pid)\<rparr>) V [] out m'"
proof -
  let ?s = "s\<lparr>shc_proposals := (shc_proposals s)(r \<mapsto> pid)\<rparr>"
  let ?m = "m\<lparr>awaiting_get_proposal := False, events_queue := events_queue m @ [Proposal pid r None]\<rparr>"
  have "consistent L ?s ?m (events_queue ?m) V"
    using consistent_built_proposal[OF assms] by simp
  from handle_enqueued_events_settles[OF this] obtain m' out where
    rest: "handle_enqueued_events ?m L = Some (m', out)" "settled L ?s V out m'" by auto
  have obs: "\<not> is_observer m" using assms(1,2) by (auto simp: consistent_def proposals_recorded_def)
  have "handle_event m (GetProposal pid r) L = Some (m', Proposal pid r None # out)"
    using assms(2,3) obs rest(1)
    by (simp add: handle_event_def handle_enqueued_events.simps[of "m\<lparr>events_queue := _ # _\<rparr>"]
        handle_event_internal_def handle_get_proposal_def)
  moreover have "advances L ?s V [] (Proposal pid r None # out) m'"
    using rest(2) by (auto simp: advances_def settled_def built_rounds_def pending_build_def)
  ultimately show ?thesis by blast
qed

section \<open>Tasks\<close>

fun is_timeout :: "state_machine_event \<Rightarrow> bool" where
  "is_timeout (TimeoutPropose _) = True"
| "is_timeout (TimeoutPrevote _) = True"
| "is_timeout (TimeoutPrecommit _) = True"
| "is_timeout _ = False"

text \<open>A pending task carries an event of its kind, and a task that repeats a vote has one to repeat.\<close>

fun task_ok :: "shc \<Rightarrow> shc_task \<Rightarrow> bool" where
  "task_ok s (TaskTimeoutPropose d e) = is_timeout e"
| "task_ok s (TaskTimeoutPrevote d e) = is_timeout e"
| "task_ok s (TaskTimeoutPrecommit d e) = is_timeout e"
| "task_ok s (TaskPrevote d e) = (is_Prevote e \<and> last_prevote s \<noteq> None)"
| "task_ok s (TaskPrecommit d e) = (is_Precommit e \<and> last_precommit s \<noteq> None)"
| "task_ok s (TaskBuildProposal r rx) = True"
| "task_ok s (TaskValidateProposal init rx) = True"

definition build_rounds :: "shc_task list \<Rightarrow> round list" where
  "build_rounds T = concat (map (\<lambda>t. case t of TaskBuildProposal r rx \<Rightarrow> [r] | _ \<Rightarrow> []) T)"

definition validate_rounds :: "shc_task list \<Rightarrow> round list" where
  "validate_rounds T =
     concat (map (\<lambda>t. case t of TaskValidateProposal init rx \<Rightarrow> [init_round init] | _ \<Rightarrow> []) T)"

lemma task_rounds_simps [simp]:
  "build_rounds [] = []" "validate_rounds [] = []"
  "build_rounds (t # T) = (case t of TaskBuildProposal r rx \<Rightarrow> [r] | _ \<Rightarrow> []) @ build_rounds T"
  "validate_rounds (t # T) =
     (case t of TaskValidateProposal init rx \<Rightarrow> [init_round init] | _ \<Rightarrow> []) @ validate_rounds T"
  "build_rounds (T @ T') = build_rounds T @ build_rounds T'"
  "validate_rounds (T @ T') = validate_rounds T @ validate_rounds T'"
  by (simp_all add: build_rounds_def validate_rounds_def)

definition height_ok :: "(round \<Rightarrow> validator_id) \<Rightarrow> shc \<Rightarrow> shc_task list \<Rightarrow> bool" where
  "height_ok L s T \<longleftrightarrow>
     consistent L s (shc_state_machine s) (events_queue (shc_state_machine s)) (validate_rounds T) \<and>
     build_rounds T = pending_build (shc_state_machine s) \<and> list_all (task_ok s) T"

fun external_error :: "consensus_error \<Rightarrow> bool" where
  "external_error (InternalInconsistency _) = False"
| "external_error (InvalidEvent _) = False"
| "external_error _ = True"

definition good_result :: "(round \<Rightarrow> validator_id) \<Rightarrow> shc_task list \<Rightarrow> ('c, shc_return) shc_result \<Rightarrow> bool" where
  "good_result L T res \<longleftrightarrow>
     (case res of
        None \<Rightarrow> False
      | Some ((s, c), Inl e) \<Rightarrow> external_error e
      | Some ((s, c), Inr (ShcDecision d)) \<Rightarrow> True
      | Some ((s, c), Inr (Tasks new)) \<Rightarrow> height_ok L s (T @ new))"

definition context_ok :: "('c, 'p) consensus_context \<Rightarrow> block_number \<Rightarrow> (round \<Rightarrow> validator_id) \<Rightarrow> bool" where
  "context_ok ctx h L \<longleftrightarrow> (\<forall>c r. proposer ctx c h r = L r) \<and>
     (\<forall>c v e c'. broadcast ctx c v = (Inl e, c') \<longrightarrow> external_error e)"

text \<open>Carrying out events for the context agrees with \<open>absorb_all\<close>, up to errors of the network.\<close>

definition agrees_with ::
    "shc \<Rightarrow> shc_task list \<Rightarrow> state_machine_event list \<Rightarrow> ('c, shc_return) shc_result \<Rightarrow> bool" where
  "agrees_with s' ret out res \<longleftrightarrow>
     (case res of
        None \<Rightarrow> False
      | Some ((s, c), Inl e) \<Rightarrow> external_error e
      | Some ((s, c), Inr (ShcDecision d)) \<Rightarrow> True
      | Some ((s, c), Inr (Tasks ts)) \<Rightarrow> s = s' \<and> \<not> list_ex is_Decision out \<and>
          (\<exists>new. ts = ret @ new \<and> validate_rounds new = [] \<and> build_rounds new = built_rounds out \<and>
             list_all (task_ok s') new))"

lemma task_ok_absorb: "absorb s e = Some s' \<Longrightarrow> task_ok s t \<Longrightarrow> task_ok s' t"
  by (cases e; cases t)
    (auto simp: Let_def record_own_vote_def split: option.splits if_splits sum.splits prod.splits)

lemma task_ok_absorb_all: "absorb_all s es = Some s' \<Longrightarrow> task_ok s t \<Longrightarrow> task_ok s' t"
  by (induction es arbitrary: s) (auto simp: bind_eq_Some_conv dest: task_ok_absorb split: if_splits)

lemma broadcast_cases:
  assumes "context_ok ctx h L"
  shows "(\<exists>c'. broadcast ctx c v = (Inr (), c')) \<or> (\<exists>e c'. broadcast ctx c v = (Inl e, c') \<and> external_error e)"
proof (cases "broadcast ctx c v")
  case (Pair res c')
  show ?thesis
  proof (cases res)
    case (Inl e)
    with assms Pair have "external_error e" unfolding context_ok_def by blast
    with Pair Inl show ?thesis by simp
  qed (use Pair in simp)
qed

lemma handle_state_machine_vote_agrees:
  assumes "context_ok ctx h L"
  shows "absorb s (Prevote pid r) = Some s' \<Longrightarrow>
      (\<exists>c'. handle_state_machine_vote ctx s c pid r VotePrevote =
         Some ((s', c'), Inr [TaskPrevote (prevote_timeout (shc_timeouts s)) (Prevote pid r)]) \<and> last_prevote s' \<noteq> None) \<or>
      (\<exists>x e. handle_state_machine_vote ctx s c pid r VotePrevote = Some (x, Inl e) \<and> external_error e)"
    and "absorb s (Precommit pid r) = Some s' \<Longrightarrow>
      (\<exists>c'. handle_state_machine_vote ctx s c pid r VotePrecommit =
         Some ((s', c'), Inr [TaskPrecommit (precommit_timeout (shc_timeouts s)) (Precommit pid r)]) \<and> last_precommit s' \<noteq> None) \<or>
      (\<exists>x e. handle_state_machine_vote ctx s c pid r VotePrecommit = Some (x, Inl e) \<and> external_error e)"
proof -
  note b = broadcast_cases[OF assms]
  show "absorb s (Prevote pid r) = Some s' \<Longrightarrow>
      (\<exists>c'. handle_state_machine_vote ctx s c pid r VotePrevote =
         Some ((s', c'), Inr [TaskPrevote (prevote_timeout (shc_timeouts s)) (Prevote pid r)]) \<and> last_prevote s' \<noteq> None) \<or>
      (\<exists>x e. handle_state_machine_vote ctx s c pid r VotePrevote = Some (x, Inl e) \<and> external_error e)"
    using b[of c "own_vote s VotePrevote pid r"]
    by (auto simp: handle_state_machine_vote_def own_vote_def Let_def record_own_vote_def
        split: option.splits if_splits)
  show "absorb s (Precommit pid r) = Some s' \<Longrightarrow>
      (\<exists>c'. handle_state_machine_vote ctx s c pid r VotePrecommit =
         Some ((s', c'), Inr [TaskPrecommit (precommit_timeout (shc_timeouts s)) (Precommit pid r)]) \<and> last_precommit s' \<noteq> None) \<or>
      (\<exists>x e. handle_state_machine_vote ctx s c pid r VotePrecommit = Some (x, Inl e) \<and> external_error e)"
    using b[of c "own_vote s VotePrecommit pid r"]
    by (auto simp: handle_state_machine_vote_def own_vote_def Let_def record_own_vote_def
        split: option.splits if_splits)
qed

lemma agrees_with_cons:
  assumes "agrees_with s' (ret @ ts) es res" "absorb_all s1 es = Some s'" "\<not> is_Decision e"
    and "list_all (task_ok s1) ts" "validate_rounds ts = []" "build_rounds ts = built_rounds [e]"
  shows "agrees_with s' ret (e # es) res"
proof -
  have "list_all (task_ok s') ts"
    using assms(4) task_ok_absorb_all[OF assms(2)] by (auto simp: list_all_iff)
  with assms show ?thesis
    by (auto simp: agrees_with_def built_rounds_def split: option.splits sum.splits shc_return.splits)
qed

lemma agrees_with_vote:
  assumes "(\<exists>c'. m = Some ((s1, c'), Inr [t])) \<and> task_ok s1 t \<or> (\<exists>x e. m = Some (x, Inl e) \<and> external_error e)"
    and "\<And>c'. agrees_with s' (ret @ [t]) es (f (s1, c') [t])"
    and "absorb_all s1 es = Some s'" "\<not> is_Decision e" "\<not> is_GetProposal e"
    and "validate_rounds [t] = []" "build_rounds [t] = []"
  shows "agrees_with s' ret (e # es) (rs_try m f)"
  using assms(1)
proof
  assume "(\<exists>c'. m = Some ((s1, c'), Inr [t])) \<and> task_ok s1 t"
  then obtain c' where m: "m = Some ((s1, c'), Inr [t])" "task_ok s1 t" by blast
  have "agrees_with s' ret (e # es) (f (s1, c') [t])"
    by (rule agrees_with_cons[OF assms(2,3,4)]) (use m(2) assms(5-7) in \<open>simp_all add: built_rounds_def\<close>)
  with m show ?thesis by simp
qed (auto simp: agrees_with_def)

lemma handle_state_machine_events_loop_agrees:
  assumes "context_ok ctx h L" "absorb_all s out = Some s'"
  shows "agrees_with s' ret out (handle_state_machine_events_loop ctx s c ret out)"
  using assms(2)
proof (induction out arbitrary: s c ret)
  case (Cons e es)
  show ?case
  proof (cases e)
    case (GetProposal pid r)
    with Cons.prems have s: "pid = None" "absorb_all s es = Some s'" by (auto split: if_splits)
    show ?thesis
      using Cons.IH[OF s(2)] s
      by (auto simp: GetProposal handle_state_machine_get_proposal_def Let_def split: prod.splits
          intro!: agrees_with_cons[OF _ s(2)] simp: built_rounds_def)
  next
    case (Proposal pid r vr)
    with Cons.prems obtain s1 where s1: "absorb s e = Some s1" "absorb_all s1 es = Some s'"
      by (auto simp: bind_eq_Some_conv)
    then obtain c' where "handle_state_machine_proposal ctx s c pid r vr = Some (s1, c')"
      by (cases vr) (auto simp: Proposal handle_state_machine_proposal_def Let_def split: if_splits)
    with Cons.IH[OF s1(2), of ret c'] Proposal show ?thesis
      by (auto simp: built_rounds_def intro!: agrees_with_cons[OF _ s1(2), of ret "[]"])
  next
    case (Decision pid r)
    with Cons.prems show ?thesis
      by (auto simp: agrees_with_def handle_state_machine_decision_def Let_def split: option.splits if_splits)
  next
    case (Prevote pid r)
    with Cons.prems obtain s1 where s1: "absorb s (Prevote pid r) = Some s1" "absorb_all s1 es = Some s'"
      by (auto simp: bind_eq_Some_conv simp del: absorb.simps)
    show ?thesis
      unfolding Prevote handle_state_machine_events_loop.simps state_machine_event.case
      by (rule agrees_with_vote[OF _ _ s1(2)])
        (use handle_state_machine_vote_agrees(1)[OF assms(1) s1(1), of c] Cons.IH[OF s1(2)] in auto)
  next
    case (Precommit pid r)
    with Cons.prems obtain s1 where s1: "absorb s (Precommit pid r) = Some s1" "absorb_all s1 es = Some s'"
      by (auto simp: bind_eq_Some_conv simp del: absorb.simps)
    show ?thesis
      unfolding Precommit handle_state_machine_events_loop.simps state_machine_event.case
      by (rule agrees_with_vote[OF _ _ s1(2)])
        (use handle_state_machine_vote_agrees(2)[OF assms(1) s1(1), of c] Cons.IH[OF s1(2)] in auto)
  qed (use Cons in \<open>auto simp: built_rounds_def intro!: agrees_with_cons[of _ _ _ _ _ s]\<close>)
qed (auto simp: agrees_with_def built_rounds_def)

end
