(* ===== verification/Consensus_Robustness.thy ===== *)
theory Consensus_Robustness
  imports Consensus_Consistency
begin

text \<open>
  A height of consensus neither panics nor ends with an internal error, as long as no peer sends messages in
  the node's own name: \<open>height_ok\<close>, the consistency of the height with its state machine and its pending tasks,
  is kept by every method that the manager calls, and so by whole runs of \<^verbatim>\<open>run_height\<close>.
\<close>

section \<open>The methods of a height\<close>

lemma consistent_state_machine:
  "sm_quorum x = sm_quorum (shc_state_machine s) \<Longrightarrow>
   consistent L (s\<lparr>shc_state_machine := x\<rparr>) m Q V = consistent L s m Q V"
  by (simp add: consistent_defs precommit_voters_def)

lemma consistent_absorb_state_machine:
  "consistent L s m Q V \<Longrightarrow> sm_quorum (shc_state_machine s) = sm_quorum m"
  by (simp add: consistent_def same_node_def)

lemma absorb_keeps: "absorb s e = Some s' \<Longrightarrow> shc_state_machine s' = shc_state_machine s"
  by (cases e) (auto simp: Let_def split: option.splits sum.splits prod.splits if_splits)

lemma absorb_all_keeps: "absorb_all s es = Some s' \<Longrightarrow> shc_state_machine s' = shc_state_machine s"
  by (induction es arbitrary: s) (auto simp: bind_eq_Some_conv dest: absorb_keeps split: if_splits)

lemma good_result_simps [simp]:
  "\<not> good_result L T None"
  "good_result L T (Some ((s, c), Inl e)) \<longleftrightarrow> external_error e"
  "good_result L T (Some ((s, c), Inr (ShcDecision d)))"
  "good_result L T (Some ((s, c), Inr (Tasks new))) \<longleftrightarrow> height_ok L s (T @ new)"
  by (simp_all add: good_result_def)

lemma good_result_update_context [simp]: "good_result L T (update_context ctx res) = good_result L T res"
  by (auto simp: good_result_def update_context_def split: option.splits sum.splits shc_return.splits)

text \<open>What the machine has emitted is carried out on the height that holds the new machine.\<close>

lemma good_result_events:
  assumes "context_ok ctx h L" "advances L (s\<lparr>shc_state_machine := m\<rparr>) (validate_rounds T) (build_rounds T) out m"
    and "list_all (task_ok s) T"
  shows "good_result L T (handle_state_machine_events ctx (s\<lparr>shc_state_machine := m\<rparr>) c out)"
proof -
  let ?s = "s\<lparr>shc_state_machine := m\<rparr>"
  from assms(2) obtain s' where s': "absorb_all ?s out = Some s'"
    "list_ex is_Decision out \<or> consistent L s' m (events_queue m) (validate_rounds T) \<and>
       build_rounds T @ built_rounds out = pending_build m"
    by (auto simp: advances_def)
  have m: "shc_state_machine s' = m" using absorb_all_keeps[OF s'(1)] by simp
  have "list_all (task_ok ?s) T"
    using assms(3) by (auto simp: list_all_iff elim!: task_ok.elims)
  then have T: "list_all (task_ok s') T"
    using task_ok_absorb_all[OF s'(1)] by (auto simp: list_all_iff)
  have "agrees_with s' [] out (handle_state_machine_events_loop ctx ?s c [] out)"
    by (rule handle_state_machine_events_loop_agrees[OF assms(1) s'(1)])
  with s'(2) m T show ?thesis
    by (auto simp: good_result_def agrees_with_def handle_state_machine_events_def height_ok_def
        split: option.splits sum.splits shc_return.splits)
qed

lemma leader_fn_eq: "context_ok ctx (shc_height s) L \<Longrightarrow> leader_fn ctx s c = L"
  by (auto simp: context_ok_def leader_fn_def)

lemma feed_state_machine_good:
  assumes "context_ok ctx (shc_height s) L" "list_all (task_ok s) T" "\<not> is_GetProposal e"
    and "consistent L s (shc_state_machine s) (events_queue (shc_state_machine s) @ [e]) (validate_rounds T)"
    and "build_rounds T = pending_build (shc_state_machine s)"
  shows "good_result L T (feed_state_machine ctx s c e)"
proof -
  let ?m = "shc_state_machine s"
  from handle_event_advances[OF assms(4,3)] obtain m' out where h: "handle_event ?m e L = Some (m', out)" by blast
  have "consistent L (s\<lparr>shc_state_machine := m'\<rparr>) ?m (events_queue ?m @ [e]) (validate_rounds T)"
    using assms(4) consistent_state_machine[OF handle_event_quorum[OF h]] by simp
  from handle_event_advances[OF this assms(3)] h
  have "advances L (s\<lparr>shc_state_machine := m'\<rparr>) (validate_rounds T) (pending_build ?m) out m'" by simp
  with good_result_events[OF assms(1)] assms(2,5) h show ?thesis
    by (simp add: feed_state_machine_def leader_fn_eq[OF assms(1)])
qed

lemma feed_built_proposal_good:
  fixes s :: shc and r :: round
  defines "s1 pid \<equiv> s\<lparr>shc_proposals := (shc_proposals s)(r \<mapsto> pid)\<rparr>"
  assumes "context_ok ctx (shc_height s) L" "list_all (task_ok s) T" "build_rounds T = []"
    and "consistent L s (shc_state_machine s) (events_queue (shc_state_machine s)) (validate_rounds T)"
    and "awaiting_get_proposal (shc_state_machine s)" "sm_round (shc_state_machine s) = r"
  shows "good_result L T (feed_state_machine ctx (s1 pid) c (GetProposal pid r))"
proof -
  let ?m = "shc_state_machine s"
  from handle_event_built_proposal[OF assms(5-7)] obtain m' out where
    h: "handle_event ?m (GetProposal pid r) L = Some (m', out)" by blast
  have "consistent L (s\<lparr>shc_state_machine := m'\<rparr>) ?m (events_queue ?m) (validate_rounds T)"
    using assms(5) consistent_state_machine[OF handle_event_quorum[OF h]] by simp
  then have adv: "advances L (s\<lparr>shc_state_machine := m', shc_proposals := (shc_proposals s)(r \<mapsto> pid)\<rparr>)
      (validate_rounds T) [] out m'"
    using handle_event_built_proposal[of L "s\<lparr>shc_state_machine := m'\<rparr>" ?m "validate_rounds T" r pid] assms(6,7) h
    by simp
  have swap: "s\<lparr>shc_state_machine := m', shc_proposals := p\<rparr> = s\<lparr>shc_proposals := p, shc_state_machine := m'\<rparr>" for p
    by (cases s) simp
  have "list_all (task_ok (s1 pid)) T"
    using assms(3) by (auto simp: list_all_iff s1_def elim!: task_ok.elims)
  with good_result_events[where h = "shc_height (s1 pid)" and s = "s1 pid" and m = m' and T = T and out = out] adv[unfolded swap] assms(2,4) h show ?thesis
    using leader_fn_eq[of ctx "s1 pid" L c] by (simp add: feed_state_machine_def s1_def)
qed

text \<open>A vote of another validator.\<close>

lemma consistent_peer_vote:
  assumes "consistent L s m Q V" "vote_voter v \<noteq> shc_id s" "vote_voter v \<in> set (shc_validators s)"
  shows "consistent L (s\<lparr>shc_prevotes := (shc_prevotes s)((vote_round v, vote_voter v) \<mapsto> v)\<rparr>) m
      (Q @ [Prevote (vote_block_hash v) (vote_round v)]) V"
    and "shc_precommits s (vote_round v, vote_voter v) = None \<Longrightarrow>
      consistent L (s\<lparr>shc_precommits := (shc_precommits s)((vote_round v, vote_voter v) \<mapsto> v)\<rparr>) m
      (Q @ [Precommit (vote_block_hash v) (vote_round v)]) V"
proof -
  show "consistent L (s\<lparr>shc_prevotes := (shc_prevotes s)((vote_round v, vote_voter v) \<mapsto> v)\<rparr>) m
      (Q @ [Prevote (vote_block_hash v) (vote_round v)]) V"
    using assms by (auto simp: consistent_defs precommit_voters_def)
  assume new: "shc_precommits s (vote_round v, vote_voter v) = None"
  let ?s = "s\<lparr>shc_precommits := (shc_precommits s)((vote_round v, vote_voter v) \<mapsto> v)\<rparr>"
  have "card (precommit_voters ?s r b) =
      card (precommit_voters s r b) + (if r = vote_round v \<and> vote_block_hash v = b then 1 else 0)" for r b
    by (rule card_precommit_voters_update[OF new assms(3)]) simp_all
  then have "precommits_recorded ?s m (Q @ [Precommit (vote_block_hash v) (vote_round v)])"
    using assms(1) by (auto simp: consistent_def precommits_recorded_def)
  then show "consistent L ?s m (Q @ [Precommit (vote_block_hash v) (vote_round v)]) V"
    using assms(1,2) by (auto simp: consistent_def same_node_def own_votes_passed_def proposals_recorded_def queue_ok_def)
qed

lemma task_ok_frame:
  "list_all (task_ok s) T \<Longrightarrow> last_prevote s' = last_prevote s \<Longrightarrow> last_precommit s' = last_precommit s \<Longrightarrow>
   list_all (task_ok s') T"
  by (auto simp: list_all_iff elim!: task_ok.elims)

lemma shc_handle_vote_good:
  assumes "context_ok ctx (shc_height s) L" "height_ok L s T" "vote_voter v \<noteq> shc_id s"
  shows "good_result L T (shc_handle_vote ctx s c v)"
proof -
  have same: "good_result L T (Some ((s, c), Inr (Tasks [])))" "good_result L T (Some ((s, c), Inl (Equivocation h a b)))" for h a b
    using assms(2) by simp_all
  note ok = assms(2)[unfolded height_ok_def]
  have "vote_voter v \<in> set (shc_validators s) \<Longrightarrow>
     good_result L T (feed_state_machine ctx (s\<lparr>shc_prevotes := (shc_prevotes s)((vote_round v, vote_voter v) \<mapsto> v)\<rparr>) c
       (Prevote (vote_block_hash v) (vote_round v)))"
    using consistent_peer_vote(1)[OF _ assms(3)] ok assms(1)
    by (intro feed_state_machine_good) (auto elim: task_ok_frame)
  moreover have "vote_voter v \<in> set (shc_validators s) \<Longrightarrow> shc_precommits s (vote_round v, vote_voter v) = None \<Longrightarrow>
     good_result L T (feed_state_machine ctx (s\<lparr>shc_precommits := (shc_precommits s)((vote_round v, vote_voter v) \<mapsto> v)\<rparr>) c
       (Precommit (vote_block_hash v) (vote_round v)))"
    using consistent_peer_vote(2)[OF _ assms(3)] ok assms(1)
    by (intro feed_state_machine_good) (auto elim: task_ok_frame)
  ultimately show ?thesis
    using same by (auto simp: shc_handle_vote_def Let_def split: vote_type.splits option.splits)
qed

text \<open>A proposal of another validator: its round is not one that the node leads.\<close>

lemma shc_handle_proposal_good:
  assumes "context_ok ctx (shc_height s) L" "height_ok L s T" "init_proposer init \<noteq> shc_id s"
  shows "good_result L T (shc_handle_proposal ctx s c init rx)"
proof -
  let ?r = "init_round init"
  let ?s = "s\<lparr>shc_proposals := (shc_proposals s)(?r \<mapsto> None)\<rparr>"
  have L: "proposer ctx c (shc_height s) ?r = L ?r" using assms(1) by (simp add: context_ok_def)
  note ok = assms(2)[unfolded height_ok_def]
  have "height_ok L ?s (T @ [TaskValidateProposal init x])"
    if "shc_proposals s ?r = None" "init_proposer init = L ?r" for x
  proof -
    note new = unrecorded_round[OF ok[THEN conjunct1] that(1)]
    have "L ?r \<noteq> shc_id s" using that(2) assms(3) by simp
    with ok new new(2)[unfolded proposal_rounds_iff] that(1)
    have "consistent L ?s (shc_state_machine s) (events_queue (shc_state_machine s)) (validate_rounds T @ [?r])"
      by (auto simp: consistent_defs precommit_voters_def)
    with ok show ?thesis by (auto simp: height_ok_def elim: task_ok_frame)
  qed
  with assms(2) show ?thesis
    by (auto simp: shc_handle_proposal_def Let_def L split: option.splits prod.splits)
qed

section \<open>Completed tasks\<close>

lemma consistent_timeout:
  "consistent L s m Q V \<Longrightarrow> is_timeout e \<Longrightarrow> e \<noteq> TimeoutPrecommit (-1) \<Longrightarrow> consistent L s m (Q @ [e]) V"
  by (cases e) (auto simp: consistent_defs)

lemma timeout_good:
  assumes "context_ok ctx (shc_height s) L" "height_ok L s (A @ t # B)" "is_timeout e" "e \<noteq> TimeoutPrecommit (-1)"
    and "build_rounds [t] = []" "validate_rounds [t] = []"
  shows "good_result L (A @ B) (feed_state_machine ctx s c e)"
proof (rule feed_state_machine_good[OF assms(1)])
  note ok = assms(2)[unfolded height_ok_def]
  show "list_all (task_ok s) (A @ B)" "build_rounds (A @ B) = pending_build (shc_state_machine s)"
    using ok assms(5) by simp_all
  show "\<not> is_GetProposal e" using assms(3) by (cases e) simp_all
  show "consistent L s (shc_state_machine s) (events_queue (shc_state_machine s) @ [e]) (validate_rounds (A @ B))"
    using ok assms(3,4,6) by (auto intro: consistent_timeout)
qed

lemma rebroadcast_good:
  assumes "context_ok ctx h L" "height_ok L s (A @ t # B)" "task_ok s t" "l \<noteq> None"
    and "build_rounds [t] = []" "validate_rounds [t] = []" "build_rounds [t'] = []" "validate_rounds [t'] = []" "task_ok s t'"
  shows "good_result L (A @ B) (rebroadcast ctx s c l r msg t')"
proof -
  have "height_ok L s (A @ B)" "height_ok L s ((A @ B) @ [t'])"
    using assms by (simp_all add: height_ok_def)
  with broadcast_cases[OF assms(1), of c "the l"] assms(4) show ?thesis
    by (auto simp: rebroadcast_def)
qed

lemma validated_proposal_good:
  assumes "context_ok ctx (shc_height s) L" "height_ok L s (A @ TaskValidateProposal init rx # B)"
  shows "good_result L (A @ B) (shc_handle_event ctx s c
    (shc_task_run (\<lambda>_. built) (\<lambda>_. validated) (TaskValidateProposal init rx)))"
proof -
  let ?r = "init_round init" and ?m = "shc_state_machine s"
  note ok = assms(2)[unfolded height_ok_def]
  define V where "V = validate_rounds A @ validate_rounds B"
  have c: "consistent L s ?m (events_queue ?m) (validate_rounds A @ ?r # validate_rounds B)"
    using ok by simp
  then have none: "shc_proposals s ?r = Some None" "?r \<notin> set V"
    by (auto simp: consistent_def proposals_recorded_def V_def)
  from c have "consistent L (s\<lparr>shc_proposals := (shc_proposals s)(?r \<mapsto> p)\<rparr>) ?m
      (events_queue ?m @ [Proposal p ?r (init_valid_round init)]) V" for p
    by (auto simp: consistent_defs precommit_voters_def V_def proposal_rounds_iff)
  then have fed: "good_result L (A @ B) (feed_state_machine ctx (s\<lparr>shc_proposals := (shc_proposals s)(?r \<mapsto> p)\<rparr>) c
      (Proposal p ?r (init_valid_round init)))" for p
    using ok assms(1) by (intro feed_state_machine_good) (auto simp: V_def elim: task_ok_frame)
  have "consistent L s ?m (events_queue ?m) V"
    using c by (auto simp: consistent_defs V_def)
  then have "height_ok L s (A @ B)" using ok by (simp add: height_ok_def V_def)
  with fed none(1) show ?thesis
    by (auto simp: shc_handle_event_def split: option.splits)
qed

lemma built_proposal_good:
  assumes "context_ok ctx (shc_height s) L" "height_ok L s (A @ TaskBuildProposal r rx # B)"
  shows "good_result L (A @ B) (shc_handle_event ctx s c (EvBuildProposal (GetProposal pid r)))"
proof -
  let ?m = "shc_state_machine s"
  note ok = assms(2)[unfolded height_ok_def]
  from ok have m: "awaiting_get_proposal ?m" "sm_round ?m = r" "build_rounds (A @ B) = []"
    by (auto simp: pending_build_def append_eq_Cons_conv split: if_splits)
  then have "shc_proposals s r = None"
    using ok by (auto simp: consistent_def proposals_recorded_def)
  moreover have "good_result L (A @ B) (feed_state_machine ctx (s\<lparr>shc_proposals := (shc_proposals s)(r \<mapsto> pid)\<rparr>) c (GetProposal pid r))"
    by (rule feed_built_proposal_good) (use ok m assms(1) in simp_all)
  ultimately show ?thesis by (simp add: shc_handle_event_def)
qed

fun last_round_timeout :: "shc_task \<Rightarrow> bool" where
  "last_round_timeout (TaskTimeoutPropose d e) = (e = TimeoutPrecommit (-1))"
| "last_round_timeout (TaskTimeoutPrevote d e) = (e = TimeoutPrecommit (-1))"
| "last_round_timeout (TaskTimeoutPrecommit d e) = (e = TimeoutPrecommit (-1))"
| "last_round_timeout _ = False"

lemma shc_handle_event_good:
  assumes "context_ok ctx (shc_height s) L" "height_ok L s (A @ t # B)" "\<not> last_round_timeout t"
  shows "good_result L (A @ B) (shc_handle_event ctx s c (shc_task_run (\<lambda>_. built) (\<lambda>_. validated) t))"
proof -
  have ok: "task_ok s t" using assms(2) by (simp add: height_ok_def)
  show ?thesis
  proof (cases t)
    case (TaskBuildProposal r rx)
    with built_proposal_good assms(1,2) show ?thesis by simp
  next
    case (TaskValidateProposal init rx)
    show ?thesis
      unfolding TaskValidateProposal by (rule validated_proposal_good) (use assms(1,2) TaskValidateProposal in simp_all)
  next
    case (TaskPrevote d e)
    with ok obtain pid r where "e = Prevote pid r" by (auto elim: is_Prevote.elims)
    with TaskPrevote ok show ?thesis
      by (auto simp: shc_handle_event_def intro!: rebroadcast_good[OF assms(1,2) ok])
  next
    case (TaskPrecommit d e)
    with ok obtain pid r where "e = Precommit pid r" by (auto elim: is_Precommit.elims)
    with TaskPrecommit ok show ?thesis
      by (auto simp: shc_handle_event_def intro!: rebroadcast_good[OF assms(1,2) ok])
  qed (use ok assms(3) in \<open>auto simp: shc_handle_event_def intro!: timeout_good[OF assms(1,2)]\<close>)
qed

section \<open>The start of a height\<close>

lemma fresh_upons:
  "current_round_upons ((sm_new i w obs)\<lparr>sm_round := 0, sm_step := StepPropose\<rparr>) =
     ((sm_new i w obs)\<lparr>sm_round := 0, sm_step := StepPropose\<rparr>, [])"
proof -
  have "unat (2 * w) < 2 ^ LENGTH(32)" by (rule unsigned_less)
  then have "unat (2 * w div 3) < 2 ^ 32 - 1" by (simp add: unat_div)
  then have "0 < (2 * w div 3 + 1 :: u32)"
    by (simp add: word_less_nat_alt unat_word_ariths)
  then show ?thesis
    by (simp add: current_round_upons.simps upon_new_proposal.simps upon_reproposal.simps
        upon_prevote_quorum.simps upon_nil_prevote_quorum.simps maybe_initiate_timeout_prevote_def
        maybe_initiate_timeout_precommit_def upon_decision_def sm_new_def round_has_enough_votes_def)
qed

lemma sm_start_fresh:
  "sm_start (sm_new i w obs) L =
     (if \<not> obs \<and> i = L 0
      then ((sm_new i w obs)\<lparr>sm_round := 0, sm_step := StepPropose, awaiting_get_proposal := True\<rparr>, [GetProposal None 0])
      else ((sm_new i w obs)\<lparr>sm_round := 0, sm_step := StepPropose\<rparr>, [TimeoutPropose 0]))"
proof -
  have "is_observer (sm_new i w obs) = obs" "sm_id (sm_new i w obs) = i" "valid_value_round (sm_new i w obs) = None"
    for i obs by (simp_all add: sm_new_def)
  then show ?thesis
    by (simp add: sm_start_def advance_to_round_def Let_def fresh_upons)
qed

lemma shc_start_good:
  assumes "context_ok ctx h L" "shc_new h obs i vs timeouts = Some s"
    and "distinct vs" "\<not> obs \<longrightarrow> i \<in> set vs"
  shows "good_result L [] (shc_start ctx s c)"
proof -
  define m where "m = sm_new i (word_of_nat (length vs)) obs"
  have s: "s = \<lparr>shc_height = h, shc_validators = vs, shc_id = i, shc_timeouts = timeouts, shc_state_machine = m,
      shc_proposals = Map.empty, shc_prevotes = Map.empty, shc_precommits = Map.empty,
      last_prevote = None, last_precommit = None\<rparr>"
    using assms(2) by (auto simp: shc_new_def m_def)
  obtain m' out where start: "sm_start m L = (m', out)" by force
  have cases: "\<not> obs \<and> i = L 0 \<and> m' = m\<lparr>sm_round := 0, sm_step := StepPropose, awaiting_get_proposal := True\<rparr> \<and> out = [GetProposal None 0]
    \<or> m' = m\<lparr>sm_round := 0, sm_step := StepPropose\<rparr> \<and> out = [TimeoutPropose 0]"
    using start sm_start_fresh[of i "word_of_nat (length vs)" obs L] by (simp add: m_def split: if_splits)
  have "consistent L (s\<lparr>shc_state_machine := m'\<rparr>) m' [] []"
    using cases assms(3,4)
    by (elim disjE) (simp_all add: s m_def consistent_defs sm_new_def precommit_count_def)
  moreover have "absorb_all (s\<lparr>shc_state_machine := m'\<rparr>) out = Some (s\<lparr>shc_state_machine := m'\<rparr>)"
    "events_queue m' = []" "built_rounds out = pending_build m'"
    using cases by (auto simp: m_def sm_new_def built_rounds_def pending_build_def)
  ultimately have "advances L (s\<lparr>shc_state_machine := m'\<rparr>) [] [] out m'"
    by (simp add: advances_def)
  with good_result_events[where h = h and L = L and s = s and m = m' and T = "[]" and out = out] assms(1) start show ?thesis
    using leader_fn_eq[of ctx s L] by (simp add: shc_start_def Let_def s)
qed

section \<open>The manager\<close>

text \<open>The methods keep the identity of the height.\<close>

definition keeps_identity :: "shc \<Rightarrow> ('c, 'a) shc_result \<Rightarrow> bool" where
  "keeps_identity s res \<longleftrightarrow> (\<forall>s' c' ret. res = Some ((s', c'), ret) \<longrightarrow>
     shc_id s' = shc_id s \<and> shc_height s' = shc_height s)"

lemma keeps_identity_simps [simp]:
  "keeps_identity s None"
  "keeps_identity s (Some ((s', c), ret)) \<longleftrightarrow> shc_id s' = shc_id s \<and> shc_height s' = shc_height s"
  "keeps_identity s (update_context ctx res) = keeps_identity s res"
  by (auto simp: keeps_identity_def update_context_def)

lemma keeps_identity_trans:
  "shc_id s1 = shc_id s \<Longrightarrow> shc_height s1 = shc_height s \<Longrightarrow> keeps_identity s1 res \<Longrightarrow> keeps_identity s res"
  unfolding keeps_identity_def by presburger

lemma keeps_identity_rs_try:
  assumes "keeps_identity s m"
    and "\<And>s' c' a. shc_id s' = shc_id s \<Longrightarrow> shc_height s' = shc_height s \<Longrightarrow> keeps_identity s (f (s', c') a)"
  shows "keeps_identity s (rs_try m f)"
proof (cases m)
  case (Some x)
  then obtain s' c' ret where x: "m = Some ((s', c'), ret)" by (metis prod.exhaust)
  with assms show ?thesis by (cases ret) auto
qed simp

lemma handle_state_machine_vote_identity: "keeps_identity s (handle_state_machine_vote ctx s c pid r t)"
  by (cases t) (auto simp: handle_state_machine_vote_def record_own_vote_def Let_def
      split: option.splits sum.splits prod.splits)

lemma handle_state_machine_events_loop_identity:
  "keeps_identity s (handle_state_machine_events_loop ctx s c ret events)"
proof (induction events arbitrary: s c ret)
  case (Cons e es)
  show ?case
  proof (cases e)
    case (GetProposal pid r)
    then show ?thesis
      using Cons.IH by (cases "handle_state_machine_get_proposal ctx s c pid r") auto
  next
    case (Proposal pid r vr)
    have "keeps_identity s (handle_state_machine_events_loop ctx s' c' ret es)"
      if "handle_state_machine_proposal ctx s c pid r vr = Some (s', c')" for s' c'
      using handle_state_machine_proposal_frame[OF that] by (auto intro: keeps_identity_trans[OF _ _ Cons.IH])
    with Proposal show ?thesis
      by (cases "handle_state_machine_proposal ctx s c pid r vr") auto
  next
    case (Decision pid r)
    then show ?thesis
      by (auto simp: handle_state_machine_decision_def Let_def split: option.splits)
  qed (use Cons.IH in \<open>auto intro!: keeps_identity_rs_try handle_state_machine_vote_identity
        intro: keeps_identity_trans[OF _ _ Cons.IH]\<close>)
qed simp

lemma feed_state_machine_identity: "keeps_identity s (feed_state_machine ctx s c e)"
  by (cases "handle_event (shc_state_machine s) e (leader_fn ctx s c)")
    (auto simp: feed_state_machine_def handle_state_machine_events_def
      intro: keeps_identity_trans[OF _ _ handle_state_machine_events_loop_identity])

lemma shc_identity:
  "keeps_identity s (shc_start ctx s c)"
  "keeps_identity s (shc_handle_proposal ctx s c init rx)"
  "keeps_identity s (shc_handle_vote ctx s c v)"
  "keeps_identity s (shc_handle_event ctx s c event)"
proof -
  note trans = keeps_identity_trans[OF _ _ feed_state_machine_identity]
  show "keeps_identity s (shc_start ctx s c)"
    by (auto simp: shc_start_def Let_def handle_state_machine_events_def split: prod.splits
        intro: keeps_identity_trans[OF _ _ handle_state_machine_events_loop_identity])
  show "keeps_identity s (shc_handle_proposal ctx s c init rx)"
    by (auto simp: shc_handle_proposal_def Let_def split: option.splits prod.splits)
  show "keeps_identity s (shc_handle_vote ctx s c v)"
    by (auto simp: shc_handle_vote_def Let_def split: option.splits vote_type.splits intro: trans)
  show "keeps_identity s (shc_handle_event ctx s c event)"
    by (auto simp: shc_handle_event_def rebroadcast_def rs_assert_def
        split: shc_event.splits state_machine_event.splits option.splits prod.splits sum.splits Option.bind_splits
        intro: trans)
qed

text \<open>No message that the manager keeps for later is in the name of the node.\<close>

definition manager_honest :: "'p manager \<Rightarrow> bool" where
  "manager_honest mg \<longleftrightarrow>
     (\<forall>(h, votes) \<in> set (future_votes mg). \<forall>v \<in> set votes. vote_voter v \<noteq> mg_validator_id mg) \<and>
     (\<forall>(h, props) \<in> set (cached_proposals mg). \<forall>(r, init, rx) \<in> set props. init_proposer init \<noteq> mg_validator_id mg)"

text \<open>The state of a height that the manager works with.\<close>

definition node_ok ::
    "block_number \<Rightarrow> (round \<Rightarrow> validator_id) \<Rightarrow> 'p manager \<Rightarrow> shc \<Rightarrow> shc_task list \<Rightarrow> bool" where
  "node_ok h L mg s T \<longleftrightarrow> manager_honest mg \<and> shc_id s = mg_validator_id mg \<and> shc_height s = h \<and> height_ok L s T"

definition good_manager_result ::
    "block_number \<Rightarrow> (round \<Rightarrow> validator_id) \<Rightarrow> shc_task list \<Rightarrow> ('c, 'p) manager_result \<Rightarrow> bool" where
  "good_manager_result h L T res \<longleftrightarrow>
     (\<exists>mg s c ret. res = Some ((mg, s, c), ret) \<and> manager_honest mg \<and>
        (\<forall>e. ret = Inl e \<longrightarrow> external_error e) \<and>
        (\<forall>new. ret = Inr (Tasks new) \<longrightarrow> node_ok h L mg s (T @ new)))"

lemma good_manager_result_with_manager:
  assumes "good_result L T res" "keeps_identity s res" "manager_honest mg" "shc_id s = mg_validator_id mg" "shc_height s = h"
  shows "good_manager_result h L T (with_manager mg res)"
proof (cases res)
  case (Some x)
  then obtain s' c ret where x: "res = Some ((s', c), ret)" by (metis prod.exhaust)
  with assms show ?thesis
    by (cases ret rule: sum.exhaust; cases "projr ret")
      (auto simp: good_manager_result_def with_manager_def node_ok_def)
qed (use assms in simp)

lemma good_manager_result_rs_try:
  assumes "good_manager_result h L T m"
    and "\<And>mg s c new. node_ok h L mg s (T @ new) \<Longrightarrow> good_manager_result h L [] (f (mg, s, c) (Tasks new))"
    and "\<And>mg s c d. f (mg, s, c) (ShcDecision d) = Some ((mg, s, c), Inr (ShcDecision d))"
  shows "good_manager_result h L [] (rs_try m f)"
proof -
  from assms(1) obtain mg s c ret where m: "m = Some ((mg, s, c), ret)" "manager_honest mg"
    "\<forall>e. ret = Inl e \<longrightarrow> external_error e" "\<forall>new. ret = Inr (Tasks new) \<longrightarrow> node_ok h L mg s (T @ new)"
    by (auto simp: good_manager_result_def)
  show ?thesis
  proof (cases ret)
    case (Inl e)
    with m show ?thesis by (auto simp: good_manager_result_def)
  next
    case (Inr r)
    with m assms(2,3) show ?thesis
      by (cases r) (auto simp: good_manager_result_def)
  qed
qed

lemma handle_cached_good:
  assumes "\<And>s c m T. height_ok L s T \<Longrightarrow> shc_id s = i \<Longrightarrow> shc_height s = h \<Longrightarrow> m \<in> set ms \<Longrightarrow>
      good_result L T (handle s c m) \<and> keeps_identity s (handle s c m)"
    and "height_ok L s tasks" "shc_id s = i" "shc_height s = h"
  shows "good_result L [] (handle_cached handle s c tasks ms) \<and> keeps_identity s (handle_cached handle s c tasks ms)"
  using assms
proof (induction ms arbitrary: s c tasks)
  case (Cons m ms)
  have m: "good_result L tasks (handle s c m)" "keeps_identity s (handle s c m)"
    using Cons.prems(1)[OF Cons.prems(2-4), of m c] by simp_all
  show ?case
  proof (cases "handle s c m")
    case (Some x)
    then obtain s' c' ret where x: "handle s c m = Some ((s', c'), ret)" by (metis prod.exhaust)
    with m(2) have s': "shc_id s' = shc_id s" "shc_height s' = shc_height s" by simp_all
    show ?thesis
    proof (cases "\<exists>new. ret = Inr (Tasks new)")
      case True
      then obtain new where ret: "ret = Inr (Tasks new)" by blast
      have "good_result L [] (handle_cached handle s' c' (tasks @ new) ms) \<and>
          keeps_identity s' (handle_cached handle s' c' (tasks @ new) ms)"
      proof (rule Cons.IH)
        show "height_ok L s' (tasks @ new)" using m(1) x ret by simp
        show "shc_id s' = i" "shc_height s' = h" using s' Cons.prems(3,4) by simp_all
      qed (rule Cons.prems(1), simp_all)
      then show ?thesis
        using x ret by (auto intro: keeps_identity_trans[OF s'])
    next
      case False
      with m(1) x s' show ?thesis
        by (cases ret rule: sum.exhaust; cases "projr ret") auto
    qed
  qed (use m(1) in simp)
qed simp

lemma get_current_height_proposals_in:
  assumes "get_current_height_proposals m h = (ps, rest)"
  shows "set rest \<subseteq> set m" "p \<in> set ps \<Longrightarrow> \<exists>k props r. (k, props) \<in> set m \<and> (r, p) \<in> set props"
proof -
  have "set rest \<subseteq> set m \<and> (p \<in> set ps \<longrightarrow> (\<exists>k props r. (k, props) \<in> set m \<and> (r, p) \<in> set props))"
    using assms
  proof (induction m h rule: get_current_height_proposals.induct)
    case (2 k submap m h)
    consider "h < k" | "h = k" | "k < h" by (rule linorder_cases)
    then show ?case
    proof cases
      case 2
      with "2.prems" show ?thesis by auto (metis surj_pair)
    next
      case 3
      then have k: "\<not> h < k" "k \<noteq> h" by auto
      with "2.prems" "2.IH"[OF k] show ?thesis by auto
    qed (use "2.prems" in auto)
  qed simp
  then show "set rest \<subseteq> set m" "p \<in> set ps \<Longrightarrow> \<exists>k props r. (k, props) \<in> set m \<and> (r, p) \<in> set props" by blast+
qed

lemma get_current_height_votes_in:
  assumes "get_current_height_votes m h = (vs, rest)"
  shows "set rest \<subseteq> set m" "v \<in> set vs \<Longrightarrow> \<exists>k votes. (k, votes) \<in> set m \<and> v \<in> set votes"
proof -
  have "set rest \<subseteq> set m \<and> (v \<in> set vs \<longrightarrow> (\<exists>k votes. (k, votes) \<in> set m \<and> v \<in> set votes))"
    using assms
  proof (induction m h rule: get_current_height_votes.induct)
    case (2 k votes m h)
    consider "h < k" | "h = k" | "k < h" by (rule linorder_cases)
    then show ?case
    proof cases
      case 3
      then have k: "\<not> h < k" "k \<noteq> h" by auto
      with "2.prems" "2.IH"[OF k] show ?thesis by auto
    qed (use "2.prems" in auto)
  qed simp
  then show "set rest \<subseteq> set m" "v \<in> set vs \<Longrightarrow> \<exists>k votes. (k, votes) \<in> set m \<and> v \<in> set votes" by blast+
qed

lemma manager_honest_cached:
  assumes "manager_honest mg"
  shows "get_current_height_proposals (cached_proposals mg) h = (ps, rest) \<Longrightarrow>
      manager_honest (mg\<lparr>cached_proposals := rest\<rparr>) \<and> (\<forall>(init, rx) \<in> set ps. init_proposer init \<noteq> mg_validator_id mg)"
    and "get_current_height_votes (future_votes mg) h = (vs, rest') \<Longrightarrow>
      manager_honest (mg\<lparr>future_votes := rest'\<rparr>) \<and> (\<forall>v \<in> set vs. vote_voter v \<noteq> mg_validator_id mg)"
proof -
  assume g: "get_current_height_proposals (cached_proposals mg) h = (ps, rest)"
  have "init_proposer init \<noteq> mg_validator_id mg" if "(init, rx) \<in> set ps" for init rx
    using assms get_current_height_proposals_in(2)[OF g that] by (fastforce simp: manager_honest_def)
  with assms get_current_height_proposals_in(1)[OF g]
  show "manager_honest (mg\<lparr>cached_proposals := rest\<rparr>) \<and> (\<forall>(init, rx) \<in> set ps. init_proposer init \<noteq> mg_validator_id mg)"
    unfolding manager_honest_def by (simp; blast)
next
  assume g: "get_current_height_votes (future_votes mg) h = (vs, rest')"
  have "vote_voter v \<noteq> mg_validator_id mg" if "v \<in> set vs" for v
    using assms get_current_height_votes_in(2)[OF g that] by (fastforce simp: manager_honest_def)
  with assms get_current_height_votes_in(1)[OF g]
  show "manager_honest (mg\<lparr>future_votes := rest'\<rparr>) \<and> (\<forall>v \<in> set vs. vote_voter v \<noteq> mg_validator_id mg)"
    unfolding manager_honest_def by (simp; blast)
qed

lemma cached_proposals_good:
  assumes "context_ok ctx h L" "node_ok h L mg s tasks"
    and "get_current_height_proposals (cached_proposals mg) h = (ps, rest)"
  shows "good_manager_result h L [] (with_manager (mg\<lparr>cached_proposals := rest\<rparr>)
    (handle_cached (\<lambda>s c (init, rx). shc_handle_proposal ctx s c init rx) s c tasks ps))"
proof -
  let ?f = "\<lambda>s c (init, rx). shc_handle_proposal ctx s c init rx"
  have n: "manager_honest mg" "shc_id s = mg_validator_id mg" "shc_height s = h" "height_ok L s tasks"
    using assms(2) by (simp_all add: node_ok_def)
  note mg' = manager_honest_cached(1)[OF n(1) assms(3)]
  have "good_result L [] (handle_cached ?f s c tasks ps) \<and> keeps_identity s (handle_cached ?f s c tasks ps)"
  proof (rule handle_cached_good[where i = "mg_validator_id mg" and h = h])
    fix s c p T
    assume a: "height_ok L s T" "shc_id s = mg_validator_id mg" "shc_height s = h" "p \<in> set ps"
    then have "init_proposer (fst p) \<noteq> shc_id s" using mg' by (cases p) auto
    with a assms(1) shc_handle_proposal_good[of ctx s L T "fst p" c "snd p"] shc_identity(2)[of s ctx c "fst p" "snd p"]
    show "good_result L T (?f s c p) \<and> keeps_identity s (?f s c p)" by (cases p) simp
  qed (use n in simp_all)
  with n mg' show ?thesis
    by (intro good_manager_result_with_manager[of _ _ _ s]) simp_all
qed

lemma cached_votes_good:
  assumes "context_ok ctx h L" "node_ok h L mg s tasks"
    and "get_current_height_votes (future_votes mg) h = (vs, rest)"
  shows "good_manager_result h L [] (with_manager (mg\<lparr>future_votes := rest\<rparr>)
    (handle_cached (shc_handle_vote ctx) s c tasks vs))"
proof -
  have n: "manager_honest mg" "shc_id s = mg_validator_id mg" "shc_height s = h" "height_ok L s tasks"
    using assms(2) by (simp_all add: node_ok_def)
  note mg' = manager_honest_cached(2)[OF n(1) assms(3)]
  have "good_result L [] (handle_cached (shc_handle_vote ctx) s c tasks vs) \<and>
      keeps_identity s (handle_cached (shc_handle_vote ctx) s c tasks vs)"
  proof (rule handle_cached_good[where i = "mg_validator_id mg" and h = h])
    fix s c v T
    assume a: "height_ok L s T" "shc_id s = mg_validator_id mg" "shc_height s = h" "v \<in> set vs"
    with mg' assms(1) shc_handle_vote_good[of ctx s L T v c] shc_identity(3)[of s ctx c v]
    show "good_result L T (shc_handle_vote ctx s c v) \<and> keeps_identity s (shc_handle_vote ctx s c v)" by simp
  qed (use n in simp_all)
  with n mg' show ?thesis
    by (intro good_manager_result_with_manager[of _ _ _ s]) simp_all
qed

lemma start_height_good:
  assumes "context_ok ctx h L" "manager_honest mg" "shc_id s = mg_validator_id mg" "shc_height s = h"
    and "good_result L [] (shc_start ctx s c)"
  shows "good_manager_result h L [] (start_height ctx mg c h s)"
  unfolding start_height_def
proof (rule good_manager_result_rs_try[OF good_manager_result_with_manager[OF assms(5) shc_identity(1) assms(2-4)]],
    goal_cases)
  case (1 mg s c tasks)
  obtain ps rest where g: "get_current_height_proposals (cached_proposals mg) h = (ps, rest)" by force
  show ?case
    unfolding g shc_return.case Let_def prod.case
  proof (rule good_manager_result_rs_try[OF cached_proposals_good[OF assms(1) _ g]], goal_cases)
    case (2 mg s c tasks)
    obtain vs rest where v: "get_current_height_votes (future_votes mg) h = (vs, rest)" by force
    show ?case using cached_votes_good[OF assms(1) _ v] 2 by (simp add: v)
  qed (use 1 in simp_all)
qed simp

section \<open>Runs\<close>

lemma manager_handle_vote_good:
  assumes "context_ok ctx h L" "node_ok h L mg s T"
    and "\<And>v. message = Some (Inr v) \<Longrightarrow> vote_voter v \<noteq> mg_validator_id mg"
  shows "good_manager_result h L T (manager_handle_vote ctx mg c h s message)"
proof -
  have n: "manager_honest mg" "shc_id s = mg_validator_id mg" "shc_height s = h" "height_ok L s T"
    using assms(2) by (simp_all add: node_ok_def)
  have keep: "manager_honest (mg\<lparr>future_votes := btm_insert (vote_height v)
      (entry_or_default (future_votes mg) (vote_height v) @ [v]) (future_votes mg)\<rparr>)"
    if "message = Some (Inr v)" for v
    using n(1) assms(3)[OF that] btm_insert_subset[of "vote_height v"
        "entry_or_default (future_votes mg) (vote_height v) @ [v]" "future_votes mg"]
      entry_or_default_in[of _ "future_votes mg" "vote_height v"]
    by (fastforce simp: manager_honest_def)
  have deliver: "good_manager_result h L T (with_manager mg (shc_handle_vote ctx s c v))"
    if "message = Some (Inr v)" for v
    using assms(1) n assms(3)[OF that]
    by (intro good_manager_result_with_manager[OF shc_handle_vote_good shc_identity(3)]) simp_all
  show ?thesis
  proof (cases message rule: option.exhaust; cases "the message")
    fix x v
    assume "message = Some x" "the message = Inr v"
    then have m: "message = Some (Inr v)" by simp
    with n keep[OF m] deliver[OF m] show ?thesis
      by (auto simp: manager_handle_vote_def good_manager_result_def node_ok_def)
  qed (auto simp: manager_handle_vote_def good_manager_result_def n)
qed

fun honest_stream :: "('c, 'p) consensus_context \<Rightarrow> validator_id \<Rightarrow> 'p mpsc_receiver \<Rightarrow> bool" where
  "honest_stream ctx i rx =
     (case mpsc_queue rx of
        [] \<Rightarrow> True
      | part # _ \<Rightarrow> (case part_into_init ctx part of Inl _ \<Rightarrow> True | Inr init \<Rightarrow> init_proposer init \<noteq> i))"

lemma manager_handle_proposal_good:
  assumes "context_ok ctx h L" "node_ok h L mg s T" "honest_stream ctx (mg_validator_id mg) rx"
  shows "good_manager_result h L T (manager_handle_proposal ctx mg c h s rx)"
proof -
  have n: "manager_honest mg" "shc_id s = mg_validator_id mg" "shc_height s = h" "height_ok L s T"
    using assms(2) by (simp_all add: node_ok_def)
  show ?thesis
  proof (cases "\<exists>part ps init. mpsc_queue rx = part # ps \<and> part_into_init ctx part = Inr init")
    case True
    then obtain part ps init where rx: "mpsc_queue rx = part # ps" "part_into_init ctx part = Inr init" by blast
    with assms(3) have honest: "init_proposer init \<noteq> mg_validator_id mg" by simp
    have keep: "manager_honest (mg\<lparr>cached_proposals := btm_insert (init_height init) props (cached_proposals mg)\<rparr>)"
      if "set props \<subseteq> insert (init_round init, init, rx') (set (entry_or_default (cached_proposals mg) (init_height init)))"
      for props rx'
      using n(1) honest that btm_insert_subset[of "init_height init" props "cached_proposals mg"]
        entry_or_default_in[of _ "cached_proposals mg" "init_height init"]
      unfolding manager_honest_def by fastforce
    have deliver: "good_manager_result h L T (with_manager mg (shc_handle_proposal ctx s c init rx'))" for rx'
      using assms(1) n honest
      by (intro good_manager_result_with_manager[OF shc_handle_proposal_good shc_identity(2)]) simp_all
    show ?thesis
      using rx n deliver keep[OF btm_insert_subset] keep[OF subset_insertI]
      by (auto simp: manager_handle_proposal_def mpsc_try_next_def Let_def good_manager_result_def node_ok_def
          split: option.splits)
  qed (auto simp: manager_handle_proposal_def mpsc_try_next_def good_manager_result_def n
      split: list.splits sum.splits)
qed

fun honest_input :: "('c, 'p) consensus_context \<Rightarrow> ('c, 'p) height_state \<Rightarrow> 'p height_input \<Rightarrow> bool" where
  "honest_input ctx st (VoteMessage (Some (Inr v))) = (vote_voter v \<noteq> mg_validator_id (hs_manager st))"
| "honest_input ctx st (ProposalStream rx) = honest_stream ctx (mg_validator_id (hs_manager st)) rx"
| "honest_input ctx st (TaskDone i built validated) =
     (i < length (hs_events st) \<longrightarrow> \<not> last_round_timeout (hs_events st ! i))"
| "honest_input ctx st _ = True"

text \<open>Along a run, no message is in the name of the node, and the precommit timeout of the round
  \<^verbatim>\<open>u32::MAX\<close>, which has no successor, does not run out.\<close>

fun honest_run :: "('c, 'p) consensus_context \<Rightarrow> block_number \<Rightarrow> ('c, 'p) height_outcome option \<Rightarrow> 'p height_input list \<Rightarrow> bool" where
  "honest_run ctx h (Some (Running st)) (input # inputs) =
     (honest_input ctx st input \<and> honest_run ctx h (run_height_step ctx h st input) inputs)"
| "honest_run ctx h _ _ = True"

definition good_outcome :: "block_number \<Rightarrow> (round \<Rightarrow> validator_id) \<Rightarrow> ('c, 'p) height_outcome option \<Rightarrow> bool" where
  "good_outcome h L out \<longleftrightarrow>
     (\<exists>st. out = Some (Running st) \<and> node_ok h L (hs_manager st) (hs_shc st) (hs_events st)) \<or>
     (\<exists>mg c e. out = Some (Returned mg c (Inl e)) \<and> external_error e \<and> manager_honest mg) \<or>
     (\<exists>mg c r. out = Some (Returned mg c (Inr r)) \<and> manager_honest mg)"

lemma after_return_good:
  assumes "good_manager_result h L T res"
  shows "good_outcome h L (after_return T res)"
proof -
  from assms obtain mg s c ret where r: "res = Some ((mg, s, c), ret)" "manager_honest mg"
    "\<forall>e. ret = Inl e \<longrightarrow> external_error e" "\<forall>new. ret = Inr (Tasks new) \<longrightarrow> node_ok h L mg s (T @ new)"
    by (auto simp: good_manager_result_def)
  then show ?thesis
    by (cases ret rule: sum.exhaust; cases "projr ret") (auto simp: good_outcome_def after_return_def)
qed

lemma run_height_step_good:
  assumes "context_ok ctx h L" "node_ok h L (hs_manager st) (hs_shc st) (hs_events st)" "honest_input ctx st input"
  shows "good_outcome h L (run_height_step ctx h st input)"
proof (cases input)
  case (VoteMessage message)
  have "\<And>v. message = Some (Inr v) \<Longrightarrow> vote_voter v \<noteq> mg_validator_id (hs_manager st)"
    using assms(3) VoteMessage by auto
  from after_return_good[OF manager_handle_vote_good[OF assms(1,2) this]] VoteMessage show ?thesis
    by (simp add: run_height_step_def Let_def)
next
  case (ProposalStream rx)
  with after_return_good[OF manager_handle_proposal_good[OF assms(1,2)]] assms(3) show ?thesis
    by (simp add: run_height_step_def Let_def)
next
  case (TaskDone i built validated)
  have n: "manager_honest (hs_manager st)" "shc_id (hs_shc st) = mg_validator_id (hs_manager st)"
    "shc_height (hs_shc st) = h" "height_ok L (hs_shc st) (hs_events st)"
    using assms(2) by (simp_all add: node_ok_def)
  show ?thesis
  proof (cases "i < length (hs_events st)")
    case True
    let ?A = "take i (hs_events st)" and ?t = "hs_events st ! i" and ?B = "drop (Suc i) (hs_events st)"
    have "height_ok L (hs_shc st) (?A @ ?t # ?B)" using n(4) id_take_nth_drop[OF True] by simp
    from shc_handle_event_good[OF _ this] assms(1,3) n(3) True TaskDone
    have "good_result L (?A @ ?B) (shc_handle_event ctx (hs_shc st) (hs_context st)
        (shc_task_run (\<lambda>_. built) (\<lambda>_. validated) ?t))" by simp
    from after_return_good[OF good_manager_result_with_manager[OF this shc_identity(4) n(1-3)]] True TaskDone
    show ?thesis by (simp add: run_height_step_def Let_def)
  qed (use assms(2) TaskDone in \<open>simp add: run_height_step_def Let_def good_outcome_def\<close>)
next
  case SyncTimer
  with assms(2) show ?thesis
    by (auto simp: run_height_step_def Let_def good_outcome_def node_ok_def split: prod.splits bool.splits)
qed

lemma run_height_loop_good:
  assumes "context_ok ctx h L" "good_outcome h L (Some out)" "honest_run ctx h (Some out) inputs"
  shows "good_outcome h L (run_height_loop ctx h out inputs)"
  using assms(2,3)
proof (induction inputs arbitrary: out)
  case Nil
  then show ?case by (cases out) auto
next
  case (Cons input inputs)
  show ?case
  proof (cases out)
    case (Running st)
    with Cons.prems(1) have "node_ok h L (hs_manager st) (hs_shc st) (hs_events st)"
      by (simp add: good_outcome_def)
    from run_height_step_good[OF assms(1) this, of input] Cons.prems(2) Running
    have step: "good_outcome h L (run_height_step ctx h st input)" by simp
    then obtain out' where out': "run_height_step ctx h st input = Some out'"
      by (auto simp: good_outcome_def)
    with Cons.IH[of out'] step Cons.prems(2) Running show ?thesis by simp
  qed (use Cons.prems(1) in simp)
qed

lemma run_height_start_good:
  assumes "context_ok ctx h L" "manager_honest mg"
    and "distinct (ctx_validators ctx c h)" "int (length (ctx_validators ctx c h)) < 2 ^ 32"
  shows "good_outcome h L (run_height ctx mg c h must_observer [])"
proof -
  let ?vs = "ctx_validators ctx c h" and ?i = "mg_validator_id mg"
  let ?obs = "must_observer \<or> ?i \<notin> set ?vs"
  obtain s where s: "shc_new h ?obs ?i ?vs (mg_timeouts mg) = Some s" "shc_id s = ?i" "shc_height s = h"
    using assms(4) by (auto simp: shc_new_def)
  have "good_result L [] (shc_start ctx s c)"
    by (rule shc_start_good[OF assms(1) s(1) assms(3)]) simp
  from after_return_good[OF start_height_good[OF assms(1,2) s(2,3) this]]
  have "good_outcome h L (after_return [] (start_height ctx mg c h s))" .
  moreover have "run_height_loop ctx h out [] = Some out" for out :: "('a, 'b) height_outcome"
    by (cases out) simp_all
  ultimately show ?thesis
    using s(1) by (auto simp: run_height_def Let_def good_outcome_def)
qed

lemma run_height_append:
  "run_height ctx mg c h obs inputs = run_height ctx mg c h obs [] \<bind> (\<lambda>out. run_height_loop ctx h out inputs)"
proof -
  have "run_height_loop ctx h out [] = Some out" for out :: "('a, 'b) height_outcome"
    by (cases out) simp_all
  then show ?thesis
    by (auto simp: run_height_def Let_def split: Option.bind_splits)
qed

section \<open>The property\<close>

text \<open>C38: A height of consensus holds together: if no message arrives in the node's own name (and the node does
  not pass the round \<^verbatim>\<open>u32::MAX\<close>), then whatever else arrives and however tasks and messages are
  interleaved, no assertion of the height or of its state machine fails, and the height never returns
  \<^verbatim>\<open>InternalInconsistency\<close> or \<^verbatim>\<open>InvalidEvent\<close>. The same then holds for the next height. (The proposer of a round
  is fixed, sending fails with errors of the network only, and the validators are a set.)\<close>

theorem height_is_internally_consistent:
  assumes "context_ok ctx h L" "manager_honest mg"
    and "distinct (ctx_validators ctx c h)" "int (length (ctx_validators ctx c h)) < 2 ^ 32"
    and "honest_run ctx h (run_height ctx mg c h must_observer []) inputs"
  shows "\<exists>out. run_height ctx mg c h must_observer inputs = Some out \<and>
    (case out of
       Running st \<Rightarrow> manager_honest (hs_manager st)
     | Returned mg' c' (Inl e) \<Rightarrow> external_error e \<and> manager_honest mg'
     | Returned mg' c' (Inr r) \<Rightarrow> manager_honest mg')"
proof -
  note start = run_height_start_good[OF assms(1-4), of must_observer]
  then obtain out0 where out0: "run_height ctx mg c h must_observer [] = Some out0"
    by (auto simp: good_outcome_def)
  from run_height_loop_good[OF assms(1) start[unfolded out0] assms(5)[unfolded out0]] show ?thesis
    by (auto simp: run_height_append[of ctx mg c h must_observer inputs] out0 good_outcome_def node_ok_def)
qed

lemma sample_height_honest:
  "honest_run sample_context 5 (run_height sample_context (manager_new 1 sample_timeouts) 0 5 False []) sample_height"
  by code_simp

theorem height_is_internally_consistent_witness:
  "\<exists>out. run_height sample_context (manager_new 1 sample_timeouts) 0 5 False sample_height = Some out \<and>
    (case out of
       Running st \<Rightarrow> manager_honest (hs_manager st)
     | Returned mg' c' (Inl e) \<Rightarrow> external_error e \<and> manager_honest mg'
     | Returned mg' c' (Inr r) \<Rightarrow> manager_honest mg')"
proof (rule height_is_internally_consistent[where L = "\<lambda>_. 0"])
  show "context_ok sample_context 5 (\<lambda>_. 0)" by (simp add: context_ok_def sample_context_def)
qed (rule sample_height_honest | simp add: sample_context_def manager_honest_def manager_new_def)+

end
