(* ===== verification/Hash_Map.thy ===== *)
theory Hash_Map
  imports Sequencer_Prelude
begin

text \<open>
  A \<^verbatim>\<open>HashMap\<close> that the code iterates over: an association list with distinct keys
  (\<open>hm_ok\<close>), in some order of iteration. Lookup is \<open>map_of\<close>; \<open>insert\<close> is \<open>AList.update\<close> and
  \<open>remove\<close> is \<open>AList.delete\<close> from the library.
\<close>

abbreviation hm_ok :: "('k \<times> 'v) list \<Rightarrow> bool" where
  "hm_ok m \<equiv> distinct (map fst m)"

fun hm_extend :: "('k \<times> 'v) list \<Rightarrow> ('k \<times> 'v) list \<Rightarrow> ('k \<times> 'v) list" where
  "hm_extend m [] = m"
| "hm_extend m ((k, v) # n) = hm_extend (AList.update k v m) n"

lemma hm_extend_append: "hm_extend m (n @ n') = hm_extend (hm_extend m n) n'"
  by (induction m n rule: hm_extend.induct) auto

lemma map_of_hm_extend_notin:
  "k \<notin> fst ` set n \<Longrightarrow> map_of (hm_extend m n) k = map_of m k"
  by (induction m n rule: hm_extend.induct) (auto simp: update_conv')

lemma map_of_hm_extend [simp]:
  "hm_ok n \<Longrightarrow> map_of (hm_extend m n) = map_of m ++ map_of n"
proof (induction m n rule: hm_extend.induct)
  case (2 m k v n)
  then show ?case
    by (auto simp: update_conv' fun_eq_iff map_add_def split: option.splits
      dest!: map_of_SomeD intro: rev_image_eqI)
qed simp

lemma hm_ok_extend [simp]: "hm_ok m \<Longrightarrow> hm_ok (hm_extend m n)"
  by (induction m n rule: hm_extend.induct) (auto simp: distinct_update)

lemma hm_ok_update [simp]: "hm_ok m \<Longrightarrow> hm_ok (AList.update k v m)"
  by (rule distinct_update)

lemma hm_ok_filter [simp]: "hm_ok m \<Longrightarrow> hm_ok (filter P m)"
  by (rule distinct_map_filter)

lemma map_of_filter_pair:
  "hm_ok m \<Longrightarrow> map_of (filter P m) k = (case map_of m k of Some v \<Rightarrow> if P (k, v) then Some v else None | None \<Rightarrow> None)"
  by (induction m) (force split: option.splits dest: map_of_SomeD)+

text \<open>A property of all entries.\<close>

definition hm_all :: "('k \<Rightarrow> 'v \<Rightarrow> bool) \<Rightarrow> ('k \<times> 'v) list \<Rightarrow> bool" where
  "hm_all P m \<longleftrightarrow> (\<forall>k v. map_of m k = Some v \<longrightarrow> P k v)"

lemma hm_all_Nil [simp]: "hm_all P []"
  by (simp add: hm_all_def)

lemma hm_allD: "hm_all P m \<Longrightarrow> map_of m k = Some v \<Longrightarrow> P k v"
  by (simp add: hm_all_def)

lemma hm_all_mono: "hm_all P m \<Longrightarrow> (\<And>k v. P k v \<Longrightarrow> Q k v) \<Longrightarrow> hm_all Q m"
  by (simp add: hm_all_def)

lemma hm_all_update:
  assumes "map_of m k = None"
  shows "hm_all P (AList.update k v m) \<longleftrightarrow> hm_all P m \<and> P k v"
proof
  assume a: "hm_all P (AList.update k v m)"
  have "P k' v'" if "map_of m k' = Some v'" for k' v'
    using that assms by (intro hm_allD[OF a]) (auto simp: update_conv')
  with hm_allD[OF a, of k v] show "hm_all P m \<and> P k v" by (simp add: hm_all_def update_conv')
qed (auto simp: hm_all_def update_conv' split: if_splits)

section \<open>Differences of mappings\<close>

text \<open>\<^verbatim>\<open>blockifier/src/utils.rs\<close>; the strict version panics on a key that the subtracted mapping
  does not have.\<close>

definition subtract_mappings :: "('k \<times> 'v) list \<Rightarrow> ('k \<times> 'v) list \<Rightarrow> ('k \<times> 'v) list" where
  "subtract_mappings source subtract = filter (\<lambda>(k, v). map_of subtract k \<noteq> Some v) source"

fun strict_subtract_mappings ::
    "('k \<times> 'v) list \<Rightarrow> ('k \<times> 'v) list \<Rightarrow> ('k \<times> 'v) list option" where
  "strict_subtract_mappings [] subtract = Some []"
| "strict_subtract_mappings ((k, v) # source) subtract =
     (case map_of subtract k of
        None \<Rightarrow> None
      | Some w \<Rightarrow> do {
          rest \<leftarrow> strict_subtract_mappings source subtract;
          Some (if w \<noteq> v then (k, v) # rest else rest) })"

lemma strict_subtract_eq:
  "strict_subtract_mappings m n =
     (if fst ` set m \<subseteq> dom (map_of n) then Some (subtract_mappings m n) else None)"
  by (induction m n rule: strict_subtract_mappings.induct)
    (auto simp: subtract_mappings_def split: option.splits bind_splits)

lemma map_of_subtract:
  "hm_ok m \<Longrightarrow> map_of (subtract_mappings m n) k =
     (case map_of m k of Some v \<Rightarrow> if map_of n k = Some v then None else Some v | None \<Rightarrow> None)"
  by (simp add: subtract_mappings_def map_of_filter_pair split: option.splits)

lemma hm_ok_subtract [simp]: "hm_ok m \<Longrightarrow> hm_ok (subtract_mappings m n)"
  by (simp add: subtract_mappings_def)

lemma hm_ok_strict_subtract: "hm_ok m \<Longrightarrow> strict_subtract_mappings m n = Some d \<Longrightarrow> hm_ok d"
  by (auto simp: strict_subtract_eq split: if_splits)

end
