(* ===== verification/Patricia_Types.thy ===== *)
theory Patricia_Types
  imports Hash_Map
begin

text \<open>
  \<^verbatim>\<open>starknet_patricia/src/patricia_merkle_tree/types.rs\<close> and \<^verbatim>\<open>node_data/inner_node.rs\<close>: the indices of the
  nodes of a binary tree of height 251, where the root has index 1 and the children of \<open>i\<close> have the indices
  \<open>2 i\<close> and \<open>2 i + 1\<close>, and the paths of edge nodes. A \<^verbatim>\<open>U256\<close> is an integer that wraps at \<open>2 ^ 256\<close>
  (\<open>u256\<close>); lengths and heights are of type \<^verbatim>\<open>u8\<close>, here natural numbers that wrap at 256. Most operations
  check that the index they calculate is not too large, and panic otherwise.
\<close>

unbundle bit_operations_syntax

section \<open>Machine integers\<close>

definition u256 :: "int \<Rightarrow> int" where
  "u256 x = x mod 2 ^ 256"

definition u8_add :: "nat \<Rightarrow> nat \<Rightarrow> nat" where
  "u8_add a b = (a + b) mod 256"

definition u8_sub :: "nat \<Rightarrow> nat \<Rightarrow> nat" where
  "u8_sub a b = (if b \<le> a then a - b else a + 256 - b)"

text \<open>The number of bits of a \<^verbatim>\<open>U256\<close> without its leading zeros.\<close>

function bit_len :: "int \<Rightarrow> nat" where
  "bit_len x = (if x \<le> 0 then 0 else Suc (bit_len (x div 2)))"
  by pat_completeness auto
termination by (relation "measure nat") auto

declare bit_len.simps [simp del]

section \<open>Indices and heights\<close>

type_synonym node_index = int
type_synonym sub_tree_height = nat
type_synonym edge_path = int
type_synonym edge_path_length = nat

definition ACTUAL_HEIGHT :: sub_tree_height where
  "ACTUAL_HEIGHT = 251"

definition sub_tree_height_new :: "nat \<Rightarrow> sub_tree_height option" where
  "sub_tree_height_new height = (if ACTUAL_HEIGHT < height then None else Some height)"

definition INDEX_BITS :: nat where
  "INDEX_BITS = ACTUAL_HEIGHT + 1"

definition ROOT :: node_index where
  "ROOT = 1"

definition FIRST_LEAF :: node_index where
  "FIRST_LEAF = 2 ^ (INDEX_BITS - 1)"

definition MAX_INDEX :: node_index where
  "MAX_INDEX = 2 ^ INDEX_BITS - 1"

definition node_index_new :: "int \<Rightarrow> node_index option" where
  "node_index_new index = (if index \<le> MAX_INDEX then Some index else None)"

definition index_is_leaf :: "node_index \<Rightarrow> bool" where
  "index_is_leaf i \<longleftrightarrow> FIRST_LEAF \<le> i \<and> i \<le> MAX_INDEX"

definition index_add :: "node_index \<Rightarrow> node_index \<Rightarrow> node_index option" where
  "index_add a b = node_index_new (u256 (a + b))"

definition index_mul :: "node_index \<Rightarrow> node_index \<Rightarrow> node_index option" where
  "index_mul a b = node_index_new (u256 (a * b))"

definition index_sub :: "node_index \<Rightarrow> node_index \<Rightarrow> node_index" where
  "index_sub a b = u256 (a - b)"

definition index_shl :: "node_index \<Rightarrow> nat \<Rightarrow> node_index option" where
  "index_shl a n = node_index_new (u256 (a * 2 ^ n))"

definition index_shr :: "node_index \<Rightarrow> nat \<Rightarrow> node_index option" where
  "index_shr a n = node_index_new (a div 2 ^ n)"

text \<open>With fewer than four leading zeros the subtraction wraps to a number that is no \<^verbatim>\<open>u8\<close>.\<close>

definition index_leading_zeros :: "node_index \<Rightarrow> nat option" where
  "index_leading_zeros i =
     (let zeros = 256 - bit_len i in
      if 256 - INDEX_BITS \<le> zeros then Some (zeros - (256 - INDEX_BITS)) else None)"

definition index_bit_length :: "node_index \<Rightarrow> nat option" where
  "index_bit_length i = do {
     zeros \<leftarrow> index_leading_zeros i;
     Some (u8_sub INDEX_BITS zeros) }"

definition get_children_indices :: "node_index \<Rightarrow> (node_index \<times> node_index) option" where
  "get_children_indices i = do {
     left_child \<leftarrow> index_shl i 1;
     right_child \<leftarrow> index_add left_child 1;
     Some (left_child, right_child) }"

definition get_lca :: "node_index \<Rightarrow> node_index \<Rightarrow> node_index option" where
  "get_lca i other =
     (if i = other then Some i
      else do {
        bit_length \<leftarrow> index_bit_length i;
        other_bit_length \<leftarrow> index_bit_length other;
        (adapted_self, adapted_other) \<leftarrow>
          (if i < other then do {
             o' \<leftarrow> index_shr other (u8_sub other_bit_length bit_length);
             Some (i, o') }
           else do {
             s' \<leftarrow> index_shr i (u8_sub bit_length other_bit_length);
             Some (s', other) });
        xor_index \<leftarrow> node_index_new (adapted_self XOR adapted_other);
        post_common_prefix_len \<leftarrow> index_bit_length xor_index;
        node_index_new (adapted_self div 2 ^ post_common_prefix_len) })"

section \<open>Paths\<close>

record path_to_bottom =
  pb_path :: edge_path
  pb_length :: edge_path_length

datatype path_to_bottom_error =
    RemoveEdgesError edge_path_length edge_path_length
  | MismatchedLengthError edge_path edge_path_length

datatype edge_path_error = IllegalLength nat

definition MAX_PATH :: edge_path where
  "MAX_PATH = 2 ^ ACTUAL_HEIGHT - 1"

definition edge_path_from :: "int \<Rightarrow> edge_path option" where
  "edge_path_from v = (if v \<le> MAX_PATH then Some v else None)"

definition edge_path_length_new :: "nat \<Rightarrow> edge_path_error + edge_path_length" where
  "edge_path_length_new n = (if ACTUAL_HEIGHT < n then Inl (IllegalLength n) else Inr n)"

definition path_to_bottom_new ::
    "edge_path \<Rightarrow> edge_path_length \<Rightarrow> path_to_bottom_error + path_to_bottom" where
  "path_to_bottom_new path n =
     (if n < bit_len path then Inl (MismatchedLengthError path n)
      else Inr \<lparr>pb_path = path, pb_length = n\<rparr>)"

definition LEFT_CHILD :: path_to_bottom where
  "LEFT_CHILD = \<lparr>pb_path = 0, pb_length = 1\<rparr>"

definition RIGHT_CHILD :: path_to_bottom where
  "RIGHT_CHILD = \<lparr>pb_path = 1, pb_length = 1\<rparr>"

definition compute_bottom_index :: "node_index \<Rightarrow> path_to_bottom \<Rightarrow> node_index option" where
  "compute_bottom_index i p = do {
     shifted \<leftarrow> index_shl i (pb_length p);
     path \<leftarrow> node_index_new (pb_path p);
     index_add shifted path }"

definition bottom_index :: "path_to_bottom \<Rightarrow> node_index \<Rightarrow> node_index option" where
  "bottom_index p root_index = compute_bottom_index root_index p"

definition is_left_descendant :: "path_to_bottom \<Rightarrow> bool" where
  "is_left_descendant p \<longleftrightarrow> pb_path p div 2 ^ u8_sub (pb_length p) 1 = 0"

definition concat_paths :: "path_to_bottom \<Rightarrow> path_to_bottom \<Rightarrow> path_to_bottom option" where
  "concat_paths p other = do {
     path \<leftarrow> edge_path_from (u256 (u256 (pb_path p * 2 ^ pb_length other) + pb_path other));
     case path_to_bottom_new path (u8_add (pb_length p) (pb_length other)) of
       Inl e \<Rightarrow> None
     | Inr q \<Rightarrow> Some q }"

definition remove_first_edges ::
    "path_to_bottom \<Rightarrow> edge_path_length \<Rightarrow> path_to_bottom_error + path_to_bottom" where
  "remove_first_edges p n_edges =
     (if pb_length p < n_edges then Inl (RemoveEdgesError (pb_length p) n_edges)
      else path_to_bottom_new
        (pb_path p AND u256 (u256 (2 ^ u8_sub (pb_length p) n_edges) - 1))
        (u8_sub (pb_length p) n_edges))"

definition get_path_to_descendant :: "node_index \<Rightarrow> node_index \<Rightarrow> path_to_bottom option" where
  "get_path_to_descendant i descendant = do {
     descendant_bit_length \<leftarrow> index_bit_length descendant;
     bit_length \<leftarrow> index_bit_length i;
     rs_assert (bit_length \<le> descendant_bit_length);
     let distance = u8_sub descendant_bit_length bit_length;
     shifted \<leftarrow> index_shl i distance;
     let delta = index_sub descendant shifted;
     ancestor \<leftarrow> index_shr descendant distance;
     rs_assert (ancestor = i);
     path \<leftarrow> edge_path_from delta;
     case edge_path_length_new distance of
       Inl e \<Rightarrow> None
     | Inr n \<Rightarrow> (case path_to_bottom_new path n of Inl e \<Rightarrow> None | Inr p \<Rightarrow> Some p) }"

section \<open>Field elements\<close>

text \<open>Field elements and hashes are integers between 0 and \<open>felt_prime_int\<close>.\<close>

type_synonym felt_int = int
type_synonym hash_output = felt_int

definition felt_prime_int :: int where
  "felt_prime_int = 2 ^ 251 + 17 * 2 ^ 192 + 1"

definition ROOT_OF_EMPTY_TREE :: hash_output where
  "ROOT_OF_EMPTY_TREE = 0"

definition from_felt_value :: "felt_int \<Rightarrow> node_index" where
  "from_felt_value felt = felt"

definition from_leaf_felt :: "felt_int \<Rightarrow> node_index option" where
  "from_leaf_felt felt = index_add FIRST_LEAF (from_felt_value felt)"

datatype types_error = ConversionError node_index

definition felt_try_from :: "node_index \<Rightarrow> types_error + felt_int" where
  "felt_try_from i = (if felt_prime_int - 1 < i then Inl (ConversionError i) else Inr i)"

section \<open>Sorted slices of leaf indices\<close>

text \<open>\<^verbatim>\<open>binary_search\<close> of a sorted slice without duplicates: the position of the value, or where it
  would be.\<close>

definition binary_search :: "int list \<Rightarrow> int \<Rightarrow> nat + nat" where
  "binary_search xs x =
     (let pos = length (takeWhile (\<lambda>y. y < x) xs) in
      if pos < length xs \<and> xs ! pos = x then Inr pos else Inl pos)"

definition sorted_leaf_indices_new :: "node_index list \<Rightarrow> node_index list" where
  "sorted_leaf_indices_new indices = sort indices"

definition bisect_left :: "node_index list \<Rightarrow> node_index \<Rightarrow> nat" where
  "bisect_left xs leftmost_value =
     (case binary_search xs leftmost_value of Inr pos \<Rightarrow> pos | Inl pos \<Rightarrow> pos)"

definition bisect_right :: "node_index list \<Rightarrow> node_index \<Rightarrow> nat" where
  "bisect_right xs rightmost_value =
     (case binary_search xs rightmost_value of Inl pos \<Rightarrow> pos | Inr pos \<Rightarrow> pos + 1)"

text \<open>A range of a slice; a range that is out of order or beyond the end panics.\<close>

definition subslice :: "'a list \<Rightarrow> nat \<Rightarrow> nat \<Rightarrow> 'a list option" where
  "subslice xs leftmost_idx rightmost_idx =
     (if leftmost_idx \<le> rightmost_idx \<and> rightmost_idx \<le> length xs
      then Some (drop leftmost_idx (take rightmost_idx xs)) else None)"

definition divide_at_index :: "'a list \<Rightarrow> nat \<Rightarrow> ('a list \<times> 'a list) option" where
  "divide_at_index xs idx = (if idx \<le> length xs then Some (take idx xs, drop idx xs) else None)"

definition get_node_height :: "node_index \<Rightarrow> sub_tree_height option" where
  "get_node_height i = do {
     bit_length \<leftarrow> index_bit_length i;
     sub_tree_height_new (u8_sub (u8_add ACTUAL_HEIGHT 1) bit_length) }"

definition split_leaves ::
    "node_index \<Rightarrow> node_index list \<Rightarrow> (node_index list \<times> node_index list) option" where
  "split_leaves root_index leaf_indices =
     (if leaf_indices = [] then Some ([], [])
      else do {
        root_height \<leftarrow> get_node_height root_index;
        first_ancestor \<leftarrow> index_shr (hd leaf_indices) root_height;
        rs_assert (first_ancestor = root_index);
        last_ancestor \<leftarrow> index_shr (List.last leaf_indices) root_height;
        rs_assert (1 < length leaf_indices \<longrightarrow> last_ancestor = root_index);
        shifted \<leftarrow> index_shl root_index 1;
        right_child_index \<leftarrow> index_add shifted 1;
        leftmost_index_in_right_subtree \<leftarrow> index_shl right_child_index (u8_sub root_height 1);
        divide_at_index leaf_indices (bisect_left leaf_indices leftmost_index_in_right_subtree) })"

end
