(* ===== verification/Patricia_Indices.thy ===== *)
theory Patricia_Indices
  imports Patricia_Types
begin

text \<open>
  The arithmetic of node indices and paths. The nodes of height \<open>h\<close> are the indices between \<open>2 ^ (251 - h)\<close> and
  \<open>2 ^ (252 - h)\<close>; on them the operations of \<open>Patricia_Types\<close> do not wrap and do not panic. The properties are
  that \<open>get_lca\<close> is the lowest common ancestor and that paths and descendants correspond.
\<close>

named_theorems index_simps

section \<open>Numbers of bits\<close>

lemma bit_len_le_iff: "0 \<le> x \<Longrightarrow> bit_len x \<le> n \<longleftrightarrow> x < 2 ^ n"
proof (induction n arbitrary: x)
  case 0
  then show ?case by (subst bit_len.simps) auto
next
  case (Suc n)
  then show ?case
    using Suc.IH[of "x div 2"] by (subst bit_len.simps) auto
qed

lemma bit_len_eq: "2 ^ n \<le> x \<Longrightarrow> x < 2 ^ Suc n \<Longrightarrow> bit_len x = Suc n"
proof -
  assume a: "2 ^ n \<le> x" "x < 2 ^ Suc n"
  have "(0 :: int) < 2 ^ n" by simp
  with a have "0 \<le> x" by linarith
  with a bit_len_le_iff[of x "Suc n"] bit_len_le_iff[of x n] show ?thesis by simp
qed

lemma bit_len_0 [simp]: "bit_len 0 = 0"
  by (simp add: bit_len.simps)

lemma bit_len_bounds: "0 < x \<Longrightarrow> 2 ^ (bit_len x - 1) \<le> x \<and> x < 2 ^ bit_len x \<and> 0 < bit_len x"
proof -
  assume x: "0 < x"
  then have pos: "0 < bit_len x" by (simp add: bit_len.simps)
  with x bit_len_le_iff[of x "bit_len x"] bit_len_le_iff[of x "bit_len x - 1"] show ?thesis by auto
qed

lemma xor_div_eq_iff:
  fixes a b :: int
  shows "a div 2 ^ n = b div 2 ^ n \<longleftrightarrow> (a XOR b) div 2 ^ n = 0"
proof -
  have "(a XOR b) div 2 ^ n = (a div 2 ^ n) XOR (b div 2 ^ n)"
    by (simp flip: drop_bit_eq_div add: drop_bit_xor)
  moreover have "x XOR y = 0 \<longleftrightarrow> x = y" for x y :: int by (auto simp: bit_eq_iff bit_simps)
  ultimately show ?thesis by simp
qed

lemma bit_len_xor:
  assumes "0 \<le> a" "0 \<le> b"
  shows "bit_len (a XOR b) \<le> n \<longleftrightarrow> a div 2 ^ n = b div 2 ^ n"
proof -
  have *: "x div 2 ^ n = 0 \<longleftrightarrow> x < 2 ^ n" if "0 \<le> x" for x :: int
    using that zero_less_power[of "2 :: int" n] by (auto simp: zdiv_eq_0_iff)
  have "0 \<le> a XOR b" using assms by simp
  then show ?thesis by (simp only: bit_len_le_iff xor_div_eq_iff *)
qed

section \<open>Nodes and their heights\<close>

definition node_at :: "nat \<Rightarrow> node_index \<Rightarrow> bool" where
  "node_at h i \<longleftrightarrow> h \<le> 251 \<and> 2 ^ (251 - h) \<le> i \<and> i < 2 ^ (252 - h)"

text \<open>\<open>below h i j\<close>: the node \<open>j\<close> is \<open>h\<close> levels below the node \<open>i\<close>.\<close>

definition below :: "nat \<Rightarrow> node_index \<Rightarrow> node_index \<Rightarrow> bool" where
  "below h i j \<longleftrightarrow> j div 2 ^ h = i"

lemma below_iff: "below h i j \<longleftrightarrow> i * 2 ^ h \<le> j \<and> j < (i + 1) * 2 ^ h"
proof -
  have pos: "(0 :: int) < 2 ^ h" by simp
  have "j div 2 ^ h = i \<longleftrightarrow> i * 2 ^ h \<le> j \<and> j < i * 2 ^ h + 2 ^ h"
  proof
    assume "j div 2 ^ h = i"
    then have "i * 2 ^ h + j mod 2 ^ h = j" using div_mult_mod_eq[of j "2 ^ h"] by simp
    then show "i * 2 ^ h \<le> j \<and> j < i * 2 ^ h + 2 ^ h"
      using pos_mod_bound[OF pos, of j] pos_mod_sign[OF pos, of j] by linarith
  next
    assume "i * 2 ^ h \<le> j \<and> j < i * 2 ^ h + 2 ^ h"
    then show "j div 2 ^ h = i"
      by (intro int_div_pos_eq[of j "2 ^ h" i "j - i * 2 ^ h"]) (auto simp: mult.commute)
  qed
  then show ?thesis by (simp add: below_def distrib_right)
qed

lemma below_0 [simp]: "below 0 i j \<longleftrightarrow> j = i"
  by (auto simp: below_def)

lemma below_add: "below (m + n) i k \<longleftrightarrow> below m i (k div 2 ^ n)"
proof -
  have "k div 2 ^ (m + n) = k div 2 ^ n div 2 ^ m"
    unfolding add.commute[of m n] power_add by (rule zdiv_zmult2_eq) simp
  then show ?thesis by (simp add: below_def)
qed

lemma below_trans: "below m i j \<Longrightarrow> below n j k \<Longrightarrow> below (m + n) i k"
  by (simp add: below_add) (simp add: below_def)

lemma below_unique: "below h i k \<Longrightarrow> below h j k \<Longrightarrow> i = j"
  by (simp add: below_def)

lemma below_children:
  "below (Suc h) i k \<longleftrightarrow> below h (2 * i) k \<or> below h (2 * i + 1) k"
proof -
  have "below (Suc h) i k \<longleftrightarrow> (k div 2 ^ h) div 2 = i"
    using below_add[of 1 h i k] by (simp add: below_def)
  moreover have "x div 2 = i \<longleftrightarrow> x = 2 * i \<or> x = 2 * i + 1" for x :: int by presburger
  ultimately show ?thesis by (simp add: below_def)
qed

lemma node_at_below:
  assumes "node_at h i" "below n i j" "n \<le> h"
  shows "node_at (h - n) j"
proof -
  have "(2 :: int) ^ (251 - h) * 2 ^ n \<le> i * 2 ^ n" "(i + 1) * 2 ^ n \<le> 2 ^ (252 - h) * 2 ^ n"
    using assms(1) by (auto simp: node_at_def intro!: mult_right_mono)
  moreover have "(2 :: int) ^ (251 - h) * 2 ^ n = 2 ^ (251 - (h - n))"
    "(2 :: int) ^ (252 - h) * 2 ^ n = 2 ^ (252 - (h - n))"
    using assms by (simp_all add: node_at_def flip: power_add)
  ultimately show ?thesis using assms by (auto simp: node_at_def below_iff)
qed

lemma node_at_pos: "node_at h i \<Longrightarrow> 0 < i"
  unfolding node_at_def using zero_less_power[of "2 :: int" "251 - h"] by linarith

lemma node_at_max: "node_at h i \<Longrightarrow> i < 2 ^ 252"
  unfolding node_at_def using power_increasing[of "252 - h" 252 "2 :: int"] by simp

lemma node_at_ROOT [simp]: "node_at 251 ROOT"
  by (simp add: node_at_def ROOT_def)

lemma node_at_bit_len: "node_at h i \<Longrightarrow> bit_len i = 252 - h"
  using bit_len_eq[of "251 - h" i] by (auto simp: node_at_def Suc_diff_le simp flip: Suc_diff_le)

lemma node_at_ancestor:
  assumes "node_at h j" "below n i j" "0 < i"
  shows "node_at (h + n) i"
proof -
  have "n \<le> 251 - h"
  proof (rule ccontr)
    assume "\<not> n \<le> 251 - h"
    then have "(2 :: int) ^ (252 - h) \<le> 2 ^ n" using assms(1) by (intro power_increasing) (auto simp: node_at_def)
    moreover have "j < 2 ^ (252 - h)" using assms(1) by (simp add: node_at_def)
    ultimately have "j < 2 ^ n" by linarith
    with node_at_pos[OF assms(1)] assms(2,3) show False by (simp add: below_def)
  qed
  define m where "m = 251 - h - n"
  have h: "251 - h = m + n" "252 - h = Suc m + n" "251 - (h + n) = m" "252 - (h + n) = Suc m"
    using \<open>n \<le> 251 - h\<close> assms(1) by (auto simp: m_def node_at_def)
  have j: "2 ^ m * 2 ^ n \<le> j" "j < 2 ^ Suc m * 2 ^ n"
    using assms(1) unfolding node_at_def h power_add by auto
  moreover have "i * 2 ^ n \<le> j" "j < (i + 1) * 2 ^ n" using assms(2) by (simp_all add: below_iff)
  ultimately have "2 ^ m * 2 ^ n < (i + 1) * 2 ^ n" "i * 2 ^ n < 2 ^ Suc m * 2 ^ n" by linarith+
  then have "2 ^ m < i + 1" "i < 2 ^ Suc m"
    by (simp_all only: mult_less_cancel_right_pos zero_less_power zero_less_numeral)
  moreover have "h + n \<le> 251" using assms(1) \<open>n \<le> 251 - h\<close> by (auto simp: node_at_def)
  ultimately show ?thesis unfolding node_at_def h by simp
qed

section \<open>Operations on nodes\<close>

lemma u256_id [index_simps]: "0 \<le> x \<Longrightarrow> x < 2 ^ 256 \<Longrightarrow> u256 x = x"
  by (simp add: u256_def)

lemma u8_sub_le [index_simps]: "b \<le> a \<Longrightarrow> u8_sub a b = a - b"
  by (simp add: u8_sub_def)

lemma node_index_new_Some [index_simps]: "x < 2 ^ 252 \<Longrightarrow> node_index_new x = Some x"
  by (simp add: node_index_new_def MAX_INDEX_def INDEX_BITS_def ACTUAL_HEIGHT_def)

lemma index_ops:
  "0 \<le> i * 2 ^ n \<Longrightarrow> i * 2 ^ n < 2 ^ 252 \<Longrightarrow> index_shl i n = Some (i * 2 ^ n)"
  "0 \<le> i + j \<Longrightarrow> i + j < 2 ^ 252 \<Longrightarrow> index_add i j = Some (i + j)"
  "0 \<le> i * j \<Longrightarrow> i * j < 2 ^ 252 \<Longrightarrow> index_mul i j = Some (i * j)"
  by (simp_all add: index_shl_def index_add_def index_mul_def index_simps)

lemma index_shr_Some: "0 \<le> i \<Longrightarrow> i < 2 ^ 252 \<Longrightarrow> index_shr i n = Some (i div 2 ^ n)"
proof -
  assume "0 \<le> i" "i < 2 ^ 252"
  then have "i div 2 ^ n < 2 ^ 252" using zdiv_mono2[of i 1 "2 ^ n"] by simp
  then show ?thesis by (simp add: index_shr_def index_simps)
qed

lemma index_bit_length_Some:
  assumes "0 \<le> i" "i < 2 ^ 252"
  shows "index_bit_length i = Some (bit_len i)"
proof -
  have "bit_len i \<le> 252" using assms by (simp add: bit_len_le_iff)
  then show ?thesis
    by (simp add: index_bit_length_def index_leading_zeros_def Let_def INDEX_BITS_def ACTUAL_HEIGHT_def u8_sub_def)
qed

text \<open>The operations on a node of height \<open>h\<close>.\<close>

lemma node_shl [index_simps]:
  assumes "node_at h i" "n \<le> h"
  shows "index_shl i n = Some (i * 2 ^ n)"
proof -
  have "node_at (h - n) (i * 2 ^ n)" by (rule node_at_below[OF assms(1) _ assms(2)]) (simp add: below_def)
  then show ?thesis by (intro index_ops) (auto dest: node_at_pos node_at_max)
qed

lemma node_shr [index_simps]: "node_at h i \<Longrightarrow> index_shr i n = Some (i div 2 ^ n)"
  by (rule index_shr_Some) (auto dest: node_at_pos node_at_max)

lemma node_bit_length [index_simps]: "node_at h i \<Longrightarrow> index_bit_length i = Some (252 - h)"
  by (subst index_bit_length_Some) (auto dest: node_at_pos node_at_max simp: node_at_bit_len)

lemma node_is_leaf [index_simps]:
  assumes "node_at h i"
  shows "index_is_leaf i \<longleftrightarrow> h = 0"
proof (cases h)
  case (Suc n)
  have "(2 :: int) ^ (252 - h) \<le> 2 ^ 251" by (rule power_increasing) (use Suc in auto)
  then have "i < 2 ^ 251" using assms by (simp add: node_at_def)
  then show ?thesis by (simp add: index_is_leaf_def FIRST_LEAF_def INDEX_BITS_def ACTUAL_HEIGHT_def Suc)
qed (use assms in \<open>simp add: node_at_def index_is_leaf_def FIRST_LEAF_def MAX_INDEX_def INDEX_BITS_def
  ACTUAL_HEIGHT_def\<close>)

lemma node_height [index_simps]: "node_at h i \<Longrightarrow> get_node_height i = Some h"
  by (auto simp: get_node_height_def sub_tree_height_new_def u8_add_def ACTUAL_HEIGHT_def index_simps node_at_def)

lemma below_child [simp]: "below (Suc 0) i (2 * i)" "below (Suc 0) i (2 * i + 1)"
  by (simp_all add: below_def)

lemma node_children:
  assumes "node_at (Suc h) i"
  shows "node_at h (2 * i)" "node_at h (2 * i + 1)"
  using node_at_below[OF assms, of 1] by simp_all

lemma node_children_indices [index_simps]:
  assumes "node_at (Suc h) i"
  shows "get_children_indices i = Some (2 * i, 2 * i + 1)"
proof -
  have "index_add (i * 2) 1 = Some (2 * i + 1)"
    using index_ops(2)[of "2 * i" 1] node_at_max[OF node_children(2)[OF assms]] node_at_pos[OF assms]
    by (simp add: mult.commute)
  then show ?thesis
    using assms by (simp add: get_children_indices_def index_simps mult.commute)
qed

section \<open>Paths\<close>

definition path_ok :: "path_to_bottom \<Rightarrow> bool" where
  "path_ok p \<longleftrightarrow> 0 \<le> pb_path p \<and> pb_path p < 2 ^ pb_length p"

definition bottom_of :: "node_index \<Rightarrow> path_to_bottom \<Rightarrow> node_index" where
  "bottom_of i p = i * 2 ^ pb_length p + pb_path p"

definition path_between :: "nat \<Rightarrow> node_index \<Rightarrow> node_index \<Rightarrow> path_to_bottom" where
  "path_between n i j = \<lparr>pb_path = j - i * 2 ^ n, pb_length = n\<rparr>"

lemma path_between_length [simp]: "pb_length (path_between n i j) = n"
  by (simp add: path_between_def)

lemma bottom_below: "path_ok p \<Longrightarrow> below (pb_length p) i (bottom_of i p)"
  by (simp add: below_iff bottom_of_def path_ok_def distrib_right)

lemma bottom_of_between [simp]: "bottom_of i (path_between n i j) = j"
  by (simp add: bottom_of_def path_between_def)

lemma path_ok_between: "below n i j \<Longrightarrow> path_ok (path_between n i j)"
  by (auto simp: below_iff path_ok_def path_between_def distrib_right)

lemma path_between_bottom [simp]: "path_between (pb_length p) i (bottom_of i p) = p"
  by (simp add: path_between_def bottom_of_def)

lemma path_to_bottom_new_ok:
  "path_ok p \<Longrightarrow> path_to_bottom_new (pb_path p) (pb_length p) = Inr p"
  by (auto simp: path_to_bottom_new_def path_ok_def not_less bit_len_le_iff)

lemma compute_bottom_index_Some [index_simps]:
  assumes "node_at h i" "path_ok p" "pb_length p \<le> h"
  shows "compute_bottom_index i p = Some (bottom_of i p)"
proof -
  have "node_at (h - pb_length p) (bottom_of i p)"
    by (rule node_at_below[OF assms(1) bottom_below[OF assms(2)] assms(3)])
  then have max: "i * 2 ^ pb_length p + pb_path p < 2 ^ 252"
    by (auto dest: node_at_max simp: bottom_of_def)
  have "0 \<le> i * 2 ^ pb_length p" using node_at_pos[OF assms(1)] by simp
  with max have "pb_path p < 2 ^ 252" by linarith
  with max \<open>0 \<le> i * 2 ^ pb_length p\<close> assms show ?thesis
    by (simp add: compute_bottom_index_def index_simps index_ops bottom_of_def path_ok_def)
qed

lemma bottom_index_Some [index_simps]:
  "node_at h i \<Longrightarrow> path_ok p \<Longrightarrow> pb_length p \<le> h \<Longrightarrow> bottom_index p i = Some (bottom_of i p)"
  by (simp add: bottom_index_def index_simps)

lemma get_path_to_descendant_Some [index_simps]:
  assumes "node_at h i" "below n i j" "n \<le> h"
  shows "get_path_to_descendant i j = Some (path_between n i j)"
proof -
  have j: "node_at (h - n) j" by (rule node_at_below[OF assms])
  have ok: "path_ok (path_between n i j)" by (rule path_ok_between[OF assms(2)])
  have n: "252 - (h - n) - (252 - h) = n" "n \<le> 251" using assms by (auto simp: node_at_def)
  then have "(2 :: int) ^ n \<le> 2 ^ 251" by (intro power_increasing) auto
  with ok have path: "0 \<le> j - i * 2 ^ n" "j - i * 2 ^ n < 2 ^ 251" by (auto simp: path_ok_def path_between_def)
  have new: "path_to_bottom_new (j - i * 2 ^ n) n = Inr (path_between n i j)"
    using path_to_bottom_new_ok[OF ok] by (simp add: path_between_def)
  from assms(2) have "j div 2 ^ n = i" by (simp add: below_def)
  with assms j n path new show ?thesis
    by (simp add: get_path_to_descendant_def index_simps index_sub_def edge_path_from_def MAX_PATH_def
      edge_path_length_new_def ACTUAL_HEIGHT_def u256_id)
qed

lemma is_left_descendant_iff:
  assumes "path_ok p" "pb_length p = Suc n"
  shows "is_left_descendant p \<longleftrightarrow> below n (2 * i) (bottom_of i p)"
proof -
  have "is_left_descendant p \<longleftrightarrow> pb_path p < 2 ^ n"
    using assms zero_less_power[of "2 :: int" n]
    by (auto simp: is_left_descendant_def path_ok_def u8_sub_def zdiv_eq_0_iff)
  then show ?thesis using assms by (simp add: below_iff bottom_of_def path_ok_def distrib_right)
qed

lemma concat_paths_Some:
  assumes "path_ok p" "path_ok q" "pb_length p + pb_length q \<le> 251"
  shows "concat_paths p q = Some (path_between (pb_length p + pb_length q) i (bottom_of (bottom_of i p) q))"
proof -
  define r where "r = path_between (pb_length p + pb_length q) i (bottom_of (bottom_of i p) q)"
  have ok: "path_ok r"
    unfolding r_def by (intro path_ok_between below_trans[OF bottom_below bottom_below] assms)
  have path: "pb_path r = pb_path p * 2 ^ pb_length q + pb_path q"
    by (simp add: r_def path_between_def bottom_of_def algebra_simps power_add)
  have len: "pb_length r = pb_length p + pb_length q" by (simp add: r_def)
  have "(2 :: int) ^ pb_length r \<le> 2 ^ 251" using assms(3) len by (intro power_increasing) auto
  with ok have r: "0 \<le> pb_path r" "pb_path r < 2 ^ 251" by (auto simp: path_ok_def)
  have "0 \<le> pb_path p * 2 ^ pb_length q" "0 \<le> pb_path q" using assms by (simp_all add: path_ok_def)
  with r path have "u256 (u256 (pb_path p * 2 ^ pb_length q) + pb_path q) = pb_path r"
    by (simp add: u256_id)
  moreover have "u8_add (pb_length p) (pb_length q) = pb_length r" using assms(3) len by (simp add: u8_add_def)
  ultimately show ?thesis
    using r path_to_bottom_new_ok[OF ok]
    by (simp add: concat_paths_def edge_path_from_def MAX_PATH_def ACTUAL_HEIGHT_def flip: r_def)
qed

lemma remove_first_edges_Inr:
  assumes "path_ok p" "n \<le> pb_length p" "pb_length p \<le> 251" "below n i j" "below (pb_length p - n) j (bottom_of i p)"
  shows "remove_first_edges p n = Inr (path_between (pb_length p - n) j (bottom_of i p))"
proof -
  define m where "m = pb_length p - n"
  define r where "r = path_between m j (bottom_of i p)"
  have ok: "path_ok r" unfolding r_def by (rule path_ok_between) (use assms in \<open>simp add: m_def\<close>)
  have len: "pb_length p = n + m" "pb_length r = m" using assms(2) by (simp_all add: m_def r_def)
  have "pb_path r = pb_path p - (j - i * 2 ^ n) * 2 ^ m"
    by (simp add: r_def path_between_def bottom_of_def len algebra_simps power_add)
  then have "pb_path r mod 2 ^ m = pb_path p mod 2 ^ m" by (simp add: mod_diff_eq[symmetric])
  then have path: "pb_path r = pb_path p mod 2 ^ m" using ok len by (simp add: path_ok_def)
  have "m \<le> 251" using assms(2,3) by (simp add: m_def)
  then have "(2 :: int) ^ m \<le> 2 ^ 251" by (intro power_increasing) auto
  then have "u256 (u256 (2 ^ u8_sub (pb_length p) n) - 1) = mask m"
    using len by (simp add: u8_sub_le u256_id mask_eq_exp_minus_1)
  then have "pb_path p AND u256 (u256 (2 ^ u8_sub (pb_length p) n) - 1) = pb_path r"
    by (simp add: path flip: take_bit_eq_mask take_bit_eq_mod)
  then show ?thesis
    using path_to_bottom_new_ok[OF ok] assms(2) len
    by (simp add: remove_first_edges_def u8_sub_le flip: r_def m_def)
qed

section \<open>Sorted leaf indices\<close>

lemma sorted_takeWhile_filter:
  fixes xs :: "int list"
  assumes "sorted_wrt (<) xs" "\<And>x y. x < y \<Longrightarrow> P y \<Longrightarrow> P x"
  shows "takeWhile P xs = filter P xs \<and> dropWhile P xs = filter (\<lambda>x. \<not> P x) xs"
  using assms(1)
proof (induction xs)
  case (Cons a xs)
  have no: "\<forall>x \<in> set xs. \<not> P x" if "\<not> P a" using Cons.prems assms(2) that by auto
  then show ?case
    using Cons filter_True[of xs "\<lambda>x. \<not> P x"] by (cases "P a") (auto simp: filter_empty_conv)
qed simp

lemma bisect_left_eq: "bisect_left xs x = length (takeWhile (\<lambda>y. y < x) xs)"
  by (simp add: bisect_left_def binary_search_def Let_def split: sum.splits)

lemma bisect_right_eq:
  assumes "sorted_wrt (<) xs"
  shows "bisect_right xs x = length (takeWhile (\<lambda>y. y \<le> x) xs)"
  using assms
proof (induction xs)
  case (Cons a xs)
  have "takeWhile (\<lambda>y. y \<le> a) xs = []" using Cons.prems by (cases xs) auto
  with Cons show ?case
    by (cases "a = x") (auto simp: bisect_right_def binary_search_def Let_def split: sum.splits if_splits)
qed (simp add: bisect_right_def binary_search_def)

text \<open>The leaves below a node, and their division between its children.\<close>

definition leaves_below :: "nat \<Rightarrow> node_index \<Rightarrow> node_index list \<Rightarrow> node_index list" where
  "leaves_below h i ks = filter (below h i) ks"

definition leaves_ok :: "nat \<Rightarrow> node_index \<Rightarrow> node_index list \<Rightarrow> bool" where
  "leaves_ok h i ks \<longleftrightarrow> sorted_wrt (<) ks \<and> list_all (below h i) ks"

lemma leaves_ok_below: "leaves_ok h i ks \<Longrightarrow> leaves_ok h' j (leaves_below h' j ks)"
  by (auto simp: leaves_ok_def leaves_below_def list_all_iff sorted_wrt_filter)

lemma set_leaves_below [simp]: "set (leaves_below h i ks) = {k \<in> set ks. below h i k}"
  by (auto simp: leaves_below_def)

lemma take_drop_takeWhile:
  "take (length (takeWhile P xs)) xs = takeWhile P xs" "drop (length (takeWhile P xs)) xs = dropWhile P xs"
  by (induction xs) auto

lemma split_leaves_Some:
  assumes "node_at (Suc h) i" "leaves_ok (Suc h) i ks"
  shows "split_leaves i ks = Some (leaves_below h (2 * i) ks, leaves_below h (2 * i + 1) ks)"
proof (cases "ks = []")
  case False
  have below: "below (Suc h) i k" if "k \<in> set ks" for k using assms that by (auto simp: leaves_ok_def list_all_iff)
  have node: "node_at 0 k" if "k \<in> set ks" for k using node_at_below[OF assms(1) below[OF that]] by simp
  have *: "index_shr k (Suc h) = Some i" if "k \<in> set ks" for k
    using node_shr[OF node[OF that], of "Suc h"] below[OF that] by (simp add: below_def)
  let ?m = "(2 * i + 1) * 2 ^ h"
  have side: "below h (2 * i) k \<longleftrightarrow> k < ?m" "below h (2 * i + 1) k \<longleftrightarrow> \<not> k < ?m" if "k \<in> set ks" for k
    using below[OF that] below_children[of h i k] below_unique[of h "2 * i" k "2 * i + 1"] below_iff[of h "2 * i" k]
      below_iff[of h "2 * i + 1" k] by auto
  have "index_shl i (Suc 0) = Some (2 * i)" using node_shl[OF assms(1), of 1] by (simp add: mult.commute)
  moreover have "index_add (2 * i) 1 = Some (2 * i + 1)"
    using index_ops(2)[of "2 * i" 1] node_at_max[OF node_children(2)[OF assms(1)]] node_at_pos[OF assms(1)] by simp
  moreover have "index_shl (2 * i + 1) (u8_sub (Suc h) (Suc 0)) = Some ?m"
    using node_shl[OF node_children(2)[OF assms(1)], of h] by (simp add: u8_sub_def)
  moreover have "divide_at_index ks (bisect_left ks ?m) = Some (takeWhile (\<lambda>y. y < ?m) ks, dropWhile (\<lambda>y. y < ?m) ks)"
    by (simp add: divide_at_index_def bisect_left_eq take_drop_takeWhile length_takeWhile_le)
  moreover have "takeWhile (\<lambda>y. y < ?m) ks = leaves_below h (2 * i) ks"
    "dropWhile (\<lambda>y. y < ?m) ks = leaves_below h (2 * i + 1) ks"
    using assms(2) sorted_takeWhile_filter[of ks "\<lambda>y. y < ?m"] side
    by (auto simp: leaves_below_def leaves_ok_def intro!: filter_cong)
  ultimately show ?thesis
    using False * by (simp add: split_leaves_def index_simps node_height[OF assms(1)])
qed (simp add: split_leaves_def leaves_below_def)

section \<open>Lowest common ancestors\<close>

lemma node_at_ex: "0 < i \<Longrightarrow> i < 2 ^ 252 \<Longrightarrow> node_at (252 - bit_len i) i"
proof -
  assume i: "0 < i" "i < 2 ^ 252"
  then have "bit_len i \<le> 252" by (simp add: bit_len_le_iff)
  with bit_len_bounds[OF i(1)] show ?thesis by (auto simp: node_at_def Suc_le_eq)
qed

lemma node_at_height_mono: "node_at h a \<Longrightarrow> node_at h' b \<Longrightarrow> a \<le> b \<Longrightarrow> h' \<le> h"
proof (rule ccontr)
  assume a: "node_at h a" "node_at h' b" "a \<le> b" "\<not> h' \<le> h"
  then have "(2 :: int) ^ (252 - h') \<le> 2 ^ (251 - h)" by (intro power_increasing) (auto simp: node_at_def)
  with a show False by (simp add: node_at_def)
qed

lemma node_below_root: "node_at h i \<Longrightarrow> below (251 - h) 1 i"
proof -
  assume a: "node_at h i"
  then have "252 - h = Suc (251 - h)" by (auto simp: node_at_def)
  with a show ?thesis by (simp add: below_iff node_at_def)
qed

lemma node_at_shift:
  assumes "node_at h i" "h + n \<le> 251"
  shows "node_at (h + n) (i div 2 ^ n)"
proof (rule node_at_ancestor[OF assms(1)])
  have "below (251 - h - n) 1 (i div 2 ^ n)"
    using node_below_root[OF assms(1)] assms(2) by (simp flip: below_add)
  then have "1 * 2 ^ (251 - h - n) \<le> i div 2 ^ n" unfolding below_iff by blast
  then show "0 < i div 2 ^ n" using zero_less_power[of "2 :: int" "251 - h - n"] by linarith
qed (simp add: below_def)

text \<open>Two nodes of the same height: the calculation with the bits that differ.\<close>

definition lca_step :: "node_index \<Rightarrow> node_index \<Rightarrow> node_index option" where
  "lca_step a b = do {
     xor_index \<leftarrow> node_index_new (a XOR b);
     n \<leftarrow> index_bit_length xor_index;
     node_index_new (a div 2 ^ n) }"

lemma lca_step_eq:
  assumes "node_at h a" "node_at h b"
  defines "n \<equiv> bit_len (a XOR b)"
  shows "lca_step a b = Some (a div 2 ^ n)" "n \<le> 251 - h" "a div 2 ^ n = b div 2 ^ n"
proof -
  have ab: "0 \<le> a" "0 \<le> b" "a < 2 ^ 252" "b < 2 ^ 252" using assms by (auto dest: node_at_pos node_at_max)
  let ?x = "a XOR b"
  have x: "0 \<le> ?x" using ab by simp
  have "a div 2 ^ (251 - h) = b div 2 ^ (251 - h)"
    using assms(1,2)[THEN node_below_root] by (simp add: below_def)
  then show n: "n \<le> 251 - h" using ab by (simp add: bit_len_xor n_def)
  then have "n \<le> 252" by simp
  then have "?x < 2 ^ 252" using x unfolding n_def by (simp only: bit_len_le_iff)
  with x have "index_bit_length ?x = Some n" "node_index_new ?x = Some ?x"
    by (simp_all add: index_bit_length_Some index_simps n_def)
  moreover have "a div 2 ^ n < 2 ^ 252" using zdiv_mono2[of a 1 "2 ^ n"] ab by simp
  ultimately show "lca_step a b = Some (a div 2 ^ n)" by (simp add: lca_step_def index_simps)
  show "a div 2 ^ n = b div 2 ^ n" using ab by (simp add: n_def flip: bit_len_xor)
qed

lemma lca_step_lowest:
  assumes "node_at h a" "node_at h b"
  shows "\<exists>c n. lca_step a b = Some c \<and> lca_step b a = Some c \<and> 0 < c \<and> below n c a \<and> below n c b \<and>
    (\<forall>m. a div 2 ^ m = b div 2 ^ m \<longrightarrow> n \<le> m)"
proof -
  let ?n = "bit_len (a XOR b)"
  note eq = lca_step_eq[OF assms] and eq' = lca_step_eq[OF assms(2,1)]
  have "b XOR a = a XOR b" by (rule xor.commute)
  have "h + ?n \<le> 251" using eq(2) assms(1) by (auto simp: node_at_def)
  then have "0 < a div 2 ^ ?n" by (rule node_at_pos[OF node_at_shift[OF assms(1)]])
  moreover have "\<forall>m. a div 2 ^ m = b div 2 ^ m \<longrightarrow> ?n \<le> m"
    using assms[THEN node_at_pos] by (simp add: bit_len_xor)
  moreover have "below ?n (a div 2 ^ ?n) a" "below ?n (a div 2 ^ ?n) b"
    unfolding below_def by (rule HOL.refl, rule eq(3)[symmetric])
  moreover have "lca_step b a = Some (a div 2 ^ ?n)"
    using eq'(1) eq(3) unfolding \<open>b XOR a = a XOR b\<close> by (simp only:)
  ultimately show ?thesis using eq(1) by blast
qed

lemma get_lca_eq:
  assumes "node_at h a" "node_at h' b" "a \<noteq> b"
  shows "get_lca a b =
    (if a < b then lca_step a (b div 2 ^ (h - h')) else lca_step (a div 2 ^ (h' - h)) b)"
proof -
  have "h \<le> 251" "h' \<le> 251" using assms by (auto simp: node_at_def)
  moreover have "a < b \<Longrightarrow> h' \<le> h" "\<not> a < b \<Longrightarrow> h \<le> h'"
    using node_at_height_mono[OF assms(1,2)] node_at_height_mono[OF assms(2,1)] by auto
  ultimately have "a < b \<Longrightarrow> u8_sub (252 - h') (252 - h) = h - h'" "\<not> a < b \<Longrightarrow> u8_sub (252 - h) (252 - h') = h' - h"
    by (simp_all add: u8_sub_def)
  then show ?thesis
    using assms(3) by (simp add: get_lca_def lca_step_def index_simps node_bit_length[OF assms(1)]
      node_bit_length[OF assms(2)] node_shr[OF assms(1)] node_shr[OF assms(2)])
qed

lemma lca_shift_lowest:
  assumes "node_at h a" "node_at h' b" "h' \<le> h"
  shows "\<exists>c n. lca_step a (b div 2 ^ (h - h')) = Some c \<and> lca_step (b div 2 ^ (h - h')) a = Some c \<and>
    0 < c \<and> below n c a \<and> below (n + (h - h')) c b \<and>
    (\<forall>e m' n'. 0 < e \<and> below m' e a \<and> below n' e b \<longrightarrow> n \<le> m' \<and> n + (h - h') \<le> n' \<and> below (m' - n) e c)"
proof -
  let ?d = "h - h'"
  have b': "node_at h (b div 2 ^ ?d)" using node_at_shift[OF assms(2), of ?d] assms by (auto simp: node_at_def)
  from lca_step_lowest[OF assms(1) this] obtain c n where
    c: "lca_step a (b div 2 ^ ?d) = Some c" "lca_step (b div 2 ^ ?d) a = Some c" "0 < c" "below n c a" "below n c (b div 2 ^ ?d)"
      "\<And>m. a div 2 ^ m = b div 2 ^ ?d div 2 ^ m \<Longrightarrow> n \<le> m" by blast
  have "n \<le> m' \<and> n + ?d \<le> n' \<and> below (m' - n) e c" if e: "0 < e" "below m' e a" "below n' e b" for e m' n'
  proof -
    have "h + m' = h' + n'"
      using node_at_bit_len[OF node_at_ancestor[OF assms(1) e(2,1)]]
        node_at_bit_len[OF node_at_ancestor[OF assms(2) e(3,1)]]
        node_at_ancestor[OF assms(1) e(2,1)] node_at_ancestor[OF assms(2) e(3,1)]
      by (auto simp: node_at_def)
    then have n': "n' = m' + ?d" using assms(3) by simp
    then have "a div 2 ^ m' = b div 2 ^ ?d div 2 ^ m'"
      using e below_add[of m' ?d e b] by (simp add: below_def)
    from c(6)[OF this] have "n \<le> m'" .
    with n' e(2) c(4) below_add[of "m' - n" n e a] show ?thesis by (simp add: below_def)
  qed
  with c show ?thesis
    by (intro exI[of _ c] exI[of _ n]) (auto simp: below_add)
qed

lemma get_lca_lowest:
  assumes "node_at h a" "node_at h' b"
  shows "\<exists>c m n. get_lca a b = Some c \<and> 0 < c \<and> below m c a \<and> below n c b \<and>
    (\<forall>e m' n'. 0 < e \<and> below m' e a \<and> below n' e b \<longrightarrow> m \<le> m' \<and> n \<le> n' \<and> below (m' - m) e c)"
proof -
  consider "a = b" | "a < b" | "b < a" by linarith
  then show ?thesis
  proof cases
    case 1
    then show ?thesis
      using assms by (intro exI[of _ a] exI[of _ 0]) (auto simp: get_lca_def below_def dest: node_at_pos)
  next
    case 2
    then show ?thesis
      using lca_shift_lowest[OF assms node_at_height_mono[OF assms]] by (simp add: get_lca_eq[OF assms]) blast
  next
    case 3
    from lca_shift_lowest[OF assms(2,1) node_at_height_mono[OF assms(2,1)]] 3 obtain c n where
      c: "get_lca a b = Some c" "0 < c" "below n c b" "below (n + (h' - h)) c a"
        "\<And>e m' n'. 0 < e \<and> below m' e b \<and> below n' e a \<Longrightarrow> n \<le> m' \<and> n + (h' - h) \<le> n' \<and> below (m' - n) e c"
      by (auto simp: get_lca_eq[OF assms])
    have "below (m' - m) e c" if "below m c a" "below m' e a" "m \<le> m'" for m m' e
      using that below_add[of "m' - m" m e a] by (simp add: below_def)
    with c show ?thesis
      by (intro exI[of _ c] exI[of _ "n + (h' - h)"] exI[of _ n]) blast
  qed
qed

text \<open>The index that \<^verbatim>\<open>get_lca\<close> calculates from the bits of two indices is an ancestor of both nodes, and every
  common ancestor of the two nodes is an ancestor of it. The calculation does not panic for nodes of the tree.\<close>

theorem get_lca_is_lowest_common_ancestor:
  assumes "0 < a" "a < 2 ^ 252" "0 < b" "b < 2 ^ 252"
  shows "\<exists>c m n. get_lca a b = Some c \<and> below m c a \<and> below n c b \<and>
    (\<forall>e m' n'. 0 < e \<and> below m' e a \<and> below n' e b \<longrightarrow> m \<le> m' \<and> n \<le> n' \<and> below (m' - m) e c)"
  using get_lca_lowest[OF node_at_ex[OF assms(1,2)] node_at_ex[OF assms(3,4)]] by blast

theorem get_lca_is_lowest_common_ancestor_witness:
  "\<exists>c m n. get_lca 12 27 = Some c \<and> below m c 12 \<and> below n c 27"
proof -
  have "(0 :: int) < 12" "(12 :: int) < 2 ^ 252" "(0 :: int) < 27" "(27 :: int) < 2 ^ 252" by simp_all
  from get_lca_is_lowest_common_ancestor[OF this] show ?thesis by blast
qed

end
