(* ===== verification/Patricia_Nodes.thy ===== *)
theory Patricia_Nodes
  imports Patricia_Indices
begin

text \<open>
  The nodes of a Patricia tree with their hashes and their representation in storage:
  \<^verbatim>\<open>node_data\<close>, \<^verbatim>\<open>updated_skeleton_tree/hash_function.rs\<close>, \<^verbatim>\<open>filled_tree/node.rs\<close>,
  \<^verbatim>\<open>filled_tree/node_serde.rs\<close> and \<^verbatim>\<open>storage\<close> of the crate \<^verbatim>\<open>starknet_patricia\<close>. The type of leaves is
  a parameter: \<open>leaf_ops\<close> is the trait \<^verbatim>\<open>Leaf\<close>. The trees take the method \<^verbatim>\<open>compute_node_hash\<close> of the
  trait \<^verbatim>\<open>TreeHashFunction\<close> as an argument; the hash function of two field elements is a parameter.
\<close>

section \<open>Results\<close>

text \<open>Rust's \<^verbatim>\<open>?\<close> for a computation that may panic or return an error, and the conversion of the error.\<close>

definition rs_and_then :: "('e + 'a) option \<Rightarrow> ('a \<Rightarrow> ('e + 'b) option) \<Rightarrow> ('e + 'b) option" where
  "rs_and_then m f =
     (case m of None \<Rightarrow> None | Some (Inl e) \<Rightarrow> Some (Inl e) | Some (Inr a) \<Rightarrow> f a)"

definition rs_map_err :: "('e \<Rightarrow> 'f) \<Rightarrow> ('e + 'a) option \<Rightarrow> ('f + 'a) option" where
  "rs_map_err c m = map_option (map_sum c id) m"

lemma rs_and_then_simps [simp]:
  "rs_and_then None f = None"
  "rs_and_then (Some (Inl e)) f = Some (Inl e)"
  "rs_and_then (Some (Inr a)) f = f a"
  by (simp_all add: rs_and_then_def)

lemma rs_map_err_simps [simp]:
  "rs_map_err c None = None"
  "rs_map_err c (Some (Inl e)) = Some (Inl (c e))"
  "rs_map_err c (Some (Inr a)) = Some (Inr a)"
  by (simp_all add: rs_map_err_def)

lemma rs_and_then_Inr_iff:
  "rs_and_then m f = Some (Inr b) \<longleftrightarrow> (\<exists>a. m = Some (Inr a) \<and> f a = Some (Inr b))"
  by (auto simp: rs_and_then_def split: option.splits sum.splits)

section \<open>Bytes\<close>

type_synonym bytes = "u8 list"

text \<open>A natural number as the given number of bytes, the most significant byte first.\<close>

fun to_be_bytes :: "nat \<Rightarrow> int \<Rightarrow> bytes" where
  "to_be_bytes 0 x = []"
| "to_be_bytes (Suc n) x = to_be_bytes n (x div 256) @ [word_of_int x]"

definition from_be_bytes :: "bytes \<Rightarrow> int" where
  "from_be_bytes bs = foldl (\<lambda>a b. a * 256 + uint b) 0 bs"

lemma length_to_be_bytes [simp]: "length (to_be_bytes n x) = n"
  by (induction n x rule: to_be_bytes.induct) simp_all

lemma from_to_be_bytes: "0 \<le> x \<Longrightarrow> x < 256 ^ n \<Longrightarrow> from_be_bytes (to_be_bytes n x) = x"
proof (induction n x rule: to_be_bytes.induct)
  case (2 n x)
  then have "from_be_bytes (to_be_bytes n (x div 256)) = x div 256" by (auto intro: 2)
  then show ?case by (simp add: from_be_bytes_def uint_word_of_int)
qed (simp add: from_be_bytes_def)

lemma to_be_bytes_inj:
  "0 \<le> x \<Longrightarrow> x < 256 ^ n \<Longrightarrow> 0 \<le> y \<Longrightarrow> y < 256 ^ n \<Longrightarrow> to_be_bytes n x = to_be_bytes n y \<longleftrightarrow> x = y"
  using from_to_be_bytes by metis

definition bytes_of_string :: "string \<Rightarrow> bytes" where
  "bytes_of_string s = map (\<lambda>c. of_char c) s"

text \<open>A field element as bytes, and the element that bytes denote.\<close>

definition felt_to_bytes_be :: "felt_int \<Rightarrow> bytes" where
  "felt_to_bytes_be x = to_be_bytes 32 x"

definition felt_from_bytes_be_slice :: "bytes \<Rightarrow> felt_int" where
  "felt_from_bytes_be_slice bs = from_be_bytes bs mod felt_prime_int"

definition felt_ok :: "felt_int \<Rightarrow> bool" where
  "felt_ok x \<longleftrightarrow> 0 \<le> x \<and> x < felt_prime_int"

lemma felt_round_trip [simp]: "felt_ok x \<Longrightarrow> felt_from_bytes_be_slice (felt_to_bytes_be x) = x"
  by (simp add: felt_ok_def felt_from_bytes_be_slice_def felt_to_bytes_be_def from_to_be_bytes felt_prime_int_def)

lemma length_felt_to_bytes_be [simp]: "length (felt_to_bytes_be x) = 32"
  by (simp add: felt_to_bytes_be_def)

lemma felt_to_bytes_be_inj: "felt_ok x \<Longrightarrow> felt_ok y \<Longrightarrow> felt_to_bytes_be x = felt_to_bytes_be y \<longleftrightarrow> x = y"
  by (metis felt_round_trip)

section \<open>Storage\<close>

type_synonym storage_key = bytes
type_synonym storage_value = bytes

datatype starknet_prefix = InnerNode | StorageLeaf | StateTreeLeaf | CompiledClassLeaf

fun prefix_to_bytes :: "starknet_prefix \<Rightarrow> bytes" where
  "prefix_to_bytes InnerNode = bytes_of_string ''patricia_node''"
| "prefix_to_bytes StorageLeaf = bytes_of_string ''starknet_storage_leaf''"
| "prefix_to_bytes StateTreeLeaf = bytes_of_string ''contract_state''"
| "prefix_to_bytes CompiledClassLeaf = bytes_of_string ''contract_class_leaf''"

definition create_db_key :: "bytes \<Rightarrow> bytes \<Rightarrow> storage_key" where
  "create_db_key prefix suffix = prefix @ bytes_of_string '':'' @ suffix"

text \<open>\<^verbatim>\<open>MapStorage\<close>.\<close>

type_synonym map_storage = "storage_key \<rightharpoonup> storage_value"

definition storage_get :: "map_storage \<Rightarrow> storage_key \<Rightarrow> storage_value option" where
  "storage_get s key = s key"

definition storage_set :: "map_storage \<Rightarrow> storage_key \<Rightarrow> storage_value \<Rightarrow> map_storage \<times> storage_value option" where
  "storage_set s key val = (s(key \<mapsto> val), s key)"

definition storage_mget :: "map_storage \<Rightarrow> storage_key list \<Rightarrow> storage_value option list" where
  "storage_mget s keys = map (storage_get s) keys"

definition storage_mset :: "map_storage \<Rightarrow> (storage_key \<times> storage_value) list \<Rightarrow> map_storage" where
  "storage_mset s key_to_value = s ++ map_of key_to_value"

definition storage_delete :: "map_storage \<Rightarrow> storage_key \<Rightarrow> map_storage \<times> storage_value option" where
  "storage_delete s key = (s(key := None), s key)"

datatype storage_error = MissingKey storage_key

datatype deserialization_error =
    KeyDuplicate string
  | NonExistingKey string
  | ParsingError
  | EdgePathErr edge_path_error
  | PathToBottomErr path_to_bottom_error
  | LeafPrefixError bytes
  | StringConversionError
  | FeltParsingError
  | LeafTypeError

section \<open>Leaves\<close>

datatype leaf_error = LeafComputationError string | MissingLeafModificationData node_index

record ('l, 'inp, 'outp) leaf_ops =
  lf_default :: 'l
  lf_is_empty :: "'l \<Rightarrow> bool"
  lf_create :: "'inp \<Rightarrow> leaf_error + 'l \<times> 'outp"
  lf_serialize :: "'l \<Rightarrow> storage_value"
  lf_get_prefix :: "'l \<Rightarrow> bytes"
  lf_deserialize :: "storage_value \<Rightarrow> deserialization_error + 'l"
  lf_prefix :: bytes

type_synonym 'l leaf_modifications = "(node_index \<times> 'l) list"

definition from_modifications :: "node_index \<Rightarrow> 'l leaf_modifications \<Rightarrow> leaf_error + 'l" where
  "from_modifications index leaf_modifications =
     (case map_of leaf_modifications index of
        None \<Rightarrow> Inl (MissingLeafModificationData index)
      | Some leaf_data \<Rightarrow> Inr leaf_data)"

datatype skeleton_leaf = SkeletonZero | SkeletonNonZero

definition skeleton_leaf_is_zero :: "skeleton_leaf \<Rightarrow> bool" where
  "skeleton_leaf_is_zero l \<longleftrightarrow> l = SkeletonZero"

definition skeleton_leaf_from :: "felt_int \<Rightarrow> skeleton_leaf" where
  "skeleton_leaf_from v = (if v = 0 then SkeletonZero else SkeletonNonZero)"

section \<open>Nodes\<close>

datatype 'l node_data =
    BinaryData (left_hash: hash_output) (right_hash: hash_output)
  | EdgeData (bottom_hash: hash_output) (path_to_bottom_of: path_to_bottom)
  | LeafData 'l

record 'l filled_node =
  fn_hash :: hash_output
  fn_data :: "'l node_data"

text \<open>The hash of a node, from a hash function for pairs and one for leaves.\<close>

fun compute_node_hash_with_inner_hash_function ::
    "(felt_int \<Rightarrow> felt_int \<Rightarrow> hash_output) \<Rightarrow> ('l \<Rightarrow> hash_output) \<Rightarrow> 'l node_data \<Rightarrow> hash_output" where
  "compute_node_hash_with_inner_hash_function H leaf_hash (BinaryData l r) = H l r"
| "compute_node_hash_with_inner_hash_function H leaf_hash (EdgeData b p) =
     (H b (pb_path p) + int (pb_length p)) mod felt_prime_int"
| "compute_node_hash_with_inner_hash_function H leaf_hash (LeafData l) = leaf_hash l"

section \<open>The representation in storage\<close>

definition SERIALIZE_HASH_BYTES :: nat where
  "SERIALIZE_HASH_BYTES = 32"

definition BINARY_BYTES :: nat where
  "BINARY_BYTES = 2 * SERIALIZE_HASH_BYTES"

definition EDGE_LENGTH_BYTES :: nat where
  "EDGE_LENGTH_BYTES = 1"

definition EDGE_PATH_BYTES :: nat where
  "EDGE_PATH_BYTES = 32"

definition EDGE_BYTES :: nat where
  "EDGE_BYTES = SERIALIZE_HASH_BYTES + EDGE_PATH_BYTES + EDGE_LENGTH_BYTES"

fun node_serialize :: "('l, 'inp, 'outp) leaf_ops \<Rightarrow> 'l node_data \<Rightarrow> storage_value" where
  "node_serialize L (BinaryData l r) = felt_to_bytes_be l @ felt_to_bytes_be r"
| "node_serialize L (EdgeData b p) =
     felt_to_bytes_be b @ to_be_bytes 32 (pb_path p) @ to_be_bytes 1 (int (pb_length p))"
| "node_serialize L (LeafData l) = lf_serialize L l"

fun node_get_prefix :: "('l, 'inp, 'outp) leaf_ops \<Rightarrow> 'l node_data \<Rightarrow> bytes" where
  "node_get_prefix L (LeafData l) = lf_get_prefix L l"
| "node_get_prefix L _ = prefix_to_bytes InnerNode"

definition db_key :: "('l, 'inp, 'outp) leaf_ops \<Rightarrow> 'l filled_node \<Rightarrow> storage_key" where
  "db_key L n = create_db_key (node_get_prefix L (fn_data n)) (felt_to_bytes_be (fn_hash n))"

definition node_deserialize ::
    "('l, 'inp, 'outp) leaf_ops \<Rightarrow> hash_output \<Rightarrow> storage_value \<Rightarrow> bool
      \<Rightarrow> (deserialization_error + 'l filled_node) option" where
  "node_deserialize L node_hash val is_leaf =
     (if is_leaf then
        (case lf_deserialize L val of
           Inl e \<Rightarrow> Some (Inl e)
         | Inr l \<Rightarrow> Some (Inr \<lparr>fn_hash = node_hash, fn_data = LeafData l\<rparr>))
      else if length val = BINARY_BYTES then
        Some (Inr \<lparr>fn_hash = node_hash, fn_data =
          BinaryData (felt_from_bytes_be_slice (take SERIALIZE_HASH_BYTES val))
            (felt_from_bytes_be_slice (drop SERIALIZE_HASH_BYTES val))\<rparr>)
      else do {
        rs_assert (length val = EDGE_BYTES);
        path \<leftarrow> edge_path_from (from_be_bytes (take EDGE_PATH_BYTES (drop SERIALIZE_HASH_BYTES val)));
        case edge_path_length_new (unat (val ! (EDGE_BYTES - 1))) of
          Inl e \<Rightarrow> Some (Inl (EdgePathErr e))
        | Inr n \<Rightarrow> (case path_to_bottom_new path n of
            Inl e \<Rightarrow> Some (Inl (PathToBottomErr e))
          | Inr p \<Rightarrow> Some (Inr \<lparr>fn_hash = node_hash, fn_data =
              EdgeData (felt_from_bytes_be_slice (take SERIALIZE_HASH_BYTES val)) p\<rparr>)) })"

text \<open>The nodes that the code writes: hashes are field elements and paths are not longer than their length.\<close>

fun node_ok :: "('l, 'inp, 'outp) leaf_ops \<Rightarrow> 'l node_data \<Rightarrow> bool" where
  "node_ok L (BinaryData l r) \<longleftrightarrow> felt_ok l \<and> felt_ok r"
| "node_ok L (EdgeData b p) \<longleftrightarrow> felt_ok b \<and> path_ok p \<and> pb_length p \<le> ACTUAL_HEIGHT"
| "node_ok L (LeafData l) \<longleftrightarrow> lf_deserialize L (lf_serialize L l) = Inr l"

fun is_leaf_data :: "'l node_data \<Rightarrow> bool" where
  "is_leaf_data (LeafData l) \<longleftrightarrow> True"
| "is_leaf_data _ \<longleftrightarrow> False"

lemma path_max: "path_ok p \<Longrightarrow> pb_length p \<le> 251 \<Longrightarrow> pb_path p < 2 ^ 251"
  using power_increasing[of "pb_length p" 251 "2 :: int"] by (simp add: path_ok_def)

lemma node_deserialize_serialize:
  assumes "node_ok L d"
  shows "node_deserialize L h (node_serialize L d) (is_leaf_data d) = Some (Inr \<lparr>fn_hash = h, fn_data = d\<rparr>)"
proof (cases d)
  case (EdgeData b p)
  let ?v = "node_serialize L d"
  have ok: "felt_ok b" "path_ok p" "pb_length p \<le> 251" using assms EdgeData by (simp_all add: ACTUAL_HEIGHT_def)
  have len: "unat (word_of_int (int (pb_length p)) :: u8) = pb_length p"
    using ok(3) by (simp add: unsigned_of_nat take_bit_nat_eq_self)
  have v: "take 32 ?v = felt_to_bytes_be b" "take 32 (drop 32 ?v) = to_be_bytes 32 (pb_path p)"
    "?v ! 64 = word_of_int (int (pb_length p))" "length ?v = 65"
    by (simp_all add: EdgeData nth_append)
  have "from_be_bytes (to_be_bytes 32 (pb_path p)) = pb_path p"
    using ok path_max[OF ok(2,3)] by (intro from_to_be_bytes) (simp_all add: path_ok_def)
  with ok path_max[OF ok(2,3)] v len path_to_bottom_new_ok[OF ok(2)] show ?thesis
    by (simp add: node_deserialize_def BINARY_BYTES_def EDGE_BYTES_def SERIALIZE_HASH_BYTES_def EDGE_PATH_BYTES_def
      EDGE_LENGTH_BYTES_def edge_path_from_def MAX_PATH_def ACTUAL_HEIGHT_def edge_path_length_new_def EdgeData
      del: node_serialize.simps)
qed (use assms in \<open>simp_all add: node_deserialize_def BINARY_BYTES_def SERIALIZE_HASH_BYTES_def\<close>)

text \<open>C40: Reading a node back from storage gives the node that was written: the two kinds of inner nodes are told
  apart by their length, and leaves by the index at which they are read. The node has hashes that are field elements and
  a path that fits its length; a leaf is one that its own format reads back.\<close>

theorem node_serde_round_trip:
  assumes "node_ok L d"
  shows "node_deserialize L h (node_serialize L d) (is_leaf_data d) = Some (Inr \<lparr>fn_hash = h, fn_data = d\<rparr>)"
  using assms by (rule node_deserialize_serialize)

definition sample_leaf_ops :: "(felt_int, felt_int, unit) leaf_ops" where
  "sample_leaf_ops = \<lparr>lf_default = 0, lf_is_empty = (\<lambda>v. v = 0), lf_create = (\<lambda>v. Inr (v, ())),
     lf_serialize = felt_to_bytes_be, lf_get_prefix = (\<lambda>_. prefix_to_bytes StorageLeaf),
     lf_deserialize = (\<lambda>bs. Inr (felt_from_bytes_be_slice bs)), lf_prefix = prefix_to_bytes StorageLeaf\<rparr>"

theorem node_serde_round_trip_witness:
  "node_ok sample_leaf_ops (EdgeData 7 \<lparr>pb_path = 5, pb_length = 4\<rparr>) \<and>
   node_deserialize sample_leaf_ops 9 (node_serialize sample_leaf_ops (EdgeData 7 \<lparr>pb_path = 5, pb_length = 4\<rparr>)) False =
     Some (Inr \<lparr>fn_hash = 9, fn_data = EdgeData 7 \<lparr>pb_path = 5, pb_length = 4\<rparr>\<rparr>)"
proof -
  have ok: "node_ok sample_leaf_ops (EdgeData 7 \<lparr>pb_path = 5, pb_length = 4\<rparr>)"
    by (simp add: felt_ok_def felt_prime_int_def path_ok_def ACTUAL_HEIGHT_def)
  with node_serde_round_trip[OF ok, of 9] show ?thesis by simp
qed

text \<open>Whatever bytes are stored, an inner node that is read has hashes that are field elements and, for an edge, a
  path that fits a length of at most 251; other values of the stored path or length are reported as errors or stop the
  program.\<close>

theorem deserialized_inner_node_is_well_formed:
  assumes "node_deserialize L h v False = Some (Inr n)"
  shows "fn_hash n = h \<and> \<not> is_leaf_data (fn_data n) \<and> node_ok L (fn_data n)"
proof -
  have felt: "felt_ok (felt_from_bytes_be_slice bs)" for bs
    by (simp add: felt_ok_def felt_from_bytes_be_slice_def felt_prime_int_def)
  have nonneg: "0 \<le> from_be_bytes bs" for bs
    by (induction bs rule: rev_induct) (simp_all add: from_be_bytes_def)
  have "path_ok p \<and> pb_length p \<le> ACTUAL_HEIGHT"
    if "edge_path_from (from_be_bytes bs) = Some path" "edge_path_length_new m = Inr k" "path_to_bottom_new path k = Inr p"
    for bs path m k p
    using that nonneg[of bs] bit_len_le_iff[of path k]
    by (auto simp: edge_path_from_def edge_path_length_new_def path_to_bottom_new_def path_ok_def not_less split: if_splits)
  note path = this
  show ?thesis
  proof (cases "length v = BINARY_BYTES")
    case False
    with assms obtain path where p: "edge_path_from (from_be_bytes (take EDGE_PATH_BYTES (drop SERIALIZE_HASH_BYTES v))) = Some path"
      by (auto simp: node_deserialize_def bind_eq_Some_conv)
    show ?thesis
    proof (cases "edge_path_length_new (unat (v ! (EDGE_BYTES - 1)))")
      case (Inr k)
      with assms False p felt path[OF p Inr] show ?thesis
        by (cases "path_to_bottom_new path k") (auto simp: node_deserialize_def)
    qed (use assms False p in \<open>simp add: node_deserialize_def\<close>)
  qed (use assms felt in \<open>auto simp: node_deserialize_def\<close>)
qed

theorem deserialized_inner_node_is_well_formed_witness:
  "node_ok sample_leaf_ops (BinaryData 1 2)"
proof -
  have "node_deserialize sample_leaf_ops 9 (felt_to_bytes_be 1 @ felt_to_bytes_be 2) False =
      Some (Inr \<lparr>fn_hash = 9, fn_data = BinaryData 1 2\<rparr>)"
    using node_deserialize_serialize[of sample_leaf_ops "BinaryData 1 2" 9]
    by (simp add: felt_ok_def felt_prime_int_def)
  from deserialized_inner_node_is_well_formed[OF this] show ?thesis by simp
qed

end
