(* ===== verification/Patricia_Original_Skeleton.thy ===== *)
theory Patricia_Original_Skeleton
  imports Patricia_Nodes
begin

text \<open>
  \<^verbatim>\<open>original_skeleton_tree\<close>: the part of the stored tree that an update of some leaves needs. \<open>fetch_nodes\<close> reads the
  tree level by level, from the root towards the modified leaves, and keeps the structure of the modified part and the
  hashes of the subtrees beside it. The recursion of \<open>fetch_nodes\<close> is bounded by its first argument: each call goes at
  least one level down, so that the 252 calls that \<open>create_impl\<close> allows are enough for a tree of height 251.
\<close>

datatype original_skeleton_node =
    OrigBinary
  | OrigEdge path_to_bottom
  | UnmodifiedSubTree hash_output

type_synonym original_skeleton_node_map = "(node_index \<times> original_skeleton_node) list"

record original_skeleton_tree =
  os_nodes :: original_skeleton_node_map
  os_sorted_leaf_indices :: "node_index list"

datatype original_skeleton_tree_error =
    Deserialization deserialization_error
  | StorageRead storage_error
  | ReadModificationsError node_index

type_synonym 'a original_skeleton_tree_result = "(original_skeleton_tree_error + 'a) option"

definition leaf_compare ::
    "'l leaf_modifications \<Rightarrow> node_index \<Rightarrow> 'l \<Rightarrow> original_skeleton_tree_error + bool" where
  "leaf_compare leaf_modifications index previous_leaf =
     (case map_of leaf_modifications index of
        None \<Rightarrow> Inl (ReadModificationsError index)
      | Some new_leaf \<Rightarrow> Inr (new_leaf = previous_leaf))"

section \<open>Subtrees\<close>

record sub_tree =
  st_sorted_leaf_indices :: "node_index list"
  st_root_index :: node_index
  st_root_hash :: hash_output

definition st_get_height :: "sub_tree \<Rightarrow> sub_tree_height option" where
  "st_get_height s = do {
     bit_length \<leftarrow> index_bit_length (st_root_index s);
     sub_tree_height_new (u8_sub ACTUAL_HEIGHT (u8_sub bit_length 1)) }"

definition st_is_unmodified :: "sub_tree \<Rightarrow> bool" where
  "st_is_unmodified s \<longleftrightarrow> st_sorted_leaf_indices s = []"

definition st_is_leaf :: "sub_tree \<Rightarrow> bool" where
  "st_is_leaf s \<longleftrightarrow> index_is_leaf (st_root_index s)"

definition get_bottom_subtree ::
    "sub_tree \<Rightarrow> path_to_bottom \<Rightarrow> hash_output \<Rightarrow> (sub_tree \<times> node_index list) option" where
  "get_bottom_subtree s path_to_bottom bottom_h = do {
     bottom_idx \<leftarrow> bottom_index path_to_bottom (st_root_index s);
     height \<leftarrow> st_get_height s;
     path_height \<leftarrow> sub_tree_height_new (pb_length path_to_bottom);
     let bottom_height = u8_sub height path_height;
     leftmost_in_subtree \<leftarrow> index_shl bottom_idx bottom_height;
     width \<leftarrow> index_shl ROOT bottom_height;
     rightmost_in_subtree \<leftarrow> index_add (index_sub leftmost_in_subtree ROOT) width;
     let indices = st_sorted_leaf_indices s;
     let leftmost_index = bisect_left indices leftmost_in_subtree;
     let rightmost_index = bisect_right indices rightmost_in_subtree;
     bottom_leaves \<leftarrow> subslice indices leftmost_index rightmost_index;
     before \<leftarrow> subslice indices 0 leftmost_index;
     after \<leftarrow> subslice indices rightmost_index (length indices);
     Some (\<lparr>st_sorted_leaf_indices = bottom_leaves, st_root_index = bottom_idx, st_root_hash = bottom_h\<rparr>,
       before @ after) }"

definition get_children_subtrees ::
    "sub_tree \<Rightarrow> hash_output \<Rightarrow> hash_output \<Rightarrow> (sub_tree \<times> sub_tree) option" where
  "get_children_subtrees s left_h right_h = do {
     (left_leaves, right_leaves) \<leftarrow> split_leaves (st_root_index s) (st_sorted_leaf_indices s);
     left_root_index \<leftarrow> index_mul (st_root_index s) 2;
     right_root_index \<leftarrow> index_add left_root_index ROOT;
     Some (\<lparr>st_sorted_leaf_indices = left_leaves, st_root_index = left_root_index, st_root_hash = left_h\<rparr>,
       \<lparr>st_sorted_leaf_indices = right_leaves, st_root_index = right_root_index, st_root_hash = right_h\<rparr>) }"

section \<open>Fetching the nodes\<close>

definition handle_subtree ::
    "original_skeleton_node_map \<Rightarrow> sub_tree list \<Rightarrow> sub_tree \<Rightarrow> bool
      \<Rightarrow> original_skeleton_node_map \<times> sub_tree list" where
  "handle_subtree nodes next_subtrees s should_fetch_modified_leaves =
     (if \<not> st_is_leaf s \<or> (should_fetch_modified_leaves \<and> \<not> st_is_unmodified s)
      then (nodes, next_subtrees @ [s])
      else if st_is_unmodified s
      then (AList.update (st_root_index s) (UnmodifiedSubTree (st_root_hash s)) nodes, next_subtrees)
      else (nodes, next_subtrees))"

text \<open>The warnings for trivial modifications are not modelled; a leaf without a modification is an error.\<close>

fun log_warning_for_empty_leaves ::
    "('l, 'inp, 'outp) leaf_ops \<Rightarrow> bool \<Rightarrow> node_index list \<Rightarrow> 'l leaf_modifications
      \<Rightarrow> original_skeleton_tree_error + unit" where
  "log_warning_for_empty_leaves L compare_modified_leaves [] leaf_modifications = Inr ()"
| "log_warning_for_empty_leaves L compare_modified_leaves (i # leaf_indices) leaf_modifications =
     (if \<not> compare_modified_leaves then Inr ()
      else case leaf_compare leaf_modifications i (lf_default L) of
        Inl e \<Rightarrow> Inl e
      | Inr trivial \<Rightarrow> log_warning_for_empty_leaves L compare_modified_leaves leaf_indices leaf_modifications)"

definition subtree_db_key :: "('l, 'inp, 'outp) leaf_ops \<Rightarrow> sub_tree \<Rightarrow> storage_key" where
  "subtree_db_key L s =
     create_db_key (if st_is_leaf s then lf_prefix L else prefix_to_bytes InnerNode)
       (felt_to_bytes_be (st_root_hash s))"

fun deserialize_roots ::
    "('l, 'inp, 'outp) leaf_ops \<Rightarrow> (sub_tree \<times> storage_value option) list
      \<Rightarrow> 'l filled_node list original_skeleton_tree_result" where
  "deserialize_roots L [] = Some (Inr [])"
| "deserialize_roots L ((s, optional_val) # rest) =
     (case optional_val of
        None \<Rightarrow> Some (Inl (StorageRead (MissingKey (subtree_db_key L s))))
      | Some val \<Rightarrow>
          rs_and_then (rs_map_err Deserialization (node_deserialize L (st_root_hash s) val (st_is_leaf s))) (\<lambda>root.
          rs_and_then (deserialize_roots L rest) (\<lambda>roots.
          Some (Inr (root # roots)))))"

definition calculate_subtrees_roots ::
    "('l, 'inp, 'outp) leaf_ops \<Rightarrow> map_storage \<Rightarrow> sub_tree list
      \<Rightarrow> 'l filled_node list original_skeleton_tree_result" where
  "calculate_subtrees_roots L storage subtrees =
     (let db_keys = map (subtree_db_key L) subtrees;
          db_vals = storage_mget storage db_keys
      in deserialize_roots L (zip subtrees db_vals))"

text \<open>What the loop over the subtrees of one level changes: the nodes of the skeleton, the subtrees of the next level
  and, when they are asked for, the previous leaves.\<close>

record 'l fetch_state =
  fs_nodes :: original_skeleton_node_map
  fs_next_subtrees :: "sub_tree list"
  fs_previous_leaves :: "(node_index \<times> 'l) list option"

definition fs_handle_subtree :: "bool \<Rightarrow> sub_tree \<Rightarrow> 'l fetch_state \<Rightarrow> 'l fetch_state" where
  "fs_handle_subtree should_fetch s f =
     (let (nodes, next_subtrees) = handle_subtree (fs_nodes f) (fs_next_subtrees f) s should_fetch
      in f\<lparr>fs_nodes := nodes, fs_next_subtrees := next_subtrees\<rparr>)"

definition fs_insert :: "node_index \<Rightarrow> original_skeleton_node \<Rightarrow> 'l fetch_state \<Rightarrow> 'l fetch_state" where
  "fs_insert i n f = f\<lparr>fs_nodes := AList.update i n (fs_nodes f)\<rparr>"

definition fs_extend_leaves :: "(node_index \<times> 'l) list \<Rightarrow> 'l fetch_state \<Rightarrow> 'l fetch_state" where
  "fs_extend_leaves ls f = f\<lparr>fs_previous_leaves := map_option (\<lambda>leaves. hm_extend leaves ls) (fs_previous_leaves f)\<rparr>"

definition fetch_node ::
    "('l, 'inp, 'outp) leaf_ops \<Rightarrow> 'l leaf_modifications \<Rightarrow> bool \<Rightarrow> bool \<Rightarrow> 'l filled_node \<Rightarrow> sub_tree
      \<Rightarrow> 'l fetch_state \<Rightarrow> 'l fetch_state original_skeleton_tree_result" where
  "fetch_node L leaf_modifications compare_modified_leaves should_fetch filled_root s f =
     (case fn_data filled_root of
        BinaryData left_h right_h \<Rightarrow>
          if st_is_unmodified s
          then Some (Inr (fs_insert (st_root_index s) (UnmodifiedSubTree (fn_hash filled_root)) f))
          else do {
            let f1 = fs_insert (st_root_index s) OrigBinary f;
            (left_subtree, right_subtree) \<leftarrow> get_children_subtrees s left_h right_h;
            Some (Inr (fs_handle_subtree should_fetch right_subtree (fs_handle_subtree should_fetch left_subtree f1))) }
      | EdgeData bottom_h p \<Rightarrow>
          let f1 = fs_insert (st_root_index s) (OrigEdge p) f in
          if st_is_unmodified s
          then do {
            bottom_idx \<leftarrow> bottom_index p (st_root_index s);
            Some (Inr (fs_insert bottom_idx (UnmodifiedSubTree bottom_h) f1)) }
          else do {
            (bottom_subtree, previously_empty_leaves_indices) \<leftarrow> get_bottom_subtree s p bottom_h;
            let f2 = fs_extend_leaves (map (\<lambda>i. (i, lf_default L)) previously_empty_leaves_indices) f1;
            case log_warning_for_empty_leaves L compare_modified_leaves previously_empty_leaves_indices leaf_modifications of
              Inl e \<Rightarrow> Some (Inl e)
            | Inr u \<Rightarrow> Some (Inr (fs_handle_subtree should_fetch bottom_subtree f2)) }
      | LeafData previous_leaf \<Rightarrow>
          if st_is_unmodified s then Some (Inr f)
          else if compare_modified_leaves
          then (case leaf_compare leaf_modifications (st_root_index s) previous_leaf of
              Inl e \<Rightarrow> Some (Inl e)
            | Inr trivial \<Rightarrow> Some (Inr (fs_extend_leaves [(st_root_index s, previous_leaf)] f)))
          else Some (Inr (fs_extend_leaves [(st_root_index s, previous_leaf)] f)))"

fun fetch_level ::
    "('l, 'inp, 'outp) leaf_ops \<Rightarrow> 'l leaf_modifications \<Rightarrow> bool \<Rightarrow> bool \<Rightarrow> ('l filled_node \<times> sub_tree) list
      \<Rightarrow> 'l fetch_state \<Rightarrow> 'l fetch_state original_skeleton_tree_result" where
  "fetch_level L leaf_modifications compare_modified_leaves should_fetch [] f = Some (Inr f)"
| "fetch_level L leaf_modifications compare_modified_leaves should_fetch ((filled_root, s) # rest) f =
     rs_and_then (fetch_node L leaf_modifications compare_modified_leaves should_fetch filled_root s f)
       (fetch_level L leaf_modifications compare_modified_leaves should_fetch rest)"

fun fetch_nodes ::
    "nat \<Rightarrow> ('l, 'inp, 'outp) leaf_ops \<Rightarrow> map_storage \<Rightarrow> 'l leaf_modifications \<Rightarrow> bool \<Rightarrow> sub_tree list
      \<Rightarrow> original_skeleton_node_map \<Rightarrow> (node_index \<times> 'l) list option
      \<Rightarrow> (original_skeleton_node_map \<times> (node_index \<times> 'l) list option) original_skeleton_tree_result" where
  "fetch_nodes fuel L storage leaf_modifications compare_modified_leaves [] nodes previous_leaves =
     Some (Inr (nodes, previous_leaves))"
| "fetch_nodes 0 L storage leaf_modifications compare_modified_leaves (s # subtrees) nodes previous_leaves = None"
| "fetch_nodes (Suc fuel) L storage leaf_modifications compare_modified_leaves (s # subtrees) nodes previous_leaves =
     (let should_fetch_modified_leaves = compare_modified_leaves \<or> previous_leaves \<noteq> None in
      rs_and_then (calculate_subtrees_roots L storage (s # subtrees)) (\<lambda>filled_roots.
      rs_and_then (fetch_level L leaf_modifications compare_modified_leaves should_fetch_modified_leaves
          (zip filled_roots (s # subtrees))
          \<lparr>fs_nodes = nodes, fs_next_subtrees = [], fs_previous_leaves = previous_leaves\<rparr>) (\<lambda>f.
      fetch_nodes fuel L storage leaf_modifications compare_modified_leaves (fs_next_subtrees f) (fs_nodes f)
        (fs_previous_leaves f))))"

section \<open>Creation\<close>

definition original_create_unmodified :: "hash_output \<Rightarrow> original_skeleton_tree" where
  "original_create_unmodified root_hash =
     \<lparr>os_nodes = [(ROOT, UnmodifiedSubTree root_hash)], os_sorted_leaf_indices = []\<rparr>"

definition original_create_empty :: "node_index list \<Rightarrow> original_skeleton_tree" where
  "original_create_empty sorted_leaf_indices = \<lparr>os_nodes = [], os_sorted_leaf_indices = sorted_leaf_indices\<rparr>"

definition original_create ::
    "('l, 'inp, 'outp) leaf_ops \<Rightarrow> map_storage \<Rightarrow> hash_output \<Rightarrow> node_index list \<Rightarrow> bool \<Rightarrow> 'l leaf_modifications
      \<Rightarrow> original_skeleton_tree original_skeleton_tree_result" where
  "original_create L storage root_hash sorted_leaf_indices compare_modified_leaves leaf_modifications =
     (if sorted_leaf_indices = [] then Some (Inr (original_create_unmodified root_hash))
      else if root_hash = ROOT_OF_EMPTY_TREE
      then (case log_warning_for_empty_leaves L compare_modified_leaves sorted_leaf_indices leaf_modifications of
          Inl e \<Rightarrow> Some (Inl e)
        | Inr u \<Rightarrow> Some (Inr (original_create_empty sorted_leaf_indices)))
      else
        rs_and_then (fetch_nodes (Suc ACTUAL_HEIGHT) L storage leaf_modifications compare_modified_leaves
            [\<lparr>st_sorted_leaf_indices = sorted_leaf_indices, st_root_index = ROOT, st_root_hash = root_hash\<rparr>] [] None)
          (\<lambda>(nodes, previous_leaves). Some (Inr \<lparr>os_nodes = nodes, os_sorted_leaf_indices = sorted_leaf_indices\<rparr>)))"

definition create_and_get_previous_leaves ::
    "('l, 'inp, 'outp) leaf_ops \<Rightarrow> map_storage \<Rightarrow> hash_output \<Rightarrow> node_index list \<Rightarrow> bool \<Rightarrow> 'l leaf_modifications
      \<Rightarrow> (original_skeleton_tree \<times> (node_index \<times> 'l) list) original_skeleton_tree_result" where
  "create_and_get_previous_leaves L storage root_hash sorted_leaf_indices compare_modified_leaves leaf_modifications =
     (if sorted_leaf_indices = [] then Some (Inr (original_create_unmodified root_hash, []))
      else if root_hash = ROOT_OF_EMPTY_TREE
      then Some (Inr (original_create_empty sorted_leaf_indices,
        hm_extend [] (map (\<lambda>i. (i, lf_default L)) sorted_leaf_indices)))
      else
        rs_and_then (fetch_nodes (Suc ACTUAL_HEIGHT) L storage leaf_modifications compare_modified_leaves
            [\<lparr>st_sorted_leaf_indices = sorted_leaf_indices, st_root_index = ROOT, st_root_hash = root_hash\<rparr>] [] (Some []))
          (\<lambda>(nodes, previous_leaves). case previous_leaves of
              None \<Rightarrow> None
            | Some leaves \<Rightarrow>
                Some (Inr (\<lparr>os_nodes = nodes, os_sorted_leaf_indices = sorted_leaf_indices\<rparr>, leaves))))"

end
