(* ===== verification/Patricia_Updated_Skeleton.thy ===== *)
theory Patricia_Updated_Skeleton
  imports Patricia_Original_Skeleton
begin

text \<open>
  \<^verbatim>\<open>updated_skeleton_tree\<close>: the structure of the tree after the modifications, from the original skeleton and the
  modified leaves. The nodes that are known at once, modified leaves and unmodified subtrees, are finalized first; the
  others are calculated bottom up as temporary nodes, which are finalized when their parent is known to keep their form.
  The recursive functions are bounded by their first argument; each call goes at least one level down in the tree, and 252
  calls are allowed for a tree of height 251.
\<close>

datatype updated_skeleton_node =
    UpdBinary
  | UpdEdge path_to_bottom
  | UpdUnmodifiedSubTree hash_output
  | UpdLeaf

type_synonym updated_skeleton_node_map = "(node_index \<times> updated_skeleton_node) list"

datatype updated_skeleton_tree_error = MissingNode node_index

text \<open>A temporary node: a deleted node, a new or modified leaf, or an inner node.\<close>

datatype temp_skeleton_node =
    TempEmpty
  | TempLeaf
  | TempOriginal original_skeleton_node

definition temp_is_empty :: "temp_skeleton_node \<Rightarrow> bool" where
  "temp_is_empty t \<longleftrightarrow> t = TempEmpty"

definition get_path_to_lca :: "node_index \<Rightarrow> node_index list \<Rightarrow> path_to_bottom option" where
  "get_path_to_lca root_index subtree_indices =
     (if subtree_indices = [] then None
      else do {
        let first_index = hd subtree_indices;
        lca \<leftarrow> (if length subtree_indices = 1 then Some first_index
                else get_lca first_index (List.last subtree_indices));
        get_path_to_descendant root_index lca })"

definition has_leaves_on_both_sides :: "node_index \<Rightarrow> node_index list \<Rightarrow> bool option" where
  "has_leaves_on_both_sides root_index leaf_indices =
     (if leaf_indices = [] then Some False
      else do {
        (left_leaves, right_leaves) \<leftarrow> split_leaves root_index leaf_indices;
        Some (left_leaves \<noteq> [] \<and> right_leaves \<noteq> []) })"

section \<open>The bottom layer\<close>

definition finalize_bottom_layer ::
    "original_skeleton_tree \<Rightarrow> skeleton_leaf leaf_modifications \<Rightarrow> updated_skeleton_node_map" where
  "finalize_bottom_layer original_skeleton leaf_modifications =
     hm_extend []
       (map (\<lambda>(index, leaf). (index, UpdLeaf)) (filter (\<lambda>(index, leaf). \<not> skeleton_leaf_is_zero leaf) leaf_modifications) @
        List.map_filter (\<lambda>(index, node). case node of
            UnmodifiedSubTree h \<Rightarrow> Some (index, UpdUnmodifiedSubTree h)
          | OrigBinary \<Rightarrow> None
          | OrigEdge p \<Rightarrow> None) (os_nodes original_skeleton))"

section \<open>Nodes from their children\<close>

definition node_from_edge_data ::
    "updated_skeleton_node_map \<Rightarrow> path_to_bottom \<Rightarrow> node_index \<Rightarrow> temp_skeleton_node
      \<Rightarrow> (updated_skeleton_node_map \<times> temp_skeleton_node) option" where
  "node_from_edge_data u path bottom_idx bottom =
     (case bottom of
        TempEmpty \<Rightarrow> Some (u, TempEmpty)
      | TempLeaf \<Rightarrow> do {
          rs_assert (map_of u bottom_idx \<noteq> None);
          Some (u, TempOriginal (OrigEdge path)) }
      | TempOriginal original_node \<Rightarrow>
          (case original_node of
             OrigEdge path_to_bottom \<Rightarrow> do {
               p \<leftarrow> concat_paths path path_to_bottom;
               Some (u, TempOriginal (OrigEdge p)) }
           | OrigBinary \<Rightarrow> Some (AList.update bottom_idx UpdBinary u, TempOriginal (OrigEdge path))
           | UnmodifiedSubTree h \<Rightarrow> Some (u, TempOriginal (OrigEdge path))))"

text \<open>A child of a binary node cannot change its form any more.\<close>

definition finalize_child ::
    "updated_skeleton_node_map \<Rightarrow> node_index \<Rightarrow> temp_skeleton_node \<Rightarrow> updated_skeleton_node_map option" where
  "finalize_child u index node =
     (case node of
        TempLeaf \<Rightarrow> do { rs_assert (map_of u index \<noteq> None); Some u }
      | TempEmpty \<Rightarrow> None
      | TempOriginal original_node \<Rightarrow>
          (case original_node of
             OrigBinary \<Rightarrow> Some (AList.update index UpdBinary u)
           | OrigEdge p \<Rightarrow> Some (AList.update index (UpdEdge p) u)
           | UnmodifiedSubTree h \<Rightarrow> Some u))"

definition node_from_binary_data ::
    "updated_skeleton_node_map \<Rightarrow> node_index \<Rightarrow> temp_skeleton_node \<Rightarrow> temp_skeleton_node
      \<Rightarrow> (updated_skeleton_node_map \<times> temp_skeleton_node) option" where
  "node_from_binary_data u root_index left right = do {
     (left_index, right_index) \<leftarrow> get_children_indices root_index;
     if \<not> temp_is_empty left \<and> \<not> temp_is_empty right then do {
       u1 \<leftarrow> finalize_child u left_index left;
       u2 \<leftarrow> finalize_child u1 right_index right;
       Some (u2, TempOriginal OrigBinary) }
     else
       (let (child_node, child_index, child_direction) =
          (if right = TempEmpty then (left, left_index, LEFT_CHILD) else (right, right_index, RIGHT_CHILD))
        in node_from_edge_data u child_direction child_index child_node) }"

section \<open>Updates of subtrees\<close>

fun update_node_in_empty_tree ::
    "nat \<Rightarrow> updated_skeleton_node_map \<Rightarrow> node_index \<Rightarrow> node_index list
      \<Rightarrow> (updated_skeleton_node_map \<times> temp_skeleton_node) option" where
  "update_node_in_empty_tree 0 u root_index leaf_indices = None"
| "update_node_in_empty_tree (Suc fuel) u root_index leaf_indices =
     (if index_is_leaf root_index then do {
        rs_assert (length leaf_indices = 1 \<and> hd leaf_indices = root_index);
        Some (u, if map_of u root_index = None then TempEmpty else TempLeaf) }
      else do {
        both_sides \<leftarrow> has_leaves_on_both_sides root_index leaf_indices;
        if both_sides then do {
          (left_indices, right_indices) \<leftarrow> split_leaves root_index leaf_indices;
          (left_child_index, right_child_index) \<leftarrow> get_children_indices root_index;
          (u1, left_child) \<leftarrow> update_node_in_empty_tree fuel u left_child_index left_indices;
          (u2, right_child) \<leftarrow> update_node_in_empty_tree fuel u1 right_child_index right_indices;
          node_from_binary_data u2 root_index left_child right_child }
        else do {
          path_to_lca \<leftarrow> get_path_to_lca root_index leaf_indices;
          bottom_idx \<leftarrow> bottom_index path_to_lca root_index;
          (u1, bottom) \<leftarrow> update_node_in_empty_tree fuel u bottom_idx leaf_indices;
          node_from_edge_data u1 path_to_lca bottom_idx bottom } })"

text \<open>\<open>update_edge_node\<close> and \<open>update_node_in_nonempty_tree\<close> call each other; the former takes the latter as an
  argument.\<close>

type_synonym update_result =
  "(updated_skeleton_node_map \<times> original_skeleton_node_map \<times> temp_skeleton_node) option"

definition update_edge_node ::
    "nat \<Rightarrow> (updated_skeleton_node_map \<Rightarrow> node_index \<Rightarrow> original_skeleton_node_map \<Rightarrow> node_index list \<Rightarrow> update_result)
      \<Rightarrow> updated_skeleton_node_map \<Rightarrow> node_index \<Rightarrow> path_to_bottom \<Rightarrow> original_skeleton_node_map \<Rightarrow> node_index list
      \<Rightarrow> update_result" where
  "update_edge_node fuel update_nonempty u root_index path_to_bottom original_skeleton leaf_indices = do {
     (left_child_index, right_child_index) \<leftarrow> get_children_indices root_index;
     (left_indices, right_indices) \<leftarrow> split_leaves root_index leaf_indices;
     let was_left_nonempty = is_left_descendant path_to_bottom;
     if (right_indices \<noteq> [] \<and> was_left_nonempty) \<or> (left_indices \<noteq> [] \<and> \<not> was_left_nonempty) then do {
       let (nonempty_subtree_child_index, nonempty_subtree_leaf_indices,
            empty_subtree_child_index, empty_subtree_leaf_indices) =
         (if was_left_nonempty then (left_child_index, left_indices, right_child_index, right_indices)
          else (right_child_index, right_indices, left_child_index, left_indices));
       o1 \<leftarrow> (if 1 < pb_length path_to_bottom then
               (case remove_first_edges path_to_bottom 1 of
                  Inl e \<Rightarrow> None
                | Inr p \<Rightarrow> Some (AList.update nonempty_subtree_child_index (OrigEdge p) original_skeleton))
             else Some original_skeleton);
       (u1, o2, orig_nonempty_subtree_child) \<leftarrow>
         update_nonempty u nonempty_subtree_child_index o1 nonempty_subtree_leaf_indices;
       (u2, orig_empty_subtree_child) \<leftarrow>
         update_node_in_empty_tree fuel u1 empty_subtree_child_index empty_subtree_leaf_indices;
       let (left, right) =
         (if was_left_nonempty then (orig_nonempty_subtree_child, orig_empty_subtree_child)
          else (orig_empty_subtree_child, orig_nonempty_subtree_child));
       (u3, t) \<leftarrow> node_from_binary_data u2 root_index left right;
       Some (u3, o2, t) }
     else do {
       path_to_leaves_lca \<leftarrow> get_path_to_lca root_index leaf_indices;
       leaves_lca_index \<leftarrow> bottom_index path_to_leaves_lca root_index;
       bottom_idx \<leftarrow> bottom_index path_to_bottom root_index;
       path_to_new_bottom \<leftarrow> get_path_to_lca root_index (sorted_leaf_indices_new [leaves_lca_index, bottom_idx]);
       new_bottom_index \<leftarrow> bottom_index path_to_new_bottom root_index;
       o1 \<leftarrow> (if new_bottom_index = bottom_idx then do {
               rs_assert (path_to_new_bottom = path_to_bottom);
               Some original_skeleton }
             else
               (case remove_first_edges path_to_bottom (pb_length path_to_new_bottom) of
                  Inl e \<Rightarrow> None
                | Inr p \<Rightarrow> Some (AList.update new_bottom_index (OrigEdge p) original_skeleton)));
       (u1, o2, bottom) \<leftarrow> update_nonempty u new_bottom_index o1 leaf_indices;
       (u2, t) \<leftarrow> node_from_edge_data u1 path_to_new_bottom new_bottom_index bottom;
       Some (u2, o2, t) } }"

primrec update_node_in_nonempty_tree ::
    "nat \<Rightarrow> updated_skeleton_node_map \<Rightarrow> node_index \<Rightarrow> original_skeleton_node_map \<Rightarrow> node_index list
      \<Rightarrow> update_result" where
  "update_node_in_nonempty_tree 0 u root_index original_skeleton leaf_indices = None"
| "update_node_in_nonempty_tree (Suc fuel) u root_index original_skeleton leaf_indices =
     (if index_is_leaf root_index \<and> root_index \<in> set leaf_indices
      then Some (u, original_skeleton, if map_of u root_index \<noteq> None then TempLeaf else TempEmpty)
      else do {
        original_node \<leftarrow> map_of original_skeleton root_index;
        if leaf_indices = [] then
          (case original_node of
             OrigBinary \<Rightarrow> None
           | _ \<Rightarrow> Some (u, original_skeleton, TempOriginal original_node))
        else
          (case original_node of
             UnmodifiedSubTree h \<Rightarrow> None
           | OrigBinary \<Rightarrow> do {
               (left_indices, right_indices) \<leftarrow> split_leaves root_index leaf_indices;
               (left_child_index, right_child_index) \<leftarrow> get_children_indices root_index;
               (u1, o1, left) \<leftarrow> update_node_in_nonempty_tree fuel u left_child_index original_skeleton left_indices;
               (u2, o2, right) \<leftarrow> update_node_in_nonempty_tree fuel u1 right_child_index o1 right_indices;
               (u3, t) \<leftarrow> node_from_binary_data u2 root_index left right;
               Some (u3, o2, t) }
           | OrigEdge p \<Rightarrow>
               update_edge_node fuel (update_node_in_nonempty_tree fuel) u root_index p original_skeleton leaf_indices) })"

section \<open>The tree\<close>

definition finalize_middle_layers ::
    "updated_skeleton_node_map \<Rightarrow> original_skeleton_tree
      \<Rightarrow> (updated_skeleton_node_map \<times> original_skeleton_tree \<times> temp_skeleton_node) option" where
  "finalize_middle_layers u original_skeleton =
     (if os_nodes original_skeleton = [] then do {
        (u1, t) \<leftarrow> update_node_in_empty_tree (Suc ACTUAL_HEIGHT) u ROOT (os_sorted_leaf_indices original_skeleton);
        Some (u1, original_skeleton, t) }
      else do {
        (u1, o1, t) \<leftarrow> update_node_in_nonempty_tree (Suc ACTUAL_HEIGHT) u ROOT (os_nodes original_skeleton)
          (os_sorted_leaf_indices original_skeleton);
        Some (u1, original_skeleton\<lparr>os_nodes := o1\<rparr>, t) })"

definition updated_create_unmodified ::
    "original_skeleton_tree \<Rightarrow> (updated_skeleton_tree_error + updated_skeleton_node_map) option" where
  "updated_create_unmodified original_skeleton =
     (case map_of (os_nodes original_skeleton) ROOT of
        None \<Rightarrow> Some (Inl (MissingNode ROOT))
      | Some (UnmodifiedSubTree root_hash) \<Rightarrow> Some (Inr [(ROOT, UpdUnmodifiedSubTree root_hash)])
      | Some _ \<Rightarrow> None)"

definition updated_create ::
    "original_skeleton_tree \<Rightarrow> skeleton_leaf leaf_modifications
      \<Rightarrow> (updated_skeleton_tree_error + updated_skeleton_node_map) option" where
  "updated_create original_skeleton leaf_modifications =
     (if leaf_modifications = [] then updated_create_unmodified original_skeleton
      else do {
        (u, o', temp_root_node) \<leftarrow>
          finalize_middle_layers (finalize_bottom_layer original_skeleton leaf_modifications) original_skeleton;
        case temp_root_node of
          TempEmpty \<Rightarrow> do { rs_assert (u = []); Some (Inr u) }
        | TempLeaf \<Rightarrow> None
        | TempOriginal original_skeleton_node \<Rightarrow> do {
            new_node \<leftarrow> (case original_skeleton_node of
                OrigBinary \<Rightarrow> Some UpdBinary
              | OrigEdge p \<Rightarrow> Some (UpdEdge p)
              | UnmodifiedSubTree h \<Rightarrow> None);
            rs_assert (map_of u ROOT = None);
            Some (Inr (AList.update ROOT new_node u)) } })"

definition updated_is_empty :: "updated_skeleton_node_map \<Rightarrow> bool option" where
  "updated_is_empty u =
     (case map_of u ROOT of
        Some (UpdUnmodifiedSubTree root_hash) \<Rightarrow> Some (root_hash = ROOT_OF_EMPTY_TREE)
      | Some _ \<Rightarrow> Some False
      | None \<Rightarrow> do { rs_assert (u = []); Some True })"

definition updated_get_node ::
    "updated_skeleton_node_map \<Rightarrow> node_index \<Rightarrow> updated_skeleton_tree_error + updated_skeleton_node" where
  "updated_get_node u index =
     (case map_of u index of Some node \<Rightarrow> Inr node | None \<Rightarrow> Inl (MissingNode index))"

end
