(* ===== verification/Patricia_Filled_Tree.thy ===== *)
theory Patricia_Filled_Tree
  imports Patricia_Updated_Skeleton
begin

text \<open>
  \<^verbatim>\<open>filled_tree/tree.rs\<close>: the hashes and data of the nodes that an update changes, calculated from the updated skeleton
  and the modified leaves. The two children of a binary node are calculated by tasks that run concurrently; they write
  to different entries of the shared maps, and the model runs them one after the other. A task that panics gives a
  \<^verbatim>\<open>JoinError\<close>. The \<^verbatim>\<open>Mutex\<close> around an entry is omitted. The recursion is bounded by its first argument, as for
  the skeletons.
\<close>

datatype filled_tree_error =
    DeletedLeafInSkeleton node_index
  | DoubleUpdate node_index
  | LeafErr leaf_error node_index
  | MissingNodePlaceholder node_index
  | MissingLeafInput node_index
  | UpdatedSkeletonError updated_skeleton_tree_error
  | JoinError

type_synonym 'a filled_tree_result = "(filled_tree_error + 'a) option"

text \<open>A map of placeholders, which are empty until they are written.\<close>

type_synonym 'a output_map = "(node_index \<times> 'a option) list"

record 'l filled_tree =
  ft_tree_map :: "(node_index \<times> 'l filled_node) list"
  ft_root_hash :: hash_output

definition is_unmodified_node :: "updated_skeleton_node \<Rightarrow> bool" where
  "is_unmodified_node n \<longleftrightarrow> (case n of UpdUnmodifiedSubTree h \<Rightarrow> True | _ \<Rightarrow> False)"

definition initialize_filled_tree_output_map_with_placeholders ::
    "updated_skeleton_node_map \<Rightarrow> 'l filled_node output_map" where
  "initialize_filled_tree_output_map_with_placeholders u =
     hm_extend [] (map (\<lambda>(index, node). (index, None)) (filter (\<lambda>(index, node). \<not> is_unmodified_node node) u))"

definition initialize_leaf_output_map_with_placeholders ::
    "(node_index \<times> 'inp) list \<Rightarrow> 'outp output_map" where
  "initialize_leaf_output_map_with_placeholders leaf_index_to_leaf_input =
     hm_extend [] (map (\<lambda>(index, inp). (index, None)) leaf_index_to_leaf_input)"

definition write_to_output_map ::
    "'a output_map \<Rightarrow> node_index \<Rightarrow> 'a \<Rightarrow> filled_tree_error + 'a output_map" where
  "write_to_output_map output_map index v =
     (case map_of output_map index of
        Some (Some existing_node) \<Rightarrow> Inl (DoubleUpdate index)
      | Some None \<Rightarrow> Inr (AList.update index (Some v) output_map)
      | None \<Rightarrow> Inl (MissingNodePlaceholder index))"

fun remove_arc_mutex_and_option_from_output_map ::
    "'a output_map \<Rightarrow> bool \<Rightarrow> (node_index \<times> 'a) list option" where
  "remove_arc_mutex_and_option_from_output_map [] panic_if_empty_placeholder = Some []"
| "remove_arc_mutex_and_option_from_output_map ((key, val) # rest) panic_if_empty_placeholder =
     (case val of
        Some unwrapped_value \<Rightarrow> do {
          out \<leftarrow> remove_arc_mutex_and_option_from_output_map rest panic_if_empty_placeholder;
          Some ((key, unwrapped_value) # out) }
      | None \<Rightarrow>
          if panic_if_empty_placeholder then None
          else remove_arc_mutex_and_option_from_output_map rest panic_if_empty_placeholder)"

definition wrap_leaf_inputs_for_interior_mutability ::
    "(node_index \<times> 'inp) list \<Rightarrow> 'inp output_map" where
  "wrap_leaf_inputs_for_interior_mutability leaf_index_to_leaf_input =
     map (\<lambda>(k, v). (k, Some v)) leaf_index_to_leaf_input"

section \<open>The hashes\<close>

text \<open>The maps that the tasks share: leaf inputs that are not taken yet, nodes and leaf outputs.\<close>

record ('l, 'inp, 'outp) fill_state =
  fi_leaf_input :: "'inp output_map"
  fi_filled :: "'l filled_node output_map"
  fi_leaf_output :: "'outp output_map"

definition get_or_compute_leaf ::
    "('l, 'inp, 'outp) leaf_ops \<Rightarrow> 'l leaf_modifications option \<Rightarrow> 'inp output_map \<Rightarrow> node_index
      \<Rightarrow> ('inp output_map \<times> 'l \<times> 'outp option) filled_tree_result" where
  "get_or_compute_leaf L leaf_modifications inputs index =
     (case leaf_modifications of
        Some mods \<Rightarrow>
          (case from_modifications index mods of
             Inl e \<Rightarrow> Some (Inl (LeafErr e index))
           | Inr leaf_data \<Rightarrow> Some (Inr (inputs, leaf_data, None)))
      | None \<Rightarrow>
          (case map_of inputs index of
             None \<Rightarrow> Some (Inl (MissingLeafInput index))
           | Some None \<Rightarrow> None
           | Some (Some leaf_input) \<Rightarrow>
               (case lf_create L leaf_input of
                  Inl e \<Rightarrow> Some (Inl (LeafErr e index))
                | Inr (leaf_data, leaf_output) \<Rightarrow>
                    Some (Inr (AList.update index None inputs, leaf_data, Some leaf_output)))))"

definition write_filled ::
    "('l, 'inp, 'outp) fill_state \<Rightarrow> node_index \<Rightarrow> 'l filled_node \<Rightarrow> ('l, 'inp, 'outp) fill_state filled_tree_result" where
  "write_filled s index node =
     (case write_to_output_map (fi_filled s) index node of
        Inl e \<Rightarrow> Some (Inl e)
      | Inr m \<Rightarrow> Some (Inr (s\<lparr>fi_filled := m\<rparr>)))"

definition write_leaf_output ::
    "('l, 'inp, 'outp) fill_state \<Rightarrow> node_index \<Rightarrow> 'outp option \<Rightarrow> ('l, 'inp, 'outp) fill_state filled_tree_result" where
  "write_leaf_output s index leaf_output =
     (case leaf_output of
        None \<Rightarrow> Some (Inr s)
      | Some v \<Rightarrow>
          (case write_to_output_map (fi_leaf_output s) index v of
             Inl e \<Rightarrow> Some (Inl e)
           | Inr m \<Rightarrow> Some (Inr (s\<lparr>fi_leaf_output := m\<rparr>))))"

definition spawn :: "'a filled_tree_result \<Rightarrow> 'a filled_tree_result" where
  "spawn m = (case m of None \<Rightarrow> Some (Inl JoinError) | Some r \<Rightarrow> Some r)"

fun compute_filled_tree_rec ::
    "nat \<Rightarrow> ('l, 'inp, 'outp) leaf_ops \<Rightarrow> ('l node_data \<Rightarrow> hash_output) \<Rightarrow> updated_skeleton_node_map
      \<Rightarrow> 'l leaf_modifications option \<Rightarrow> node_index \<Rightarrow> ('l, 'inp, 'outp) fill_state
      \<Rightarrow> (('l, 'inp, 'outp) fill_state \<times> hash_output) filled_tree_result" where
  "compute_filled_tree_rec 0 L H u leaf_modifications index s = None"
| "compute_filled_tree_rec (Suc fuel) L H u leaf_modifications index s =
     (case updated_get_node u index of
        Inl e \<Rightarrow> Some (Inl (UpdatedSkeletonError e))
      | Inr UpdBinary \<Rightarrow> do {
          left_index \<leftarrow> index_mul index 2;
          right_index \<leftarrow> index_add left_index ROOT;
          rs_and_then (spawn (compute_filled_tree_rec fuel L H u leaf_modifications left_index s)) (\<lambda>(s1, left_h).
          rs_and_then (spawn (compute_filled_tree_rec fuel L H u leaf_modifications right_index s1)) (\<lambda>(s2, right_h).
          let data = BinaryData left_h right_h; h = H data in
          rs_and_then (write_filled s2 index \<lparr>fn_hash = h, fn_data = data\<rparr>) (\<lambda>s3.
          Some (Inr (s3, h))))) }
      | Inr (UpdEdge p) \<Rightarrow> do {
          bottom_node_index \<leftarrow> compute_bottom_index index p;
          rs_and_then (compute_filled_tree_rec fuel L H u leaf_modifications bottom_node_index s) (\<lambda>(s1, bottom_h).
          let data = EdgeData bottom_h p; h = H data in
          rs_and_then (write_filled s1 index \<lparr>fn_hash = h, fn_data = data\<rparr>) (\<lambda>s2.
          Some (Inr (s2, h)))) }
      | Inr (UpdUnmodifiedSubTree hash_result) \<Rightarrow> Some (Inr (s, hash_result))
      | Inr UpdLeaf \<Rightarrow>
          rs_and_then (get_or_compute_leaf L leaf_modifications (fi_leaf_input s) index)
            (\<lambda>(inputs, leaf_data, leaf_output).
          if lf_is_empty L leaf_data then Some (Inl (DeletedLeafInSkeleton index))
          else
            let data = LeafData leaf_data; h = H data in
            rs_and_then (write_filled (s\<lparr>fi_leaf_input := inputs\<rparr>) index \<lparr>fn_hash = h, fn_data = data\<rparr>) (\<lambda>s1.
            rs_and_then (write_leaf_output s1 index leaf_output) (\<lambda>s2.
            Some (Inr (s2, h))))))"

section \<open>The tree\<close>

definition filled_create_unmodified :: "updated_skeleton_node_map \<Rightarrow> 'l filled_tree filled_tree_result" where
  "filled_create_unmodified u =
     (case updated_get_node u ROOT of
        Inl e \<Rightarrow> Some (Inl (UpdatedSkeletonError e))
      | Inr (UpdUnmodifiedSubTree root_hash) \<Rightarrow> Some (Inr \<lparr>ft_tree_map = [], ft_root_hash = root_hash\<rparr>)
      | Inr _ \<Rightarrow> None)"

definition filled_create_empty :: "'l filled_tree" where
  "filled_create_empty = \<lparr>ft_tree_map = [], ft_root_hash = ROOT_OF_EMPTY_TREE\<rparr>"

definition filled_create ::
    "('l, 'inp, 'outp) leaf_ops \<Rightarrow> ('l node_data \<Rightarrow> hash_output) \<Rightarrow> updated_skeleton_node_map \<Rightarrow> (node_index \<times> 'inp) list
      \<Rightarrow> ('l filled_tree \<times> (node_index \<times> 'outp) list) filled_tree_result" where
  "filled_create L H u leaf_index_to_leaf_input =
     (if leaf_index_to_leaf_input = [] then
        rs_and_then (filled_create_unmodified u) (\<lambda>unmodified. Some (Inr (unmodified, [])))
      else do {
        empty \<leftarrow> updated_is_empty u;
        if empty then Some (Inr (filled_create_empty, []))
        else
          rs_and_then (compute_filled_tree_rec (Suc ACTUAL_HEIGHT) L H u None ROOT
            \<lparr>fi_leaf_input = wrap_leaf_inputs_for_interior_mutability leaf_index_to_leaf_input,
             fi_filled = initialize_filled_tree_output_map_with_placeholders u,
             fi_leaf_output = initialize_leaf_output_map_with_placeholders leaf_index_to_leaf_input\<rparr>) (\<lambda>(s, root_h). do {
          tree_map \<leftarrow> remove_arc_mutex_and_option_from_output_map (fi_filled s) True;
          leaf_output \<leftarrow> remove_arc_mutex_and_option_from_output_map (fi_leaf_output s) False;
          Some (Inr (\<lparr>ft_tree_map = tree_map, ft_root_hash = root_h\<rparr>, leaf_output)) }) })"

definition create_with_existing_leaves ::
    "('l, 'inp, 'outp) leaf_ops \<Rightarrow> ('l node_data \<Rightarrow> hash_output) \<Rightarrow> updated_skeleton_node_map \<Rightarrow> 'l leaf_modifications
      \<Rightarrow> 'l filled_tree filled_tree_result" where
  "create_with_existing_leaves L H u leaf_modifications =
     (if leaf_modifications = [] then filled_create_unmodified u
      else do {
        empty \<leftarrow> updated_is_empty u;
        if empty then Some (Inr filled_create_empty)
        else
          rs_and_then (compute_filled_tree_rec (Suc ACTUAL_HEIGHT) L H u (Some leaf_modifications) ROOT
            \<lparr>fi_leaf_input = [], fi_filled = initialize_filled_tree_output_map_with_placeholders u,
             fi_leaf_output = []\<rparr>) (\<lambda>(s, root_h). do {
          tree_map \<leftarrow> remove_arc_mutex_and_option_from_output_map (fi_filled s) True;
          Some (Inr \<lparr>ft_tree_map = tree_map, ft_root_hash = root_h\<rparr>) }) })"

definition filled_serialize ::
    "('l, 'inp, 'outp) leaf_ops \<Rightarrow> 'l filled_tree \<Rightarrow> (storage_key \<times> storage_value) list" where
  "filled_serialize L t =
     hm_extend [] (map (\<lambda>(index, node). (db_key L node, node_serialize L (fn_data node))) (ft_tree_map t))"

end
