(* ===== verification/Patricia_Spec.thy ===== *)
theory Patricia_Spec
  imports Patricia_Filled_Tree
begin

text \<open>
  What a Patricia tree is: the reference against which the code is shown correct. A tree (\<open>ptree\<close>) is well formed at a
  height (\<open>wf_tree\<close>) if its binary nodes have two non-empty subtrees, its edges are not trivial and not followed by another
  edge, and its leaves have height 0. The contents of a tree rooted at an index are a map from leaf indices to leaves
  (\<open>contents\<close>). A tree is determined by its contents, so that the hash of the root is a function of the contents.
\<close>

datatype 'l ptree =
    PEmpty
  | PLeaf 'l
  | PBin "'l ptree" "'l ptree"
  | PEdge path_to_bottom "'l ptree"

fun is_edge :: "'l ptree \<Rightarrow> bool" where
  "is_edge (PEdge p b) \<longleftrightarrow> True"
| "is_edge _ \<longleftrightarrow> False"

fun wf_tree :: "nat \<Rightarrow> 'l ptree \<Rightarrow> bool" where
  "wf_tree h PEmpty \<longleftrightarrow> False"
| "wf_tree h (PLeaf l) \<longleftrightarrow> h = 0"
| "wf_tree h (PBin l r) \<longleftrightarrow> 0 < h \<and> wf_tree (h - 1) l \<and> wf_tree (h - 1) r"
| "wf_tree h (PEdge p b) \<longleftrightarrow>
     path_ok p \<and> 0 < pb_length p \<and> pb_length p \<le> h \<and> \<not> is_edge b \<and> wf_tree (h - pb_length p) b"

definition wf_tree0 :: "nat \<Rightarrow> 'l ptree \<Rightarrow> bool" where
  "wf_tree0 h t \<longleftrightarrow> t = PEmpty \<or> wf_tree h t"

fun contents :: "node_index \<Rightarrow> 'l ptree \<Rightarrow> node_index \<rightharpoonup> 'l" where
  "contents i PEmpty = Map.empty"
| "contents i (PLeaf l) = [i \<mapsto> l]"
| "contents i (PBin l r) = contents (2 * i) l ++ contents (2 * i + 1) r"
| "contents i (PEdge p b) = contents (bottom_of i p) b"

text \<open>The hash of a tree, and its nodes as they are stored.\<close>

fun tree_hash :: "('l node_data \<Rightarrow> hash_output) \<Rightarrow> 'l ptree \<Rightarrow> hash_output" where
  "tree_hash H PEmpty = ROOT_OF_EMPTY_TREE"
| "tree_hash H (PLeaf l) = H (LeafData l)"
| "tree_hash H (PBin l r) = H (BinaryData (tree_hash H l) (tree_hash H r))"
| "tree_hash H (PEdge p b) = H (EdgeData (tree_hash H b) p)"

fun root_data :: "('l node_data \<Rightarrow> hash_output) \<Rightarrow> 'l ptree \<Rightarrow> 'l node_data list" where
  "root_data H PEmpty = []"
| "root_data H (PLeaf l) = [LeafData l]"
| "root_data H (PBin l r) = [BinaryData (tree_hash H l) (tree_hash H r)]"
| "root_data H (PEdge p b) = [EdgeData (tree_hash H b) p]"

fun tree_nodes :: "('l node_data \<Rightarrow> hash_output) \<Rightarrow> 'l ptree \<Rightarrow> 'l node_data list" where
  "tree_nodes H PEmpty = []"
| "tree_nodes H (PLeaf l) = [LeafData l]"
| "tree_nodes H (PBin l r) = BinaryData (tree_hash H l) (tree_hash H r) # tree_nodes H l @ tree_nodes H r"
| "tree_nodes H (PEdge p b) = EdgeData (tree_hash H b) p # tree_nodes H b"

section \<open>Nodes from their children\<close>

definition join_paths :: "path_to_bottom \<Rightarrow> path_to_bottom \<Rightarrow> path_to_bottom" where
  "join_paths p q = \<lparr>pb_path = pb_path p * 2 ^ pb_length q + pb_path q, pb_length = pb_length p + pb_length q\<rparr>"

fun mk_edge :: "path_to_bottom \<Rightarrow> 'l ptree \<Rightarrow> 'l ptree" where
  "mk_edge p PEmpty = PEmpty"
| "mk_edge p (PEdge q b) = PEdge (join_paths p q) b"
| "mk_edge p b = PEdge p b"

definition mk_bin :: "'l ptree \<Rightarrow> 'l ptree \<Rightarrow> 'l ptree" where
  "mk_bin l r =
     (if r = PEmpty then mk_edge LEFT_CHILD l
      else if l = PEmpty then mk_edge RIGHT_CHILD r
      else PBin l r)"

lemma join_paths_length [simp]: "pb_length (join_paths p q) = pb_length p + pb_length q"
  by (simp add: join_paths_def)

lemma bottom_of_join [simp]: "bottom_of i (join_paths p q) = bottom_of (bottom_of i p) q"
  by (simp add: bottom_of_def join_paths_def algebra_simps power_add)

lemma path_ok_join: "path_ok p \<Longrightarrow> path_ok q \<Longrightarrow> path_ok (join_paths p q)"
proof -
  assume "path_ok p" "path_ok q"
  then have "path_ok (path_between (pb_length p + pb_length q) 0 (bottom_of (bottom_of 0 p) q))"
    by (intro path_ok_between below_trans[OF bottom_below bottom_below])
  then show ?thesis by (simp add: path_between_def join_paths_def bottom_of_def)
qed

lemma concat_paths_join:
  "path_ok p \<Longrightarrow> path_ok q \<Longrightarrow> pb_length p + pb_length q \<le> 251 \<Longrightarrow> concat_paths p q = Some (join_paths p q)"
  using concat_paths_Some[of p q 0] by (simp add: path_between_def join_paths_def bottom_of_def)

lemma child_paths [simp]:
  "path_ok LEFT_CHILD" "path_ok RIGHT_CHILD" "pb_length LEFT_CHILD = Suc 0" "pb_length RIGHT_CHILD = Suc 0"
  "bottom_of i LEFT_CHILD = 2 * i" "bottom_of i RIGHT_CHILD = 2 * i + 1"
  by (simp_all add: path_ok_def bottom_of_def LEFT_CHILD_def RIGHT_CHILD_def)

lemma mk_edge_empty_iff [simp]: "mk_edge p b = PEmpty \<longleftrightarrow> b = PEmpty"
  by (cases b) simp_all

lemma mk_bin_empty_iff [simp]: "mk_bin l r = PEmpty \<longleftrightarrow> l = PEmpty \<and> r = PEmpty"
  by (simp add: mk_bin_def)

lemma contents_mk_edge [simp]: "contents i (mk_edge p b) = contents (bottom_of i p) b"
  by (cases b) simp_all

lemma contents_mk_bin [simp]: "contents i (mk_bin l r) = contents (2 * i) l ++ contents (2 * i + 1) r"
  by (simp add: mk_bin_def)

lemma wf_mk_edge:
  assumes "wf_tree0 (h - pb_length p) b" "path_ok p" "0 < pb_length p" "pb_length p \<le> h"
  shows "wf_tree0 h (mk_edge p b)"
  using assms by (cases b) (auto simp: wf_tree0_def path_ok_join)

lemma wf_mk_bin: "wf_tree0 h l \<Longrightarrow> wf_tree0 h r \<Longrightarrow> wf_tree0 (Suc h) (mk_bin l r)"
  using wf_mk_edge[of "Suc h" LEFT_CHILD l] wf_mk_edge[of "Suc h" RIGHT_CHILD r]
  by (auto simp: mk_bin_def wf_tree0_def)

section \<open>Contents\<close>

lemma contents_below: "wf_tree h t \<Longrightarrow> contents i t k = Some v \<Longrightarrow> below h i k"
proof (induction i t arbitrary: h rule: contents.induct)
  case (3 i l r)
  then obtain n where h: "h = Suc n" "wf_tree n l" "wf_tree n r" by (cases h) auto
  with 3 show ?case by (auto simp: below_children)
next
  case (4 i p b)
  then have "below (h - pb_length p) (bottom_of i p) k" by auto
  with below_trans[OF bottom_below[of p i] this] 4 show ?case by simp
qed (simp_all split: if_splits)

lemma contents0_below: "wf_tree0 h t \<Longrightarrow> contents i t k = Some v \<Longrightarrow> below h i k"
  by (auto simp: wf_tree0_def contents_below)

lemma contents_nonempty: "wf_tree h t \<Longrightarrow> contents i t \<noteq> Map.empty"
proof (induction i t arbitrary: h rule: contents.induct)
  case (3 i l r)
  then have "contents (2 * i + 1) r \<noteq> Map.empty" by auto
  then show ?case unfolding dom_eq_empty_conv[symmetric] by simp
qed auto

lemma contents_empty_iff: "wf_tree0 h t \<Longrightarrow> contents i t = Map.empty \<longleftrightarrow> t = PEmpty"
  by (auto simp: wf_tree0_def dest: contents_nonempty)

text \<open>The contents of the children of a node do not overlap.\<close>

lemma contents_left:
  assumes "wf_tree0 h l" "wf_tree0 h r"
  shows "contents (2 * i) l = (contents (2 * i) l ++ contents (2 * i + 1) r) |` {k. below h (2 * i) k}"
    "contents (2 * i + 1) r = (contents (2 * i) l ++ contents (2 * i + 1) r) |` {k. below h (2 * i + 1) k}"
proof -
  have l: "below h (2 * i) k" if "contents (2 * i) l k = Some v" for k v
    using contents0_below[OF assms(1) that] .
  have r: "below h (2 * i + 1) k" if "contents (2 * i + 1) r k = Some v" for k v
    using contents0_below[OF assms(2) that] .
  have no: "\<not> (below h (2 * i) k \<and> below h (2 * i + 1) k)" for k using below_unique[of h "2 * i" k "2 * i + 1"] by auto
  show "contents (2 * i) l = (contents (2 * i) l ++ contents (2 * i + 1) r) |` {k. below h (2 * i) k}"
  proof
    fix k show "contents (2 * i) l k = ((contents (2 * i) l ++ contents (2 * i + 1) r) |` {k. below h (2 * i) k}) k"
      using l[of k] r[of k] no[of k]
      by (cases "contents (2 * i) l k"; cases "contents (2 * i + 1) r k") (auto simp: restrict_map_def map_add_def)
  qed
  show "contents (2 * i + 1) r = (contents (2 * i) l ++ contents (2 * i + 1) r) |` {k. below h (2 * i + 1) k}"
  proof
    fix k show "contents (2 * i + 1) r k = ((contents (2 * i) l ++ contents (2 * i + 1) r) |` {k. below h (2 * i + 1) k}) k"
      using l[of k] r[of k] no[of k]
      by (cases "contents (2 * i) l k"; cases "contents (2 * i + 1) r k") (auto simp: restrict_map_def map_add_def)
  qed
qed

text \<open>Every tree is made of its two halves.\<close>

lemma path_eqI: "pb_length p = pb_length q \<Longrightarrow> bottom_of i p = bottom_of i q \<Longrightarrow> p = q"
  by (simp add: bottom_of_def)

lemma path_step:
  assumes "path_ok p" "pb_length p = Suc n"
  obtains d q where "d = LEFT_CHILD \<or> d = RIGHT_CHILD" "path_ok q" "pb_length q = n" "p = join_paths d q"
proof -
  define d where "d = (if is_left_descendant p then LEFT_CHILD else RIGHT_CHILD)"
  have sides: "below n (2 * 0) (bottom_of 0 p) \<or> below n (2 * 0 + 1) (bottom_of 0 p)"
    using bottom_below[OF assms(1), of 0] assms(2) below_children[of n 0 "bottom_of 0 p"] by simp
  then have below: "below n (bottom_of 0 d) (bottom_of 0 p)"
    using is_left_descendant_iff[OF assms, of 0] below_unique[of n "2 * 0" "bottom_of 0 p" "2 * 0 + 1"]
    by (auto simp: d_def)
  define q where "q = path_between n (bottom_of 0 d) (bottom_of 0 p)"
  have "bottom_of 0 (join_paths d q) = bottom_of 0 p" by (simp add: q_def)
  moreover have len: "pb_length (join_paths d q) = pb_length p" using assms(2) by (simp add: q_def d_def)
  ultimately have p: "p = join_paths d q" by (intro path_eqI[of p _ 0]) simp_all
  show ?thesis
  proof (rule that[OF _ _ _ p])
    show "d = LEFT_CHILD \<or> d = RIGHT_CHILD" by (simp add: d_def)
    show "path_ok q" unfolding q_def by (rule path_ok_between[OF below])
    show "pb_length q = n" by (simp add: q_def)
  qed
qed

lemma wf_tree_halves:
  assumes "wf_tree (Suc h) t"
  obtains l r where "wf_tree0 h l" "wf_tree0 h r" "t = mk_bin l r"
proof (cases t)
  case (PBin l r)
  moreover from this assms have "l \<noteq> PEmpty" "r \<noteq> PEmpty" by auto
  ultimately show ?thesis using assms by (intro that[of l r]) (auto simp: mk_bin_def wf_tree0_def)
next
  case (PEdge p b)
  with assms obtain n where n: "pb_length p = Suc n" by (cases "pb_length p") auto
  obtain d q where d: "d = LEFT_CHILD \<or> d = RIGHT_CHILD" "path_ok q" "pb_length q = n" "p = join_paths d q"
    using path_step[of p n] assms PEdge n by auto
  define c where "c = (if n = 0 then b else PEdge q b)"
  have c: "wf_tree h c" "mk_edge d c = t"
  proof -
    show "wf_tree h c" using assms PEdge d n by (auto simp: c_def)
    have "n = 0 \<Longrightarrow> join_paths d q = d" using d by (auto simp: join_paths_def path_ok_def)
    then show "mk_edge d c = t" using assms PEdge d by (cases b) (auto simp: c_def)
  qed
  from d(1) show ?thesis
  proof
    assume "d = LEFT_CHILD"
    with c that[of c PEmpty] show ?thesis by (auto simp: wf_tree0_def mk_bin_def)
  next
    assume "d = RIGHT_CHILD"
    with c that[of PEmpty c] show ?thesis by (cases c) (auto simp: wf_tree0_def mk_bin_def)
  qed
qed (use assms in auto)

lemma tree_determined_by_contents:
  "wf_tree0 h t \<Longrightarrow> wf_tree0 h t' \<Longrightarrow> contents i t = contents i t' \<Longrightarrow> t = t'"
proof (induction h arbitrary: i t t')
  case 0
  then show ?case
    by (cases t; cases t') (auto simp: wf_tree0_def fun_eq_iff split: if_splits)
next
  case (Suc h)
  show ?case
  proof (cases "t = PEmpty \<or> t' = PEmpty")
    case True
    then show ?thesis using Suc.prems contents_empty_iff[of "Suc h"] by metis
  next
    case False
    with Suc.prems have wf: "wf_tree (Suc h) t" "wf_tree (Suc h) t'" by (auto simp: wf_tree0_def)
    obtain l r where t: "wf_tree0 h l" "wf_tree0 h r" "t = mk_bin l r" using wf_tree_halves[OF wf(1)] .
    obtain l' r' where t': "wf_tree0 h l'" "wf_tree0 h r'" "t' = mk_bin l' r'" using wf_tree_halves[OF wf(2)] .
    have eq: "contents (2 * i) l ++ contents (2 * i + 1) r = contents (2 * i) l' ++ contents (2 * i + 1) r'"
      using Suc.prems(3) t(3) t'(3) by simp
    have "contents (2 * i) l = contents (2 * i) l'" "contents (2 * i + 1) r = contents (2 * i + 1) r'"
      using contents_left[OF t(1,2), of i] contents_left[OF t'(1,2), of i] eq by simp_all
    then have "l = l'" "r = r'" using Suc.IH[OF t(1) t'(1)] Suc.IH[OF t(2) t'(2)] by blast+
    with t(3) t'(3) show ?thesis by simp
  qed
qed

end
