(* ===== verification/Patricia_Skeleton_Laws.thy ===== *)
theory Patricia_Skeleton_Laws
  imports Patricia_Spec
begin

text \<open>
  The update of a skeleton is correct: if the original skeleton is that of a well-formed tree (\<open>skel\<close>), then the
  updated skeleton is that of the well-formed tree with the modified contents (\<open>final\<close>). The lemmas follow the functions of
  \<open>Patricia_Updated_Skeleton\<close>.
\<close>

section \<open>Subtrees\<close>

text \<open>The indices of a subtree of height \<open>h\<close>.\<close>

definition subtree :: "nat \<Rightarrow> node_index \<Rightarrow> node_index set" where
  "subtree h i = {j. \<exists>n \<le> h. below n i j}"

lemma subtree_root [simp]: "i \<in> subtree h i"
  by (auto simp: subtree_def intro!: exI[of _ 0])

lemma leaf_in_subtree: "below h i k \<Longrightarrow> k \<in> subtree h i"
  by (auto simp: subtree_def)

lemma subtree_0 [simp]: "subtree 0 i = {i}"
  by (auto simp: subtree_def)

lemma subtree_below: "below n i j \<Longrightarrow> n \<le> h \<Longrightarrow> subtree (h - n) j \<subseteq> subtree h i"
proof
  fix k assume "below n i j" "n \<le> h" "k \<in> subtree (h - n) j"
  then obtain m where "m \<le> h - n" "below (n + m) i k" by (auto simp: subtree_def dest: below_trans)
  then show "k \<in> subtree h i" using \<open>n \<le> h\<close> by (auto simp: subtree_def intro!: exI[of _ "n + m"])
qed

lemma subtree_child: "subtree h (2 * i) \<subseteq> subtree (Suc h) i" "subtree h (2 * i + 1) \<subseteq> subtree (Suc h) i"
  using subtree_below[of 1 i _ "Suc h"] by simp_all

lemma subtree_children: "subtree (Suc h) i = insert i (subtree h (2 * i) \<union> subtree h (2 * i + 1))"
proof
  show "subtree (Suc h) i \<subseteq> insert i (subtree h (2 * i) \<union> subtree h (2 * i + 1))"
  proof
    fix j assume "j \<in> subtree (Suc h) i"
    then obtain n where n: "n \<le> Suc h" "below n i j" by (auto simp: subtree_def)
    then show "j \<in> insert i (subtree h (2 * i) \<union> subtree h (2 * i + 1))"
      by (cases n) (auto simp: subtree_def below_children)
  qed
qed (use subtree_child[of h i] in auto)

text \<open>The height of a node is unique, so that subtrees of nodes of the same height are disjoint.\<close>

lemma node_at_unique: "node_at h i \<Longrightarrow> node_at h' i \<Longrightarrow> h = h'"
  using node_at_bit_len[of h i] node_at_bit_len[of h' i] by (auto simp: node_at_def)

lemma below_height_unique:
  assumes "node_at h i" "node_at h j" "below m i k" "below n j k" "m \<le> h" "n \<le> h"
  shows "m = n"
  using node_at_unique[OF node_at_below[OF assms(1,3,5)] node_at_below[OF assms(2,4,6)]] assms by simp

lemma subtree_disjoint:
  assumes "node_at h i" "node_at h j" "i \<noteq> j"
  shows "subtree h i \<inter> subtree h j = {}"
proof -
  have False if "below m i k" "below n j k" "m \<le> h" "n \<le> h" for k m n
    using below_height_unique[OF assms(1,2) that] below_unique[of m i k j] that assms(3) by simp
  then show ?thesis by (auto simp: subtree_def)
qed

lemma subtree_children_disjoint:
  assumes "node_at (Suc h) i"
  shows "subtree h (2 * i) \<inter> subtree h (2 * i + 1) = {}"
  using subtree_disjoint[OF node_children[OF assms]] by simp

lemma ancestor_notin_subtree:
  assumes "node_at h i" "below n i j" "0 < n" "n \<le> h"
  shows "i \<notin> subtree (h - n) j"
proof
  assume "i \<in> subtree (h - n) j"
  then obtain m where m: "below m j i" "m \<le> h - n" by (auto simp: subtree_def)
  have "node_at (h - n - m) i" by (rule node_at_below[OF node_at_below[OF assms(1,2,4)] m])
  from node_at_unique[OF assms(1) this] assms(3,4) show False by simp
qed

lemma leaves_in_subtree: "leaves_ok h i ks \<Longrightarrow> k \<in> set ks \<Longrightarrow> k \<in> subtree h i"
  by (auto simp: leaves_ok_def list_all_iff leaf_in_subtree)

lemma leaves_below_self: "leaves_ok h i ks \<Longrightarrow> leaves_below h i ks = ks"
  by (auto simp: leaves_ok_def leaves_below_def list_all_iff)

lemma leaf_in_leaves_below:
  assumes "node_at h i" "below n i j" "n \<le> h" "leaves_ok h i ks"
  shows "set (leaves_below (h - n) j ks) = set ks \<inter> subtree (h - n) j"
proof -
  have "below (h - n) j k" if "k \<in> set ks" "below m j k" "m \<le> h - n" for k m
  proof -
    have "below h i k" using assms(4) that(1) by (auto simp: leaves_ok_def list_all_iff)
    with below_height_unique[OF assms(1,1) this below_trans[OF assms(2) that(2)]] that(3) assms(3) have "m = h - n" by linarith
    with that show ?thesis by simp
  qed
  then show ?thesis by (auto simp: subtree_def)
qed

section \<open>Original skeletons\<close>

text \<open>The skeleton of a tree rooted at \<open>i\<close> for modifications at the leaves \<open>ks\<close>.\<close>

fun skel :: "('l node_data \<Rightarrow> hash_output) \<Rightarrow> nat \<Rightarrow> node_index \<Rightarrow> 'l ptree \<Rightarrow> node_index list
    \<Rightarrow> node_index \<rightharpoonup> original_skeleton_node" where
  "skel H h i PEmpty ks = Map.empty"
| "skel H h i (PLeaf l) ks = (if ks = [] then [i \<mapsto> UnmodifiedSubTree (tree_hash H (PLeaf l))] else Map.empty)"
| "skel H h i (PBin l r) ks =
     (if ks = [] then [i \<mapsto> UnmodifiedSubTree (tree_hash H (PBin l r))]
      else (skel H (h - 1) (2 * i) l (leaves_below (h - 1) (2 * i) ks) ++
            skel H (h - 1) (2 * i + 1) r (leaves_below (h - 1) (2 * i + 1) ks))(i \<mapsto> OrigBinary))"
| "skel H h i (PEdge p b) ks =
     (skel H (h - pb_length p) (bottom_of i p) b (leaves_below (h - pb_length p) (bottom_of i p) ks))(i \<mapsto> OrigEdge p)"

lemma skel_subtree: "wf_tree h t \<Longrightarrow> skel H h i t ks j = Some n \<Longrightarrow> j \<in> subtree h i"
proof (induction H h i t ks rule: skel.induct)
  case (3 H h i l r ks)
  then obtain h' where h: "h = Suc h'" by (cases h) auto
  with 3 subtree_child[of h' i] show ?case by (auto split: if_splits)
next
  case (4 H h i p b ks)
  with subtree_below[OF bottom_below[of p i], of h] show ?case by (auto split: if_splits)
qed (auto split: if_splits)

text \<open>The bottom layer of an updated skeleton; \<open>nv\<close> has the new leaves, \<open>None\<close> for deleted ones.\<close>

definition bottom_layer :: "(node_index \<rightharpoonup> 'l) \<Rightarrow> (node_index \<rightharpoonup> original_skeleton_node) \<Rightarrow> node_index list
    \<Rightarrow> node_index \<rightharpoonup> updated_skeleton_node" where
  "bottom_layer nv s ks j =
     (if j \<in> set ks then (case nv j of Some l \<Rightarrow> Some UpdLeaf | None \<Rightarrow> None)
      else case s j of Some (UnmodifiedSubTree h) \<Rightarrow> Some (UpdUnmodifiedSubTree h) | _ \<Rightarrow> None)"

section \<open>Updated skeletons\<close>

text \<open>\<open>final H nv u i t R\<close>: in the updated skeleton \<open>u\<close>, the nodes \<open>R\<close> are the tree \<open>t\<close> rooted at \<open>i\<close>.\<close>

inductive final :: "('l node_data \<Rightarrow> hash_output) \<Rightarrow> (node_index \<rightharpoonup> 'l) \<Rightarrow> (node_index \<rightharpoonup> updated_skeleton_node)
    \<Rightarrow> node_index \<Rightarrow> 'l ptree \<Rightarrow> node_index set \<Rightarrow> bool"
  for H nv u where
  final_unmodified: "u i = Some (UpdUnmodifiedSubTree (tree_hash H t)) \<Longrightarrow> \<not> is_edge t \<Longrightarrow> t \<noteq> PEmpty
    \<Longrightarrow> final H nv u i t {i}"
| final_leaf: "u i = Some UpdLeaf \<Longrightarrow> nv i = Some l \<Longrightarrow> final H nv u i (PLeaf l) {i}"
| final_bin: "u i = Some UpdBinary \<Longrightarrow> final H nv u (2 * i) l R1 \<Longrightarrow> final H nv u (2 * i + 1) r R2
    \<Longrightarrow> final H nv u i (PBin l r) (insert i (R1 \<union> R2))"
| final_edge: "u i = Some (UpdEdge p) \<Longrightarrow> final H nv u (bottom_of i p) b R
    \<Longrightarrow> final H nv u i (PEdge p b) (insert i R)"

lemma final_cong: "final H nv u i t R \<Longrightarrow> (\<And>j. j \<in> R \<Longrightarrow> u' j = u j) \<Longrightarrow> final H nv u' i t R"
  by (induction rule: final.induct) (auto intro: final.intros)

lemma final_subtree: "final H nv u i t R \<Longrightarrow> wf_tree h t \<Longrightarrow> R \<subseteq> subtree h i"
proof (induction arbitrary: h rule: final.induct)
  case (final_bin i l R1 r R2)
  then obtain h' where h: "h = Suc h'" by (cases h) auto
  with final_bin.prems have "R1 \<subseteq> subtree h' (2 * i)" "R2 \<subseteq> subtree h' (2 * i + 1)"
    by (auto dest: final_bin.IH)
  with subtree_child[of h' i] show ?case by (auto simp: h)
next
  case (final_edge i p b R)
  then have "R \<subseteq> subtree (h - pb_length p) (bottom_of i p)" by auto
  also have "\<dots> \<subseteq> subtree h i" by (rule subtree_below) (use final_edge.prems bottom_below in auto)
  finally show ?case by simp
qed auto

text \<open>\<open>temp_ok\<close>: the same for a temporary node, which is not yet in the skeleton.\<close>

fun temp_ok :: "('l node_data \<Rightarrow> hash_output) \<Rightarrow> (node_index \<rightharpoonup> 'l) \<Rightarrow> (node_index \<rightharpoonup> updated_skeleton_node)
    \<Rightarrow> node_index \<Rightarrow> 'l ptree \<Rightarrow> temp_skeleton_node \<Rightarrow> node_index set \<Rightarrow> bool" where
  "temp_ok H nv u i t TempEmpty R \<longleftrightarrow> t = PEmpty \<and> R = {}"
| "temp_ok H nv u i t TempLeaf R \<longleftrightarrow> (\<exists>l. t = PLeaf l \<and> nv i = Some l \<and> u i = Some UpdLeaf \<and> R = {i})"
| "temp_ok H nv u i t (TempOriginal OrigBinary) R \<longleftrightarrow>
     (\<exists>l r R1 R2. t = PBin l r \<and> final H nv u (2 * i) l R1 \<and> final H nv u (2 * i + 1) r R2 \<and> R = R1 \<union> R2)"
| "temp_ok H nv u i t (TempOriginal (OrigEdge p)) R \<longleftrightarrow> (\<exists>b. t = PEdge p b \<and> final H nv u (bottom_of i p) b R)"
| "temp_ok H nv u i t (TempOriginal (UnmodifiedSubTree h)) R \<longleftrightarrow>
     h = tree_hash H t \<and> u i = Some (UpdUnmodifiedSubTree h) \<and> \<not> is_edge t \<and> t \<noteq> PEmpty \<and> R = {i}"

lemma temp_ok_cong:
  "temp_ok H nv u i t x R \<Longrightarrow> (\<And>j. j \<in> R \<Longrightarrow> u' j = u j) \<Longrightarrow> temp_ok H nv u' i t x R"
  by (induction H nv u i t x R rule: temp_ok.induct) (fastforce intro: final_cong)+

lemma temp_ok_empty_iff: "temp_ok H nv u i t x R \<Longrightarrow> x = TempEmpty \<longleftrightarrow> t = PEmpty"
  by (induction H nv u i t x R rule: temp_ok.induct) auto

text \<open>What an update of the subtree at \<open>i\<close> gives: a temporary node for the well-formed tree \<open>t\<close>, and a skeleton whose
  nodes below \<open>i\<close> are those of \<open>t\<close>.\<close>

definition updated :: "('l node_data \<Rightarrow> hash_output) \<Rightarrow> (node_index \<rightharpoonup> 'l) \<Rightarrow> nat \<Rightarrow> node_index
    \<Rightarrow> (node_index \<rightharpoonup> updated_skeleton_node) \<Rightarrow> 'l ptree \<Rightarrow> temp_skeleton_node \<Rightarrow> bool" where
  "updated H nv h i u t x \<longleftrightarrow>
     wf_tree0 h t \<and> (\<exists>R. temp_ok H nv u i t x R \<and> dom u \<inter> subtree h i \<subseteq> R \<and> R \<subseteq> subtree h i)"

lemma updatedI:
  "wf_tree0 h t \<Longrightarrow> temp_ok H nv u i t x R \<Longrightarrow> dom u \<inter> subtree h i \<subseteq> R \<Longrightarrow> R \<subseteq> subtree h i
    \<Longrightarrow> updated H nv h i u t x"
  by (auto simp: updated_def)

lemma updatedE:
  assumes "updated H nv h i u t x"
  obtains R where "wf_tree0 h t" "temp_ok H nv u i t x R" "dom u \<inter> subtree h i \<subseteq> R" "R \<subseteq> subtree h i"
  using assms by (auto simp: updated_def)

section \<open>Nodes from their children\<close>

lemma temp_binary_final:
  assumes "temp_ok H nv u i t (TempOriginal OrigBinary) R" "node_at h i" "wf_tree0 h t"
  shows "final H nv (u(i \<mapsto> UpdBinary)) i t (insert i R)" "i \<notin> R"
proof -
  from assms(1) obtain l r R1 R2 where t: "t = PBin l r" "final H nv u (2 * i) l R1" "final H nv u (2 * i + 1) r R2"
    "R = R1 \<union> R2" by auto
  with assms(3) obtain n where n: "h = Suc n" "wf_tree n l" "wf_tree n r" by (cases h) (auto simp: wf_tree0_def)
  have "R1 \<subseteq> subtree n (2 * i)" "R2 \<subseteq> subtree n (2 * i + 1)"
    using final_subtree[OF t(2) n(2)] final_subtree[OF t(3) n(3)] .
  moreover have "i \<notin> subtree n (2 * i)" "i \<notin> subtree n (2 * i + 1)"
    using ancestor_notin_subtree[OF assms(2), of 1] n(1) by auto
  ultimately show "i \<notin> R" using t(4) by auto
  then have "final H nv (u(i \<mapsto> UpdBinary)) (2 * i) l R1" "final H nv (u(i \<mapsto> UpdBinary)) (2 * i + 1) r R2"
    using t by (auto intro!: final_cong[of H nv u])
  then show "final H nv (u(i \<mapsto> UpdBinary)) i t (insert i R)" unfolding t(1,4) by (intro final_bin) simp_all
qed

lemma temp_edge_final:
  assumes "temp_ok H nv u i t (TempOriginal (OrigEdge p)) R" "node_at h i" "wf_tree0 h t"
  shows "final H nv (u(i \<mapsto> UpdEdge p)) i t (insert i R)" "i \<notin> R"
proof -
  from assms(1) obtain b where t: "t = PEdge p b" "final H nv u (bottom_of i p) b R" by auto
  with assms(3) have wf: "path_ok p" "0 < pb_length p" "pb_length p \<le> h" "wf_tree (h - pb_length p) b"
    by (auto simp: wf_tree0_def)
  have "i \<notin> subtree (h - pb_length p) (bottom_of i p)"
    by (rule ancestor_notin_subtree[OF assms(2) bottom_below[OF wf(1)] wf(2,3)])
  with final_subtree[OF t(2) wf(4)] show "i \<notin> R" by auto
  then have "final H nv (u(i \<mapsto> UpdEdge p)) (bottom_of i p) b R" using t by (auto intro!: final_cong[of H nv u])
  then show "final H nv (u(i \<mapsto> UpdEdge p)) i t (insert i R)" unfolding t(1) by (intro final_edge) simp_all
qed

lemma node_from_edge_data_updated:
  assumes "node_at h i" "path_ok p" "0 < pb_length p" "pb_length p \<le> h"
    and upd: "updated H nv (h - pb_length p) (bottom_of i p) (map_of u) t x"
    and none: "\<And>j. j \<in> subtree h i \<Longrightarrow> j \<notin> subtree (h - pb_length p) (bottom_of i p) \<Longrightarrow> map_of u j = None"
  shows "\<exists>u' x'. node_from_edge_data u p (bottom_of i p) x = Some (u', x') \<and>
    updated H nv h i (map_of u') (mk_edge p t) x' \<and>
    (\<forall>j. j \<notin> subtree (h - pb_length p) (bottom_of i p) \<longrightarrow> map_of u' j = map_of u j)"
proof -
  let ?b = "bottom_of i p" and ?h = "h - pb_length p" and ?u = "map_of u"
  from upd obtain R where R: "wf_tree0 ?h t" "temp_ok H nv ?u ?b t x R" "dom ?u \<inter> subtree ?h ?b \<subseteq> R" "R \<subseteq> subtree ?h ?b"
    by (rule updatedE)
  have node: "node_at ?h ?b" by (rule node_at_below[OF assms(1) bottom_below[OF assms(2)] assms(4)])
  have wf: "wf_tree0 h (mk_edge p t)" by (rule wf_mk_edge[OF R(1) assms(2-4)])
  have "dom ?u \<inter> subtree h i \<subseteq> subtree ?h ?b"
    using none by (metis (no_types, lifting) IntD1 IntD2 domIff subsetI)
  with R(3) have dom: "dom ?u \<inter> subtree h i \<subseteq> R" by blast
  have sub: "subtree ?h ?b \<subseteq> subtree h i" by (rule subtree_below[OF bottom_below[OF assms(2)] assms(4)])
  have simple: ?thesis if "node_from_edge_data u p ?b x = Some (u, x')" "temp_ok H nv ?u i (mk_edge p t) x' R" for x'
    using that wf dom sub R(4) by (intro exI[of _ u] exI[of _ x']) (auto intro!: updatedI)
  consider "x = TempEmpty" | "x = TempLeaf" | "x = TempOriginal OrigBinary" | q where "x = TempOriginal (OrigEdge q)"
    | k where "x = TempOriginal (UnmodifiedSubTree k)"
    by (metis original_skeleton_node.exhaust temp_skeleton_node.exhaust)
  then show ?thesis
  proof cases
    case 1
    then show ?thesis using R(2) by (intro simple[of TempEmpty]) (auto simp: node_from_edge_data_def)
  next
    case 2
    then show ?thesis
      using R(2) by (intro simple[of "TempOriginal (OrigEdge p)"]) (auto simp: node_from_edge_data_def intro: final_leaf)
  next
    case 3
    note fin = temp_binary_final[OF R(2)[unfolded 3] node R(1)]
    from R(2) 3 obtain l r where t: "t = PBin l r" by auto
    have "updated H nv h i (?u(?b \<mapsto> UpdBinary)) (mk_edge p t) (TempOriginal (OrigEdge p))"
      using fin dom R(4) sub t wf by (intro updatedI[of _ _ _ _ _ _ _ "insert ?b R"]) auto
    then show ?thesis
      by (intro exI[of _ "AList.update ?b UpdBinary u"] exI[of _ "TempOriginal (OrigEdge p)"])
        (auto simp: node_from_edge_data_def 3 update_conv')
  next
    case (4 q)
    with R(2) obtain c where c: "t = PEdge q c" "final H nv ?u (bottom_of ?b q) c R" by auto
    with R(1) have q: "path_ok q" "pb_length q \<le> ?h" by (auto simp: wf_tree0_def)
    have "pb_length p + pb_length q \<le> 251" using q assms(1,4) by (auto simp: node_at_def)
    with c q 4 show ?thesis
      by (intro simple[of "TempOriginal (OrigEdge (join_paths p q))"])
        (auto simp: node_from_edge_data_def concat_paths_join[OF assms(2)])
  next
    case (5 k)
    then have "mk_edge p t = PEdge p t" using R(2) by (cases t) auto
    with 5 R(2) show ?thesis
      by (intro simple[of "TempOriginal (OrigEdge p)"]) (auto simp: node_from_edge_data_def intro: final_unmodified)
  qed
qed

lemma finalize_child_final:
  assumes "node_at h i" "updated H nv h i (map_of u) t x" "t \<noteq> PEmpty"
  shows "\<exists>u' R. finalize_child u i x = Some u' \<and> final H nv (map_of u') i t R \<and> R \<subseteq> subtree h i \<and>
    dom (map_of u') \<inter> subtree h i \<subseteq> R \<and> (\<forall>j. j \<noteq> i \<longrightarrow> map_of u' j = map_of u j)"
proof -
  from assms(2) obtain R where R: "wf_tree0 h t" "temp_ok H nv (map_of u) i t x R" "dom (map_of u) \<inter> subtree h i \<subseteq> R"
    "R \<subseteq> subtree h i" by (rule updatedE)
  have insert: ?thesis if "finalize_child u i x = Some (AList.update i n u)" "final H nv ((map_of u)(i \<mapsto> n)) i t (insert i R)" for n
    using that R by (intro exI[of _ "AList.update i n u"] exI[of _ "insert i R"]) (auto simp: update_conv')
  have keep: ?thesis if "finalize_child u i x = Some u" "final H nv (map_of u) i t R"
    using that R by (intro exI[of _ u] exI[of _ R]) auto
  consider "x = TempEmpty" | "x = TempLeaf" | "x = TempOriginal OrigBinary" | p where "x = TempOriginal (OrigEdge p)"
    | k where "x = TempOriginal (UnmodifiedSubTree k)"
    by (metis original_skeleton_node.exhaust temp_skeleton_node.exhaust)
  then show ?thesis
  proof cases
    case 1 then show ?thesis using R(2) assms(3) by simp
  next
    case 2 then show ?thesis using R(2) by (intro keep) (auto simp: finalize_child_def intro: final_leaf)
  next
    case 3
    with temp_binary_final[of H nv "map_of u" i t R, OF _ assms(1) R(1)] R(2) show ?thesis
      by (intro insert[of UpdBinary]) (auto simp: finalize_child_def)
  next
    case (4 p)
    with temp_edge_final[of H nv "map_of u" i t p R, OF _ assms(1) R(1)] R(2) show ?thesis
      by (intro insert[of "UpdEdge p"]) (auto simp: finalize_child_def)
  next
    case (5 k) then show ?thesis using R(2) by (intro keep) (auto simp: finalize_child_def intro: final_unmodified)
  qed
qed

lemma updated_cong:
  assumes "updated H nv h i u t x" "\<And>j. j \<in> subtree h i \<Longrightarrow> u' j = u j"
  shows "updated H nv h i u' t x"
proof -
  from assms(1) obtain R where R: "wf_tree0 h t" "temp_ok H nv u i t x R" "dom u \<inter> subtree h i \<subseteq> R" "R \<subseteq> subtree h i"
    by (rule updatedE)
  have "temp_ok H nv u' i t x R" using R(2,4) assms(2) by (intro temp_ok_cong[OF R(2)]) auto
  moreover have "dom u' \<inter> subtree h i \<subseteq> R" using R(3) assms(2) by (auto simp: domIff)
  ultimately show ?thesis using R by (intro updatedI)
qed

lemma updated_empty: "updated H nv h i u PEmpty x \<Longrightarrow> x = TempEmpty \<and> (\<forall>j \<in> subtree h i. u j = None)"
proof (erule updatedE)
  fix R assume R: "temp_ok H nv u i PEmpty x R" "dom u \<inter> subtree h i \<subseteq> R"
  then have "x = TempEmpty" using temp_ok_empty_iff[OF R(1)] by simp
  with R show ?thesis by auto
qed

lemma updated_nonempty: "updated H nv h i u t x \<Longrightarrow> x = TempEmpty \<longleftrightarrow> t = PEmpty"
  by (erule updatedE) (auto dest: temp_ok_empty_iff)

lemma node_from_binary_data_updated:
  assumes node: "node_at (Suc h) i" and l: "updated H nv h (2 * i) (map_of u) l x"
    and r: "updated H nv h (2 * i + 1) (map_of u) r y" and none: "map_of u i = None"
  shows "\<exists>u' x'. node_from_binary_data u i x y = Some (u', x') \<and> updated H nv (Suc h) i (map_of u') (mk_bin l r) x' \<and>
    (\<forall>j. j \<notin> subtree (Suc h) i \<longrightarrow> map_of u' j = map_of u j)"
proof -
  note children = node_children[OF node] and sub = subtree_children[of h i]
  have disj: "subtree h (2 * i) \<inter> subtree h (2 * i + 1) = {}" by (rule subtree_children_disjoint[OF node])
  have wf: "wf_tree0 (Suc h) (mk_bin l r)" using l r by (intro wf_mk_bin) (auto simp: updated_def)
  have empty: "x = TempEmpty \<longleftrightarrow> l = PEmpty" "y = TempEmpty \<longleftrightarrow> r = PEmpty"
    using updated_nonempty[OF l] updated_nonempty[OF r] .
  consider "l \<noteq> PEmpty" "r \<noteq> PEmpty" | "r = PEmpty" | "l = PEmpty" "r \<noteq> PEmpty" by blast
  then show ?thesis
  proof cases
    case 1
    obtain u1 R1 where u1: "finalize_child u (2 * i) x = Some u1" "final H nv (map_of u1) (2 * i) l R1"
      "R1 \<subseteq> subtree h (2 * i)" "dom (map_of u1) \<inter> subtree h (2 * i) \<subseteq> R1" "\<forall>j. j \<noteq> 2 * i \<longrightarrow> map_of u1 j = map_of u j"
      using finalize_child_final[OF children(1) l 1(1)] by blast
    have no: "2 * i \<notin> subtree h (2 * i + 1)" "2 * i + 1 \<notin> subtree h (2 * i)"
      using disj subtree_root[of "2 * i" h] subtree_root[of "2 * i + 1" h] by blast+
    have "updated H nv h (2 * i + 1) (map_of u1) r y"
    proof (rule updated_cong[OF r])
      fix j assume "j \<in> subtree h (2 * i + 1)"
      with no(1) have "j \<noteq> 2 * i" by blast
      with u1(5) show "map_of u1 j = map_of u j" by blast
    qed
    from finalize_child_final[OF children(2) this 1(2)] obtain u2 R2 where
      u2: "finalize_child u1 (2 * i + 1) y = Some u2" "final H nv (map_of u2) (2 * i + 1) r R2"
      "R2 \<subseteq> subtree h (2 * i + 1)" "dom (map_of u2) \<inter> subtree h (2 * i + 1) \<subseteq> R2"
      "\<forall>j. j \<noteq> 2 * i + 1 \<longrightarrow> map_of u2 j = map_of u1 j" by blast
    have eq: "map_of u2 j = map_of u1 j" if "j \<in> subtree h (2 * i)" for j
      using that no(2) u2(5) by (cases "j = 2 * i + 1") auto
    then have l2: "final H nv (map_of u2) (2 * i) l R1" "dom (map_of u2) \<inter> subtree h (2 * i) \<subseteq> R1"
      using u1(3,4) by (auto intro!: final_cong[OF u1(2)] simp: domIff subset_iff)
    have "i \<noteq> 2 * i" "i \<noteq> 2 * i + 1" using node_at_pos[OF node] by auto
    then have "map_of u2 i = None" using u1(5) u2(5) none by simp
    then have "updated H nv (Suc h) i (map_of u2) (mk_bin l r) (TempOriginal OrigBinary)"
      using l2 u2 u1(3) wf 1 sub
      by (intro updatedI[of _ _ _ _ _ _ _ "R1 \<union> R2"]) (auto simp: mk_bin_def)
    moreover have "node_from_binary_data u i x y = Some (u2, TempOriginal OrigBinary)"
      using u1(1) u2(1) 1 empty by (simp add: node_from_binary_data_def node_children_indices[OF node] temp_is_empty_def)
    moreover have "map_of u2 j = map_of u j" if "j \<notin> subtree (Suc h) i" for j
    proof -
      have "j \<noteq> 2 * i" "j \<noteq> 2 * i + 1" using that unfolding sub by auto
      with u1(5) u2(5) show ?thesis by simp
    qed
    ultimately show ?thesis by blast
  next
    case 2
    have "\<exists>u' x'. node_from_edge_data u LEFT_CHILD (bottom_of i LEFT_CHILD) x = Some (u', x') \<and>
      updated H nv (Suc h) i (map_of u') (mk_edge LEFT_CHILD l) x' \<and>
      (\<forall>j. j \<notin> subtree (Suc h - pb_length LEFT_CHILD) (bottom_of i LEFT_CHILD) \<longrightarrow> map_of u' j = map_of u j)"
      using l none sub updated_empty[OF r[unfolded 2]] by (intro node_from_edge_data_updated[OF node]) auto
    with 2 empty sub show ?thesis
      by (auto simp: node_from_binary_data_def node_children_indices[OF node] temp_is_empty_def mk_bin_def)
  next
    case 3
    have "\<exists>u' x'. node_from_edge_data u RIGHT_CHILD (bottom_of i RIGHT_CHILD) y = Some (u', x') \<and>
      updated H nv (Suc h) i (map_of u') (mk_edge RIGHT_CHILD r) x' \<and>
      (\<forall>j. j \<notin> subtree (Suc h - pb_length RIGHT_CHILD) (bottom_of i RIGHT_CHILD) \<longrightarrow> map_of u' j = map_of u j)"
      using r none sub updated_empty[OF l[unfolded 3]] by (intro node_from_edge_data_updated[OF node]) auto
    with 3 empty sub show ?thesis
      by (auto simp: node_from_binary_data_def node_children_indices[OF node] temp_is_empty_def mk_bin_def)
  qed
qed

end
