(* ===== verification/Patricia_Update_Laws.thy ===== *)
theory Patricia_Update_Laws
  imports Patricia_Skeleton_Laws
begin

text \<open>
  The recursive functions of \<open>Patricia_Updated_Skeleton\<close>: an update of an empty or of a non-empty subtree gives the
  well-formed tree with the modified contents, and its nodes are in the updated skeleton.
\<close>

section \<open>Paths to lowest common ancestors\<close>

lemma lca_below:
  assumes "node_at h i" "below m i a" "m \<le> h" "below n i b" "n \<le> h"
  shows "\<exists>q c. get_lca a b = Some c \<and> below q i c \<and> q \<le> m \<and> q \<le> n \<and> below (m - q) c a \<and> below (n - q) c b \<and>
    (\<forall>q' e. below q' i e \<and> q' \<le> m \<and> q' \<le> n \<and> below (m - q') e a \<and> below (n - q') e b \<longrightarrow> q' \<le> q)"
proof -
  have a: "node_at (h - m) a" and b: "node_at (h - n) b"
    using node_at_below[OF assms(1,2,3)] node_at_below[OF assms(1,4,5)] .
  obtain c m' n' where c: "get_lca a b = Some c" "0 < c" "below m' c a" "below n' c b"
    and low: "\<And>e m n. 0 < e \<Longrightarrow> below m e a \<Longrightarrow> below n e b \<Longrightarrow> m' \<le> m \<and> n' \<le> n \<and> below (m - m') e c"
    using get_lca_lowest[OF a b] by blast
  note i = low[OF node_at_pos[OF assms(1)] assms(2,4)]
  have "h - m + m' = h - n + n'"
    using node_at_unique[OF node_at_ancestor[OF a c(3,2)] node_at_ancestor[OF b c(4,2)]] .
  then have q: "m - m' \<le> n" "m - (m - m') = m'" "n - (m - m') = n'" using i assms(3,5) by auto
  have "q' \<le> m - m'" if "below q' i e" "q' \<le> m" "q' \<le> n" "below (m - q') e a" "below (n - q') e b" for q' e
    using low[OF _ that(4,5)] node_at_pos[OF node_at_below[OF assms(1) that(1)]] that assms(3) i by auto
  with c i q show ?thesis by (intro exI[of _ "m - m'"] exI[of _ c]) auto
qed

lemma get_path_to_lca_pair:
  assumes "node_at h i" "below m i a" "m \<le> h" "below n i b" "n \<le> h"
  shows "\<exists>q c. get_path_to_lca i (sorted_leaf_indices_new [a, b]) = Some (path_between q i c) \<and> below q i c \<and>
    q \<le> m \<and> q \<le> n \<and> below (m - q) c a \<and> below (n - q) c b \<and>
    (\<forall>q' e. below q' i e \<and> q' \<le> m \<and> q' \<le> n \<and> below (m - q') e a \<and> below (n - q') e b \<longrightarrow> q' \<le> q)"
proof (cases "a \<le> b")
  case True
  from lca_below[OF assms] obtain q c where c: "get_lca a b = Some c" "below q i c" "q \<le> m" "q \<le> n"
    "below (m - q) c a" "below (n - q) c b"
    "\<forall>q' e. below q' i e \<and> q' \<le> m \<and> q' \<le> n \<and> below (m - q') e a \<and> below (n - q') e b \<longrightarrow> q' \<le> q" by blast
  with True get_path_to_descendant_Some[OF assms(1) c(2)] assms(3) show ?thesis
    by (intro exI[of _ q] exI[of _ c]) (auto simp: get_path_to_lca_def sorted_leaf_indices_new_def)
next
  case False
  from lca_below[OF assms(1,4,5,2,3)] obtain q c where c: "get_lca b a = Some c" "below q i c" "q \<le> m" "q \<le> n"
    "below (m - q) c a" "below (n - q) c b"
    "\<forall>q' e. below q' i e \<and> q' \<le> n \<and> q' \<le> m \<and> below (n - q') e b \<and> below (m - q') e a \<longrightarrow> q' \<le> q" by blast
  with False get_path_to_descendant_Some[OF assms(1) c(2)] assms(3) show ?thesis
    by (intro exI[of _ q] exI[of _ c]) (auto simp: get_path_to_lca_def sorted_leaf_indices_new_def)
qed

lemma sorted_between:
  fixes ks :: "int list"
  assumes "sorted_wrt (<) ks" "k \<in> set ks"
  shows "hd ks \<le> k" "k \<le> List.last ks"
proof -
  have s: "sorted ks" using assms(1) by (rule strict_sorted_imp_sorted)
  from assms(2) obtain n where n: "n < length ks" "k = ks ! n" by (auto simp: in_set_conv_nth)
  then have "ks \<noteq> []" by auto
  then have "hd ks = ks ! 0" "List.last ks = ks ! (length ks - 1)" by (rule hd_conv_nth, rule last_conv_nth)
  with s n sorted_nth_mono[OF s, of 0 n] sorted_nth_mono[OF s, of n "length ks - 1"]
  show "hd ks \<le> k" "k \<le> List.last ks" by auto
qed

lemma leaves_ok_between:
  assumes "sorted_wrt (<) ks" "below n j (hd ks)" "below n j (List.last ks)"
  shows "leaves_ok n j ks"
proof -
  have "below n j k" if "k \<in> set ks" for k
    using sorted_between[OF assms(1) that] assms(2,3) unfolding below_iff by linarith
  then show ?thesis using assms(1) by (auto simp: leaves_ok_def list_all_iff)
qed

lemma get_path_to_lca_leaves:
  assumes "node_at h i" "leaves_ok h i ks" "ks \<noteq> []"
  shows "\<exists>n j. get_path_to_lca i ks = Some (path_between n i j) \<and> below n i j \<and> n \<le> h \<and> leaves_ok (h - n) j ks \<and>
    (\<forall>m e. below m i e \<and> m \<le> h \<and> leaves_ok (h - m) e ks \<longrightarrow> m \<le> n)"
proof -
  have sorted: "sorted_wrt (<) ks" and below: "\<And>k. k \<in> set ks \<Longrightarrow> below h i k"
    using assms(2) by (auto simp: leaves_ok_def list_all_iff)
  have f: "below h i (hd ks)" and l: "below h i (List.last ks)" using below assms(3) by auto
  show ?thesis
  proof (cases "length ks = 1")
    case True
    then obtain k where k: "ks = [k]" by (cases ks) auto
    with get_path_to_descendant_Some[OF assms(1) f] f show ?thesis
      by (intro exI[of _ h] exI[of _ k]) (auto simp: get_path_to_lca_def leaves_ok_def)
  next
    case False
    from lca_below[OF assms(1) f _ l] obtain q c where c: "get_lca (hd ks) (List.last ks) = Some c" "below q i c" "q \<le> h"
      "below (h - q) c (hd ks)" "below (h - q) c (List.last ks)"
      and low: "\<And>q' e. below q' i e \<Longrightarrow> q' \<le> h \<Longrightarrow> below (h - q') e (hd ks) \<Longrightarrow> below (h - q') e (List.last ks) \<Longrightarrow> q' \<le> q"
      by blast
    have "m \<le> q" if "below m i e" "m \<le> h" "leaves_ok (h - m) e ks" for m e
      using that assms(3) by (intro low[of m e]) (auto simp: leaves_ok_def list_all_iff)
    with False c get_path_to_descendant_Some[OF assms(1) c(2,3)] leaves_ok_between[OF sorted c(4,5)] assms(3)
    show ?thesis by (intro exI[of _ q] exI[of _ c]) (auto simp: get_path_to_lca_def)
  qed
qed

section \<open>Updates of empty subtrees\<close>

text \<open>The contents after the modifications at \<open>ks\<close>.\<close>

definition new_contents :: "(node_index \<rightharpoonup> 'l) \<Rightarrow> node_index list \<Rightarrow> (node_index \<rightharpoonup> 'l) \<Rightarrow> node_index \<rightharpoonup> 'l" where
  "new_contents nv ks m = (\<lambda>k. if k \<in> set ks then nv k else m k)"

lemma leaves_ok_0: "leaves_ok 0 i ks \<Longrightarrow> ks = [] \<or> ks = [i]"
proof -
  assume a: "leaves_ok 0 i ks"
  then have "\<forall>k \<in> set ks. k = i" "sorted_wrt (<) ks" by (auto simp: leaves_ok_def list_all_iff)
  then show ?thesis by (cases ks; cases "tl ks") auto
qed

lemma leaves_ok_child:
  assumes "leaves_ok (Suc h) i ks"
  shows "leaves_below h (2 * i + 1) ks = [] \<Longrightarrow> leaves_ok h (2 * i) ks"
    "leaves_below h (2 * i) ks = [] \<Longrightarrow> leaves_ok h (2 * i + 1) ks"
  using assms by (auto simp: leaves_ok_def list_all_iff leaves_below_def filter_empty_conv below_children)

lemma bottom_layer_below:
  assumes "node_at h i" "below n i c" "n \<le> h" "leaves_ok h i ks" "j \<in> subtree (h - n) c" "s j = s' j"
  shows "bottom_layer nv s ks j = bottom_layer nv s' (leaves_below (h - n) c ks) j"
  using leaf_in_leaves_below[OF assms(1-4)] assms(5,6) by (auto simp: bottom_layer_def)

lemma inner_not_leaf:
  assumes "node_at h i" "0 < h" "leaves_ok h i ks"
  shows "i \<notin> set ks"
proof
  assume "i \<in> set ks"
  then have "below h i i" using assms(3) by (auto simp: leaves_ok_def list_all_iff)
  then have "node_at (h - h) i" by (rule node_at_below[OF assms(1)]) simp
  from node_at_unique[OF assms(1) this] assms(2) show False by simp
qed

lemma new_contents_children:
  assumes "leaves_ok (Suc h) i ks"
    "contents (2 * i) l = new_contents nv (leaves_below h (2 * i) ks) m1"
    "contents (2 * i + 1) r = new_contents nv (leaves_below h (2 * i + 1) ks) m2"
    "\<And>k v. m1 k = Some v \<Longrightarrow> below h (2 * i) k" "\<And>k v. m2 k = Some v \<Longrightarrow> below h (2 * i + 1) k"
  shows "contents i (mk_bin l r) = new_contents nv ks (m1 ++ m2)"
proof
  fix k
  have no: "\<not> (below h (2 * i) k \<and> below h (2 * i + 1) k)" using below_unique[of h "2 * i" k "2 * i + 1"] by auto
  have "k \<in> set ks \<Longrightarrow> below h (2 * i) k \<or> below h (2 * i + 1) k"
    using assms(1) by (auto simp: leaves_ok_def list_all_iff below_children)
  with no assms(2-3) assms(4,5)[of k] show "contents i (mk_bin l r) k = new_contents nv ks (m1 ++ m2) k"
    by (cases "m1 k"; cases "m2 k") (auto simp: new_contents_def map_add_def split: option.splits)
qed

text \<open>The last step of an update, after the children or the bottom were updated.\<close>

lemma binary_step:
  assumes "node_at (Suc h) i" "map_of u i = None"
    and "updated H nv h (2 * i) (map_of u2) l x" "updated H nv h (2 * i + 1) (map_of u2) r y"
    and "\<And>j. j \<notin> subtree h (2 * i) \<Longrightarrow> j \<notin> subtree h (2 * i + 1) \<Longrightarrow> map_of u2 j = map_of u j"
  shows "\<exists>u' x'. node_from_binary_data u2 i x y = Some (u', x') \<and> updated H nv (Suc h) i (map_of u') (mk_bin l r) x' \<and>
    (\<forall>j. j \<notin> subtree (Suc h) i \<longrightarrow> map_of u' j = map_of u j)"
proof -
  have "i \<notin> subtree h (2 * i)" "i \<notin> subtree h (2 * i + 1)" using ancestor_notin_subtree[OF assms(1), of 1] by auto
  then have "map_of u2 i = None" using assms(2,5) by simp
  from node_from_binary_data_updated[OF assms(1,3,4) this] assms(5) show ?thesis
    unfolding subtree_children by auto
qed

lemma edge_step:
  assumes "node_at h i" "below n i c" "0 < n" "n \<le> h" "updated H nv (h - n) c (map_of u1) t x"
    and "\<And>j. j \<notin> subtree (h - n) c \<Longrightarrow> map_of u1 j = map_of u j"
    and "\<And>j. j \<in> subtree h i \<Longrightarrow> j \<notin> subtree (h - n) c \<Longrightarrow> map_of u j = None"
  shows "\<exists>u' x'. node_from_edge_data u1 (path_between n i c) c x = Some (u', x') \<and>
    updated H nv h i (map_of u') (mk_edge (path_between n i c) t) x' \<and>
    (\<forall>j. j \<notin> subtree h i \<longrightarrow> map_of u' j = map_of u j)"
proof -
  have "subtree (h - n) c \<subseteq> subtree h i" by (rule subtree_below[OF assms(2,4)])
  with node_from_edge_data_updated[of h i "path_between n i c" H nv u1 t x] assms path_ok_between[OF assms(2)]
  show ?thesis by (auto simp: subset_iff) blast+
qed

lemma update_node_in_empty_tree_updated:
  assumes "node_at h i" "leaves_ok h i ks" "ks \<noteq> []" "h < fuel"
    and "\<And>j. j \<in> subtree h i \<Longrightarrow> map_of u j = bottom_layer nv Map.empty ks j"
  shows "\<exists>u' x t. update_node_in_empty_tree fuel u i ks = Some (u', x) \<and> updated H nv h i (map_of u') t x \<and>
    contents i t = new_contents nv ks Map.empty \<and> (\<forall>j. j \<notin> subtree h i \<longrightarrow> map_of u' j = map_of u j)"
  using assms
proof (induction fuel arbitrary: h i ks u)
  case (Suc fuel)
  show ?case
  proof (cases h)
    case 0
    with Suc.prems(2,3) have ks: "ks = [i]" using leaves_ok_0 by blast
    have leaf: "index_is_leaf i" using node_is_leaf[OF Suc.prems(1)] 0 by simp
    have ui: "map_of u i = bottom_layer nv Map.empty ks i" using Suc.prems(5) by simp
    show ?thesis
    proof (cases "nv i")
      case None
      have "updated H nv h i (map_of u) PEmpty TempEmpty"
        using ui ks None 0 by (intro updatedI[of _ _ _ _ _ _ _ "{}"]) (auto simp: wf_tree0_def bottom_layer_def domIff)
      with None ks leaf ui show ?thesis
        by (intro exI[of _ u] exI[of _ TempEmpty] exI[of _ PEmpty])
          (auto simp: new_contents_def bottom_layer_def fun_eq_iff)
    next
      case (Some l)
      have "updated H nv h i (map_of u) (PLeaf l) TempLeaf"
        using ui ks Some 0 by (intro updatedI[of _ _ _ _ _ _ _ "{i}"]) (auto simp: wf_tree0_def bottom_layer_def)
      with Some ks leaf ui show ?thesis
        by (intro exI[of _ u] exI[of _ TempLeaf] exI[of _ "PLeaf l"])
          (auto simp: new_contents_def bottom_layer_def fun_eq_iff)
    qed
  next
    case (Suc h')
    note node = Suc.prems(1)[unfolded Suc] and ok = Suc.prems(2)[unfolded Suc]
    let ?kl = "leaves_below h' (2 * i) ks" and ?kr = "leaves_below h' (2 * i + 1) ks"
    have leaf: "\<not> index_is_leaf i" using node_is_leaf[OF node] by simp
    have both: "has_leaves_on_both_sides i ks = Some (?kl \<noteq> [] \<and> ?kr \<noteq> [])"
      using Suc.prems(3) by (simp add: has_leaves_on_both_sides_def split_leaves_Some[OF node ok])
    have ui: "map_of u i = None"
      using Suc.prems(5)[of i] inner_not_leaf[OF node _ ok] by (simp add: bottom_layer_def)
    show ?thesis
    proof (cases "?kl \<noteq> [] \<and> ?kr \<noteq> []")
      case True
      have sub: "j \<in> subtree h' c \<Longrightarrow> map_of u j = bottom_layer nv Map.empty (leaves_below h' c ks) j"
        if "below 1 i c" for c j
        using bottom_layer_below[OF node that _ ok, of j Map.empty Map.empty nv] Suc.prems(5)[of j]
          subtree_below[OF that, of "Suc h'"] Suc by auto
      obtain u1 x l where u1: "update_node_in_empty_tree fuel u (2 * i) ?kl = Some (u1, x)"
        "updated H nv h' (2 * i) (map_of u1) l x" "contents (2 * i) l = new_contents nv ?kl Map.empty"
        "\<And>j. j \<notin> subtree h' (2 * i) \<Longrightarrow> map_of u1 j = map_of u j"
        using Suc.IH[OF node_children(1)[OF node] leaves_ok_below[OF ok], of u] True Suc.prems(4) Suc sub[of "2 * i"]
        by auto
      have disj: "j \<in> subtree h' (2 * i + 1) \<Longrightarrow> j \<notin> subtree h' (2 * i)" for j
        using subtree_children_disjoint[OF node] by auto
      obtain u2 y r where u2: "update_node_in_empty_tree fuel u1 (2 * i + 1) ?kr = Some (u2, y)"
        "updated H nv h' (2 * i + 1) (map_of u2) r y" "contents (2 * i + 1) r = new_contents nv ?kr Map.empty"
        "\<And>j. j \<notin> subtree h' (2 * i + 1) \<Longrightarrow> map_of u2 j = map_of u1 j"
        using Suc.IH[OF node_children(2)[OF node] leaves_ok_below[OF ok], of u1] True Suc.prems(4) Suc
          sub[of "2 * i + 1"] u1(4) disj by auto
      have l: "updated H nv h' (2 * i) (map_of u2) l x" by (rule updated_cong[OF u1(2)]) (use u2(4) disj in blast)
      have "contents i (mk_bin l r) = new_contents nv ks Map.empty"
        using new_contents_children[OF ok u1(3) u2(3)] by simp
      moreover obtain u3 z where "node_from_binary_data u2 i x y = Some (u3, z)"
        "updated H nv (Suc h') i (map_of u3) (mk_bin l r) z" "\<forall>j. j \<notin> subtree (Suc h') i \<longrightarrow> map_of u3 j = map_of u j"
        using binary_step[OF node ui l u2(2)] u1(4) u2(4) by auto
      ultimately show ?thesis
        using True leaf both u1(1) u2(1) Suc
        by (auto simp: split_leaves_Some[OF node ok] node_children_indices[OF node])
    next
      case False
      obtain n c where c: "get_path_to_lca i ks = Some (path_between n i c)" "below n i c" "n \<le> h" "leaves_ok (h - n) c ks"
        "\<And>m e. below m i e \<Longrightarrow> m \<le> h \<Longrightarrow> leaves_ok (h - m) e ks \<Longrightarrow> m \<le> n"
        using get_path_to_lca_leaves[OF Suc.prems(1-3)] by blast
      have "1 \<le> n"
        using False leaves_ok_child[OF ok] c(5)[of 1 "2 * i"] c(5)[of 1 "2 * i + 1"] Suc by auto
      have kc: "set ks \<subseteq> subtree (h - n) c" using leaves_in_subtree[OF c(4)] by auto
      have node_c: "node_at (h - n) c" by (rule node_at_below[OF Suc.prems(1) c(2,3)])
      have sub: "subtree (h - n) c \<subseteq> subtree h i" by (rule subtree_below[OF c(2,3)])
      have fuel: "h - n < fuel" using Suc.prems(4) \<open>1 \<le> n\<close> c(3) by linarith
      have layer: "\<And>j. j \<in> subtree (h - n) c \<Longrightarrow> map_of u j = bottom_layer nv Map.empty ks j"
        using Suc.prems(5) sub by blast
      obtain u1 x t where u1: "update_node_in_empty_tree fuel u c ks = Some (u1, x)"
        "updated H nv (h - n) c (map_of u1) t x" "contents c t = new_contents nv ks Map.empty"
        "\<And>j. j \<notin> subtree (h - n) c \<Longrightarrow> map_of u1 j = map_of u j"
        using Suc.IH[OF node_c c(4) Suc.prems(3) fuel layer] by blast
      have "map_of u j = None" if "j \<in> subtree h i" "j \<notin> subtree (h - n) c" for j
        using Suc.prems(5)[OF that(1)] that(2) kc by (auto simp: bottom_layer_def)
      with edge_step[OF Suc.prems(1) c(2) _ c(3) u1(2,4)] \<open>1 \<le> n\<close> obtain u2 y where
        u2: "node_from_edge_data u1 (path_between n i c) c x = Some (u2, y)"
          "updated H nv h i (map_of u2) (mk_edge (path_between n i c) t) y"
          "\<forall>j. j \<notin> subtree h i \<longrightarrow> map_of u2 j = map_of u j" by auto
      have "bottom_index (path_between n i c) i = Some c"
        using bottom_index_Some[OF Suc.prems(1) path_ok_between[OF c(2)]] c(3) by simp
      with False leaf both c(1) u1(1,3) u2 show ?thesis by auto
    qed
  qed
qed simp

section \<open>Updates of non-empty subtrees\<close>

text \<open>Before the update of the subtree at \<open>i\<close>: the original skeleton has the nodes of the tree, and the updated skeleton
  only the bottom layer.\<close>

definition skel_ready :: "('l node_data \<Rightarrow> hash_output) \<Rightarrow> (node_index \<rightharpoonup> 'l) \<Rightarrow> nat \<Rightarrow> node_index \<Rightarrow> 'l ptree
    \<Rightarrow> node_index list \<Rightarrow> updated_skeleton_node_map \<Rightarrow> original_skeleton_node_map \<Rightarrow> bool" where
  "skel_ready H nv h i t ks u os \<longleftrightarrow>
     skel H h i t ks \<subseteq>\<^sub>m map_of os \<and>
     (\<forall>j \<in> subtree h i. map_of u j = bottom_layer nv (skel H h i t ks) ks j)"

definition nonempty_result :: "('l node_data \<Rightarrow> hash_output) \<Rightarrow> (node_index \<rightharpoonup> 'l) \<Rightarrow> nat \<Rightarrow> node_index \<Rightarrow> 'l ptree
    \<Rightarrow> node_index list \<Rightarrow> updated_skeleton_node_map \<Rightarrow> original_skeleton_node_map \<Rightarrow> update_result \<Rightarrow> bool" where
  "nonempty_result H nv h i t ks u os res \<longleftrightarrow>
     (\<exists>u' os' x t'. res = Some (u', os', x) \<and> updated H nv h i (map_of u') t' x \<and>
        contents i t' = new_contents nv ks (contents i t) \<and>
        (\<forall>j. j \<notin> subtree h i \<longrightarrow> map_of u' j = map_of u j \<and> map_of os' j = map_of os j))"

text \<open>The tree below a node \<open>c\<close> on an edge: the rest of the edge, or its bottom.\<close>

definition edge_tail :: "nat \<Rightarrow> node_index \<Rightarrow> node_index \<Rightarrow> path_to_bottom \<Rightarrow> 'l ptree \<Rightarrow> 'l ptree" where
  "edge_tail n c i p b =
     (if n = pb_length p then b else PEdge (path_between (pb_length p - n) c (bottom_of i p)) b)"

definition tail_skeleton :: "nat \<Rightarrow> node_index \<Rightarrow> node_index \<Rightarrow> path_to_bottom \<Rightarrow> original_skeleton_node_map
    \<Rightarrow> original_skeleton_node_map" where
  "tail_skeleton n c i p os =
     (if n = pb_length p then os
      else AList.update c (OrigEdge (path_between (pb_length p - n) c (bottom_of i p))) os)"

definition on_edge :: "nat \<Rightarrow> node_index \<Rightarrow> nat \<Rightarrow> node_index \<Rightarrow> path_to_bottom \<Rightarrow> bool" where
  "on_edge n c h i p \<longleftrightarrow> node_at h i \<and> below n i c \<and> 0 < n \<and> n \<le> pb_length p \<and> pb_length p \<le> h \<and>
     below (pb_length p - n) c (bottom_of i p)"

lemma map_le_apply: "m \<subseteq>\<^sub>m m' \<Longrightarrow> m k = Some v \<Longrightarrow> m' k = Some v"
  unfolding map_le_def by (metis domI)

lemma edge_tail_wf:
  assumes "on_edge n c h i p" "wf_tree h (PEdge p b)"
  shows "wf_tree (h - n) (edge_tail n c i p b)" "contents c (edge_tail n c i p b) = contents i (PEdge p b)"
proof -
  have "path_ok (path_between (pb_length p - n) c (bottom_of i p))" using assms(1) by (auto simp: on_edge_def intro: path_ok_between)
  with assms show "wf_tree (h - n) (edge_tail n c i p b)" by (auto simp: edge_tail_def on_edge_def)
  show "contents c (edge_tail n c i p b) = contents i (PEdge p b)" using assms(1) by (auto simp: edge_tail_def on_edge_def)
qed

lemma leaves_below_twice:
  assumes "below m c d" "m \<le> h"
  shows "leaves_below (h - m) d (leaves_below h c ks) = leaves_below (h - m) d ks"
proof -
  have "below (h - m) d k \<Longrightarrow> below h c k" for k using below_trans[OF assms(1), of "h - m" k] assms(2) by simp
  then show ?thesis by (auto simp: leaves_below_def intro: filter_cong)
qed

lemma edge_tail_skel:
  assumes "on_edge n c h i p" "wf_tree h (PEdge p b)" "j \<in> subtree (h - n) c"
  shows "skel H (h - n) c (edge_tail n c i p b) (leaves_below (h - n) c ks) j =
    (if j = c \<and> n \<noteq> pb_length p then Some (OrigEdge (path_between (pb_length p - n) c (bottom_of i p)))
     else skel H h i (PEdge p b) ks j)"
proof -
  have a: "below n i c" "0 < n" "n \<le> pb_length p" "pb_length p \<le> h" "below (pb_length p - n) c (bottom_of i p)"
    using assms(1) by (auto simp: on_edge_def)
  have "j \<noteq> i" using ancestor_notin_subtree[OF _ a(1,2)] assms(1,3) by (auto simp: on_edge_def)
  moreover have "leaves_below (h - pb_length p) (bottom_of i p) (leaves_below (h - n) c ks) =
      leaves_below (h - pb_length p) (bottom_of i p) ks"
    using leaves_below_twice[OF a(5), of "h - n" ks] a by simp
  ultimately show ?thesis
    using a by (auto simp: edge_tail_def)
qed

lemma skel_edge_outside:
  assumes "on_edge n c h i p" "wf_tree h (PEdge p b)" "j \<notin> subtree (h - n) c" "j \<noteq> i"
  shows "skel H h i (PEdge p b) ks j = None"
proof -
  have "subtree (h - pb_length p) (bottom_of i p) \<subseteq> subtree (h - n) c"
    using subtree_below[of "pb_length p - n" c "bottom_of i p" "h - n"] assms(1)
    by (simp add: on_edge_def diff_le_mono)
  then show ?thesis
    using assms skel_subtree[of "h - pb_length p" b H "bottom_of i p" _ j]
    by (cases "skel H h i (PEdge p b) ks j") (auto split: if_splits)
qed

lemma tail_ready:
  assumes edge: "on_edge n c h i p" and wf: "wf_tree h (PEdge p b)" and ks: "leaves_ok h i ks"
    and ready: "skel_ready H nv h i (PEdge p b) ks u os"
  shows "skel_ready H nv (h - n) c (edge_tail n c i p b) (leaves_below (h - n) c ks) u (tail_skeleton n c i p os)"
proof -
  let ?t = "edge_tail n c i p b" and ?kc = "leaves_below (h - n) c ks"
  have a: "node_at h i" "below n i c" "0 < n" "n \<le> h" "n \<le> pb_length p" "pb_length p \<le> h"
    using edge by (auto simp: on_edge_def)
  note tail = edge_tail_skel[OF edge wf, of _ H ks]
  have node: "node_at (h - n) c" by (rule node_at_below[OF a(1,2,4)])
  have "skel H (h - n) c ?t ?kc j = map_of (tail_skeleton n c i p os) j" if "skel H (h - n) c ?t ?kc j = Some x" for j x
  proof -
    have j: "j \<in> subtree (h - n) c" by (rule skel_subtree[OF edge_tail_wf(1)[OF edge wf] that])
    have le: "skel H h i (PEdge p b) ks \<subseteq>\<^sub>m map_of os" using ready by (simp only: skel_ready_def)
    show ?thesis
    proof (cases "j = c \<and> n \<noteq> pb_length p")
      case True
      then show ?thesis using tail[OF j] by (simp add: tail_skeleton_def update_conv')
    next
      case False
      have "skel H h i (PEdge p b) ks j = Some x" using tail[OF j, unfolded if_not_P[OF False]] that by (simp only:)
      from map_le_apply[OF le this] show ?thesis 
        using False that by (auto simp: tail_skeleton_def update_conv')
    qed
  qed
  moreover have "map_of u j = bottom_layer nv (skel H (h - n) c ?t ?kc) ?kc j" if j: "j \<in> subtree (h - n) c" for j
  proof -
    have u: "map_of u j = bottom_layer nv (skel H h i (PEdge p b) ks) ks j"
      using ready subtree_below[OF a(2,4)] j by (auto simp: skel_ready_def)
    show ?thesis
    proof (cases "j = c \<and> n \<noteq> pb_length p")
      case False
      have eq: "skel H h i (PEdge p b) ks j = skel H (h - n) c ?t ?kc j"
        using tail[OF j, unfolded if_not_P[OF False]] by (rule sym)
      show ?thesis unfolding u by (rule bottom_layer_below[OF a(1,2,4) ks j]) (rule eq)
    next
      case True
      have "c \<notin> set ?kc" using inner_not_leaf[OF node _ leaves_ok_below[OF ks]] True a by auto
      then have "c \<notin> set ks" unfolding leaf_in_leaves_below[OF a(1,2,4) ks] by simp
      have "c \<notin> subtree (h - n - (pb_length p - n)) (bottom_of i p)"
        by (rule ancestor_notin_subtree[OF node]) (use edge True in \<open>auto simp: on_edge_def\<close>)
      then have "skel H (h - pb_length p) (bottom_of i p) b k c = None" for k
        using skel_subtree[of "h - pb_length p" b H "bottom_of i p" k c] wf a
        by (cases "skel H (h - pb_length p) (bottom_of i p) b k c") auto
      moreover have "c \<noteq> i" using ancestor_notin_subtree[OF a(1-4)] by auto
      ultimately show ?thesis
        using u True tail[OF j] \<open>c \<notin> set ks\<close> \<open>c \<notin> set ?kc\<close> by (simp add: bottom_layer_def)
    qed
  qed
  ultimately show ?thesis by (auto simp: skel_ready_def map_le_def domIff)
qed

definition nonempty_correct where
  "nonempty_correct H nv fuel update_nonempty \<longleftrightarrow>
     (\<forall>h i t ks u os. node_at h i \<and> wf_tree h t \<and> leaves_ok h i ks \<and> h < fuel \<and> skel_ready H nv h i t ks u os
        \<longrightarrow> nonempty_result H nv h i t ks u os (update_nonempty u i os ks))"

text \<open>A leaf beside the edge: the edge becomes a binary node.\<close>

lemma edge_children:
  assumes corr: "nonempty_correct H nv fuel update_nonempty" and edge: "on_edge 1 c (Suc h) i p"
    and wf: "wf_tree (Suc h) (PEdge p b)" and ks: "leaves_ok (Suc h) i ks" and fuel: "h < fuel"
    and ready: "skel_ready H nv (Suc h) i (PEdge p b) ks u os"
    and e: "below 1 i e" "c \<noteq> e" "leaves_below h e ks \<noteq> []"
  shows "\<exists>u1 os' x l u2 y r. update_nonempty u c (tail_skeleton 1 c i p os) (leaves_below h c ks) = Some (u1, os', x) \<and>
    update_node_in_empty_tree fuel u1 e (leaves_below h e ks) = Some (u2, y) \<and>
    updated H nv h c (map_of u2) l x \<and> updated H nv h e (map_of u2) r y \<and>
    contents c l = new_contents nv (leaves_below h c ks) (contents i (PEdge p b)) \<and>
    contents e r = new_contents nv (leaves_below h e ks) Map.empty \<and>
    (\<forall>j. j \<notin> subtree h c \<longrightarrow> j \<notin> subtree h e \<longrightarrow> map_of u2 j = map_of u j) \<and>
    (\<forall>j. j \<notin> subtree (Suc h) i \<longrightarrow> map_of os' j = map_of os j)"
proof -
  have node: "node_at (Suc h) i" and c: "below 1 i c" using edge by (auto simp: on_edge_def)
  have nodes: "node_at h c" "node_at h e" using node_at_below[OF node c] node_at_below[OF node e(1)] by simp_all
  have disj: "subtree h c \<inter> subtree h e = {}" by (rule subtree_disjoint[OF nodes e(2)])
  have "skel_ready H nv h c (edge_tail 1 c i p b) (leaves_below h c ks) u (tail_skeleton 1 c i p os)"
    using tail_ready[OF edge wf ks ready] by simp
  with corr nodes(1) edge_tail_wf(1)[OF edge wf] leaves_ok_below[OF ks] fuel
  have "nonempty_result H nv h c (edge_tail 1 c i p b) (leaves_below h c ks) u (tail_skeleton 1 c i p os)
      (update_nonempty u c (tail_skeleton 1 c i p os) (leaves_below h c ks))"
    by (simp add: nonempty_correct_def)
  then obtain u1 os' x l where u1: "update_nonempty u c (tail_skeleton 1 c i p os) (leaves_below h c ks) = Some (u1, os', x)"
    "updated H nv h c (map_of u1) l x" "contents c l = new_contents nv (leaves_below h c ks) (contents i (PEdge p b))"
    "\<And>j. j \<notin> subtree h c \<Longrightarrow> map_of u1 j = map_of u j"
    "\<And>j. j \<notin> subtree h c \<Longrightarrow> map_of os' j = map_of (tail_skeleton 1 c i p os) j"
    using edge_tail_wf(2)[OF edge wf] by (auto simp: nonempty_result_def simp del: contents.simps)
  have layer: "map_of u1 j = bottom_layer nv Map.empty (leaves_below h e ks) j" if j: "j \<in> subtree h e" for j
  proof -
    have "j \<in> subtree (Suc h) i" "j \<noteq> i" "j \<notin> subtree h c"
      using j subtree_below[OF e(1), of "Suc h"] ancestor_notin_subtree[OF node e(1)] disj by auto
    then have "map_of u1 j = bottom_layer nv (skel H (Suc h) i (PEdge p b) ks) ks j"
      "skel H (Suc h) i (PEdge p b) ks j = None"
      using u1(4) ready skel_edge_outside[OF edge wf, of j H ks] by (auto simp: skel_ready_def simp del: skel.simps)
    with bottom_layer_below[OF node e(1) _ ks, of j "skel H (Suc h) i (PEdge p b) ks" Map.empty nv] j show ?thesis
      by (simp del: skel.simps)
  qed
  obtain u2 y r where u2: "update_node_in_empty_tree fuel u1 e (leaves_below h e ks) = Some (u2, y)"
    "updated H nv h e (map_of u2) r y" "contents e r = new_contents nv (leaves_below h e ks) Map.empty"
    "\<And>j. j \<notin> subtree h e \<Longrightarrow> map_of u2 j = map_of u1 j"
    using update_node_in_empty_tree_updated[OF nodes(2) leaves_ok_below[OF ks] e(3) fuel layer] by blast
  have "updated H nv h c (map_of u2) l x" by (rule updated_cong[OF u1(2)]) (use u2(4) disj in blast)
  moreover have "map_of os' j = map_of os j" if "j \<notin> subtree (Suc h) i" for j
  proof -
    have "j \<notin> subtree h c" using that subtree_below[OF c, of "Suc h"] by auto
    moreover from this have "j \<noteq> c" by auto
    ultimately show ?thesis using u1(5) by (simp add: tail_skeleton_def update_conv')
  qed
  ultimately show ?thesis using u1 u2 by (intro exI[of _ u1] exI[of _ os'] exI[of _ x] exI[of _ l] exI[of _ u2] exI[of _ y] exI[of _ r]) simp
qed

lemma tail_skeleton_code:
  assumes "on_edge n c h i p" "path_ok p"
  shows "remove_first_edges p n = Inr (path_between (pb_length p - n) c (bottom_of i p))"
  using assms by (intro remove_first_edges_Inr) (auto simp: on_edge_def node_at_def)

lemma ready_root_None:
  assumes "node_at (Suc h) i" "leaves_ok (Suc h) i ks" "skel_ready H nv (Suc h) i (PEdge p b) ks u os"
  shows "map_of u i = None"
proof -
  have "i \<notin> set ks" by (rule inner_not_leaf[OF assms(1) _ assms(2)]) simp
  then show ?thesis using assms(3) by (auto simp: skel_ready_def bottom_layer_def)
qed

lemma update_edge_node_beside:
  assumes corr: "nonempty_correct H nv fuel update_nonempty" and node: "node_at (Suc h) i"
    and wf: "wf_tree (Suc h) (PEdge p b)" and ks: "leaves_ok (Suc h) i ks" and fuel: "h < fuel"
    and ready: "skel_ready H nv (Suc h) i (PEdge p b) ks u os"
    and beside: "leaves_below h (if is_left_descendant p then 2 * i + 1 else 2 * i) ks \<noteq> []"
  shows "nonempty_result H nv (Suc h) i (PEdge p b) ks u os (update_edge_node fuel update_nonempty u i p os ks)"
proof -
  have p: "path_ok p" "0 < pb_length p" "pb_length p \<le> Suc h" using wf by auto
  then obtain n where n: "pb_length p = Suc n" by (cases "pb_length p") auto
  define c e where "c = (if is_left_descendant p then 2 * i else 2 * i + 1)"
    and "e = (if is_left_descendant p then 2 * i + 1 else 2 * i)"
  have "below n (2 * i) (bottom_of i p) \<or> below n (2 * i + 1) (bottom_of i p)"
    using bottom_below[OF p(1), of i] n by (simp add: below_children)
  then have "below n c (bottom_of i p)" using is_left_descendant_iff[OF p(1) n, of i] by (auto simp: c_def)
  then have edge: "on_edge 1 c (Suc h) i p" using node n p by (auto simp: on_edge_def c_def)
  have e: "below 1 i e" "c \<noteq> e" "leaves_below h e ks \<noteq> []" using beside by (auto simp: c_def e_def)
  obtain u1 os' x l u2 y r where res:
    "update_nonempty u c (tail_skeleton 1 c i p os) (leaves_below h c ks) = Some (u1, os', x)"
    "update_node_in_empty_tree fuel u1 e (leaves_below h e ks) = Some (u2, y)"
    "updated H nv h c (map_of u2) l x" "updated H nv h e (map_of u2) r y"
    "contents c l = new_contents nv (leaves_below h c ks) (contents i (PEdge p b))"
    "contents e r = new_contents nv (leaves_below h e ks) Map.empty"
    "\<And>j. j \<notin> subtree h c \<Longrightarrow> j \<notin> subtree h e \<Longrightarrow> map_of u2 j = map_of u j"
    "\<forall>j. j \<notin> subtree (Suc h) i \<longrightarrow> map_of os' j = map_of os j"
    using edge_children[OF corr edge wf ks fuel ready e] by blast
  have tail: "remove_first_edges p (Suc 0) = Inr (path_between n c (bottom_of i p))"
    "tail_skeleton (Suc 0) c i p os = (if Suc 0 < pb_length p then AList.update c (OrigEdge (path_between n c (bottom_of i p))) os else os)"
    using tail_skeleton_code[OF edge p(1)] n by (auto simp: tail_skeleton_def)
  have below: "below h c k" if "contents i (PEdge p b) k = Some v" for k v
    using contents_below[OF edge_tail_wf(1)[OF edge wf], of c k v] edge_tail_wf(2)[OF edge wf] that by simp
  note ui = ready_root_None[OF node ks ready]
  show ?thesis
  proof (cases "is_left_descendant p")
    case True
    then have ce: "c = 2 * i" "e = 2 * i + 1" by (simp_all add: c_def e_def)
    obtain u3 z where u3: "node_from_binary_data u2 i x y = Some (u3, z)" "updated H nv (Suc h) i (map_of u3) (mk_bin l r) z"
      "\<forall>j. j \<notin> subtree (Suc h) i \<longrightarrow> map_of u3 j = map_of u j"
      using binary_step[OF node ui res(3,4)[unfolded ce]] res(7)[unfolded ce] by auto
    have "contents i (mk_bin l r) = new_contents nv ks (contents i (PEdge p b))"
      using new_contents_children[OF ks res(5,6)[unfolded ce]] below ce by simp
    moreover have "update_edge_node fuel update_nonempty u i p os ks = Some (u3, os', z)"
      using True beside res(1,2) u3(1) tail ce
      by (cases "Suc 0 < pb_length p") (simp_all add: update_edge_node_def node_children_indices[OF node] split_leaves_Some[OF node ks])
    ultimately show ?thesis using u3 res(8) by (auto simp: nonempty_result_def simp del: contents.simps)
  next
    case False
    then have ce: "c = 2 * i + 1" "e = 2 * i" by (simp_all add: c_def e_def)
    obtain u3 z where u3: "node_from_binary_data u2 i y x = Some (u3, z)" "updated H nv (Suc h) i (map_of u3) (mk_bin r l) z"
      "\<forall>j. j \<notin> subtree (Suc h) i \<longrightarrow> map_of u3 j = map_of u j"
      using binary_step[OF node ui res(4,3)[unfolded ce]] res(7)[unfolded ce] by auto
    have "contents i (mk_bin r l) = new_contents nv ks (contents i (PEdge p b))"
      using new_contents_children[OF ks res(6,5)[unfolded ce]] below ce by simp
    moreover have "update_edge_node fuel update_nonempty u i p os ks = Some (u3, os', z)"
      using False beside res(1,2) u3(1) tail ce
      by (cases "Suc 0 < pb_length p") (simp_all add: update_edge_node_def node_children_indices[OF node] split_leaves_Some[OF node ks])
    ultimately show ?thesis using u3 res(8) by (auto simp: nonempty_result_def simp del: contents.simps)
  qed
qed

text \<open>All leaves on the side of the edge: the update goes on at the lowest common ancestor of the leaves and the bottom.\<close>

lemma edge_new_bottom:
  assumes node: "node_at (Suc h) i" and wf: "wf_tree (Suc h) (PEdge p b)" and ks: "leaves_ok (Suc h) i ks" "ks \<noteq> []"
    and along: "leaves_below h (if is_left_descendant p then 2 * i + 1 else 2 * i) ks = []"
  obtains n d q c where "get_path_to_lca i ks = Some (path_between n i d)" "below n i d" "n \<le> Suc h"
    "get_path_to_lca i (sorted_leaf_indices_new [d, bottom_of i p]) = Some (path_between q i c)"
    "on_edge q c (Suc h) i p" "leaves_ok (Suc h - q) c ks"
proof -
  have p: "path_ok p" "0 < pb_length p" "pb_length p \<le> Suc h" using wf by auto
  then obtain m where m: "pb_length p = Suc m" by (cases "pb_length p") auto
  define e where "e = (if is_left_descendant p then 2 * i else 2 * i + 1)"
  have e: "below 1 i e" by (simp add: e_def)
  have "below m (2 * i) (bottom_of i p) \<or> below m (2 * i + 1) (bottom_of i p)"
    using bottom_below[OF p(1), of i] m by (simp add: below_children)
  then have bottom: "below m e (bottom_of i p)" using is_left_descendant_iff[OF p(1) m, of i] by (auto simp: e_def)
  have ke: "leaves_ok h e ks" using along leaves_ok_child[OF ks(1)] by (auto simp: e_def split: if_splits)
  obtain n d where d: "get_path_to_lca i ks = Some (path_between n i d)" "below n i d" "n \<le> Suc h" "leaves_ok (Suc h - n) d ks"
    "\<And>m e. below m i e \<Longrightarrow> m \<le> Suc h \<Longrightarrow> leaves_ok (Suc h - m) e ks \<Longrightarrow> m \<le> n"
    using get_path_to_lca_leaves[OF node ks] by blast
  have "1 \<le> n" using d(5)[OF e] ke by simp
  obtain q c where q: "get_path_to_lca i (sorted_leaf_indices_new [d, bottom_of i p]) = Some (path_between q i c)"
    "below q i c" "q \<le> n" "q \<le> pb_length p" "below (n - q) c d" "below (pb_length p - q) c (bottom_of i p)"
    "\<And>q' e. below q' i e \<Longrightarrow> q' \<le> n \<Longrightarrow> q' \<le> pb_length p \<Longrightarrow> below (n - q') e d
      \<Longrightarrow> below (pb_length p - q') e (bottom_of i p) \<Longrightarrow> q' \<le> q"
    using get_path_to_lca_pair[OF node d(2,3) bottom_below[OF p(1)] p(3)] by blast
  have "below (n - 1) e d"
  proof -
    have k: "below (Suc h - n) d (hd ks)" "below h e (hd ks)" using d(4) ke ks(2) by (auto simp: leaves_ok_def list_all_iff)
    have "h = n - 1 + (Suc h - n)" using \<open>1 \<le> n\<close> d(3) by simp
    with k below_add[of "n - 1" "Suc h - n" e "hd ks"] show ?thesis by (simp add: below_def)
  qed
  then have "1 \<le> q" using q(7)[OF e] \<open>1 \<le> n\<close> bottom m by simp
  have "leaves_ok (Suc h - q) c ks"
  proof -
    have "below (Suc h - q) c k" if "below (Suc h - n) d k" for k
      using below_trans[OF q(5) that] q(3) d(3) by simp
    with d(4) show ?thesis by (auto simp: leaves_ok_def list_all_iff)
  qed
  with that[OF d(1-3) q(1)] q(2,4,6) \<open>1 \<le> q\<close> node p(3) show ?thesis by (simp add: on_edge_def)
qed

lemma update_edge_node_along:
  assumes corr: "nonempty_correct H nv fuel update_nonempty" and node: "node_at (Suc h) i"
    and wf: "wf_tree (Suc h) (PEdge p b)" and ks: "leaves_ok (Suc h) i ks" "ks \<noteq> []" and fuel: "h < fuel"
    and ready: "skel_ready H nv (Suc h) i (PEdge p b) ks u os"
    and along: "leaves_below h (if is_left_descendant p then 2 * i + 1 else 2 * i) ks = []"
  shows "nonempty_result H nv (Suc h) i (PEdge p b) ks u os (update_edge_node fuel update_nonempty u i p os ks)"
proof -
  let ?t = "PEdge p b" and ?b = "bottom_of i p"
  have p: "path_ok p" "pb_length p \<le> Suc h" using wf by auto
  obtain n d q c where lca: "get_path_to_lca i ks = Some (path_between n i d)" "below n i d" "n \<le> Suc h"
    "get_path_to_lca i (sorted_leaf_indices_new [d, ?b]) = Some (path_between q i c)"
    "on_edge q c (Suc h) i p" "leaves_ok (Suc h - q) c ks"
    using edge_new_bottom[OF node wf ks along] by blast
  have c: "below q i c" "0 < q" "q \<le> Suc h" using lca(5) by (auto simp: on_edge_def)
  have kc: "leaves_below (Suc h - q) c ks = ks" by (rule leaves_below_self[OF lca(6)])
  have "nonempty_result H nv (Suc h - q) c (edge_tail q c i p b) ks u (tail_skeleton q c i p os)
      (update_nonempty u c (tail_skeleton q c i p os) ks)"
    using corr node_at_below[OF node c(1,3)] edge_tail_wf(1)[OF lca(5) wf] lca(6) fuel c(2)
      tail_ready[OF lca(5) wf ks(1) ready, unfolded kc] by (simp add: nonempty_correct_def)
  then obtain u1 os' x t where u1: "update_nonempty u c (tail_skeleton q c i p os) ks = Some (u1, os', x)"
    "updated H nv (Suc h - q) c (map_of u1) t x" "contents c t = new_contents nv ks (contents i ?t)"
    "\<And>j. j \<notin> subtree (Suc h - q) c \<Longrightarrow> map_of u1 j = map_of u j"
    "\<And>j. j \<notin> subtree (Suc h - q) c \<Longrightarrow> map_of os' j = map_of (tail_skeleton q c i p os) j"
    using edge_tail_wf(2)[OF lca(5) wf] by (auto simp: nonempty_result_def simp del: contents.simps)
  have "map_of u j = None" if j: "j \<in> subtree (Suc h) i" "j \<notin> subtree (Suc h - q) c" for j
  proof (cases "j = i")
    case False
    then have "skel H (Suc h) i ?t ks j = None" "j \<notin> set ks"
      using skel_edge_outside[OF lca(5) wf j(2)] leaves_in_subtree[OF lca(6)] j(2) by blast+
    then show ?thesis using ready j(1) by (simp add: skel_ready_def bottom_layer_def)
  qed (use ready_root_None[OF node ks(1) ready] in simp)
  with edge_step[OF node c u1(2,4)] obtain u2 y where
    u2: "node_from_edge_data u1 (path_between q i c) c x = Some (u2, y)"
      "updated H nv (Suc h) i (map_of u2) (mk_edge (path_between q i c) t) y"
      "\<forall>j. j \<notin> subtree (Suc h) i \<longrightarrow> map_of u2 j = map_of u j" by auto
  have os: "map_of os' j = map_of os j" if "j \<notin> subtree (Suc h) i" for j
  proof -
    have "j \<notin> subtree (Suc h - q) c" using that subtree_below[OF c(1,3)] by auto
    moreover from this have "j \<noteq> c" by auto
    ultimately show ?thesis using u1(5) by (simp add: tail_skeleton_def update_conv')
  qed
  have "c = ?b \<longleftrightarrow> q = pb_length p"
    using lca(5) below_height_unique[OF node node c(1), of "pb_length p"] bottom_below[OF p(1), of i] c(3) p(2)
    by (auto simp: on_edge_def)
  then have "update_edge_node fuel update_nonempty u i p os ks = Some (u2, os', y)"
    using along u1(1) u2(1) lca(1,4) tail_skeleton_code[OF lca(5) p(1)] bottom_index_Some[OF node path_ok_between[OF c(1)]]
      bottom_index_Some[OF node path_ok_between[OF lca(2)]] bottom_index_Some[OF node p] c(3) lca(3)
    by (cases "q = pb_length p")
      (simp_all add: update_edge_node_def node_children_indices[OF node] split_leaves_Some[OF node ks(1)] tail_skeleton_def
        split: if_splits)
  with u2 os u1(3) show ?thesis by (auto simp: nonempty_result_def simp del: contents.simps)
qed

text \<open>A subtree without modifications.\<close>

lemma update_unmodified:
  assumes "node_at h i" "wf_tree h t" "skel_ready H nv h i t [] u os"
  shows "nonempty_result H nv h i t [] u os (update_node_in_nonempty_tree (Suc fuel) u i os [])"
proof (cases t)
  case (PEdge p b)
  have p: "path_ok p" "0 < pb_length p" "pb_length p \<le> h" "wf_tree (h - pb_length p) b" "\<not> is_edge b" using assms(2) PEdge by auto
  let ?b = "bottom_of i p"
  have skel: "skel H h i t [] = [?b \<mapsto> UnmodifiedSubTree (tree_hash H b), i \<mapsto> OrigEdge p]"
    using p(4,5) PEdge by (cases b) (simp_all add: leaves_below_def)
  have ne: "?b \<noteq> i" using ancestor_notin_subtree[OF assms(1) bottom_below[OF p(1)] p(2,3)] by auto
  have sub: "?b \<in> subtree h i" using subtree_below[OF bottom_below[OF p(1)] p(3), of i] subtree_root by blast
  have os: "map_of os i = Some (OrigEdge p)"
    using map_le_apply[of "skel H h i t []" "map_of os" i] assms(3) skel by (simp add: skel_ready_def)
  have u: "map_of u j = (if j = ?b then Some (UpdUnmodifiedSubTree (tree_hash H b)) else None)" if "j \<in> subtree h i" for j
    using assms(3) that ne skel by (auto simp: skel_ready_def bottom_layer_def)
  have "b \<noteq> PEmpty" using p(4) by auto
  then have "updated H nv h i (map_of u) t (TempOriginal (OrigEdge p))"
    using u sub p assms(2) PEdge
    by (intro updatedI[of _ _ _ _ _ _ _ "{?b}"]) (auto simp: wf_tree0_def domIff intro!: final_unmodified split: if_splits)
  with os show ?thesis by (auto simp: nonempty_result_def new_contents_def fun_eq_iff)
next
  case PEmpty
  then show ?thesis using assms(2) by simp
next
  case (PLeaf l)
  then have os: "map_of os i = Some (UnmodifiedSubTree (tree_hash H t))"
    using map_le_apply[of "skel H h i t []" "map_of os" i] assms(3) by (simp add: skel_ready_def)
  have "updated H nv h i (map_of u) t (TempOriginal (UnmodifiedSubTree (tree_hash H t)))"
    using assms PLeaf by (intro updatedI[of _ _ _ _ _ _ _ "{i}"]) (auto simp: wf_tree0_def skel_ready_def bottom_layer_def)
  with os show ?thesis by (auto simp: nonempty_result_def new_contents_def fun_eq_iff)
next
  case (PBin l r)
  then have os: "map_of os i = Some (UnmodifiedSubTree (tree_hash H t))"
    using map_le_apply[of "skel H h i t []" "map_of os" i] assms(3) by (simp add: skel_ready_def)
  have "updated H nv h i (map_of u) t (TempOriginal (UnmodifiedSubTree (tree_hash H t)))"
    using assms PBin
    by (intro updatedI[of _ _ _ _ _ _ _ "{i}"]) (auto simp: wf_tree0_def skel_ready_def bottom_layer_def domIff split: if_splits)
  with os show ?thesis by (auto simp: nonempty_result_def new_contents_def fun_eq_iff)
qed

text \<open>A modified binary node.\<close>

lemma bin_ready:
  assumes node: "node_at (Suc h) i" and wf: "wf_tree (Suc h) (PBin l r)" and ks: "leaves_ok (Suc h) i ks" "ks \<noteq> []"
    and ready: "skel_ready H nv (Suc h) i (PBin l r) ks u os"
  shows "skel_ready H nv h (2 * i) l (leaves_below h (2 * i) ks) u os"
    "skel_ready H nv h (2 * i + 1) r (leaves_below h (2 * i + 1) ks) u os"
    "map_of os i = Some OrigBinary" "map_of u i = None"
proof -
  let ?sl = "skel H h (2 * i) l (leaves_below h (2 * i) ks)" and ?sr = "skel H h (2 * i + 1) r (leaves_below h (2 * i + 1) ks)"
  let ?s = "skel H (Suc h) i (PBin l r) ks"
  have s: "?s = (?sl ++ ?sr)(i \<mapsto> OrigBinary)" using ks(2) by simp
  have wfs: "wf_tree h l" "wf_tree h r" using wf by auto
  have disj: "subtree h (2 * i) \<inter> subtree h (2 * i + 1) = {}" by (rule subtree_children_disjoint[OF node])
  have i: "i \<notin> subtree h (2 * i)" "i \<notin> subtree h (2 * i + 1)" using ancestor_notin_subtree[OF node, of 1] by auto
  have le: "?s \<subseteq>\<^sub>m map_of os" and u: "\<And>j. j \<in> subtree (Suc h) i \<Longrightarrow> map_of u j = bottom_layer nv ?s ks j"
    using ready unfolding skel_ready_def by blast+
  have l: "?s j = ?sl j" if "j \<in> subtree h (2 * i)" for j
    using that i disj skel_subtree[OF wfs(2), of H "2 * i + 1" "leaves_below h (2 * i + 1) ks" j]
    unfolding s by (cases "?sr j") (auto simp: map_add_def)
  have r: "?s j = ?sr j" if "j \<in> subtree h (2 * i + 1)" for j
    using that i disj skel_subtree[OF wfs(1), of H "2 * i" "leaves_below h (2 * i) ks" j]
    unfolding s by (cases "?sl j"; cases "?sr j") (auto simp: map_add_def)
  have layer: "map_of u j = bottom_layer nv sc (leaves_below h c ks) j"
    if "below 1 i c" "j \<in> subtree h c" "?s j = sc j" for c sc j
    using bottom_layer_below[OF node that(1) _ ks(1), of j ?s sc nv] that u subtree_below[OF that(1), of "Suc h"] by auto
  show "skel_ready H nv h (2 * i) l (leaves_below h (2 * i) ks) u os"
    using l layer[of "2 * i" _ ?sl] map_le_apply[OF le] skel_subtree[OF wfs(1), of H "2 * i"]
    by (auto simp: skel_ready_def map_le_def dom_def simp del: skel.simps)
  show "skel_ready H nv h (2 * i + 1) r (leaves_below h (2 * i + 1) ks) u os"
    using r layer[of "2 * i + 1" _ ?sr] map_le_apply[OF le] skel_subtree[OF wfs(2), of H "2 * i + 1"]
    by (auto simp: skel_ready_def map_le_def dom_def simp del: skel.simps)
  show "map_of os i = Some OrigBinary" using map_le_apply[OF le, of i] s by simp
  show "map_of u i = None"
    using u[of i] s inner_not_leaf[OF node _ ks(1)] by (simp add: bottom_layer_def)
qed

lemma update_modified_bin:
  assumes corr: "nonempty_correct H nv fuel (update_node_in_nonempty_tree fuel)" and node: "node_at (Suc h) i"
    and wf: "wf_tree (Suc h) (PBin l r)" and ks: "leaves_ok (Suc h) i ks" "ks \<noteq> []" and fuel: "h < fuel"
    and ready: "skel_ready H nv (Suc h) i (PBin l r) ks u os"
  shows "nonempty_result H nv (Suc h) i (PBin l r) ks u os (update_node_in_nonempty_tree (Suc fuel) u i os ks)"
proof -
  let ?kl = "leaves_below h (2 * i) ks" and ?kr = "leaves_below h (2 * i + 1) ks"
  note ready' = bin_ready[OF node wf ks ready] and nodes = node_children[OF node]
  have wfs: "wf_tree h l" "wf_tree h r" using wf by auto
  have disj: "j \<in> subtree h (2 * i + 1) \<Longrightarrow> j \<notin> subtree h (2 * i)" for j using subtree_children_disjoint[OF node] by auto
  obtain u1 os1 x l' where u1: "update_node_in_nonempty_tree fuel u (2 * i) os ?kl = Some (u1, os1, x)"
    "updated H nv h (2 * i) (map_of u1) l' x" "contents (2 * i) l' = new_contents nv ?kl (contents (2 * i) l)"
    "\<And>j. j \<notin> subtree h (2 * i) \<Longrightarrow> map_of u1 j = map_of u j \<and> map_of os1 j = map_of os j"
    using corr[unfolded nonempty_correct_def, rule_format, of h "2 * i" l ?kl u os] nodes wfs leaves_ok_below[OF ks(1)] fuel ready'(1)
    by (auto simp: nonempty_result_def)
  have "skel_ready H nv h (2 * i + 1) r ?kr u1 os1"
    using ready'(2) u1(4) disj skel_subtree[OF wfs(2), of H "2 * i + 1" ?kr]
    unfolding skel_ready_def map_le_def by (metis domD)
  then obtain u2 os2 y r' where u2: "update_node_in_nonempty_tree fuel u1 (2 * i + 1) os1 ?kr = Some (u2, os2, y)"
    "updated H nv h (2 * i + 1) (map_of u2) r' y" "contents (2 * i + 1) r' = new_contents nv ?kr (contents (2 * i + 1) r)"
    "\<And>j. j \<notin> subtree h (2 * i + 1) \<Longrightarrow> map_of u2 j = map_of u1 j \<and> map_of os2 j = map_of os1 j"
    using corr[unfolded nonempty_correct_def, rule_format, of h "2 * i + 1" r ?kr u1 os1] nodes wfs leaves_ok_below[OF ks(1)] fuel
    by (auto simp: nonempty_result_def)
  have l: "updated H nv h (2 * i) (map_of u2) l' x" by (rule updated_cong[OF u1(2)]) (use u2(4) disj in blast)
  obtain u3 z where u3: "node_from_binary_data u2 i x y = Some (u3, z)" "updated H nv (Suc h) i (map_of u3) (mk_bin l' r') z"
    "\<forall>j. j \<notin> subtree (Suc h) i \<longrightarrow> map_of u3 j = map_of u j"
    using binary_step[OF node ready'(4) l u2(2)] u1(4) u2(4) by auto
  have "contents i (mk_bin l' r') = new_contents nv ks (contents i (PBin l r))"
    using new_contents_children[OF ks(1) u1(3) u2(3)] contents_below[OF wfs(1)] contents_below[OF wfs(2)] by simp
  moreover have "update_node_in_nonempty_tree (Suc fuel) u i os ks = Some (u3, os2, z)"
    using u1(1) u2(1) u3(1) ks(2) ready'(3)
    by (simp add: node_is_leaf[OF node] split_leaves_Some[OF node ks(1)] node_children_indices[OF node])
  moreover have "map_of os2 j = map_of os j" if "j \<notin> subtree (Suc h) i" for j
    using that u1(4)[of j] u2(4)[of j] subtree_children[of h i] by auto
  ultimately show ?thesis using u3 by (auto simp: nonempty_result_def simp del: contents.simps update_node_in_nonempty_tree.simps)
qed

lemma update_modified_leaf:
  assumes "node_at 0 i" "skel_ready H nv 0 i (PLeaf l) [i] u os"
  shows "nonempty_result H nv 0 i (PLeaf l) [i] u os (update_node_in_nonempty_tree (Suc fuel) u i os [i])"
proof (cases "nv i")
  case None
  have "updated H nv 0 i (map_of u) PEmpty TempEmpty"
    using assms(2) None by (intro updatedI[of _ _ _ _ _ _ _ "{}"]) (auto simp: wf_tree0_def skel_ready_def bottom_layer_def domIff)
  with None assms show ?thesis
    by (auto simp: nonempty_result_def node_is_leaf[OF assms(1)] skel_ready_def bottom_layer_def new_contents_def fun_eq_iff)
next
  case (Some v)
  have "updated H nv 0 i (map_of u) (PLeaf v) TempLeaf"
    using assms(2) Some by (intro updatedI[of _ _ _ _ _ _ _ "{i}"]) (auto simp: wf_tree0_def skel_ready_def bottom_layer_def)
  with Some assms show ?thesis
    by (fastforce simp: nonempty_result_def node_is_leaf[OF assms(1)] skel_ready_def bottom_layer_def new_contents_def fun_eq_iff)
qed

lemma update_node_in_nonempty_tree_correct: "nonempty_correct H nv fuel (update_node_in_nonempty_tree fuel)"
proof (induction fuel)
  case (Suc fuel)
  have "nonempty_result H nv h i t ks u os (update_node_in_nonempty_tree (Suc fuel) u i os ks)"
    if a: "node_at h i" "wf_tree h t" "leaves_ok h i ks" "h < Suc fuel" "skel_ready H nv h i t ks u os" for h i t ks u os
  proof (cases "ks = []")
    case True
    then show ?thesis using update_unmodified[OF a(1,2)] a(5) by simp
  next
    case False
    show ?thesis
    proof (cases t)
      case (PLeaf l)
      with a leaves_ok_0[of i ks] False have "h = 0" "ks = [i]" by auto
      with a PLeaf show ?thesis using update_modified_leaf[of i H nv l u os fuel] by simp
    next
      case (PBin l r)
      with a obtain h' where h: "h = Suc h'" by (cases h) auto
      show ?thesis unfolding PBin h
        by (rule update_modified_bin[OF Suc.IH]) (use a PBin h False in auto)
    next
      case (PEdge p b)
      with a obtain h' where h: "h = Suc h'" by (cases h) auto
      have "map_of os i = Some (OrigEdge p)"
        using map_le_apply[of "skel H h i t ks" "map_of os" i] a(5) PEdge by (simp add: skel_ready_def)
      then have eq: "update_node_in_nonempty_tree (Suc fuel) u i os ks =
          update_edge_node fuel (update_node_in_nonempty_tree fuel) u i p os ks"
        using False node_is_leaf[OF a(1)] h by simp
      note prems = a[unfolded PEdge h]
      show ?thesis unfolding eq unfolding PEdge h
        using update_edge_node_beside[OF Suc.IH prems(1-3) _ prems(5)] update_edge_node_along[OF Suc.IH prems(1-3) False _ prems(5)]
          prems(4) by auto
    qed (use a in simp)
  qed
  then show ?case by (simp add: nonempty_correct_def del: update_node_in_nonempty_tree.simps)
qed (simp add: nonempty_correct_def)

end
