(* ===== verification/Patricia_Structure_Laws.thy ===== *)
theory Patricia_Structure_Laws
  imports Patricia_Update_Laws
begin

text \<open>
  The second phase on a whole tree: \<open>updated_create\<close> gives the skeleton of the well-formed tree with the modified
  contents, and the unmodified subtrees in it are those of the original skeleton.
\<close>

section \<open>Invariants of the skeleton\<close>

lemma update_edge_nodeE:
  assumes "update_edge_node fuel update_nonempty u i p os ks = Some (u', os', x)"
  obtains (binary) c o1 kc u1 y e ke u2 z l r where "update_nonempty u c o1 kc = Some (u1, os', y)"
    "update_node_in_empty_tree fuel u1 e ke = Some (u2, z)" "node_from_binary_data u2 i l r = Some (u', x)"
  | (edge) c o1 u1 y q where "update_nonempty u c o1 ks = Some (u1, os', y)" "node_from_edge_data u1 q c y = Some (u', x)"
proof -
  obtain li ri kl kr where c: "get_children_indices i = Some (li, ri)" "split_leaves i ks = Some (kl, kr)"
    using assms by (auto simp: update_edge_node_def bind_eq_Some_conv)
  let ?w = "is_left_descendant p"
  show ?thesis
  proof (cases "kr \<noteq> [] \<and> ?w \<or> kl \<noteq> [] \<and> \<not> ?w")
    case True
    with assms c show ?thesis
      by (cases ?w) (auto simp: update_edge_node_def bind_eq_Some_conv intro: binary)
  next
    case False
    with assms c show ?thesis
      by (auto simp: update_edge_node_def bind_eq_Some_conv intro: edge)
  qed
qed

text \<open>What holds of a skeleton is kept by the update of a tree if it is kept by the insertion of binary and edge nodes.\<close>

locale skeleton_invariant =
  fixes P :: "updated_skeleton_node_map \<Rightarrow> bool"
  assumes insert_node: "P u \<Longrightarrow> \<not> is_unmodified_node n \<Longrightarrow> P (AList.update i n u)"
begin

lemma insert_inner [simp]: "P u \<Longrightarrow> P (AList.update i UpdBinary u)" "P u \<Longrightarrow> P (AList.update i (UpdEdge p) u)"
  by (simp_all add: insert_node is_unmodified_node_def)

lemma node_from_edge_data_keeps:
  "node_from_edge_data u p i x = Some (u', y) \<Longrightarrow> P u \<Longrightarrow> P u'"
  by (auto simp: node_from_edge_data_def bind_eq_Some_conv split: temp_skeleton_node.splits original_skeleton_node.splits)

lemma finalize_child_keeps: "finalize_child u i x = Some u' \<Longrightarrow> P u \<Longrightarrow> P u'"
  by (auto simp: finalize_child_def bind_eq_Some_conv split: temp_skeleton_node.splits original_skeleton_node.splits)

lemma node_from_binary_data_keeps:
  "node_from_binary_data u i x y = Some (u', z) \<Longrightarrow> P u \<Longrightarrow> P u'"
  by (auto simp: node_from_binary_data_def bind_eq_Some_conv split: if_splits prod.splits
    dest!: node_from_edge_data_keeps dest: finalize_child_keeps)

lemma update_node_in_empty_tree_keeps:
  "update_node_in_empty_tree fuel u i ks = Some (u', x) \<Longrightarrow> P u \<Longrightarrow> P u'"
proof (induction fuel arbitrary: u i ks u' x)
  case (Suc fuel)
  then show ?case
    by (fastforce simp: bind_eq_Some_conv split: if_splits prod.splits
      dest: node_from_binary_data_keeps node_from_edge_data_keeps Suc.IH)
qed simp

lemma update_edge_node_keeps:
  assumes "update_edge_node fuel update_nonempty u i p os ks = Some (u', os', x)" "P u"
    and "\<And>u i os ks u' os' x. update_nonempty u i os ks = Some (u', os', x) \<Longrightarrow> P u \<Longrightarrow> P u'"
  shows "P u'"
  using assms(1)
proof (cases rule: update_edge_nodeE)
  case (binary c o1 kc u1 y e ke u2 z l r)
  with assms(2,3) update_node_in_empty_tree_keeps node_from_binary_data_keeps show ?thesis by blast
next
  case (edge c o1 u1 y q)
  with assms(2,3) node_from_edge_data_keeps show ?thesis by blast
qed

lemma update_node_in_nonempty_tree_keeps:
  "update_node_in_nonempty_tree fuel u i os ks = Some (u', os', x) \<Longrightarrow> P u \<Longrightarrow> P u'"
proof (induction fuel arbitrary: u i os ks u' os' x)
  case (Suc fuel)
  show ?case
  proof (cases "index_is_leaf i \<and> i \<in> set ks \<or> ks = []")
    case True
    with Suc.prems show ?thesis 
      by (auto simp: bind_eq_Some_conv split: if_splits original_skeleton_node.split_asm)
        (metis original_skeleton_node.exhaust)
  next
    case False
    with Suc.prems(1) obtain n where n: "map_of os i = Some n" by (auto simp: bind_eq_Some_conv split: if_splits)
    show ?thesis
    proof (cases n)
      case OrigBinary
      with n False Suc.prems show ?thesis
        by (auto simp: bind_eq_Some_conv dest!: node_from_binary_data_keeps Suc.IH)
    next
      case (OrigEdge p)
      with n False Suc.prems have "update_edge_node fuel (update_node_in_nonempty_tree fuel) u i p os ks = Some (u', os', x)"
        by (auto split: if_splits)
      then show ?thesis by (rule update_edge_node_keeps) (use Suc.prems Suc.IH in blast)+
    qed (use n False Suc.prems in \<open>auto split: if_splits\<close>)
  qed
qed simp

end

text \<open>\<open>unmodified_from m u\<close>: the unmodified subtrees of the updated skeleton \<open>u\<close> are in the original skeleton \<open>m\<close>.\<close>

definition unmodified_from :: "(node_index \<rightharpoonup> original_skeleton_node) \<Rightarrow> updated_skeleton_node_map \<Rightarrow> bool" where
  "unmodified_from m u \<longleftrightarrow>
     (\<forall>j h. map_of u j = Some (UpdUnmodifiedSubTree h) \<longrightarrow> m j = Some (UnmodifiedSubTree h))"

interpretation skel_ok: skeleton_invariant hm_ok
  by unfold_locales simp

interpretation skel_from: skeleton_invariant "unmodified_from m" for m
  by unfold_locales (auto simp: unmodified_from_def is_unmodified_node_def update_conv' split: if_splits)

section \<open>The temporary root\<close>

text \<open>A node with modified leaves below it is made from its children.\<close>

definition made_node :: "temp_skeleton_node \<Rightarrow> bool" where
  "made_node x \<longleftrightarrow> x = TempEmpty \<or> x = TempOriginal OrigBinary \<or> (\<exists>p. x = TempOriginal (OrigEdge p))"

lemma node_from_edge_data_made: "node_from_edge_data u p i x = Some (u', y) \<Longrightarrow> made_node y"
  by (auto simp: node_from_edge_data_def made_node_def bind_eq_Some_conv
    split: temp_skeleton_node.splits original_skeleton_node.splits)

lemma node_from_binary_data_made: "node_from_binary_data u i x y = Some (u', z) \<Longrightarrow> made_node z"
  by (auto simp: node_from_binary_data_def bind_eq_Some_conv made_node_def split: if_splits prod.splits
    dest!: node_from_edge_data_made)

lemma update_node_in_empty_tree_made:
  assumes "update_node_in_empty_tree (Suc fuel) u i ks = Some (u', x)" "\<not> index_is_leaf i"
  shows "made_node x"
  using assms by (auto simp: bind_eq_Some_conv split: if_splits prod.splits
    dest: node_from_binary_data_made node_from_edge_data_made)

lemma update_edge_node_made:
  "update_edge_node fuel update_nonempty u i p os ks = Some (u', os', x) \<Longrightarrow> made_node x"
  by (erule update_edge_nodeE) (rule node_from_binary_data_made node_from_edge_data_made; assumption)+

lemma update_node_in_nonempty_tree_made:
  assumes "update_node_in_nonempty_tree (Suc fuel) u i os ks = Some (u', os', x)" "\<not> index_is_leaf i" "ks \<noteq> []"
  shows "made_node x"
proof -
  from assms obtain n where n: "map_of os i = Some n" by (auto simp: bind_eq_Some_conv split: if_splits)
  show ?thesis
    using n assms
    by (cases n) (auto simp: bind_eq_Some_conv dest: node_from_binary_data_made update_edge_node_made)
qed

section \<open>The updated skeleton of a tree\<close>

lemma skel_modified_leaf:
  "wf_tree h t \<Longrightarrow> node_at h i \<Longrightarrow> leaves_ok h i ks \<Longrightarrow> k \<in> set ks \<Longrightarrow> skel H h i t ks k \<noteq> Some (UnmodifiedSubTree x)"
proof (induction H h i t ks rule: skel.induct)
  case (3 H h i l r ks)
  then obtain h' where h: "h = Suc h'" by (cases h) auto
  note node = 3(4)[unfolded h] and ks = 3(5)[unfolded h]
  have wfs: "wf_tree h' l" "wf_tree h' r" and ne: "ks \<noteq> []" using 3(3,6) h by auto
  have in_sub: "k \<in> set (leaves_below h' c ks)" if "below 1 i c" "k \<in> subtree h' c" for c
    using leaf_in_leaves_below[OF node that(1) _ ks] that(2) 3(6) by auto
  have IHs: "k \<in> subtree h' (2 * i) \<Longrightarrow> skel H h' (2 * i) l (leaves_below h' (2 * i) ks) k \<noteq> Some (UnmodifiedSubTree x)"
    "k \<in> subtree h' (2 * i + 1) \<Longrightarrow> skel H h' (2 * i + 1) r (leaves_below h' (2 * i + 1) ks) k \<noteq> Some (UnmodifiedSubTree x)"
    using 3(1)[OF ne] 3(2)[OF ne] wfs node_children[OF node] leaves_ok_below[OF ks] in_sub[of "2 * i"]
      in_sub[of "2 * i + 1"] h by (simp_all del: set_leaves_below)
  have "skel H h' (2 * i) l (leaves_below h' (2 * i) ks) k \<noteq> Some (UnmodifiedSubTree x)"
    using IHs(1) skel_subtree[OF wfs(1), of H "2 * i" "leaves_below h' (2 * i) ks" k] by blast
  moreover have "skel H h' (2 * i + 1) r (leaves_below h' (2 * i + 1) ks) k \<noteq> Some (UnmodifiedSubTree x)"
    using IHs(2) skel_subtree[OF wfs(2), of H "2 * i + 1" "leaves_below h' (2 * i + 1) ks" k] by blast
  ultimately show ?case using ne h by (auto simp: map_add_def split: option.splits)
next
  case (4 H h i p b ks)
  then have p: "path_ok p" "pb_length p \<le> h" "wf_tree (h - pb_length p) b" by auto
  let ?kb = "leaves_below (h - pb_length p) (bottom_of i p) ks"
  have "skel H (h - pb_length p) (bottom_of i p) b ?kb k \<noteq> Some (UnmodifiedSubTree x)"
  proof (cases "k \<in> subtree (h - pb_length p) (bottom_of i p)")
    case True
    then have "k \<in> set ?kb" using leaf_in_leaves_below[OF 4(3) bottom_below[OF p(1)] p(2) 4(4)] 4(5) by auto
    then show ?thesis
      using 4(1)[OF p(3) node_at_below[OF 4(3) bottom_below[OF p(1)] p(2)] leaves_ok_below[OF 4(4)]] by simp
  next
    case False
    then show ?thesis using skel_subtree[OF p(3), of H "bottom_of i p" ?kb k] by blast
  qed
  then show ?case by simp
qed auto

text \<open>The modifications at \<open>ks\<close> as the skeletons see them.\<close>

definition skeleton_mods :: "(node_index \<rightharpoonup> 'l) \<Rightarrow> node_index list \<Rightarrow> skeleton_leaf leaf_modifications \<Rightarrow> bool" where
  "skeleton_mods nv ks mods \<longleftrightarrow> hm_ok mods \<and>
     (\<forall>k. map_of mods k = (if k \<in> set ks then Some (if nv k = None then SkeletonZero else SkeletonNonZero) else None))"

fun unmodified_entry :: "original_skeleton_node \<Rightarrow> updated_skeleton_node option" where
  "unmodified_entry (UnmodifiedSubTree h) = Some (UpdUnmodifiedSubTree h)"
| "unmodified_entry _ = None"

lemma unmodified_entries:
  fixes m :: original_skeleton_node_map
  assumes "hm_ok m"
  defines "f \<equiv> \<lambda>(index, node). case node of
      UnmodifiedSubTree h \<Rightarrow> Some (index, UpdUnmodifiedSubTree h) | OrigBinary \<Rightarrow> None | OrigEdge p \<Rightarrow> None"
  shows "hm_ok (List.map_filter f m) \<and> fst ` set (List.map_filter f m) \<subseteq> fst ` set m \<and>
    map_of (List.map_filter f m) k = Option.bind (map_of m k) unmodified_entry"
  using assms(1)
proof (induction m)
  case (Cons a m)
  obtain i n where a: "a = (i, n)" by (cases a)
  with Cons have IH: "hm_ok (List.map_filter f m)" "fst ` set (List.map_filter f m) \<subseteq> fst ` set m"
    "map_of (List.map_filter f m) k = Option.bind (map_of m k) unmodified_entry" "i \<notin> fst ` set m" by auto
  from IH(4) have "map_of m i = None" by (simp add: map_of_eq_None_iff)
  with IH a show ?case
    by (cases n) (auto simp: map_filter_simps f_def)
qed (simp add: map_filter_simps)

lemma leaf_entries:
  fixes mods :: "skeleton_leaf leaf_modifications"
  assumes "hm_ok mods"
  defines "xs \<equiv> map (\<lambda>(index, leaf). (index, UpdLeaf)) (filter (\<lambda>(index, leaf). \<not> skeleton_leaf_is_zero leaf) mods)"
  shows "hm_ok xs \<and> map_of xs k = (if map_of mods k = Some SkeletonNonZero then Some UpdLeaf else None)"
proof -
  have fst: "map fst xs = map fst (filter (\<lambda>(index, leaf). \<not> skeleton_leaf_is_zero leaf) mods)"
    by (simp add: xs_def comp_def case_prod_beta)
  have "map_of xs k = (if map_of mods k = Some SkeletonNonZero then Some UpdLeaf else None)"
    using assms(1) unfolding xs_def
  proof (induction mods)
    case (Cons a mods)
    obtain i l where a: "a = (i, l)" by (cases a)
    with Cons.prems have "map_of mods i = None" by (simp add: map_of_eq_None_iff)
    with Cons a show ?case by (cases l) (auto simp: skeleton_leaf_is_zero_def)
  qed simp
  with fst assms(1) show ?thesis by simp
qed

lemma finalize_bottom_layer_eq:
  assumes "hm_ok (os_nodes os)" "skeleton_mods nv ks mods"
    and "\<And>k x. k \<in> set ks \<Longrightarrow> map_of (os_nodes os) k \<noteq> Some (UnmodifiedSubTree x)"
  shows "hm_ok (finalize_bottom_layer os mods)"
    "map_of (finalize_bottom_layer os mods) j = bottom_layer nv (map_of (os_nodes os)) ks j"
proof -
  show "hm_ok (finalize_bottom_layer os mods)" by (simp add: finalize_bottom_layer_def)
  have mods: "hm_ok mods" using assms(2) by (simp add: skeleton_mods_def)
  have "map_of (finalize_bottom_layer os mods) j =
      (case Option.bind (map_of (os_nodes os) j) unmodified_entry of
         None \<Rightarrow> (if map_of mods j = Some SkeletonNonZero then Some UpdLeaf else None) | Some n \<Rightarrow> Some n)"
    using unmodified_entries[OF assms(1), of j] leaf_entries[OF mods, of j]
    by (simp add: finalize_bottom_layer_def hm_extend_append map_add_def split: option.split)
  also have "\<dots> = bottom_layer nv (map_of (os_nodes os)) ks j"
    using assms(2) assms(3)[of j]
    by (auto simp: bottom_layer_def skeleton_mods_def bind_eq_Some_conv
      split: option.splits original_skeleton_node.splits)
  finally show "map_of (finalize_bottom_layer os mods) j = bottom_layer nv (map_of (os_nodes os)) ks j" .
qed

lemma finalize_middle_layers_updated:
  assumes wf: "wf_tree0 251 t" and ks: "leaves_ok 251 ROOT ks" "ks \<noteq> []" and mods: "skeleton_mods nv ks mods"
    and os: "hm_ok (os_nodes os)" "map_of (os_nodes os) = skel H 251 ROOT t ks" "os_sorted_leaf_indices os = ks"
  shows "\<exists>u os' x t'. finalize_middle_layers (finalize_bottom_layer os mods) os = Some (u, os', x) \<and>
    updated H nv 251 ROOT (map_of u) t' x \<and> contents ROOT t' = new_contents nv ks (contents ROOT t) \<and>
    made_node x \<and> hm_ok u \<and> dom (map_of u) \<subseteq> subtree 251 ROOT \<and> unmodified_from (skel H 251 ROOT t ks) u"
proof -
  let ?u = "finalize_bottom_layer os mods"
  have not_unmod: "map_of (os_nodes os) k \<noteq> Some (UnmodifiedSubTree x)" if "k \<in> set ks" for k x
    using skel_modified_leaf[of 251 t ROOT ks k H x] wf ks that os(2) by (auto simp: wf_tree0_def)
  note ok = finalize_bottom_layer_eq(1)[OF os(1) mods not_unmod]
  have layer: "map_of ?u j = bottom_layer nv (skel H 251 ROOT t ks) ks j" for j
    using finalize_bottom_layer_eq(2)[OF os(1) mods not_unmod] os(2) by simp
  have "skel H 251 ROOT t ks j = None" if "j \<notin> subtree 251 ROOT" for j
    using skel_subtree[of 251 t H ROOT ks j] wf that by (cases "skel H 251 ROOT t ks j") (auto simp: wf_tree0_def)
  then have outside: "map_of ?u j = None" if "j \<notin> subtree 251 ROOT" for j
    using that leaves_in_subtree[OF ks(1)] by (auto simp: layer bottom_layer_def)
  have origin: "unmodified_from (skel H 251 ROOT t ks) ?u"
    by (auto simp: unmodified_from_def layer bottom_layer_def split: if_splits option.splits original_skeleton_node.splits)
  have root: "\<not> index_is_leaf ROOT" using node_is_leaf[OF node_at_ROOT] by simp
  show ?thesis
  proof (cases "t = PEmpty")
    case True
    then have "os_nodes os = []" using os(2) by simp
    moreover obtain u x t' where u: "update_node_in_empty_tree (Suc 251) ?u ROOT ks = Some (u, x)"
      "updated H nv 251 ROOT (map_of u) t' x" "contents ROOT t' = new_contents nv ks Map.empty"
      "\<And>j. j \<notin> subtree 251 ROOT \<Longrightarrow> map_of u j = map_of ?u j"
      using update_node_in_empty_tree_updated[OF node_at_ROOT ks, of "Suc 251" ?u nv H] layer True by auto
    moreover have "made_node x" by (rule update_node_in_empty_tree_made[OF u(1) root])
    moreover have "hm_ok u" by (rule skel_ok.update_node_in_empty_tree_keeps[OF u(1) ok])
    moreover have "unmodified_from (skel H 251 ROOT t ks) u" by (rule skel_from.update_node_in_empty_tree_keeps[OF u(1) origin])
    moreover have "dom (map_of u) \<subseteq> subtree 251 ROOT" using u(4) outside by (metis domIff subsetI)
    ultimately show ?thesis
      using True os(3) by (intro exI[of _ u] exI[of _ os] exI[of _ x] exI[of _ t'])
        (simp add: finalize_middle_layers_def ACTUAL_HEIGHT_def)
  next
    case False
    with wf have wf': "wf_tree 251 t" by (simp add: wf_tree0_def)
    then have "skel H 251 ROOT t ks ROOT \<noteq> None" using ks(2) by (cases t) auto
    then have "os_nodes os \<noteq> []" using os(2) by (metis map_of.simps(1))
    moreover have "nonempty_result H nv 251 ROOT t ks ?u (os_nodes os)
        (update_node_in_nonempty_tree (Suc 251) ?u ROOT (os_nodes os) ks)"
      using update_node_in_nonempty_tree_correct[of H nv "Suc 251"] wf' ks layer os(2)
      by (auto simp: nonempty_correct_def skel_ready_def simp del: update_node_in_nonempty_tree.simps)
    then obtain u os' x t' where u: "update_node_in_nonempty_tree (Suc 251) ?u ROOT (os_nodes os) ks = Some (u, os', x)"
      "updated H nv 251 ROOT (map_of u) t' x" "contents ROOT t' = new_contents nv ks (contents ROOT t)"
      "\<And>j. j \<notin> subtree 251 ROOT \<Longrightarrow> map_of u j = map_of ?u j" by (auto simp: nonempty_result_def)
    moreover have "made_node x" by (rule update_node_in_nonempty_tree_made[OF u(1) root ks(2)])
    moreover have "hm_ok u" by (rule skel_ok.update_node_in_nonempty_tree_keeps[OF u(1) ok])
    moreover have "unmodified_from (skel H 251 ROOT t ks) u" by (rule skel_from.update_node_in_nonempty_tree_keeps[OF u(1) origin])
    moreover have "dom (map_of u) \<subseteq> subtree 251 ROOT" using u(4) outside by (metis domIff subsetI)
    ultimately show ?thesis
      using os(3) by (intro exI[of _ u] exI[of _ "os\<lparr>os_nodes := os'\<rparr>"] exI[of _ x] exI[of _ t'])
        (simp add: finalize_middle_layers_def ACTUAL_HEIGHT_def del: update_node_in_nonempty_tree.simps)
  qed
qed

lemma final_dom: "final H nv u i t R \<Longrightarrow> R \<subseteq> dom u"
  by (induction rule: final.induct) auto

text \<open>\<open>new_skeleton H nv t u\<close>: the updated skeleton \<open>u\<close> consists of the nodes of the tree \<open>t\<close>.\<close>

definition new_skeleton :: "('l node_data \<Rightarrow> hash_output) \<Rightarrow> (node_index \<rightharpoonup> 'l) \<Rightarrow> 'l ptree \<Rightarrow> updated_skeleton_node_map \<Rightarrow> bool" where
  "new_skeleton H nv t u \<longleftrightarrow> hm_ok u \<and>
     (if t = PEmpty then u = []
      else final H nv (map_of u) ROOT t (dom (map_of u)) \<and>
        (\<forall>h. map_of u ROOT \<noteq> Some (UpdUnmodifiedSubTree h)))"

lemma updated_create_final:
  assumes wf: "wf_tree0 251 t" and ks: "leaves_ok 251 ROOT ks" "ks \<noteq> []" and mods: "skeleton_mods nv ks mods"
    and os: "hm_ok (os_nodes os)" "map_of (os_nodes os) = skel H 251 ROOT t ks" "os_sorted_leaf_indices os = ks"
  shows "\<exists>u t'. updated_create os mods = Some (Inr u) \<and> wf_tree0 251 t' \<and>
    contents ROOT t' = new_contents nv ks (contents ROOT t) \<and> new_skeleton H nv t' u \<and>
    unmodified_from (skel H 251 ROOT t ks) u"
proof -
  obtain u os' x t' where u: "finalize_middle_layers (finalize_bottom_layer os mods) os = Some (u, os', x)"
    "updated H nv 251 ROOT (map_of u) t' x" "contents ROOT t' = new_contents nv ks (contents ROOT t)"
    "made_node x" "hm_ok u" "dom (map_of u) \<subseteq> subtree 251 ROOT" "unmodified_from (skel H 251 ROOT t ks) u"
    using finalize_middle_layers_updated[OF assms] by blast
  from u(2) obtain R where R: "wf_tree0 251 t'" "temp_ok H nv (map_of u) ROOT t' x R"
    "dom (map_of u) \<inter> subtree 251 ROOT \<subseteq> R" "R \<subseteq> subtree 251 ROOT" by (rule updatedE)
  have dom: "dom (map_of u) \<subseteq> R" using R(3) u(6) by blast
  have "map_of mods (hd ks) \<noteq> None" using mods hd_in_set[OF ks(2)] by (simp add: skeleton_mods_def)
  then have "mods \<noteq> []" by auto
  have insert: ?thesis if "updated_create os mods = Some (Inr (AList.update ROOT n u))"
    "final H nv ((map_of u)(ROOT \<mapsto> n)) ROOT t' (insert ROOT R)" "\<forall>h. n \<noteq> UpdUnmodifiedSubTree h" "t' \<noteq> PEmpty" for n
  proof -
    have "dom ((map_of u)(ROOT \<mapsto> n)) = insert ROOT R" using final_dom[OF that(2)] dom by auto
    moreover have "unmodified_from (skel H 251 ROOT t ks) (AList.update ROOT n u)"
      by (rule skel_from.insert_node[OF u(7)]) (use that(3) in \<open>auto simp: is_unmodified_node_def split: updated_skeleton_node.splits\<close>)
    ultimately show ?thesis using that u(3,5) R(1)
      by (intro exI[of _ "AList.update ROOT n u"] exI[of _ t']) (auto simp: new_skeleton_def update_conv')
  qed
  from u(4) consider "x = TempEmpty" | "x = TempOriginal OrigBinary" | p where "x = TempOriginal (OrigEdge p)"
    by (auto simp: made_node_def)
  then show ?thesis
  proof cases
    case 1
    with R(2) dom have "t' = PEmpty" "u = []" by auto
    with 1 u R(1) \<open>mods \<noteq> []\<close> show ?thesis
      by (intro exI[of _ u] exI[of _ t']) (auto simp: updated_create_def new_skeleton_def)
  next
    case 2
    note fin = temp_binary_final[OF R(2)[unfolded 2] node_at_ROOT R(1)]
    then have "map_of u ROOT = None" using dom by (auto simp: domIff)
    with 2 u(1) \<open>mods \<noteq> []\<close> fin R(2) show ?thesis by (intro insert[of UpdBinary]) (auto simp: updated_create_def)
  next
    case (3 p)
    note fin = temp_edge_final[OF R(2)[unfolded 3] node_at_ROOT R(1)]
    then have "map_of u ROOT = None" using dom by (auto simp: domIff)
    with 3 u(1) \<open>mods \<noteq> []\<close> fin R(2) show ?thesis by (intro insert[of "UpdEdge p"]) (auto simp: updated_create_def)
  qed
qed

end
