(* ===== verification/Patricia_Fill_Laws.thy ===== *)
theory Patricia_Fill_Laws
  imports Patricia_Structure_Laws
begin

text \<open>
  The third phase: from the skeleton of a tree, \<open>compute_filled_tree_rec\<close> calculates the hash of the tree and writes each
  of its new nodes once.
\<close>

lemma node_child_ops [index_simps]:
  assumes "node_at (Suc h) i"
  shows "index_mul i 2 = Some (2 * i)" "index_add (2 * i) ROOT = Some (2 * i + 1)"
  using index_ops(2)[of "2 * i" 1] index_ops(3)[of i 2] node_at_max[OF node_children(2)[OF assms]] node_at_pos[OF assms]
  by (simp_all add: ROOT_def mult.commute)

section \<open>The new nodes of a tree\<close>

definition unmodified_at :: "(node_index \<rightharpoonup> updated_skeleton_node) \<Rightarrow> node_index \<Rightarrow> bool" where
  "unmodified_at u i \<longleftrightarrow> (case u i of Some n \<Rightarrow> is_unmodified_node n | None \<Rightarrow> False)"

definition filled_of :: "('l node_data \<Rightarrow> hash_output) \<Rightarrow> 'l node_data \<Rightarrow> 'l filled_node" where
  "filled_of H d = \<lparr>fn_hash = H d, fn_data = d\<rparr>"

fun new_nodes :: "('l node_data \<Rightarrow> hash_output) \<Rightarrow> (node_index \<rightharpoonup> updated_skeleton_node) \<Rightarrow> node_index \<Rightarrow> 'l ptree
    \<Rightarrow> node_index \<rightharpoonup> 'l filled_node" where
  "new_nodes H u i PEmpty = Map.empty"
| "new_nodes H u i (PLeaf l) = (if unmodified_at u i then Map.empty else [i \<mapsto> filled_of H (LeafData l)])"
| "new_nodes H u i (PBin l r) =
     (if unmodified_at u i then Map.empty
      else (new_nodes H u (2 * i) l ++ new_nodes H u (2 * i + 1) r)
        (i \<mapsto> filled_of H (BinaryData (tree_hash H l) (tree_hash H r))))"
| "new_nodes H u i (PEdge p b) =
     (if unmodified_at u i then Map.empty
      else (new_nodes H u (bottom_of i p) b)(i \<mapsto> filled_of H (EdgeData (tree_hash H b) p)))"

lemma new_nodes_unmodified [simp]: "unmodified_at u i \<Longrightarrow> new_nodes H u i t = Map.empty"
  by (cases t) simp_all

lemma new_nodes_modified [simp]:
  assumes "\<not> unmodified_at u i"
  shows "new_nodes H u i (PLeaf v) = [i \<mapsto> filled_of H (LeafData v)]"
    "new_nodes H u i (PBin l r) = (new_nodes H u (2 * i) l ++ new_nodes H u (2 * i + 1) r)
      (i \<mapsto> filled_of H (BinaryData (tree_hash H l) (tree_hash H r)))"
    "new_nodes H u i (PEdge p b) = (new_nodes H u (bottom_of i p) b)(i \<mapsto> filled_of H (EdgeData (tree_hash H b) p))"
  using assms unfolding new_nodes.simps by (rule if_not_P)+

declare new_nodes.simps(2-4) [simp del]

lemma unmodified_at_simps [simp]:
  "u i = Some (UpdUnmodifiedSubTree h) \<Longrightarrow> unmodified_at u i"
  "u i = Some UpdLeaf \<Longrightarrow> \<not> unmodified_at u i"
  "u i = Some UpdBinary \<Longrightarrow> \<not> unmodified_at u i"
  "u i = Some (UpdEdge p) \<Longrightarrow> \<not> unmodified_at u i"
  by (simp_all add: unmodified_at_def is_unmodified_node_def)

lemma dom_new_nodes: "final H nv u i t R \<Longrightarrow> dom (new_nodes H u i t) = {j \<in> R. \<not> unmodified_at u j}"
proof (induction rule: final.induct)
  case (final_bin i l R1 r R2)
  then have *: "\<not> unmodified_at u i" "dom (new_nodes H u i (PBin l r)) =
      insert i (dom (new_nodes H u (2 * i) l) \<union> dom (new_nodes H u (2 * i + 1) r))" by auto
  show ?case unfolding *(2) final_bin.IH using *(1) by auto
next
  case (final_edge i p b R)
  then have *: "\<not> unmodified_at u i" "dom (new_nodes H u i (PEdge p b)) = insert i (dom (new_nodes H u (bottom_of i p) b))"
    by auto
  show ?case unfolding *(2) final_edge.IH using *(1) by auto
qed (auto split: if_splits)

lemma new_nodes_subtree:
  "final H nv u i t R \<Longrightarrow> wf_tree h t \<Longrightarrow> dom (new_nodes H u i t) \<subseteq> subtree h i"
  using dom_new_nodes[of H nv u i t R] final_subtree[of H nv u i t R h] by auto

lemma new_nodes_filled: "new_nodes H u i t j = Some n \<Longrightarrow> n = filled_of H (fn_data n)"
proof (induction H u i t rule: new_nodes.induct)
  case (2 H u i l)
  then show ?case by (cases "unmodified_at u i") (auto simp: filled_of_def split: if_splits)
next
  case (3 H u i l r)
  then show ?case by (cases "unmodified_at u i") (auto simp: filled_of_def split: if_splits)
next
  case (4 H u i p b)
  then show ?case by (cases "unmodified_at u i") (auto simp: filled_of_def split: if_splits)
qed simp

section \<open>Filling\<close>

text \<open>\<open>leaf_ready\<close>: the data of a leaf is known or can be created.
  \<open>ready\<close>: the nodes \<open>N\<close> have empty placeholders, and the leaves among them are ready.
  \<open>fills\<close>: exactly the nodes \<open>N\<close> have been written.\<close>

definition leaf_ready :: "('l, 'inp, 'outp) leaf_ops \<Rightarrow> 'l leaf_modifications option \<Rightarrow> (node_index \<Rightarrow> 'outp)
    \<Rightarrow> ('l, 'inp, 'outp) fill_state \<Rightarrow> node_index \<Rightarrow> 'l \<Rightarrow> bool" where
  "leaf_ready L lm out s j l \<longleftrightarrow> \<not> lf_is_empty L l \<and>
     (case lm of
        Some mods \<Rightarrow> map_of mods j = Some l
      | None \<Rightarrow> map_of (fi_leaf_output s) j = Some None \<and>
          (\<exists>inp. map_of (fi_leaf_input s) j = Some (Some inp) \<and> lf_create L inp = Inr (l, out j)))"

definition leaves_of :: "(node_index \<rightharpoonup> 'l filled_node) \<Rightarrow> node_index \<rightharpoonup> 'l" where
  "leaves_of N j = (case N j of Some n \<Rightarrow> (case fn_data n of LeafData l \<Rightarrow> Some l | _ \<Rightarrow> None) | None \<Rightarrow> None)"

definition ready :: "('l, 'inp, 'outp) leaf_ops \<Rightarrow> 'l leaf_modifications option \<Rightarrow> (node_index \<Rightarrow> 'outp)
    \<Rightarrow> (node_index \<rightharpoonup> 'l filled_node) \<Rightarrow> ('l, 'inp, 'outp) fill_state \<Rightarrow> bool" where
  "ready L lm out N s \<longleftrightarrow> (\<forall>j \<in> dom N. map_of (fi_filled s) j = Some None) \<and>
     (\<forall>j l. leaves_of N j = Some l \<longrightarrow> leaf_ready L lm out s j l)"

definition updated_at :: "'a output_map \<Rightarrow> (node_index \<rightharpoonup> 'a option) \<Rightarrow> 'a output_map \<Rightarrow> bool" where
  "updated_at m d m' \<longleftrightarrow> map_of m' = map_of m ++ d \<and> (hm_ok m \<longrightarrow> hm_ok m')"

definition fills :: "'l leaf_modifications option \<Rightarrow> (node_index \<Rightarrow> 'outp) \<Rightarrow> (node_index \<rightharpoonup> 'l filled_node)
    \<Rightarrow> ('l, 'inp, 'outp) fill_state \<Rightarrow> ('l, 'inp, 'outp) fill_state \<Rightarrow> bool" where
  "fills lm out N s s' \<longleftrightarrow>
     updated_at (fi_filled s) (\<lambda>j. map_option Some (N j)) (fi_filled s') \<and>
     updated_at (fi_leaf_input s) (\<lambda>j. if lm = None \<and> leaves_of N j \<noteq> None then Some None else None) (fi_leaf_input s') \<and>
     updated_at (fi_leaf_output s) (\<lambda>j. if lm = None \<and> leaves_of N j \<noteq> None then Some (Some (out j)) else None)
       (fi_leaf_output s')"

lemma updated_at_refl: "updated_at m Map.empty m"
  by (simp add: updated_at_def)

lemma updated_at_trans: "updated_at m d1 m1 \<Longrightarrow> updated_at m1 d2 m2 \<Longrightarrow> updated_at m (d1 ++ d2) m2"
  by (simp add: updated_at_def)

lemma updated_at_update: "updated_at m [i \<mapsto> v] (AList.update i v m)"
  by (simp add: updated_at_def update_conv')

lemma fills_refl: "fills lm out Map.empty s s"
  by (simp add: fills_def leaves_of_def updated_at_refl)

lemma leaves_of_add: "dom N1 \<inter> dom N2 = {} \<Longrightarrow> leaves_of (N1 ++ N2) = leaves_of N1 ++ leaves_of N2"
  by (auto simp: leaves_of_def map_add_def fun_eq_iff split: option.splits node_data.splits)

lemma delta_add:
  "(\<lambda>j. if c \<and> (m1 ++ m2) j \<noteq> None then Some (f j) else None) =
   (\<lambda>j. if c \<and> m1 j \<noteq> None then Some (f j) else None) ++ (\<lambda>j. if c \<and> m2 j \<noteq> None then Some (f j) else None)"
  by (auto simp: map_add_def fun_eq_iff split: option.splits)

lemma map_option_add: "(\<lambda>j. map_option f ((m1 ++ m2) j)) = (\<lambda>j. map_option f (m1 j)) ++ (\<lambda>j. map_option f (m2 j))"
  by (auto simp: map_add_def fun_eq_iff split: option.splits)

lemma fills_trans:
  assumes "fills lm out N1 s s1" "fills lm out N2 s1 s2" "dom N1 \<inter> dom N2 = {}"
  shows "fills lm out (N1 ++ N2) s s2"
  using assms(1,2) unfolding fills_def leaves_of_add[OF assms(3)] delta_add map_option_add
  by (auto intro: updated_at_trans)

lemma ready_fills:
  assumes "ready L lm out N2 s" "fills lm out N1 s s1" "dom N1 \<inter> dom N2 = {}"
  shows "ready L lm out N2 s1"
proof -
  have N1: "N1 j = None" if "j \<in> dom N2" for j using assms(3) that by blast
  have leaf: "j \<in> dom N2" if "leaves_of N2 j = Some l" for j l
    using that by (auto simp: leaves_of_def split: option.splits)
  have no_leaf: "leaves_of N1 j = None" if "j \<in> dom N2" for j using N1[OF that] by (simp add: leaves_of_def)
  have "map_of (fi_filled s1) j = map_of (fi_filled s) j" "map_of (fi_leaf_input s1) j = map_of (fi_leaf_input s) j"
    "map_of (fi_leaf_output s1) j = map_of (fi_leaf_output s) j" if "j \<in> dom N2" for j
    using assms(2) N1[OF that] no_leaf[OF that] by (simp_all add: fills_def updated_at_def map_add_def)
  with assms(1) leaf show ?thesis
    by (cases lm) (auto simp: ready_def leaf_ready_def)
qed

lemma write_filled_fills:
  assumes "map_of (fi_filled s) i = Some None" "\<not> is_leaf_data d"
  shows "\<exists>s'. write_filled s i (filled_of H d) = Some (Inr s') \<and> fills lm out [i \<mapsto> filled_of H d] s s'"
proof -
  have "leaves_of [i \<mapsto> filled_of H d] = Map.empty"
    using assms(2) by (cases d) (auto simp: leaves_of_def filled_of_def fun_eq_iff)
  moreover have "(\<lambda>j. map_option Some ([i \<mapsto> filled_of H d] j)) = [i \<mapsto> Some (filled_of H d)]" by auto
  ultimately show ?thesis
    using assms(1) by (auto simp: write_filled_def write_to_output_map_def fills_def updated_at_update updated_at_refl)
qed

lemma ready_subset: "ready L lm out (N1 ++ N2) s \<Longrightarrow> dom N1 \<inter> dom N2 = {} \<Longrightarrow> ready L lm out N1 s \<and> ready L lm out N2 s"
proof -
  assume a: "ready L lm out (N1 ++ N2) s" "dom N1 \<inter> dom N2 = {}"
  have "leaves_of (N1 ++ N2) j = Some l" if "leaves_of N1 j = Some l \<or> leaves_of N2 j = Some l" for j l
    using that a(2) by (auto simp: leaves_of_def map_add_def split: option.splits)
  with a(1) show ?thesis by (auto simp: ready_def)
qed

lemma delta_single:
  "(\<lambda>j. if c \<and> [i \<mapsto> l] j \<noteq> None then Some (f j) else None) = (if c then [i \<mapsto> f i] else Map.empty)"
  by auto

lemma fill_leaf:
  assumes "ready L lm out [i \<mapsto> filled_of H (LeafData l)] s" "map_of u i = Some UpdLeaf"
  shows "\<exists>s'. compute_filled_tree_rec (Suc fuel) L H u lm i s = Some (Inr (s', H (LeafData l))) \<and>
    fills lm out [i \<mapsto> filled_of H (LeafData l)] s s'"
proof -
  have leaves: "leaves_of [i \<mapsto> filled_of H (LeafData l)] = [i \<mapsto> l]" by (auto simp: leaves_of_def filled_of_def)
  have filled: "(\<lambda>j. map_option Some ([i \<mapsto> filled_of H (LeafData l)] j)) = [i \<mapsto> Some (filled_of H (LeafData l))]" by auto
  from assms(1) have r: "map_of (fi_filled s) i = Some None" "leaf_ready L lm out s i l"
    unfolding ready_def leaves by auto
  show ?thesis
  proof (cases lm)
    case (Some mods)
    with r assms(2) show ?thesis
      unfolding fills_def leaves filled delta_single
      by (simp add: leaf_ready_def updated_get_node_def get_or_compute_leaf_def from_modifications_def write_filled_def
        write_to_output_map_def write_leaf_output_def filled_of_def Let_def updated_at_update updated_at_refl)
  next
    case None
    with r assms(2) show ?thesis
      unfolding fills_def leaves filled delta_single
      by (auto simp: leaf_ready_def updated_get_node_def get_or_compute_leaf_def write_filled_def
        write_to_output_map_def write_leaf_output_def filled_of_def Let_def updated_at_update updated_at_refl)
  qed
qed

text \<open>A list of nodes that are filled, children first.\<close>

lemma fill_parent:
  assumes "fills lm out N s s1" "ready L lm out (N(i \<mapsto> filled_of H d)) s" "i \<notin> dom N" "\<not> is_leaf_data d"
  shows "\<exists>s2. write_filled s1 i \<lparr>fn_hash = H d, fn_data = d\<rparr> = Some (Inr s2) \<and> fills lm out (N(i \<mapsto> filled_of H d)) s s2"
proof -
  have disj: "dom N \<inter> dom [i \<mapsto> filled_of H d] = {}" using assms(3) by auto
  have r: "ready L lm out [i \<mapsto> filled_of H d] s"
    using ready_subset[of L lm out N "[i \<mapsto> filled_of H d]" s] assms(2) disj by (simp del: dom_map_add)
  have "map_of (fi_filled s1) i = Some None" using ready_fills[OF r assms(1) disj] by (simp add: ready_def)
  from write_filled_fills[OF this assms(4)] obtain s2 where
    "write_filled s1 i (filled_of H d) = Some (Inr s2)" "fills lm out [i \<mapsto> filled_of H d] s1 s2" by blast
  with fills_trans[OF assms(1) this(2) disj] show ?thesis by (auto simp: filled_of_def)
qed

lemma compute_filled_tree_rec_final:
  assumes "final H nv (map_of u) i t R" "wf_tree h t" "node_at h i" "h < fuel"
    and "ready L lm out (new_nodes H (map_of u) i t) s"
  shows "\<exists>s'. compute_filled_tree_rec fuel L H u lm i s = Some (Inr (s', tree_hash H t)) \<and>
    fills lm out (new_nodes H (map_of u) i t) s s'"
  using assms
proof (induction arbitrary: h fuel s rule: final.induct)
  case (final_unmodified i t)
  then obtain n where "fuel = Suc n" by (cases fuel) auto
  with final_unmodified show ?case by (auto simp: updated_get_node_def fills_refl)
next
  case (final_leaf i l)
  then obtain n where "fuel = Suc n" by (cases fuel) auto
  moreover have new: "new_nodes H (map_of u) i (PLeaf l) = [i \<mapsto> filled_of H (LeafData l)]"
    using final_leaf.hyps by (intro new_nodes_modified) simp
  moreover have "ready L lm out [i \<mapsto> filled_of H (LeafData l)] s" using final_leaf.prems(4) unfolding new .
  ultimately show ?case using fill_leaf[of L lm out i H l s u n] final_leaf.hyps unfolding new tree_hash.simps by blast
next
  case (final_bin i l R1 r R2)
  then obtain n h' where n: "fuel = Suc n" "h = Suc h'" by (cases fuel; cases h) auto
  let ?l = "new_nodes H (map_of u) (2 * i) l" and ?r = "new_nodes H (map_of u) (2 * i + 1) r"
  let ?d = "BinaryData (tree_hash H l) (tree_hash H r)"
  have wf: "wf_tree h' l" "wf_tree h' r" "h' < n" using final_bin.prems n by auto
  note node = final_bin.prems(2)[unfolded n] and ch = node_children[OF final_bin.prems(2)[unfolded n]]
  have sub: "dom ?l \<subseteq> subtree h' (2 * i)" "dom ?r \<subseteq> subtree h' (2 * i + 1)"
    using new_nodes_subtree[OF final_bin.hyps(2) wf(1)] new_nodes_subtree[OF final_bin.hyps(3) wf(2)] .
  have disj: "dom ?l \<inter> dom ?r = {}" using sub subtree_children_disjoint[OF node] by blast
  have i: "i \<notin> dom (?l ++ ?r)"
    using sub ancestor_notin_subtree[OF node, of 1 "2 * i"] ancestor_notin_subtree[OF node, of 1 "2 * i + 1"]
    by (auto simp: below_def)
  have new: "new_nodes H (map_of u) i (PBin l r) = (?l ++ ?r)(i \<mapsto> filled_of H ?d)"
    using final_bin.hyps(1) by (intro new_nodes_modified) simp
  have rdy: "ready L lm out ((?l ++ ?r)(i \<mapsto> filled_of H ?d)) s" using final_bin.prems(4) unfolding new .
  then have "ready L lm out (?l ++ ?r) s"
    using ready_subset[of L lm out "?l ++ ?r" "[i \<mapsto> filled_of H ?d]" s] i by (simp del: dom_map_add)
  from ready_subset[OF this disj] have rl: "ready L lm out ?l s" "ready L lm out ?r s" by auto
  from final_bin.IH(1)[OF wf(1) ch(1) wf(3) rl(1)] obtain s1 where
    s1: "compute_filled_tree_rec n L H u lm (2 * i) s = Some (Inr (s1, tree_hash H l))" "fills lm out ?l s s1" by blast
  from final_bin.IH(2)[OF wf(2) ch(2) wf(3) ready_fills[OF rl(2) s1(2) disj]] obtain s2 where
    s2: "compute_filled_tree_rec n L H u lm (2 * i + 1) s1 = Some (Inr (s2, tree_hash H r))" "fills lm out ?r s1 s2" by blast
  from fill_parent[OF fills_trans[OF s1(2) s2(2) disj] rdy i] obtain s3 where
    "write_filled s2 i \<lparr>fn_hash = H ?d, fn_data = ?d\<rparr> = Some (Inr s3)" "fills lm out ((?l ++ ?r)(i \<mapsto> filled_of H ?d)) s s3" by auto
  with s1 s2 n final_bin.hyps(1) show ?case
    using node unfolding new by (auto simp: updated_get_node_def spawn_def index_simps Let_def simp del: fun_upd_apply)
next
  case (final_edge i p b R)
  then obtain n where n: "fuel = Suc n" by (cases fuel) auto
  let ?b = "new_nodes H (map_of u) (bottom_of i p) b" and ?d = "EdgeData (tree_hash H b) p"
  have wf: "path_ok p" "0 < pb_length p" "pb_length p \<le> h" "wf_tree (h - pb_length p) b" "h - pb_length p < n"
    using final_edge.prems n by auto
  note bot = bottom_below[OF wf(1), of i]
  have i: "i \<notin> dom ?b"
    using new_nodes_subtree[OF final_edge.hyps(2) wf(4)] ancestor_notin_subtree[OF final_edge.prems(2) bot wf(2,3)] by blast
  have new: "new_nodes H (map_of u) i (PEdge p b) = ?b(i \<mapsto> filled_of H ?d)"
    using final_edge.hyps(1) by (intro new_nodes_modified) simp
  have rdy: "ready L lm out (?b(i \<mapsto> filled_of H ?d)) s" using final_edge.prems(4) unfolding new .
  then have "ready L lm out ?b s"
    using ready_subset[of L lm out ?b "[i \<mapsto> filled_of H ?d]" s] i by (simp del: dom_map_add)
  from final_edge.IH[OF wf(4) node_at_below[OF final_edge.prems(2) bot wf(3)] wf(5) this] obtain s1 where
    s1: "compute_filled_tree_rec n L H u lm (bottom_of i p) s = Some (Inr (s1, tree_hash H b))" "fills lm out ?b s s1" by blast
  from fill_parent[OF s1(2) rdy i] obtain s2 where
    "write_filled s1 i \<lparr>fn_hash = H ?d, fn_data = ?d\<rparr> = Some (Inr s2)" "fills lm out (?b(i \<mapsto> filled_of H ?d)) s s2" by auto
  with s1 n final_edge.hyps(1) show ?case
    using final_edge.prems(2) wf unfolding new by (auto simp: updated_get_node_def index_simps Let_def simp del: fun_upd_apply)
qed

section \<open>The filled tree\<close>

lemma remove_arc_mutex_eq:
  "remove_arc_mutex_and_option_from_output_map m b =
     (if b \<and> (\<exists>k. (k, None) \<in> set m) then None else Some (List.map_filter (\<lambda>(k, v). map_option (Pair k) v) m))"
  by (induction m b rule: remove_arc_mutex_and_option_from_output_map.induct)
    (auto simp: map_filter_simps split: option.splits)

lemma map_of_present:
  assumes "hm_ok m"
  shows "hm_ok (List.map_filter (\<lambda>(k, v). map_option (Pair k) v) m) \<and>
    fst ` set (List.map_filter (\<lambda>(k, v). map_option (Pair k) v) m) \<subseteq> fst ` set m \<and>
    map_of (List.map_filter (\<lambda>(k, v). map_option (Pair k) v) m) j = Option.bind (map_of m j) id"
  using assms
proof (induction m)
  case (Cons a m)
  obtain i n where a: "a = (i, n)" by (cases a)
  with Cons.prems have "map_of m i = None" by (simp add: map_of_eq_None_iff)
  with Cons a show ?case by (cases n) (auto simp: map_filter_simps)
qed (simp add: map_filter_simps)

lemma placeholders:
  fixes u :: updated_skeleton_node_map
  assumes "hm_ok u"
  defines "m \<equiv> initialize_filled_tree_output_map_with_placeholders u :: 'l filled_node output_map"
  shows "hm_ok m" "map_of m j = (if map_of u j \<noteq> None \<and> \<not> unmodified_at (map_of u) j then Some None else None)"
proof -
  let ?xs = "map (\<lambda>(index, node). (index, None :: 'l filled_node option)) (filter (\<lambda>(index, node). \<not> is_unmodified_node node) u)"
  show "hm_ok m" by (simp add: m_def initialize_filled_tree_output_map_with_placeholders_def)
  have "map fst ?xs = map fst (filter (\<lambda>(index, node). \<not> is_unmodified_node node) u)"
    by (simp add: comp_def case_prod_beta)
  then have "hm_ok ?xs" using assms(1) by (metis hm_ok_filter)
  moreover have "map_of ?xs j = (if map_of u j \<noteq> None \<and> \<not> unmodified_at (map_of u) j then Some None else None)"
    using assms(1)
    by (auto simp: map_of_map map_of_filter_pair unmodified_at_def split: option.split dest: weak_map_of_SomeI)
  ultimately show "map_of m j = (if map_of u j \<noteq> None \<and> \<not> unmodified_at (map_of u) j then Some None else None)"
    by (simp add: m_def initialize_filled_tree_output_map_with_placeholders_def)
qed

lemma new_leaf_modified:
  "final H nv u i t R \<Longrightarrow> leaves_of (new_nodes H u i t) j = Some l \<Longrightarrow> nv j = Some l"
proof (induction rule: final.induct)
  case (final_bin i l R1 r R2)
  then have "leaves_of (new_nodes H u (2 * i) l) j = Some l' \<or> leaves_of (new_nodes H u (2 * i + 1) r) j = Some l'"
    if "leaves_of (new_nodes H u i (PBin l r)) j = Some l'" for l'
    using that by (auto simp: leaves_of_def filled_of_def map_add_def split: if_splits option.splits)
  with final_bin show ?case by blast
qed (auto simp: leaves_of_def filled_of_def split: if_splits)

lemma fill_root:
  fixes s :: "('l, 'inp, 'outp) fill_state"
  assumes sk: "new_skeleton H nv t u" and t: "t \<noteq> PEmpty" "wf_tree 251 t"
    and s: "fi_filled s = initialize_filled_tree_output_map_with_placeholders u"
    and leaves: "\<And>j l. nv j = Some l \<Longrightarrow> leaf_ready L lm out s j l"
  defines "N \<equiv> new_nodes H (map_of u) ROOT t"
  shows "\<exists>s' tm. compute_filled_tree_rec (Suc ACTUAL_HEIGHT) L H u lm ROOT s = Some (Inr (s', tree_hash H t)) \<and>
    fills lm out N s s' \<and> remove_arc_mutex_and_option_from_output_map (fi_filled s') True = Some tm \<and>
    map_of tm = N \<and> hm_ok tm"
proof -
  have fin: "final H nv (map_of u) ROOT t (dom (map_of u))" and u: "hm_ok u"
    using sk t(1) by (simp_all add: new_skeleton_def)
  have dom: "dom N = {j \<in> dom (map_of u). \<not> unmodified_at (map_of u) j}" unfolding N_def by (rule dom_new_nodes[OF fin])
  have place: "map_of (fi_filled s) j = (if j \<in> dom N then Some None else None)" for j
    unfolding s placeholders(2)[OF u] dom by auto
  have "ready L lm out N s" using leaves new_leaf_modified[OF fin] by (auto simp: ready_def place N_def)
  then obtain s' where s': "compute_filled_tree_rec (Suc ACTUAL_HEIGHT) L H u lm ROOT s = Some (Inr (s', tree_hash H t))"
    "fills lm out N s s'"
    using compute_filled_tree_rec_final[OF fin t(2) node_at_ROOT, of "Suc ACTUAL_HEIGHT" L lm out s]
    by (auto simp: N_def ACTUAL_HEIGHT_def simp del: compute_filled_tree_rec.simps)
  let ?m = "fi_filled s'"
  have m: "map_of ?m j = map_option Some (N j)" "hm_ok ?m" for j
    using s'(2) place[of j] placeholders(1)[OF u] s
    by (auto simp: fills_def updated_at_def map_add_def split: option.splits)
  have "(k, None) \<notin> set ?m" for k
    using m(1)[of k] map_of_is_SomeI[OF m(2), of k None] by auto
  then have "remove_arc_mutex_and_option_from_output_map ?m True = Some (List.map_filter (\<lambda>(k, v). map_option (Pair k) v) ?m)"
    by (simp add: remove_arc_mutex_eq)
  moreover have "map_of (List.map_filter (\<lambda>(k, v). map_option (Pair k) v) ?m) = N"
    using map_of_present[OF m(2)] m(1) by (auto simp: fun_eq_iff split: option.splits) (metis bind.bind_lunit not_None_eq option.simps(8,9) bind.bind_lzero id_apply)
  ultimately show ?thesis using s' map_of_present[OF m(2)] by blast
qed

lemma updated_is_empty_skeleton:
  assumes "new_skeleton H nv t u"
  shows "updated_is_empty u = Some (t = PEmpty)"
proof (cases "t = PEmpty")
  case False
  then have "final H nv (map_of u) ROOT t (dom (map_of u))" "\<forall>h. map_of u ROOT \<noteq> Some (UpdUnmodifiedSubTree h)"
    using assms by (simp_all add: new_skeleton_def)
  then show ?thesis
    using False by (cases rule: final.cases) (auto simp: updated_is_empty_def)
qed (use assms in \<open>simp add: new_skeleton_def updated_is_empty_def\<close>)

lemma create_with_existing_leaves_correct:
  fixes L :: "('l, 'inp, 'outp) leaf_ops"
  assumes sk: "new_skeleton H nv t u" and t: "wf_tree0 251 t" and "mods \<noteq> []"
    and leaves: "\<And>j l. nv j = Some l \<Longrightarrow> map_of mods j = Some l \<and> \<not> lf_is_empty L l"
  shows "\<exists>f. create_with_existing_leaves L H u mods = Some (Inr f) \<and> ft_root_hash f = tree_hash H t \<and>
    map_of (ft_tree_map f) = new_nodes H (map_of u) ROOT t \<and> hm_ok (ft_tree_map f)"
proof (cases "t = PEmpty")
  case True
  then show ?thesis
    using updated_is_empty_skeleton[OF sk] assms(3) by (simp add: create_with_existing_leaves_def filled_create_empty_def)
next
  case False
  define s :: "('l, 'inp, 'outp) fill_state" where "s = \<lparr>fi_leaf_input = [],
    fi_filled = initialize_filled_tree_output_map_with_placeholders u, fi_leaf_output = []\<rparr>"
  have "wf_tree 251 t" using t False by (simp add: wf_tree0_def)
  moreover have "leaf_ready L (Some mods) undefined s j l" if "nv j = Some l" for j l
    using leaves[OF that] by (simp add: leaf_ready_def)
  ultimately show ?thesis
    using fill_root[OF sk False, of s L "Some mods" undefined] updated_is_empty_skeleton[OF sk] False assms(3)
    by (auto simp: create_with_existing_leaves_def s_def simp del: compute_filled_tree_rec.simps)
qed

lemma leaf_placeholders:
  fixes inputs :: "(node_index \<times> 'inp) list"
  assumes "hm_ok inputs"
  defines "m \<equiv> initialize_leaf_output_map_with_placeholders inputs :: 'outp output_map"
  shows "hm_ok m" "map_of m j = (if map_of inputs j = None then None else Some None)"
proof -
  let ?xs = "map (\<lambda>(index, inp). (index, None :: 'outp option)) inputs"
  show "hm_ok m" by (simp add: m_def initialize_leaf_output_map_with_placeholders_def)
  have "map fst ?xs = map fst inputs" by (simp add: comp_def case_prod_beta)
  then have "hm_ok ?xs" using assms(1) by metis
  then show "map_of m j = (if map_of inputs j = None then None else Some None)"
    by (auto simp: m_def initialize_leaf_output_map_with_placeholders_def map_of_map)
qed

lemma filled_create_correct:
  fixes L :: "('l, 'inp, 'outp) leaf_ops"
  assumes sk: "new_skeleton H nv t u" and t: "wf_tree0 251 t" and inputs: "inputs \<noteq> []" "hm_ok inputs"
    and leaves: "\<And>j l. nv j = Some l \<Longrightarrow> \<not> lf_is_empty L l \<and>
      (\<exists>inp. map_of inputs j = Some inp \<and> lf_create L inp = Inr (l, out j))"
  defines "N \<equiv> new_nodes H (map_of u) ROOT t"
  shows "\<exists>f outs. filled_create L H u inputs = Some (Inr (f, outs)) \<and> ft_root_hash f = tree_hash H t \<and>
    map_of (ft_tree_map f) = N \<and> hm_ok (ft_tree_map f) \<and> hm_ok outs \<and>
    (\<forall>j. map_of outs j = (if leaves_of N j = None then None else Some (out j)))"
proof (cases "t = PEmpty")
  case True
  then show ?thesis
    using updated_is_empty_skeleton[OF sk] inputs by (simp add: filled_create_def filled_create_empty_def N_def leaves_of_def)
next
  case False
  define s :: "('l, 'inp, 'outp) fill_state" where
    "s = \<lparr>fi_leaf_input = wrap_leaf_inputs_for_interior_mutability inputs,
      fi_filled = initialize_filled_tree_output_map_with_placeholders u,
      fi_leaf_output = initialize_leaf_output_map_with_placeholders inputs\<rparr>"
  have wf: "wf_tree 251 t" using t False by (simp add: wf_tree0_def)
  have "leaf_ready L None out s j l" if "nv j = Some l" for j l
    using leaves[OF that]
    by (auto simp: leaf_ready_def s_def leaf_placeholders[OF inputs(2)] wrap_leaf_inputs_for_interior_mutability_def map_of_map)
  from fill_root[OF sk False wf _ this] obtain s' tm where
    s': "compute_filled_tree_rec (Suc ACTUAL_HEIGHT) L H u None ROOT s = Some (Inr (s', tree_hash H t))"
    "fills None out N s s'" "remove_arc_mutex_and_option_from_output_map (fi_filled s') True = Some tm" "map_of tm = N" "hm_ok tm"
    by (auto simp: s_def N_def simp del: compute_filled_tree_rec.simps)
  let ?o = "fi_leaf_output s'"
  let ?outs = "List.map_filter (\<lambda>(k, v). map_option (Pair k) v) ?o"
  have o: "hm_ok ?o" "map_of ?o j = (if leaves_of N j \<noteq> None then Some (Some (out j)) else map_of (fi_leaf_output s) j)" for j
    using s'(2) leaf_placeholders(1)[OF inputs(2)] by (auto simp: fills_def updated_at_def map_add_def s_def)
  have "map_of ?outs j = (if leaves_of N j = None then None else Some (out j))" for j
    using map_of_present[OF o(1), of j] o(2)[of j] by (simp add: s_def leaf_placeholders(2)[OF inputs(2)])
  then show ?thesis
    using s' updated_is_empty_skeleton[OF sk] False inputs map_of_present[OF o(1)]
    by (auto simp: filled_create_def s_def[symmetric] remove_arc_mutex_eq simp del: compute_filled_tree_rec.simps)
qed

end
