(* ===== verification/Patricia_Fetch_Laws.thy ===== *)
theory Patricia_Fetch_Laws
  imports Patricia_Fill_Laws
begin

text \<open>
  The first phase: from a storage that holds a well-formed tree, \<open>fetch_nodes\<close> reads the original skeleton of the tree
  (\<open>skel\<close>) and, when they are asked for, the previous leaves.
\<close>

section \<open>The bottom of an edge\<close>

lemma slice_between:
  assumes "sorted_wrt (<) (xs :: int list)" "l \<le> r + 1"
  defines "a \<equiv> length (takeWhile (\<lambda>y. y < l) xs)" and "b \<equiv> length (takeWhile (\<lambda>y. y \<le> r) xs)"
  shows "a \<le> b" "b \<le> length xs" "drop a (take b xs) = filter (\<lambda>y. l \<le> y \<and> y \<le> r) xs"
    "take a xs @ drop b xs = filter (\<lambda>y. \<not> (l \<le> y \<and> y \<le> r)) xs"
proof -
  let ?ys = "filter (\<lambda>y. y \<le> r) xs"
  note tw = sorted_takeWhile_filter[of _ "\<lambda>y. y < l"] and tr = sorted_takeWhile_filter[OF assms(1), of "\<lambda>y. y \<le> r"]
  show "b \<le> length xs" by (simp add: b_def length_takeWhile_le)
  have less: "filter (\<lambda>y. y < l) xs = filter (\<lambda>y. y < l) ?ys" using assms(2) by (auto intro!: filter_cong)
  have a: "a = length (takeWhile (\<lambda>y. y < l) ?ys)"
    using tw[OF assms(1)] tw[OF sorted_wrt_filter[OF assms(1)], of "\<lambda>y. y \<le> r"] less by (simp add: a_def del: filter_filter)
  have b: "take b xs = ?ys" "drop b xs = filter (\<lambda>y. \<not> y \<le> r) xs"
    unfolding b_def take_drop_takeWhile using tr by auto
  have "a \<le> length ?ys" unfolding a by (rule length_takeWhile_le)
  then show "a \<le> b" using tr by (simp add: b_def)
  show "drop a (take b xs) = filter (\<lambda>y. l \<le> y \<and> y \<le> r) xs"
    unfolding b a take_drop_takeWhile using tw[OF sorted_wrt_filter[OF assms(1)], of "\<lambda>y. y \<le> r"]
    by (auto simp: not_less intro!: filter_cong)
  have "filter (\<lambda>y. \<not> (l \<le> y \<and> y \<le> r)) xs =
      filter (\<lambda>y. \<not> (l \<le> y \<and> y \<le> r)) (take b xs) @ filter (\<lambda>y. \<not> (l \<le> y \<and> y \<le> r)) (drop b xs)"
    by (metis append_take_drop_id filter_append)
  also have "\<dots> = filter (\<lambda>y. y < l) xs @ filter (\<lambda>y. \<not> y \<le> r) xs"
    unfolding b less by (auto intro!: filter_cong arg_cong2[of _ _ _ _ append])
  also have "filter (\<lambda>y. y < l) xs = take a xs" unfolding a_def take_drop_takeWhile using tw[OF assms(1)] by auto
  finally show "take a xs @ drop b xs = filter (\<lambda>y. \<not> (l \<le> y \<and> y \<le> r)) xs" by (simp add: b)
qed

lemma get_bottom_subtree_Some:
  assumes "node_at h (st_root_index s)" "path_ok p" "pb_length p \<le> h" "leaves_ok h (st_root_index s) (st_sorted_leaf_indices s)"
  defines "b \<equiv> bottom_of (st_root_index s) p"
  shows "get_bottom_subtree s p bh = Some (\<lparr>st_sorted_leaf_indices = leaves_below (h - pb_length p) b (st_sorted_leaf_indices s),
    st_root_index = b, st_root_hash = bh\<rparr>, filter (\<lambda>k. \<not> below (h - pb_length p) b k) (st_sorted_leaf_indices s))"
proof -
  let ?m = "h - pb_length p" and ?ks = "st_sorted_leaf_indices s"
  let ?l = "b * 2 ^ ?m" and ?r = "b * 2 ^ ?m - 1 + 2 ^ ?m"
  have h: "h \<le> 251" using assms(1) by (simp add: node_at_def)
  have b: "node_at ?m b" unfolding b_def by (rule node_at_below[OF assms(1) bottom_below[OF assms(2)] assms(3)])
  have sorted: "sorted_wrt (<) ?ks" using assms(4) by (simp add: leaves_ok_def)
  have range: "?l \<le> y \<and> y \<le> ?r \<longleftrightarrow> below ?m b y" for y unfolding below_iff by (auto simp: algebra_simps)
  have "node_at 0 ?r" by (rule node_at_below[OF b, of ?m, simplified]) (simp add: range[symmetric])
  then have "0 < ?r" "?r < 2 ^ 252" by (rule node_at_pos node_at_max)+
  then have r: "index_add (?l - 1) (2 ^ ?m) = Some ?r" by (intro index_ops) simp_all
  have "index_shl ROOT ?m = Some (2 ^ ?m)"
    using index_ops(1)[of 1 ?m] power_strict_increasing[of ?m 252 "2 :: int"] h by (simp add: ROOT_def)
  moreover have "st_get_height s = Some h"
    using assms(1) h by (simp add: st_get_height_def index_simps sub_tree_height_new_def ACTUAL_HEIGHT_def)
  moreover have "node_at 0 ?l" by (rule node_at_below[OF b, of ?m, simplified]) (simp add: below_def)
  then have "index_sub ?l ROOT = ?l - 1"
    using node_at_pos[of 0 ?l] node_at_max[of 0 ?l] by (auto simp: index_sub_def ROOT_def intro!: u256_id)
  moreover note slice_between[OF sorted, of ?l ?r]
  ultimately show ?thesis
    using assms(1-3) h b r sorted
    by (simp add: get_bottom_subtree_def index_simps sub_tree_height_new_def ACTUAL_HEIGHT_def Let_def bisect_left_eq
      bisect_right_eq subslice_def b_def[symmetric] range leaves_below_def)
qed

section \<open>Stored trees\<close>

text \<open>\<open>leaf_ok\<close>: a leaf that its own format reads back. \<open>hash_ok\<close>: hashes are field elements.
  \<open>stored\<close>: the nodes of the tree are in the storage, under their hashes.\<close>

fun leaf_ok :: "('l, 'inp, 'outp) leaf_ops \<Rightarrow> 'l node_data \<Rightarrow> bool" where
  "leaf_ok L (LeafData l) \<longleftrightarrow> lf_get_prefix L l = lf_prefix L \<and> lf_deserialize L (lf_serialize L l) = Inr l"
| "leaf_ok L _ \<longleftrightarrow> True"

definition hash_ok :: "('l node_data \<Rightarrow> hash_output) \<Rightarrow> bool" where
  "hash_ok H \<longleftrightarrow> (\<forall>d. felt_ok (H d))"

definition stored :: "('l, 'inp, 'outp) leaf_ops \<Rightarrow> ('l node_data \<Rightarrow> hash_output) \<Rightarrow> map_storage \<Rightarrow> 'l ptree \<Rightarrow> bool" where
  "stored L H st t \<longleftrightarrow>
     list_all (\<lambda>d. leaf_ok L d \<and> st (db_key L (filled_of H d)) = Some (node_serialize L d)) (tree_nodes H t)"

lemma stored_simps [simp]:
  "stored L H st (PBin l r) \<longleftrightarrow> stored L H st l \<and> stored L H st r \<and>
     st (db_key L (filled_of H (BinaryData (tree_hash H l) (tree_hash H r)))) =
       Some (node_serialize L (BinaryData (tree_hash H l) (tree_hash H r)))"
  "stored L H st (PEdge p b) \<longleftrightarrow> stored L H st b \<and>
     st (db_key L (filled_of H (EdgeData (tree_hash H b) p))) = Some (node_serialize L (EdgeData (tree_hash H b) p))"
  "stored L H st (PLeaf v) \<longleftrightarrow> leaf_ok L (LeafData v) \<and> st (db_key L (filled_of H (LeafData v))) = Some (lf_serialize L v)"
  by (auto simp: stored_def)

fun the_data :: "('l node_data \<Rightarrow> hash_output) \<Rightarrow> 'l ptree \<Rightarrow> 'l node_data" where
  "the_data H (PLeaf l) = LeafData l"
| "the_data H (PBin l r) = BinaryData (tree_hash H l) (tree_hash H r)"
| "the_data H (PEdge p b) = EdgeData (tree_hash H b) p"
| "the_data H PEmpty = undefined"

lemma tree_hash_the_data: "wf_tree h t \<Longrightarrow> tree_hash H t = H (the_data H t)"
  by (cases t) simp_all

lemma felt_tree_hash: "hash_ok H \<Longrightarrow> wf_tree h t \<Longrightarrow> felt_ok (tree_hash H t)"
  by (simp add: tree_hash_the_data hash_ok_def)

text \<open>A subtree that is to be fetched, with its height and its tree.\<close>

type_synonym 'l fetch_task = "sub_tree \<times> nat \<times> 'l ptree"

definition task_ok :: "('l, 'inp, 'outp) leaf_ops \<Rightarrow> ('l node_data \<Rightarrow> hash_output) \<Rightarrow> map_storage \<Rightarrow> 'l fetch_task \<Rightarrow> bool" where
  "task_ok L H st = (\<lambda>(s, h, t). wf_tree h t \<and> node_at h (st_root_index s) \<and>
     leaves_ok h (st_root_index s) (st_sorted_leaf_indices s) \<and> st_root_hash s = tree_hash H t \<and> stored L H st t)"

lemma read_root:
  assumes "task_ok L H st (s, h, t)" "hash_ok H"
  shows "st (subtree_db_key L s) = Some (node_serialize L (the_data H t))"
    "node_deserialize L (st_root_hash s) (node_serialize L (the_data H t)) (st_is_leaf s) = Some (Inr (filled_of H (the_data H t)))"
proof -
  have t: "wf_tree h t" "node_at h (st_root_index s)" "st_root_hash s = H (the_data H t)" "stored L H st t"
    using assms(1) tree_hash_the_data by (auto simp: task_ok_def)
  have h: "h \<le> 251" using t(2) by (simp add: node_at_def)
  have leaf: "st_is_leaf s \<longleftrightarrow> is_leaf_data (the_data H t)"
    using t(1,2) by (cases t) (auto simp: st_is_leaf_def node_is_leaf)
  have prefix: "(if st_is_leaf s then lf_prefix L else prefix_to_bytes InnerNode) = node_get_prefix L (the_data H t)"
    using t(1,4) leaf by (cases t) auto
  have "st (db_key L (filled_of H (the_data H t))) = Some (node_serialize L (the_data H t))"
    using t(1,4) by (cases t) (auto simp: stored_def)
  then show "st (subtree_db_key L s) = Some (node_serialize L (the_data H t))"
    unfolding subtree_db_key_def prefix t(3) by (simp add: db_key_def filled_of_def)
  have "node_ok L (the_data H t)"
    using t(1,4) h assms(2) by (cases t) (auto simp: felt_tree_hash ACTUAL_HEIGHT_def)
  then show "node_deserialize L (st_root_hash s) (node_serialize L (the_data H t)) (st_is_leaf s) =
      Some (Inr (filled_of H (the_data H t)))"
    unfolding leaf t(3) filled_of_def by (rule node_deserialize_serialize)
qed

lemma calculate_subtrees_roots_Some:
  assumes "list_all (task_ok L H st) xs" "hash_ok H"
  shows "calculate_subtrees_roots L st (map fst xs) = Some (Inr (map (\<lambda>(s, h, t). filled_of H (the_data H t)) xs))"
proof -
  have "deserialize_roots L (zip (map fst xs) (map (storage_get st) (map (subtree_db_key L) (map fst xs)))) =
      Some (Inr (map (\<lambda>(s, h, t). filled_of H (the_data H t)) xs))"
    using assms(1)
  proof (induction xs)
    case (Cons x xs)
    obtain s h t where x: "x = (s, h, t)" by (cases x)
    with Cons read_root[of L H st s h t] assms(2) show ?case by (simp add: storage_get_def)
  qed simp
  then show ?thesis by (simp add: calculate_subtrees_roots_def storage_mget_def)
qed

section \<open>The nodes and leaves of a task\<close>

definition task_skel :: "('l node_data \<Rightarrow> hash_output) \<Rightarrow> 'l fetch_task \<Rightarrow> node_index \<rightharpoonup> original_skeleton_node" where
  "task_skel H = (\<lambda>(s, h, t). skel H h (st_root_index s) t (st_sorted_leaf_indices s))"

definition previous_leaf :: "('l, 'inp, 'outp) leaf_ops \<Rightarrow> (node_index \<rightharpoonup> 'l) \<Rightarrow> node_index \<Rightarrow> 'l" where
  "previous_leaf L m k = (case m k of Some l \<Rightarrow> l | None \<Rightarrow> lf_default L)"

definition previous_leaves_at :: "('l, 'inp, 'outp) leaf_ops \<Rightarrow> (node_index \<rightharpoonup> 'l) \<Rightarrow> node_index list \<Rightarrow> node_index \<rightharpoonup> 'l" where
  "previous_leaves_at L m ks k = (if k \<in> set ks then Some (previous_leaf L m k) else None)"

definition task_leaves :: "'l fetch_task \<Rightarrow> node_index list" where
  "task_leaves = (\<lambda>(s, h, t). st_sorted_leaf_indices s)"

definition task_prev :: "('l, 'inp, 'outp) leaf_ops \<Rightarrow> 'l fetch_task \<Rightarrow> node_index \<rightharpoonup> 'l" where
  "task_prev L = (\<lambda>(s, h, t). previous_leaves_at L (contents (st_root_index s) t) (st_sorted_leaf_indices s))"

text \<open>The tasks of the children of a binary node and of the bottom of an edge.\<close>

definition child_task :: "('l node_data \<Rightarrow> hash_output) \<Rightarrow> node_index list \<Rightarrow> nat \<Rightarrow> node_index \<Rightarrow> 'l ptree \<Rightarrow> 'l fetch_task" where
  "child_task H ks h i t =
     (\<lparr>st_sorted_leaf_indices = leaves_below h i ks, st_root_index = i, st_root_hash = tree_hash H t\<rparr>, h, t)"

lemma map_le_upd_new: "i \<notin> dom m \<Longrightarrow> m \<subseteq>\<^sub>m m(i \<mapsto> x)"
  by (auto simp: map_le_def)

lemma children_maps:
  assumes "dom l \<subseteq> subtree h (2 * i)" "dom r \<subseteq> subtree h (2 * i + 1)" "node_at (Suc h) i"
  shows "l \<subseteq>\<^sub>m (l ++ r)(i \<mapsto> x)" "r \<subseteq>\<^sub>m (l ++ r)(i \<mapsto> x)"
proof -
  have "i \<notin> subtree h (2 * i)" "i \<notin> subtree h (2 * i + 1)"
    using ancestor_notin_subtree[OF assms(3), of 1 "2 * i"] ancestor_notin_subtree[OF assms(3), of 1 "2 * i + 1"]
    by (auto simp: below_def)
  with assms(1,2) have i: "i \<notin> dom l" "i \<notin> dom r" by blast+
  have "dom l \<inter> dom r = {}" using assms(1,2) subtree_children_disjoint[OF assms(3)] by blast
  then have "l ++ r = r ++ l" by (rule map_add_comm)
  then have le: "l \<subseteq>\<^sub>m l ++ r" "r \<subseteq>\<^sub>m l ++ r" using map_le_map_add[of l r] map_le_map_add[of r l] by metis+
  have "l ++ r \<subseteq>\<^sub>m (l ++ r)(i \<mapsto> x)" using i by (intro map_le_upd_new) auto
  from map_le_trans[OF le(1) this] map_le_trans[OF le(2) this]
  show "l \<subseteq>\<^sub>m (l ++ r)(i \<mapsto> x)" "r \<subseteq>\<^sub>m (l ++ r)(i \<mapsto> x)" .
qed

lemma skel_disjoint_left:
  assumes "wf_tree h l" "wf_tree h r" "node_at (Suc h) i"
  shows "skel H h (2 * i) l ks \<subseteq>\<^sub>m (skel H h (2 * i) l ks ++ skel H h (2 * i + 1) r ks')(i \<mapsto> x)"
    "skel H h (2 * i + 1) r ks' \<subseteq>\<^sub>m (skel H h (2 * i) l ks ++ skel H h (2 * i + 1) r ks')(i \<mapsto> x)"
  by (rule children_maps[OF _ _ assms(3)]; use skel_subtree[OF assms(1)] skel_subtree[OF assms(2)] in blast)+

lemma skel_edge_bottom:
  assumes "wf_tree (h - pb_length p) b" "node_at h i" "path_ok p" "0 < pb_length p" "pb_length p \<le> h"
  shows "skel H (h - pb_length p) (bottom_of i p) b ks \<subseteq>\<^sub>m (skel H (h - pb_length p) (bottom_of i p) b ks)(i \<mapsto> x)"
proof -
  have "dom (skel H (h - pb_length p) (bottom_of i p) b ks) \<subseteq> subtree (h - pb_length p) (bottom_of i p)"
    using skel_subtree[OF assms(1)] by blast
  then have "i \<notin> dom (skel H (h - pb_length p) (bottom_of i p) b ks)"
    using ancestor_notin_subtree[OF assms(2) bottom_below[OF assms(3)] assms(4,5)] by blast
  then show ?thesis by (rule map_le_upd_new)
qed

lemma child_task_ok:
  assumes "node_at h i" "wf_tree h t" "stored L H st t" "leaves_ok n j ks"
  shows "task_ok L H st (child_task H ks h i t)"
  using assms leaves_ok_below[OF assms(4)] by (simp add: task_ok_def child_task_def)

lemma previous_leaves_le:
  assumes "\<And>k. k \<in> set ks' \<Longrightarrow> k \<in> set ks \<and> m' k = m k"
  shows "previous_leaves_at L m' ks' \<subseteq>\<^sub>m previous_leaves_at L m ks"
  using assms by (auto simp: map_le_def previous_leaves_at_def previous_leaf_def split: if_splits)

section \<open>Progress\<close>

text \<open>\<open>G\<close> is the skeleton to be read and \<open>Q\<close> are the previous leaves. \<open>fetch_ok\<close>: what has been read is part of them.
  \<open>pending\<close>: a task that may be in the list of subtrees. \<open>node_cover\<close> and \<open>leaf_cover\<close>: what has been read or will be
  read by the tasks. \<open>advances_to\<close>: a step that replaces the tasks \<open>xs\<close> by new ones.\<close>

definition fetch_ok :: "bool \<Rightarrow> (node_index \<rightharpoonup> original_skeleton_node) \<Rightarrow> (node_index \<rightharpoonup> 'l) \<Rightarrow> 'l fetch_state \<Rightarrow> bool" where
  "fetch_ok sf G Q f \<longleftrightarrow> hm_ok (fs_nodes f) \<and> map_of (fs_nodes f) \<subseteq>\<^sub>m G \<and>
     (\<forall>pl. fs_previous_leaves f = Some pl \<longrightarrow> sf \<and> hm_ok pl \<and> map_of pl \<subseteq>\<^sub>m Q)"

definition task_in :: "('l, 'inp, 'outp) leaf_ops \<Rightarrow> ('l node_data \<Rightarrow> hash_output) \<Rightarrow> map_storage
    \<Rightarrow> (node_index \<rightharpoonup> original_skeleton_node) \<Rightarrow> (node_index \<rightharpoonup> 'l) \<Rightarrow> nat \<Rightarrow> 'l fetch_task \<Rightarrow> bool" where
  "task_in L H st G Q n x \<longleftrightarrow> task_ok L H st x \<and> fst (snd x) < n \<and> task_skel H x \<subseteq>\<^sub>m G \<and> task_prev L x \<subseteq>\<^sub>m Q"

definition pending :: "('l, 'inp, 'outp) leaf_ops \<Rightarrow> ('l node_data \<Rightarrow> hash_output) \<Rightarrow> map_storage \<Rightarrow> bool
    \<Rightarrow> (node_index \<rightharpoonup> original_skeleton_node) \<Rightarrow> (node_index \<rightharpoonup> 'l) \<Rightarrow> nat \<Rightarrow> 'l fetch_task \<Rightarrow> bool" where
  "pending L H st sf G Q n x \<longleftrightarrow> task_in L H st G Q n x \<and> (fst (snd x) = 0 \<longrightarrow> sf \<and> task_leaves x \<noteq> [])"

definition node_cover :: "('l node_data \<Rightarrow> hash_output) \<Rightarrow> 'l fetch_state \<Rightarrow> 'l fetch_task list \<Rightarrow> node_index set" where
  "node_cover H f xs = dom (map_of (fs_nodes f)) \<union> (\<Union>x \<in> set xs. dom (task_skel H x))"

definition leaf_cover :: "'l fetch_state \<Rightarrow> 'l fetch_task list \<Rightarrow> node_index set" where
  "leaf_cover f xs =
     (case fs_previous_leaves f of
        None \<Rightarrow> UNIV
      | Some pl \<Rightarrow> dom (map_of pl) \<union> (\<Union>x \<in> set xs. set (task_leaves x)))"

definition advances_to :: "('l, 'inp, 'outp) leaf_ops \<Rightarrow> ('l node_data \<Rightarrow> hash_output) \<Rightarrow> map_storage \<Rightarrow> bool
    \<Rightarrow> (node_index \<rightharpoonup> original_skeleton_node) \<Rightarrow> (node_index \<rightharpoonup> 'l) \<Rightarrow> nat \<Rightarrow> 'l fetch_state \<Rightarrow> 'l fetch_task list
    \<Rightarrow> 'l fetch_state \<Rightarrow> bool" where
  "advances_to L H st sf G Q n f xs f' \<longleftrightarrow>
     (\<exists>ys. fs_next_subtrees f' = fs_next_subtrees f @ map fst ys \<and> list_all (pending L H st sf G Q n) ys \<and>
        fetch_ok sf G Q f' \<and> (fs_previous_leaves f' = None \<longleftrightarrow> fs_previous_leaves f = None) \<and>
        node_cover H f xs \<subseteq> node_cover H f' ys \<and> leaf_cover f xs \<subseteq> leaf_cover f' ys)"

lemma leaf_cover_Some:
  "fs_previous_leaves f = Some pl \<Longrightarrow> leaf_cover f xs = dom (map_of pl) \<union> (\<Union>x \<in> set xs. set (task_leaves x))"
  by (simp add: leaf_cover_def)

lemma cover_trans: "A \<union> X \<subseteq> B \<union> X' \<Longrightarrow> B \<union> Y \<subseteq> C \<union> Y' \<Longrightarrow> A \<union> (X \<union> Y) \<subseteq> C \<union> (X' \<union> Y')"
  by blast

lemma advances_trans:
  assumes "advances_to L H st sf G Q n f xs f1" "advances_to L H st sf G Q n f1 ys f2"
  shows "advances_to L H st sf G Q n f (xs @ ys) f2"
proof -
  from assms(1) obtain xs' where x: "fs_next_subtrees f1 = fs_next_subtrees f @ map fst xs'"
    "list_all (pending L H st sf G Q n) xs'" "fs_previous_leaves f1 = None \<longleftrightarrow> fs_previous_leaves f = None"
    "node_cover H f xs \<subseteq> node_cover H f1 xs'" "leaf_cover f xs \<subseteq> leaf_cover f1 xs'" by (auto simp: advances_to_def)
  from assms(2) obtain ys' where y: "fs_next_subtrees f2 = fs_next_subtrees f1 @ map fst ys'"
    "list_all (pending L H st sf G Q n) ys'" "fetch_ok sf G Q f2" "fs_previous_leaves f2 = None \<longleftrightarrow> fs_previous_leaves f1 = None"
    "node_cover H f1 ys \<subseteq> node_cover H f2 ys'" "leaf_cover f1 ys \<subseteq> leaf_cover f2 ys'" by (auto simp: advances_to_def)
  have "node_cover H f (xs @ ys) \<subseteq> node_cover H f2 (xs' @ ys')"
    using x(4) y(5) unfolding node_cover_def set_append UN_Un by (rule cover_trans)
  moreover have "leaf_cover f (xs @ ys) \<subseteq> leaf_cover f2 (xs' @ ys')"
  proof (cases "fs_previous_leaves f2")
    case (Some pl2)
    with x(3) y(4) obtain pl pl1 where "fs_previous_leaves f = Some pl" "fs_previous_leaves f1 = Some pl1" by auto
    note some = leaf_cover_Some[OF this(1)] leaf_cover_Some[OF this(2)] leaf_cover_Some[OF Some]
    from x(5) y(6) show ?thesis unfolding some set_append UN_Un by (rule cover_trans)
  qed (simp add: leaf_cover_def)
  ultimately show ?thesis
    using x y unfolding advances_to_def by (intro exI[of _ "xs' @ ys'"]) auto
qed

lemma advances_from:
  assumes "advances_to L H st sf G Q n f1 ys f'" "fs_next_subtrees f1 = fs_next_subtrees f"
    and "fs_previous_leaves f1 = None \<longleftrightarrow> fs_previous_leaves f = None"
    and "node_cover H f xs \<subseteq> node_cover H f1 ys" "leaf_cover f xs \<subseteq> leaf_cover f1 ys"
  shows "advances_to L H st sf G Q n f xs f'"
  using assms by (fastforce simp: advances_to_def)

lemma advances_refl: "fetch_ok sf G Q f \<Longrightarrow> advances_to L H st sf G Q n f [] f"
  unfolding advances_to_def by (intro exI[of _ "[]"]) simp

lemma fs_insert_simps [simp]:
  "fs_next_subtrees (fs_insert i x f) = fs_next_subtrees f" "fs_previous_leaves (fs_insert i x f) = fs_previous_leaves f"
  "dom (map_of (fs_nodes (fs_insert i x f))) = insert i (dom (map_of (fs_nodes f)))"
  by (simp_all add: fs_insert_def update_conv')

lemma fs_insert_ok: "fetch_ok sf G Q f \<Longrightarrow> G i = Some x \<Longrightarrow> fetch_ok sf G Q (fs_insert i x f)"
  by (auto simp: fetch_ok_def fs_insert_def update_conv' map_le_def)

lemma handle_advances:
  assumes "task_in L H st G Q n x" "fetch_ok sf G Q f"
  shows "advances_to L H st sf G Q n f [x] (fs_handle_subtree sf (fst x) f)"
proof -
  obtain s h t where x: "x = (s, h, t)" by (cases x)
  have t: "wf_tree h t" "node_at h (st_root_index s)" "st_root_hash s = tree_hash H t" "task_skel H x \<subseteq>\<^sub>m G"
    using assms(1) by (auto simp: task_in_def task_ok_def x)
  have leaf: "st_is_leaf s \<longleftrightarrow> h = 0" using t(2) by (simp add: st_is_leaf_def node_is_leaf)
  show ?thesis
  proof (cases "h \<noteq> 0 \<or> (sf \<and> st_sorted_leaf_indices s \<noteq> [])")
    case True
    then have "fs_handle_subtree sf s f = f\<lparr>fs_next_subtrees := fs_next_subtrees f @ [s]\<rparr>"
      by (auto simp: fs_handle_subtree_def handle_subtree_def leaf st_is_unmodified_def)
    moreover have "pending L H st sf G Q n x" using True assms(1) by (auto simp: pending_def task_leaves_def x)
    ultimately show ?thesis
      using assms(2) unfolding advances_to_def
      by (intro exI[of _ "[x]"]) (auto simp: x fetch_ok_def node_cover_def leaf_cover_def)
  next
    case False
    then obtain l where l: "t = PLeaf l" using t(1) by (cases t) auto
    show ?thesis
    proof (cases "st_sorted_leaf_indices s = []")
      case True
      then have "fs_handle_subtree sf s f = fs_insert (st_root_index s) (UnmodifiedSubTree (tree_hash H t)) f"
        using False by (simp add: fs_handle_subtree_def handle_subtree_def leaf st_is_unmodified_def fs_insert_def t(3))
      moreover have skel: "task_skel H x = [st_root_index s \<mapsto> UnmodifiedSubTree (tree_hash H t)]"
        using True by (simp add: task_skel_def x l)
      moreover have "G (st_root_index s) = Some (UnmodifiedSubTree (tree_hash H t))" using t(4) skel by (simp add: map_le_def)
      ultimately show ?thesis
        using fs_insert_ok[OF assms(2)] True unfolding advances_to_def
        by (intro exI[of _ "[]"]) (auto simp: x node_cover_def leaf_cover_def task_leaves_def split: option.splits)
    next
      case nonempty: False
      then have "fs_handle_subtree sf s f = f" "fs_previous_leaves f = None" "task_skel H x = Map.empty"
        using False assms(2)
        by (auto simp: fs_handle_subtree_def handle_subtree_def leaf st_is_unmodified_def fetch_ok_def task_skel_def x l)
      with assms(2) show ?thesis
        unfolding advances_to_def by (intro exI[of _ "[]"]) (auto simp: x node_cover_def leaf_cover_def)
    qed
  qed
qed

text \<open>The previous leaves that a task has not left to other tasks.\<close>

lemma fs_extend_leaves_simps [simp]:
  "fs_next_subtrees (fs_extend_leaves ls f) = fs_next_subtrees f" "fs_nodes (fs_extend_leaves ls f) = fs_nodes f"
  "fs_previous_leaves (fs_extend_leaves ls f) = None \<longleftrightarrow> fs_previous_leaves f = None"
  by (simp_all add: fs_extend_leaves_def)

lemma extend_leaves_ok:
  assumes "fetch_ok sf G Q f" "distinct ks" "\<And>k. k \<in> set ks \<Longrightarrow> Q k = Some (v k)"
  shows "fetch_ok sf G Q (fs_extend_leaves (map (\<lambda>k. (k, v k)) ks) f)"
    "leaf_cover f xs \<union> set ks \<subseteq> leaf_cover (fs_extend_leaves (map (\<lambda>k. (k, v k)) ks) f) xs"
proof -
  let ?l = "map (\<lambda>k. (k, v k)) ks"
  have l: "hm_ok ?l" using assms(2) by (simp add: comp_def)
  have m: "map_of ?l k = (if k \<in> set ks then Some (v k) else None)" for k by (simp add: map_of_map_restrict restrict_map_def)
  have "map_of pl ++ map_of ?l \<subseteq>\<^sub>m Q" if "map_of pl \<subseteq>\<^sub>m Q" for pl
  proof -
    have "map_of ?l \<subseteq>\<^sub>m Q" using assms(3) by (auto simp: map_le_def m split: if_splits)
    with that show ?thesis by (simp add: map_add_le_mapI)
  qed
  then show "fetch_ok sf G Q (fs_extend_leaves ?l f)"
    using assms(1) l by (auto simp: fetch_ok_def fs_extend_leaves_def)
  show "leaf_cover f xs \<union> set ks \<subseteq> leaf_cover (fs_extend_leaves ?l f) xs"
    using l m by (auto simp: leaf_cover_def fs_extend_leaves_def dom_def split: option.splits)
qed

lemma log_warning_ok:
  "(cmp \<Longrightarrow> set ks \<subseteq> dom (map_of mods)) \<Longrightarrow> log_warning_for_empty_leaves L cmp ks mods = Inr ()"
  by (induction L cmp ks mods rule: log_warning_for_empty_leaves.induct) (auto simp: leaf_compare_def split: option.splits)

lemma child_contents:
  assumes "wf_tree h l" "wf_tree h r"
  shows "below h (2 * i) k \<Longrightarrow> contents (2 * i) l k = contents i (PBin l r) k"
    "below h (2 * i + 1) k \<Longrightarrow> contents (2 * i + 1) r k = contents i (PBin l r) k"
proof -
  let ?M = "contents (2 * i) l ++ contents (2 * i + 1) r"
  have wf: "wf_tree0 h l" "wf_tree0 h r" using assms by (simp_all add: wf_tree0_def)
  note left = fun_cong[OF contents_left(1)[OF wf, of i], of k] and right = fun_cong[OF contents_left(2)[OF wf, of i], of k]
  show "contents (2 * i) l k = contents i (PBin l r) k" if "below h (2 * i) k"
    unfolding contents.simps by (rule trans[OF left restrict_in]) (simp add: that)
  show "contents (2 * i + 1) r k = contents i (PBin l r) k" if "below h (2 * i + 1) k"
    unfolding contents.simps by (rule trans[OF right restrict_in]) (simp add: that)
qed

lemma task_children:
  assumes "task_in L H st G Q (Suc n) (s, h, PBin l r)" "st_sorted_leaf_indices s \<noteq> []"
  shows "h = Suc (h - 1)" "node_at (Suc (h - 1)) (st_root_index s)" "G (st_root_index s) = Some OrigBinary"
    "task_in L H st G Q n (child_task H (st_sorted_leaf_indices s) (h - 1) (2 * st_root_index s) l)"
    "task_in L H st G Q n (child_task H (st_sorted_leaf_indices s) (h - 1) (2 * st_root_index s + 1) r)"
    "dom (task_skel H (s, h, PBin l r)) = insert (st_root_index s)
       (dom (task_skel H (child_task H (st_sorted_leaf_indices s) (h - 1) (2 * st_root_index s) l)) \<union>
        dom (task_skel H (child_task H (st_sorted_leaf_indices s) (h - 1) (2 * st_root_index s + 1) r)))"
proof -
  let ?i = "st_root_index s" and ?ks = "st_sorted_leaf_indices s"
  have wf: "0 < h" "wf_tree (h - 1) l" "wf_tree (h - 1) r" "stored L H st l" "stored L H st r" "h < Suc n"
    and node: "node_at h ?i" and ks: "leaves_ok h ?i ?ks" and le: "task_skel H (s, h, PBin l r) \<subseteq>\<^sub>m G"
      "task_prev L (s, h, PBin l r) \<subseteq>\<^sub>m Q"
    using assms(1) by (auto simp: task_in_def task_ok_def)
  show h: "h = Suc (h - 1)" using wf by simp
  with node show node': "node_at (Suc (h - 1)) ?i" by simp
  note ch = node_children[OF node']
  show "dom (task_skel H (s, h, PBin l r)) = insert ?i
       (dom (task_skel H (child_task H ?ks (h - 1) (2 * ?i) l)) \<union> dom (task_skel H (child_task H ?ks (h - 1) (2 * ?i + 1) r)))"
    using assms(2) by (auto simp: task_skel_def child_task_def)
  let ?S = "(skel H (h - 1) (2 * ?i) l (leaves_below (h - 1) (2 * ?i) ?ks) ++
    skel H (h - 1) (2 * ?i + 1) r (leaves_below (h - 1) (2 * ?i + 1) ?ks))(?i \<mapsto> OrigBinary)"
  have S: "?S \<subseteq>\<^sub>m G" using le(1) assms(2) by (simp add: task_skel_def)
  then show "G ?i = Some OrigBinary" by (simp add: map_le_def)
  note sk = map_le_trans[OF skel_disjoint_left(1)[OF wf(2,3) node'] S] map_le_trans[OF skel_disjoint_left(2)[OF wf(2,3) node'] S]
  note P = le(2)[unfolded task_prev_def prod.case]
  have prev: "previous_leaves_at L (contents (2 * ?i) l) (leaves_below (h - 1) (2 * ?i) ?ks) \<subseteq>\<^sub>m Q"
    by (rule map_le_trans[OF previous_leaves_le P]) (simp add: child_contents(1)[OF wf(2,3)] del: contents.simps)
  have prev': "previous_leaves_at L (contents (2 * ?i + 1) r) (leaves_below (h - 1) (2 * ?i + 1) ?ks) \<subseteq>\<^sub>m Q"
    by (rule map_le_trans[OF previous_leaves_le P]) (simp add: child_contents(2)[OF wf(2,3)] del: contents.simps)
  show "task_in L H st G Q n (child_task H ?ks (h - 1) (2 * ?i) l)"
    using child_task_ok[OF ch(1) wf(2,4) ks] sk(1) prev wf(1,6)
    by (auto simp: task_in_def child_task_def task_skel_def task_prev_def)
  show "task_in L H st G Q n (child_task H ?ks (h - 1) (2 * ?i + 1) r)"
    using child_task_ok[OF ch(2) wf(3,5) ks] sk(2) prev' wf(1,6)
    by (auto simp: task_in_def child_task_def task_skel_def task_prev_def)
qed

lemma task_bottom:
  assumes "task_in L H st G Q (Suc n) (s, h, PEdge p b)"
  defines "c \<equiv> child_task H (st_sorted_leaf_indices s) (h - pb_length p) (bottom_of (st_root_index s) p) b"
  shows "path_ok p" "pb_length p \<le> h" "G (st_root_index s) = Some (OrigEdge p)" "task_in L H st G Q n c" "\<not> is_edge b"
    "dom (task_skel H (s, h, PEdge p b)) = insert (st_root_index s) (dom (task_skel H c))"
    "\<And>k. k \<in> set (st_sorted_leaf_indices s) \<Longrightarrow> \<not> below (h - pb_length p) (bottom_of (st_root_index s) p) k \<Longrightarrow>
      Q k = Some (lf_default L)"
proof -
  let ?i = "st_root_index s" and ?ks = "st_sorted_leaf_indices s" and ?m = "h - pb_length p"
  let ?c = "bottom_of ?i p"
  have wf: "path_ok p" "0 < pb_length p" "pb_length p \<le> h" "\<not> is_edge b" "wf_tree ?m b" "stored L H st b" "h < Suc n"
    and node: "node_at h ?i" and ks: "leaves_ok h ?i ?ks" and le: "task_skel H (s, h, PEdge p b) \<subseteq>\<^sub>m G"
      "task_prev L (s, h, PEdge p b) \<subseteq>\<^sub>m Q"
    using assms(1) by (auto simp: task_in_def task_ok_def)
  show "path_ok p" "pb_length p \<le> h" "\<not> is_edge b" using wf by simp_all
  show "dom (task_skel H (s, h, PEdge p b)) = insert ?i (dom (task_skel H c))"
    by (simp add: task_skel_def child_task_def c_def)
  have S: "(skel H ?m ?c b (leaves_below ?m ?c ?ks))(?i \<mapsto> OrigEdge p) \<subseteq>\<^sub>m G" using le(1) by (simp add: task_skel_def)
  then show "G ?i = Some (OrigEdge p)" by (simp add: map_le_def)
  note sk = map_le_trans[OF skel_edge_bottom[OF wf(5) node wf(1-3)] S]
  note P = le(2)[unfolded task_prev_def prod.case contents.simps]
  have "previous_leaves_at L (contents ?c b) (leaves_below ?m ?c ?ks) \<subseteq>\<^sub>m Q"
    by (rule map_le_trans[OF previous_leaves_le P]) simp
  then show "task_in L H st G Q n c"
    using child_task_ok[OF node_at_below[OF node bottom_below[OF wf(1)] wf(3)] wf(5,6) ks] sk wf(2,3,7)
    by (auto simp: task_in_def child_task_def task_skel_def task_prev_def c_def)
  show "Q k = Some (lf_default L)" if k: "k \<in> set ?ks" "\<not> below ?m ?c k" for k
  proof -
    have "contents ?c b k = None" using contents_below[OF wf(5), of ?c k] k(2) by (cases "contents ?c b k") auto
    then have "previous_leaves_at L (contents ?c b) ?ks k = Some (lf_default L)"
      using k(1) by (simp add: previous_leaves_at_def previous_leaf_def)
    with P show ?thesis by (metis domI map_le_def)
  qed
qed

lemma st_unmodified: "st_is_unmodified s \<longleftrightarrow> st_sorted_leaf_indices s = []"
  by (simp add: st_is_unmodified_def)

lemma fetch_binary:
  assumes x: "task_in L H st G Q (Suc n) (s, h, PBin l r)" and f: "fetch_ok sf G Q f"
  shows "\<exists>f'. fetch_node L mods cmp sf (filled_of H (the_data H (PBin l r))) s f = Some (Inr f') \<and>
    advances_to L H st sf G Q n f [(s, h, PBin l r)] f'"
proof -
  let ?i = "st_root_index s" and ?ks = "st_sorted_leaf_indices s" and ?x = "(s, h, PBin l r)"
  show ?thesis
  proof (cases "?ks = []")
    case True
    let ?n = "UnmodifiedSubTree (H (BinaryData (tree_hash H l) (tree_hash H r)))"
    have skel: "task_skel H ?x = [?i \<mapsto> ?n]" using True by (simp add: task_skel_def)
    moreover have "G ?i = Some ?n" using x skel by (simp add: task_in_def map_le_def)
    moreover have "advances_to L H st sf G Q n f [?x] (fs_insert ?i ?n f)"
      by (rule advances_from[OF advances_refl[OF fs_insert_ok[OF f]]])
        (use calculation True in \<open>auto simp: node_cover_def leaf_cover_def task_leaves_def split: option.splits\<close>)
    ultimately show ?thesis using True by (simp add: fetch_node_def st_unmodified filled_of_def)
  next
    case False
    note ch = task_children[OF x False]
    let ?l = "child_task H ?ks (h - 1) (2 * ?i) l" and ?r = "child_task H ?ks (h - 1) (2 * ?i + 1) r"
    let ?f1 = "fs_insert ?i OrigBinary f"
    let ?f2 = "fs_handle_subtree sf (fst ?l) ?f1"
    have f1: "fetch_ok sf G Q ?f1" by (rule fs_insert_ok[OF f ch(3)])
    have l: "advances_to L H st sf G Q n ?f1 [?l] ?f2" by (rule handle_advances[OF ch(4) f1])
    then have "fetch_ok sf G Q ?f2" by (auto simp: advances_to_def)
    from advances_trans[OF l handle_advances[OF ch(5) this]]
    have lr: "advances_to L H st sf G Q n ?f1 [?l, ?r] (fs_handle_subtree sf (fst ?r) ?f2)" by simp
    have ks: "leaves_ok (Suc (h - 1)) ?i ?ks" using x ch(1) by (auto simp: task_in_def task_ok_def)
    then have cover: "set ?ks \<subseteq> set (task_leaves ?l) \<union> set (task_leaves ?r)"
      by (auto simp: task_leaves_def child_task_def leaves_ok_def list_all_iff below_children)
    have "advances_to L H st sf G Q n f [?x] (fs_handle_subtree sf (fst ?r) ?f2)"
    proof (rule advances_from[OF lr])
      show "node_cover H f [?x] \<subseteq> node_cover H ?f1 [?l, ?r]" unfolding node_cover_def using ch(6) by auto
      show "leaf_cover f [?x] \<subseteq> leaf_cover ?f1 [?l, ?r]"
        using cover by (auto simp: leaf_cover_def task_leaves_def split: option.splits)
    qed simp_all
    moreover have "get_children_subtrees s (tree_hash H l) (tree_hash H r) = Some (fst ?l, fst ?r)"
      using split_leaves_Some[OF ch(2) ks] by (simp add: get_children_subtrees_def node_child_ops[OF ch(2)] child_task_def)
    ultimately show ?thesis using False by (simp add: fetch_node_def st_unmodified filled_of_def Let_def)
  qed
qed

lemma fetch_edge:
  assumes x: "task_in L H st G Q (Suc n) (s, h, PEdge p b)" and f: "fetch_ok sf G Q f"
    and mods: "cmp \<Longrightarrow> set (st_sorted_leaf_indices s) \<subseteq> dom (map_of mods)"
  shows "\<exists>f'. fetch_node L mods cmp sf (filled_of H (the_data H (PEdge p b))) s f = Some (Inr f') \<and>
    advances_to L H st sf G Q n f [(s, h, PEdge p b)] f'"
proof -
  let ?i = "st_root_index s" and ?ks = "st_sorted_leaf_indices s" and ?x = "(s, h, PEdge p b)" and ?m = "h - pb_length p"
  let ?c = "child_task H ?ks ?m (bottom_of ?i p) b" and ?f1 = "fs_insert ?i (OrigEdge p) f"
  note bot = task_bottom[OF x]
  have node: "node_at h ?i" and ks: "leaves_ok h ?i ?ks" using x by (auto simp: task_in_def task_ok_def)
  have f1: "fetch_ok sf G Q ?f1" by (rule fs_insert_ok[OF f bot(3)])
  show ?thesis
  proof (cases "?ks = []")
    case True
    let ?n = "UnmodifiedSubTree (tree_hash H b)"
    have "wf_tree ?m b" using x by (simp add: task_in_def task_ok_def)
    then have skel: "task_skel H ?c = [bottom_of ?i p \<mapsto> ?n]"
      using True bot(5) by (cases b) (simp_all add: task_skel_def child_task_def leaves_below_def)
    then have "G (bottom_of ?i p) = Some ?n" using bot(4) by (simp add: task_in_def map_le_def)
    note f2 = fs_insert_ok[OF f1 this]
    have "advances_to L H st sf G Q n f [?x] (fs_insert (bottom_of ?i p) ?n ?f1)"
    proof (rule advances_from[OF advances_refl[OF f2]])
      show "node_cover H f [?x] \<subseteq> node_cover H (fs_insert (bottom_of ?i p) ?n ?f1) []"
        unfolding node_cover_def using bot(6) skel by auto
    qed (use True in \<open>auto simp: leaf_cover_def task_leaves_def split: option.splits\<close>)
    then show ?thesis
      using True bottom_index_Some[OF node bot(1,2)] by (simp add: fetch_node_def st_unmodified filled_of_def Let_def)
  next
    case False
    let ?empty = "filter (\<lambda>k. \<not> below ?m (bottom_of ?i p) k) ?ks"
    let ?f2 = "fs_extend_leaves (map (\<lambda>k. (k, lf_default L)) ?empty) ?f1"
    have d: "distinct ?empty"
      using ks by (auto simp: leaves_ok_def strict_sorted_iff intro: distinct_filter)
    have Q: "Q k = Some (lf_default L)" if "k \<in> set ?empty" for k using bot(7) that by auto
    note ext = extend_leaves_ok[OF f1 d Q]
    have "advances_to L H st sf G Q n f [?x] (fs_handle_subtree sf (fst ?c) ?f2)"
    proof (rule advances_from[OF handle_advances[OF bot(4) ext(1)]])
      show "node_cover H f [?x] \<subseteq> node_cover H ?f2 [?c]"
        unfolding node_cover_def using bot(6) by auto
      have "set ?ks \<subseteq> set ?empty \<union> set (task_leaves ?c)" by (auto simp: task_leaves_def child_task_def)
      then have "leaf_cover f [?x] \<subseteq> leaf_cover ?f1 [?c] \<union> set ?empty"
        by (auto simp: leaf_cover_def task_leaves_def split: option.splits)
      with ext(2)[of "[?c]"] show "leaf_cover f [?x] \<subseteq> leaf_cover ?f2 [?c]" by blast
    qed simp_all
    moreover have "log_warning_for_empty_leaves L cmp ?empty mods = Inr ()"
      by (rule log_warning_ok) (use mods in auto)
    moreover have "get_bottom_subtree s p (tree_hash H b) = Some (fst ?c, ?empty)"
      using get_bottom_subtree_Some[OF node bot(1,2) ks] by (simp add: child_task_def)
    ultimately show ?thesis using False by (simp add: fetch_node_def st_unmodified filled_of_def Let_def)
  qed
qed

lemma fetch_leaf:
  assumes x: "pending L H st sf G Q (Suc n) (s, h, PLeaf l)" and f: "fetch_ok sf G Q f"
    and mods: "cmp \<Longrightarrow> set (st_sorted_leaf_indices s) \<subseteq> dom (map_of mods)"
  shows "\<exists>f'. fetch_node L mods cmp sf (filled_of H (the_data H (PLeaf l))) s f = Some (Inr f') \<and>
    advances_to L H st sf G Q n f [(s, h, PLeaf l)] f'"
proof -
  let ?i = "st_root_index s" and ?ks = "st_sorted_leaf_indices s" and ?x = "(s, h, PLeaf l)"
  have "h = 0" "leaves_ok h ?i ?ks" "?ks \<noteq> []"
    using x by (auto simp: pending_def task_in_def task_ok_def task_leaves_def)
  then have ks: "?ks = [?i]" using leaves_ok_0 by auto
  have "task_prev L ?x \<subseteq>\<^sub>m Q" using x by (simp add: pending_def task_in_def)
  then have Q: "Q ?i = Some l"
    by (simp add: task_prev_def ks map_le_def previous_leaves_at_def previous_leaf_def dom_def)
  let ?f = "fs_extend_leaves (map (\<lambda>k. (k, l)) [?i]) f"
  have ext: "fetch_ok sf G Q ?f" "leaf_cover f [] \<union> set [?i] \<subseteq> leaf_cover ?f []"
    by (rule extend_leaves_ok[OF f]; use Q in simp)+
  have "task_skel H ?x = Map.empty" by (simp add: task_skel_def ks)
  moreover have "leaf_cover f [?x] \<subseteq> leaf_cover f [] \<union> set [?i]"
    by (auto simp: leaf_cover_def task_leaves_def ks split: option.splits)
  ultimately have "advances_to L H st sf G Q n f [?x] ?f"
    by (intro advances_from[OF advances_refl[OF ext(1)]]) (use ext(2) in \<open>auto simp: node_cover_def\<close>)
  moreover have "cmp \<Longrightarrow> \<exists>v. leaf_compare mods ?i l = Inr v" using mods ks by (auto simp: leaf_compare_def)
  ultimately show ?thesis
    using ks by (auto simp: fetch_node_def st_unmodified filled_of_def)
qed

section \<open>Fetching a tree\<close>

lemma fetch_node_advances:
  assumes x: "pending L H st sf G Q (Suc n) (s, h, t)" and f: "fetch_ok sf G Q f"
    and mods: "cmp \<Longrightarrow> set (st_sorted_leaf_indices s) \<subseteq> dom (map_of mods)"
  shows "\<exists>f'. fetch_node L mods cmp sf (filled_of H (the_data H t)) s f = Some (Inr f') \<and>
    advances_to L H st sf G Q n f [(s, h, t)] f'"
proof (cases t)
  case PEmpty
  with x show ?thesis by (simp add: pending_def task_in_def task_ok_def)
next
  case (PLeaf l)
  show ?thesis unfolding PLeaf by (rule fetch_leaf[OF x[unfolded PLeaf] f mods])
next
  case (PBin l r)
  show ?thesis unfolding PBin by (rule fetch_binary[OF _ f]) (use x PBin in \<open>simp add: pending_def\<close>)
next
  case (PEdge p b)
  show ?thesis unfolding PEdge by (rule fetch_edge[OF _ f mods]) (use x PEdge in \<open>simp_all add: pending_def\<close>)
qed

lemma fetch_level_advances:
  assumes "list_all (pending L H st sf G Q (Suc n)) xs" "fetch_ok sf G Q f"
    and "cmp \<Longrightarrow> dom Q \<subseteq> dom (map_of mods)"
  shows "\<exists>f'. fetch_level L mods cmp sf (zip (map (\<lambda>(s, h, t). filled_of H (the_data H t)) xs) (map fst xs)) f = Some (Inr f') \<and>
    advances_to L H st sf G Q n f xs f'"
  using assms(1,2)
proof (induction xs arbitrary: f)
  case Nil
  then show ?case by (simp add: advances_refl)
next
  case (Cons x xs)
  obtain s h t where x: "x = (s, h, t)" by (cases x)
  have p: "pending L H st sf G Q (Suc n) (s, h, t)" using Cons.prems x by simp
  then have "task_prev L x \<subseteq>\<^sub>m Q" by (simp add: pending_def task_in_def x)
  then have "dom (task_prev L x) \<subseteq> dom Q" by (rule map_le_implies_dom_le)
  then have "set (st_sorted_leaf_indices s) \<subseteq> dom Q"
    by (auto simp: task_prev_def x previous_leaves_at_def dom_def)
  with assms(3) fetch_node_advances[OF p Cons.prems(2)] obtain f1 where
    f1: "fetch_node L mods cmp sf (filled_of H (the_data H t)) s f = Some (Inr f1)" "advances_to L H st sf G Q n f [x] f1"
    using x by blast
  then have "fetch_ok sf G Q f1" by (auto simp: advances_to_def)
  with Cons.IH[of f1] Cons.prems obtain f2 where
    f2: "fetch_level L mods cmp sf (zip (map (\<lambda>(s, h, t). filled_of H (the_data H t)) xs) (map fst xs)) f1 = Some (Inr f2)"
    "advances_to L H st sf G Q n f1 xs f2" by auto
  with f1 advances_trans[OF f1(2) f2(2)] show ?case by (simp add: x)
qed

lemma map_le_full: "m \<subseteq>\<^sub>m G \<Longrightarrow> dom G \<subseteq> dom m \<Longrightarrow> m = G"
  by (rule map_le_antisym, assumption) (metis map_le_def subsetD)

lemma fetched_all:
  assumes "fetch_ok sf G Q f" "dom G \<subseteq> node_cover H f []" "dom Q \<subseteq> leaf_cover f []"
  shows "hm_ok (fs_nodes f) \<and> map_of (fs_nodes f) = G \<and> (\<forall>pl. fs_previous_leaves f = Some pl \<longrightarrow> hm_ok pl \<and> map_of pl = Q)"
  using assms map_le_full[of "map_of (fs_nodes f)" G] map_le_full[of "map_of (the (fs_previous_leaves f))" Q]
  by (auto simp: fetch_ok_def node_cover_def leaf_cover_def)

lemma fetch_nodes_correct:
  fixes L :: "('l, 'inp, 'outp) leaf_ops"
  assumes H: "hash_ok H" and mods: "cmp \<Longrightarrow> dom Q \<subseteq> dom (map_of mods)"
  shows "list_all (pending L H st sf G Q fuel) xs \<Longrightarrow> fs_next_subtrees f = [] \<Longrightarrow> fetch_ok sf G Q f \<Longrightarrow>
    sf = (cmp \<or> fs_previous_leaves f \<noteq> None) \<Longrightarrow> dom G \<subseteq> node_cover H f xs \<Longrightarrow> dom Q \<subseteq> leaf_cover f xs \<Longrightarrow>
    \<exists>nodes leaves. fetch_nodes fuel L st mods cmp (map fst xs) (fs_nodes f) (fs_previous_leaves f) = Some (Inr (nodes, leaves)) \<and>
      hm_ok nodes \<and> map_of nodes = G \<and> (leaves = None \<longleftrightarrow> fs_previous_leaves f = None) \<and>
      (\<forall>pl. leaves = Some pl \<longrightarrow> hm_ok pl \<and> map_of pl = Q)"
proof (induction fuel arbitrary: xs f)
  case 0
  then have "xs = []" by (cases xs) (auto simp: pending_def task_in_def)
  with fetched_all[OF 0(3)] 0 show ?case by simp
next
  case (Suc n)
  show ?case
  proof (cases xs)
    case Nil
    with fetched_all[OF Suc.prems(3)] Suc.prems show ?thesis by simp
  next
    case (Cons x rest)
    let ?roots = "map (\<lambda>(s, h, t). filled_of H (the_data H t)) xs"
    have "list_all (task_ok L H st) xs"
      using Suc.prems(1) by (auto simp: list_all_iff pending_def task_in_def)
    note roots = calculate_subtrees_roots_Some[OF this H]
    from fetch_level_advances[OF Suc.prems(1,3) mods] obtain f' where
      f': "fetch_level L mods cmp sf (zip ?roots (map fst xs)) f = Some (Inr f')" "advances_to L H st sf G Q n f xs f'" by blast
    then obtain ys where ys: "fs_next_subtrees f' = map fst ys" "list_all (pending L H st sf G Q n) ys" "fetch_ok sf G Q f'"
      "fs_previous_leaves f' = None \<longleftrightarrow> fs_previous_leaves f = None" "node_cover H f xs \<subseteq> node_cover H f' ys"
      "leaf_cover f xs \<subseteq> leaf_cover f' ys" using Suc.prems(2) by (auto simp: advances_to_def)
    let ?g = "f'\<lparr>fs_next_subtrees := []\<rparr>"
    have "\<exists>nodes leaves. fetch_nodes n L st mods cmp (map fst ys) (fs_nodes ?g) (fs_previous_leaves ?g) = Some (Inr (nodes, leaves)) \<and>
      hm_ok nodes \<and> map_of nodes = G \<and> (leaves = None \<longleftrightarrow> fs_previous_leaves ?g = None) \<and>
      (\<forall>pl. leaves = Some pl \<longrightarrow> hm_ok pl \<and> map_of pl = Q)"
    proof (rule Suc.IH)
      show "dom G \<subseteq> node_cover H ?g ys" using order_trans[OF Suc.prems(5) ys(5)] by (simp add: node_cover_def)
      show "dom Q \<subseteq> leaf_cover ?g ys" using order_trans[OF Suc.prems(6) ys(6)] by (simp add: leaf_cover_def)
      show "fetch_ok sf G Q ?g" using ys(3) by (simp add: fetch_ok_def)
      show "sf = (cmp \<or> fs_previous_leaves ?g \<noteq> None)" using Suc.prems(4) ys(4) by simp
    qed (use ys(2) in simp_all)
    moreover have "f = \<lparr>fs_nodes = fs_nodes f, fs_next_subtrees = [], fs_previous_leaves = fs_previous_leaves f\<rparr>"
      using Suc.prems(2) by simp
    ultimately show ?thesis using roots f'(1) ys(1,4) Suc.prems(4) Cons by (simp add: Let_def)
  qed
qed

section \<open>The original skeleton\<close>

text \<open>The root of a non-empty tree is not the hash that stands for the empty tree.\<close>

definition root_ok :: "('l node_data \<Rightarrow> hash_output) \<Rightarrow> 'l ptree \<Rightarrow> bool" where
  "root_ok H t \<longleftrightarrow> (tree_hash H t = ROOT_OF_EMPTY_TREE \<longleftrightarrow> t = PEmpty)"

lemma fetch_tree:
  fixes L :: "('l, 'inp, 'outp) leaf_ops"
  assumes t: "wf_tree 251 t" "stored L H st t" "hash_ok H" and ks: "leaves_ok 251 ROOT ks" "ks \<noteq> []"
    and mods: "cmp \<Longrightarrow> set ks \<subseteq> dom (map_of mods)" and prev: "prev = None \<or> prev = Some []"
  shows "\<exists>nodes leaves. fetch_nodes (Suc ACTUAL_HEIGHT) L st mods cmp
      [\<lparr>st_sorted_leaf_indices = ks, st_root_index = ROOT, st_root_hash = tree_hash H t\<rparr>] [] prev = Some (Inr (nodes, leaves)) \<and>
    hm_ok nodes \<and> map_of nodes = skel H 251 ROOT t ks \<and> (leaves = None \<longleftrightarrow> prev = None) \<and>
    (\<forall>pl. leaves = Some pl \<longrightarrow> hm_ok pl \<and> map_of pl = previous_leaves_at L (contents ROOT t) ks)"
proof -
  let ?G = "skel H 251 ROOT t ks" and ?Q = "previous_leaves_at L (contents ROOT t) ks" and ?sf = "cmp \<or> prev \<noteq> None"
  let ?x = "(\<lparr>st_sorted_leaf_indices = ks, st_root_index = ROOT, st_root_hash = tree_hash H t\<rparr>, 251 :: nat, t)"
  let ?f = "\<lparr>fs_nodes = [], fs_next_subtrees = [], fs_previous_leaves = prev\<rparr>"
  have Q: "dom ?Q = set ks" by (auto simp: previous_leaves_at_def dom_def)
  have x: "pending L H st ?sf ?G ?Q (Suc ACTUAL_HEIGHT) ?x"
    using t ks node_at_ROOT
    by (simp add: pending_def task_in_def task_ok_def task_skel_def task_prev_def ACTUAL_HEIGHT_def)
  have "\<exists>nodes leaves. fetch_nodes (Suc ACTUAL_HEIGHT) L st mods cmp (map fst [?x]) (fs_nodes ?f) (fs_previous_leaves ?f) =
      Some (Inr (nodes, leaves)) \<and> hm_ok nodes \<and> map_of nodes = ?G \<and> (leaves = None \<longleftrightarrow> fs_previous_leaves ?f = None) \<and>
      (\<forall>pl. leaves = Some pl \<longrightarrow> hm_ok pl \<and> map_of pl = ?Q)"
    by (rule fetch_nodes_correct[OF t(3), where sf = ?sf])
      (use x mods prev Q in \<open>auto simp: fetch_ok_def node_cover_def leaf_cover_def task_skel_def task_leaves_def\<close>)
  then show ?thesis by simp
qed

lemma original_create_skel:
  assumes t: "wf_tree0 251 t" "stored L H st t" "hash_ok H" "root_ok H t" and ks: "leaves_ok 251 ROOT ks" "ks \<noteq> []"
    and mods: "cmp \<Longrightarrow> set ks \<subseteq> dom (map_of mods)"
  shows "\<exists>os. original_create L st (tree_hash H t) ks cmp mods = Some (Inr os) \<and> hm_ok (os_nodes os) \<and>
    map_of (os_nodes os) = skel H 251 ROOT t ks \<and> os_sorted_leaf_indices os = ks"
proof (cases "t = PEmpty")
  case True
  with ks(2) log_warning_ok[of cmp ks mods L] mods show ?thesis
    by (simp add: original_create_def original_create_empty_def)
next
  case False
  then have "wf_tree 251 t" "tree_hash H t \<noteq> ROOT_OF_EMPTY_TREE" using t by (auto simp: wf_tree0_def root_ok_def)
  with fetch_tree[OF this(1) t(2,3) ks, of cmp mods None, OF mods] ks(2) show ?thesis
    by (auto simp: original_create_def simp del: fetch_nodes.simps)
qed

lemma create_and_get_previous_leaves_skel:
  assumes t: "wf_tree0 251 t" "stored L H st t" "hash_ok H" "root_ok H t" and ks: "leaves_ok 251 ROOT ks" "ks \<noteq> []"
    and mods: "cmp \<Longrightarrow> set ks \<subseteq> dom (map_of mods)"
  shows "\<exists>os leaves. create_and_get_previous_leaves L st (tree_hash H t) ks cmp mods = Some (Inr (os, leaves)) \<and>
    hm_ok (os_nodes os) \<and> map_of (os_nodes os) = skel H 251 ROOT t ks \<and> os_sorted_leaf_indices os = ks \<and>
    hm_ok leaves \<and> map_of leaves = previous_leaves_at L (contents ROOT t) ks"
proof (cases "t = PEmpty")
  case True
  have "distinct ks" using ks(1) by (simp add: leaves_ok_def strict_sorted_iff)
  then have "hm_ok (map (\<lambda>i. (i, lf_default L)) ks)" by (simp add: comp_def)
  moreover have "map_of (map (\<lambda>i. (i, lf_default L)) ks) = previous_leaves_at L Map.empty ks"
    by (auto simp: map_of_map_restrict restrict_map_def previous_leaves_at_def previous_leaf_def fun_eq_iff)
  ultimately show ?thesis using True ks(2) by (simp add: create_and_get_previous_leaves_def original_create_empty_def)
next
  case False
  then have "wf_tree 251 t" "tree_hash H t \<noteq> ROOT_OF_EMPTY_TREE" using t by (auto simp: wf_tree0_def root_ok_def)
  with fetch_tree[OF this(1) t(2,3) ks, of cmp mods "Some []", OF mods] ks(2) show ?thesis
    by (auto simp: create_and_get_previous_leaves_def simp del: fetch_nodes.simps)
qed

end
