(* ===== verification/Patricia_Commitment.thy ===== *)
theory Patricia_Commitment
  imports Patricia_Fetch_Laws
begin

text \<open>
  The three phases together: an update of a stored tree gives the root hash of the well-formed tree with the modified
  contents, and after the new nodes are written the storage holds that tree.
\<close>

section \<open>The flow\<close>

definition rs_expect :: "('e + 'a) option \<Rightarrow> 'a option" where
  "rs_expect r = (case r of Some (Inr a) \<Rightarrow> Some a | _ \<Rightarrow> None)"

definition tree_computation_flow ::
    "('l, 'inp, 'outp) leaf_ops \<Rightarrow> ('l node_data \<Rightarrow> hash_output) \<Rightarrow> 'l leaf_modifications \<Rightarrow> map_storage \<Rightarrow> hash_output
      \<Rightarrow> bool \<Rightarrow> 'l filled_tree option" where
  "tree_computation_flow L H leaf_modifications storage root_hash compare_modified_leaves = do {
     let sorted_leaf_indices = sorted_leaf_indices_new (map fst leaf_modifications);
     original_skeleton \<leftarrow>
       rs_expect (original_create L storage root_hash sorted_leaf_indices compare_modified_leaves leaf_modifications);
     updated_skeleton \<leftarrow> rs_expect (updated_create original_skeleton
       (hm_extend [] (map (\<lambda>(index, data). (index, if lf_is_empty L data then SkeletonZero else SkeletonNonZero))
         leaf_modifications)));
     rs_expect (create_with_existing_leaves L H updated_skeleton leaf_modifications) }"

section \<open>The contents after an update\<close>

text \<open>Empty leaves are removed.\<close>

definition new_values :: "('l, 'inp, 'outp) leaf_ops \<Rightarrow> 'l leaf_modifications \<Rightarrow> node_index \<rightharpoonup> 'l" where
  "new_values L mods k =
     (case map_of mods k of Some l \<Rightarrow> if lf_is_empty L l then None else Some l | None \<Rightarrow> None)"

definition modified_contents :: "('l, 'inp, 'outp) leaf_ops \<Rightarrow> 'l leaf_modifications \<Rightarrow> (node_index \<rightharpoonup> 'l) \<Rightarrow> node_index \<rightharpoonup> 'l" where
  "modified_contents L mods m k =
     (case map_of mods k of None \<Rightarrow> m k | Some l \<Rightarrow> if lf_is_empty L l then None else Some l)"

definition mods_ok :: "'l leaf_modifications \<Rightarrow> bool" where
  "mods_ok mods \<longleftrightarrow> hm_ok mods \<and> list_all (\<lambda>(k, l). below 251 ROOT k) mods"

lemma sorted_mods:
  assumes "mods_ok mods"
  defines "ks \<equiv> sorted_leaf_indices_new (map fst mods)"
  shows "leaves_ok 251 ROOT ks" "set ks = dom (map_of mods)" "ks = [] \<longleftrightarrow> mods = []"
proof -
  have ok: "distinct (map fst mods)" "list_all (\<lambda>(k, l). below 251 ROOT k) mods" using assms(1) by (simp_all add: mods_ok_def)
  then show "leaves_ok 251 ROOT ks"
    by (auto simp: leaves_ok_def ks_def sorted_leaf_indices_new_def strict_sorted_iff list_all_iff)
  show "set ks = dom (map_of mods)" by (simp add: ks_def sorted_leaf_indices_new_def dom_map_of_conv_image_fst)
  show "ks = [] \<longleftrightarrow> mods = []"
    by (metis ks_def length_0_conv length_map length_sort sorted_leaf_indices_new_def)
qed

lemma skeleton_mods_of:
  assumes "mods_ok mods"
  shows "skeleton_mods (new_values L mods) (sorted_leaf_indices_new (map fst mods))
    (hm_extend [] (map (\<lambda>(index, data). (index, if lf_is_empty L data then SkeletonZero else SkeletonNonZero)) mods))"
proof -
  let ?xs = "map (\<lambda>(index, data). (index, if lf_is_empty L data then SkeletonZero else SkeletonNonZero)) mods"
  have "map fst ?xs = map fst mods" by (simp add: comp_def case_prod_beta)
  then have xs: "hm_ok ?xs" using assms unfolding mods_ok_def by metis
  have "map_of ?xs k = map_option (\<lambda>d. if lf_is_empty L d then SkeletonZero else SkeletonNonZero) (map_of mods k)" for k
    by (simp add: map_of_map)
  with xs sorted_mods(2)[OF assms] show ?thesis
    by (auto simp: skeleton_mods_def new_values_def domIff split: option.splits)
qed

lemma new_contents_modified:
  assumes "mods_ok mods"
  shows "new_contents (new_values L mods) (sorted_leaf_indices_new (map fst mods)) m = modified_contents L mods m"
  using sorted_mods(2)[OF assms]
  by (auto simp: new_contents_def modified_contents_def new_values_def fun_eq_iff domIff split: option.splits)

text \<open>An update of a stored tree, phase by phase.\<close>

lemma flow_phases:
  fixes L :: "('l, 'inp, 'outp) leaf_ops"
  assumes t: "wf_tree0 251 t" "stored L H st t" "hash_ok H" "root_ok H t" and mods: "mods_ok mods" "mods \<noteq> []"
  shows "\<exists>u f t'. tree_computation_flow L H mods st (tree_hash H t) cmp = Some f \<and> wf_tree0 251 t' \<and>
    contents ROOT t' = modified_contents L mods (contents ROOT t) \<and> ft_root_hash f = tree_hash H t' \<and>
    new_skeleton H (new_values L mods) t' u \<and>
    unmodified_from (skel H 251 ROOT t (sorted_leaf_indices_new (map fst mods))) u \<and>
    map_of (ft_tree_map f) = new_nodes H (map_of u) ROOT t' \<and> hm_ok (ft_tree_map f)"
proof -
  let ?ks = "sorted_leaf_indices_new (map fst mods)" and ?nv = "new_values L mods"
  let ?ms = "hm_extend [] (map (\<lambda>(index, data). (index, if lf_is_empty L data then SkeletonZero else SkeletonNonZero)) mods)"
  note ks = sorted_mods[OF mods(1)]
  have ne: "?ks \<noteq> []" using ks(3) mods(2) by simp
  obtain os where os: "original_create L st (tree_hash H t) ?ks cmp mods = Some (Inr os)" "hm_ok (os_nodes os)"
    "map_of (os_nodes os) = skel H 251 ROOT t ?ks" "os_sorted_leaf_indices os = ?ks"
    using original_create_skel[OF t ks(1) ne, of cmp mods] ks(2) by blast
  obtain u t' where u: "updated_create os ?ms = Some (Inr u)" "wf_tree0 251 t'"
    "contents ROOT t' = new_contents ?nv ?ks (contents ROOT t)" "new_skeleton H ?nv t' u"
    "unmodified_from (skel H 251 ROOT t ?ks) u"
    using updated_create_final[OF t(1) ks(1) ne skeleton_mods_of[OF mods(1)] os(2-4)] by blast
  have "map_of mods j = Some l \<and> \<not> lf_is_empty L l" if "?nv j = Some l" for j l
    using that by (auto simp: new_values_def split: option.splits if_splits)
  from create_with_existing_leaves_correct[OF u(4,2) mods(2) this] obtain f where
    f: "create_with_existing_leaves L H u mods = Some (Inr f)" "ft_root_hash f = tree_hash H t'"
    "map_of (ft_tree_map f) = new_nodes H (map_of u) ROOT t'" "hm_ok (ft_tree_map f)" by blast
  have "tree_computation_flow L H mods st (tree_hash H t) cmp = Some f"
    using os(1) u(1) f(1) by (simp add: tree_computation_flow_def rs_expect_def Let_def)
  with u f new_contents_modified[OF mods(1), of L] show ?thesis by metis
qed

lemma flow_unmodified:
  "tree_computation_flow L H [] st root cmp = Some \<lparr>ft_tree_map = [], ft_root_hash = root\<rparr>"
  by (simp add: tree_computation_flow_def rs_expect_def sorted_leaf_indices_new_def original_create_def
    original_create_unmodified_def updated_create_def updated_create_unmodified_def create_with_existing_leaves_def
    filled_create_unmodified_def updated_get_node_def)

section \<open>Subtrees that are kept\<close>

text \<open>\<open>subtree_at H i h s D\<close>: the tree \<open>s\<close> of height \<open>h\<close> may be at the index \<open>i\<close>, and its nodes are among \<open>D\<close>.\<close>

definition subtree_at :: "('l node_data \<Rightarrow> hash_output) \<Rightarrow> node_index \<Rightarrow> nat \<Rightarrow> 'l ptree \<Rightarrow> 'l node_data set \<Rightarrow> bool" where
  "subtree_at H i h s D \<longleftrightarrow> wf_tree h s \<and> node_at h i \<and> set (tree_nodes H s) \<subseteq> D"

lemma subtree_at_mono: "subtree_at H i h s D \<Longrightarrow> D \<subseteq> D' \<Longrightarrow> subtree_at H i h s D'"
  by (auto simp: subtree_at_def)

lemma skel_unmodified_subtree:
  assumes "wf_tree h t" "node_at h i" "skel H h i t ks j = Some (UnmodifiedSubTree x)"
  shows "\<exists>n s. x = tree_hash H s \<and> subtree_at H j n s (set (tree_nodes H t))"
  using assms
proof (induction H h i t ks rule: skel.induct)
  case (2 H h i l ks)
  then show ?case
    by (intro exI[of _ 0] exI[of _ "PLeaf l"]) (auto simp: subtree_at_def split: if_splits)
next
  case (3 H h i l r ks)
  then obtain m where h: "h = Suc m" "wf_tree m l" "wf_tree m r" by (cases h) auto
  note ch = node_children[OF 3(4)[unfolded h(1)]]
  show ?case
  proof (cases "ks = []")
    case True
    with 3 show ?thesis
      by (intro exI[of _ h] exI[of _ "PBin l r"]) (auto simp: subtree_at_def split: if_splits)
  next
    case False
    with 3(5) h(1) consider "skel H m (2 * i) l (leaves_below m (2 * i) ks) j = Some (UnmodifiedSubTree x)"
      | "skel H m (2 * i + 1) r (leaves_below m (2 * i + 1) ks) j = Some (UnmodifiedSubTree x)"
      by (auto split: if_splits)
    then show ?thesis
    proof cases
      case 1
      with 3(1)[OF False] h ch obtain n s where "x = tree_hash H s" "subtree_at H j n s (set (tree_nodes H l))" by auto
      then show ?thesis by (auto intro: subtree_at_mono)
    next
      case 2
      with 3(2)[OF False] h ch obtain n s where "x = tree_hash H s" "subtree_at H j n s (set (tree_nodes H r))" by auto
      then show ?thesis by (auto intro: subtree_at_mono)
    qed
  qed
next
  case (4 H h i p b ks)
  then have p: "path_ok p" "pb_length p \<le> h" "wf_tree (h - pb_length p) b" by auto
  from 4(4) have "skel H (h - pb_length p) (bottom_of i p) b (leaves_below (h - pb_length p) (bottom_of i p) ks) j =
      Some (UnmodifiedSubTree x)" by (auto split: if_splits)
  from 4(1)[OF p(3) node_at_below[OF 4(3) bottom_below[OF p(1)] p(2)] this] obtain n s where
    "x = tree_hash H s" "subtree_at H j n s (set (tree_nodes H b))" by blast
  then show ?case by (auto intro: subtree_at_mono)
qed simp

lemma new_nodes_in_tree: "new_nodes H u i t j = Some n \<Longrightarrow> fn_data n \<in> set (tree_nodes H t)"
proof (induction H u i t rule: new_nodes.induct)
  case (2 H u i l)
  then show ?case by (cases "unmodified_at u i") (auto simp: filled_of_def split: if_splits)
next
  case (3 H u i l r)
  then show ?case by (cases "unmodified_at u i") (auto simp: filled_of_def split: if_splits)
next
  case (4 H u i p b)
  then show ?case by (cases "unmodified_at u i") (auto simp: filled_of_def split: if_splits)
qed simp

text \<open>A node of the new tree is new, or it belongs to an unmodified subtree.\<close>

lemma final_nodes:
  assumes "final H nv u i t R" "wf_tree h t" "node_at h i" "d \<in> set (tree_nodes H t)"
  shows "(\<exists>j. new_nodes H u i t j = Some (filled_of H d)) \<or>
    (\<exists>j n s. u j = Some (UpdUnmodifiedSubTree (tree_hash H s)) \<and> subtree_at H j n s (set (tree_nodes H t)) \<and>
      d \<in> set (tree_nodes H s))"
  using assms
proof (induction arbitrary: h rule: final.induct)
  case (final_unmodified i t)
  then show ?case by (auto simp: subtree_at_def)
next
  case (final_leaf i l)
  then have "new_nodes H u i (PLeaf l) i = Some (filled_of H d)" by simp
  then show ?case by blast
next
  case (final_bin i l R1 r R2)
  then obtain m where h: "h = Suc m" "wf_tree m l" "wf_tree m r" by (cases h) auto
  note node = final_bin.prems(2)[unfolded h(1)] and ch = node_children[OF final_bin.prems(2)[unfolded h(1)]]
  let ?x = "filled_of H (BinaryData (tree_hash H l) (tree_hash H r))"
  have new: "new_nodes H u i (PBin l r) = (new_nodes H u (2 * i) l ++ new_nodes H u (2 * i + 1) r)(i \<mapsto> ?x)"
    using final_bin.hyps(1) by (intro new_nodes_modified) simp
  note le = children_maps[OF new_nodes_subtree[OF final_bin.hyps(2) h(2)] new_nodes_subtree[OF final_bin.hyps(3) h(3)] node,
    of ?x, folded new]
  have sub: "set (tree_nodes H l) \<subseteq> set (tree_nodes H (PBin l r))" "set (tree_nodes H r) \<subseteq> set (tree_nodes H (PBin l r))" by auto
  from final_bin.prems(3) consider "d = BinaryData (tree_hash H l) (tree_hash H r)" | "d \<in> set (tree_nodes H l)"
    | "d \<in> set (tree_nodes H r)" by auto
  then show ?case
  proof cases
    case 1
    then have "new_nodes H u i (PBin l r) i = Some (filled_of H d)" by (simp add: new)
    then show ?thesis by blast
  next
    case 2
    from final_bin.IH(1)[OF h(2) ch(1) 2] show ?thesis
      using le(1) subtree_at_mono[OF _ sub(1)] unfolding map_le_def by (metis domI)
  next
    case 3
    from final_bin.IH(2)[OF h(3) ch(2) 3] show ?thesis
      using le(2) subtree_at_mono[OF _ sub(2)] unfolding map_le_def by (metis domI)
  qed
next
  case (final_edge i p b R)
  let ?x = "filled_of H (EdgeData (tree_hash H b) p)"
  have p: "path_ok p" "0 < pb_length p" "pb_length p \<le> h" "wf_tree (h - pb_length p) b" using final_edge.prems by auto
  note node = node_at_below[OF final_edge.prems(2) bottom_below[OF p(1)] p(3)]
  have new: "new_nodes H u i (PEdge p b) = (new_nodes H u (bottom_of i p) b)(i \<mapsto> ?x)"
    using final_edge.hyps(1) by (intro new_nodes_modified) simp
  have "i \<notin> dom (new_nodes H u (bottom_of i p) b)"
    using new_nodes_subtree[OF final_edge.hyps(2) p(4)]
      ancestor_notin_subtree[OF final_edge.prems(2) bottom_below[OF p(1)] p(2,3)] by blast
  from map_le_upd_new[OF this, of ?x] have le: "new_nodes H u (bottom_of i p) b \<subseteq>\<^sub>m new_nodes H u i (PEdge p b)" by (simp only: new)
  have sub: "set (tree_nodes H b) \<subseteq> set (tree_nodes H (PEdge p b))" by auto
  show ?case
  proof (cases "d = EdgeData (tree_hash H b) p")
    case True
    then have "new_nodes H u i (PEdge p b) i = Some (filled_of H d)" by (simp add: new)
    then show ?thesis by blast
  next
    case False
    then have "d \<in> set (tree_nodes H b)" using final_edge.prems(3) by auto
    from final_edge.IH[OF p(4) node this] show ?thesis
      using le subtree_at_mono[OF _ sub] unfolding map_le_def by (metis domI)
  qed
qed

section \<open>Hashes without collisions\<close>

text \<open>No two different nodes in \<open>D\<close> have the same hash, unless one of them is a leaf and the other is not. (The hash of
  a leaf of a storage trie is the stored value, which may be any field element.)\<close>

definition no_collision :: "('l node_data \<Rightarrow> hash_output) \<Rightarrow> 'l node_data set \<Rightarrow> bool" where
  "no_collision H D \<longleftrightarrow> (\<forall>d \<in> D. \<forall>d' \<in> D. is_leaf_data d = is_leaf_data d' \<longrightarrow> H d = H d' \<longrightarrow> d = d')"

lemma no_collisionD:
  "no_collision H D \<Longrightarrow> is_leaf_data d = is_leaf_data d' \<Longrightarrow> H d = H d' \<Longrightarrow> d \<in> D \<Longrightarrow> d' \<in> D \<Longrightarrow> d = d'"
  by (simp add: no_collision_def)

lemma tree_hash_inj:
  assumes "no_collision H D" "wf_tree h s" "wf_tree h s'" "set (tree_nodes H s) \<subseteq> D" "set (tree_nodes H s') \<subseteq> D"
    and "tree_hash H s = tree_hash H s'"
  shows "s = s'"
  using assms(2-)
proof (induction s arbitrary: h s')
  case PEmpty
  then show ?case by simp
next
  case (PLeaf l)
  then obtain l' where s': "s' = PLeaf l'" by (cases s') auto
  have "LeafData l = LeafData l'" using PLeaf.prems s' by (intro no_collisionD[OF assms(1)]) auto
  then show ?case using s' by simp
next
  case (PBin l r)
  have "the_data H (PBin l r) = the_data H s'"
    using PBin.prems by (intro no_collisionD[OF assms(1)]; cases s') auto
  then obtain l' r' where s': "s' = PBin l' r'" "tree_hash H l = tree_hash H l'" "tree_hash H r = tree_hash H r'"
    using PBin.prems(2) by (cases s') auto
  have "l = l'" using PBin.prems s' by (intro PBin.IH(1)[of "h - 1" l']) auto
  moreover have "r = r'" using PBin.prems s' by (intro PBin.IH(2)[of "h - 1" r']) auto
  ultimately show ?case using s' by simp
next
  case (PEdge p b)
  have "the_data H (PEdge p b) = the_data H s'"
    using PEdge.prems by (intro no_collisionD[OF assms(1)]; cases s') auto
  then obtain b' where s': "s' = PEdge p b'" "tree_hash H b = tree_hash H b'"
    using PEdge.prems(2) by (cases s') auto
  have "b = b'" using PEdge.prems s' by (intro PEdge.IH[of "h - pb_length p" b']) auto
  then show ?case using s' by simp
qed

text \<open>Keys of nodes are determined by the kind of the node and its hash.\<close>

lemma create_db_key_inj:
  "length s = length s' \<Longrightarrow> create_db_key p s = create_db_key p' s' \<longleftrightarrow> p = p' \<and> s = s'"
  by (auto simp: create_db_key_def bytes_of_string_def append_eq_append_conv)

lemma db_key_inj:
  assumes "hash_ok H" "leaf_ok L d" "leaf_ok L d'" "lf_prefix L \<noteq> prefix_to_bytes InnerNode"
    and "db_key L (filled_of H d) = db_key L (filled_of H d')"
  shows "is_leaf_data d = is_leaf_data d'" "H d = H d'"
proof -
  from assms(5) have "node_get_prefix L d = node_get_prefix L d'" "felt_to_bytes_be (H d) = felt_to_bytes_be (H d')"
    by (simp_all add: db_key_def filled_of_def create_db_key_inj)
  moreover have "felt_ok (H d)" "felt_ok (H d')" using assms(1) by (simp_all add: hash_ok_def)
  ultimately show "is_leaf_data d = is_leaf_data d'" "H d = H d'"
    using assms(2-4) felt_to_bytes_be_inj by (cases d; cases d'; auto)+
qed

lemma map_of_hm_extend_in:
  "k \<in> fst ` set xs \<Longrightarrow> \<exists>v. (k, v) \<in> set xs \<and> map_of (hm_extend m xs) k = Some v"
proof (induction m xs rule: hm_extend.induct)
  case (2 m k' v n)
  show ?case
  proof (cases "k \<in> fst ` set n")
    case True
    with 2(1) show ?thesis by auto
  next
    case False
    with 2(2) map_of_hm_extend_notin[OF False, of "AList.update k' v m"] show ?thesis
      by (auto simp: update_conv')
  qed
qed simp

text \<open>After the new nodes are written, the storage holds the new tree.\<close>

lemma written_tree_stored:
  fixes L :: "('l, 'inp, 'outp) leaf_ops"
  assumes st: "stored L H st t" "wf_tree 251 t \<or> t = PEmpty" "hash_ok H" "lf_prefix L \<noteq> prefix_to_bytes InnerNode"
    and nc: "no_collision H (set (tree_nodes H t) \<union> set (tree_nodes H t'))"
    and t': "wf_tree 251 t'" "new_skeleton H nv t' u" "unmodified_from (skel H 251 ROOT t ks) u"
    and leaves: "\<And>d. d \<in> set (tree_nodes H t') \<Longrightarrow> leaf_ok L d"
    and f: "map_of (ft_tree_map f) = new_nodes H (map_of u) ROOT t'" "hm_ok (ft_tree_map f)"
  shows "stored L H (storage_mset st (filled_serialize L f)) t'"
  unfolding stored_def list_all_iff
proof (intro ballI conjI)
  fix d assume d: "d \<in> set (tree_nodes H t')"
  then show "leaf_ok L d" by (rule leaves)
  let ?k = "db_key L (filled_of H d)" and ?N = "new_nodes H (map_of u) ROOT t'"
  let ?xs = "map (\<lambda>(index, node). (db_key L node, node_serialize L (fn_data node))) (ft_tree_map f)"
  have t: "t' \<noteq> PEmpty" using t'(1) by auto
  show "storage_mset st (filled_serialize L f) ?k = Some (node_serialize L d)"
  proof (cases "?k \<in> fst ` set ?xs")
    case True
    then obtain v where v: "(?k, v) \<in> set ?xs" "map_of (filled_serialize L f) ?k = Some v"
      using map_of_hm_extend_in[of ?k ?xs "[]"] unfolding filled_serialize_def by blast
    then obtain j n where n: "(j, n) \<in> set (ft_tree_map f)" "?k = db_key L n" "v = node_serialize L (fn_data n)" by auto
    then have "?N j = Some n" using map_of_is_SomeI[OF f(2) n(1)] f(1) by simp
    then have n': "n = filled_of H (fn_data n)" "fn_data n \<in> set (tree_nodes H t')"
      using new_nodes_filled new_nodes_in_tree by blast+
    have "db_key L (filled_of H d) = db_key L (filled_of H (fn_data n))" using n(2) n'(1) by simp
    from db_key_inj[OF st(3) leaves[OF d] leaves[OF n'(2)] st(4) this] have "d = fn_data n"
      using nc d n'(2) by (simp add: no_collision_def)
    with v(2) n(3) show ?thesis by (simp add: storage_mset_def)
  next
    case False
    have old: "map_of (filled_serialize L f) ?k = None"
      using map_of_hm_extend_notin[OF False, of "[]"] by (simp add: filled_serialize_def)
    have "?N j \<noteq> Some (filled_of H d)" for j
    proof
      assume "?N j = Some (filled_of H d)"
      then have "(j, filled_of H d) \<in> set (ft_tree_map f)" using f(1) by (simp add: map_of_SomeD)
      then have "(db_key L (filled_of H d), node_serialize L (fn_data (filled_of H d))) \<in> set ?xs" by force
      from imageI[OF this, of fst] False show False by (simp only: fst_conv)
    qed
    moreover have "final H nv (map_of u) ROOT t' (dom (map_of u))" using t'(2) t by (simp add: new_skeleton_def)
    ultimately obtain j n s where
      s: "map_of u j = Some (UpdUnmodifiedSubTree (tree_hash H s))" "subtree_at H j n s (set (tree_nodes H t'))"
      "d \<in> set (tree_nodes H s)" using final_nodes[OF _ t'(1) node_at_ROOT d] by blast
    then have "skel H 251 ROOT t ks j = Some (UnmodifiedSubTree (tree_hash H s))"
      using t'(3) by (simp add: unmodified_from_def)
    with st(2) skel_unmodified_subtree[OF _ node_at_ROOT this] obtain m s0 where
      s0: "tree_hash H s = tree_hash H s0" "subtree_at H j m s0 (set (tree_nodes H t))" by auto
    have "m = n" using s(2) s0(2) node_at_unique by (auto simp: subtree_at_def)
    then have "s = s0"
      using s(2) s0 by (intro tree_hash_inj[OF nc, of n]) (auto simp: subtree_at_def)
    then have "d \<in> set (tree_nodes H t)" using s(3) s0(2) by (auto simp: subtree_at_def)
    with st(1) old show ?thesis by (simp add: stored_def list_all_iff storage_mset_def map_add_def)
  qed
qed

lemma leaf_in_contents:
  "wf_tree h t \<Longrightarrow> LeafData l \<in> set (tree_nodes H t) \<Longrightarrow> \<exists>k. below h i k \<and> contents i t k = Some l"
proof (induction t arbitrary: h i)
  case (PBin a b)
  then obtain m where h: "h = Suc m" "wf_tree m a" "wf_tree m b" by (cases h) auto
  from PBin.prems(2) consider "LeafData l \<in> set (tree_nodes H a)" | "LeafData l \<in> set (tree_nodes H b)" by auto
  then show ?case
  proof cases
    case 1
    with PBin.IH(1)[OF h(2) 1, of "2 * i"] obtain k where "below m (2 * i) k" "contents (2 * i) a k = Some l" by blast
    with child_contents(1)[OF h(2,3), of i k] show ?thesis by (auto simp: h(1) below_children simp del: contents.simps)
  next
    case 2
    with PBin.IH(2)[OF h(3) 2, of "2 * i + 1"] obtain k where "below m (2 * i + 1) k" "contents (2 * i + 1) b k = Some l" by blast
    with child_contents(2)[OF h(2,3), of i k] show ?thesis by (auto simp: h(1) below_children simp del: contents.simps)
  qed
next
  case (PEdge p b)
  then have p: "path_ok p" "pb_length p \<le> h" "wf_tree (h - pb_length p) b" "LeafData l \<in> set (tree_nodes H b)" by auto
  from PEdge.IH[OF p(3,4), of "bottom_of i p"] obtain k where
    k: "below (h - pb_length p) (bottom_of i p) k" "contents (bottom_of i p) b k = Some l" by blast
  from below_trans[OF bottom_below[OF p(1)] k(1)] p(2) k(2) show ?case by auto
qed (auto simp: below_def)

lemma contents_leaf_node: "contents i t k = Some l \<Longrightarrow> LeafData l \<in> set (tree_nodes H t)"
  by (induction i t rule: contents.induct) (auto split: if_splits)

lemma modified_leaves_ok:
  assumes "stored L H st t" "list_all (\<lambda>(k, l). leaf_ok L (LeafData l)) mods" "wf_tree0 251 t'"
    and "contents ROOT t' = modified_contents L mods (contents ROOT t)" "d \<in> set (tree_nodes H t')"
  shows "leaf_ok L d"
proof (cases d)
  case (LeafData l)
  have "wf_tree 251 t'" using assms(3,5) by (auto simp: wf_tree0_def)
  with leaf_in_contents[OF this, of l H ROOT] assms(5) LeafData obtain k where "contents ROOT t' k = Some l" by blast
  then consider "(k, l) \<in> set mods" | "contents ROOT t k = Some l"
    using assms(4) by (auto simp: modified_contents_def split: option.splits if_splits dest: map_of_SomeD)
  then show ?thesis
  proof cases
    case 1
    then show ?thesis using assms(2) LeafData by (auto simp: list_all_iff)
  next
    case 2
    with contents_leaf_node[OF 2, of H] assms(1) LeafData show ?thesis by (auto simp: stored_def list_all_iff)
  qed
qed simp_all

section \<open>The commitment\<close>

text \<open>C3: An update of a Patricia tree commits to the modified contents. Let the storage hold a well-formed tree, given by
  the hash of its root. Then the three phases, for any modifications of leaves, neither panic nor fail, and the new root
  hash is that of the well-formed tree whose contents are the old ones with the modifications, where setting a leaf to
  its empty value removes it. By \<open>tree_determined_by_contents\<close> there is only one such tree, so that the root does not
  depend on the order or the history of updates. (Hashes are field elements, and no non-empty tree has the hash 0,
  which the code takes for the empty tree.)\<close>

theorem tree_update_commits_to_modified_contents:
  assumes "wf_tree0 251 t" "stored L H st t" "hash_ok H" "root_ok H t" "mods_ok mods"
  shows "\<exists>f t'. tree_computation_flow L H mods st (tree_hash H t) cmp = Some f \<and> wf_tree0 251 t' \<and>
    contents ROOT t' = modified_contents L mods (contents ROOT t) \<and> ft_root_hash f = tree_hash H t'"
proof (cases "mods = []")
  case True
  then have "modified_contents L mods (contents ROOT t) = contents ROOT t" by (simp add: modified_contents_def fun_eq_iff)
  with True assms(1) show ?thesis by (auto simp: flow_unmodified)
next
  case False
  from flow_phases[OF assms False] show ?thesis by blast
qed

text \<open>C39: After an update the storage holds the new tree, if the nodes that the filled tree serializes are written to it:
  every node of the tree with the modified contents is in the storage under its own hash, those that the update did not
  touch included. So the next update finds a stored tree again. (The nodes of the two trees have no collisions, and
  leaves are stored under a prefix of their own.)\<close>

theorem updated_tree_is_stored:
  assumes "wf_tree0 251 t" "stored L H st t" "hash_ok H" "root_ok H t" "mods_ok mods"
    and "wf_tree0 251 t'" "contents ROOT t' = modified_contents L mods (contents ROOT t)"
    and "no_collision H (set (tree_nodes H t @ tree_nodes H t'))" "lf_prefix L \<noteq> prefix_to_bytes InnerNode"
    and "list_all (\<lambda>(k, l). leaf_ok L (LeafData l)) mods"
  shows "\<exists>f. tree_computation_flow L H mods st (tree_hash H t) cmp = Some f \<and> ft_root_hash f = tree_hash H t' \<and>
    stored L H (storage_mset st (filled_serialize L f)) t'"
proof (cases "mods = []")
  case True
  then have "t' = t" using assms(7) by (intro tree_determined_by_contents[OF assms(6,1), of ROOT]) (simp add: modified_contents_def fun_eq_iff)
  with True assms(2) show ?thesis by (simp add: flow_unmodified filled_serialize_def storage_mset_def)
next
  case False
  from flow_phases[OF assms(1-5) False] obtain u f t2 where f: "tree_computation_flow L H mods st (tree_hash H t) cmp = Some f"
    "wf_tree0 251 t2" "contents ROOT t2 = modified_contents L mods (contents ROOT t)" "ft_root_hash f = tree_hash H t2"
    "new_skeleton H (new_values L mods) t2 u"
    "unmodified_from (skel H 251 ROOT t (sorted_leaf_indices_new (map fst mods))) u"
    "map_of (ft_tree_map f) = new_nodes H (map_of u) ROOT t2" "hm_ok (ft_tree_map f)" by blast
  have t2: "t2 = t'" using f(3) assms(7) by (intro tree_determined_by_contents[OF f(2) assms(6), of ROOT]) simp
  have "stored L H (storage_mset st (filled_serialize L f)) t'"
  proof (cases "t' = PEmpty")
    case False
    then have "wf_tree 251 t'" using assms(6) by (simp add: wf_tree0_def)
    with assms f(5-8) t2 modified_leaves_ok[OF assms(2,10,6,7)] show ?thesis
      by (intro written_tree_stored[of L H st t t' "new_values L mods" u]) (auto simp: wf_tree0_def)
  qed (simp add: stored_def)
  with f t2 show ?thesis by blast
qed

text \<open>A tree with one leaf, stored, and an update that adds its sibling; a simple hash function.\<close>

definition sample_hash :: "felt_int node_data \<Rightarrow> hash_output" where
  "sample_hash = compute_node_hash_with_inner_hash_function (\<lambda>a b. (a + 2 * b + 1) mod felt_prime_int)
     (\<lambda>l. l mod felt_prime_int)"

definition sample_tree :: "felt_int ptree" where
  "sample_tree = PEdge \<lparr>pb_path = 0, pb_length = 251\<rparr> (PLeaf 7)"

definition sample_new_tree :: "felt_int ptree" where
  "sample_new_tree = PEdge \<lparr>pb_path = 0, pb_length = 250\<rparr> (PBin (PLeaf 7) (PLeaf 5))"

definition sample_tree_storage :: map_storage where
  "sample_tree_storage = storage_mset Map.empty (map (\<lambda>d. (db_key sample_leaf_ops (filled_of sample_hash d),
     node_serialize sample_leaf_ops d)) (tree_nodes sample_hash sample_tree))"

definition sample_mods :: "felt_int leaf_modifications" where
  "sample_mods = [(2 ^ 251 + 1, 5)]"

lemma sample_leaf: "felt_ok l \<Longrightarrow> leaf_ok sample_leaf_ops (LeafData l)"
  by (simp add: sample_leaf_ops_def)

lemma sample_small [simp]: "felt_ok 7" "felt_ok 5"
  by (simp_all add: felt_ok_def felt_prime_int_def)

lemma sample_prefix: "prefix_to_bytes StorageLeaf \<noteq> prefix_to_bytes InnerNode"
  by (simp add: bytes_of_string_def)

lemma sample_ok:
  "wf_tree0 251 sample_tree" "stored sample_leaf_ops sample_hash sample_tree_storage sample_tree" "hash_ok sample_hash"
  "root_ok sample_hash sample_tree" "mods_ok sample_mods"
proof -
  show "wf_tree0 251 sample_tree" by (simp add: wf_tree0_def sample_tree_def path_ok_def)
  have "felt_ok (sample_hash d)" for d
    by (cases d) (simp_all add: sample_hash_def felt_ok_def felt_prime_int_def)
  then show "hash_ok sample_hash" by (simp add: hash_ok_def)
  show "root_ok sample_hash sample_tree"
    by (simp add: root_ok_def sample_tree_def sample_hash_def felt_prime_int_def ROOT_OF_EMPTY_TREE_def)
  show "mods_ok sample_mods" by (simp add: mods_ok_def sample_mods_def below_def ROOT_def)
  show "stored sample_leaf_ops sample_hash sample_tree_storage sample_tree"
    using sample_prefix sample_leaf[of 7]
    by (simp add: stored_def sample_tree_def sample_tree_storage_def storage_mset_def db_key_def filled_of_def create_db_key_inj
      sample_leaf_ops_def del: prefix_to_bytes.simps)
qed

theorem tree_update_commits_to_modified_contents_witness:
  "\<exists>f t'. tree_computation_flow sample_leaf_ops sample_hash sample_mods sample_tree_storage
      (tree_hash sample_hash sample_tree) True = Some f \<and> wf_tree0 251 t' \<and>
    contents ROOT t' = modified_contents sample_leaf_ops sample_mods (contents ROOT sample_tree) \<and>
    ft_root_hash f = tree_hash sample_hash t'"
  by (rule tree_update_commits_to_modified_contents[OF sample_ok])

theorem updated_tree_is_stored_witness:
  "\<exists>f. tree_computation_flow sample_leaf_ops sample_hash sample_mods sample_tree_storage
      (tree_hash sample_hash sample_tree) True = Some f \<and> ft_root_hash f = 269 \<and>
    stored sample_leaf_ops sample_hash (storage_mset sample_tree_storage (filled_serialize sample_leaf_ops f)) sample_new_tree"
proof -
  have wf: "wf_tree0 251 sample_new_tree" by (simp add: wf_tree0_def sample_new_tree_def path_ok_def)
  have contents: "contents ROOT sample_new_tree = modified_contents sample_leaf_ops sample_mods (contents ROOT sample_tree)"
    by (auto simp: sample_new_tree_def sample_tree_def sample_mods_def bottom_of_def ROOT_def modified_contents_def
      fun_eq_iff sample_leaf_ops_def)
  have collision: "no_collision sample_hash (set (tree_nodes sample_hash sample_tree @ tree_nodes sample_hash sample_new_tree))"
    by (simp add: no_collision_def sample_new_tree_def sample_tree_def sample_hash_def felt_prime_int_def)
  have prefix: "lf_prefix sample_leaf_ops \<noteq> prefix_to_bytes InnerNode"
    using sample_prefix by (simp add: sample_leaf_ops_def del: prefix_to_bytes.simps)
  have leaves: "list_all (\<lambda>(k, l). leaf_ok sample_leaf_ops (LeafData l)) sample_mods"
    using sample_leaf[of 5] by (simp add: sample_mods_def)
  have "tree_hash sample_hash sample_new_tree = 269"
    by (simp add: sample_new_tree_def sample_hash_def felt_prime_int_def)
  with updated_tree_is_stored[OF sample_ok wf contents collision prefix leaves, of True] show ?thesis by simp
qed

text \<open>The previous leaves that are returned with the original skeleton are the values of the modified leaves in the
  stored tree, the default value for leaves that are not in it; no other leaf is returned. The skeleton is that of the
  stored tree with the modified leaves open.\<close>

theorem previous_leaves_are_those_of_stored_tree:
  assumes "wf_tree0 251 t" "stored L H st t" "hash_ok H" "root_ok H t"
    and "leaves_ok 251 ROOT ks" "ks \<noteq> []" "\<not> cmp \<or> set ks \<subseteq> dom (map_of mods)"
  shows "\<exists>os leaves. create_and_get_previous_leaves L st (tree_hash H t) ks cmp mods = Some (Inr (os, leaves)) \<and>
    hm_ok leaves \<and> map_of leaves = previous_leaves_at L (contents ROOT t) ks \<and>
    map_of (os_nodes os) = skel H 251 ROOT t ks \<and> os_sorted_leaf_indices os = ks"
  using create_and_get_previous_leaves_skel[OF assms(1-6), of cmp mods] assms(7) by blast

theorem previous_leaves_are_those_of_stored_tree_witness:
  "\<exists>os leaves. create_and_get_previous_leaves sample_leaf_ops sample_tree_storage (tree_hash sample_hash sample_tree)
      [2 ^ 251, 2 ^ 251 + 1] False [] = Some (Inr (os, leaves)) \<and>
    map_of leaves (2 ^ 251) = Some 7 \<and> map_of leaves (2 ^ 251 + 1) = Some 0"
proof -
  have ks: "leaves_ok 251 ROOT [2 ^ 251, 2 ^ 251 + 1]" by (simp add: leaves_ok_def below_def ROOT_def)
  have "previous_leaves_at sample_leaf_ops (contents ROOT sample_tree) [2 ^ 251, 2 ^ 251 + 1] (2 ^ 251) = Some 7"
    "previous_leaves_at sample_leaf_ops (contents ROOT sample_tree) [2 ^ 251, 2 ^ 251 + 1] (2 ^ 251 + 1) = Some 0"
    by (simp_all add: previous_leaves_at_def previous_leaf_def sample_tree_def bottom_of_def ROOT_def sample_leaf_ops_def)
  with previous_leaves_are_those_of_stored_tree[OF sample_ok(1-4) ks, of False "[]"] show ?thesis by auto
qed

end
