(* ===== verification/Mempool_Types.thy ===== *)
theory Mempool_Types
  imports Ordered_Collections
begin

text \<open>
  The data the mempool works on: nonces and their increment
  (\<^verbatim>\<open>crates/starknet_api/src/core.rs\<close>), transaction references
  (\<^verbatim>\<open>crates/starknet_mempool/src/mempool.rs\<close>), the error type and the arguments of the requests
  (\<^verbatim>\<open>crates/starknet_mempool_types/src\<close>).

  Addresses, nonces and transaction hashes are field elements, represented by their canonical
  residue modulo the Starknet prime; they are compared by that residue. Of a transaction the
  mempool reads what the accessors of \<^verbatim>\<open>AccountTransaction\<close> return; the rest of it is
  \<open>tx_payload\<close>.
\<close>

section \<open>Field elements and nonces\<close>

type_synonym felt = nat
type_synonym contract_address = felt
type_synonym nonce = felt
type_synonym transaction_hash = felt
type_synonym tip = u64
type_synonym gas_price = u128

definition felt_prime :: nat where
  "felt_prime = 2 ^ 251 + 17 * 2 ^ 192 + 1"

lemma felt_prime_gt [simp]: "1 < felt_prime" "0 < felt_prime"
  by (simp_all add: felt_prime_def)

text \<open>\<open>None\<close> is the error \<^verbatim>\<open>OutOfRange\<close>.\<close>

definition try_increment :: "nonce \<Rightarrow> nonce option" where
  "try_increment n = (let incremented = (n + 1) mod felt_prime
     in if incremented = 0 then None else Some incremented)"

definition try_decrement :: "nonce \<Rightarrow> nonce option" where
  "try_decrement n = (if n = 0 then None else Some (n - 1))"

text \<open>The same function on binary integers, for evaluation.\<close>

lemma try_increment_code [code]:
  "try_increment n =
     (let i = (int n + 1) mod 3618502788666131213697322783095070105623107215331596699973092056135872020481
      in if i = 0 then None else Some (nat i))"
proof -
  have "(int n + 1) mod 3618502788666131213697322783095070105623107215331596699973092056135872020481 = int ((n + 1) mod felt_prime)"
    by (simp add: felt_prime_def zmod_int add.commute)
  then show ?thesis by (simp add: try_increment_def Let_def del: of_nat_mod)
qed

lemma try_increment_Some [simp]: "n + 1 < felt_prime \<Longrightarrow> try_increment n = Some (n + 1)"
  by (simp add: try_increment_def)

lemma try_increment_eq:
  "n < felt_prime \<Longrightarrow> try_increment n = (if n + 1 = felt_prime then None else Some (n + 1))"
  by (cases "n + 1 = felt_prime") (simp_all add: try_increment_def)

lemma try_decrement_increment:
  "n < felt_prime \<Longrightarrow> try_increment n = Some m \<Longrightarrow> try_decrement m = Some n"
  by (auto simp: try_increment_eq try_decrement_def split: if_splits)

section \<open>Transactions, errors and requests\<close>

record account_transaction =
  tx_contract_address :: contract_address
  tx_nonce :: nonce
  tx_tx_hash :: transaction_hash
  tx_tip :: tip
  tx_max_price_per_unit :: gas_price
  tx_payload :: nat

record transaction_reference =
  ref_address :: contract_address
  ref_nonce :: nonce
  ref_tx_hash :: transaction_hash
  ref_tip :: tip
  ref_max_l2_gas_price :: gas_price

definition tx_reference_new :: "account_transaction \<Rightarrow> transaction_reference" where
  "tx_reference_new tx = \<lparr>
     ref_address = tx_contract_address tx, ref_nonce = tx_nonce tx, ref_tx_hash = tx_tx_hash tx,
     ref_tip = tx_tip tx, ref_max_l2_gas_price = tx_max_price_per_unit tx\<rparr>"

lemma tx_reference_new_simps [simp]:
  "ref_address (tx_reference_new tx) = tx_contract_address tx"
  "ref_nonce (tx_reference_new tx) = tx_nonce tx"
  "ref_tx_hash (tx_reference_new tx) = tx_tx_hash tx"
  "ref_tip (tx_reference_new tx) = tx_tip tx"
  "ref_max_l2_gas_price (tx_reference_new tx) = tx_max_price_per_unit tx"
  by (simp_all add: tx_reference_new_def)

datatype mempool_error =
    DuplicateNonce contract_address nonce
  | DuplicateTransaction transaction_hash
  | NonceTooLarge nonce
  | NonceTooOld contract_address nonce
  | P2pPropagatorClientError transaction_hash
  | TransactionNotFound transaction_hash

record account_state =
  acc_address :: contract_address
  acc_nonce :: nonce

record add_transaction_args =
  arg_tx :: account_transaction
  arg_account_state :: account_state

text \<open>The block's nonces and hashes are iterated over: \<open>address_to_nonce\<close> is an association list
  with distinct keys, in the order the iteration happens to take.\<close>

record commit_block_args =
  arg_address_to_nonce :: "(contract_address \<times> nonce) list"
  arg_tx_hashes :: "transaction_hash list"

definition try_increment_nonce :: "nonce \<Rightarrow> mempool_error + nonce" where
  "try_increment_nonce n =
     (case try_increment n of None \<Rightarrow> Inl (NonceTooLarge n) | Some m \<Rightarrow> Inr m)"

lemma try_increment_nonce_Inr [simp]: "n + 1 < felt_prime \<Longrightarrow> try_increment_nonce n = Inr (n + 1)"
  by (simp add: try_increment_nonce_def)

end
