(* ===== verification/Transaction_Pool.thy ===== *)
theory Transaction_Pool
  imports Mempool_Types
begin

text \<open>
  \<^verbatim>\<open>crates/starknet_mempool/src/transaction_pool.rs\<close>: all transactions of the mempool, by hash
  (\<open>hash_to_tx\<close>, the field \<^verbatim>\<open>tx_pool\<close>) and by account and nonce (\<open>txs_by_account\<close>). The
  documented invariant of the struct is \<open>pool_inv\<close>; a panic of the source (\<open>None\<close>) is a breach of
  it. \<open>pool_txs\<close> abstracts the pool to the set of its transactions.
\<close>

section \<open>The account index\<close>

type_synonym account_transaction_index =
  "contract_address \<rightharpoonup> (nonce \<times> transaction_reference) list"

definition ati_insert ::
    "account_transaction_index \<Rightarrow> transaction_reference
      \<Rightarrow> account_transaction_index \<times> transaction_reference option" where
  "ati_insert idx tx =
     (let account_txs = (case idx (ref_address tx) of None \<Rightarrow> [] | Some m \<Rightarrow> m)
      in (idx(ref_address tx \<mapsto> btm_insert (ref_nonce tx) tx account_txs),
          map_of account_txs (ref_nonce tx)))"

definition ati_remove ::
    "account_transaction_index \<Rightarrow> transaction_reference
      \<Rightarrow> account_transaction_index \<times> transaction_reference option" where
  "ati_remove idx tx =
     (case idx (ref_address tx) of
        None \<Rightarrow> (idx, None)
      | Some account_txs \<Rightarrow>
         (let removed_tx = map_of account_txs (ref_nonce tx);
              account_txs' = btm_remove (ref_nonce tx) account_txs
          in (if removed_tx \<noteq> None \<and> account_txs' = []
              then idx(ref_address tx := None)
              else idx(ref_address tx \<mapsto> account_txs'), removed_tx)))"

definition ati_get ::
    "account_transaction_index \<Rightarrow> contract_address \<Rightarrow> nonce \<Rightarrow> transaction_reference option" where
  "ati_get idx address n =
     (case idx address of None \<Rightarrow> None | Some account_txs \<Rightarrow> map_of account_txs n)"

definition ati_account_txs_sorted_by_nonce ::
    "account_transaction_index \<Rightarrow> contract_address \<Rightarrow> transaction_reference list" where
  "ati_account_txs_sorted_by_nonce idx address =
     (case idx address of None \<Rightarrow> [] | Some account_txs \<Rightarrow> map snd account_txs)"

definition ati_remove_up_to_nonce ::
    "account_transaction_index \<Rightarrow> contract_address \<Rightarrow> nonce
      \<Rightarrow> account_transaction_index \<times> transaction_reference list" where
  "ati_remove_up_to_nonce idx address n =
     (case idx address of
        None \<Rightarrow> (idx, [])
      | Some account_txs \<Rightarrow>
         (let (lower, higher_or_equal) = bts_split_off fst n account_txs
          in (if higher_or_equal = [] then idx(address := None)
              else idx(address \<mapsto> higher_or_equal), map snd lower)))"

definition ati_contains :: "account_transaction_index \<Rightarrow> contract_address \<Rightarrow> bool" where
  "ati_contains idx address \<longleftrightarrow> idx address \<noteq> None"

section \<open>The pool\<close>

record transaction_pool =
  hash_to_tx :: "transaction_hash \<rightharpoonup> account_transaction"
  txs_by_account :: account_transaction_index
  pool_n_txs :: nat

definition pool_empty :: transaction_pool where
  "pool_empty = \<lparr>hash_to_tx = Map.empty, txs_by_account = Map.empty, pool_n_txs = 0\<rparr>"

definition capacity_add :: "transaction_pool \<Rightarrow> transaction_pool" where
  "capacity_add p = p\<lparr>pool_n_txs := pool_n_txs p + 1\<rparr>"

definition capacity_remove :: "transaction_pool \<Rightarrow> transaction_pool option" where
  "capacity_remove p =
     (if pool_n_txs p = 0 then None else Some (p\<lparr>pool_n_txs := pool_n_txs p - 1\<rparr>))"

definition pool_insert ::
    "transaction_pool \<Rightarrow> account_transaction \<Rightarrow> (transaction_pool \<times> (mempool_error + unit)) option" where
  "pool_insert p tx =
     (let tx_reference = tx_reference_new tx; tx_hash = ref_tx_hash tx_reference
      in if hash_to_tx p tx_hash \<noteq> None then Some (p, Inl (DuplicateTransaction tx_hash))
         else (let (idx, unexpected_existing_tx) = ati_insert (txs_by_account p) tx_reference
               in if unexpected_existing_tx \<noteq> None then None
                  else Some (capacity_add (p\<lparr>hash_to_tx := (hash_to_tx p)(tx_hash \<mapsto> tx),
                               txs_by_account := idx\<rparr>), Inr ())))"

definition pool_remove ::
    "transaction_pool \<Rightarrow> transaction_hash
      \<Rightarrow> (transaction_pool \<times> (mempool_error + account_transaction)) option" where
  "pool_remove p tx_hash =
     (case hash_to_tx p tx_hash of
        None \<Rightarrow> Some (p, Inl (TransactionNotFound tx_hash))
      | Some tx \<Rightarrow>
         (let (idx, removed) = ati_remove (txs_by_account p) (tx_reference_new tx)
          in if removed = None then None
             else do {
               p' \<leftarrow> capacity_remove (p\<lparr>hash_to_tx := (hash_to_tx p)(tx_hash := None),
                        txs_by_account := idx\<rparr>);
               Some (p', Inr tx) }))"

fun pool_remove_refs ::
    "transaction_pool \<Rightarrow> transaction_reference list \<Rightarrow> transaction_pool option" where
  "pool_remove_refs p [] = Some p"
| "pool_remove_refs p (r # rs) =
     (if hash_to_tx p (ref_tx_hash r) = None then None
      else do {
        p' \<leftarrow> capacity_remove (p\<lparr>hash_to_tx := (hash_to_tx p)(ref_tx_hash r := None)\<rparr>);
        pool_remove_refs p' rs })"

definition pool_remove_up_to_nonce ::
    "transaction_pool \<Rightarrow> contract_address \<Rightarrow> nonce \<Rightarrow> transaction_pool option" where
  "pool_remove_up_to_nonce p address n =
     (let (idx, removed_txs) = ati_remove_up_to_nonce (txs_by_account p) address n
      in pool_remove_refs (p\<lparr>txs_by_account := idx\<rparr>) removed_txs)"

definition account_txs_sorted_by_nonce ::
    "transaction_pool \<Rightarrow> contract_address \<Rightarrow> transaction_reference list" where
  "account_txs_sorted_by_nonce p address =
     ati_account_txs_sorted_by_nonce (txs_by_account p) address"

definition get_by_tx_hash ::
    "transaction_pool \<Rightarrow> transaction_hash \<Rightarrow> mempool_error + account_transaction" where
  "get_by_tx_hash p tx_hash =
     (case hash_to_tx p tx_hash of None \<Rightarrow> Inl (TransactionNotFound tx_hash) | Some tx \<Rightarrow> Inr tx)"

definition get_by_address_and_nonce ::
    "transaction_pool \<Rightarrow> contract_address \<Rightarrow> nonce \<Rightarrow> transaction_reference option" where
  "get_by_address_and_nonce p address n = ati_get (txs_by_account p) address n"

definition get_next_eligible_tx ::
    "transaction_pool \<Rightarrow> account_state \<Rightarrow> mempool_error + transaction_reference option" where
  "get_next_eligible_tx p st =
     (case try_increment_nonce (acc_nonce st) of
        Inl e \<Rightarrow> Inl e
      | Inr next_nonce \<Rightarrow> Inr (get_by_address_and_nonce p (acc_address st) next_nonce))"

definition contains_account :: "transaction_pool \<Rightarrow> contract_address \<Rightarrow> bool" where
  "contains_account p address = ati_contains (txs_by_account p) address"

section \<open>The index as a partial function\<close>

definition ati_wf :: "account_transaction_index \<Rightarrow> bool" where
  "ati_wf idx \<longleftrightarrow> (\<forall>a m. idx a = Some m \<longrightarrow> m \<noteq> [] \<and> increasing fst m)"

lemma ati_insert_effect:
  assumes "ati_wf idx" "ati_insert idx r = (idx', old)"
  shows "ati_wf idx'" "old = ati_get idx (ref_address r) (ref_nonce r)"
    "ati_get idx' a n = (if a = ref_address r \<and> n = ref_nonce r then Some r else ati_get idx a n)"
proof -
  define m where "m = (case idx (ref_address r) of None \<Rightarrow> [] | Some m \<Rightarrow> m)"
  with assms have eq: "idx' = idx(ref_address r \<mapsto> btm_insert (ref_nonce r) r m)"
    "old = map_of m (ref_nonce r)" and inc: "increasing fst m"
    by (auto simp: ati_insert_def ati_wf_def Let_def split: option.splits)
  then show "ati_wf idx'" using assms(1) by (auto simp: ati_wf_def)
  have m: "ati_get idx (ref_address r) n = map_of m n" for n
    by (auto simp: ati_get_def m_def split: option.splits)
  with eq(2) show "old = ati_get idx (ref_address r) (ref_nonce r)" by simp
  show "ati_get idx' a n = (if a = ref_address r \<and> n = ref_nonce r then Some r else ati_get idx a n)"
    using m[of n] inc by (cases "a = ref_address r") (auto simp: eq(1) ati_get_def)
qed

lemma ati_remove_effect:
  assumes "ati_wf idx" "ati_remove idx r = (idx', old)" "old \<noteq> None"
  shows "ati_wf idx'" "old = ati_get idx (ref_address r) (ref_nonce r)"
    "ati_get idx' a n = (if a = ref_address r \<and> n = ref_nonce r then None else ati_get idx a n)"
proof -
  from assms(2,3) obtain m where m: "idx (ref_address r) = Some m" "old = map_of m (ref_nonce r)"
    "idx' = (if btm_remove (ref_nonce r) m = [] then idx(ref_address r := None)
       else idx(ref_address r \<mapsto> btm_remove (ref_nonce r) m))"
    by (auto simp: ati_remove_def Let_def split: option.splits if_splits)
  from m(1) assms(1) have inc: "increasing fst m" by (auto simp: ati_wf_def)
  with m(3) assms(1) show "ati_wf idx'" by (auto simp: ati_wf_def)
  from m show "old = ati_get idx (ref_address r) (ref_nonce r)" by (simp add: ati_get_def)
  have "map_of (btm_remove (ref_nonce r) m) n = (if n = ref_nonce r then None else map_of m n)"
    by simp
  then show "ati_get idx' a n =
      (if a = ref_address r \<and> n = ref_nonce r then None else ati_get idx a n)"
    using m by (cases "btm_remove (ref_nonce r) m = []") (auto simp: ati_get_def)
qed

lemma ati_remove_up_to_nonce_effect:
  assumes "ati_wf idx" "ati_remove_up_to_nonce idx address k = (idx', removed)"
  shows "ati_wf idx'"
    and "ati_get idx' a n = (if a = address \<and> n < k then None else ati_get idx a n)"
    and "set removed = {r. \<exists>n < k. ati_get idx address n = Some r}"
    and "distinct (map ref_nonce removed) \<or> (\<exists>n r. ati_get idx address n = Some r \<and> ref_nonce r \<noteq> n)"
proof -
  have "ati_wf idx' \<and>
    ati_get idx' a n = (if a = address \<and> n < k then None else ati_get idx a n) \<and>
    set removed = {r. \<exists>n < k. ati_get idx address n = Some r} \<and>
    (distinct (map ref_nonce removed) \<or> (\<exists>n r. ati_get idx address n = Some r \<and> ref_nonce r \<noteq> n))"
  proof (cases "idx address")
    case None
    with assms show ?thesis by (simp add: ati_remove_up_to_nonce_def ati_get_def)
  next
    case (Some m)
    with assms(1) have inc: "increasing fst m" by (auto simp: ati_wf_def)
    let ?hi = "filter (\<lambda>x. k \<le> fst x) m" and ?lo = "filter (\<lambda>x. fst x < k) m"
    from assms(2) Some have idx': "idx' = (if ?hi = [] then idx(address := None) else idx(address \<mapsto> ?hi))"
      and rem: "removed = map snd ?lo"
      by (auto simp: ati_remove_up_to_nonce_def bts_split_off_filter[OF inc])
    have hi: "map_of ?hi n = (if n < k then None else map_of m n)" for n
      by (induction m) auto
    show ?thesis
    proof (intro conjI)
      show "ati_wf idx'"
        using assms(1) increasing_filter[OF inc] by (auto simp: idx' ati_wf_def)
      show "ati_get idx' a n = (if a = address \<and> n < k then None else ati_get idx a n)"
        using hi[of n] Some by (cases "?hi = []") (auto simp: idx' ati_get_def)
      show "set removed = {r. \<exists>n < k. ati_get idx address n = Some r}"
        using increasing_fst_map_of[OF inc] Some by (force simp: rem ati_get_def)
      show "distinct (map ref_nonce removed) \<or> (\<exists>n r. ati_get idx address n = Some r \<and> ref_nonce r \<noteq> n)"
      proof (rule disjCI)
        assume "\<nexists>n r. ati_get idx address n = Some r \<and> ref_nonce r \<noteq> n"
        then have "map ref_nonce removed = map fst ?lo"
          using increasing_fst_map_of[OF inc] Some by (force simp: rem ati_get_def)
        then show "distinct (map ref_nonce removed)"
          using increasing_distinct_keys[OF increasing_filter[OF inc]] by simp
      qed
    qed
  qed
  then show "ati_wf idx'"
    "ati_get idx' a n = (if a = address \<and> n < k then None else ati_get idx a n)"
    "set removed = {r. \<exists>n < k. ati_get idx address n = Some r}"
    "distinct (map ref_nonce removed) \<or> (\<exists>n r. ati_get idx address n = Some r \<and> ref_nonce r \<noteq> n)"
    by blast+
qed

section \<open>The pool's invariant\<close>

definition pool_inv :: "transaction_pool \<Rightarrow> bool" where
  "pool_inv p \<longleftrightarrow>
     ati_wf (txs_by_account p) \<and>
     (\<forall>h tx. hash_to_tx p h = Some tx \<longrightarrow> tx_tx_hash tx = h \<and>
        get_by_address_and_nonce p (tx_contract_address tx) (tx_nonce tx) = Some (tx_reference_new tx)) \<and>
     (\<forall>a n r. get_by_address_and_nonce p a n = Some r \<longrightarrow> ref_address r = a \<and> ref_nonce r = n \<and>
        (\<exists>tx. hash_to_tx p (ref_tx_hash r) = Some tx \<and> tx_reference_new tx = r)) \<and>
     finite (dom (hash_to_tx p)) \<and> pool_n_txs p = card (dom (hash_to_tx p))"

definition pool_txs :: "transaction_pool \<Rightarrow> account_transaction set" where
  "pool_txs p = ran (hash_to_tx p)"

lemma pool_invD:
  assumes "pool_inv p"
  shows "ati_wf (txs_by_account p)"
    and "hash_to_tx p h = Some tx \<Longrightarrow> tx_tx_hash tx = h"
    and "hash_to_tx p h = Some tx \<Longrightarrow>
      get_by_address_and_nonce p (tx_contract_address tx) (tx_nonce tx) = Some (tx_reference_new tx)"
    and "get_by_address_and_nonce p a n = Some r \<Longrightarrow> ref_address r = a"
    and "get_by_address_and_nonce p a n = Some r \<Longrightarrow> ref_nonce r = n"
    and "get_by_address_and_nonce p a n = Some r \<Longrightarrow>
      \<exists>tx. hash_to_tx p (ref_tx_hash r) = Some tx \<and> tx_reference_new tx = r"
    and "finite (dom (hash_to_tx p))" "pool_n_txs p = card (dom (hash_to_tx p))"
  using assms unfolding pool_inv_def by blast+

lemma pool_invI:
  assumes "ati_wf (txs_by_account p)"
    and "\<And>h tx. hash_to_tx p h = Some tx \<Longrightarrow> tx_tx_hash tx = h \<and>
      get_by_address_and_nonce p (tx_contract_address tx) (tx_nonce tx) = Some (tx_reference_new tx)"
    and "\<And>a n r. get_by_address_and_nonce p a n = Some r \<Longrightarrow> ref_address r = a \<and> ref_nonce r = n \<and>
      (\<exists>tx. hash_to_tx p (ref_tx_hash r) = Some tx \<and> tx_reference_new tx = r)"
    and "finite (dom (hash_to_tx p))" "pool_n_txs p = card (dom (hash_to_tx p))"
  shows "pool_inv p"
  using assms unfolding pool_inv_def by blast

lemma pool_inv_empty: "pool_inv pool_empty"
  by (simp add: pool_inv_def pool_empty_def get_by_address_and_nonce_def ati_get_def ati_wf_def)

lemma pool_refs_unique:
  assumes "pool_inv p" "get_by_address_and_nonce p a n = Some r"
    "get_by_address_and_nonce p b m = Some s" "ref_tx_hash r = ref_tx_hash s"
  shows "r = s"
  using pool_invD(6)[OF assms(1,2)] pool_invD(6)[OF assms(1,3)] assms(4) by auto

lemma pool_txs_mem: "pool_inv p \<Longrightarrow> tx \<in> pool_txs p \<longleftrightarrow> hash_to_tx p (tx_tx_hash tx) = Some tx"
  by (auto simp: pool_txs_def ran_def dest: pool_invD(2))

lemma pool_insert_ok:
  assumes inv: "pool_inv p" and fresh: "hash_to_tx p (tx_tx_hash tx) = None"
    and free: "get_by_address_and_nonce p (tx_contract_address tx) (tx_nonce tx) = None"
  obtains p' where "pool_insert p tx = Some (p', Inr ())" "pool_inv p'"
    "hash_to_tx p' = (hash_to_tx p)(tx_tx_hash tx \<mapsto> tx)"
    "\<And>a n. get_by_address_and_nonce p' a n =
      (if a = tx_contract_address tx \<and> n = tx_nonce tx then Some (tx_reference_new tx)
       else get_by_address_and_nonce p a n)"
proof -
  obtain idx old where ins: "ati_insert (txs_by_account p) (tx_reference_new tx) = (idx, old)" by force
  note eff = ati_insert_effect[OF pool_invD(1)[OF inv] ins]
  define p' where "p' = p\<lparr>hash_to_tx := (hash_to_tx p)(tx_tx_hash tx \<mapsto> tx), txs_by_account := idx,
    pool_n_txs := pool_n_txs p + 1\<rparr>"
  have get: "get_by_address_and_nonce p' a n =
      (if a = tx_contract_address tx \<and> n = tx_nonce tx then Some (tx_reference_new tx)
       else get_by_address_and_nonce p a n)" for a n
    using eff(3) by (simp add: p'_def get_by_address_and_nonce_def)
  have "dom (hash_to_tx p') = insert (tx_tx_hash tx) (dom (hash_to_tx p))"
    "tx_tx_hash tx \<notin> dom (hash_to_tx p)"
    using fresh by (auto simp: p'_def)
  then have card: "finite (dom (hash_to_tx p'))" "pool_n_txs p' = card (dom (hash_to_tx p'))"
    using pool_invD(7,8)[OF inv] fresh by (auto simp: p'_def)
  have hash: "hash_to_tx p' h = (if h = tx_tx_hash tx then Some tx else hash_to_tx p h)" for h
    by (simp add: p'_def)
  have "pool_inv p'"
  proof (rule pool_invI[OF _ _ _ card])
    show "ati_wf (txs_by_account p')" using eff(1) by (simp add: p'_def)
    show "tx_tx_hash t = h \<and> get_by_address_and_nonce p' (tx_contract_address t) (tx_nonce t) =
        Some (tx_reference_new t)" if "hash_to_tx p' h = Some t" for h t
      using that free pool_invD(2,3)[OF inv, of h t] by (auto simp: hash get split: if_splits)
    show "ref_address r = a \<and> ref_nonce r = n \<and>
        (\<exists>t. hash_to_tx p' (ref_tx_hash r) = Some t \<and> tx_reference_new t = r)"
      if "get_by_address_and_nonce p' a n = Some r" for a n r
      using that fresh pool_invD(4-6)[OF inv, of a n r] by (auto simp: hash get split: if_splits)
  qed
  moreover have "pool_insert p tx = Some (p', Inr ())"
    using fresh free eff(2) ins
    by (simp add: pool_insert_def capacity_add_def p'_def get_by_address_and_nonce_def)
  ultimately show ?thesis using that get by (simp add: p'_def)
qed

lemma pool_remove_ok:
  assumes inv: "pool_inv p" and mem: "hash_to_tx p h = Some tx"
  obtains p' where "pool_remove p h = Some (p', Inr tx)" "pool_inv p'"
    "hash_to_tx p' = (hash_to_tx p)(h := None)"
    "\<And>a n. get_by_address_and_nonce p' a n =
      (if a = tx_contract_address tx \<and> n = tx_nonce tx then None else get_by_address_and_nonce p a n)"
proof -
  obtain idx old where rem: "ati_remove (txs_by_account p) (tx_reference_new tx) = (idx, old)" by force
  have old: "old = Some (tx_reference_new tx)"
  proof -
    from pool_invD(3)[OF inv mem] have "ati_get (txs_by_account p) (tx_contract_address tx) (tx_nonce tx) =
      Some (tx_reference_new tx)" by (simp add: get_by_address_and_nonce_def)
    with rem show ?thesis
      by (auto simp: ati_remove_def ati_get_def Let_def split: option.splits if_splits)
  qed
  then have "old \<noteq> None" by simp
  note eff = ati_remove_effect[OF pool_invD(1)[OF inv] rem this]
  define p' where "p' = p\<lparr>hash_to_tx := (hash_to_tx p)(h := None), txs_by_account := idx,
    pool_n_txs := pool_n_txs p - 1\<rparr>"
  have get: "get_by_address_and_nonce p' a n =
      (if a = tx_contract_address tx \<and> n = tx_nonce tx then None
       else get_by_address_and_nonce p a n)" for a n
    using eff(3) by (simp add: p'_def get_by_address_and_nonce_def)
  have hash: "hash_to_tx p' h' = (if h' = h then None else hash_to_tx p h')" for h'
    by (simp add: p'_def)
  have dom: "h \<in> dom (hash_to_tx p)" "dom (hash_to_tx p') = dom (hash_to_tx p) - {h}"
    using mem by (auto simp: p'_def)
  then have card: "finite (dom (hash_to_tx p'))" "pool_n_txs p' = card (dom (hash_to_tx p'))"
    using pool_invD(7,8)[OF inv] by (auto simp: p'_def)
  have h: "h = tx_tx_hash tx" using pool_invD(2)[OF inv mem] by simp
  have "pool_inv p'"
  proof (rule pool_invI[OF _ _ _ card])
    show "ati_wf (txs_by_account p')" using eff(1) by (simp add: p'_def)
    show "tx_tx_hash t = h' \<and> get_by_address_and_nonce p' (tx_contract_address t) (tx_nonce t) =
        Some (tx_reference_new t)" if "hash_to_tx p' h' = Some t" for h' t
    proof -
      from that have t: "hash_to_tx p h' = Some t" "h' \<noteq> h" by (auto simp: hash split: if_splits)
      from pool_invD(2,3)[OF inv t(1)] pool_invD(2,3)[OF inv mem] t(2) show ?thesis
        by (auto simp: get dest!: arg_cong[where f = ref_tx_hash])
    qed
    show "ref_address r = a \<and> ref_nonce r = n \<and>
        (\<exists>t. hash_to_tx p' (ref_tx_hash r) = Some t \<and> tx_reference_new t = r)"
      if "get_by_address_and_nonce p' a n = Some r" for a n r
      using that mem h pool_invD(4-6)[OF inv, of a n r] by (auto simp: hash get split: if_splits)
  qed
  moreover have "pool_n_txs p \<noteq> 0"
    using pool_invD(7,8)[OF inv] dom(1) by auto
  ultimately show ?thesis
    using that get rem mem old by (simp add: pool_remove_def capacity_remove_def p'_def)
qed

lemma pool_remove_missing: "hash_to_tx p h = None \<Longrightarrow> pool_remove p h = Some (p, Inl (TransactionNotFound h))"
  by (simp add: pool_remove_def)

lemma pool_remove_refs_ok:
  assumes "distinct (map ref_tx_hash rs)" "\<forall>r \<in> set rs. hash_to_tx p (ref_tx_hash r) \<noteq> None"
    and "finite (dom (hash_to_tx p))" "pool_n_txs p = card (dom (hash_to_tx p))"
  shows "\<exists>p'. pool_remove_refs p rs = Some p' \<and> txs_by_account p' = txs_by_account p \<and>
    hash_to_tx p' = hash_to_tx p |` (- ref_tx_hash ` set rs) \<and> pool_n_txs p' = card (dom (hash_to_tx p'))"
  using assms
proof (induction rs arbitrary: p)
  case (Cons r rs)
  let ?m = "(hash_to_tx p)(ref_tx_hash r := None)"
  have "ref_tx_hash r \<in> dom (hash_to_tx p)" using Cons.prems(2) by auto
  then have n: "pool_n_txs p \<noteq> 0" "pool_n_txs p - 1 = card (dom ?m)"
    using Cons.prems(3,4) by auto
  let ?p = "p\<lparr>hash_to_tx := ?m, pool_n_txs := pool_n_txs p - 1\<rparr>"
  have "\<exists>p'. pool_remove_refs ?p rs = Some p' \<and> txs_by_account p' = txs_by_account ?p \<and>
    hash_to_tx p' = hash_to_tx ?p |` (- ref_tx_hash ` set rs) \<and> pool_n_txs p' = card (dom (hash_to_tx p'))"
  proof (rule Cons.IH)
    show "distinct (map ref_tx_hash rs)" using Cons.prems(1) by simp
    show "\<forall>r' \<in> set rs. hash_to_tx ?p (ref_tx_hash r') \<noteq> None"
      using Cons.prems(1,2) by (force simp: image_iff)
    show "finite (dom (hash_to_tx ?p))" using Cons.prems(3) by simp
    show "pool_n_txs ?p = card (dom (hash_to_tx ?p))" using n(2) by simp
  qed
  moreover have "hash_to_tx ?p |` (- ref_tx_hash ` set rs) = hash_to_tx p |` (- ref_tx_hash ` set (r # rs))"
    by (auto simp: restrict_map_def fun_eq_iff)
  ultimately show ?case
    using Cons.prems(2) n(1) by (auto simp: capacity_remove_def)
qed (simp add: restrict_map_def)

lemma pool_remove_up_to_nonce_ok:
  assumes inv: "pool_inv p"
  obtains p' where "pool_remove_up_to_nonce p address k = Some p'" "pool_inv p'"
    "\<And>a n. get_by_address_and_nonce p' a n =
      (if a = address \<and> n < k then None else get_by_address_and_nonce p a n)"
    "pool_txs p' = {tx \<in> pool_txs p. \<not> (tx_contract_address tx = address \<and> tx_nonce tx < k)}"
proof -
  obtain idx removed where rem:
    "ati_remove_up_to_nonce (txs_by_account p) address k = (idx, removed)" by force
  note eff = ati_remove_up_to_nonce_effect[OF pool_invD(1)[OF inv] rem]
  have memb: "r \<in> set removed \<longleftrightarrow> (\<exists>n < k. get_by_address_and_nonce p address n = Some r)" for r
    using eff(3) by (auto simp: get_by_address_and_nonce_def)
  have "inj_on ref_tx_hash (set removed)"
  proof (rule inj_onI)
    fix r s assume "r \<in> set removed" "s \<in> set removed" "ref_tx_hash r = ref_tx_hash s"
    then show "r = s" using pool_refs_unique[OF inv] by (auto simp: memb)
  qed
  moreover have "distinct removed"
    using eff(4) pool_invD(5)[OF inv]
    by (auto simp: get_by_address_and_nonce_def distinct_map)
  ultimately have "\<exists>p'. pool_remove_refs (p\<lparr>txs_by_account := idx\<rparr>) removed = Some p' \<and>
    txs_by_account p' = txs_by_account (p\<lparr>txs_by_account := idx\<rparr>) \<and>
    hash_to_tx p' = hash_to_tx (p\<lparr>txs_by_account := idx\<rparr>) |` (- ref_tx_hash ` set removed) \<and>
    pool_n_txs p' = card (dom (hash_to_tx p'))"
    using pool_invD(7,8)[OF inv]
    by (intro pool_remove_refs_ok) (auto simp: distinct_map memb dest!: pool_invD(6)[OF inv])
  then obtain p' where p': "pool_remove_refs (p\<lparr>txs_by_account := idx\<rparr>) removed = Some p'"
    "txs_by_account p' = idx" "hash_to_tx p' = hash_to_tx p |` (- ref_tx_hash ` set removed)"
    "pool_n_txs p' = card (dom (hash_to_tx p'))"
    by auto
  have get: "get_by_address_and_nonce p' a n =
      (if a = address \<and> n < k then None else get_by_address_and_nonce p a n)" for a n
    using eff(2) by (simp add: get_by_address_and_nonce_def p'(2))
  have gone: "h \<in> ref_tx_hash ` set removed \<longleftrightarrow> tx_contract_address t = address \<and> tx_nonce t < k"
    if "hash_to_tx p h = Some t" for h t
  proof
    assume "h \<in> ref_tx_hash ` set removed"
    then obtain r n where "h = ref_tx_hash r" "n < k" "get_by_address_and_nonce p address n = Some r"
      by (auto simp: memb)
    with pool_invD(4-6)[OF inv, of address n r] that show "tx_contract_address t = address \<and> tx_nonce t < k"
      by auto
  next
    assume "tx_contract_address t = address \<and> tx_nonce t < k"
    with pool_invD(2,3)[OF inv that] show "h \<in> ref_tx_hash ` set removed"
      by (auto simp: memb image_iff intro!: bexI[of _ "tx_reference_new t"])
  qed
  have hash: "hash_to_tx p' h = Some t \<longleftrightarrow>
    hash_to_tx p h = Some t \<and> \<not> (tx_contract_address t = address \<and> tx_nonce t < k)" for h t
    using gone[of h t] by (auto simp: p'(3) restrict_map_def)
  have "pool_inv p'"
  proof (rule pool_invI)
    show "ati_wf (txs_by_account p')" using eff(1) by (simp add: p'(2))
    show "tx_tx_hash t = h \<and> get_by_address_and_nonce p' (tx_contract_address t) (tx_nonce t) =
        Some (tx_reference_new t)" if "hash_to_tx p' h = Some t" for h t
      using that pool_invD(2,3)[OF inv, of h t] by (auto simp: hash get)
    show "ref_address r = a \<and> ref_nonce r = n \<and>
        (\<exists>t. hash_to_tx p' (ref_tx_hash r) = Some t \<and> tx_reference_new t = r)"
      if "get_by_address_and_nonce p' a n = Some r" for a n r
      using that pool_invD(4-6)[OF inv, of a n r] by (auto simp: hash get split: if_splits)
    show "finite (dom (hash_to_tx p'))"
      using pool_invD(7)[OF inv] by (simp add: p'(3))
  qed (rule p'(4))
  moreover have "pool_txs p' = {tx \<in> pool_txs p. \<not> (tx_contract_address tx = address \<and> tx_nonce tx < k)}"
    by (auto simp: pool_txs_def ran_def hash)
  ultimately show ?thesis
    using that get p'(1) rem by (simp add: pool_remove_up_to_nonce_def)
qed

end
