(* ===== verification/Transaction_Queue.thy ===== *)
theory Transaction_Queue
  imports Mempool_Types "HOL-Library.Product_Lexorder"
begin

text \<open>
  \<^verbatim>\<open>crates/starknet_mempool/src/transaction_queue.rs\<close>: the transactions eligible for sequencing,
  at most one per account. Those that pay at least \<open>gas_price_threshold\<close> are in
  \<open>priority_queue\<close>, ordered by tip, the others in \<open>pending_queue\<close>, ordered by gas price; ties are
  broken by the transaction hash. \<open>queue_refs\<close> abstracts the queue to a set.
\<close>

section \<open>Model\<close>

definition priority_key :: "transaction_reference \<Rightarrow> tip \<times> transaction_hash" where
  "priority_key r = (ref_tip r, ref_tx_hash r)"

definition pending_key :: "transaction_reference \<Rightarrow> gas_price \<times> transaction_hash" where
  "pending_key r = (ref_max_l2_gas_price r, ref_tx_hash r)"

record transaction_queue =
  gas_price_threshold :: gas_price
  priority_queue :: "transaction_reference list"
  pending_queue :: "transaction_reference list"
  address_to_tx :: "contract_address \<rightharpoonup> transaction_reference"

definition queue_empty :: transaction_queue where
  "queue_empty = \<lparr>gas_price_threshold = 0, priority_queue = [], pending_queue = [],
     address_to_tx = Map.empty\<rparr>"

definition queue_insert :: "transaction_queue \<Rightarrow> transaction_reference \<Rightarrow> transaction_queue option" where
  "queue_insert q r =
     (if address_to_tx q (ref_address r) \<noteq> None then None
      else (let q1 = q\<lparr>address_to_tx := (address_to_tx q)(ref_address r \<mapsto> r)\<rparr>
            in if ref_max_l2_gas_price r < gas_price_threshold q1
               then (let (pending, inserted) = bts_insert pending_key r (pending_queue q1)
                     in if inserted then Some (q1\<lparr>pending_queue := pending\<rparr>) else None)
               else (let (priority, inserted) = bts_insert priority_key r (priority_queue q1)
                     in if inserted then Some (q1\<lparr>priority_queue := priority\<rparr>) else None)))"

text \<open>\<open>n\<close> times \<^verbatim>\<open>pop_last\<close>, dropping the \<^verbatim>\<open>None\<close> it returns on an empty set.\<close>

fun pop_last_n :: "nat \<Rightarrow> 'a list \<Rightarrow> 'a list \<times> 'a list" where
  "pop_last_n 0 q = (q, [])"
| "pop_last_n (Suc n) q =
     (if q = [] then pop_last_n n q
      else (let (q', popped) = pop_last_n n (butlast q) in (q', last q # popped)))"

fun remove_addresses ::
    "transaction_reference list \<Rightarrow> (contract_address \<rightharpoonup> transaction_reference)
      \<Rightarrow> (contract_address \<rightharpoonup> transaction_reference)" where
  "remove_addresses [] m = m"
| "remove_addresses (tx # txs) m = remove_addresses txs (m(ref_address tx := None))"

definition pop_ready_chunk ::
    "transaction_queue \<Rightarrow> nat \<Rightarrow> transaction_queue \<times> transaction_reference list" where
  "pop_ready_chunk q n =
     (let (priority, txs) = pop_last_n n (priority_queue q)
      in (q\<lparr>priority_queue := priority, address_to_tx := remove_addresses txs (address_to_tx q)\<rparr>, txs))"

definition iter_over_ready_txs :: "transaction_queue \<Rightarrow> transaction_reference list" where
  "iter_over_ready_txs q = rev (priority_queue q)"

definition get_nonce :: "transaction_queue \<Rightarrow> contract_address \<Rightarrow> nonce option" where
  "get_nonce q address = map_option ref_nonce (address_to_tx q address)"

definition queue_remove :: "transaction_queue \<Rightarrow> contract_address \<Rightarrow> transaction_queue \<times> bool" where
  "queue_remove q address =
     (case address_to_tx q address of
        None \<Rightarrow> (q, False)
      | Some r \<Rightarrow>
         (let q1 = q\<lparr>address_to_tx := (address_to_tx q)(address := None)\<rparr>;
              (priority, in_priority) = bts_remove priority_key (priority_key r) (priority_queue q1);
              q2 = q1\<lparr>priority_queue := priority\<rparr>
          in if in_priority then (q2, True)
             else (let (pending, in_pending) = bts_remove pending_key (pending_key r) (pending_queue q2)
                   in (q2\<lparr>pending_queue := pending\<rparr>, in_pending))))"

definition has_ready_txs :: "transaction_queue \<Rightarrow> bool" where
  "has_ready_txs q \<longleftrightarrow> priority_queue q \<noteq> []"

text \<open>\<^verbatim>\<open>tmp_split_tx\<close> has the threshold as its price and default values elsewhere; its key is
  the threshold and the hash 0.\<close>

definition promote_txs_to_priority :: "transaction_queue \<Rightarrow> gas_price \<Rightarrow> transaction_queue" where
  "promote_txs_to_priority q threshold =
     (let tmp_split_tx = \<lparr>ref_address = 0, ref_nonce = 0, ref_tx_hash = 0, ref_tip = 0,
                           ref_max_l2_gas_price = threshold\<rparr>;
          (pending, txs_over_threshold) =
             bts_split_off pending_key (pending_key tmp_split_tx) (pending_queue q)
      in q\<lparr>pending_queue := pending,
            priority_queue := bts_extend priority_key (priority_queue q) txs_over_threshold\<rparr>)"

fun remove_all_priority ::
    "transaction_reference list \<Rightarrow> transaction_reference list \<Rightarrow> transaction_reference list" where
  "remove_all_priority priority [] = priority"
| "remove_all_priority priority (tx # txs) =
     remove_all_priority (fst (bts_remove priority_key (priority_key tx) priority)) txs"

definition demote_txs_to_pending :: "transaction_queue \<Rightarrow> gas_price \<Rightarrow> transaction_queue" where
  "demote_txs_to_pending q threshold =
     (let txs_to_remove = filter (\<lambda>tx. ref_max_l2_gas_price tx < threshold) (priority_queue q)
      in q\<lparr>priority_queue := remove_all_priority (priority_queue q) txs_to_remove,
            pending_queue := bts_extend pending_key (pending_queue q) txs_to_remove\<rparr>)"

definition update_gas_price_threshold :: "transaction_queue \<Rightarrow> gas_price \<Rightarrow> transaction_queue" where
  "update_gas_price_threshold q threshold =
     (if threshold < gas_price_threshold q then promote_txs_to_priority q threshold
      else if gas_price_threshold q < threshold then demote_txs_to_pending q threshold
      else q)\<lparr>gas_price_threshold := threshold\<rparr>"

section \<open>Queues ordered by a key that determines the hash\<close>

text \<open>Both orders compare the hash last, so elements with equal keys have equal hashes; among
  references with distinct hashes the ordered set then behaves as a plain set.\<close>

locale hash_ordered_queue =
  fixes key :: "transaction_reference \<Rightarrow> 'k::linorder"
  assumes key_hash: "key r = key s \<Longrightarrow> ref_tx_hash r = ref_tx_hash s"
begin

lemma key_fresh: "ref_tx_hash r \<notin> ref_tx_hash ` S \<Longrightarrow> key r \<notin> key ` S"
  by (metis image_iff key_hash)

lemma insert_fresh:
  assumes "increasing key xs" "ref_tx_hash r \<notin> ref_tx_hash ` set xs" "bts_insert key r xs = (ys, b)"
  shows "b" "increasing key ys" "set ys = insert r (set xs)"
proof -
  from assms(2) have "key r \<notin> key ` set xs" by (rule key_fresh)
  with assms(1,3) show "b" "increasing key ys" "set ys = insert r (set xs)"
    using bts_insert_flag[of key xs r] bts_insert_set[of key xs r] bts_insert_increasing[of key xs r]
    by auto
qed

lemma remove_member:
  assumes "increasing key xs" "r \<in> set xs" "bts_remove key (key r) xs = (ys, b)"
  shows "b" "increasing key ys" "set ys = set xs - {r}"
  using assms bts_remove_flag[of key "key r" xs] bts_remove_set[of key xs "key r"]
    bts_remove_increasing[of key xs "key r"] increasing_inj_on[of key xs]
  by (auto dest: inj_onD)

lemma remove_other:
  assumes "increasing key xs" "ref_tx_hash r \<notin> ref_tx_hash ` set xs"
  shows "bts_remove key (key r) xs = (xs, False)"
proof -
  from assms(2) have "key r \<notin> key ` set xs" by (rule key_fresh)
  then have "snd (bts_remove key (key r) xs) = False" "\<forall>x \<in> set xs. key x \<noteq> key r"
    by (simp add: bts_remove_flag) (metis imageI \<open>key r \<notin> key ` set xs\<close>)
  then show ?thesis
    using bts_remove_filter[OF assms(1), of "key r"] by (simp add: prod_eq_iff filter_id_conv)
qed

lemma extend_set:
  assumes "increasing key xs" "inj_on ref_tx_hash (set xs \<union> set ys)"
  shows "set (bts_extend key xs ys) = set xs \<union> set ys"
proof (rule bts_extend_set[OF assms(1)], rule inj_onI)
  fix r s assume "r \<in> set xs \<union> set ys" "s \<in> set xs \<union> set ys" "key r = key s"
  then show "r = s" using inj_onD[OF assms(2) key_hash[of r s]] by simp
qed

end

interpretation prio: hash_ordered_queue priority_key
  by unfold_locales (simp add: priority_key_def)

interpretation pend: hash_ordered_queue pending_key
  by unfold_locales (simp add: pending_key_def)

section \<open>Invariant\<close>

definition queue_refs :: "transaction_queue \<Rightarrow> transaction_reference set" where
  "queue_refs q = set (priority_queue q) \<union> set (pending_queue q)"

definition queue_inv :: "transaction_queue \<Rightarrow> bool" where
  "queue_inv q \<longleftrightarrow>
     increasing priority_key (priority_queue q) \<and> increasing pending_key (pending_queue q) \<and>
     (\<forall>r \<in> set (priority_queue q). gas_price_threshold q \<le> ref_max_l2_gas_price r) \<and>
     (\<forall>r \<in> set (pending_queue q). ref_max_l2_gas_price r < gas_price_threshold q) \<and>
     (\<forall>a r. address_to_tx q a = Some r \<longleftrightarrow> ref_address r = a \<and> r \<in> queue_refs q) \<and>
     inj_on ref_tx_hash (queue_refs q)"

lemma queue_invD:
  assumes "queue_inv q"
  shows "increasing priority_key (priority_queue q)" "increasing pending_key (pending_queue q)"
    "r \<in> set (priority_queue q) \<Longrightarrow> gas_price_threshold q \<le> ref_max_l2_gas_price r"
    "r \<in> set (pending_queue q) \<Longrightarrow> ref_max_l2_gas_price r < gas_price_threshold q"
    "address_to_tx q a = Some r \<longleftrightarrow> ref_address r = a \<and> r \<in> queue_refs q"
    "inj_on ref_tx_hash (queue_refs q)"
  using assms unfolding queue_inv_def by blast+

lemma queue_invI:
  assumes "increasing priority_key (priority_queue q)" "increasing pending_key (pending_queue q)"
    "\<And>r. r \<in> set (priority_queue q) \<Longrightarrow> gas_price_threshold q \<le> ref_max_l2_gas_price r"
    "\<And>r. r \<in> set (pending_queue q) \<Longrightarrow> ref_max_l2_gas_price r < gas_price_threshold q"
    "\<And>a r. address_to_tx q a = Some r \<longleftrightarrow> ref_address r = a \<and> r \<in> queue_refs q"
    "inj_on ref_tx_hash (queue_refs q)"
  shows "queue_inv q"
  using assms unfolding queue_inv_def by blast

lemma queue_inv_empty: "queue_inv queue_empty"
  by (simp add: queue_inv_def queue_empty_def queue_refs_def)

lemma queue_no_address:
  "queue_inv q \<Longrightarrow> address_to_tx q a = None \<Longrightarrow> r \<in> queue_refs q \<Longrightarrow> ref_address r \<noteq> a"
  using queue_invD(5)[of q a r] by auto

lemma queue_refs_address_unique:
  "queue_inv q \<Longrightarrow> r \<in> queue_refs q \<Longrightarrow> s \<in> queue_refs q \<Longrightarrow> ref_address r = ref_address s \<Longrightarrow> r = s"
  using queue_invD(5)[of q "ref_address r" r] queue_invD(5)[of q "ref_address r" s] by auto

section \<open>The operations keep the invariant\<close>

lemma queue_insert_ok:
  assumes inv: "queue_inv q" and addr: "address_to_tx q (ref_address r) = None"
    and fresh: "ref_tx_hash r \<notin> ref_tx_hash ` queue_refs q"
  obtains q' where "queue_insert q r = Some q'" "queue_inv q'" "queue_refs q' = insert r (queue_refs q)"
    "gas_price_threshold q' = gas_price_threshold q"
proof -
  note D = queue_invD[OF inv]
  from fresh have f: "ref_tx_hash r \<notin> ref_tx_hash ` set (priority_queue q)"
    "ref_tx_hash r \<notin> ref_tx_hash ` set (pending_queue q)"
    by (auto simp: queue_refs_def)
  obtain prio' b where prio': "bts_insert priority_key r (priority_queue q) = (prio', b)" by force
  obtain pend' c where pend': "bts_insert pending_key r (pending_queue q) = (pend', c)" by force
  note I = prio.insert_fresh[OF D(1) f(1) prio'] pend.insert_fresh[OF D(2) f(2) pend']
  define q' where "q' = (q\<lparr>address_to_tx := (address_to_tx q)(ref_address r \<mapsto> r)\<rparr>)
    \<lparr>priority_queue := if ref_max_l2_gas_price r < gas_price_threshold q then priority_queue q else prio',
     pending_queue := if ref_max_l2_gas_price r < gas_price_threshold q then pend' else pending_queue q\<rparr>"
  have refs: "queue_refs q' = insert r (queue_refs q)"
    using I(3,6) by (auto simp: queue_refs_def q'_def)
  have "queue_inv q'"
  proof (rule queue_invI)
    show "address_to_tx q' a = Some s \<longleftrightarrow> ref_address s = a \<and> s \<in> queue_refs q'" for a s
      using D(5)[of a s] queue_no_address[OF inv addr, of s] by (auto simp: refs) (auto simp: q'_def split: if_splits)
    show "inj_on ref_tx_hash (queue_refs q')"
      using D(6) fresh by (auto simp: refs)
  qed (use D I in \<open>auto simp: q'_def not_less split: if_splits\<close>)
  moreover have "queue_insert q r = Some q'"
    using addr prio' pend' I(1,4) by (simp add: queue_insert_def q'_def)
  ultimately show ?thesis using that refs by (simp add: q'_def)
qed

lemma queue_remove_parts:
  assumes inv: "queue_inv q" and addr: "address_to_tx q a = Some r" and rem: "queue_remove q a = (q', b)"
  shows "increasing priority_key (priority_queue q') \<and> increasing pending_key (pending_queue q') \<and>
    set (priority_queue q') = set (priority_queue q) - {r} \<and>
    set (pending_queue q') = set (pending_queue q) - {r} \<and> b \<and>
    gas_price_threshold q' = gas_price_threshold q \<and> address_to_tx q' = (address_to_tx q)(a := None)"
proof -
  note D = queue_invD[OF inv]
  from addr D(5) have r: "r \<in> queue_refs q" by auto
  obtain prio' b1 where prio': "bts_remove priority_key (priority_key r) (priority_queue q) = (prio', b1)"
    by force
  obtain pend' b2 where pend': "bts_remove pending_key (pending_key r) (pending_queue q) = (pend', b2)"
    by force
  show ?thesis
  proof (cases "r \<in> set (priority_queue q)")
    case True
    then have "r \<notin> set (pending_queue q)" using D(3,4)[of r] by auto
    note R = prio.remove_member[OF D(1) True prio']
    from R(1) addr rem prio' have
      "q' = q\<lparr>address_to_tx := (address_to_tx q)(a := None), priority_queue := prio'\<rparr>" "b"
      by (simp_all add: queue_remove_def)
    with R D(2) \<open>r \<notin> set (pending_queue q)\<close> show ?thesis by simp
  next
    case False
    with r have mem: "r \<in> set (pending_queue q)" by (simp add: queue_refs_def)
    have "ref_tx_hash r \<notin> ref_tx_hash ` set (priority_queue q)"
      using False inj_onD[OF D(6), of r] r by (auto simp: queue_refs_def)
    note R = prio.remove_other[OF D(1) this] pend.remove_member[OF D(2) mem pend']
    from R(1,2) addr rem pend' have
      "q' = q\<lparr>address_to_tx := (address_to_tx q)(a := None), pending_queue := pend'\<rparr>" "b"
      by (simp_all add: queue_remove_def)
    with R D(1) False show ?thesis by simp
  qed
qed

lemma queue_remove_ok:
  assumes inv: "queue_inv q" and rem: "queue_remove q a = (q', b)"
  shows "queue_inv q'" "queue_refs q' = {r \<in> queue_refs q. ref_address r \<noteq> a}"
    "gas_price_threshold q' = gas_price_threshold q" "b \<longleftrightarrow> address_to_tx q a \<noteq> None"
    "address_to_tx q' = (address_to_tx q)(a := None)"
proof -
  note D = queue_invD[OF inv]
  have "queue_inv q' \<and> queue_refs q' = {r \<in> queue_refs q. ref_address r \<noteq> a} \<and>
    gas_price_threshold q' = gas_price_threshold q \<and> (b \<longleftrightarrow> address_to_tx q a \<noteq> None) \<and>
    address_to_tx q' = (address_to_tx q)(a := None)"
  proof (cases "address_to_tx q a")
    case None
    with rem inv queue_no_address[OF inv None] show ?thesis by (auto simp: queue_remove_def fun_eq_iff)
  next
    case (Some r)
    with D(5) have r: "ref_address r = a" "r \<in> queue_refs q" by auto
    have parts: "increasing priority_key (priority_queue q')" "increasing pending_key (pending_queue q')"
      "set (priority_queue q') = set (priority_queue q) - {r}"
      "set (pending_queue q') = set (pending_queue q) - {r}" "b"
      "gas_price_threshold q' = gas_price_threshold q" "address_to_tx q' = (address_to_tx q)(a := None)"
      using queue_remove_parts[OF inv Some rem] by blast+
    have refs: "queue_refs q' = queue_refs q - {r}"
      using parts by (auto simp: queue_refs_def)
    moreover have "queue_refs q - {r} = {s \<in> queue_refs q. ref_address s \<noteq> a}"
      using queue_refs_address_unique[OF inv] r by auto
    moreover have "queue_inv q'"
    proof (rule queue_invI[OF parts(1,2)])
      show "address_to_tx q' a' = Some s \<longleftrightarrow> ref_address s = a' \<and> s \<in> queue_refs q'" for a' s
        using D(5)[of a' s] queue_refs_address_unique[OF inv] r by (auto simp: refs parts(7))
      show "inj_on ref_tx_hash (queue_refs q')"
        using D(6) by (rule inj_on_subset) (auto simp: refs)
    qed (use D parts in auto)
    ultimately show ?thesis using Some parts by simp
  qed
  then show "queue_inv q'" "queue_refs q' = {r \<in> queue_refs q. ref_address r \<noteq> a}"
    "gas_price_threshold q' = gas_price_threshold q" "b \<longleftrightarrow> address_to_tx q a \<noteq> None"
    "address_to_tx q' = (address_to_tx q)(a := None)"
    by blast+
qed

lemma pop_last_n_eq: "pop_last_n n q = (take (length q - n) q, take n (rev q))"
proof (induction n arbitrary: q)
  case (Suc n)
  show ?case
  proof (cases q rule: rev_cases)
    case (snoc ys y)
    with Suc.IH[of ys] show ?thesis by simp
  qed (simp add: Suc.IH)
qed simp

lemma remove_addresses_eq:
  "remove_addresses txs m = m |` (- ref_address ` set txs)"
proof (induction txs arbitrary: m)
  case (Cons tx txs)
  have "(m(ref_address tx := None)) |` (- ref_address ` set txs) = m |` (- ref_address ` set (tx # txs))"
    by (auto simp: restrict_map_def fun_eq_iff)
  then show ?case by (simp only: remove_addresses.simps Cons.IH)
qed (simp add: restrict_map_def)

lemma pop_ready_chunk_ok:
  assumes inv: "queue_inv q" and pop: "pop_ready_chunk q n = (q', txs)"
  shows "queue_inv q'" "txs = take n (rev (priority_queue q))"
    "queue_refs q' = queue_refs q - set txs" "set txs \<subseteq> queue_refs q"
    "gas_price_threshold q' = gas_price_threshold q"
    "priority_queue q' = take (length (priority_queue q) - n) (priority_queue q)"
    "distinct (map ref_address txs)"
proof -
  note D = queue_invD[OF inv]
  from pop have eq: "txs = take n (rev (priority_queue q))"
    "priority_queue q' = take (length (priority_queue q) - n) (priority_queue q)"
    "pending_queue q' = pending_queue q" "gas_price_threshold q' = gas_price_threshold q"
    "address_to_tx q' = address_to_tx q |` (- ref_address ` set txs)"
    by (auto simp: pop_ready_chunk_def pop_last_n_eq remove_addresses_eq)
  have split: "priority_queue q = priority_queue q' @ rev txs"
    by (simp add: eq(1,2) take_rev)
  have disj: "distinct (priority_queue q)" "increasing priority_key (priority_queue q')"
    using increasing_distinct[OF D(1)] D(1) split by auto
  have sub: "set txs \<subseteq> queue_refs q" by (auto simp: queue_refs_def split)
  have nopend: "r \<notin> set (pending_queue q)" if "r \<in> set (priority_queue q)" for r
    using D(3,4)[of r] that by auto
  have refs: "queue_refs q' = queue_refs q - set txs"
    using disj(1) nopend by (auto simp: queue_refs_def eq(3) split)
  show "queue_inv q'"
  proof (rule queue_invI)
    show "address_to_tx q' a = Some r \<longleftrightarrow> ref_address r = a \<and> r \<in> queue_refs q'" for a r
      using D(5)[of a r] queue_refs_address_unique[OF inv, of r] sub
      by (auto simp: eq(5) refs restrict_map_def split: if_splits)
    show "inj_on ref_tx_hash (queue_refs q')"
      using D(6) by (rule inj_on_subset) (auto simp: refs)
  qed (use D disj eq(3,4) split in auto)
  show "distinct (map ref_address txs)"
    using disj(1) split queue_refs_address_unique[OF inv] sub
    by (auto simp: distinct_map inj_on_def)
  show "txs = take n (rev (priority_queue q))" "queue_refs q' = queue_refs q - set txs"
    "set txs \<subseteq> queue_refs q" "gas_price_threshold q' = gas_price_threshold q"
    "priority_queue q' = take (length (priority_queue q) - n) (priority_queue q)"
    using eq refs sub by simp_all
qed

lemma remove_all_priority_set:
  assumes "increasing priority_key xs" "set ys \<subseteq> set xs" "distinct ys"
  shows "increasing priority_key (remove_all_priority xs ys) \<and>
    set (remove_all_priority xs ys) = set xs - set ys"
  using assms
proof (induction xs ys rule: remove_all_priority.induct)
  case (2 xs y ys)
  obtain zs b where zs: "bts_remove priority_key (priority_key y) xs = (zs, b)" by force
  note R = prio.remove_member[OF "2.prems"(1) _ zs]
  have "increasing priority_key (remove_all_priority zs ys) \<and>
    set (remove_all_priority zs ys) = set zs - set ys"
    using "2.IH" "2.prems" R zs by auto
  with R "2.prems"(2) zs show ?case by auto
qed simp

lemma pending_key_le_split [simp]:
  "pending_key \<lparr>ref_address = 0, ref_nonce = 0, ref_tx_hash = 0, ref_tip = 0,
     ref_max_l2_gas_price = threshold\<rparr> \<le> pending_key r \<longleftrightarrow> threshold \<le> ref_max_l2_gas_price r"
  by (auto simp: pending_key_def less_eq_prod_def)

lemma promote_ok:
  assumes inv: "queue_inv q" and t: "threshold < gas_price_threshold q"
  shows "queue_inv ((promote_txs_to_priority q threshold)\<lparr>gas_price_threshold := threshold\<rparr>) \<and>
    queue_refs (promote_txs_to_priority q threshold) = queue_refs q"
proof -
  note D = queue_invD[OF inv]
  let ?over = "filter (\<lambda>r. threshold \<le> ref_max_l2_gas_price r) (pending_queue q)"
  let ?under = "filter (\<lambda>r. \<not> threshold \<le> ref_max_l2_gas_price r) (pending_queue q)"
  let ?q = "promote_txs_to_priority q threshold"
  have q': "?q = q\<lparr>pending_queue := ?under, priority_queue := bts_extend priority_key (priority_queue q) ?over\<rparr>"
    by (simp add: promote_txs_to_priority_def bts_split_off_filter[OF D(2)] not_le[symmetric])
  have set: "set (bts_extend priority_key (priority_queue q) ?over) = set (priority_queue q) \<union> set ?over"
    using D(6) by (intro prio.extend_set[OF D(1)]) (auto simp: queue_refs_def inj_on_def)
  then have refs: "queue_refs ?q = queue_refs q"
    by (auto simp: q' queue_refs_def)
  have "queue_inv (?q\<lparr>gas_price_threshold := threshold\<rparr>)"
  proof (rule queue_invI)
    have "queue_refs (?q\<lparr>gas_price_threshold := threshold\<rparr>) = queue_refs q"
      using refs by (simp add: queue_refs_def)
    then show "address_to_tx (?q\<lparr>gas_price_threshold := threshold\<rparr>) a = Some r \<longleftrightarrow>
        ref_address r = a \<and> r \<in> queue_refs (?q\<lparr>gas_price_threshold := threshold\<rparr>)"
      "inj_on ref_tx_hash (queue_refs (?q\<lparr>gas_price_threshold := threshold\<rparr>))" for a r
      using D(5)[of a r] D(6) by (simp_all add: q')
    show "gas_price_threshold (?q\<lparr>gas_price_threshold := threshold\<rparr>) \<le> ref_max_l2_gas_price r"
      if "r \<in> set (priority_queue (?q\<lparr>gas_price_threshold := threshold\<rparr>))" for r
      using that D(3)[of r] t set by (auto simp: q')
  qed (use D in \<open>auto simp: q' not_le increasing_filter\<close>)
  with refs show ?thesis by simp
qed

lemma demote_ok:
  assumes inv: "queue_inv q" and t: "gas_price_threshold q < threshold"
  shows "queue_inv ((demote_txs_to_pending q threshold)\<lparr>gas_price_threshold := threshold\<rparr>) \<and>
    queue_refs (demote_txs_to_pending q threshold) = queue_refs q"
proof -
  note D = queue_invD[OF inv]
  let ?under = "filter (\<lambda>tx. ref_max_l2_gas_price tx < threshold) (priority_queue q)"
  let ?q = "demote_txs_to_pending q threshold"
  have prio': "increasing priority_key (priority_queue ?q)"
    "set (priority_queue ?q) = set (priority_queue q) - set ?under"
    using remove_all_priority_set[OF D(1), of ?under] increasing_distinct[OF D(1)]
    by (simp_all add: demote_txs_to_pending_def Let_def)
  have pend': "increasing pending_key (pending_queue ?q)"
    "set (pending_queue ?q) = set (pending_queue q) \<union> set ?under"
    using D(2,6) pend.extend_set[OF D(2), of ?under]
    by (auto simp: demote_txs_to_pending_def Let_def queue_refs_def inj_on_def)
  have same: "address_to_tx ?q = address_to_tx q"
    by (simp add: demote_txs_to_pending_def Let_def)
  from prio' pend' have refs: "queue_refs ?q = queue_refs q"
    by (auto simp: queue_refs_def)
  have "queue_inv (?q\<lparr>gas_price_threshold := threshold\<rparr>)"
  proof (rule queue_invI)
    have "queue_refs (?q\<lparr>gas_price_threshold := threshold\<rparr>) = queue_refs q"
      using refs by (simp add: queue_refs_def)
    then show "address_to_tx (?q\<lparr>gas_price_threshold := threshold\<rparr>) a = Some r \<longleftrightarrow>
        ref_address r = a \<and> r \<in> queue_refs (?q\<lparr>gas_price_threshold := threshold\<rparr>)"
      "inj_on ref_tx_hash (queue_refs (?q\<lparr>gas_price_threshold := threshold\<rparr>))" for a r
      using D(5)[of a r] D(6) same by simp_all
    show "ref_max_l2_gas_price r < gas_price_threshold (?q\<lparr>gas_price_threshold := threshold\<rparr>)"
      if "r \<in> set (pending_queue (?q\<lparr>gas_price_threshold := threshold\<rparr>))" for r
      using that D(4)[of r] t pend'(2) by auto
  qed (use prio' pend' in auto)
  with refs show ?thesis by simp
qed

lemma update_gas_price_threshold_ok:
  assumes "queue_inv q"
  shows "queue_inv (update_gas_price_threshold q t)"
    "queue_refs (update_gas_price_threshold q t) = queue_refs q"
    "gas_price_threshold (update_gas_price_threshold q t) = t"
  using promote_ok[OF assms, of t] demote_ok[OF assms, of t] assms
  by (auto simp: update_gas_price_threshold_def queue_refs_def)

end
