(* ===== verification/Mempool.thy ===== *)
theory Mempool
  imports Transaction_Pool Transaction_Queue
begin

text \<open>
  \<^verbatim>\<open>crates/starknet_mempool/src/mempool.rs\<close>: the mempool combines the pool, the queue and the
  account nonces it knows (\<open>mempool_state\<close>). \<open>None\<close> is a panic, \<open>Inl\<close> an error returned to the
  client.
\<close>

section \<open>Account nonces\<close>

record mempool_config =
  enable_fee_escalation :: bool
  fee_escalation_percentage :: u8

text \<open>\<open>staged\<close> is iterated over when a block is committed.\<close>

record mempool_state =
  committed :: "contract_address \<rightharpoonup> nonce"
  staged :: "(contract_address \<times> nonce) list"
  tentative :: "contract_address \<rightharpoonup> nonce"

definition state_get :: "mempool_state \<Rightarrow> contract_address \<Rightarrow> nonce option" where
  "state_get s address =
     (case map_of (staged s) address of
        Some n \<Rightarrow> Some n
      | None \<Rightarrow> (case committed s address of Some n \<Rightarrow> Some n | None \<Rightarrow> tentative s address))"

definition get_or_insert ::
    "mempool_state \<Rightarrow> contract_address \<Rightarrow> nonce \<Rightarrow> mempool_state \<times> nonce" where
  "get_or_insert s address n =
     (case (case map_of (staged s) address of Some k \<Rightarrow> Some k | None \<Rightarrow> committed s address) of
        Some staged_or_committed_nonce \<Rightarrow> (s, staged_or_committed_nonce)
      | None \<Rightarrow>
         (let tentative_nonce =
                (case tentative s address of
                   None \<Rightarrow> n
                 | Some t \<Rightarrow> if t < n then n else t)
          in (s\<lparr>tentative := (tentative s)(address \<mapsto> tentative_nonce)\<rparr>, tentative_nonce)))"

definition stage ::
    "mempool_state \<Rightarrow> transaction_reference \<Rightarrow> (mempool_state, mempool_error, unit) rs_result" where
  "stage s r =
     (case try_increment_nonce (ref_nonce r) of
        Inl e \<Rightarrow> Some (s, Inl e)
      | Inr next_nonce \<Rightarrow>
         (let s' = s\<lparr>staged := AList.update (ref_address r) next_nonce (staged s)\<rparr>
          in case map_of (staged s) (ref_address r) of
               None \<Rightarrow> Some (s', Inr ())
             | Some existing_nonce \<Rightarrow>
                (case try_increment_nonce existing_nonce of
                   Inl e \<Rightarrow> Some (s', Inl e)
                 | Inr k \<Rightarrow> do { rs_assert (k = next_nonce); Some (s', Inr ()) })))"

definition state_commit ::
    "mempool_state \<Rightarrow> (contract_address \<times> nonce) list \<Rightarrow> mempool_state \<times> contract_address list" where
  "state_commit s address_to_nonce =
     (let addresses_to_rewind = filter (\<lambda>a. map_of address_to_nonce a = None) (map fst (staged s))
      in (s\<lparr>tentative := (\<lambda>a. if map_of address_to_nonce a = None then tentative s a else None),
             committed := committed s ++ map_of address_to_nonce,
             staged := []\<rparr>, addresses_to_rewind))"

definition state_validate_incoming_tx ::
    "mempool_state \<Rightarrow> transaction_reference \<Rightarrow> mempool_error + unit" where
  "state_validate_incoming_tx s r =
     (case state_get s (ref_address r) of
        Some existing_nonce \<Rightarrow>
          if ref_nonce r < existing_nonce then Inl (NonceTooOld (ref_address r) (ref_nonce r))
          else Inr ()
      | None \<Rightarrow> Inr ())"

definition state_validate_commitment ::
    "mempool_state \<Rightarrow> contract_address \<Rightarrow> nonce \<Rightarrow> unit option" where
  "state_validate_commitment s address next_nonce =
     (case committed s address of
        Some committed_nonce \<Rightarrow> rs_assert (committed_nonce \<le> next_nonce)
      | None \<Rightarrow> Some ())"

section \<open>The mempool\<close>

record mempool =
  mp_config :: mempool_config
  mp_pool :: transaction_pool
  mp_queue :: transaction_queue
  mp_state :: mempool_state

definition mempool_default :: mempool where
  "mempool_default = \<lparr>
     mp_config = \<lparr>enable_fee_escalation = True, fee_escalation_percentage = 10\<rparr>,
     mp_pool = pool_empty, mp_queue = queue_empty,
     mp_state = \<lparr>committed = Map.empty, staged = [], tentative = Map.empty\<rparr>\<rparr>"

definition mempool_iter :: "mempool \<Rightarrow> transaction_reference list" where
  "mempool_iter m = iter_over_ready_txs (mp_queue m)"

fun enqueue_next_eligible_txs ::
    "mempool \<Rightarrow> transaction_reference list \<Rightarrow> (mempool, mempool_error, unit) rs_result" where
  "enqueue_next_eligible_txs m [] = Some (m, Inr ())"
| "enqueue_next_eligible_txs m (tx # txs) =
     (case get_next_eligible_tx (mp_pool m) \<lparr>acc_address = ref_address tx, acc_nonce = ref_nonce tx\<rparr> of
        Inl e \<Rightarrow> Some (m, Inl e)
      | Inr None \<Rightarrow> enqueue_next_eligible_txs m txs
      | Inr (Some next_tx_reference) \<Rightarrow> do {
          q \<leftarrow> queue_insert (mp_queue m) next_tx_reference;
          enqueue_next_eligible_txs (m\<lparr>mp_queue := q\<rparr>) txs })"

lemma enqueue_next_eligible_txs_keeps:
  "enqueue_next_eligible_txs m txs = Some (m', r) \<Longrightarrow>
     mp_pool m' = mp_pool m \<and> mp_state m' = mp_state m \<and> mp_config m' = mp_config m"
  by (induction m txs rule: enqueue_next_eligible_txs.induct)
    (fastforce simp: bind_eq_Some_conv split: sum.splits option.splits)+

text \<open>The loop of \<^verbatim>\<open>get_txs\<close>; \<open>acc\<close> is \<^verbatim>\<open>eligible_tx_references\<close>. A popped chunk is not empty,
  so that the number of remaining transactions decreases.\<close>

lemma pop_ready_chunk_progress:
  "0 < n \<Longrightarrow> has_ready_txs q \<Longrightarrow> (q', chunk) = pop_ready_chunk q n \<Longrightarrow> n - length chunk < n"
  by (auto simp: has_ready_txs_def pop_ready_chunk_def pop_last_n_eq)

function get_txs_loop ::
    "mempool \<Rightarrow> nat \<Rightarrow> transaction_reference list
      \<Rightarrow> (mempool, mempool_error, transaction_reference list) rs_result" where
  "get_txs_loop m n_remaining_txs acc =
     (if 0 < n_remaining_txs \<and> has_ready_txs (mp_queue m) then
        (let (q, chunk) = pop_ready_chunk (mp_queue m) n_remaining_txs
         in rs_try (enqueue_next_eligible_txs (m\<lparr>mp_queue := q\<rparr>) chunk)
              (\<lambda>m1 _. get_txs_loop m1 (n_remaining_txs - length chunk) (acc @ chunk)))
      else Some (m, Inr acc))"
  by pat_completeness auto
termination get_txs_loop
  by (relation "measure (\<lambda>(m, n, acc). n)") (auto dest: pop_ready_chunk_progress)

declare get_txs_loop.simps [simp del]

fun stage_all ::
    "mempool_state \<Rightarrow> transaction_reference list \<Rightarrow> (mempool_state, mempool_error, unit) rs_result" where
  "stage_all s [] = Some (s, Inr ())"
| "stage_all s (r # rs) = rs_try (stage s r) (\<lambda>s' _. stage_all s' rs)"

fun txs_of_refs ::
    "transaction_pool \<Rightarrow> transaction_reference list \<Rightarrow> account_transaction list option" where
  "txs_of_refs p [] = Some []"
| "txs_of_refs p (r # rs) =
     (case get_by_tx_hash p (ref_tx_hash r) of
        Inl _ \<Rightarrow> None
      | Inr tx \<Rightarrow> do { txs \<leftarrow> txs_of_refs p rs; Some (tx # txs) })"

definition get_txs ::
    "mempool \<Rightarrow> nat \<Rightarrow> (mempool, mempool_error, account_transaction list) rs_result" where
  "get_txs m n_txs =
     rs_try (get_txs_loop m n_txs []) (\<lambda>m1 refs.
       (case stage_all (mp_state m1) refs of
          None \<Rightarrow> None
        | Some (s, Inl e) \<Rightarrow> Some (m1\<lparr>mp_state := s\<rparr>, Inl e)
        | Some (s, Inr _) \<Rightarrow> do {
            txs \<leftarrow> txs_of_refs (mp_pool m1) refs;
            Some (m1\<lparr>mp_state := s\<rparr>, Inr txs) }))"

definition increased_enough :: "mempool \<Rightarrow> u128 \<Rightarrow> u128 \<Rightarrow> bool" where
  "increased_enough m existing_value incoming_value =
     (let percentage = (ucast (fee_escalation_percentage (mp_config m)) :: u128)
      in case (case checked_mul existing_value percentage of
                 None \<Rightarrow> None
               | Some v \<Rightarrow> checked_add existing_value (v div 100)) of
           None \<Rightarrow> False
         | Some escalation_qualified_value \<Rightarrow> escalation_qualified_value \<le> incoming_value)"

definition should_replace_tx ::
    "mempool \<Rightarrow> transaction_reference \<Rightarrow> transaction_reference \<Rightarrow> bool" where
  "should_replace_tx m existing_tx incoming_tx \<longleftrightarrow>
     increased_enough m (ucast (ref_tip existing_tx)) (ucast (ref_tip incoming_tx)) \<and>
     increased_enough m (ref_max_l2_gas_price existing_tx) (ref_max_l2_gas_price incoming_tx)"

definition handle_fee_escalation ::
    "mempool \<Rightarrow> account_transaction \<Rightarrow> (mempool, mempool_error, unit) rs_result" where
  "handle_fee_escalation m incoming_tx =
     (let incoming = tx_reference_new incoming_tx;
          address = ref_address incoming; n = ref_nonce incoming
      in if \<not> enable_fee_escalation (mp_config m) then
           (if get_by_address_and_nonce (mp_pool m) address n \<noteq> None
            then Some (m, Inl (DuplicateNonce address n)) else Some (m, Inr ()))
         else (case get_by_address_and_nonce (mp_pool m) address n of
             None \<Rightarrow> Some (m, Inr ())
           | Some existing \<Rightarrow>
               if \<not> should_replace_tx m existing incoming
               then Some (m, Inl (DuplicateNonce address n))
               else (let m1 = m\<lparr>mp_queue := fst (queue_remove (mp_queue m) address)\<rparr>
                     in case pool_remove (mp_pool m1) (ref_tx_hash existing) of
                          None \<Rightarrow> None
                        | Some (_, Inl _) \<Rightarrow> None
                        | Some (p, Inr _) \<Rightarrow> Some (m1\<lparr>mp_pool := p\<rparr>, Inr ()))))"

definition validate_incoming_tx :: "mempool \<Rightarrow> transaction_reference \<Rightarrow> mempool_error + unit" where
  "validate_incoming_tx m r = state_validate_incoming_tx (mp_state m) r"

definition add_tx ::
    "mempool \<Rightarrow> add_transaction_args \<Rightarrow> (mempool, mempool_error, unit) rs_result" where
  "add_tx m args =
     (let tx = arg_tx args; account = arg_account_state args; r = tx_reference_new tx
      in case validate_incoming_tx m r of
           Inl e \<Rightarrow> Some (m, Inl e)
         | Inr _ \<Rightarrow>
             rs_try (handle_fee_escalation m tx) (\<lambda>m1 _.
               (case pool_insert (mp_pool m1) tx of
                  None \<Rightarrow> None
                | Some (p, Inl e) \<Rightarrow> Some (m1\<lparr>mp_pool := p\<rparr>, Inl e)
                | Some (p, Inr _) \<Rightarrow>
                   (let (s, stored_account_nonce) =
                          get_or_insert (mp_state m1) (acc_address account) (acc_nonce account);
                        m2 = m1\<lparr>mp_pool := p, mp_state := s\<rparr>
                    in if ref_nonce r = stored_account_nonce
                       then do {
                         q \<leftarrow> queue_insert (fst (queue_remove (mp_queue m2) (acc_address account))) r;
                         Some (m2\<lparr>mp_queue := q\<rparr>, Inr ()) }
                       else Some (m2, Inr ())))))"

definition validate_commitment :: "mempool \<Rightarrow> contract_address \<Rightarrow> nonce \<Rightarrow> unit option" where
  "validate_commitment m address next_nonce =
     state_validate_commitment (mp_state m) address next_nonce"

text \<open>\<^verbatim>\<open>commit_block\<close>: the body of the loop over the block's nonces, the loop, the loop over the
  addresses to rewind, and the removal of the block's transactions.\<close>

definition align_address :: "mempool \<Rightarrow> contract_address \<Rightarrow> nonce \<Rightarrow> mempool option" where
  "align_address m address next_nonce = do {
     validate_commitment m address next_nonce;
     q \<leftarrow> (case get_nonce (mp_queue m) address of
              Some queued_nonce \<Rightarrow>
                if queued_nonce \<noteq> next_nonce
                then (let (q, removed) = queue_remove (mp_queue m) address
                      in do { rs_assert removed; Some q })
                else Some (mp_queue m)
            | None \<Rightarrow> Some (mp_queue m));
     p \<leftarrow> pool_remove_up_to_nonce (mp_pool m) address next_nonce;
     q' \<leftarrow> (if get_nonce q address = None
            then (case get_by_address_and_nonce p address next_nonce of
                    Some tx_reference \<Rightarrow> queue_insert q tx_reference
                  | None \<Rightarrow> Some q)
            else Some q);
     Some (m\<lparr>mp_pool := p, mp_queue := q'\<rparr>) }"

fun align_addresses :: "mempool \<Rightarrow> (contract_address \<times> nonce) list \<Rightarrow> mempool option" where
  "align_addresses m [] = Some m"
| "align_addresses m ((address, next_nonce) # rest) = do {
     m' \<leftarrow> align_address m address next_nonce;
     align_addresses m' rest }"

fun rewind_addresses :: "mempool \<Rightarrow> contract_address list \<Rightarrow> mempool option" where
  "rewind_addresses m [] = Some m"
| "rewind_addresses m (address # rest) =
     (case account_txs_sorted_by_nonce (mp_pool m) address of
        [] \<Rightarrow> None
      | tx_reference # _ \<Rightarrow> do {
          q \<leftarrow> queue_insert (fst (queue_remove (mp_queue m) address)) tx_reference;
          rewind_addresses (m\<lparr>mp_queue := q\<rparr>) rest })"

fun remove_committed_txs :: "transaction_pool \<Rightarrow> transaction_hash list \<Rightarrow> transaction_pool option" where
  "remove_committed_txs p [] = Some p"
| "remove_committed_txs p (tx_hash # rest) = do {
     (p', _) \<leftarrow> pool_remove p tx_hash;
     remove_committed_txs p' rest }"

definition commit_block :: "mempool \<Rightarrow> commit_block_args \<Rightarrow> mempool option" where
  "commit_block m args = do {
     m1 \<leftarrow> align_addresses m (arg_address_to_nonce args);
     let (s, addresses_to_rewind) = state_commit (mp_state m1) (arg_address_to_nonce args);
     m2 \<leftarrow> rewind_addresses (m1\<lparr>mp_state := s\<rparr>) addresses_to_rewind;
     p \<leftarrow> remove_committed_txs (mp_pool m2) (arg_tx_hashes args);
     Some (m2\<lparr>mp_pool := p\<rparr>) }"

definition mempool_update_gas_price_threshold :: "mempool \<Rightarrow> gas_price \<Rightarrow> mempool" where
  "mempool_update_gas_price_threshold m threshold =
     m\<lparr>mp_queue := update_gas_price_threshold (mp_queue m) threshold\<rparr>"

end
