(* ===== verification/Mempool_Invariant.thy ===== *)
theory Mempool_Invariant
  imports Mempool
begin

text \<open>
  The invariant of the mempool and what its operations guarantee: the queue is a part of the
  pool, every queued transaction has the nonce its account is staged at, and the requests keep
  this and never panic. Lemmas only; the properties are in \<open>Mempool_Properties\<close>.
\<close>

section \<open>Consecutive nonces\<close>

text \<open>\<open>stage_map m rs\<close> is the nonce each account is left with after the transactions \<open>rs\<close> were
  staged; \<open>consecutive m rs\<close> says that each of them has the nonce its account is at.\<close>

fun stage_map ::
    "(contract_address \<rightharpoonup> nonce) \<Rightarrow> transaction_reference list \<Rightarrow> (contract_address \<rightharpoonup> nonce)" where
  "stage_map m [] = m"
| "stage_map m (r # rs) = stage_map (m(ref_address r \<mapsto> ref_nonce r + 1)) rs"

definition at_nonce :: "(contract_address \<rightharpoonup> nonce) \<Rightarrow> transaction_reference \<Rightarrow> bool" where
  "at_nonce m r \<longleftrightarrow> m (ref_address r) = None \<or> m (ref_address r) = Some (ref_nonce r)"

fun consecutive :: "(contract_address \<rightharpoonup> nonce) \<Rightarrow> transaction_reference list \<Rightarrow> bool" where
  "consecutive m [] = True"
| "consecutive m (r # rs) = (at_nonce m r \<and> consecutive (m(ref_address r \<mapsto> ref_nonce r + 1)) rs)"

lemma stage_map_append [simp]: "stage_map m (xs @ ys) = stage_map (stage_map m xs) ys"
  by (induction xs arbitrary: m) simp_all

lemma consecutive_append [simp]:
  "consecutive m (xs @ ys) \<longleftrightarrow> consecutive m xs \<and> consecutive (stage_map m xs) ys"
  by (induction xs arbitrary: m) simp_all

lemma stage_map_other: "a \<notin> ref_address ` set rs \<Longrightarrow> stage_map m rs a = m a"
  by (induction rs arbitrary: m) auto

lemma stage_map_member:
  "distinct (map ref_address rs) \<Longrightarrow> r \<in> set rs \<Longrightarrow> stage_map m rs (ref_address r) = Some (ref_nonce r + 1)"
  by (induction rs arbitrary: m) (auto simp: stage_map_other)

lemma stage_map_SomeD:
  "stage_map m rs a = Some k \<Longrightarrow>
   m a = Some k \<and> a \<notin> ref_address ` set rs \<or> (\<exists>r \<in> set rs. ref_address r = a \<and> k = ref_nonce r + 1)"
  by (induction rs arbitrary: m) (force split: if_splits)+

lemma consecutive_distinct_addresses:
  "distinct (map ref_address rs) \<Longrightarrow> \<forall>r \<in> set rs. at_nonce m r \<Longrightarrow> consecutive m rs"
proof (induction rs arbitrary: m)
  case (Cons s rs)
  then have "\<forall>r \<in> set rs. at_nonce (m(ref_address s \<mapsto> ref_nonce s + 1)) r"
    by (auto simp: at_nonce_def image_iff)
  with Cons show ?case by simp
qed simp

text \<open>A transaction that comes later for the same account has a larger nonce.\<close>

lemma consecutive_ge:
  "consecutive m rs \<Longrightarrow> r \<in> set rs \<Longrightarrow> m (ref_address r) = Some k \<Longrightarrow> k \<le> ref_nonce r"
proof (induction rs arbitrary: m k)
  case (Cons s rs)
  show ?case
  proof (cases "r = s")
    case True
    with Cons.prems show ?thesis by (auto simp: at_nonce_def)
  next
    case False
    with Cons.prems have r: "r \<in> set rs" by simp
    show ?thesis
    proof (cases "ref_address r = ref_address s")
      case True
      with Cons.prems Cons.IH[of _ "ref_nonce s + 1"] r show ?thesis
        by (fastforce simp: at_nonce_def)
    next
      case False
      with Cons.prems Cons.IH[of _ k] r show ?thesis by fastforce
    qed
  qed
qed simp

lemma consecutive_distinct:
  "consecutive m rs \<Longrightarrow> distinct (map (\<lambda>r. (ref_address r, ref_nonce r)) rs)"
proof (induction rs arbitrary: m)
  case (Cons s rs)
  have "ref_nonce s \<noteq> ref_nonce r" if "r \<in> set rs" "ref_address s = ref_address r" for r
    using Cons.prems consecutive_ge[of _ rs r "ref_nonce s + 1"] that by fastforce
  with Cons show ?case by auto
qed simp

lemma stage_all_ok:
  assumes "consecutive (map_of (staged s)) rs" "\<forall>r \<in> set rs. ref_nonce r + 1 < felt_prime"
  shows "\<exists>s'. stage_all s rs = Some (s', Inr ()) \<and> map_of (staged s') = stage_map (map_of (staged s)) rs \<and>
    committed s' = committed s \<and> tentative s' = tentative s \<and>
    (distinct (map fst (staged s)) \<longrightarrow> distinct (map fst (staged s')))"
  using assms
proof (induction rs arbitrary: s)
  case (Cons r rs)
  define s1 where "s1 = s\<lparr>staged := AList.update (ref_address r) (ref_nonce r + 1) (staged s)\<rparr>"
  have st: "stage s r = Some (s1, Inr ())"
    using Cons.prems by (auto simp: stage_def s1_def at_nonce_def)
  have map: "map_of (staged s1) = (map_of (staged s))(ref_address r \<mapsto> ref_nonce r + 1)"
    by (simp add: s1_def update_conv')
  have "consecutive (map_of (staged s1)) rs" "\<forall>r \<in> set rs. ref_nonce r + 1 < felt_prime"
    using Cons.prems unfolding map by simp_all
  from Cons.IH[OF this] obtain s' where "stage_all s1 rs = Some (s', Inr ())"
    "map_of (staged s') = stage_map (map_of (staged s1)) rs"
    "committed s' = committed s1" "tentative s' = tentative s1"
    "distinct (map fst (staged s1)) \<longrightarrow> distinct (map fst (staged s'))"
    by blast
  moreover have "distinct (map fst (staged s)) \<longrightarrow> distinct (map fst (staged s1))"
    by (simp add: s1_def distinct_update)
  ultimately show ?case
    using st map by (intro exI[of _ s']) (simp add: s1_def)
qed simp

section \<open>Invariant\<close>

definition queue_in_pool :: "transaction_pool \<Rightarrow> transaction_queue \<Rightarrow> bool" where
  "queue_in_pool p q \<longleftrightarrow>
     (\<forall>r \<in> queue_refs q. get_by_address_and_nonce p (ref_address r) (ref_nonce r) = Some r)"

definition mempool_inv :: "mempool \<Rightarrow> bool" where
  "mempool_inv m \<longleftrightarrow>
     pool_inv (mp_pool m) \<and> queue_inv (mp_queue m) \<and> queue_in_pool (mp_pool m) (mp_queue m) \<and>
     distinct (map fst (staged (mp_state m))) \<and>
     (\<forall>r \<in> queue_refs (mp_queue m). at_nonce (map_of (staged (mp_state m))) r) \<and>
     (\<forall>a k. map_of (staged (mp_state m)) a = Some k \<longrightarrow>
        (\<exists>n < k. get_by_address_and_nonce (mp_pool m) a n \<noteq> None))"

lemma mempool_invD:
  assumes "mempool_inv m"
  shows "pool_inv (mp_pool m)" "queue_inv (mp_queue m)" "queue_in_pool (mp_pool m) (mp_queue m)"
    "distinct (map fst (staged (mp_state m)))"
    "r \<in> queue_refs (mp_queue m) \<Longrightarrow> at_nonce (map_of (staged (mp_state m))) r"
    "map_of (staged (mp_state m)) a = Some k \<Longrightarrow> \<exists>n < k. get_by_address_and_nonce (mp_pool m) a n \<noteq> None"
  using assms unfolding mempool_inv_def by blast+

lemma mempool_inv_default: "mempool_inv mempool_default"
  by (simp add: mempool_inv_def mempool_default_def pool_inv_empty queue_inv_empty queue_in_pool_def)
    (simp add: queue_refs_def queue_empty_def)

lemma queue_insert_from_pool:
  assumes "pool_inv p" "queue_inv q" "queue_in_pool p q" "address_to_tx q (ref_address r) = None"
    and "get_by_address_and_nonce p (ref_address r) (ref_nonce r) = Some r"
  obtains q' where "queue_insert q r = Some q'" "queue_inv q'" "queue_in_pool p q'"
    "queue_refs q' = insert r (queue_refs q)" "gas_price_threshold q' = gas_price_threshold q"
proof -
  have "ref_tx_hash r \<notin> ref_tx_hash ` queue_refs q"
  proof
    assume "ref_tx_hash r \<in> ref_tx_hash ` queue_refs q"
    then obtain s where s: "s \<in> queue_refs q" "ref_tx_hash r = ref_tx_hash s" by auto
    with assms(3) have "get_by_address_and_nonce p (ref_address s) (ref_nonce s) = Some s"
      by (simp add: queue_in_pool_def)
    from pool_refs_unique[OF assms(1,5) this s(2)] queue_no_address[OF assms(2,4) s(1)] show False
      by simp
  qed
  from queue_insert_ok[OF assms(2,4) this] obtain q' where
    "queue_insert q r = Some q'" "queue_inv q'" "queue_refs q' = insert r (queue_refs q)"
    "gas_price_threshold q' = gas_price_threshold q" .
  moreover from this assms(3,5) have "queue_in_pool p q'"
    by (simp add: queue_in_pool_def)
  ultimately show ?thesis using that by blast
qed

lemma queue_in_pool_subset:
  "queue_in_pool p q \<Longrightarrow> queue_refs q' \<subseteq> queue_refs q \<Longrightarrow> queue_in_pool p q'"
  by (auto simp: queue_in_pool_def)

section \<open>Getting transactions\<close>

lemma enqueue_next_eligible_txs_ok:
  assumes "pool_inv (mp_pool m)" "queue_inv (mp_queue m)" "queue_in_pool (mp_pool m) (mp_queue m)"
    and "distinct (map ref_address txs)" "\<forall>tx \<in> set txs. address_to_tx (mp_queue m) (ref_address tx) = None"
    and "\<forall>tx \<in> set txs. ref_nonce tx + 1 < felt_prime"
  shows "\<exists>m'. enqueue_next_eligible_txs m txs = Some (m', Inr ()) \<and> queue_inv (mp_queue m') \<and>
    queue_in_pool (mp_pool m) (mp_queue m') \<and>
    gas_price_threshold (mp_queue m') = gas_price_threshold (mp_queue m) \<and>
    queue_refs (mp_queue m') = queue_refs (mp_queue m) \<union>
      {r. \<exists>tx \<in> set txs. get_by_address_and_nonce (mp_pool m) (ref_address tx) (ref_nonce tx + 1) = Some r}"
  using assms
proof (induction txs arbitrary: m)
  case (Cons tx txs)
  have inc: "get_next_eligible_tx (mp_pool m) \<lparr>acc_address = ref_address tx, acc_nonce = ref_nonce tx\<rparr> =
    Inr (get_by_address_and_nonce (mp_pool m) (ref_address tx) (ref_nonce tx + 1))"
    using Cons.prems(6) by (simp add: get_next_eligible_tx_def)
  show ?case
  proof (cases "get_by_address_and_nonce (mp_pool m) (ref_address tx) (ref_nonce tx + 1)")
    case None
    with Cons.IH[of m] Cons.prems inc show ?thesis by auto
  next
    case (Some r)
    note r = pool_invD(4,5)[OF Cons.prems(1) Some]
    from r Some Cons.prems(5) obtain q' where q': "queue_insert (mp_queue m) r = Some q'" "queue_inv q'"
      "queue_in_pool (mp_pool m) q'" "queue_refs q' = insert r (queue_refs (mp_queue m))"
      "gas_price_threshold q' = gas_price_threshold (mp_queue m)"
      using queue_insert_from_pool[OF Cons.prems(1-3), of r] by auto
    have free: "\<forall>t \<in> set txs. address_to_tx q' (ref_address t) = None"
    proof
      fix t assume t: "t \<in> set txs"
      have "ref_address tx \<notin> ref_address ` set txs" using Cons.prems(4) by simp
      with t have "ref_address t \<noteq> ref_address tx" by (metis imageI)
      moreover have "address_to_tx (mp_queue m) (ref_address t) = None" using Cons.prems(5) t by simp
      ultimately have "\<not> (ref_address s = ref_address t \<and> s \<in> queue_refs q')" for s
        using queue_no_address[OF Cons.prems(2), of "ref_address t" s] r q'(4) by auto
      then show "address_to_tx q' (ref_address t) = None"
        using queue_invD(5)[OF q'(2)] by (cases "address_to_tx q' (ref_address t)") auto
    qed
    have "\<exists>m'. enqueue_next_eligible_txs (m\<lparr>mp_queue := q'\<rparr>) txs = Some (m', Inr ()) \<and> queue_inv (mp_queue m') \<and>
      queue_in_pool (mp_pool (m\<lparr>mp_queue := q'\<rparr>)) (mp_queue m') \<and>
      gas_price_threshold (mp_queue m') = gas_price_threshold (mp_queue (m\<lparr>mp_queue := q'\<rparr>)) \<and>
      queue_refs (mp_queue m') = queue_refs (mp_queue (m\<lparr>mp_queue := q'\<rparr>)) \<union>
        {r. \<exists>tx \<in> set txs. get_by_address_and_nonce (mp_pool (m\<lparr>mp_queue := q'\<rparr>)) (ref_address tx) (ref_nonce tx + 1) = Some r}"
      by (rule Cons.IH) (use Cons.prems q' free in simp_all)
    then show ?thesis using inc Some q' by auto
  qed
qed simp

definition nonces_fit :: "transaction_pool \<Rightarrow> bool" where
  "nonces_fit p \<longleftrightarrow> (\<forall>a n r. get_by_address_and_nonce p a n = Some r \<longrightarrow> n + 1 < felt_prime)"

text \<open>What holds at the head of the loop of \<open>get_txs\<close> that started with the nonces \<open>m0\<close>, when the
  transactions \<open>acc\<close> have been popped.\<close>

definition loop_inv :: "(contract_address \<rightharpoonup> nonce) \<Rightarrow> mempool \<Rightarrow> transaction_reference list \<Rightarrow> bool" where
  "loop_inv m0 m acc \<longleftrightarrow>
     pool_inv (mp_pool m) \<and> queue_inv (mp_queue m) \<and> queue_in_pool (mp_pool m) (mp_queue m) \<and>
     nonces_fit (mp_pool m) \<and> consecutive m0 acc \<and>
     (\<forall>r \<in> queue_refs (mp_queue m). at_nonce (stage_map m0 acc) r) \<and>
     (\<forall>r \<in> set acc. get_by_address_and_nonce (mp_pool m) (ref_address r) (ref_nonce r) = Some r \<and>
        gas_price_threshold (mp_queue m) \<le> ref_max_l2_gas_price r)"

lemma loop_step:
  assumes inv: "loop_inv m0 m acc" and pop: "pop_ready_chunk (mp_queue m) n = (q, chunk)"
  shows "\<exists>m'. enqueue_next_eligible_txs (m\<lparr>mp_queue := q\<rparr>) chunk = Some (m', Inr ()) \<and>
    loop_inv m0 m' (acc @ chunk) \<and> mp_pool m' = mp_pool m \<and> mp_state m' = mp_state m \<and>
    mp_config m' = mp_config m \<and>
    gas_price_threshold (mp_queue m') = gas_price_threshold (mp_queue m)"
proof -
  from inv have L: "pool_inv (mp_pool m)" "queue_inv (mp_queue m)" "queue_in_pool (mp_pool m) (mp_queue m)"
    "nonces_fit (mp_pool m)" "consecutive m0 acc"
    "\<And>r. r \<in> queue_refs (mp_queue m) \<Longrightarrow> at_nonce (stage_map m0 acc) r"
    "\<And>r. r \<in> set acc \<Longrightarrow> get_by_address_and_nonce (mp_pool m) (ref_address r) (ref_nonce r) = Some r"
    "\<And>r. r \<in> set acc \<Longrightarrow> gas_price_threshold (mp_queue m) \<le> ref_max_l2_gas_price r"
    unfolding loop_inv_def by blast+
  note pop_ok = pop_ready_chunk_ok[OF L(2) pop]
  have inp: "get_by_address_and_nonce (mp_pool m) (ref_address r) (ref_nonce r) = Some r" if "r \<in> set chunk" for r
    using that pop_ok(4) L(3) by (auto simp: queue_in_pool_def)
  have price: "gas_price_threshold (mp_queue m) \<le> ref_max_l2_gas_price r" if "r \<in> set chunk" for r
    using that pop_ok(2) queue_invD(3)[OF L(2)] in_set_takeD by fastforce
  have free: "\<forall>tx \<in> set chunk. address_to_tx q (ref_address tx) = None"
  proof
    fix tx assume tx: "tx \<in> set chunk"
    have "\<not> (ref_address s = ref_address tx \<and> s \<in> queue_refs q)" for s
      using queue_refs_address_unique[OF L(2), of s tx] pop_ok(3,4) tx by auto
    then show "address_to_tx q (ref_address tx) = None"
      using queue_invD(5)[OF pop_ok(1)] by (cases "address_to_tx q (ref_address tx)") auto
  qed
  have fits: "\<forall>tx \<in> set chunk. ref_nonce tx + 1 < felt_prime"
    using inp L(4) unfolding nonces_fit_def by blast
  have "\<exists>m'. enqueue_next_eligible_txs (m\<lparr>mp_queue := q\<rparr>) chunk = Some (m', Inr ()) \<and> queue_inv (mp_queue m') \<and>
    queue_in_pool (mp_pool (m\<lparr>mp_queue := q\<rparr>)) (mp_queue m') \<and>
    gas_price_threshold (mp_queue m') = gas_price_threshold (mp_queue (m\<lparr>mp_queue := q\<rparr>)) \<and>
    queue_refs (mp_queue m') = queue_refs (mp_queue (m\<lparr>mp_queue := q\<rparr>)) \<union>
      {r. \<exists>tx \<in> set chunk. get_by_address_and_nonce (mp_pool (m\<lparr>mp_queue := q\<rparr>)) (ref_address tx) (ref_nonce tx + 1) = Some r}"
    by (rule enqueue_next_eligible_txs_ok)
      (use L(1) pop_ok(1,3,7) free fits queue_in_pool_subset[OF L(3), of q] in auto)
  then obtain m' where m': "enqueue_next_eligible_txs (m\<lparr>mp_queue := q\<rparr>) chunk = Some (m', Inr ())"
    "queue_inv (mp_queue m')" "queue_in_pool (mp_pool m) (mp_queue m')"
    "gas_price_threshold (mp_queue m') = gas_price_threshold (mp_queue m)"
    "queue_refs (mp_queue m') = queue_refs q \<union>
      {r. \<exists>tx \<in> set chunk. get_by_address_and_nonce (mp_pool m) (ref_address tx) (ref_nonce tx + 1) = Some r}"
    using pop_ok(5) by auto
  from enqueue_next_eligible_txs_keeps[OF m'(1)] have keep: "mp_pool m' = mp_pool m"
    "mp_state m' = mp_state m" "mp_config m' = mp_config m" by simp_all
  have cons: "consecutive (stage_map m0 acc) chunk"
    using consecutive_distinct_addresses[OF pop_ok(7)] L(6) pop_ok(4) by auto
  have "at_nonce (stage_map m0 (acc @ chunk)) r" if "r \<in> queue_refs (mp_queue m')" for r
  proof (cases "r \<in> queue_refs q")
    case True
    then have "ref_address r \<notin> ref_address ` set chunk"
      using queue_refs_address_unique[OF L(2), of r] pop_ok(3,4) by auto
    with L(6)[of r] True pop_ok(3) show ?thesis by (simp add: at_nonce_def stage_map_other)
  next
    case False
    with that m'(5) obtain tx where tx: "tx \<in> set chunk"
      "get_by_address_and_nonce (mp_pool m) (ref_address tx) (ref_nonce tx + 1) = Some r" by auto
    with stage_map_member[OF pop_ok(7) tx(1), of "stage_map m0 acc"] pool_invD(4,5)[OF L(1) tx(2)]
    show ?thesis by (simp add: at_nonce_def)
  qed
  with L m' keep cons inp price have "loop_inv m0 m' (acc @ chunk)"
    by (auto simp: loop_inv_def)
  with m' keep show ?thesis by auto
qed

lemma get_txs_loop_ok:
  assumes "loop_inv m0 m acc"
  shows "\<exists>m' refs. get_txs_loop m n acc = Some (m', Inr refs) \<and> loop_inv m0 m' refs \<and>
    mp_pool m' = mp_pool m \<and> mp_state m' = mp_state m \<and> mp_config m' = mp_config m \<and>
    gas_price_threshold (mp_queue m') = gas_price_threshold (mp_queue m) \<and>
    length refs \<le> length acc + n \<and> (length refs < length acc + n \<longrightarrow> priority_queue (mp_queue m') = [])"
  using assms
proof (induction m n acc rule: get_txs_loop.induct)
  case (1 m n acc)
  show ?case
  proof (cases "0 < n \<and> has_ready_txs (mp_queue m)")
    case True
    obtain q chunk where pop: "pop_ready_chunk (mp_queue m) n = (q, chunk)" by force
    have len: "length chunk \<le> n" using pop by (auto simp: pop_ready_chunk_def pop_last_n_eq)
    from loop_step[OF "1.prems" pop] obtain m1 where
      m1: "enqueue_next_eligible_txs (m\<lparr>mp_queue := q\<rparr>) chunk = Some (m1, Inr ())"
      "loop_inv m0 m1 (acc @ chunk)" "mp_pool m1 = mp_pool m" "mp_state m1 = mp_state m"
      "mp_config m1 = mp_config m"
      "gas_price_threshold (mp_queue m1) = gas_price_threshold (mp_queue m)" by blast
    from "1.IH"[OF True refl pop[symmetric] m1(2)] obtain m' refs where
      "get_txs_loop m1 (n - length chunk) (acc @ chunk) = Some (m', Inr refs)" "loop_inv m0 m' refs"
      "mp_pool m' = mp_pool m1" "mp_state m' = mp_state m1" "mp_config m' = mp_config m1"
      "gas_price_threshold (mp_queue m') = gas_price_threshold (mp_queue m1)"
      "length refs \<le> length (acc @ chunk) + (n - length chunk)"
      "length refs < length (acc @ chunk) + (n - length chunk) \<longrightarrow> priority_queue (mp_queue m') = []"
      by blast
    with m1 True pop len show ?thesis
      by (subst get_txs_loop.simps) auto
  next
    case False
    with "1.prems" show ?thesis
      by (subst get_txs_loop.simps) (auto simp: has_ready_txs_def)
  qed
qed

lemma txs_of_refs_ok:
  assumes "pool_inv p" "\<forall>r \<in> set refs. get_by_address_and_nonce p (ref_address r) (ref_nonce r) = Some r"
  shows "\<exists>txs. txs_of_refs p refs = Some txs \<and> map tx_reference_new txs = refs \<and> set txs \<subseteq> pool_txs p"
  using assms(2)
proof (induction refs)
  case (Cons r refs)
  then obtain txs where "txs_of_refs p refs = Some txs" "map tx_reference_new txs = refs"
    "set txs \<subseteq> pool_txs p" by auto
  moreover from Cons.prems pool_invD(6)[OF assms(1), of "ref_address r" "ref_nonce r" r] obtain tx where
    "hash_to_tx p (ref_tx_hash r) = Some tx" "tx_reference_new tx = r" by auto
  ultimately show ?case
    by (auto simp: get_by_tx_hash_def pool_txs_def intro: ranI)
qed simp

lemma get_txs_ok:
  assumes inv: "mempool_inv m" and fit: "nonces_fit (mp_pool m)"
  shows "\<exists>m' txs. get_txs m n = Some (m', Inr txs) \<and> mempool_inv m' \<and> mp_pool m' = mp_pool m \<and>
    mp_config m' = mp_config m \<and>
    gas_price_threshold (mp_queue m') = gas_price_threshold (mp_queue m) \<and>
    set txs \<subseteq> pool_txs (mp_pool m) \<and> length txs \<le> n \<and>
    (length txs < n \<longrightarrow> \<not> has_ready_txs (mp_queue m')) \<and>
    consecutive (map_of (staged (mp_state m))) (map tx_reference_new txs) \<and>
    map_of (staged (mp_state m')) = stage_map (map_of (staged (mp_state m))) (map tx_reference_new txs) \<and>
    (\<forall>tx \<in> set txs. gas_price_threshold (mp_queue m) \<le> tx_max_price_per_unit tx)"
proof -
  let ?m0 = "map_of (staged (mp_state m))"
  from inv fit have "loop_inv ?m0 m []"
    unfolding loop_inv_def mempool_inv_def by simp
  from get_txs_loop_ok[OF this, of n] obtain m1 refs where
    loop: "get_txs_loop m n [] = Some (m1, Inr refs)" "loop_inv ?m0 m1 refs"
    "mp_pool m1 = mp_pool m" "mp_state m1 = mp_state m" "mp_config m1 = mp_config m"
    "gas_price_threshold (mp_queue m1) = gas_price_threshold (mp_queue m)"
    "length refs \<le> n" "length refs < n \<longrightarrow> priority_queue (mp_queue m1) = []"
    by auto
  from loop(2) have L: "pool_inv (mp_pool m1)" "queue_inv (mp_queue m1)"
    "queue_in_pool (mp_pool m1) (mp_queue m1)" "consecutive ?m0 refs"
    "\<forall>r \<in> queue_refs (mp_queue m1). at_nonce (stage_map ?m0 refs) r"
    "\<forall>r \<in> set refs. get_by_address_and_nonce (mp_pool m1) (ref_address r) (ref_nonce r) = Some r"
    "\<forall>r \<in> set refs. gas_price_threshold (mp_queue m1) \<le> ref_max_l2_gas_price r"
    unfolding loop_inv_def by blast+
  from L(6) fit loop(3) have "\<forall>r \<in> set refs. ref_nonce r + 1 < felt_prime"
    unfolding nonces_fit_def by metis
  from stage_all_ok[OF _ this, of "mp_state m1"] L(4) loop(4) obtain s' where
    s': "stage_all (mp_state m1) refs = Some (s', Inr ())" "map_of (staged s') = stage_map ?m0 refs"
    "distinct (map fst (staged (mp_state m))) \<longrightarrow> distinct (map fst (staged s'))"
    by auto
  from txs_of_refs_ok[OF L(1,6)] loop(3) obtain txs where
    txs: "txs_of_refs (mp_pool m1) refs = Some txs" "map tx_reference_new txs = refs"
    "set txs \<subseteq> pool_txs (mp_pool m)" by auto
  have "\<exists>n < k. get_by_address_and_nonce (mp_pool m1) a n \<noteq> None"
    if "map_of (staged s') a = Some k" for a k
    using stage_map_SomeD[of ?m0 refs a k] that mempool_invD(6)[OF inv, of a k] L(6) loop(3)
    by (auto simp: s'(2))
  then have "mempool_inv (m1\<lparr>mp_state := s'\<rparr>)"
    using L s' mempool_invD(4)[OF inv] by (simp add: mempool_inv_def)
  moreover have "get_txs m n = Some (m1\<lparr>mp_state := s'\<rparr>, Inr txs)"
    using loop(1) s'(1) txs(1) by (simp add: get_txs_def)
  moreover have "\<forall>tx \<in> set txs. gas_price_threshold (mp_queue m) \<le> tx_max_price_per_unit tx"
    using L(7) loop(6) txs(2) by (metis (no_types) imageI list.set_map tx_reference_new_simps(5))
  moreover have "length txs = length refs" using txs(2) by (metis length_map)
  ultimately show ?thesis
    using loop L(4) s'(2) txs by (intro exI[of _ "m1\<lparr>mp_state := s'\<rparr>"] exI[of _ txs])
      (auto simp: has_ready_txs_def)
qed

section \<open>Adding transactions\<close>

lemma validate_incoming_tx_Inr:
  "validate_incoming_tx m r = Inr u \<longleftrightarrow> (\<forall>k. state_get (mp_state m) (ref_address r) = Some k \<longrightarrow> k \<le> ref_nonce r)"
  by (auto simp: validate_incoming_tx_def state_validate_incoming_tx_def not_less split: option.splits)

lemma state_get_staged: "map_of (staged s) a = Some k \<Longrightarrow> state_get s a = Some k"
  by (simp add: state_get_def)

lemma handle_fee_escalation_ok:
  assumes inv: "mempool_inv m" and valid: "validate_incoming_tx m (tx_reference_new tx) = Inr u"
  obtains m1 res where "handle_fee_escalation m tx = Some (m1, res)" "mempool_inv m1"
    "mp_state m1 = mp_state m" "mp_config m1 = mp_config m"
    "res \<noteq> Inr () \<Longrightarrow> m1 = m"
    "res = Inr () \<Longrightarrow> get_by_address_and_nonce (mp_pool m1) (tx_contract_address tx) (tx_nonce tx) = None"
    "\<And>a n. (a, n) \<noteq> (tx_contract_address tx, tx_nonce tx) \<Longrightarrow>
      get_by_address_and_nonce (mp_pool m1) a n = get_by_address_and_nonce (mp_pool m) a n"
proof -
  let ?a = "tx_contract_address tx" and ?n = "tx_nonce tx" and ?r = "tx_reference_new tx"
  show ?thesis
  proof (cases "enable_fee_escalation (mp_config m) \<and>
      (\<exists>old. get_by_address_and_nonce (mp_pool m) ?a ?n = Some old \<and> should_replace_tx m old ?r)")
    case False
    then have "\<exists>res. handle_fee_escalation m tx = Some (m, res) \<and>
        (res = Inr () \<longrightarrow> get_by_address_and_nonce (mp_pool m) ?a ?n = None)"
      by (cases "get_by_address_and_nonce (mp_pool m) ?a ?n") (auto simp: handle_fee_escalation_def Let_def)
    then obtain res where "handle_fee_escalation m tx = Some (m, res)"
      "res = Inr () \<longrightarrow> get_by_address_and_nonce (mp_pool m) ?a ?n = None" by blast
    with that[of m res] inv show ?thesis by simp
  next
    case True
    then obtain old where replace: "get_by_address_and_nonce (mp_pool m) ?a ?n = Some old"
      "handle_fee_escalation m tx =
        (let m1 = m\<lparr>mp_queue := fst (queue_remove (mp_queue m) ?a)\<rparr>
         in case pool_remove (mp_pool m1) (ref_tx_hash old) of
              None \<Rightarrow> None | Some (_, Inl _) \<Rightarrow> None
            | Some (p, Inr _) \<Rightarrow> Some (m1\<lparr>mp_pool := p\<rparr>, Inr ()))"
      by (auto simp: handle_fee_escalation_def Let_def)
    note D = mempool_invD[OF inv]
    from pool_invD(6)[OF D(1) replace(1)] obtain t where
      t: "hash_to_tx (mp_pool m) (ref_tx_hash old) = Some t" "tx_reference_new t = old" by blast
    with pool_invD(4,5)[OF D(1) replace(1)] have at: "tx_contract_address t = ?a" "tx_nonce t = ?n" by auto
    from pool_remove_ok[OF D(1) t(1)] at obtain p where
      p: "pool_remove (mp_pool m) (ref_tx_hash old) = Some (p, Inr t)" "pool_inv p"
      "\<And>a n. get_by_address_and_nonce p a n =
        (if a = ?a \<and> n = ?n then None else get_by_address_and_nonce (mp_pool m) a n)" by metis
    obtain q b where q: "queue_remove (mp_queue m) ?a = (q, b)" by force
    note Q = queue_remove_ok[OF D(2) q]
    define m1 where "m1 = m\<lparr>mp_queue := q, mp_pool := p\<rparr>"
    have h: "handle_fee_escalation m tx = Some (m1, Inr ())"
      using replace(2) q p(1) by (simp add: m1_def)
    have "\<exists>n < k. get_by_address_and_nonce p a n \<noteq> None"
      if st: "map_of (staged (mp_state m)) a = Some k" for a k
    proof -
      from D(6)[OF st] obtain n where n: "n < k" "get_by_address_and_nonce (mp_pool m) a n \<noteq> None" by blast
      have "a = ?a \<Longrightarrow> k \<le> ?n"
        using valid st by (auto simp: validate_incoming_tx_Inr dest: state_get_staged)
      with n p(3) show ?thesis by (intro exI[of _ n]) auto
    qed
    moreover have "queue_in_pool p q"
      using D(3) Q(2) p(3) by (auto simp: queue_in_pool_def)
    ultimately have "mempool_inv m1"
      using Q(1,2) p(2) D(4,5) by (simp add: mempool_inv_def m1_def)
    then show ?thesis
      by (rule that[OF h]) (use p(3) in \<open>auto simp: m1_def\<close>)
  qed
qed

lemma get_or_insert_effect:
  assumes "get_or_insert s a n = (s', k)"
  shows "staged s' = staged s" "committed s' = committed s"
    "state_get s' a = Some k" "map_of (staged s) a = Some j \<Longrightarrow> k = j"
  using assms
  by (auto simp: get_or_insert_def state_get_def Let_def split: option.splits if_splits)

lemma add_tx_ok:
  assumes inv: "mempool_inv m" and addr: "acc_address (arg_account_state args) = tx_contract_address (arg_tx args)"
  shows "\<exists>m' res. add_tx m args = Some (m', res) \<and> mempool_inv m' \<and>
    staged (mp_state m') = staged (mp_state m) \<and>
    (\<forall>a n. (a, n) \<noteq> (tx_contract_address (arg_tx args), tx_nonce (arg_tx args)) \<longrightarrow>
       get_by_address_and_nonce (mp_pool m') a n = get_by_address_and_nonce (mp_pool m) a n) \<and>
    (res = Inr () \<longrightarrow> arg_tx args \<in> pool_txs (mp_pool m') \<and>
       (tx_reference_new (arg_tx args) \<in> queue_refs (mp_queue m') \<longleftrightarrow>
          state_get (mp_state m') (tx_contract_address (arg_tx args)) = Some (tx_nonce (arg_tx args)))) \<and>
    (res \<noteq> Inr () \<longrightarrow> m' = m \<or> res = Inl (DuplicateTransaction (tx_tx_hash (arg_tx args))))"
proof (cases "validate_incoming_tx m (tx_reference_new (arg_tx args))")
  case (Inl e)
  with inv show ?thesis by (simp add: add_tx_def)
next
  case (Inr u)
  let ?tx = "arg_tx args" let ?a = "tx_contract_address ?tx" and ?n = "tx_nonce ?tx" and ?r = "tx_reference_new ?tx"
  obtain m1 res where
    h: "handle_fee_escalation m ?tx = Some (m1, res)" "mempool_inv m1" "mp_state m1 = mp_state m"
    "res \<noteq> Inr () \<Longrightarrow> m1 = m"
    "res = Inr () \<Longrightarrow> get_by_address_and_nonce (mp_pool m1) ?a ?n = None"
    "\<And>a n. (a, n) \<noteq> (?a, ?n) \<Longrightarrow>
      get_by_address_and_nonce (mp_pool m1) a n = get_by_address_and_nonce (mp_pool m) a n"
    by (rule handle_fee_escalation_ok[OF inv Inr]) (rule that; assumption)
  note D = mempool_invD[OF h(2)]
  show ?thesis
  proof (cases res)
    case (Inl e)
    with h Inr inv show ?thesis by (simp add: add_tx_def)
  next
    case r: (Inr u')
    show ?thesis
    proof (cases "hash_to_tx (mp_pool m1) (tx_tx_hash ?tx)")
      case (Some t)
      then have "add_tx m args = Some (m1, Inl (DuplicateTransaction (tx_tx_hash ?tx)))"
        using Inr h(1) r by (simp add: add_tx_def pool_insert_def)
      with h show ?thesis by (intro exI[of _ m1] exI[of _ "Inl (DuplicateTransaction (tx_tx_hash ?tx))"]) simp
    next
      case None
      from pool_insert_ok[OF D(1) None] h(5) r obtain p where
        p: "pool_insert (mp_pool m1) ?tx = Some (p, Inr ())" "pool_inv p"
        "hash_to_tx p = (hash_to_tx (mp_pool m1))(tx_tx_hash ?tx \<mapsto> ?tx)"
        "\<And>a n. get_by_address_and_nonce p a n = (if a = ?a \<and> n = ?n then Some ?r
           else get_by_address_and_nonce (mp_pool m1) a n)" by auto
      obtain s k where s: "get_or_insert (mp_state m1) ?a (acc_nonce (arg_account_state args)) = (s, k)" by force
      note S = get_or_insert_effect[OF s]
      have notq: "?r \<notin> queue_refs (mp_queue m1)"
        using D(3) h(5) r by (auto simp: queue_in_pool_def)
      have pool: "queue_in_pool p (mp_queue m1)"
        using D(3) h(5) r p(4) by (auto simp: queue_in_pool_def)
      have mem: "?tx \<in> pool_txs p" using p(2,3) by (simp add: pool_txs_mem)
      have staged: "\<exists>n < j. get_by_address_and_nonce p a n \<noteq> None"
        if "map_of (staged (mp_state m1)) a = Some j" for a j
        using D(6)[OF that] p(4) by force
      let ?m2 = "m1\<lparr>mp_pool := p, mp_state := s\<rparr>"
      show ?thesis
      proof (cases "?n = k")
        case False
        then have "add_tx m args = Some (?m2, Inr ())"
          using Inr h(1) r p(1) s addr by (simp add: add_tx_def Let_def)
        moreover have "mempool_inv ?m2"
          using D(2,4,5) p(2) pool S(1) staged by (simp add: mempool_inv_def)
        ultimately show ?thesis
          using mem S(1,3) False notq h(3,6) p(4)
          by (intro exI[of _ ?m2] exI[of _ "Inr ()"]) auto
      next
        case True
        obtain q b where q: "queue_remove (mp_queue m1) ?a = (q, b)" by force
        note Q = queue_remove_ok[OF D(2) q]
        have "address_to_tx q (ref_address ?r) = None" "queue_in_pool p q"
          "get_by_address_and_nonce p (ref_address ?r) (ref_nonce ?r) = Some ?r"
          using Q(2,5) pool p(4) by (auto simp: queue_in_pool_def)
        from queue_insert_from_pool[OF p(2) Q(1) this(2,1,3)] obtain q' where
          q': "queue_insert q ?r = Some q'" "queue_inv q'" "queue_in_pool p q'"
          "queue_refs q' = insert ?r (queue_refs q)" by blast
        have "at_nonce (map_of (staged s)) x" if "x \<in> queue_refs q'" for x
        proof (cases "x = ?r")
          case True
          with \<open>?n = k\<close> S(1,4) show ?thesis
            by (cases "map_of (staged s) (ref_address x)") (auto simp: at_nonce_def)
        qed (use that q'(4) Q(2) D(5)[of x] S(1) in \<open>auto simp: at_nonce_def\<close>)
        then have "mempool_inv (?m2\<lparr>mp_queue := q'\<rparr>)"
          using D(4) p(2) q'(2,3) S(1) staged by (simp add: mempool_inv_def)
        moreover have "add_tx m args = Some (?m2\<lparr>mp_queue := q'\<rparr>, Inr ())"
          using Inr h(1) r p(1) s addr True q q'(1) by (simp add: add_tx_def Let_def)
        ultimately show ?thesis
          using mem S(1,3) True q'(4) h(3,6) p(4)
          by (intro exI[of _ "?m2\<lparr>mp_queue := q'\<rparr>"] exI[of _ "Inr ()"]) auto
      qed
    qed
  qed
qed

section \<open>Committing a block\<close>

definition queue_of_pool :: "mempool \<Rightarrow> bool" where
  "queue_of_pool m \<longleftrightarrow>
     pool_inv (mp_pool m) \<and> queue_inv (mp_queue m) \<and> queue_in_pool (mp_pool m) (mp_queue m)"

lemma queue_of_poolD:
  assumes "queue_of_pool m"
  shows "pool_inv (mp_pool m)" "queue_inv (mp_queue m)" "queue_in_pool (mp_pool m) (mp_queue m)"
  using assms by (simp_all add: queue_of_pool_def)

lemma mempool_inv_queue_of_pool: "mempool_inv m \<Longrightarrow> queue_of_pool m"
  by (simp add: mempool_inv_def queue_of_pool_def)

lemma get_nonce_None: "get_nonce q a = None \<longleftrightarrow> address_to_tx q a = None"
  by (simp add: get_nonce_def)

text \<open>The first part of \<open>align_address\<close>: whatever stays queued for the address has the next
  nonce.\<close>

lemma drop_outdated_ok:
  assumes inv: "queue_inv q"
  obtains q' where
    "(case get_nonce q a of
        Some queued_nonce \<Rightarrow>
          if queued_nonce \<noteq> k
          then (let (q, removed) = queue_remove q a in do { rs_assert removed; Some q })
          else Some q
      | None \<Rightarrow> Some q) = Some q'"
    "queue_inv q'" "queue_refs q' = {r \<in> queue_refs q. ref_address r = a \<longrightarrow> ref_nonce r = k}"
proof (cases "address_to_tx q a")
  case None
  then have "queue_refs q = {r \<in> queue_refs q. ref_address r = a \<longrightarrow> ref_nonce r = k}"
    using queue_no_address[OF inv None] by blast
  with that[of q] None inv show ?thesis by (simp add: get_nonce_def)
next
  case (Some r)
  then have r: "ref_address r = a" "r \<in> queue_refs q"
    using queue_invD(5)[OF inv] by auto
  have only: "s = r" if "s \<in> queue_refs q" "ref_address s = a" for s
    using queue_refs_address_unique[OF inv that(1) r(2)] that(2) r(1) by simp
  show ?thesis
  proof (cases "ref_nonce r = k")
    case True
    with only have "queue_refs q = {r \<in> queue_refs q. ref_address r = a \<longrightarrow> ref_nonce r = k}" by auto
    with that[of q] Some True inv show ?thesis by (simp add: get_nonce_def)
  next
    case False
    obtain q' b where q': "queue_remove q a = (q', b)" by force
    note Q = queue_remove_ok[OF inv q']
    from Q(2) only False have "queue_refs q' = {r \<in> queue_refs q. ref_address r = a \<longrightarrow> ref_nonce r = k}" by auto
    with that[of q'] Some False q' Q(1,4) show ?thesis by (simp add: get_nonce_def)
  qed
qed

text \<open>The last part of \<open>align_address\<close>: the transaction at the next nonce, if there is one, is
  queued.\<close>

lemma close_gap_ok:
  assumes inv: "pool_inv p" "queue_inv q" "queue_in_pool p q"
    and only: "\<forall>r \<in> queue_refs q. ref_address r = a \<longrightarrow> ref_nonce r = k"
  obtains q' where
    "(if get_nonce q a = None
      then (case get_by_address_and_nonce p a k of
              Some tx_reference \<Rightarrow> queue_insert q tx_reference
            | None \<Rightarrow> Some q)
      else Some q) = Some q'" "queue_inv q'" "queue_in_pool p q'"
    "\<forall>r. r \<in> queue_refs q' \<longleftrightarrow>
      (if ref_address r = a then get_by_address_and_nonce p a k = Some r else r \<in> queue_refs q)"
proof (cases "address_to_tx q a")
  case (Some s)
  then have s: "ref_address s = a" "s \<in> queue_refs q" using queue_invD(5)[OF inv(2)] by auto
  with inv(3) only have g: "get_by_address_and_nonce p a k = Some s"
    by (auto simp: queue_in_pool_def)
  have "r \<in> queue_refs q \<longleftrightarrow> s = r" if "ref_address r = a" for r
    using queue_refs_address_unique[OF inv(2) s(2), of r] s that by metis
  with that[of q] Some inv g show ?thesis by (simp add: get_nonce_def)
next
  case None
  note no = queue_no_address[OF inv(2) None]
  show ?thesis
  proof (cases "get_by_address_and_nonce p a k")
    case n: None
    show ?thesis
      by (rule that[of q]) (use None n inv no in \<open>auto simp: get_nonce_def\<close>)
  next
    case (Some r)
    note R = pool_invD(4,5)[OF inv(1) Some]
    with None Some obtain q' where q': "queue_insert q r = Some q'" "queue_inv q'" "queue_in_pool p q'"
      "queue_refs q' = insert r (queue_refs q)"
      using queue_insert_from_pool[OF inv, of r] by auto
    have "\<forall>s. s \<in> queue_refs q' \<longleftrightarrow>
      (if ref_address s = a then get_by_address_and_nonce p a k = Some s else s \<in> queue_refs q)"
      using no q'(4) R Some by auto
    with that[of q'] None Some q' show ?thesis by (simp add: get_nonce_def)
  qed
qed

lemma align_address_ok:
  assumes inv: "queue_of_pool m" and valid: "\<forall>c. committed (mp_state m) a = Some c \<longrightarrow> c \<le> k"
  shows "\<exists>m'. align_address m a k = Some m' \<and> queue_of_pool m' \<and> mp_state m' = mp_state m \<and>
    mp_config m' = mp_config m \<and>
    (\<forall>b n. get_by_address_and_nonce (mp_pool m') b n =
      (if b = a \<and> n < k then None else get_by_address_and_nonce (mp_pool m) b n)) \<and>
    (\<forall>r. r \<in> queue_refs (mp_queue m') \<longleftrightarrow>
      (if ref_address r = a then get_by_address_and_nonce (mp_pool m) a k = Some r
       else r \<in> queue_refs (mp_queue m)))"
proof -
  note D = queue_of_poolD[OF inv]
  have v: "validate_commitment m a k = Some ()"
    using valid by (auto simp: validate_commitment_def state_validate_commitment_def split: option.splits)
  from drop_outdated_ok[OF D(2), where a = a and k = k] obtain q where
    q: "(case get_nonce (mp_queue m) a of
        Some queued_nonce \<Rightarrow>
          if queued_nonce \<noteq> k
          then (let (q, removed) = queue_remove (mp_queue m) a in do { rs_assert removed; Some q })
          else Some (mp_queue m)
      | None \<Rightarrow> Some (mp_queue m)) = Some q"
    "queue_inv q" "queue_refs q = {r \<in> queue_refs (mp_queue m). ref_address r = a \<longrightarrow> ref_nonce r = k}" .
  obtain p where
    p: "pool_remove_up_to_nonce (mp_pool m) a k = Some p" "pool_inv p"
    "\<And>b n. get_by_address_and_nonce p b n =
      (if b = a \<and> n < k then None else get_by_address_and_nonce (mp_pool m) b n)"
    by (rule pool_remove_up_to_nonce_ok[OF D(1), where address = a and k = k]) (rule that; assumption)
  have in_p: "queue_in_pool p q"
    using D(3) q(3) p(3) by (auto simp: queue_in_pool_def)
  from close_gap_ok[OF p(2) q(2) in_p, of a k] q(3) obtain q' where
    q': "(if get_nonce q a = None
      then (case get_by_address_and_nonce p a k of
              Some tx_reference \<Rightarrow> queue_insert q tx_reference
            | None \<Rightarrow> Some q)
      else Some q) = Some q'" "queue_inv q'" "queue_in_pool p q'"
    "\<forall>r. r \<in> queue_refs q' \<longleftrightarrow>
      (if ref_address r = a then get_by_address_and_nonce p a k = Some r else r \<in> queue_refs q)" by blast
  have "align_address m a k = Some (m\<lparr>mp_pool := p, mp_queue := q'\<rparr>)"
    using v q(1) p(1) q'(1) by (simp add: align_address_def)
  moreover have "queue_of_pool (m\<lparr>mp_pool := p, mp_queue := q'\<rparr>)"
    using p(2) q'(2,3) by (simp add: queue_of_pool_def)
  ultimately show ?thesis
    using p(3) q'(4) q(3) by (intro exI[of _ "m\<lparr>mp_pool := p, mp_queue := q'\<rparr>"]) simp
qed

text \<open>After the loop, an account of the block has exactly the transaction at its next nonce
  queued, if the pool has it, and no older transaction in the pool; the other accounts are
  untouched.\<close>

lemma align_addresses_ok:
  assumes "queue_of_pool m" "distinct (map fst l)"
    and "\<forall>(a, k) \<in> set l. \<forall>c. committed (mp_state m) a = Some c \<longrightarrow> c \<le> k"
  shows "\<exists>m'. align_addresses m l = Some m' \<and> queue_of_pool m' \<and> mp_state m' = mp_state m \<and>
    mp_config m' = mp_config m \<and>
    (\<forall>b n. get_by_address_and_nonce (mp_pool m') b n =
      (case map_of l b of
         Some k \<Rightarrow> if n < k then None else get_by_address_and_nonce (mp_pool m) b n
       | None \<Rightarrow> get_by_address_and_nonce (mp_pool m) b n)) \<and>
    (\<forall>r. r \<in> queue_refs (mp_queue m') \<longleftrightarrow>
      (case map_of l (ref_address r) of
         Some k \<Rightarrow> get_by_address_and_nonce (mp_pool m) (ref_address r) k = Some r
       | None \<Rightarrow> r \<in> queue_refs (mp_queue m)))"
  using assms
proof (induction l arbitrary: m)
  case (Cons x l)
  obtain a k where x: "x = (a, k)" by force
  have "\<forall>c. committed (mp_state m) a = Some c \<longrightarrow> c \<le> k" using Cons.prems(3) x by auto
  from align_address_ok[OF Cons.prems(1) this] obtain m1 where
    m1: "align_address m a k = Some m1" "queue_of_pool m1" "mp_state m1 = mp_state m"
    "mp_config m1 = mp_config m"
    "\<And>b n. get_by_address_and_nonce (mp_pool m1) b n =
      (if b = a \<and> n < k then None else get_by_address_and_nonce (mp_pool m) b n)"
    "\<And>r. r \<in> queue_refs (mp_queue m1) \<longleftrightarrow>
      (if ref_address r = a then get_by_address_and_nonce (mp_pool m) a k = Some r
       else r \<in> queue_refs (mp_queue m))" by blast
  have l: "distinct (map fst l)" "map_of l a = None"
    using Cons.prems(2) x by (auto simp: map_of_eq_None_iff)
  have "\<forall>(a, k) \<in> set l. \<forall>c. committed (mp_state m1) a = Some c \<longrightarrow> c \<le> k"
    using Cons.prems(3) m1(3) by auto
  from Cons.IH[OF m1(2) l(1) this] obtain m' where
    m': "align_addresses m1 l = Some m'" "queue_of_pool m'" "mp_state m' = mp_state m1"
    "mp_config m' = mp_config m1"
    "\<And>b n. get_by_address_and_nonce (mp_pool m') b n =
      (case map_of l b of
         Some k \<Rightarrow> if n < k then None else get_by_address_and_nonce (mp_pool m1) b n
       | None \<Rightarrow> get_by_address_and_nonce (mp_pool m1) b n)"
    "\<And>r. r \<in> queue_refs (mp_queue m') \<longleftrightarrow>
      (case map_of l (ref_address r) of
         Some k \<Rightarrow> get_by_address_and_nonce (mp_pool m1) (ref_address r) k = Some r
       | None \<Rightarrow> r \<in> queue_refs (mp_queue m1))" by blast
  have "get_by_address_and_nonce (mp_pool m') b n =
      (case map_of (x # l) b of
         Some k \<Rightarrow> if n < k then None else get_by_address_and_nonce (mp_pool m) b n
       | None \<Rightarrow> get_by_address_and_nonce (mp_pool m) b n)" for b n
    unfolding m'(5) m1(5) using l(2) x by (auto split: option.split)
  moreover have "r \<in> queue_refs (mp_queue m') \<longleftrightarrow>
      (case map_of (x # l) (ref_address r) of
         Some k \<Rightarrow> get_by_address_and_nonce (mp_pool m) (ref_address r) k = Some r
       | None \<Rightarrow> r \<in> queue_refs (mp_queue m))" for r
    unfolding m'(6) m1(5,6) using l(2) x by (auto split: option.split)
  ultimately show ?case
    using m1 m'(1-4) x by (intro exI[of _ m']) simp
qed simp

definition first_of_account :: "transaction_pool \<Rightarrow> transaction_reference \<Rightarrow> bool" where
  "first_of_account p r \<longleftrightarrow>
     get_by_address_and_nonce p (ref_address r) (ref_nonce r) = Some r \<and>
     (\<forall>k < ref_nonce r. get_by_address_and_nonce p (ref_address r) k = None)"

lemma first_of_account_unique:
  "first_of_account p r \<Longrightarrow> first_of_account p s \<Longrightarrow> ref_address r = ref_address s \<Longrightarrow> r = s"
  by (cases "ref_nonce r" "ref_nonce s" rule: linorder_cases) (auto simp: first_of_account_def)

lemma account_txs_sorted_by_nonce_first:
  assumes inv: "pool_inv p" and "get_by_address_and_nonce p a n \<noteq> None"
  obtains r rs where "account_txs_sorted_by_nonce p a = r # rs" "ref_address r = a" "first_of_account p r"
proof -
  from assms(2) obtain l where l: "txs_by_account p a = Some l" "map_of l n \<noteq> None"
    by (auto simp: get_by_address_and_nonce_def ati_get_def split: option.splits)
  then obtain k r l' where l': "l = (k, r) # l'" by (cases l) auto
  from pool_invD(1)[OF inv] l(1) have inc: "increasing fst l" by (auto simp: ati_wf_def)
  have get: "get_by_address_and_nonce p a j = map_of l j" for j
    using l(1) by (simp add: get_by_address_and_nonce_def ati_get_def)
  have k: "get_by_address_and_nonce p a k = Some r" by (simp add: get l')
  note r = pool_invD(4,5)[OF inv k]
  have "map_of l j = None" if "j < k" for j
    using that inc l' by (auto simp: map_of_eq_None_iff dest!: bspec)
  with that[of r "map snd l'"] l' l(1) k r get show ?thesis
    by (simp add: account_txs_sorted_by_nonce_def ati_account_txs_sorted_by_nonce_def first_of_account_def)
qed

lemma rewind_addresses_ok:
  assumes "queue_of_pool m" "distinct as" "\<forall>a \<in> set as. \<exists>n. get_by_address_and_nonce (mp_pool m) a n \<noteq> None"
  shows "\<exists>m'. rewind_addresses m as = Some m' \<and> queue_of_pool m' \<and> mp_pool m' = mp_pool m \<and>
    mp_state m' = mp_state m \<and> mp_config m' = mp_config m \<and>
    (\<forall>r. r \<in> queue_refs (mp_queue m') \<longleftrightarrow>
      (if ref_address r \<in> set as then first_of_account (mp_pool m) r else r \<in> queue_refs (mp_queue m)))"
  using assms
proof (induction as arbitrary: m)
  case (Cons a as)
  note D = queue_of_poolD[OF Cons.prems(1)]
  from Cons.prems(3) obtain n where "get_by_address_and_nonce (mp_pool m) a n \<noteq> None" by auto
  from account_txs_sorted_by_nonce_first[OF D(1) this] obtain r rs where
    r: "account_txs_sorted_by_nonce (mp_pool m) a = r # rs" "ref_address r = a" and
    first: "first_of_account (mp_pool m) r" .
  obtain q b where q: "queue_remove (mp_queue m) a = (q, b)" by force
  note Q = queue_remove_ok[OF D(2) q]
  have "queue_in_pool (mp_pool m) q" "address_to_tx q (ref_address r) = None"
    "get_by_address_and_nonce (mp_pool m) (ref_address r) (ref_nonce r) = Some r"
    using D(3) Q(2,5) r(2) first by (auto simp: queue_in_pool_def first_of_account_def)
  from queue_insert_from_pool[OF D(1) Q(1) this] obtain q' where
    q': "queue_insert q r = Some q'" "queue_inv q'" "queue_in_pool (mp_pool m) q'"
    "queue_refs q' = insert r (queue_refs q)" by blast
  let ?m = "m\<lparr>mp_queue := q'\<rparr>"
  have "\<exists>m'. rewind_addresses ?m as = Some m' \<and> queue_of_pool m' \<and> mp_pool m' = mp_pool ?m \<and>
    mp_state m' = mp_state ?m \<and> mp_config m' = mp_config ?m \<and>
    (\<forall>r. r \<in> queue_refs (mp_queue m') \<longleftrightarrow>
      (if ref_address r \<in> set as then first_of_account (mp_pool ?m) r else r \<in> queue_refs (mp_queue ?m)))"
    by (rule Cons.IH) (use Cons.prems D(1) q' in \<open>auto simp: queue_of_pool_def\<close>)
  then obtain m' where m': "rewind_addresses ?m as = Some m'" "queue_of_pool m'" "mp_pool m' = mp_pool m"
    "mp_state m' = mp_state m" "mp_config m' = mp_config m"
    "\<And>r. r \<in> queue_refs (mp_queue m') \<longleftrightarrow>
      (if ref_address r \<in> set as then first_of_account (mp_pool m) r else r \<in> queue_refs q')" by auto
  have "s \<in> queue_refs (mp_queue m') \<longleftrightarrow>
      (if ref_address s \<in> set (a # as) then first_of_account (mp_pool m) s else s \<in> queue_refs (mp_queue m))" for s
  proof (cases "ref_address s = a")
    case True
    then have "s \<in> queue_refs q' \<longleftrightarrow> s = r" using q'(4) Q(2) r(2) by auto
    moreover have "first_of_account (mp_pool m) s \<longleftrightarrow> s = r"
      using first_of_account_unique[OF first, of s] first True r(2) by metis
    ultimately show ?thesis using True Cons.prems(2) by (simp add: m'(6))
  next
    case False
    then have "s \<in> queue_refs q' \<longleftrightarrow> s \<in> queue_refs (mp_queue m)" using q'(4) Q(2) r(2) by auto
    with False show ?thesis by (simp add: m'(6))
  qed
  with m'(1-5) r(1) q q'(1) show ?case by auto
qed simp

lemma remove_committed_txs_unknown:
  "\<forall>h \<in> set hs. hash_to_tx p h = None \<Longrightarrow> remove_committed_txs p hs = Some p"
  by (induction hs) (simp_all add: pool_remove_def)

text \<open>A block as the batcher reports it: the nonces do not go back, and a transaction of the block
  that the pool knows is below the block's nonce of its account.\<close>

definition block_consistent :: "mempool \<Rightarrow> commit_block_args \<Rightarrow> bool" where
  "block_consistent m args \<longleftrightarrow>
     distinct (map fst (arg_address_to_nonce args)) \<and>
     (\<forall>(a, k) \<in> set (arg_address_to_nonce args). \<forall>c. committed (mp_state m) a = Some c \<longrightarrow> c \<le> k) \<and>
     (\<forall>h \<in> set (arg_tx_hashes args). \<forall>tx. hash_to_tx (mp_pool m) h = Some tx \<longrightarrow>
        (\<exists>k. map_of (arg_address_to_nonce args) (tx_contract_address tx) = Some k \<and> tx_nonce tx < k))"

lemma commit_block_ok:
  assumes inv: "mempool_inv m" and block: "block_consistent m args"
  shows "\<exists>m'. commit_block m args = Some m' \<and> mempool_inv m' \<and> staged (mp_state m') = [] \<and>
    mp_config m' = mp_config m \<and>
    committed (mp_state m') = committed (mp_state m) ++ map_of (arg_address_to_nonce args) \<and>
    (\<forall>b n. get_by_address_and_nonce (mp_pool m') b n =
      (case map_of (arg_address_to_nonce args) b of
         Some k \<Rightarrow> if n < k then None else get_by_address_and_nonce (mp_pool m) b n
       | None \<Rightarrow> get_by_address_and_nonce (mp_pool m) b n)) \<and>
    (\<forall>r. r \<in> queue_refs (mp_queue m') \<longleftrightarrow>
      (case map_of (arg_address_to_nonce args) (ref_address r) of
         Some k \<Rightarrow> get_by_address_and_nonce (mp_pool m) (ref_address r) k = Some r
       | None \<Rightarrow> if map_of (staged (mp_state m)) (ref_address r) = None then r \<in> queue_refs (mp_queue m)
                 else first_of_account (mp_pool m) r))"
proof -
  let ?l = "arg_address_to_nonce args"
  from block have B: "distinct (map fst ?l)"
    "\<forall>(a, k) \<in> set ?l. \<forall>c. committed (mp_state m) a = Some c \<longrightarrow> c \<le> k"
    "\<And>h tx. h \<in> set (arg_tx_hashes args) \<Longrightarrow> hash_to_tx (mp_pool m) h = Some tx \<Longrightarrow>
        \<exists>k. map_of ?l (tx_contract_address tx) = Some k \<and> tx_nonce tx < k"
    unfolding block_consistent_def by blast+
  from align_addresses_ok[OF mempool_inv_queue_of_pool[OF inv] B(1,2)] obtain m1 where
    m1: "align_addresses m ?l = Some m1" "queue_of_pool m1" "mp_state m1 = mp_state m"
    "mp_config m1 = mp_config m"
    "\<And>b n. get_by_address_and_nonce (mp_pool m1) b n =
      (case map_of ?l b of
         Some k \<Rightarrow> if n < k then None else get_by_address_and_nonce (mp_pool m) b n
       | None \<Rightarrow> get_by_address_and_nonce (mp_pool m) b n)"
    "\<And>r. r \<in> queue_refs (mp_queue m1) \<longleftrightarrow>
      (case map_of ?l (ref_address r) of
         Some k \<Rightarrow> get_by_address_and_nonce (mp_pool m) (ref_address r) k = Some r
       | None \<Rightarrow> r \<in> queue_refs (mp_queue m))" by blast
  obtain s as where s: "state_commit (mp_state m1) ?l = (s, as)" by force
  then have S: "staged s = []" "committed s = committed (mp_state m) ++ map_of ?l"
    "as = filter (\<lambda>a. map_of ?l a = None) (map fst (staged (mp_state m)))"
    by (auto simp: state_commit_def m1(3))
  have as: "a \<in> set as \<longleftrightarrow> map_of ?l a = None \<and> map_of (staged (mp_state m)) a \<noteq> None" for a
    by (auto simp: S(3) map_of_eq_None_iff)
  have "\<forall>a \<in> set as. \<exists>n. get_by_address_and_nonce (mp_pool (m1\<lparr>mp_state := s\<rparr>)) a n \<noteq> None"
    using mempool_invD(6)[OF inv] by (fastforce simp: as m1(5))
  moreover have "distinct as" using mempool_invD(4)[OF inv] by (simp add: S(3))
  moreover have "queue_of_pool (m1\<lparr>mp_state := s\<rparr>)" using m1(2) by (simp add: queue_of_pool_def)
  ultimately obtain m2 where m2: "rewind_addresses (m1\<lparr>mp_state := s\<rparr>) as = Some m2" "queue_of_pool m2"
    "mp_pool m2 = mp_pool m1" "mp_state m2 = s" "mp_config m2 = mp_config m"
    "\<And>r. r \<in> queue_refs (mp_queue m2) \<longleftrightarrow>
      (if ref_address r \<in> set as then first_of_account (mp_pool m1) r else r \<in> queue_refs (mp_queue m1))"
    using rewind_addresses_ok[of "m1\<lparr>mp_state := s\<rparr>" as] m1(4) by auto
  have "hash_to_tx (mp_pool m2) h = None" if "h \<in> set (arg_tx_hashes args)" for h
  proof (cases "hash_to_tx (mp_pool m1) h")
    case (Some t)
    note D1 = queue_of_poolD(1)[OF m1(2)] note D = mempool_invD(1)[OF inv]
    from pool_invD(3)[OF D1 Some] m1(5) have
      g: "get_by_address_and_nonce (mp_pool m) (tx_contract_address t) (tx_nonce t) = Some (tx_reference_new t)"
      "\<And>k. map_of ?l (tx_contract_address t) = Some k \<Longrightarrow> \<not> tx_nonce t < k"
      by (auto split: option.splits if_splits)
    from pool_invD(6)[OF D g(1)] pool_invD(2)[OF D1 Some] obtain t' where
      "hash_to_tx (mp_pool m) h = Some t'" "tx_reference_new t' = tx_reference_new t" by auto
    with B(3)[OF that] g(2) show ?thesis by (metis tx_reference_new_simps(1,2))
  qed (simp add: m2(3))
  then have p: "remove_committed_txs (mp_pool m2) (arg_tx_hashes args) = Some (mp_pool m2)"
    by (intro remove_committed_txs_unknown) auto
  have "first_of_account (mp_pool m1) r \<longleftrightarrow> first_of_account (mp_pool m) r" if "map_of ?l (ref_address r) = None" for r
    using that by (simp add: first_of_account_def m1(5))
  then have queue: "r \<in> queue_refs (mp_queue m2) \<longleftrightarrow>
      (case map_of ?l (ref_address r) of
         Some k \<Rightarrow> get_by_address_and_nonce (mp_pool m) (ref_address r) k = Some r
       | None \<Rightarrow> if map_of (staged (mp_state m)) (ref_address r) = None then r \<in> queue_refs (mp_queue m)
                 else first_of_account (mp_pool m) r)" for r
    by (auto simp: m2(6) m1(6) as split: option.split)
  have "commit_block m args = Some m2"
    using m1(1) s m2(1) p by (simp add: commit_block_def)
  moreover have "mempool_inv m2"
    using m2(2,4) S(1) by (simp add: mempool_inv_def queue_of_pool_def at_nonce_def)
  ultimately show ?thesis
    using m2(3-5) S(1,2) m1(5) queue by auto
qed

end
