(* ===== verification/Mempool_Properties.thy ===== *)
theory Mempool_Properties
  imports Mempool_Invariant
begin

text \<open>
  What the mempool guarantees to its clients: properties of the requests
  (\<^verbatim>\<open>add_tx\<close>, \<^verbatim>\<open>get_txs\<close>, \<^verbatim>\<open>commit_block\<close>, \<^verbatim>\<open>update_gas_price_threshold\<close>) and of sequences of them, with
  instances on a small mempool.
\<close>

section \<open>A sample mempool\<close>

definition sample_tx :: "contract_address \<Rightarrow> nonce \<Rightarrow> transaction_hash \<Rightarrow> tip \<Rightarrow> account_transaction" where
  "sample_tx a n h t = \<lparr>tx_contract_address = a, tx_nonce = n, tx_tx_hash = h, tx_tip = t,
     tx_max_price_per_unit = 100, tx_payload = 0\<rparr>"

definition sample_args :: "account_transaction \<Rightarrow> add_transaction_args" where
  "sample_args tx = \<lparr>arg_tx = tx,
     arg_account_state = \<lparr>acc_address = tx_contract_address tx, acc_nonce = 0\<rparr>\<rparr>"

fun add_all :: "mempool \<Rightarrow> account_transaction list \<Rightarrow> mempool" where
  "add_all m [] = m"
| "add_all m (tx # txs) = add_all (fst (the (add_tx m (sample_args tx)))) txs"

definition sample_mempool :: mempool where
  "sample_mempool = add_all mempool_default [sample_tx 1 0 10 5, sample_tx 1 1 11 5, sample_tx 2 0 12 9]"

lemma nonces_fit_add:
  assumes "nonces_fit p" "n + 1 < felt_prime"
    and "\<forall>b k. (b, k) \<noteq> (a, n) \<longrightarrow> get_by_address_and_nonce p' b k = get_by_address_and_nonce p b k"
  shows "nonces_fit p'"
  using assms unfolding nonces_fit_def by (metis Pair_inject)

lemma add_all_inv:
  "mempool_inv m \<Longrightarrow> nonces_fit (mp_pool m) \<Longrightarrow> \<forall>tx \<in> set txs. tx_nonce tx + 1 < felt_prime \<Longrightarrow>
   mempool_inv (add_all m txs) \<and> nonces_fit (mp_pool (add_all m txs))"
proof (induction txs arbitrary: m)
  case (Cons tx txs)
  obtain m' res where m': "add_tx m (sample_args tx) = Some (m', res)" "mempool_inv m'"
    "\<forall>a n. (a, n) \<noteq> (tx_contract_address tx, tx_nonce tx) \<longrightarrow>
       get_by_address_and_nonce (mp_pool m') a n = get_by_address_and_nonce (mp_pool m) a n"
    using add_tx_ok[OF Cons.prems(1), of "sample_args tx"] by (auto simp: sample_args_def)
  have "nonces_fit (mp_pool m')"
    using nonces_fit_add[OF Cons.prems(2) _ m'(3)] Cons.prems(3) by simp
  with Cons m' show ?case by simp
qed simp

lemma sample_mempool_inv: "mempool_inv sample_mempool" "nonces_fit (mp_pool sample_mempool)"
proof -
  have "nonces_fit (mp_pool mempool_default)"
    by (simp add: nonces_fit_def mempool_default_def pool_empty_def get_by_address_and_nonce_def ati_get_def)
  then have "mempool_inv sample_mempool \<and> nonces_fit (mp_pool sample_mempool)"
    unfolding sample_mempool_def
    by (intro add_all_inv mempool_inv_default) (auto simp: sample_tx_def felt_prime_def)
  then show "mempool_inv sample_mempool" "nonces_fit (mp_pool sample_mempool)" by simp_all
qed

lemma sample_get:
  "map_option (map_sum id (map tx_tx_hash) \<circ> snd) (get_txs sample_mempool 5) = Some (Inr [12, 10, 11])"
  by code_simp

section \<open>Properties\<close>

text \<open>C4: Adding a transaction never panics and keeps the mempool's invariant, whatever it returns.
  If it is accepted the transaction is in the pool, and it is queued exactly if its nonce is the
  one the mempool tracks for the account. Transactions of other accounts and nonces stay in the
  pool. If it is rejected the mempool is unchanged, except for a hash that is already known.\<close>

theorem add_tx_keeps_invariant:
  assumes "mempool_inv m" "acc_address (arg_account_state args) = tx_contract_address (arg_tx args)"
  shows "\<exists>m' res. add_tx m args = Some (m', res) \<and> mempool_inv m' \<and>
    staged (mp_state m') = staged (mp_state m) \<and>
    (\<forall>a n. (a, n) \<noteq> (tx_contract_address (arg_tx args), tx_nonce (arg_tx args)) \<longrightarrow>
       get_by_address_and_nonce (mp_pool m') a n = get_by_address_and_nonce (mp_pool m) a n) \<and>
    (res = Inr () \<longrightarrow> arg_tx args \<in> pool_txs (mp_pool m') \<and>
       (tx_reference_new (arg_tx args) \<in> queue_refs (mp_queue m') \<longleftrightarrow>
          state_get (mp_state m') (tx_contract_address (arg_tx args)) = Some (tx_nonce (arg_tx args)))) \<and>
    (res \<noteq> Inr () \<longrightarrow> m' = m \<or> res = Inl (DuplicateTransaction (tx_tx_hash (arg_tx args))))"
  using assms by (rule add_tx_ok)

theorem add_tx_keeps_invariant_witness:
  "\<exists>m' res. add_tx sample_mempool (sample_args (sample_tx 3 0 13 1)) = Some (m', res) \<and> mempool_inv m' \<and>
     staged (mp_state m') = staged (mp_state sample_mempool)"
  using add_tx_keeps_invariant[OF sample_mempool_inv(1), of "sample_args (sample_tx 3 0 13 1)"]
  by (auto simp: sample_args_def)

text \<open>C15: \<open>get_txs\<close> returns at most the requested number of transactions of the pool, and fewer only
  if no ready transaction is left; each pays at least the gas price threshold. Per account the
  nonces are consecutive, starting at the nonce staged for it, and the staged nonces move past
  them. It never panics or fails (for nonces that can be incremented) and keeps the invariant and
  the pool.\<close>

theorem get_txs_returns_consecutive_ready_txs:
  assumes "mempool_inv m" "nonces_fit (mp_pool m)"
  shows "\<exists>m' txs. get_txs m n = Some (m', Inr txs) \<and> mempool_inv m' \<and> mp_pool m' = mp_pool m \<and>
    set txs \<subseteq> pool_txs (mp_pool m) \<and> length txs \<le> n \<and>
    (length txs < n \<longrightarrow> \<not> has_ready_txs (mp_queue m')) \<and>
    consecutive (map_of (staged (mp_state m))) (map tx_reference_new txs) \<and>
    map_of (staged (mp_state m')) = stage_map (map_of (staged (mp_state m))) (map tx_reference_new txs) \<and>
    (\<forall>tx \<in> set txs. gas_price_threshold (mp_queue m) \<le> tx_max_price_per_unit tx)"
  using get_txs_ok[OF assms, of n] by blast

theorem get_txs_returns_consecutive_ready_txs_witness:
  "\<exists>m' txs. get_txs sample_mempool 5 = Some (m', Inr txs) \<and> map tx_tx_hash txs = [12, 10, 11] \<and>
     mempool_inv m' \<and> \<not> has_ready_txs (mp_queue m')"
proof -
  from get_txs_returns_consecutive_ready_txs[OF sample_mempool_inv, of 5] obtain m' txs where
    g: "get_txs sample_mempool 5 = Some (m', Inr txs)" "mempool_inv m'"
    "length txs < 5 \<longrightarrow> \<not> has_ready_txs (mp_queue m')" by blast
  with sample_get have "map tx_tx_hash txs = [12, 10, 11]" by simp
  moreover from this have "length txs = 3" by (metis length_map length_Cons list.size(3) numeral_3_eq_3)
  ultimately show ?thesis using g by auto
qed

text \<open>C16: Committing a consistent block never panics and keeps the invariant: of the accounts of the
  block the pool loses exactly the transactions below the new nonce, and the transaction at the new
  nonce, if there is one, is queued; an account that was staged but is not in the block gets its
  first transaction of the pool back in the queue; the others keep what they had queued.\<close>

theorem commit_block_aligns_mempool:
  assumes "mempool_inv m" "block_consistent m args"
  shows "\<exists>m'. commit_block m args = Some m' \<and> mempool_inv m' \<and> staged (mp_state m') = [] \<and>
    committed (mp_state m') = committed (mp_state m) ++ map_of (arg_address_to_nonce args) \<and>
    (\<forall>b n. get_by_address_and_nonce (mp_pool m') b n =
      (case map_of (arg_address_to_nonce args) b of
         Some k \<Rightarrow> if n < k then None else get_by_address_and_nonce (mp_pool m) b n
       | None \<Rightarrow> get_by_address_and_nonce (mp_pool m) b n)) \<and>
    (\<forall>r. r \<in> queue_refs (mp_queue m') \<longleftrightarrow>
      (case map_of (arg_address_to_nonce args) (ref_address r) of
         Some k \<Rightarrow> get_by_address_and_nonce (mp_pool m) (ref_address r) k = Some r
       | None \<Rightarrow> if map_of (staged (mp_state m)) (ref_address r) = None then r \<in> queue_refs (mp_queue m)
                 else first_of_account (mp_pool m) r))"
  using commit_block_ok[OF assms] by blast

theorem commit_block_aligns_mempool_witness:
  "\<exists>m'. commit_block sample_mempool \<lparr>arg_address_to_nonce = [(1, 1)], arg_tx_hashes = [10]\<rparr> = Some m' \<and>
     get_by_address_and_nonce (mp_pool m') 1 0 = None \<and>
     tx_reference_new (sample_tx 1 1 11 5) \<in> queue_refs (mp_queue m') \<and>
     tx_reference_new (sample_tx 2 0 12 9) \<in> queue_refs (mp_queue m')"
proof -
  let ?args = "\<lparr>arg_address_to_nonce = [(1, 1)], arg_tx_hashes = [10]\<rparr>"
  have s: "committed (mp_state sample_mempool) 1 = None" "map_of (staged (mp_state sample_mempool)) 2 = None"
    "hash_to_tx (mp_pool sample_mempool) 10 = Some (sample_tx 1 0 10 5)"
    "get_by_address_and_nonce (mp_pool sample_mempool) 1 1 = Some (tx_reference_new (sample_tx 1 1 11 5))"
    "tx_reference_new (sample_tx 2 0 12 9) \<in> queue_refs (mp_queue sample_mempool)"
    by code_simp+
  then have "block_consistent sample_mempool ?args"
    by (simp add: block_consistent_def sample_tx_def)
  from commit_block_aligns_mempool[OF sample_mempool_inv(1) this] show ?thesis
    using s by (fastforce simp: sample_tx_def)
qed

section \<open>Sequences of requests\<close>

text \<open>The requests between two committed blocks, and the transactions handed out during them; an
  error is reported to the client of that request and the mempool goes on.\<close>

datatype mempool_request = AddTx add_transaction_args | GetTxs nat | UpdateThreshold gas_price

fun session :: "mempool \<Rightarrow> mempool_request list \<Rightarrow> (mempool \<times> account_transaction list) option" where
  "session m [] = Some (m, [])"
| "session m (AddTx args # reqs) = do { (m', _) \<leftarrow> add_tx m args; session m' reqs }"
| "session m (GetTxs n # reqs) = do {
     (m', res) \<leftarrow> get_txs m n;
     (m'', txs) \<leftarrow> session m' reqs;
     Some (m'', (case res of Inl _ \<Rightarrow> [] | Inr ts \<Rightarrow> ts) @ txs) }"
| "session m (UpdateThreshold t # reqs) = session (mempool_update_gas_price_threshold m t) reqs"

fun proper_request :: "mempool_request \<Rightarrow> bool" where
  "proper_request (AddTx args) =
     (acc_address (arg_account_state args) = tx_contract_address (arg_tx args) \<and>
      tx_nonce (arg_tx args) + 1 < felt_prime)"
| "proper_request _ = True"

lemma update_threshold_inv:
  "mempool_inv m \<Longrightarrow> mempool_inv (mempool_update_gas_price_threshold m t)"
  using update_gas_price_threshold_ok[of "mp_queue m" t]
  by (simp add: mempool_inv_def mempool_update_gas_price_threshold_def queue_in_pool_def)

lemma session_ok:
  assumes "mempool_inv m" "nonces_fit (mp_pool m)" "list_all proper_request reqs"
  shows "\<exists>m' txs. session m reqs = Some (m', txs) \<and> mempool_inv m' \<and>
    consecutive (map_of (staged (mp_state m))) (map tx_reference_new txs)"
  using assms
proof (induction m reqs rule: session.induct)
  case (2 m args reqs)
  obtain m' res where m': "add_tx m args = Some (m', res)" "mempool_inv m'"
    "staged (mp_state m') = staged (mp_state m)"
    "\<forall>a n. (a, n) \<noteq> (tx_contract_address (arg_tx args), tx_nonce (arg_tx args)) \<longrightarrow>
       get_by_address_and_nonce (mp_pool m') a n = get_by_address_and_nonce (mp_pool m) a n"
    using add_tx_ok[OF "2.prems"(1), of args] "2.prems"(3) by auto
  have "nonces_fit (mp_pool m')"
    using nonces_fit_add[OF "2.prems"(2) _ m'(4)] "2.prems"(3) by simp
  with "2.IH"[of "(m', res)" m' res] m' "2.prems"(3) show ?case by simp
next
  case (3 m n reqs)
  from get_txs_ok[OF "3.prems"(1,2), of n] obtain m' ts where
    m': "get_txs m n = Some (m', Inr ts)" "mempool_inv m'" "mp_pool m' = mp_pool m"
    "consecutive (map_of (staged (mp_state m))) (map tx_reference_new ts)"
    "map_of (staged (mp_state m')) = stage_map (map_of (staged (mp_state m))) (map tx_reference_new ts)"
    by blast
  with "3.IH"[of "(m', Inr ts)" m' "Inr ts"] "3.prems"(2,3) obtain m'' txs where
    "session m' reqs = Some (m'', txs)" "mempool_inv m''"
    "consecutive (stage_map (map_of (staged (mp_state m))) (map tx_reference_new ts)) (map tx_reference_new txs)"
    by auto
  with m' show ?case by auto
next
  case (4 m t reqs)
  then show ?case
    using update_threshold_inv[of m t] by (simp add: mempool_update_gas_price_threshold_def)
qed simp

text \<open>C17: No transaction is handed out twice between two blocks: over any sequence of requests
  without a commit, however additions, replacements and threshold changes are interleaved, the
  transactions returned by all \<open>get_txs\<close> calls together have different accounts or nonces, with the
  nonces of an account in increasing order without gaps; and none of the requests panics.\<close>

theorem session_hands_out_each_tx_once:
  assumes "mempool_inv m" "nonces_fit (mp_pool m)" "list_all proper_request reqs"
  shows "\<exists>m' txs. session m reqs = Some (m', txs) \<and> mempool_inv m' \<and>
    consecutive (map_of (staged (mp_state m))) (map tx_reference_new txs) \<and>
    distinct (map (\<lambda>tx. (tx_contract_address tx, tx_nonce tx)) txs)"
proof -
  from session_ok[OF assms] obtain m' txs where s: "session m reqs = Some (m', txs)" "mempool_inv m'"
    "consecutive (map_of (staged (mp_state m))) (map tx_reference_new txs)" by blast
  from consecutive_distinct[OF s(3)]
  have "distinct (map (\<lambda>tx. (tx_contract_address tx, tx_nonce tx)) txs)" by (simp add: comp_def)
  with s show ?thesis by blast
qed

definition sample_requests :: "mempool_request list" where
  "sample_requests = [GetTxs 1, AddTx (sample_args (sample_tx 2 1 20 9)), GetTxs 1, UpdateThreshold 200, GetTxs 2,
     UpdateThreshold 50, GetTxs 3]"

theorem session_hands_out_each_tx_once_witness:
  "\<exists>m' txs. session sample_mempool sample_requests = Some (m', txs) \<and> map tx_tx_hash txs = [12, 20, 10, 11] \<and>
     distinct (map (\<lambda>tx. (tx_contract_address tx, tx_nonce tx)) txs)"
proof -
  have "list_all proper_request sample_requests"
    by (simp add: sample_requests_def sample_args_def sample_tx_def felt_prime_def)
  from session_hands_out_each_tx_once[OF sample_mempool_inv this] obtain m' txs where
    s: "session sample_mempool sample_requests = Some (m', txs)"
    "distinct (map (\<lambda>tx. (tx_contract_address tx, tx_nonce tx)) txs)" by blast
  have "map_option (map tx_tx_hash \<circ> snd) (session sample_mempool sample_requests) = Some [12, 20, 10, 11]"
    by code_simp
  with s show ?thesis by simp
qed

section \<open>Priorities and fees\<close>

text \<open>The chunk popped from the queue has the highest tips: its transactions come in decreasing
  order of tip (then hash), and every transaction left in the priority queue is below all of
  them.\<close>

theorem pop_ready_chunk_takes_highest_tips:
  assumes "queue_inv q" "pop_ready_chunk q n = (q', txs)"
  shows "length txs = min n (length (priority_queue q)) \<and>
    sorted_wrt (\<lambda>r s. priority_key s < priority_key r) txs \<and>
    (\<forall>r \<in> set txs. \<forall>s \<in> set (priority_queue q'). priority_key s < priority_key r) \<and>
    queue_inv q' \<and> queue_refs q' = queue_refs q - set txs"
proof -
  note P = pop_ready_chunk_ok[OF assms]
  have split: "priority_queue q = priority_queue q' @ rev txs"
    by (simp add: P(2,6) take_rev)
  have inc: "increasing priority_key (priority_queue q' @ rev txs)"
    using queue_invD(1)[OF assms(1)] split by simp
  then have "sorted_wrt (\<lambda>r s. priority_key s < priority_key r) txs"
    by (simp add: increasing_def sorted_wrt_append sorted_wrt_rev)
  with inc P show ?thesis by (auto simp del: increasing_simps simp: increasing_def sorted_wrt_append)
qed

theorem pop_ready_chunk_takes_highest_tips_witness:
  "let (q', txs) = pop_ready_chunk (mp_queue sample_mempool) 1 in
     map ref_tx_hash txs = [12] \<and> map ref_tx_hash (priority_queue q') = [10] \<and>
     list_all (\<lambda>r. list_all (\<lambda>s. priority_key s < priority_key r) (priority_queue q')) txs"
proof -
  obtain q' txs where p: "pop_ready_chunk (mp_queue sample_mempool) 1 = (q', txs)" by force
  have "(case pop_ready_chunk (mp_queue sample_mempool) 1 of (q', txs) \<Rightarrow>
     map ref_tx_hash txs = [12] \<and> map ref_tx_hash (priority_queue q') = [10])"
    by code_simp
  with p pop_ready_chunk_takes_highest_tips[OF mempool_invD(2)[OF sample_mempool_inv(1)] p] show ?thesis
    by (simp add: list_all_iff)
qed

text \<open>A fee bump is accepted exactly if the new value is at least the old one increased by the
  configured percentage, rounded down, computed without overflow in 128 bits.\<close>

theorem increased_enough_iff:
  "increased_enough m existing incoming \<longleftrightarrow>
     unat existing * unat (fee_escalation_percentage (mp_config m)) < 2 ^ 128 \<and>
     unat existing + unat existing * unat (fee_escalation_percentage (mp_config m)) div 100 \<le> unat incoming"
proof -
  let ?p = "fee_escalation_percentage (mp_config m)"
  let ?prod = "unat existing * unat ?p"
  have p: "unat (ucast ?p :: u128) = unat ?p"
  proof -
    have "unat ?p < 2 ^ LENGTH(8)" by (rule unsigned_less)
    then show ?thesis by (simp add: unsigned_ucast_eq take_bit_nat_eq_self_iff)
  qed
  have inc: "unat incoming < 2 ^ 128"
    using unsigned_less[of incoming, where 'a = nat] by simp
  show ?thesis
  proof (cases "?prod < 2 ^ 128")
    case False
    then show ?thesis by (simp add: increased_enough_def checked_mul_def p)
  next
    case True
    then have v: "unat (existing * ucast ?p) = ?prod"
      by (simp add: unat_word_ariths p)
    then have d: "unat (existing * ucast ?p div 100) = ?prod div 100"
      by (simp add: unat_div)
    show ?thesis
    proof (cases "unat existing + ?prod div 100 < 2 ^ 128")
      case True
      then have "unat (existing + existing * ucast ?p div 100) = unat existing + ?prod div 100"
        by (simp add: unat_word_ariths(1) d)
      with True \<open>?prod < 2 ^ 128\<close> show ?thesis
        by (simp add: increased_enough_def checked_mul_def checked_add_def p d word_le_nat_alt)
    next
      case False
      with inc \<open>?prod < 2 ^ 128\<close> show ?thesis
        by (simp add: increased_enough_def checked_mul_def checked_add_def p d)
    qed
  qed
qed

text \<open>C18: Replacing a transaction by fee escalation always takes the account's transaction out of
  the queue, whichever nonce is replaced, and the incoming transaction takes its place only if it
  is the one at the account's nonce: when a later transaction of the account is replaced, the
  account is left without a queued transaction although the pool still holds the one at its
  nonce.\<close>

theorem replacing_a_later_tx_unqueues_the_account:
  assumes "mempool_inv m" "acc_address (arg_account_state args) = tx_contract_address (arg_tx args)"
    and "get_by_address_and_nonce (mp_pool m) (tx_contract_address (arg_tx args)) (tx_nonce (arg_tx args)) \<noteq> None"
    and "add_tx m args = Some (m', Inr ())"
    and "state_get (mp_state m') (tx_contract_address (arg_tx args)) \<noteq> Some (tx_nonce (arg_tx args))"
  shows "get_nonce (mp_queue m') (tx_contract_address (arg_tx args)) = None"
proof -
  let ?tx = "arg_tx args" let ?a = "tx_contract_address ?tx"
  obtain m1 where h: "handle_fee_escalation m ?tx = Some (m1, Inr ())"
    and rest: "(case pool_insert (mp_pool m1) ?tx of
        None \<Rightarrow> None
      | Some (p, Inl e) \<Rightarrow> Some (m1\<lparr>mp_pool := p\<rparr>, Inl e)
      | Some (p, Inr _) \<Rightarrow>
         (let (s, k) = get_or_insert (mp_state m1) (acc_address (arg_account_state args))
                (acc_nonce (arg_account_state args));
              m2 = m1\<lparr>mp_pool := p, mp_state := s\<rparr>
          in if ref_nonce (tx_reference_new ?tx) = k
             then do { q \<leftarrow> queue_insert (fst (queue_remove (mp_queue m2)
                               (acc_address (arg_account_state args)))) (tx_reference_new ?tx);
                       Some (m2\<lparr>mp_queue := q\<rparr>, Inr ()) }
             else Some (m2, Inr ()))) = Some (m', Inr ())"
    using assms(4) by (auto simp: add_tx_def Let_def rs_try_Inr_iff split: sum.splits)
  obtain q b where q: "queue_remove (mp_queue m) ?a = (q, b)" by force
  have "mp_queue m1 = q"
    using h assms(3) q
    by (auto simp: handle_fee_escalation_def Let_def split: if_splits option.splits sum.splits)
  with queue_remove_ok(5)[OF mempool_invD(2)[OF assms(1)] q]
  have none: "address_to_tx (mp_queue m1) ?a = None" by simp
  obtain s k where s: "get_or_insert (mp_state m1) ?a (acc_nonce (arg_account_state args)) = (s, k)" by force
  from rest get_or_insert_effect(3)[OF s] assms(2,5) have "mp_queue m' = mp_queue m1"
    by (auto simp: s Let_def bind_eq_Some_conv split: option.splits sum.splits if_splits)
  with none show ?thesis by (simp add: get_nonce_def)
qed

text \<open>The account 1 of the sample has the nonces 0, which is queued, and 1; a replacement of the
  latter is accepted.\<close>

theorem replacing_a_later_tx_unqueues_the_account_witness:
  "\<exists>m'. add_tx sample_mempool (sample_args ((sample_tx 1 1 30 6)\<lparr>tx_max_price_per_unit := 110\<rparr>)) = Some (m', Inr ()) \<and>
     get_nonce (mp_queue sample_mempool) 1 = Some 0 \<and> get_nonce (mp_queue m') 1 = None \<and>
     get_by_address_and_nonce (mp_pool m') 1 0 = Some (tx_reference_new (sample_tx 1 0 10 5))"
proof -
  let ?args = "sample_args ((sample_tx 1 1 30 6)\<lparr>tx_max_price_per_unit := 110\<rparr>)"
  have e: "map_option snd (add_tx sample_mempool ?args) = Some (Inr ())"
    "map_option (\<lambda>(m, _). (state_get (mp_state m) 1, get_by_address_and_nonce (mp_pool m) 1 0))
       (add_tx sample_mempool ?args) = Some (Some 0, Some (tx_reference_new (sample_tx 1 0 10 5)))"
    "get_nonce (mp_queue sample_mempool) 1 = Some 0"
    "get_by_address_and_nonce (mp_pool sample_mempool) 1 1 = Some (tx_reference_new (sample_tx 1 1 11 5))"
    by code_simp+
  then obtain m' where m': "add_tx sample_mempool ?args = Some (m', Inr ())" by auto
  with replacing_a_later_tx_unqueues_the_account[OF sample_mempool_inv(1) _ _ m'] e show ?thesis
    by (simp add: sample_args_def sample_tx_def)
qed

end
