(* ===== verification/Stream_Handler.thy ===== *)
theory Stream_Handler
  imports Sequencer_Prelude "HOL-Library.Multiset"
begin

text \<open>
  \<^verbatim>\<open>crates/sequencing/papyrus_consensus/src/stream_handler.rs\<close>: streams of messages over a network
  that reorders them. The channels of the \<^verbatim>\<open>futures\<close> crate are a store \<open>channels\<close>, indexed by the
  number of their creation; a channel is what was sent into it and whether its sender is gone.
  Whether a send succeeds depends on the other end and is a parameter: \<open>ch_try_send\<close> for the
  channels of the streams, \<open>ch_app_accepts\<close> for the channel on which the receivers are handed to
  the application, \<open>ch_network_accepts\<close> for the messages that are sent to the network. \<^verbatim>\<open>run\<close>, which waits for the next message in a \<^verbatim>\<open>select!\<close>, is the
  sequence of the calls of the handlers below.
\<close>

section \<open>Model\<close>

type_synonym stream_key = "nat \<times> u64"

datatype 'a stream_message_body = Content 'a | Fin

record 'a stream_message =
  sm_message :: "'a stream_message_body"
  sm_stream_id :: u64
  sm_message_id :: u64

datatype try_send_result = SendOk | SendDisconnected | SendFull

record 'a channel =
  ch_sent :: "'a list"
  ch_closed :: bool

record 'a channel_env =
  ch_try_send :: "nat \<Rightarrow> 'a list \<Rightarrow> try_send_result"
  ch_app_accepts :: "nat list \<Rightarrow> bool"
  ch_network_accepts :: "'a stream_message list \<Rightarrow> 'a stream_message \<Rightarrow> bool"

record 'a stream_data =
  next_message_id :: u64
  fin_message_id :: "u64 option"
  max_message_id_received :: u64
  sd_receiver :: "nat option"
  sd_sender :: nat
  message_buffer :: "(u64 \<times> 'a stream_message) list"

record 'a stream_handler =
  inbound_stream_data :: "stream_key \<rightharpoonup> 'a stream_data"
  sh_channels :: "'a channel list"
  app_receivers :: "nat list"
  outbound_stream_number :: "u64 \<rightharpoonup> u64"
  outbound_sent :: "'a stream_message list"

definition stream_handler_new :: "'a stream_handler" where
  "stream_handler_new = \<lparr>inbound_stream_data = Map.empty, sh_channels = [], app_receivers = [],
     outbound_stream_number = Map.empty, outbound_sent = []\<rparr>"

definition stream_data_new :: "'a stream_handler \<Rightarrow> 'a stream_handler \<times> 'a stream_data" where
  "stream_data_new h =
     (let c = length (sh_channels h)
      in (h\<lparr>sh_channels := sh_channels h @ [\<lparr>ch_sent = [], ch_closed = False\<rparr>]\<rparr>,
          \<lparr>next_message_id = 0, fin_message_id = None, max_message_id_received = 0,
           sd_receiver = Some c, sd_sender = c, message_buffer = []\<rparr>))"

definition send_to :: "'a stream_handler \<Rightarrow> nat \<Rightarrow> 'a \<Rightarrow> 'a stream_handler" where
  "send_to h c x = h\<lparr>sh_channels := (sh_channels h)[c := (sh_channels h ! c)
     \<lparr>ch_sent := ch_sent (sh_channels h ! c) @ [x]\<rparr>]\<rparr>"

definition close_channel :: "'a stream_handler \<Rightarrow> nat \<Rightarrow> 'a stream_handler" where
  "close_channel h c =
     h\<lparr>sh_channels := (sh_channels h)[c := (sh_channels h ! c)\<lparr>ch_closed := True\<rparr>]\<rparr>"

definition inbound_send ::
    "'a channel_env \<Rightarrow> 'a stream_handler \<Rightarrow> 'a stream_data \<Rightarrow> 'a stream_message
      \<Rightarrow> ('a stream_handler \<times> 'a stream_data \<times> bool) option" where
  "inbound_send env h d msg =
     (case sm_message msg of
        Fin \<Rightarrow> Some (h, d, True)
      | Content content \<Rightarrow>
         (case ch_try_send env (sd_sender d) (ch_sent (sh_channels h ! sd_sender d)) of
            SendDisconnected \<Rightarrow> Some (h, d, True)
          | SendFull \<Rightarrow> None
          | SendOk \<Rightarrow>
             (let h1 = send_to h (sd_sender d) content
              in do {
                (h2, d2) \<leftarrow>
                  (if sm_message_id msg = 0 then
                     (case sd_receiver d of
                        None \<Rightarrow> None
                      | Some r \<Rightarrow> do {
                          rs_assert (ch_app_accepts env (app_receivers h1));
                          Some (h1\<lparr>app_receivers := app_receivers h1 @ [r]\<rparr>, d\<lparr>sd_receiver := None\<rparr>) })
                   else Some (h1, d));
                Some (h2, d2\<lparr>next_message_id := next_message_id d2 + 1\<rparr>, False) })))"

lemma inbound_send_buffer:
  "inbound_send env h d msg = Some (h', d', b) \<Longrightarrow> message_buffer d' = message_buffer d"
  by (auto simp: inbound_send_def Let_def bind_eq_Some_conv
      split: stream_message_body.splits try_send_result.splits if_splits option.splits)

lemma map_of_delete_shorter: "map_of al k = Some v \<Longrightarrow> length (AList.delete k al) < length al"
  by (induction al) (auto simp: AList.delete_eq le_imp_less_Suc split: if_splits)

function process_buffer ::
    "'a channel_env \<Rightarrow> 'a stream_handler \<Rightarrow> 'a stream_data
      \<Rightarrow> ('a stream_handler \<times> 'a stream_data \<times> bool) option" where
  "process_buffer env h d =
     (case map_of (message_buffer d) (next_message_id d) of
        None \<Rightarrow> Some (h, d, False)
      | Some msg \<Rightarrow> do {
          (h1, d1, dropped) \<leftarrow>
            inbound_send env h (d\<lparr>message_buffer := AList.delete (next_message_id d) (message_buffer d)\<rparr>) msg;
          if dropped then Some (h1, d1, True) else process_buffer env h1 d1 })"
  by pat_completeness auto
termination process_buffer
  by (relation "measure (\<lambda>(env, h, d). length (message_buffer d))")
    (auto dest!: inbound_send_buffer simp: map_of_delete_shorter)

declare process_buffer.simps [simp del]

definition store :: "'a stream_data \<Rightarrow> 'a stream_message \<Rightarrow> 'a stream_data" where
  "store d msg =
     (if map_of (message_buffer d) (sm_message_id msg) = None
      then d\<lparr>message_buffer := AList.update (sm_message_id msg) msg (message_buffer d)\<rparr>
      else d)"

text \<open>The result is \<open>None\<close> for a panic; its last component is the data to be put back, if any.\<close>

definition handle_message_inner ::
    "'a channel_env \<Rightarrow> 'a stream_handler \<Rightarrow> 'a stream_message \<Rightarrow> 'a stream_data
      \<Rightarrow> ('a stream_handler \<times> 'a stream_data option) option" where
  "handle_message_inner env h msg d0 =
     (let message_id = sm_message_id msg;
          d1 = (if max_message_id_received d0 < message_id
                then d0\<lparr>max_message_id_received := message_id\<rparr> else d0);
          d2 = (case sm_message msg of
                  Content _ \<Rightarrow> d1 | Fin \<Rightarrow> d1\<lparr>fin_message_id := Some message_id\<rparr>)
      in if sm_message msg = Fin \<and> message_id < max_message_id_received d2 then Some (h, None)
         else if (case fin_message_id d2 of None \<Rightarrow> - 1 | Some f \<Rightarrow> f) < message_id then Some (h, None)
         else if message_id = next_message_id d2 then do {
           (h1, d3, dropped1) \<leftarrow> inbound_send env h d2 msg;
           (h2, d4, dropped2) \<leftarrow> (if \<not> dropped1 then process_buffer env h1 d3 else Some (h1, d3, dropped1));
           if message_buffer d4 = [] \<and> fin_message_id d4 \<noteq> None \<or> dropped2
           then Some (close_channel h2 (sd_sender d4), None)
           else Some (h2, Some d4) }
         else if next_message_id d2 < message_id then Some (h, Some (store d2 msg))
         else Some (h, None))"

text \<open>When the data is not put back it is dropped, and its sender with it.\<close>

definition handle_message ::
    "'a channel_env \<Rightarrow> 'a stream_handler \<Rightarrow> nat \<Rightarrow> 'a stream_message option \<Rightarrow> 'a stream_handler option" where
  "handle_message env h originator_id message =
     (case message of
        None \<Rightarrow> Some h
      | Some msg \<Rightarrow>
         (let key = (originator_id, sm_stream_id msg);
              (h1, d) = (case inbound_stream_data h key of
                           Some d \<Rightarrow> (h\<lparr>inbound_stream_data := (inbound_stream_data h)(key := None)\<rparr>, d)
                         | None \<Rightarrow> stream_data_new h)
          in do {
            (h2, put_back) \<leftarrow> handle_message_inner env h1 msg d;
            (case put_back of
               Some d' \<Rightarrow> Some (h2\<lparr>inbound_stream_data := (inbound_stream_data h2)(key \<mapsto> d')\<rparr>)
             | None \<Rightarrow> Some (close_channel h2 (sd_sender d))) }))"

definition broadcast :: "'a channel_env \<Rightarrow> 'a stream_handler \<Rightarrow> u64 \<Rightarrow> 'a \<Rightarrow> 'a stream_handler option" where
  "broadcast env h sid content =
     (let n = (case outbound_stream_number h sid of None \<Rightarrow> 0 | Some n \<Rightarrow> n);
          msg = \<lparr>sm_message = Content content, sm_stream_id = sid, sm_message_id = n\<rparr>
      in do {
        rs_assert (ch_network_accepts env (outbound_sent h) msg);
        Some (h\<lparr>outbound_sent := outbound_sent h @ [msg],
          outbound_stream_number := (outbound_stream_number h)(sid \<mapsto> n + 1)\<rparr>) })"

definition broadcast_fin :: "'a channel_env \<Rightarrow> 'a stream_handler \<Rightarrow> u64 \<Rightarrow> 'a stream_handler option" where
  "broadcast_fin env h sid =
     (let n = (case outbound_stream_number h sid of None \<Rightarrow> 0 | Some n \<Rightarrow> n);
          msg = \<lparr>sm_message = Fin, sm_stream_id = sid, sm_message_id = n\<rparr>
      in do {
        rs_assert (ch_network_accepts env (outbound_sent h) msg);
        Some (h\<lparr>outbound_sent := outbound_sent h @ [msg],
          outbound_stream_number := (outbound_stream_number h)(sid := None)\<rparr>) })"

text \<open>What a stream with the contents \<open>xs\<close> looks like to the handler: the application sends the
  contents and drops its sender.\<close>

fun broadcast_stream :: "'a channel_env \<Rightarrow> 'a stream_handler \<Rightarrow> u64 \<Rightarrow> 'a list \<Rightarrow> 'a stream_handler option" where
  "broadcast_stream env h sid [] = broadcast_fin env h sid"
| "broadcast_stream env h sid (x # xs) = do {
     h' \<leftarrow> broadcast env h sid x;
     broadcast_stream env h' sid xs }"

fun receive_all ::
    "'a channel_env \<Rightarrow> 'a stream_handler \<Rightarrow> nat \<Rightarrow> 'a stream_message list \<Rightarrow> 'a stream_handler option" where
  "receive_all env h peer [] = Some h"
| "receive_all env h peer (msg # msgs) = do {
     h' \<leftarrow> handle_message env h peer (Some msg);
     receive_all env h' peer msgs }"

section \<open>The messages of a stream\<close>

definition stream_msg :: "u64 \<Rightarrow> 'a list \<Rightarrow> nat \<Rightarrow> 'a stream_message" where
  "stream_msg sid cs i = \<lparr>sm_message = (if i < length cs then Content (cs ! i) else Fin),
     sm_stream_id = sid, sm_message_id = of_nat i\<rparr>"

lemma stream_msg_simps [simp]:
  "sm_stream_id (stream_msg sid cs i) = sid" "sm_message_id (stream_msg sid cs i) = of_nat i"
  "sm_message (stream_msg sid cs i) = (if i < length cs then Content (cs ! i) else Fin)"
  by (simp_all add: stream_msg_def)

lemma broadcast_stream_from:
  "broadcast_stream env h sid xs = Some h' \<Longrightarrow>
   (case outbound_stream_number h sid of None \<Rightarrow> 0 | Some n \<Rightarrow> n) = of_nat k \<Longrightarrow> k + length xs = length cs \<Longrightarrow>
   xs = drop k cs \<Longrightarrow>
   outbound_sent h' = outbound_sent h @ map (stream_msg sid cs) [k..<Suc (length cs)]"
proof (induction xs arbitrary: h k)
  case Nil
  then have "k = length cs" by simp
  with Nil(1,2) show ?case by (auto simp: broadcast_fin_def Let_def stream_msg_def)
next
  case (Cons x xs)
  have len: "k < length cs"
    using Cons.prems(3) by (simp add: less_le)
  with Cons.prems(4) have k: "k < length cs" "x = cs ! k" "xs = drop (Suc k) cs"
    by (simp_all add: Cons_nth_drop_Suc[symmetric])
  obtain h1 where h1: "broadcast env h sid x = Some h1" "broadcast_stream env h1 sid xs = Some h'"
    using Cons.prems(1) by (auto simp: bind_eq_Some_conv)
  then have "outbound_sent h' = outbound_sent h1 @ map (stream_msg sid cs) [Suc k..<Suc (length cs)]"
    using Cons.prems(2,3) k(3) by (intro Cons.IH) (auto simp: broadcast_def Let_def)
  moreover have "outbound_sent h1 = outbound_sent h @ [stream_msg sid cs k]"
    using Cons.prems(2) k h1(1) by (auto simp: broadcast_def stream_msg_def Let_def)
  moreover have "[k..<Suc (length cs)] = k # [Suc k..<Suc (length cs)]"
    using k(1) by (simp add: upt_conv_Cons)
  ultimately show ?case by simp
qed

lemma broadcast_stream_messages:
  assumes "broadcast_stream env h sid cs = Some h'" "outbound_stream_number h sid = None"
  shows "outbound_sent h' = outbound_sent h @ map (stream_msg sid cs) [0..<Suc (length cs)]"
  using broadcast_stream_from[OF assms(1), of 0 cs] assms(2) by simp

lemma of_nat_id_less:
  assumes "i < 2 ^ 64" "j < 2 ^ 64"
  shows "(of_nat i :: u64) < of_nat j \<longleftrightarrow> i < j" "(of_nat i :: u64) = of_nat j \<longleftrightarrow> i = j"
proof -
  have u: "unat (of_nat i :: u64) = i" "unat (of_nat j :: u64) = j"
    using assms by (simp_all add: unat_of_nat take_bit_nat_eq_self_iff)
  show "(of_nat i :: u64) < of_nat j \<longleftrightarrow> i < j"
    by (simp only: word_less_nat_alt u)
  show "(of_nat i :: u64) = of_nat j \<longleftrightarrow> i = j"
    using u by metis
qed

section \<open>Receiving in order\<close>

text \<open>The progress of the stream \<open>cs\<close> whose channel is \<open>c\<close> and whose first \<open>k\<close> contents were sent
  into it; \<open>ar\<close> are the receivers the application had before.\<close>

definition at_pos ::
    "'a list \<Rightarrow> nat \<Rightarrow> nat list \<Rightarrow> nat \<Rightarrow> 'a stream_handler \<Rightarrow> 'a stream_data \<Rightarrow> bool" where
  "at_pos cs c ar k h d \<longleftrightarrow>
     k \<le> length cs \<and> next_message_id d = of_nat k \<and> sd_sender d = c \<and>
     sd_receiver d = (if k = 0 then Some c else None) \<and> c < length (sh_channels h) \<and>
     sh_channels h ! c = \<lparr>ch_sent = take k cs, ch_closed = False\<rparr> \<and>
     app_receivers h = ar @ (if k = 0 then [] else [c])"

definition other_channels :: "nat \<Rightarrow> 'a stream_handler \<Rightarrow> 'a stream_handler \<Rightarrow> bool" where
  "other_channels c h h' \<longleftrightarrow>
     inbound_stream_data h' = inbound_stream_data h \<and> length (sh_channels h') = length (sh_channels h) \<and>
     (\<forall>i. i \<noteq> c \<longrightarrow> sh_channels h' ! i = sh_channels h ! i)"

lemma other_channels_refl [simp]: "other_channels c h h"
  by (simp add: other_channels_def)

lemma other_channels_trans: "other_channels c h1 h2 \<Longrightarrow> other_channels c h2 h3 \<Longrightarrow> other_channels c h1 h3"
  by (simp add: other_channels_def)

lemma other_channels_close [simp]: "other_channels c h (close_channel h' c) = other_channels c h h'"
  by (auto simp: other_channels_def close_channel_def)

definition accepting :: "'a channel_env \<Rightarrow> nat list \<Rightarrow> 'a list \<Rightarrow> bool" where
  "accepting env ar cs \<longleftrightarrow>
     (\<forall>c xs. length xs < length cs \<longrightarrow> ch_try_send env c xs = SendOk) \<and> ch_app_accepts env ar"

lemma inbound_send_content:
  assumes "at_pos cs c ar k h d" "accepting env ar cs" "k < length cs" "length cs < 2 ^ 64"
  obtains h' d' where "inbound_send env h d (stream_msg sid cs k) = Some (h', d', False)"
    "at_pos cs c ar (Suc k) h' d'" "other_channels c h h'"
    "d' = d\<lparr>next_message_id := of_nat (Suc k), sd_receiver := None\<rparr>"
proof -
  from assms(1) have A: "next_message_id d = of_nat k" "sd_sender d = c" "sd_receiver d = (if k = 0 then Some c else None)"
    "c < length (sh_channels h)" "sh_channels h ! c = \<lparr>ch_sent = take k cs, ch_closed = False\<rparr>"
    "app_receivers h = ar @ (if k = 0 then [] else [c])"
    by (simp_all add: at_pos_def)
  define h1 where "h1 = send_to h c (cs ! k)"
  define h' where "h' = (if k = 0 then h1\<lparr>app_receivers := ar @ [c]\<rparr> else h1)"
  define d' where "d' = d\<lparr>next_message_id := of_nat (Suc k), sd_receiver := None\<rparr>"
  have zero: "(of_nat k :: u64) = 0 \<longleftrightarrow> k = 0"
    using of_nat_id_less(2)[of k 0] assms(3,4) by simp
  have h': "sh_channels h' = (sh_channels h)[c := \<lparr>ch_sent = take (Suc k) cs, ch_closed = False\<rparr>]"
    "app_receivers h' = ar @ [c]" "inbound_stream_data h' = inbound_stream_data h"
    using A assms(3) by (simp_all add: h'_def h1_def send_to_def take_Suc_conv_app_nth)
  have "at_pos cs c ar (Suc k) h' d'"
    using A assms(3) by (simp add: at_pos_def h' d'_def)
  moreover have "other_channels c h h'"
    by (simp add: other_channels_def h')
  moreover have "inbound_send env h d (stream_msg sid cs k) = Some (h', d', False)"
    using A assms(2,3) zero
    by (cases "k = 0") (simp_all add: inbound_send_def accepting_def h'_def h1_def d'_def add.commute send_to_def)
  ultimately show ?thesis using that by (simp add: d'_def)
qed

lemma inbound_send_fin [simp]: "inbound_send env h d (stream_msg sid cs (length cs)) = Some (h, d, True)"
  by (simp add: inbound_send_def)

definition ids_noted :: "nat set \<Rightarrow> 'a stream_data \<Rightarrow> bool" where
  "ids_noted S d \<longleftrightarrow> (\<forall>i \<in> S. of_nat i \<le> max_message_id_received d)"

lemma ids_noted_update [simp]:
  "ids_noted S (d\<lparr>message_buffer := b\<rparr>) = ids_noted S d"
  "ids_noted S (d\<lparr>next_message_id := x\<rparr>) = ids_noted S d"
  "ids_noted S (d\<lparr>sd_receiver := y\<rparr>) = ids_noted S d"
  "ids_noted {} d"
  by (simp_all add: ids_noted_def)

text \<open>The messages of \<open>S\<close> have arrived; those from \<open>k\<close> on are in the buffer.\<close>

definition pending :: "u64 \<Rightarrow> 'a list \<Rightarrow> nat set \<Rightarrow> nat \<Rightarrow> 'a stream_data \<Rightarrow> bool" where
  "pending sid cs S k d \<longleftrightarrow>
     {..<k} \<subseteq> S \<and> S \<subseteq> {..length cs} \<and>
     fin_message_id d = (if length cs \<in> S then Some (of_nat (length cs)) else None) \<and>
     max_message_id_received d \<le> of_nat (length cs) \<and> ids_noted S d \<and>
     (\<forall>i \<le> length cs. map_of (message_buffer d) (of_nat i) =
        (if i \<in> S \<and> k \<le> i then Some (stream_msg sid cs i) else None))"

lemma pending_buffer:
  "pending sid cs S k d \<Longrightarrow> i \<le> length cs \<Longrightarrow>
   map_of (message_buffer d) (of_nat i) = (if i \<in> S \<and> k \<le> i then Some (stream_msg sid cs i) else None)"
  by (simp add: pending_def)

lemma pending_delete:
  assumes "pending sid cs S k d" "k \<in> S" "k < length cs" "length cs < 2 ^ 64"
    and "d' = d\<lparr>message_buffer := AList.delete (of_nat k) (message_buffer d), next_message_id := x, sd_receiver := y\<rparr>"
  shows "pending sid cs S (Suc k) d'"
proof -
  have "map_of (message_buffer d') (of_nat i) = (if i \<in> S \<and> Suc k \<le> i then Some (stream_msg sid cs i) else None)"
    if "i \<le> length cs" for i
    using pending_buffer[OF assms(1) that] of_nat_id_less(2)[of i k] assms(3,4) that
    by (auto simp: assms(5) delete_conv)
  with assms(1,2) show ?thesis
    by (auto simp: pending_def assms(5) lessThan_Suc)
qed

lemma at_pos_buffer [simp]:
  "at_pos cs c ar k h (d\<lparr>message_buffer := b\<rparr>) = at_pos cs c ar k h d"
  "at_pos cs c ar k h (d\<lparr>max_message_id_received := x\<rparr>) = at_pos cs c ar k h d"
  "at_pos cs c ar k h (d\<lparr>fin_message_id := y\<rparr>) = at_pos cs c ar k h d"
  by (simp_all add: at_pos_def)

lemma process_buffer_ok:
  assumes "at_pos cs c ar k h d" "pending sid cs S k d" "accepting env ar cs" "length cs < 2 ^ 64"
  shows "\<exists>h' d' b. process_buffer env h d = Some (h', d', b) \<and> other_channels c h h' \<and>
    (if b then S = {..length cs} \<and> at_pos cs c ar (length cs) h' d'
     else \<exists>k'. k' \<notin> S \<and> at_pos cs c ar k' h' d' \<and> pending sid cs S k' d')"
  using assms
proof (induction "length cs - k" arbitrary: k h d)
  case 0
  then have k: "k = length cs" "next_message_id d = of_nat k" by (auto simp: at_pos_def)
  show ?case
  proof (cases "k \<in> S")
    case True
    with pending_buffer[OF "0.prems"(2), of k] k have
      "process_buffer env h d = Some (h, d\<lparr>message_buffer := AList.delete (of_nat k) (message_buffer d)\<rparr>, True)"
      by (simp add: process_buffer.simps)
    moreover have "S = {..length cs}"
      using "0.prems"(2) True k(1) by (auto simp: pending_def order_le_less)
    ultimately show ?thesis using "0.prems"(1) k(1) by auto
  next
    case False
    with pending_buffer[OF "0.prems"(2), of k] k "0.prems" show ?thesis
      by (auto simp: process_buffer.simps)
  qed
next
  case (Suc n)
  then have k: "k < length cs" "next_message_id d = of_nat k" by (auto simp: at_pos_def)
  note buf = pending_buffer[OF Suc.prems(2), of k]
  show ?case
  proof (cases "k \<in> S")
    case False
    with buf k Suc.prems show ?thesis by (auto simp: process_buffer.simps)
  next
    case True
    let ?d = "d\<lparr>message_buffer := AList.delete (of_nat k) (message_buffer d)\<rparr>"
    obtain h1 d1 where s: "inbound_send env h ?d (stream_msg sid cs k) = Some (h1, d1, False)"
      "at_pos cs c ar (Suc k) h1 d1" "other_channels c h h1"
      "d1 = ?d\<lparr>next_message_id := of_nat (Suc k), sd_receiver := None\<rparr>"
      using inbound_send_content[of cs c ar k h ?d env sid] Suc.prems k(1) by auto
    have p: "pending sid cs S (Suc k) d1"
      using pending_delete[OF Suc.prems(2) True k(1) Suc.prems(4)] s(4) by simp
    have "n = length cs - Suc k" using Suc.hyps(2) by simp
    from Suc.hyps(1)[OF this s(2) p Suc.prems(3,4)] obtain h' d' b where
      "process_buffer env h1 d1 = Some (h', d', b)" "other_channels c h1 h'"
      "if b then S = {..length cs} \<and> at_pos cs c ar (length cs) h' d'
       else \<exists>k'. k' \<notin> S \<and> at_pos cs c ar k' h' d' \<and> pending sid cs S k' d'" by blast
    moreover have "process_buffer env h d = process_buffer env h1 d1"
      using buf True k s(1) by (subst process_buffer.simps) simp
    ultimately show ?thesis using s(3) other_channels_trans by metis
  qed
qed

text \<open>What \<open>handle_message_inner\<close> notes about an arriving message before it looks at its place.\<close>

definition note_arrival :: "'a stream_message \<Rightarrow> 'a stream_data \<Rightarrow> 'a stream_data" where
  "note_arrival msg d0 =
     (let d1 = (if max_message_id_received d0 < sm_message_id msg
                then d0\<lparr>max_message_id_received := sm_message_id msg\<rparr> else d0)
      in case sm_message msg of Content _ \<Rightarrow> d1 | Fin \<Rightarrow> d1\<lparr>fin_message_id := Some (sm_message_id msg)\<rparr>)"

lemma note_arrival_simps [simp]:
  "message_buffer (note_arrival msg d) = message_buffer d"
  "next_message_id (note_arrival msg d) = next_message_id d"
  "sd_sender (note_arrival msg d) = sd_sender d"
  "at_pos cs c ar k h (note_arrival msg d) = at_pos cs c ar k h d"
  by (auto simp: note_arrival_def Let_def split: stream_message_body.splits)

lemma handle_message_inner_in_order:
  assumes "pending sid cs S k d" "i \<le> length cs" "length cs < 2 ^ 64"
  defines "d2 \<equiv> note_arrival (stream_msg sid cs i) d"
  shows "fin_message_id d2 = (if length cs \<in> insert i S then Some (of_nat (length cs)) else None)"
    and "max_message_id_received d2 \<le> of_nat (length cs)" "ids_noted (insert i S) d2"
    and "handle_message_inner env h (stream_msg sid cs i) d =
      (if of_nat i = next_message_id d2 then do {
         (h1, d3, dropped1) \<leftarrow> inbound_send env h d2 (stream_msg sid cs i);
         (h2, d4, dropped2) \<leftarrow> (if \<not> dropped1 then process_buffer env h1 d3 else Some (h1, d3, dropped1));
         if message_buffer d4 = [] \<and> fin_message_id d4 \<noteq> None \<or> dropped2
         then Some (close_channel h2 (sd_sender d4), None)
         else Some (h2, Some d4) }
       else if next_message_id d2 < of_nat i then Some (h, Some (store d2 (stream_msg sid cs i)))
       else Some (h, None))"
proof -
  from assms(1) have P: "fin_message_id d = (if length cs \<in> S then Some (of_nat (length cs)) else None)"
    "max_message_id_received d \<le> of_nat (length cs)" "ids_noted S d"
    by (auto simp: pending_def)
  have le: "(of_nat i :: u64) \<le> of_nat (length cs)"
    using of_nat_id_less[of i "length cs"] assms(2,3) by (cases "i = length cs") auto
  show fin: "fin_message_id d2 = (if length cs \<in> insert i S then Some (of_nat (length cs)) else None)"
    using P(1) assms(2) by (auto simp: d2_def note_arrival_def Let_def)
  show max: "max_message_id_received d2 \<le> of_nat (length cs)"
    using P(2) le by (auto simp: d2_def note_arrival_def Let_def)
  show "ids_noted (insert i S) d2"
    using P(3) by (auto simp: ids_noted_def d2_def note_arrival_def Let_def)
  have "\<not> (sm_message (stream_msg sid cs i) = Fin \<and> of_nat i < max_message_id_received d2)"
    using max assms(2) by (auto simp: not_less)
  moreover have "\<not> (case fin_message_id d2 of None \<Rightarrow> - 1 | Some f \<Rightarrow> f) < (of_nat i :: u64)"
    using le by (simp add: fin not_less)
  ultimately show "handle_message_inner env h (stream_msg sid cs i) d =
      (if of_nat i = next_message_id d2 then do {
         (h1, d3, dropped1) \<leftarrow> inbound_send env h d2 (stream_msg sid cs i);
         (h2, d4, dropped2) \<leftarrow> (if \<not> dropped1 then process_buffer env h1 d3 else Some (h1, d3, dropped1));
         if message_buffer d4 = [] \<and> fin_message_id d4 \<noteq> None \<or> dropped2
         then Some (close_channel h2 (sd_sender d4), None)
         else Some (h2, Some d4) }
       else if next_message_id d2 < of_nat i then Some (h, Some (store d2 (stream_msg sid cs i)))
       else Some (h, None))"
    unfolding handle_message_inner_def d2_def note_arrival_def
    by (simp only: Let_def stream_msg_simps(2) if_False)
qed

text \<open>The state of the stream after the messages of \<open>S\<close>: finished when all have arrived.\<close>

definition finished :: "'a list \<Rightarrow> nat \<Rightarrow> nat list \<Rightarrow> 'a stream_handler \<Rightarrow> bool" where
  "finished cs c ar h \<longleftrightarrow> c < length (sh_channels h) \<and>
     sh_channels h ! c = \<lparr>ch_sent = cs, ch_closed = True\<rparr> \<and>
     app_receivers h = ar @ (if cs = [] then [] else [c])"

definition outcome ::
    "u64 \<Rightarrow> 'a list \<Rightarrow> nat \<Rightarrow> nat list \<Rightarrow> nat set \<Rightarrow> 'a stream_handler \<Rightarrow> 'a stream_data option \<Rightarrow> bool" where
  "outcome sid cs c ar S h r \<longleftrightarrow>
     (case r of
        None \<Rightarrow> S = {..length cs} \<and> finished cs c ar h
      | Some d \<Rightarrow> \<exists>k. k \<notin> S \<and> at_pos cs c ar k h d \<and> pending sid cs S k d)"

lemma close_at_end: "at_pos cs c ar (length cs) h d \<Longrightarrow> finished cs c ar (close_channel h c)"
  by (auto simp: at_pos_def finished_def close_channel_def)

lemma finished_close [simp]: "finished cs c ar h \<Longrightarrow> finished cs c ar (close_channel h c)"
  by (simp add: finished_def close_channel_def)

lemma pending_open: "pending sid cs S k d \<Longrightarrow> k \<notin> S \<Longrightarrow> k \<le> length cs \<Longrightarrow>
  \<not> (message_buffer d = [] \<and> fin_message_id d \<noteq> None)"
  using pending_buffer[of sid cs S k d "length cs"] by (auto simp: pending_def split: if_splits)

lemma arrival_next:
  assumes A: "at_pos cs c ar k h d" and P: "pending sid cs S k d" and new: "k \<notin> S"
    and env: "accepting env ar cs" "length cs < 2 ^ 64"
  shows "\<exists>h' r. handle_message_inner env h (stream_msg sid cs k) d = Some (h', r) \<and>
    other_channels c h h' \<and> outcome sid cs c ar (insert k S) h' r"
proof -
  define d2 where "d2 = note_arrival (stream_msg sid cs k) d"
  have k: "k \<le> length cs" "next_message_id d2 = of_nat k" using A by (auto simp: at_pos_def d2_def)
  note I = handle_message_inner_in_order[OF P k(1) env(2), folded d2_def]
  show ?thesis
  proof (cases "k = length cs")
    case True
    then have "handle_message_inner env h (stream_msg sid cs k) d = Some (close_channel h c, None)"
      using I(4) k(2) A by (simp add: at_pos_def d2_def)
    moreover have "insert k S = {..length cs}"
      using P True by (auto simp: pending_def order_le_less)
    ultimately show ?thesis
      using close_at_end[of cs c ar h d] A True by (auto simp: outcome_def)
  next
    case False
    with k have lt: "k < length cs" by simp
    obtain h1 d3 where s: "inbound_send env h d2 (stream_msg sid cs k) = Some (h1, d3, False)"
      "at_pos cs c ar (Suc k) h1 d3" "other_channels c h h1"
      "d3 = d2\<lparr>next_message_id := of_nat (Suc k), sd_receiver := None\<rparr>"
      using inbound_send_content[of cs c ar k h d2 env sid] A env lt by (auto simp: d2_def)
    have "i \<in> insert k S \<and> Suc k \<le> i \<longleftrightarrow> i \<in> S \<and> k \<le> i" for i
      using new by (auto simp: Suc_le_eq order_le_less)
    then have "pending sid cs (insert k S) (Suc k) d3"
      using P I(1-3) lt pending_buffer[OF P] unfolding pending_def
      by (simp add: s(4) d2_def lessThan_Suc) auto
    from process_buffer_ok[OF s(2) this env] obtain h2 d4 b where
      p: "process_buffer env h1 d3 = Some (h2, d4, b)" "other_channels c h1 h2"
      "if b then insert k S = {..length cs} \<and> at_pos cs c ar (length cs) h2 d4
       else \<exists>k'. k' \<notin> insert k S \<and> at_pos cs c ar k' h2 d4 \<and> pending sid cs (insert k S) k' d4" by blast
    have oc: "other_channels c h h2" using s(3) p(2) by (rule other_channels_trans)
    show ?thesis
    proof (cases b)
      case True
      then have "sd_sender d4 = c" using p(3) by (simp add: at_pos_def)
      with True I(4) k(2) s(1) p oc close_at_end show ?thesis by (auto simp: outcome_def)
    next
      case False
      with p(3) obtain k' where k': "k' \<notin> insert k S" "at_pos cs c ar k' h2 d4" "pending sid cs (insert k S) k' d4"
        by auto
      then have "\<not> (message_buffer d4 = [] \<and> fin_message_id d4 \<noteq> None)"
        by (intro pending_open) (auto simp: at_pos_def)
      with False I(4) k(2) s(1) p oc k' show ?thesis by (auto simp: outcome_def)
    qed
  qed
qed

lemma arrival_later:
  assumes A: "at_pos cs c ar k h d" and P: "pending sid cs S k d" and k: "k \<notin> S"
    and new: "i \<notin> S" "k < i" "i \<le> length cs" and env: "length cs < 2 ^ 64"
  shows "\<exists>h' r. handle_message_inner env h (stream_msg sid cs i) d = Some (h', r) \<and>
    other_channels c h h' \<and> outcome sid cs c ar (insert i S) h' r"
proof -
  define d2 where "d2 = note_arrival (stream_msg sid cs i) d"
  have nxt: "next_message_id d2 = of_nat k" using A by (auto simp: at_pos_def d2_def)
  note I = handle_message_inner_in_order[OF P new(3) env, folded d2_def]
  have id: "(of_nat k :: u64) < of_nat i"
    using of_nat_id_less(1)[of k i] new env by simp
  then have id': "(of_nat i :: u64) \<noteq> of_nat k" by auto
  have none: "map_of (message_buffer d2) (of_nat i) = None"
    using pending_buffer[OF P new(3)] new(1) by (simp add: d2_def)
  define d3 where "d3 = store d2 (stream_msg sid cs i)"
  have d3: "d3 = d2\<lparr>message_buffer := AList.update (of_nat i) (stream_msg sid cs i) (message_buffer d2)\<rparr>"
    using none by (simp add: d3_def store_def)
  have "map_of (message_buffer d3) (of_nat j) = (if j \<in> insert i S \<and> k \<le> j then Some (stream_msg sid cs j) else None)"
    if "j \<le> length cs" for j
    using pending_buffer[OF P that] of_nat_id_less(2)[of i j] that new env
    by (auto simp: d3 d2_def update_conv)
  then have "pending sid cs (insert i S) k d3"
    using P I(1-3) new by (auto simp: pending_def d3)
  moreover have "at_pos cs c ar k h d3" using A by (simp add: d3 d2_def)
  moreover have "handle_message_inner env h (stream_msg sid cs i) d = Some (h, Some d3)"
    using I(4) nxt id id' by (simp add: d3_def)
  ultimately show ?thesis using k new(2) by (auto simp: outcome_def)
qed

lemma arrival:
  assumes "at_pos cs c ar k h d" "pending sid cs S k d" "k \<notin> S" "i \<notin> S" "i \<le> length cs"
    and "accepting env ar cs" "length cs < 2 ^ 64"
  shows "\<exists>h' r. handle_message_inner env h (stream_msg sid cs i) d = Some (h', r) \<and>
    other_channels c h h' \<and> outcome sid cs c ar (insert i S) h' r"
proof -
  have "\<not> i < k" using assms(2,4) by (auto simp: pending_def)
  then consider "i = k" | "k < i" by linarith
  then show ?thesis
    using arrival_next[of cs c ar k h d sid S env] arrival_later[of cs c ar k h d sid S i env] assms by cases auto
qed

text \<open>A message that is still in the buffer changes nothing when it arrives again; one that was
  already delivered ends the stream.\<close>

lemma repeated_buffered:
  assumes "pending sid cs S k d" "next_message_id d = of_nat k" "i \<in> S" "k < i" "length cs < 2 ^ 64"
  shows "handle_message_inner env h (stream_msg sid cs i) d = Some (h, Some d)"
proof -
  have i: "i \<le> length cs" using assms(1,3) by (auto simp: pending_def)
  note I = handle_message_inner_in_order[OF assms(1) i assms(5)]
  have "\<not> max_message_id_received d < of_nat i"
    using assms(1,3) by (auto simp: pending_def ids_noted_def not_less)
  moreover have "fin_message_id d = Some (of_nat i)" if "i = length cs"
    using assms(1,3) that by (simp add: pending_def)
  ultimately have n: "note_arrival (stream_msg sid cs i) d = d"
    using i by (cases "i = length cs") (simp_all add: note_arrival_def Let_def)
  have "store d (stream_msg sid cs i) = d"
    using pending_buffer[OF assms(1) i] assms(3,4) by (simp add: store_def)
  with I(4) n assms(2) of_nat_id_less[of k i] assms(4,5) i show ?thesis by auto
qed

lemma repeated_delivered:
  assumes "pending sid cs S k d" "next_message_id d = of_nat k" "i < k" "k \<le> length cs" "length cs < 2 ^ 64"
  shows "handle_message_inner env h (stream_msg sid cs i) d = Some (h, None)"
proof -
  have id: "(of_nat i :: u64) < of_nat k" using of_nat_id_less(1)[of i k] assms(3-5) by simp
  then have "(of_nat i :: u64) \<noteq> of_nat k" "\<not> (of_nat k :: u64) < of_nat i" by auto
  with handle_message_inner_in_order(4)[OF assms(1) _ assms(5), of i env h] assms(2-4) show ?thesis by simp
qed

section \<open>Whole streams\<close>

definition stream_state ::
    "nat \<Rightarrow> u64 \<Rightarrow> 'a list \<Rightarrow> nat \<Rightarrow> nat list \<Rightarrow> nat set \<Rightarrow> 'a stream_handler \<Rightarrow> bool" where
  "stream_state peer sid cs c ar S h \<longleftrightarrow>
     (if S = {} then inbound_stream_data h (peer, sid) = None \<and> length (sh_channels h) = c \<and> app_receivers h = ar
      else outcome sid cs c ar S h (inbound_stream_data h (peer, sid)))"

definition same_others :: "stream_key \<Rightarrow> nat \<Rightarrow> 'a stream_handler \<Rightarrow> 'a stream_handler \<Rightarrow> bool" where
  "same_others key c h h' \<longleftrightarrow>
     (\<forall>k. k \<noteq> key \<longrightarrow> inbound_stream_data h' k = inbound_stream_data h k) \<and>
     (\<forall>i < c. sh_channels h' ! i = sh_channels h ! i)"

lemma outcome_data [simp]:
  "outcome sid cs c ar S (h\<lparr>inbound_stream_data := m\<rparr>) r = outcome sid cs c ar S h r"
  by (auto simp: outcome_def at_pos_def finished_def split: option.splits)

lemma outcome_close: "outcome sid cs c ar S h None \<Longrightarrow> outcome sid cs c ar S (close_channel h c) None"
  by (simp add: outcome_def)

lemma handle_message_step:
  assumes st: "stream_state peer sid cs c ar S h" and new: "i \<notin> S" "i \<le> length cs"
    and env: "accepting env ar cs" "length cs < 2 ^ 64"
  shows "\<exists>h'. handle_message env h peer (Some (stream_msg sid cs i)) = Some h' \<and>
    stream_state peer sid cs c ar (insert i S) h' \<and> same_others (peer, sid) c h h'"
proof -
  let ?key = "(peer, sid)"
  obtain h1 d where start: "(case inbound_stream_data h ?key of
        Some d \<Rightarrow> (h\<lparr>inbound_stream_data := (inbound_stream_data h)(?key := None)\<rparr>, d)
      | None \<Rightarrow> stream_data_new h) = (h1, d)" by force
  have "(\<exists>k. at_pos cs c ar k h1 d \<and> pending sid cs S k d \<and> k \<notin> S) \<and> inbound_stream_data h1 ?key = None \<and>
    same_others ?key c h h1"
  proof (cases "S = {}")
    case True
    then have new: "(h1, d) = stream_data_new h" "length (sh_channels h) = c" "app_receivers h = ar"
      "inbound_stream_data h ?key = None"
      using st start by (simp_all add: stream_state_def)
    then have "at_pos cs c ar 0 h1 d \<and> pending sid cs S 0 d"
      using True by (auto simp: at_pos_def pending_def stream_data_new_def Let_def)
    with new True show ?thesis
      by (auto simp: stream_data_new_def Let_def same_others_def nth_append)
  next
    case False
    with st have o: "outcome sid cs c ar S h (inbound_stream_data h ?key)" by (simp add: stream_state_def)
    have "inbound_stream_data h ?key \<noteq> None"
    proof
      assume "inbound_stream_data h ?key = None"
      with o new show False by (simp add: outcome_def)
    qed
    then obtain d' where d': "inbound_stream_data h ?key = Some d'" by blast
    with start have h1: "h1 = h\<lparr>inbound_stream_data := (inbound_stream_data h)(?key := None)\<rparr>" "d = d'"
      by simp_all
    from o d' obtain k where "k \<notin> S" "at_pos cs c ar k h d'" "pending sid cs S k d'"
      by (auto simp: outcome_def)
    then have "\<exists>k. at_pos cs c ar k h1 d \<and> pending sid cs S k d \<and> k \<notin> S"
      by (intro exI[of _ k]) (simp add: h1 at_pos_def)
    then show ?thesis by (simp add: h1 same_others_def)
  qed
  then obtain k where k: "at_pos cs c ar k h1 d" "pending sid cs S k d" "k \<notin> S"
    "inbound_stream_data h1 ?key = None" "same_others ?key c h h1" by blast
  from arrival[OF k(1-3) new env] obtain h2 r where
    r: "handle_message_inner env h1 (stream_msg sid cs i) d = Some (h2, r)" "other_channels c h1 h2"
    "outcome sid cs c ar (insert i S) h2 r" by blast
  have c: "sd_sender d = c" using k(1) by (simp add: at_pos_def)
  have so: "same_others ?key c h h2"
    using k(5) r(2) by (auto simp: same_others_def other_channels_def)
  show ?thesis
  proof (cases r)
    case None
    then have "handle_message env h peer (Some (stream_msg sid cs i)) = Some (close_channel h2 c)"
      using r(1) start c by (simp add: handle_message_def Let_def)
    moreover have "inbound_stream_data h2 ?key = None" using k(4) r(2) by (simp add: other_channels_def)
    ultimately show ?thesis
      using None r(3) so outcome_close[of sid cs c ar "insert i S" h2]
      by (auto simp: stream_state_def same_others_def close_channel_def)
  next
    case (Some d')
    then have "handle_message env h peer (Some (stream_msg sid cs i)) =
        Some (h2\<lparr>inbound_stream_data := (inbound_stream_data h2)(?key \<mapsto> d')\<rparr>)"
      using r(1) start by (simp add: handle_message_def Let_def)
    then show ?thesis
      using Some r(3) so by (auto simp: stream_state_def same_others_def)
  qed
qed

lemma receive_all_ok:
  assumes "stream_state peer sid cs c ar S h" "distinct is" "set is \<inter> S = {}" "set is \<subseteq> {..length cs}"
    and "accepting env ar cs" "length cs < 2 ^ 64"
  shows "\<exists>h'. receive_all env h peer (map (stream_msg sid cs) is) = Some h' \<and>
    stream_state peer sid cs c ar (S \<union> set is) h' \<and> same_others (peer, sid) c h h'"
  using assms
proof (induction "is" arbitrary: S h)
  case (Cons i "is")
  from handle_message_step[OF Cons.prems(1) _ _ Cons.prems(5,6), of i] Cons.prems(3,4) obtain h1 where
    h1: "handle_message env h peer (Some (stream_msg sid cs i)) = Some h1"
    "stream_state peer sid cs c ar (insert i S) h1" "same_others (peer, sid) c h h1" by auto
  from Cons.IH[OF h1(2) _ _ _ Cons.prems(5,6)] Cons.prems(2-4) obtain h' where
    "receive_all env h1 peer (map (stream_msg sid cs) is) = Some h'"
    "stream_state peer sid cs c ar (insert i S \<union> set is) h'" "same_others (peer, sid) c h1 h'" by auto
  with h1 show ?case by (auto simp: same_others_def)
qed (simp add: same_others_def)

lemma mset_map_ex: "mset ms = image_mset f M \<Longrightarrow> \<exists>xs. mset xs = M \<and> ms = map f xs"
proof (induction ms arbitrary: M)
  case (Cons m ms)
  then have "image_mset f M = add_mset m (mset ms)" by simp
  from msed_map_invR[OF this] obtain M1 a where
    a: "M = add_mset a M1" "f a = m" "image_mset f M1 = mset ms" by blast
  from Cons.IH[OF a(3)[symmetric]] obtain xs where "mset xs = M1" "ms = map f xs" by blast
  with a(1,2) have "mset (a # xs) = M \<and> m # ms = map f (a # xs)" by simp
  then show ?case by (rule exI[of _ "a # xs"])
qed simp

section \<open>Properties\<close>

text \<open>C9: Streams survive reordering: if the application streams out the contents \<open>cs\<close> and closes the
  stream, and the messages reach a peer in any order, then the peer's handler sends exactly \<open>cs\<close>, in
  order, into one new channel, closes it and forgets the stream; it hands the channel's receiver to
  the application once (unless the stream is empty); it does not panic and does not touch other
  streams. The channel is assumed to accept as many messages as the stream has, and the application
  to accept a receiver.\<close>

theorem stream_round_trip:
  assumes "outbound_stream_number hs sid = None" "outbound_sent hs = []"
    and "broadcast_stream senv hs sid cs = Some hs'" "mset ms = mset (outbound_sent hs')" "length cs < 2 ^ 64"
    and "inbound_stream_data h (peer, sid) = None" "accepting env (app_receivers h) cs"
  shows "\<exists>h'. receive_all env h peer ms = Some h' \<and>
    inbound_stream_data h' (peer, sid) = None \<and>
    sh_channels h' ! length (sh_channels h) = \<lparr>ch_sent = cs, ch_closed = True\<rparr> \<and>
    app_receivers h' = app_receivers h @ (if cs = [] then [] else [length (sh_channels h)]) \<and>
    same_others (peer, sid) (length (sh_channels h)) h h'"
proof -
  from assms(2,4) broadcast_stream_messages[OF assms(3,1)]
  have "mset ms = image_mset (stream_msg sid cs) (mset [0..<Suc (length cs)])" by simp
  from mset_map_ex[OF this] obtain "is" where
    i: "mset is = mset [0..<Suc (length cs)]" "ms = map (stream_msg sid cs) is"
    by (elim exE conjE) (rule that)
  have d: "distinct is"
    by (rule iffD2[OF mset_eq_imp_distinct_iff[OF i(1)] distinct_upt])
  have s: "set is = {..length cs}"
    by (rule trans[OF mset_eq_setD[OF i(1)]]) (simp add: atLeast0LessThan lessThan_Suc_atMost del: upt_Suc)
  let ?c = "length (sh_channels h)"
  have "stream_state peer sid cs ?c (app_receivers h) {} h"
    using assms(6) by (simp add: stream_state_def)
  from receive_all_ok[OF this d _ _ assms(7,5)] s obtain h' where
    r: "receive_all env h peer (map (stream_msg sid cs) is) = Some h'"
    "stream_state peer sid cs ?c (app_receivers h) {..length cs} h'"
    "same_others (peer, sid) ?c h h'" by auto
  from r(2) have o: "outcome sid cs ?c (app_receivers h) {..length cs} h' (inbound_stream_data h' (peer, sid))"
    by (simp add: stream_state_def split: if_splits)
  then have none: "inbound_stream_data h' (peer, sid) = None"
    by (cases "inbound_stream_data h' (peer, sid)") (auto simp: outcome_def at_pos_def)
  with o have "finished cs ?c (app_receivers h) h'" by (simp add: outcome_def)
  with r none i(2) show ?thesis by (auto simp: finished_def)
qed

text \<open>A channel of the length the code asks for, whose receiver is not read meanwhile: it has room
  for the buffer and one message of its sender.\<close>

definition CHANNEL_BUFFER_LENGTH :: nat where
  "CHANNEL_BUFFER_LENGTH = 100"

definition bounded_env :: "'a channel_env" where
  "bounded_env = \<lparr>
     ch_try_send = (\<lambda>_ xs. if length xs < CHANNEL_BUFFER_LENGTH + 1 then SendOk else SendFull),
     ch_app_accepts = (\<lambda>rs. length rs < CHANNEL_BUFFER_LENGTH + 1),
     ch_network_accepts = (\<lambda>_ _. True)\<rparr>"

theorem stream_round_trip_witness:
  "\<exists>hs h'. broadcast_stream bounded_env (stream_handler_new :: nat stream_handler) 7 [10, 11, 12] = Some hs \<and>
     receive_all bounded_env (stream_handler_new :: nat stream_handler) 3 (rev (outbound_sent hs)) = Some h' \<and>
     sh_channels h' = [\<lparr>ch_sent = [10, 11, 12], ch_closed = True\<rparr>] \<and> app_receivers h' = [0]"
proof -
  let ?new = "stream_handler_new :: nat stream_handler"
  have "broadcast_stream bounded_env ?new 7 [10, 11, 12] \<noteq> None" by code_simp
  then obtain hs where hs: "broadcast_stream bounded_env ?new 7 [10, 11, 12] = Some hs" by blast
  have ms: "outbound_sent hs = map (stream_msg 7 [10, 11, 12]) [0, 1, 2, 3]"
    using broadcast_stream_messages[OF hs] by (simp add: stream_handler_new_def upt_rec)
  let ?ms = "rev (outbound_sent hs)"
  have "accepting bounded_env (app_receivers ?new) [10, 11, 12]"
    by (simp add: accepting_def bounded_env_def CHANNEL_BUFFER_LENGTH_def stream_handler_new_def)
  with stream_round_trip[of ?new 7 bounded_env "[10, 11, 12]" hs ?ms ?new 3 bounded_env] hs obtain h' where
    r: "receive_all bounded_env ?new 3 ?ms = Some h'"
    "sh_channels h' ! 0 = \<lparr>ch_sent = [10, 11, 12], ch_closed = True\<rparr>" "app_receivers h' = [0]"
    by (auto simp: stream_handler_new_def)
  have "map_option (length \<circ> sh_channels) (receive_all bounded_env ?new 3
      (rev (map (stream_msg 7 [10, 11, 12]) [0, 1, 2, 3]))) = Some 1"
    by code_simp
  with r(1) ms have "length (sh_channels h') = 1" by simp
  with r hs show ?thesis by (cases "sh_channels h'") auto
qed

text \<open>C19: What the handler does with a message that it receives twice. Some but not all of the
  messages \<open>is\<close> of a stream have arrived, in any order, and \<open>i\<close> is among them. If everything up to
  \<open>i\<close> has arrived, \<open>i\<close> was already delivered, and the repetition ends the stream: the handler
  forgets it and closes its channel after the first \<open>k\<close> contents, \<open>k\<close> being the first message that
  is missing, so what was buffered behind the gap is lost. Otherwise \<open>i\<close> is still in the buffer,
  and the repetition leaves the handler as it was. Neither panics, and other streams are untouched.\<close>

theorem repeated_message_drops_stream:
  assumes "inbound_stream_data h0 (peer, sid) = None" "accepting env (app_receivers h0) cs" "length cs < 2 ^ 64"
    and "distinct is" "set is \<subset> {..length cs}" "i \<in> set is"
    and "receive_all env h0 peer (map (stream_msg sid cs) is) = Some h"
  shows "if {..i} \<subseteq> set is
    then \<exists>h' k. handle_message env h peer (Some (stream_msg sid cs i)) = Some h' \<and>
      inbound_stream_data h' (peer, sid) = None \<and>
      i < k \<and> {..<k} \<subseteq> set is \<and> k \<notin> set is \<and>
      sh_channels h' ! length (sh_channels h0) = \<lparr>ch_sent = take k cs, ch_closed = True\<rparr> \<and>
      same_others (peer, sid) (length (sh_channels h0)) h h'
    else handle_message env h peer (Some (stream_msg sid cs i)) = Some h"
proof -
  let ?c = "length (sh_channels h0)" and ?ar = "app_receivers h0" and ?key = "(peer, sid)"
  have "stream_state peer sid cs ?c ?ar {} h0" using assms(1) by (simp add: stream_state_def)
  from receive_all_ok[OF this assms(4) _ _ assms(2,3)] assms(5,7)
  have "stream_state peer sid cs ?c ?ar (set is) h" by auto
  with assms(5,6) obtain d k where d: "inbound_stream_data h ?key = Some d" "k \<notin> set is"
    "at_pos cs ?c ?ar k h d" "pending sid cs (set is) k d"
    by (auto simp: stream_state_def outcome_def split: if_splits option.splits)
  then have k: "next_message_id d = of_nat k" "k \<le> length cs" "sd_sender d = ?c" "{..<k} \<subseteq> set is"
    by (auto simp: at_pos_def pending_def)
  have "{..i} \<subseteq> set is \<longleftrightarrow> i < k" using k(4) d(2) by (auto simp: not_less[symmetric])
  moreover have "i \<noteq> k" using d(2) assms(6) by auto
  ultimately show ?thesis
    using repeated_delivered[OF d(4) k(1) _ k(2) assms(3), of i env "h\<lparr>inbound_stream_data := (inbound_stream_data h)(?key := None)\<rparr>"]
      repeated_buffered[OF d(4) k(1) assms(6) _ assms(3), of env "h\<lparr>inbound_stream_data := (inbound_stream_data h)(?key := None)\<rparr>"]
      d(1-3) k
    by (auto simp: handle_message_def close_channel_def same_others_def at_pos_def fun_upd_idem)
qed

definition sample_half_stream :: "nat stream_handler" where
  "sample_half_stream = the (receive_all bounded_env stream_handler_new 3
     (map (stream_msg 7 [10, 11, 12]) [0, 2]))"

theorem repeated_message_drops_stream_witness:
  "(\<exists>h'. handle_message bounded_env sample_half_stream 3 (Some (stream_msg 7 [10, 11, 12] 0)) = Some h' \<and>
      inbound_stream_data h' (3, 7) = None \<and> sh_channels h' ! 0 = \<lparr>ch_sent = [10], ch_closed = True\<rparr>) \<and>
   handle_message bounded_env sample_half_stream 3 (Some (stream_msg 7 [10, 11, 12] 2)) = Some sample_half_stream"
proof -
  let ?new = "stream_handler_new :: nat stream_handler" and ?cs = "[10, 11, 12 :: nat]"
  have "receive_all bounded_env ?new 3 (map (stream_msg 7 ?cs) [0, 2]) \<noteq> None" by code_simp
  then have h: "receive_all bounded_env ?new 3 (map (stream_msg 7 ?cs) [0, 2]) = Some sample_half_stream"
    unfolding sample_half_stream_def by (metis option.exhaust_sel)
  have a: "accepting bounded_env (app_receivers ?new) ?cs" "inbound_stream_data ?new (3, 7) = None"
    "sh_channels ?new = []"
    by (simp_all add: accepting_def bounded_env_def CHANNEL_BUFFER_LENGTH_def stream_handler_new_def)
  have one: "(1 :: nat) \<notin> set [0, 2]" by simp
  have in2: "(1 :: nat) \<in> {..2}" "(1 :: nat) \<in> {..length ?cs}" by simp_all
  have "set [0, 2] \<noteq> {..length ?cs}" using one in2(2) by (metis (no_types))
  moreover have "set [0, 2] \<subseteq> {..length ?cs}" by simp
  ultimately have i: "set [0, 2] \<subset> {..length ?cs}" by (rule psubsetI[rotated])
  have i2: "{..0} \<subseteq> set [0, 2 :: nat]" by simp
  have i3: "\<not> {..2} \<subseteq> set [0, 2 :: nat]" using one in2(1) by (metis (no_types) subsetD)
  note R = repeated_message_drops_stream[OF a(2,1) _ _ i _ h]
  from R[of 0] i2 a(3) obtain h' k where
    r: "handle_message bounded_env sample_half_stream 3 (Some (stream_msg 7 ?cs 0)) = Some h'"
    "inbound_stream_data h' (3, 7) = None" "0 < k" "{..<k} \<subseteq> set [0, 2]"
    "sh_channels h' ! 0 = \<lparr>ch_sent = take k ?cs, ch_closed = True\<rparr>" by auto
  have "k = 1" using r(3,4) one by (metis One_nat_def lessThan_iff nat_neq_iff subsetD less_one)
  with r R[of 2] i3 show ?thesis by simp
qed

end
