(* ===== verification/Fee_Market.thy ===== *)
theory Fee_Market
  imports Sequencer_Prelude
begin

text \<open>
  \<^verbatim>\<open>crates/sequencing/papyrus_consensus_orchestrator/src/fee_market/mod.rs\<close>: the base gas price of
  the next block after EIP-1559. The code computes on 64-bit and 128-bit words and panics where a
  value does not fit; \<open>eip1559_price\<close> is the formula on unbounded numbers.
\<close>

section \<open>The code\<close>

definition GAS_PRICE_MAX_CHANGE_DENOMINATOR :: u128 where
  "GAS_PRICE_MAX_CHANGE_DENOMINATOR = 48"

definition MIN_GAS_PRICE :: u64 where
  "MIN_GAS_PRICE = 100000"

definition MAX_BLOCK_SIZE :: u64 where
  "MAX_BLOCK_SIZE = 4000000000"

definition abs_diff :: "'a::len word \<Rightarrow> 'a word \<Rightarrow> 'a word" where
  "abs_diff a b = (if a < b then b - a else a - b)"

definition calculate_next_base_gas_price :: "u64 \<Rightarrow> u64 \<Rightarrow> u64 \<Rightarrow> u64 option" where
  "calculate_next_base_gas_price price gas_used gas_target = do {
     rs_assert (gas_target = MAX_BLOCK_SIZE div 2);
     rs_assert (MIN_GAS_PRICE \<le> price);
     let gas_delta = abs_diff gas_used gas_target;
     let price_u128 = (ucast price :: u128);
     let gas_delta_u128 = (ucast gas_delta :: u128);
     let gas_target_u128 = (ucast gas_target :: u128);
     gas_delta_cost \<leftarrow> checked_mul price_u128 gas_delta_u128;
     let price_change_u128 = gas_delta_cost div gas_target_u128 div GAS_PRICE_MAX_CHANGE_DENOMINATOR;
     price_change \<leftarrow> u64_try_from price_change_u128;
     let adjusted_price = (if gas_target < gas_used then price + price_change else price - price_change);
     rs_assert (gas_target < gas_used \<and> price \<le> adjusted_price \<or>
                gas_used \<le> gas_target \<and> adjusted_price \<le> price);
     Some (max adjusted_price MIN_GAS_PRICE) }"

section \<open>The formula\<close>

definition min_price :: nat where
  "min_price = 100000"

definition eip1559_target :: nat where
  "eip1559_target = 2000000000"

text \<open>The change of the price: at most a 48th of it for a block of at most twice the target.\<close>

definition eip1559_change :: "nat \<Rightarrow> nat \<Rightarrow> nat" where
  "eip1559_change p used = p * (if eip1559_target < used then used - eip1559_target else eip1559_target - used) div (eip1559_target * 48)"

definition eip1559_price :: "nat \<Rightarrow> nat \<Rightarrow> nat" where
  "eip1559_price p used =
     max min_price (if eip1559_target < used then p + eip1559_change p used else p - eip1559_change p used)"

lemma eip1559_change_le:
  assumes "used \<le> 2 * eip1559_target"
  shows "eip1559_change p used \<le> p div 48"
proof -
  have "p * (if eip1559_target < used then used - eip1559_target else eip1559_target - used) \<le> p * eip1559_target"
    using assms by (intro mult_le_mono2) auto
  then have "eip1559_change p used \<le> p * eip1559_target div (eip1559_target * 48)"
    unfolding eip1559_change_def by (rule div_le_mono)
  also have "\<dots> = p div 48"
    by (simp add: div_mult2_eq eip1559_target_def)
  finally show ?thesis .
qed

lemma eip1559_change_le_price: "used \<le> eip1559_target \<Longrightarrow> eip1559_change p used \<le> p"
  using eip1559_change_le[of used p] div_le_dividend[of p 48] by linarith

lemma eip1559_price_mono_used: "used \<le> used' \<Longrightarrow> eip1559_price p used \<le> eip1559_price p used'"
proof (cases "used' \<le> eip1559_target")
  case True
  assume "used \<le> used'"
  with True have "eip1559_change p used' \<le> eip1559_change p used"
    unfolding eip1559_change_def by (intro div_le_mono mult_le_mono2) auto
  with True \<open>used \<le> used'\<close> show ?thesis by (auto simp: eip1559_price_def)
next
  case False
  assume "used \<le> used'"
  show ?thesis
  proof (cases "used \<le> eip1559_target")
    case True
    with False show ?thesis by (auto simp: eip1559_price_def)
  next
    case above: False
    with False \<open>used \<le> used'\<close> have "eip1559_change p used \<le> eip1559_change p used'"
      unfolding eip1559_change_def by (intro div_le_mono mult_le_mono2) auto
    with False above show ?thesis by (auto simp: eip1559_price_def)
  qed
qed

section \<open>The code computes the formula\<close>

lemma unat_abs_diff: "unat (abs_diff a b) = (if unat b < unat a then unat a - unat b else unat b - unat a)"
  by (auto simp: abs_diff_def word_less_nat_alt unat_sub_if' not_less)

lemma gas_constants:
  "unat (MAX_BLOCK_SIZE div 2) = eip1559_target" "unat MIN_GAS_PRICE = min_price"
  "unat GAS_PRICE_MAX_CHANGE_DENOMINATOR = 48"
  by (simp_all add: MAX_BLOCK_SIZE_def MIN_GAS_PRICE_def GAS_PRICE_MAX_CHANGE_DENOMINATOR_def
    eip1559_target_def min_price_def unat_div)

text \<open>The product of two 64-bit numbers fits 128 bits.\<close>

lemma checked_mul_u64:
  obtains c :: u128 where "checked_mul (ucast (a :: u64)) (ucast (b :: u64)) = Some c" "unat c = unat a * unat b"
proof -
  have "unat a * unat b < 2 ^ 64 * 2 ^ 64"
    using unat_u64[of a] unat_u64[of b] by (intro mult_strict_mono) auto
  then have "unat (ucast a :: u128) * unat (ucast b :: u128) < 2 ^ 128" by simp
  then have "checked_mul (ucast a :: u128) (ucast b) = Some (ucast a * ucast b)"
    by (simp add: checked_mul_def)
  then show thesis using checked_mul_Some_iff[of "ucast a :: u128" "ucast b"] that by simp
qed

lemma eip1559_spec:
  "map_option unat (calculate_next_base_gas_price price gas_used gas_target) =
     (if unat gas_target = eip1559_target \<and> min_price \<le> unat price \<and>
         eip1559_price (unat price) (unat gas_used) < 2 ^ 64
      then Some (eip1559_price (unat price) (unat gas_used)) else None)"
proof (cases "unat gas_target = eip1559_target \<and> min_price \<le> unat price")
  case False
  then have "gas_target \<noteq> MAX_BLOCK_SIZE div 2 \<or> \<not> MIN_GAS_PRICE \<le> price"
    using gas_constants by (auto simp: word_le_nat_alt)
  with False show ?thesis by (auto simp: calculate_next_base_gas_price_def)
next
  case True
  then have t: "gas_target = MAX_BLOCK_SIZE div 2" "MIN_GAS_PRICE \<le> price"
    using gas_constants by (auto simp: word_le_nat_alt word_unat_eq_iff)
  obtain cost where cost: "checked_mul (ucast price :: u128) (ucast (abs_diff gas_used gas_target)) = Some cost"
    "unat cost = unat price * unat (abs_diff gas_used gas_target)"
    by (rule checked_mul_u64)
  define ch where "ch = cost div (ucast gas_target :: u128) div GAS_PRICE_MAX_CHANGE_DENOMINATOR"
  have eq: "calculate_next_base_gas_price price gas_used gas_target =
      (case u64_try_from ch of None \<Rightarrow> None
       | Some c \<Rightarrow> (let a = (if gas_target < gas_used then price + c else price - c)
           in if gas_target < gas_used \<and> price \<le> a \<or> gas_used \<le> gas_target \<and> a \<le> price
              then Some (max a MIN_GAS_PRICE) else None))"
    unfolding calculate_next_base_gas_price_def rs_assert_def Let_def ch_def
    by (subst t(1)[symmetric], subst if_P[OF refl]) (simp add: t(2) cost(1) split: option.splits)
  have ch: "unat ch = eip1559_change (unat price) (unat gas_used)"
    using True by (simp add: ch_def unat_div gas_constants cost(2) unat_abs_diff eip1559_change_def div_mult2_eq)
  show ?thesis
  proof (cases "unat ch < 2 ^ 64")
    case False
    then have "calculate_next_base_gas_price price gas_used gas_target = None"
      by (simp add: eq u64_try_from_eq)
    moreover have "\<not> unat gas_used \<le> eip1559_target"
      using False ch eip1559_change_le_price[of "unat gas_used" "unat price"] unat_u64[of price] by auto
    then have "2 ^ 64 \<le> eip1559_price (unat price) (unat gas_used)"
      using False ch by (simp add: eip1559_price_def)
    ultimately show ?thesis by simp
  next
    case fits: True
    define c where "c = (ucast ch :: u64)"
    have c: "unat c = eip1559_change (unat price) (unat gas_used)"
      using fits ch by (simp add: c_def unat_ucast_u64)
    have eq: "calculate_next_base_gas_price price gas_used gas_target =
        (let a = (if gas_target < gas_used then price + c else price - c)
         in if gas_target < gas_used \<and> price \<le> a \<or> gas_used \<le> gas_target \<and> a \<le> price
            then Some (max a MIN_GAS_PRICE) else None)"
      using fits by (simp add: eq u64_try_from_eq c_def)
    show ?thesis
    proof (cases "eip1559_target < unat gas_used")
      case up: True
      then have "gas_target < gas_used" using True by (simp add: word_less_nat_alt)
      moreover have "price \<le> price + c \<longleftrightarrow> unat price + unat c < 2 ^ 64"
        using unat_u64[of price] unat_u64[of c] by (auto simp: word_le_nat_alt unat_plus_if')
      ultimately show ?thesis
        using up True c by (auto simp: eq Let_def eip1559_price_def max_def word_le_nat_alt unat_plus_if' gas_constants)
    next
      case down: False
      then have "gas_used \<le> gas_target" using True by (simp add: word_le_nat_alt)
      moreover have "c \<le> price"
        using down eip1559_change_le_price[of "unat gas_used" "unat price"] c by (simp add: word_le_nat_alt)
      ultimately show ?thesis
        using down True c unat_u64[of price]
        by (auto simp: eq Let_def eip1559_price_def max_def word_le_nat_alt word_less_nat_alt unat_sub gas_constants)
    qed
  qed
qed

text \<open>C24: The price of the next block is the EIP-1559 formula on unbounded integers: the 64-bit and
  128-bit arithmetic of the code loses nothing. The code panics exactly if the gas target is not half
  the maximal block size, the price is below the minimum, or the increased price does not fit 64
  bits; the assertion on the adjusted price catches the wrap-around of the addition.\<close>

theorem next_base_gas_price_is_eip1559:
  "map_option unat (calculate_next_base_gas_price price gas_used gas_target) =
     (if unat gas_target = eip1559_target \<and> min_price \<le> unat price \<and>
         eip1559_price (unat price) (unat gas_used) < 2 ^ 64
      then Some (eip1559_price (unat price) (unat gas_used)) else None)"
  by (rule eip1559_spec)

text \<open>C25: The price changes slowly: after a block of at most the maximal size, starting from a price
  of at least the minimum that leaves room for the increase, the computation does not panic, the price
  changes by at most a 48th, does not fall below the minimum, does not fall after a block above the
  target and does not rise after a block that is not above it. Fuller blocks never give a lower
  price.\<close>

theorem next_base_gas_price_is_bounded:
  assumes "MIN_GAS_PRICE \<le> price" "unat price + unat price div 48 < 2 ^ 64"
    and "used \<le> used'" "used' \<le> MAX_BLOCK_SIZE"
  shows "\<exists>p p'. calculate_next_base_gas_price price used (MAX_BLOCK_SIZE div 2) = Some p \<and>
    calculate_next_base_gas_price price used' (MAX_BLOCK_SIZE div 2) = Some p' \<and> p \<le> p' \<and>
    MIN_GAS_PRICE \<le> p \<and> unat price - unat price div 48 \<le> unat p \<and>
    unat p' \<le> unat price + unat price div 48 \<and>
    (MAX_BLOCK_SIZE div 2 < used \<longrightarrow> price \<le> p) \<and> (used' \<le> MAX_BLOCK_SIZE div 2 \<longrightarrow> p' \<le> price)"
proof -
  let ?P = "unat price" let ?v = "eip1559_price ?P (unat used)" let ?v' = "eip1559_price ?P (unat used')"
  have m: "min_price \<le> ?P" "unat used \<le> unat used'" "unat used' \<le> 2 * eip1559_target"
    using assms(1,3,4) gas_constants(2)
    by (simp_all add: word_le_nat_alt MAX_BLOCK_SIZE_def eip1559_target_def)
  have le: "eip1559_price ?P u \<le> ?P + ?P div 48" "?P - ?P div 48 \<le> eip1559_price ?P u"
    if "u \<le> 2 * eip1559_target" for u
    using eip1559_change_le[OF that, of ?P] m(1) by (auto simp: eip1559_price_def)
  have calc: "map_option unat (calculate_next_base_gas_price price u (MAX_BLOCK_SIZE div 2)) =
      Some (eip1559_price ?P (unat u))" if "unat u \<le> 2 * eip1559_target" for u
    using le(1)[OF that] assms(2) m(1) by (simp add: eip1559_spec gas_constants)
  obtain p p' where p: "calculate_next_base_gas_price price used (MAX_BLOCK_SIZE div 2) = Some p"
    "calculate_next_base_gas_price price used' (MAX_BLOCK_SIZE div 2) = Some p'" "unat p = ?v" "unat p' = ?v'"
    using calc[of used] calc[of used'] m by auto
  have "?v \<le> ?v'" using m(2) by (rule eip1559_price_mono_used)
  moreover have "min_price \<le> ?v" by (simp add: eip1559_price_def)
  moreover have "MAX_BLOCK_SIZE div 2 < used \<longrightarrow> ?P \<le> ?v" "used' \<le> MAX_BLOCK_SIZE div 2 \<longrightarrow> ?v' \<le> ?P"
    using m(1) by (auto simp: word_less_nat_alt word_le_nat_alt gas_constants eip1559_price_def)
  ultimately show ?thesis
    using p le m by (auto simp: word_le_nat_alt gas_constants)
qed

theorem next_base_gas_price_is_bounded_witness:
  "calculate_next_base_gas_price 1000000 0 (MAX_BLOCK_SIZE div 2) = Some 979167 \<and>
   calculate_next_base_gas_price 1000000 MAX_BLOCK_SIZE (MAX_BLOCK_SIZE div 2) = Some 1020833 \<and>
   (979167 :: u64) \<le> 1020833"
proof -
  have v: "calculate_next_base_gas_price 1000000 0 (MAX_BLOCK_SIZE div 2) = Some 979167"
    "calculate_next_base_gas_price 1000000 MAX_BLOCK_SIZE (MAX_BLOCK_SIZE div 2) = Some 1020833"
    by code_simp+
  have "\<exists>p p'. calculate_next_base_gas_price 1000000 0 (MAX_BLOCK_SIZE div 2) = Some p \<and>
    calculate_next_base_gas_price 1000000 MAX_BLOCK_SIZE (MAX_BLOCK_SIZE div 2) = Some p' \<and> p \<le> p'"
    using next_base_gas_price_is_bounded[of 1000000 0 MAX_BLOCK_SIZE] by (auto simp: MIN_GAS_PRICE_def)
  with v show ?thesis by simp
qed

end
