(* ===== verification/L1_Provider.thy ===== *)
theory L1_Provider
  imports Mempool_Types
begin

text \<open>
  \<^verbatim>\<open>crates/starknet_l1_provider/src/lib.rs\<close> and \<^verbatim>\<open>communication.rs\<close>: the provider of the
  transactions that were sent from L1. The functions whose body is \<^verbatim>\<open>todo!()\<close> have no model. The
  content of a transaction is opaque to the provider, a type variable here; an \<^verbatim>\<open>IndexMap\<close> or
  \<^verbatim>\<open>IndexSet\<close> is a list without repetition in the order of insertion.
\<close>

section \<open>Transaction manager\<close>

fun index_set_extend :: "'k list \<Rightarrow> 'k list \<Rightarrow> 'k list" where
  "index_set_extend s [] = s"
| "index_set_extend s (k # ks) = index_set_extend (if k \<in> set s then s else s @ [k]) ks"

record 'tx transaction_manager =
  tm_txs :: "(transaction_hash \<times> 'tx) list"
  proposed_txs :: "transaction_hash list"
  on_l2_awaiting_l1_consumption :: "transaction_hash list"

definition tm_get_txs :: "'tx transaction_manager \<Rightarrow> nat \<Rightarrow> 'tx transaction_manager \<times> 'tx list" where
  "tm_get_txs tm n_txs =
     (let taken = take n_txs (drop (length (proposed_txs tm)) (tm_txs tm));
          tx_hashes = map fst taken; txs = map snd taken
      in (tm\<lparr>proposed_txs := index_set_extend (proposed_txs tm) tx_hashes\<rparr>, txs))"

datatype validation_status = Validated | AlreadyIncludedOnL2 | ConsumedOnL1OrUnknown

definition tx_status :: "'tx transaction_manager \<Rightarrow> transaction_hash \<Rightarrow> validation_status" where
  "tx_status tm tx_hash =
     (if map_of (tm_txs tm) tx_hash \<noteq> None then Validated
      else if tx_hash \<in> set (on_l2_awaiting_l1_consumption tm) then AlreadyIncludedOnL2
      else ConsumedOnL1OrUnknown)"

section \<open>The provider\<close>

datatype provider_state = Pending | Propose | Uninitialized | Validate

definition provider_state_as_str :: "provider_state \<Rightarrow> string" where
  "provider_state_as_str s =
     (case s of Pending \<Rightarrow> ''Pending'' | Propose \<Rightarrow> ''Propose''
      | Uninitialized \<Rightarrow> ''Uninitialized'' | Validate \<Rightarrow> ''Validate'')"

datatype l1_provider_error =
    GetTransactionsInPendingState
  | GetTransactionConsensusBug
  | UnexpectedProviderStateTransition string string
  | ValidateInPendingState
  | ValidateTransactionConsensusBug

definition unexpected_transition :: "provider_state \<Rightarrow> provider_state \<Rightarrow> l1_provider_error" where
  "unexpected_transition from to =
     UnexpectedProviderStateTransition (provider_state_as_str from) (provider_state_as_str to)"

definition transition_to_propose :: "provider_state \<Rightarrow> l1_provider_error + provider_state" where
  "transition_to_propose s =
     (case s of Pending \<Rightarrow> Inr Propose | _ \<Rightarrow> Inl (unexpected_transition s Propose))"

definition transition_to_validate :: "provider_state \<Rightarrow> l1_provider_error + provider_state" where
  "transition_to_validate s =
     (case s of Pending \<Rightarrow> Inr Validate | _ \<Rightarrow> Inl (unexpected_transition s Validate))"

record 'tx l1_provider =
  tx_manager :: "'tx transaction_manager"
  provider_state :: provider_state

definition l1_get_txs ::
    "'tx l1_provider \<Rightarrow> nat \<Rightarrow> ('tx l1_provider, l1_provider_error, 'tx list) rs_result" where
  "l1_get_txs p n_txs =
     (case provider_state p of
        Propose \<Rightarrow> (let (tm, txs) = tm_get_txs (tx_manager p) n_txs in Some (p\<lparr>tx_manager := tm\<rparr>, Inr txs))
      | Pending \<Rightarrow> Some (p, Inl GetTransactionsInPendingState)
      | Validate \<Rightarrow> Some (p, Inl GetTransactionConsensusBug)
      | Uninitialized \<Rightarrow> None)"

definition l1_validate ::
    "'tx l1_provider \<Rightarrow> transaction_hash \<Rightarrow> (l1_provider_error + validation_status) option" where
  "l1_validate p tx_hash =
     (case provider_state p of
        Validate \<Rightarrow> Some (Inr (tx_status (tx_manager p) tx_hash))
      | Propose \<Rightarrow> Some (Inl ValidateTransactionConsensusBug)
      | Pending \<Rightarrow> Some (Inl ValidateInPendingState)
      | Uninitialized \<Rightarrow> None)"

definition validation_start :: "'tx l1_provider \<Rightarrow> 'tx l1_provider \<times> (l1_provider_error + unit)" where
  "validation_start p =
     (case transition_to_validate (provider_state p) of
        Inl e \<Rightarrow> (p, Inl e) | Inr s \<Rightarrow> (p\<lparr>provider_state := s\<rparr>, Inr ()))"

definition proposal_start :: "'tx l1_provider \<Rightarrow> 'tx l1_provider \<times> (l1_provider_error + unit)" where
  "proposal_start p =
     (case transition_to_propose (provider_state p) of
        Inl e \<Rightarrow> (p, Inl e) | Inr s \<Rightarrow> (p\<lparr>provider_state := s\<rparr>, Inr ()))"

definition create_l1_provider :: "'tx l1_provider" where
  "create_l1_provider = \<lparr>
     tx_manager = \<lparr>tm_txs = [], proposed_txs = [], on_l2_awaiting_l1_consumption = []\<rparr>,
     provider_state = Propose\<rparr>"

datatype l1_provider_request = GetTransactions nat

datatype 'tx l1_provider_response = GetTransactionsResponse "l1_provider_error + 'tx list"

fun l1_handle_request ::
    "'tx l1_provider \<Rightarrow> l1_provider_request \<Rightarrow> ('tx l1_provider \<times> 'tx l1_provider_response) option" where
  "l1_handle_request p (GetTransactions n_txs) =
     map_option (\<lambda>(p', r). (p', GetTransactionsResponse r)) (l1_get_txs p n_txs)"

section \<open>The invariant of the manager\<close>

text \<open>The proposed transactions are the first ones in the order of arrival.\<close>

definition tm_inv :: "'tx transaction_manager \<Rightarrow> bool" where
  "tm_inv tm \<longleftrightarrow> distinct (map fst (tm_txs tm)) \<and>
     length (proposed_txs tm) \<le> length (tm_txs tm) \<and>
     proposed_txs tm = take (length (proposed_txs tm)) (map fst (tm_txs tm))"

lemma index_set_extend_fresh:
  "distinct ks \<Longrightarrow> set ks \<inter> set s = {} \<Longrightarrow> index_set_extend s ks = s @ ks"
  by (induction ks arbitrary: s) auto

lemma take_drop_disjoint: "distinct xs \<Longrightarrow> set (take n (drop k xs)) \<inter> set (take k xs) = {}"
  by (metis append_take_drop_id disjoint_iff distinct_append in_set_takeD)

lemma tm_get_txs_eq:
  assumes "tm_inv tm"
  shows "tm_get_txs tm n = (tm\<lparr>proposed_txs := take (length (proposed_txs tm) + n) (map fst (tm_txs tm))\<rparr>,
    map snd (take n (drop (length (proposed_txs tm)) (tm_txs tm))))"
proof -
  let ?k = "length (proposed_txs tm)" and ?keys = "map fst (tm_txs tm)"
  have "index_set_extend (proposed_txs tm) (take n (drop ?k ?keys)) = proposed_txs tm @ take n (drop ?k ?keys)"
    using assms take_drop_disjoint[of ?keys n ?k]
    by (intro index_set_extend_fresh) (auto simp: tm_inv_def)
  also have "\<dots> = take (?k + n) ?keys"
    using assms by (metis take_add tm_inv_def)
  finally show ?thesis by (simp add: tm_get_txs_def Let_def drop_map take_map)
qed

lemma tm_get_txs_inv: "tm_inv tm \<Longrightarrow> tm_inv (fst (tm_get_txs tm n))"
  by (simp add: tm_get_txs_eq) (auto simp: tm_inv_def min_def)

section \<open>Sequences of calls\<close>

datatype l1_call = CallGetTxs nat | CallValidate transaction_hash | CallProposalStart | CallValidationStart

datatype 'tx l1_answer = Txs "l1_provider_error + 'tx list" | Status "l1_provider_error + validation_status"
  | Done "l1_provider_error + unit"

fun l1_do :: "'tx l1_provider \<Rightarrow> l1_call \<Rightarrow> ('tx l1_provider \<times> 'tx l1_answer) option" where
  "l1_do p (CallGetTxs n) = map_option (apsnd Txs) (l1_get_txs p n)"
| "l1_do p (CallValidate h) = map_option (\<lambda>r. (p, Status r)) (l1_validate p h)"
| "l1_do p CallProposalStart = Some (apsnd Done (proposal_start p))"
| "l1_do p CallValidationStart = Some (apsnd Done (validation_start p))"

fun l1_calls :: "'tx l1_provider \<Rightarrow> l1_call list \<Rightarrow> ('tx l1_provider \<times> 'tx l1_answer list) option" where
  "l1_calls p [] = Some (p, [])"
| "l1_calls p (c # cs) = do {
     (p1, a) \<leftarrow> l1_do p c;
     (p2, as) \<leftarrow> l1_calls p1 cs;
     Some (p2, a # as) }"

fun handed_out :: "'tx l1_answer list \<Rightarrow> 'tx list" where
  "handed_out [] = []"
| "handed_out (Txs (Inr txs) # as) = txs @ handed_out as"
| "handed_out (_ # as) = handed_out as"

definition got_txs :: "'tx l1_answer list \<Rightarrow> bool" where
  "got_txs as \<longleftrightarrow> (\<exists>txs. Txs (Inr txs) \<in> set as)"

definition got_status :: "'tx l1_answer list \<Rightarrow> bool" where
  "got_status as \<longleftrightarrow> (\<exists>s. Status (Inr s) \<in> set as)"

lemmas l1_defs = l1_get_txs_def l1_validate_def proposal_start_def validation_start_def
  transition_to_propose_def transition_to_validate_def

lemma segment:
  "drop k (map f xs) = map f (take n (drop k xs)) @ drop (min (length xs) (k + n)) (map f xs)"
proof -
  have "drop (min (length xs) (k + n)) (map f xs) = drop n (drop k (map f xs))"
    by (simp add: min_def add.commute)
  then show ?thesis by (metis append_take_drop_id drop_map take_map)
qed

text \<open>Every call keeps the list of transactions, the role once it is chosen, and the invariant; what is
  handed out is the next segment of the list.\<close>

lemma l1_call_ok:
  assumes "tm_inv (tx_manager p)" "provider_state p \<noteq> Uninitialized"
  obtains p' a where "l1_do p c = Some (p', a)" "tm_inv (tx_manager p')"
    "provider_state p' = provider_state p \<or> provider_state p = Pending" "provider_state p' \<noteq> Uninitialized"
    "tm_txs (tx_manager p') = tm_txs (tx_manager p)"
    "drop (length (proposed_txs (tx_manager p))) (map snd (tm_txs (tx_manager p))) =
      handed_out [a] @ drop (length (proposed_txs (tx_manager p'))) (map snd (tm_txs (tx_manager p)))"
    "got_txs [a] \<longrightarrow> provider_state p = Propose" "got_status [a] \<longrightarrow> provider_state p = Validate"
proof (cases c)
  case (CallGetTxs n)
  show ?thesis
  proof (cases "provider_state p = Propose")
    case True
    with CallGetTxs assms tm_get_txs_inv[OF assms(1), of n]
      segment[of "length (proposed_txs (tx_manager p))" snd "tm_txs (tx_manager p)" n] show ?thesis
      by (intro that[of "p\<lparr>tx_manager := fst (tm_get_txs (tx_manager p) n)\<rparr>" "Txs (Inr (snd (tm_get_txs (tx_manager p) n)))"])
        (simp_all add: l1_defs tm_get_txs_eq got_txs_def got_status_def)
  next
    case False
    with CallGetTxs assms show ?thesis
      by (cases "provider_state p") (auto simp: l1_defs got_txs_def got_status_def intro: that)
  qed
next
  case (CallValidate h)
  with assms show ?thesis
    by (cases "provider_state p") (auto simp: l1_defs got_txs_def got_status_def intro: that)
next
  case CallProposalStart
  with assms show ?thesis
    by (cases "provider_state p") (auto simp: l1_defs got_txs_def got_status_def intro: that)
next
  case CallValidationStart
  with assms show ?thesis
    by (cases "provider_state p") (auto simp: l1_defs got_txs_def got_status_def intro: that)
qed


lemma handed_out_Cons: "handed_out (a # as) = handed_out [a] @ handed_out as"
  by (cases a) (rename_tac r, case_tac r, auto)

lemma got_Cons: "got_txs (a # as) \<longleftrightarrow> got_txs [a] \<or> got_txs as" "got_status (a # as) \<longleftrightarrow> got_status [a] \<or> got_status as"
  by (auto simp: got_txs_def got_status_def)

lemma l1_calls_ok:
  assumes "tm_inv (tx_manager p)" "provider_state p \<noteq> Uninitialized"
  shows "\<exists>p' as. l1_calls p cs = Some (p', as) \<and> tm_inv (tx_manager p') \<and>
    drop (length (proposed_txs (tx_manager p))) (map snd (tm_txs (tx_manager p))) =
      handed_out as @ drop (length (proposed_txs (tx_manager p'))) (map snd (tm_txs (tx_manager p))) \<and>
    (got_txs as \<longrightarrow> provider_state p \<noteq> Validate) \<and> (got_status as \<longrightarrow> provider_state p \<noteq> Propose) \<and>
    \<not> (got_txs as \<and> got_status as)"
  using assms
proof (induction cs arbitrary: p)
  case (Cons c cs)
  from l1_call_ok[OF Cons.prems, of c] obtain p1 a where
    a: "l1_do p c = Some (p1, a)" "tm_inv (tx_manager p1)"
    "provider_state p1 = provider_state p \<or> provider_state p = Pending" "provider_state p1 \<noteq> Uninitialized"
    "tm_txs (tx_manager p1) = tm_txs (tx_manager p)"
    "drop (length (proposed_txs (tx_manager p))) (map snd (tm_txs (tx_manager p))) =
      handed_out [a] @ drop (length (proposed_txs (tx_manager p1))) (map snd (tm_txs (tx_manager p)))"
    "got_txs [a] \<longrightarrow> provider_state p = Propose" "got_status [a] \<longrightarrow> provider_state p = Validate" .
  from Cons.IH[OF a(2,4)] a(5) obtain p2 as where
    as: "l1_calls p1 cs = Some (p2, as)" "tm_inv (tx_manager p2)"
    "drop (length (proposed_txs (tx_manager p1))) (map snd (tm_txs (tx_manager p))) =
      handed_out as @ drop (length (proposed_txs (tx_manager p2))) (map snd (tm_txs (tx_manager p)))"
    "got_txs as \<longrightarrow> provider_state p1 \<noteq> Validate" "got_status as \<longrightarrow> provider_state p1 \<noteq> Propose"
    "\<not> (got_txs as \<and> got_status as)" by auto
  have "l1_calls p (c # cs) = Some (p2, a # as)" using a(1) as(1) by simp
  moreover have "drop (length (proposed_txs (tx_manager p))) (map snd (tm_txs (tx_manager p))) =
      handed_out (a # as) @ drop (length (proposed_txs (tx_manager p2))) (map snd (tm_txs (tx_manager p)))"
    unfolding handed_out_Cons[of a as] append_assoc using a(6) as(3) by simp
  moreover have "(got_txs (a # as) \<longrightarrow> provider_state p \<noteq> Validate) \<and>
      (got_status (a # as) \<longrightarrow> provider_state p \<noteq> Propose) \<and> \<not> (got_txs (a # as) \<and> got_status (a # as))"
    using a(3,7,8) as(4-6) unfolding got_Cons[of a as] by auto
  ultimately show ?case using as(2) by (intro exI[of _ p2] exI[of _ "a # as"] conjI) (assumption | blast)+
qed (simp add: got_txs_def got_status_def)

text \<open>C23: An initialised provider serves any sequence of calls without a panic. The transactions it
  hands out are, over all calls, the not yet proposed ones in the order of their arrival, each once and
  without a gap; and it never both hands out transactions and validates some until it is reset: the
  roles of proposer and validator exclude each other.\<close>

theorem l1_provider_is_fifo_in_one_role:
  assumes "tm_inv (tx_manager p)" "provider_state p \<noteq> Uninitialized"
  shows "\<exists>p' as. l1_calls p cs = Some (p', as) \<and> tm_inv (tx_manager p') \<and>
    drop (length (proposed_txs (tx_manager p))) (map snd (tm_txs (tx_manager p))) =
      handed_out as @ drop (length (proposed_txs (tx_manager p'))) (map snd (tm_txs (tx_manager p))) \<and>
    \<not> (got_txs as \<and> got_status as)"
  using l1_calls_ok[OF assms, of cs] by blast

definition sample_provider :: "nat l1_provider" where
  "sample_provider = \<lparr>
     tx_manager = \<lparr>tm_txs = [(11, 1), (12, 2), (13, 3)], proposed_txs = [11], on_l2_awaiting_l1_consumption = [14]\<rparr>,
     provider_state = Pending\<rparr>"

theorem l1_provider_is_fifo_in_one_role_witness:
  "\<exists>p' as. l1_calls sample_provider [CallGetTxs 1, CallProposalStart, CallGetTxs 1, CallValidate 13, CallGetTxs 5] =
       Some (p', as) \<and> handed_out as = [2, 3] \<and> got_txs as \<and> \<not> got_status as"
proof -
  let ?cs = "[CallGetTxs 1, CallProposalStart, CallGetTxs 1, CallValidate 13, CallGetTxs 5]"
  have "tm_inv (tx_manager sample_provider)" "provider_state sample_provider \<noteq> Uninitialized"
    by (simp_all add: sample_provider_def tm_inv_def)
  from l1_provider_is_fifo_in_one_role[OF this, of ?cs] obtain p' as where
    r: "l1_calls sample_provider ?cs = Some (p', as)" "\<not> (got_txs as \<and> got_status as)" by blast
  have "l1_calls sample_provider ?cs = Some (sample_provider\<lparr>provider_state := Propose,
      tx_manager := (tx_manager sample_provider)\<lparr>proposed_txs := [11, 12, 13]\<rparr>\<rparr>,
    [Txs (Inl GetTransactionsInPendingState), Done (Inr ()), Txs (Inr [2]),
     Status (Inl ValidateTransactionConsensusBug), Txs (Inr [3])])"
    by (simp add: sample_provider_def l1_defs tm_get_txs_def Let_def)
  with r have "handed_out as = [2, 3]" "got_txs as" by (auto simp: got_txs_def)
  with r show ?thesis by blast
qed

end
