(* ===== verification/Cached_State.thy ===== *)
theory Cached_State
  imports Hash_Map Mempool_Types
begin

text \<open>
  \<^verbatim>\<open>crates/blockifier/src/state\<close>: the state interface (\<^verbatim>\<open>state_api.rs\<close>, \<^verbatim>\<open>errors.rs\<close>) and the
  state that caches reads and buffers writes (\<^verbatim>\<open>cached_state.rs\<close>).

  \<^item> A trait is a record of its methods (\<open>state_reader\<close>, \<open>updatable_state\<close>) over the type of the
    implementation's state; a getter may change that state, since implementations cache what they
    read. \<open>None\<close> is a panic.
  \<^item> Compiled classes are opaque, a type variable.
  \<^item> The five maps of \<open>state_maps\<close> are hash maps in the sense of \<open>Hash_Map\<close>.
\<close>

section \<open>The state interface\<close>

type_synonym storage_key = felt
type_synonym class_hash = felt
type_synonym compiled_class_hash = felt
type_synonym storage_entry = "contract_address \<times> storage_key"

datatype state_error =
    CasmAndSierraMismatch class_hash string
  | FromBigUint
  | OldBlockHashNotProvided
  | OutOfRangeContractAddress
  | ProgramError
  | UnavailableContractAddress contract_address
  | UndeclaredClassHash class_hash
  | StarknetApiError
  | StateReadError string

definition couple_casm_and_sierra ::
    "class_hash \<Rightarrow> 'casm option \<Rightarrow> 'sierra option \<Rightarrow> state_error + ('casm \<times> 'sierra) option" where
  "couple_casm_and_sierra class_hash option_casm option_sierra =
     (case (option_casm, option_sierra) of
        (Some casm, Some sierra) \<Rightarrow> Inr (Some (casm, sierra))
      | (Some _, None) \<Rightarrow> Inl (CasmAndSierraMismatch class_hash ''Class exists in CASM but not in Sierra'')
      | (None, Some _) \<Rightarrow> Inl (CasmAndSierraMismatch class_hash ''Class exists in Sierra but not in CASM'')
      | (None, None) \<Rightarrow> Inr None)"

type_synonym 'c contract_class_mapping = "(class_hash \<times> 'c) list"
type_synonym visited_pcs = "(class_hash \<times> nat set) list"

record ('s, 'c) state_reader =
  rd_storage_at :: "'s \<Rightarrow> contract_address \<Rightarrow> storage_key \<Rightarrow> ('s, state_error, felt) rs_result"
  rd_nonce_at :: "'s \<Rightarrow> contract_address \<Rightarrow> ('s, state_error, nonce) rs_result"
  rd_class_hash_at :: "'s \<Rightarrow> contract_address \<Rightarrow> ('s, state_error, class_hash) rs_result"
  rd_compiled_class :: "'s \<Rightarrow> class_hash \<Rightarrow> ('s, state_error, 'c) rs_result"
  rd_compiled_class_hash :: "'s \<Rightarrow> class_hash \<Rightarrow> ('s, state_error, compiled_class_hash) rs_result"

section \<open>Maps of a state\<close>

record state_maps =
  sm_nonces :: "(contract_address \<times> nonce) list"
  sm_class_hashes :: "(contract_address \<times> class_hash) list"
  sm_storage :: "(storage_entry \<times> felt) list"
  sm_compiled_class_hashes :: "(class_hash \<times> compiled_class_hash) list"
  sm_declared_contracts :: "(class_hash \<times> bool) list"

definition sm_default :: state_maps where
  "sm_default = \<lparr>sm_nonces = [], sm_class_hashes = [], sm_storage = [],
     sm_compiled_class_hashes = [], sm_declared_contracts = []\<rparr>"

definition sm_extend :: "state_maps \<Rightarrow> state_maps \<Rightarrow> state_maps" where
  "sm_extend self other = \<lparr>
     sm_nonces = hm_extend (sm_nonces self) (sm_nonces other),
     sm_class_hashes = hm_extend (sm_class_hashes self) (sm_class_hashes other),
     sm_storage = hm_extend (sm_storage self) (sm_storage other),
     sm_compiled_class_hashes = hm_extend (sm_compiled_class_hashes self) (sm_compiled_class_hashes other),
     sm_declared_contracts = hm_extend (sm_declared_contracts self) (sm_declared_contracts other)\<rparr>"

definition sm_diff :: "state_maps \<Rightarrow> state_maps \<Rightarrow> state_maps option" where
  "sm_diff self other = do {
     nonces \<leftarrow> strict_subtract_mappings (sm_nonces self) (sm_nonces other);
     class_hashes \<leftarrow> strict_subtract_mappings (sm_class_hashes self) (sm_class_hashes other);
     storage \<leftarrow> strict_subtract_mappings (sm_storage self) (sm_storage other);
     compiled_class_hashes \<leftarrow>
       strict_subtract_mappings (sm_compiled_class_hashes self) (sm_compiled_class_hashes other);
     Some \<lparr>sm_nonces = nonces, sm_class_hashes = class_hashes, sm_storage = storage,
       sm_compiled_class_hashes = compiled_class_hashes,
       sm_declared_contracts = subtract_mappings (sm_declared_contracts self) (sm_declared_contracts other)\<rparr> }"

definition get_contract_addresses :: "state_maps \<Rightarrow> contract_address set" where
  "get_contract_addresses m =
     fst ` fst ` set (sm_storage m) \<union> fst ` set (sm_nonces m) \<union> fst ` set (sm_class_hashes m)"

record state_changes_keys =
  nonce_keys :: "contract_address set"
  class_hash_keys :: "contract_address set"
  storage_keys :: "storage_entry set"
  compiled_class_hash_keys :: "class_hash set"
  modified_contracts :: "contract_address set"

definition into_keys :: "state_maps \<Rightarrow> state_changes_keys" where
  "into_keys m = \<lparr>
     nonce_keys = fst ` set (sm_nonces m), class_hash_keys = fst ` set (sm_class_hashes m),
     storage_keys = fst ` set (sm_storage m),
     compiled_class_hash_keys = fst ` set (sm_compiled_class_hashes m),
     modified_contracts = get_contract_addresses m\<rparr>"

definition keys_difference :: "state_changes_keys \<Rightarrow> state_changes_keys \<Rightarrow> state_changes_keys" where
  "keys_difference self other = \<lparr>
     nonce_keys = nonce_keys self - nonce_keys other,
     class_hash_keys = class_hash_keys self - class_hash_keys other,
     storage_keys = storage_keys self - storage_keys other,
     compiled_class_hash_keys = compiled_class_hash_keys self - compiled_class_hash_keys other,
     modified_contracts = modified_contracts self - modified_contracts other\<rparr>"

definition keys_extend :: "state_changes_keys \<Rightarrow> state_changes_keys \<Rightarrow> state_changes_keys" where
  "keys_extend self other = \<lparr>
     nonce_keys = nonce_keys self \<union> nonce_keys other,
     class_hash_keys = class_hash_keys self \<union> class_hash_keys other,
     storage_keys = storage_keys self \<union> storage_keys other,
     compiled_class_hash_keys = compiled_class_hash_keys self \<union> compiled_class_hash_keys other,
     modified_contracts = modified_contracts self \<union> modified_contracts other\<rparr>"

record state_changes_count =
  n_storage_updates :: nat
  n_class_hash_updates :: nat
  n_compiled_class_hash_updates :: nat
  n_modified_contracts :: nat

definition keys_count :: "state_changes_keys \<Rightarrow> state_changes_count" where
  "keys_count ks = \<lparr>
     n_storage_updates = card (storage_keys ks), n_class_hash_updates = card (class_hash_keys ks),
     n_compiled_class_hash_updates = card (compiled_class_hash_keys ks),
     n_modified_contracts = card (modified_contracts ks)\<rparr>"

text \<open>The storage entries that turn from zero to a value.\<close>

definition from_storage_diff ::
    "(storage_entry \<times> felt) list \<Rightarrow> (storage_entry \<times> felt) list \<Rightarrow> storage_entry set" where
  "from_storage_diff updated_storage base_storage =
     set (map fst (filter (\<lambda>(k, v). v \<noteq> 0 \<and> (case map_of base_storage k of Some b \<Rightarrow> b | None \<Rightarrow> 0) = 0)
       updated_storage))"

record state_changes =
  ch_state_maps :: state_maps
  ch_allocated_keys :: "storage_entry set"

record state_changes_count_for_fee =
  fee_state_changes_count :: state_changes_count
  n_allocated_keys :: nat

text \<open>\<^verbatim>\<open>get_fee_token_var_address\<close> hashes the address into a storage key; it is the parameter
  \<open>balance_key\<close>.\<close>

definition count_for_fee_charge ::
    "(contract_address \<Rightarrow> storage_key) \<Rightarrow> state_changes \<Rightarrow> contract_address option \<Rightarrow> contract_address
      \<Rightarrow> state_changes_count_for_fee" where
  "count_for_fee_charge balance_key self sender_address fee_token_address =
     (let m = ch_state_maps self;
          updates = length (sm_storage m) +
            (case sender_address of
               Some sender \<Rightarrow> if map_of (sm_storage m) (fee_token_address, balance_key sender) = None then 1 else 0
             | None \<Rightarrow> 0)
      in \<lparr>fee_state_changes_count = \<lparr>
            n_storage_updates = updates,
            n_class_hash_updates = length (sm_class_hashes m),
            n_compiled_class_hash_updates = length (sm_compiled_class_hashes m),
            n_modified_contracts = card (get_contract_addresses m - {fee_token_address})\<rparr>,
          n_allocated_keys = card (ch_allocated_keys self)\<rparr>)"

definition update_sequencer_key_in_storage ::
    "(contract_address \<Rightarrow> storage_key) \<Rightarrow> state_changes_keys \<Rightarrow> contract_address \<Rightarrow> contract_address \<Rightarrow> bool
      \<Rightarrow> nat \<Rightarrow> bool \<Rightarrow> state_changes_keys" where
  "update_sequencer_key_in_storage balance_key ks fee_token_address sequencer_address sequencer_is_sender
     actual_fee concurrency_mode =
     (if concurrency_mode \<and> \<not> sequencer_is_sender \<and> 0 < actual_fee
      then ks\<lparr>storage_keys := insert (fee_token_address, balance_key sequencer_address) (storage_keys ks)\<rparr>
      else ks)"

text \<open>What a block commits to: the storage updates grouped by contract.\<close>

record commitment_state_diff =
  address_to_class_hash :: "(contract_address \<times> class_hash) list"
  address_to_nonce :: "(contract_address \<times> nonce) list"
  storage_updates :: "(contract_address \<times> (storage_key \<times> felt) list) list"
  class_hash_to_compiled_class_hash :: "(class_hash \<times> compiled_class_hash) list"

fun storage_view_into ::
    "(contract_address \<times> (storage_key \<times> felt) list) list \<Rightarrow> (storage_entry \<times> felt) list
      \<Rightarrow> (contract_address \<times> (storage_key \<times> felt) list) list" where
  "storage_view_into updates [] = updates"
| "storage_view_into updates (((address, key), value) # rest) =
     storage_view_into
       (case map_of updates address of
          Some m \<Rightarrow> AList.update address (AList.update key value m) updates
        | None \<Rightarrow> AList.update address [(key, value)] updates) rest"

definition commitment_state_diff_from :: "state_maps \<Rightarrow> commitment_state_diff" where
  "commitment_state_diff_from diff = \<lparr>
     address_to_class_hash = sm_class_hashes diff,
     address_to_nonce = sm_nonces diff,
     storage_updates = storage_view_into [] (sm_storage diff),
     class_hash_to_compiled_class_hash = sm_compiled_class_hashes diff\<rparr>"

section \<open>The cache\<close>

record state_cache =
  initial_reads :: state_maps
  writes :: state_maps

definition sc_default :: state_cache where
  "sc_default = \<lparr>initial_reads = sm_default, writes = sm_default\<rparr>"

definition sc_to_state_diff :: "state_cache \<Rightarrow> state_changes option" where
  "sc_to_state_diff sc = do {
     maps \<leftarrow> sm_diff (writes sc) (initial_reads sc);
     Some \<lparr>ch_state_maps = maps,
       ch_allocated_keys = from_storage_diff (sm_storage (writes sc)) (sm_storage (initial_reads sc))\<rparr> }"

definition squash_state_caches :: "state_cache list \<Rightarrow> state_cache" where
  "squash_state_caches state_caches = \<lparr>
     initial_reads = foldl sm_extend sm_default (map initial_reads (rev state_caches)),
     writes = foldl sm_extend sm_default (map writes state_caches)\<rparr>"

fun merge_state_diffs :: "state_changes \<Rightarrow> state_cache list \<Rightarrow> state_changes option" where
  "merge_state_diffs merged [] = Some merged"
| "merge_state_diffs merged (sc # rest) = do {
     change \<leftarrow> sc_to_state_diff sc;
     merge_state_diffs
       \<lparr>ch_state_maps = sm_extend (ch_state_maps merged) (ch_state_maps change),
        ch_allocated_keys = ch_allocated_keys merged \<union> ch_allocated_keys change\<rparr> rest }"

definition squash_state_diff :: "state_cache list \<Rightarrow> bool \<Rightarrow> state_changes option" where
  "squash_state_diff state_caches comprehensive_state_diff =
     (if comprehensive_state_diff then sc_to_state_diff (squash_state_caches state_caches)
      else merge_state_diffs \<lparr>ch_state_maps = sm_default, ch_allocated_keys = {}\<rparr> state_caches)"

definition declare_contract :: "state_cache \<Rightarrow> class_hash \<Rightarrow> state_cache" where
  "declare_contract sc class_hash =
     sc\<lparr>writes := (writes sc)\<lparr>sm_declared_contracts :=
       AList.update class_hash True (sm_declared_contracts (writes sc))\<rparr>\<rparr>"

definition set_declared_contract_initial_value :: "state_cache \<Rightarrow> class_hash \<Rightarrow> bool \<Rightarrow> state_cache" where
  "set_declared_contract_initial_value sc class_hash is_declared =
     sc\<lparr>initial_reads := (initial_reads sc)\<lparr>sm_declared_contracts :=
       AList.update class_hash is_declared (sm_declared_contracts (initial_reads sc))\<rparr>\<rparr>"

definition sc_get_storage_at :: "state_cache \<Rightarrow> contract_address \<Rightarrow> storage_key \<Rightarrow> felt option" where
  "sc_get_storage_at sc a k =
     (case map_of (sm_storage (writes sc)) (a, k) of
        Some v \<Rightarrow> Some v | None \<Rightarrow> map_of (sm_storage (initial_reads sc)) (a, k))"

definition sc_get_nonce_at :: "state_cache \<Rightarrow> contract_address \<Rightarrow> nonce option" where
  "sc_get_nonce_at sc a =
     (case map_of (sm_nonces (writes sc)) a of
        Some v \<Rightarrow> Some v | None \<Rightarrow> map_of (sm_nonces (initial_reads sc)) a)"

definition sc_get_class_hash_at :: "state_cache \<Rightarrow> contract_address \<Rightarrow> class_hash option" where
  "sc_get_class_hash_at sc a =
     (case map_of (sm_class_hashes (writes sc)) a of
        Some v \<Rightarrow> Some v | None \<Rightarrow> map_of (sm_class_hashes (initial_reads sc)) a)"

definition sc_get_compiled_class_hash :: "state_cache \<Rightarrow> class_hash \<Rightarrow> compiled_class_hash option" where
  "sc_get_compiled_class_hash sc c =
     (case map_of (sm_compiled_class_hashes (writes sc)) c of
        Some v \<Rightarrow> Some v | None \<Rightarrow> map_of (sm_compiled_class_hashes (initial_reads sc)) c)"

definition set_storage_initial_value :: "state_cache \<Rightarrow> contract_address \<Rightarrow> storage_key \<Rightarrow> felt \<Rightarrow> state_cache" where
  "set_storage_initial_value sc a k v =
     sc\<lparr>initial_reads := (initial_reads sc)\<lparr>sm_storage := AList.update (a, k) v (sm_storage (initial_reads sc))\<rparr>\<rparr>"

definition set_storage_value :: "state_cache \<Rightarrow> contract_address \<Rightarrow> storage_key \<Rightarrow> felt \<Rightarrow> state_cache" where
  "set_storage_value sc a k v =
     sc\<lparr>writes := (writes sc)\<lparr>sm_storage := AList.update (a, k) v (sm_storage (writes sc))\<rparr>\<rparr>"

definition set_nonce_initial_value :: "state_cache \<Rightarrow> contract_address \<Rightarrow> nonce \<Rightarrow> state_cache" where
  "set_nonce_initial_value sc a n =
     sc\<lparr>initial_reads := (initial_reads sc)\<lparr>sm_nonces := AList.update a n (sm_nonces (initial_reads sc))\<rparr>\<rparr>"

definition set_nonce_value :: "state_cache \<Rightarrow> contract_address \<Rightarrow> nonce \<Rightarrow> state_cache" where
  "set_nonce_value sc a n =
     sc\<lparr>writes := (writes sc)\<lparr>sm_nonces := AList.update a n (sm_nonces (writes sc))\<rparr>\<rparr>"

definition set_class_hash_initial_value :: "state_cache \<Rightarrow> contract_address \<Rightarrow> class_hash \<Rightarrow> state_cache" where
  "set_class_hash_initial_value sc a c =
     sc\<lparr>initial_reads := (initial_reads sc)\<lparr>sm_class_hashes := AList.update a c (sm_class_hashes (initial_reads sc))\<rparr>\<rparr>"

definition set_class_hash_write :: "state_cache \<Rightarrow> contract_address \<Rightarrow> class_hash \<Rightarrow> state_cache" where
  "set_class_hash_write sc a c =
     sc\<lparr>writes := (writes sc)\<lparr>sm_class_hashes := AList.update a c (sm_class_hashes (writes sc))\<rparr>\<rparr>"

definition set_compiled_class_hash_initial_value ::
    "state_cache \<Rightarrow> class_hash \<Rightarrow> compiled_class_hash \<Rightarrow> state_cache" where
  "set_compiled_class_hash_initial_value sc c h =
     sc\<lparr>initial_reads := (initial_reads sc)\<lparr>sm_compiled_class_hashes :=
       AList.update c h (sm_compiled_class_hashes (initial_reads sc))\<rparr>\<rparr>"

definition set_compiled_class_hash_write ::
    "state_cache \<Rightarrow> class_hash \<Rightarrow> compiled_class_hash \<Rightarrow> state_cache" where
  "set_compiled_class_hash_write sc c h =
     sc\<lparr>writes := (writes sc)\<lparr>sm_compiled_class_hashes :=
       AList.update c h (sm_compiled_class_hashes (writes sc))\<rparr>\<rparr>"

section \<open>The cached state\<close>

record ('s, 'c) cached_state =
  cs_state :: 's
  cs_cache :: state_cache
  cs_class_hash_to_class :: "'c contract_class_mapping"
  cs_visited_pcs :: visited_pcs

definition cs_new :: "'s \<Rightarrow> ('s, 'c) cached_state" where
  "cs_new state = \<lparr>cs_state = state, cs_cache = sc_default, cs_class_hash_to_class = [], cs_visited_pcs = []\<rparr>"

text \<open>A call of the wrapped reader.\<close>

definition on_inner :: "('s, 'c) cached_state \<Rightarrow> ('s, 'e, 'a) rs_result \<Rightarrow> (('s, 'c) cached_state, 'e, 'a) rs_result" where
  "on_inner c m = map_option (\<lambda>(s, r). (c\<lparr>cs_state := s\<rparr>, r)) m"

fun fill_write_only_storage ::
    "('s, 'c) state_reader \<Rightarrow> ('s, 'c) cached_state \<Rightarrow> storage_entry list
      \<Rightarrow> (('s, 'c) cached_state, state_error, unit) rs_result" where
  "fill_write_only_storage R c [] = Some (c, Inr ())"
| "fill_write_only_storage R c ((a, k) # keys) =
     (if map_of (sm_storage (initial_reads (cs_cache c))) (a, k) = None
      then rs_try (on_inner c (rd_storage_at R (cs_state c) a k)) (\<lambda>c1 v.
             fill_write_only_storage R (c1\<lparr>cs_cache := set_storage_initial_value (cs_cache c1) a k v\<rparr>) keys)
      else fill_write_only_storage R c keys)"

definition update_initial_values_of_write_only_access ::
    "('s, 'c) state_reader \<Rightarrow> ('s, 'c) cached_state \<Rightarrow> (('s, 'c) cached_state, state_error, unit) rs_result" where
  "update_initial_values_of_write_only_access R c =
     fill_write_only_storage R c (map fst (sm_storage (writes (cs_cache c))))"

definition cs_to_state_diff ::
    "('s, 'c) state_reader \<Rightarrow> ('s, 'c) cached_state
      \<Rightarrow> (('s, 'c) cached_state, state_error, state_changes) rs_result" where
  "cs_to_state_diff R c =
     rs_try (update_initial_values_of_write_only_access R c) (\<lambda>c1 _. do {
       diff \<leftarrow> sc_to_state_diff (cs_cache c1);
       Some (c1, Inr diff) })"

definition update_cache ::
    "('s, 'c) cached_state \<Rightarrow> state_maps \<Rightarrow> 'c contract_class_mapping \<Rightarrow> ('s, 'c) cached_state option" where
  "update_cache c write_updates local_contract_cache_updates = do {
     rs_assert (\<forall>(key, value) \<in> set (sm_declared_contracts write_updates).
       value = (map_of local_contract_cache_updates key \<noteq> None));
     Some (c\<lparr>cs_cache := (cs_cache c)\<lparr>writes := sm_extend (writes (cs_cache c)) write_updates\<rparr>,
       cs_class_hash_to_class := hm_extend (cs_class_hash_to_class c) local_contract_cache_updates\<rparr>) }"

definition cs_add_visited_pcs :: "('s, 'c) cached_state \<Rightarrow> class_hash \<Rightarrow> nat set \<Rightarrow> ('s, 'c) cached_state" where
  "cs_add_visited_pcs c class_hash pcs =
     c\<lparr>cs_visited_pcs := AList.update class_hash
       ((case map_of (cs_visited_pcs c) class_hash of Some old \<Rightarrow> old | None \<Rightarrow> {}) \<union> pcs) (cs_visited_pcs c)\<rparr>"

fun update_visited_pcs_cache :: "('s, 'c) cached_state \<Rightarrow> visited_pcs \<Rightarrow> ('s, 'c) cached_state" where
  "update_visited_pcs_cache c [] = c"
| "update_visited_pcs_cache c ((class_hash, pcs) # rest) =
     update_visited_pcs_cache (cs_add_visited_pcs c class_hash pcs) rest"

definition cs_apply_writes ::
    "('s, 'c) cached_state \<Rightarrow> state_maps \<Rightarrow> 'c contract_class_mapping \<Rightarrow> visited_pcs \<Rightarrow> ('s, 'c) cached_state option" where
  "cs_apply_writes c ws class_hash_to_class visited_pcs =
     map_option (\<lambda>c1. update_visited_pcs_cache c1 visited_pcs) (update_cache c ws class_hash_to_class)"

definition cs_get_storage_at ::
    "('s, 'c) state_reader \<Rightarrow> ('s, 'c) cached_state \<Rightarrow> contract_address \<Rightarrow> storage_key
      \<Rightarrow> (('s, 'c) cached_state, state_error, felt) rs_result" where
  "cs_get_storage_at R c a k =
     rs_try
       (if sc_get_storage_at (cs_cache c) a k = None
        then rs_try (on_inner c (rd_storage_at R (cs_state c) a k)) (\<lambda>c1 v.
               Some (c1\<lparr>cs_cache := set_storage_initial_value (cs_cache c1) a k v\<rparr>, Inr ()))
        else Some (c, Inr ()))
       (\<lambda>c1 _. map_option (\<lambda>v. (c1, Inr v)) (sc_get_storage_at (cs_cache c1) a k))"

definition cs_get_nonce_at ::
    "('s, 'c) state_reader \<Rightarrow> ('s, 'c) cached_state \<Rightarrow> contract_address
      \<Rightarrow> (('s, 'c) cached_state, state_error, nonce) rs_result" where
  "cs_get_nonce_at R c a =
     rs_try
       (if sc_get_nonce_at (cs_cache c) a = None
        then rs_try (on_inner c (rd_nonce_at R (cs_state c) a)) (\<lambda>c1 v.
               Some (c1\<lparr>cs_cache := set_nonce_initial_value (cs_cache c1) a v\<rparr>, Inr ()))
        else Some (c, Inr ()))
       (\<lambda>c1 _. map_option (\<lambda>v. (c1, Inr v)) (sc_get_nonce_at (cs_cache c1) a))"

definition cs_get_class_hash_at ::
    "('s, 'c) state_reader \<Rightarrow> ('s, 'c) cached_state \<Rightarrow> contract_address
      \<Rightarrow> (('s, 'c) cached_state, state_error, class_hash) rs_result" where
  "cs_get_class_hash_at R c a =
     rs_try
       (if sc_get_class_hash_at (cs_cache c) a = None
        then rs_try (on_inner c (rd_class_hash_at R (cs_state c) a)) (\<lambda>c1 v.
               Some (c1\<lparr>cs_cache := set_class_hash_initial_value (cs_cache c1) a v\<rparr>, Inr ()))
        else Some (c, Inr ()))
       (\<lambda>c1 _. map_option (\<lambda>v. (c1, Inr v)) (sc_get_class_hash_at (cs_cache c1) a))"

definition cs_get_compiled_class_hash ::
    "('s, 'c) state_reader \<Rightarrow> ('s, 'c) cached_state \<Rightarrow> class_hash
      \<Rightarrow> (('s, 'c) cached_state, state_error, compiled_class_hash) rs_result" where
  "cs_get_compiled_class_hash R c h =
     rs_try
       (if sc_get_compiled_class_hash (cs_cache c) h = None
        then rs_try (on_inner c (rd_compiled_class_hash R (cs_state c) h)) (\<lambda>c1 v.
               Some (c1\<lparr>cs_cache := set_compiled_class_hash_initial_value (cs_cache c1) h v\<rparr>, Inr ()))
        else Some (c, Inr ()))
       (\<lambda>c1 _. map_option (\<lambda>v. (c1, Inr v)) (sc_get_compiled_class_hash (cs_cache c1) h))"

text \<open>The error of the wrapped reader names a class hash, which shadows the requested one.\<close>

definition cs_get_compiled_class ::
    "('s, 'c) state_reader \<Rightarrow> ('s, 'c) cached_state \<Rightarrow> class_hash
      \<Rightarrow> (('s, 'c) cached_state, state_error, 'c) rs_result" where
  "cs_get_compiled_class R c h =
     rs_try
       (if map_of (cs_class_hash_to_class c) h = None
        then (case on_inner c (rd_compiled_class R (cs_state c) h) of
                None \<Rightarrow> None
              | Some (c1, Inl e) \<Rightarrow>
                 (case e of
                    UndeclaredClassHash h' \<Rightarrow>
                      Some (c1\<lparr>cs_cache := set_compiled_class_hash_initial_value
                              (set_declared_contract_initial_value (cs_cache c1) h' False) h' 0\<rparr>,
                            Inl (UndeclaredClassHash h'))
                  | _ \<Rightarrow> Some (c1, Inl e))
              | Some (c1, Inr cl) \<Rightarrow>
                  Some (c1\<lparr>cs_cache := set_declared_contract_initial_value (cs_cache c1) h True,
                          cs_class_hash_to_class := AList.update h cl (cs_class_hash_to_class c1)\<rparr>, Inr ()))
        else Some (c, Inr ()))
       (\<lambda>c1 _. map_option (\<lambda>cl. (c1, Inr cl)) (map_of (cs_class_hash_to_class c1) h))"

definition cs_set_storage_at ::
    "('s, 'c) cached_state \<Rightarrow> contract_address \<Rightarrow> storage_key \<Rightarrow> felt \<Rightarrow> ('s, 'c) cached_state" where
  "cs_set_storage_at c a k v = c\<lparr>cs_cache := set_storage_value (cs_cache c) a k v\<rparr>"

text \<open>Felt addition wraps around at the prime.\<close>

definition cs_increment_nonce ::
    "('s, 'c) state_reader \<Rightarrow> ('s, 'c) cached_state \<Rightarrow> contract_address
      \<Rightarrow> (('s, 'c) cached_state, state_error, unit) rs_result" where
  "cs_increment_nonce R c a =
     rs_try (cs_get_nonce_at R c a) (\<lambda>c1 current_nonce.
       Some (c1\<lparr>cs_cache := set_nonce_value (cs_cache c1) a ((current_nonce + 1) mod felt_prime)\<rparr>, Inr ()))"

definition cs_set_class_hash_at ::
    "('s, 'c) cached_state \<Rightarrow> contract_address \<Rightarrow> class_hash \<Rightarrow> ('s, 'c) cached_state \<times> (state_error + unit)" where
  "cs_set_class_hash_at c a h =
     (if a = 0 then (c, Inl OutOfRangeContractAddress)
      else (c\<lparr>cs_cache := set_class_hash_write (cs_cache c) a h\<rparr>, Inr ()))"

definition cs_set_contract_class ::
    "('s, 'c) cached_state \<Rightarrow> class_hash \<Rightarrow> 'c \<Rightarrow> ('s, 'c) cached_state" where
  "cs_set_contract_class c h cl =
     c\<lparr>cs_class_hash_to_class := AList.update h cl (cs_class_hash_to_class c),
       cs_cache := declare_contract (cs_cache c) h\<rparr>"

definition cs_set_compiled_class_hash ::
    "('s, 'c) cached_state \<Rightarrow> class_hash \<Rightarrow> compiled_class_hash \<Rightarrow> ('s, 'c) cached_state" where
  "cs_set_compiled_class_hash c h ch = c\<lparr>cs_cache := set_compiled_class_hash_write (cs_cache c) h ch\<rparr>"

definition cached_reader :: "('s, 'c) state_reader \<Rightarrow> (('s, 'c) cached_state, 'c) state_reader" where
  "cached_reader R = \<lparr>
     rd_storage_at = cs_get_storage_at R, rd_nonce_at = cs_get_nonce_at R,
     rd_class_hash_at = cs_get_class_hash_at R, rd_compiled_class = cs_get_compiled_class R,
     rd_compiled_class_hash = cs_get_compiled_class_hash R\<rparr>"

text \<open>Transactional states: a cached state on top of a reference to its parent. Committing applies the
  child's writes to the parent (whose \<^verbatim>\<open>apply_writes\<close> is the parameter), aborting drops them.\<close>

definition create_transactional :: "'s \<Rightarrow> ('s, 'c) cached_state" where
  "create_transactional state = cs_new state"

definition transactional_commit ::
    "('s \<Rightarrow> state_maps \<Rightarrow> 'c contract_class_mapping \<Rightarrow> visited_pcs \<Rightarrow> 's option) \<Rightarrow> ('s, 'c) cached_state \<Rightarrow> 's option" where
  "transactional_commit parent_apply_writes c =
     parent_apply_writes (cs_state c) (writes (cs_cache c)) (cs_class_hash_to_class c) (cs_visited_pcs c)"

definition transactional_abort :: "('s, 'c) cached_state \<Rightarrow> 's" where
  "transactional_abort c = cs_state c"

section \<open>A reader from dictionaries\<close>

text \<open>\<^verbatim>\<open>DictStateReader\<close> of \<^verbatim>\<open>test_utils/dict_state_reader.rs\<close>.\<close>

record 'c dict_state_reader =
  dict_storage_view :: "storage_entry \<rightharpoonup> felt"
  dict_address_to_nonce :: "contract_address \<rightharpoonup> nonce"
  dict_address_to_class_hash :: "contract_address \<rightharpoonup> class_hash"
  dict_class_hash_to_class :: "class_hash \<rightharpoonup> 'c"
  dict_class_hash_to_compiled_class_hash :: "class_hash \<rightharpoonup> compiled_class_hash"

definition unwrap_or_default :: "felt option \<Rightarrow> felt" where
  "unwrap_or_default x = (case x of Some v \<Rightarrow> v | None \<Rightarrow> 0)"

definition dict_reader :: "('c dict_state_reader, 'c) state_reader" where
  "dict_reader = \<lparr>
     rd_storage_at = (\<lambda>s a k. Some (s, Inr (unwrap_or_default (dict_storage_view s (a, k))))),
     rd_nonce_at = (\<lambda>s a. Some (s, Inr (unwrap_or_default (dict_address_to_nonce s a)))),
     rd_class_hash_at = (\<lambda>s a. Some (s, Inr (unwrap_or_default (dict_address_to_class_hash s a)))),
     rd_compiled_class = (\<lambda>s h. Some (s, case dict_class_hash_to_class s h of
         Some contract_class \<Rightarrow> Inr contract_class | None \<Rightarrow> Inl (UndeclaredClassHash h))),
     rd_compiled_class_hash =
       (\<lambda>s h. Some (s, Inr (unwrap_or_default (dict_class_hash_to_compiled_class_hash s h))))\<rparr>"

end
