(* ===== verification/State_Programs.thy ===== *)
theory State_Programs
  imports Cached_State
begin

text \<open>
  What executing code sees of a cached state. A transaction is a \<open>program\<close>: a tree of calls of the
  \<^verbatim>\<open>State\<close> interface, each call continuing with its answer; this covers code that reaches the
  state through the calls listed in \<open>program\<close> only (a nested transactional state reads through to the outer
  one and writes to it when it is committed). Reading a compiled class hash is not among them: the readers
  answer it outside the abstract state. \<open>state_view\<close> is the abstract state, without any cache, and
  \<open>run_view\<close> runs a program on it.
\<close>

section \<open>Views\<close>

record 'c state_view =
  v_storage :: "storage_entry \<Rightarrow> felt"
  v_nonce :: "contract_address \<Rightarrow> nonce"
  v_class_hash :: "contract_address \<Rightarrow> class_hash"
  v_class :: "class_hash \<Rightarrow> 'c option"

definition or_else :: "'a option \<Rightarrow> 'a \<Rightarrow> 'a" where
  "or_else x y = (case x of Some v \<Rightarrow> v | None \<Rightarrow> y)"

lemma or_else_simps [simp]: "or_else (Some v) y = v" "or_else None y = y"
  by (simp_all add: or_else_def)

definition overlay :: "'c state_view \<Rightarrow> state_maps \<Rightarrow> 'c contract_class_mapping \<Rightarrow> 'c state_view" where
  "overlay v ws classes = \<lparr>
     v_storage = (\<lambda>k. or_else (map_of (sm_storage ws) k) (v_storage v k)),
     v_nonce = (\<lambda>a. or_else (map_of (sm_nonces ws) a) (v_nonce v a)),
     v_class_hash = (\<lambda>a. or_else (map_of (sm_class_hashes ws) a) (v_class_hash v a)),
     v_class = (\<lambda>h. case map_of classes h of Some cl \<Rightarrow> Some cl | None \<Rightarrow> v_class v h)\<rparr>"

lemma overlay_default [simp]: "overlay v sm_default [] = v"
  by (simp add: overlay_def sm_default_def)

section \<open>Programs\<close>

datatype ('c, 'r) program =
    Return 'r
  | GetStorageAt contract_address storage_key "felt \<Rightarrow> ('c, 'r) program"
  | GetNonceAt contract_address "nonce \<Rightarrow> ('c, 'r) program"
  | GetClassHashAt contract_address "class_hash \<Rightarrow> ('c, 'r) program"
  | GetCompiledClass class_hash "'c option \<Rightarrow> ('c, 'r) program"
  | SetStorageAt contract_address storage_key felt "('c, 'r) program"
  | IncrementNonce contract_address "('c, 'r) program"
  | SetClassHashAt contract_address class_hash "state_error + unit \<Rightarrow> ('c, 'r) program"
  | SetContractClass class_hash 'c "('c, 'r) program"
  | SetCompiledClassHash class_hash compiled_class_hash "('c, 'r) program"
  | UpdateInitialValues "('c, 'r) program"
  | AddVisitedPcs class_hash "nat set" "('c, 'r) program"

primrec run_view :: "('c, 'r) program \<Rightarrow> 'c state_view \<Rightarrow> 'c state_view \<times> 'r" where
  "run_view (Return r) v = (v, r)"
| "run_view (GetStorageAt a k f) v = run_view (f (v_storage v (a, k))) v"
| "run_view (GetNonceAt a f) v = run_view (f (v_nonce v a)) v"
| "run_view (GetClassHashAt a f) v = run_view (f (v_class_hash v a)) v"
| "run_view (GetCompiledClass h f) v = run_view (f (v_class v h)) v"
| "run_view (SetStorageAt a k x p) v = run_view p (v\<lparr>v_storage := (v_storage v)((a, k) := x)\<rparr>)"
| "run_view (IncrementNonce a p) v =
     run_view p (v\<lparr>v_nonce := (v_nonce v)(a := (v_nonce v a + 1) mod felt_prime)\<rparr>)"
| "run_view (SetClassHashAt a h f) v =
     (if a = 0 then run_view (f (Inl OutOfRangeContractAddress)) v
      else run_view (f (Inr ())) (v\<lparr>v_class_hash := (v_class_hash v)(a := h)\<rparr>))"
| "run_view (SetContractClass h cl p) v = run_view p (v\<lparr>v_class := (v_class v)(h \<mapsto> cl)\<rparr>)"
| "run_view (SetCompiledClassHash h ch p) v = run_view p v"
| "run_view (UpdateInitialValues p) v = run_view p v"
| "run_view (AddVisitedPcs h pcs p) v = run_view p v"

text \<open>One call on a cached state. A getter that fails (but for an undeclared class) stops the
  program; the readers below never do.\<close>

fun prog_step ::
    "('s, 'c) state_reader \<Rightarrow> ('s, 'c) cached_state \<Rightarrow> ('c, 'r) program
      \<Rightarrow> (('s, 'c) cached_state \<times> ('c, 'r) program) option" where
  "prog_step R c (Return r) = None"
| "prog_step R c (GetStorageAt a k f) =
     (case cs_get_storage_at R c a k of Some (c', Inr v) \<Rightarrow> Some (c', f v) | _ \<Rightarrow> None)"
| "prog_step R c (GetNonceAt a f) =
     (case cs_get_nonce_at R c a of Some (c', Inr v) \<Rightarrow> Some (c', f v) | _ \<Rightarrow> None)"
| "prog_step R c (GetClassHashAt a f) =
     (case cs_get_class_hash_at R c a of Some (c', Inr v) \<Rightarrow> Some (c', f v) | _ \<Rightarrow> None)"
| "prog_step R c (GetCompiledClass h f) =
     (case cs_get_compiled_class R c h of
        Some (c', Inr cl) \<Rightarrow> Some (c', f (Some cl))
      | Some (c', Inl (UndeclaredClassHash _)) \<Rightarrow> Some (c', f None)
      | _ \<Rightarrow> None)"
| "prog_step R c (SetStorageAt a k v p) = Some (cs_set_storage_at c a k v, p)"
| "prog_step R c (IncrementNonce a p) =
     (case cs_increment_nonce R c a of Some (c', Inr _) \<Rightarrow> Some (c', p) | _ \<Rightarrow> None)"
| "prog_step R c (SetClassHashAt a h f) = (case cs_set_class_hash_at c a h of (c', r) \<Rightarrow> Some (c', f r))"
| "prog_step R c (SetContractClass h cl p) = Some (cs_set_contract_class c h cl, p)"
| "prog_step R c (SetCompiledClassHash h ch p) = Some (cs_set_compiled_class_hash c h ch, p)"
| "prog_step R c (UpdateInitialValues p) =
     (case update_initial_values_of_write_only_access R c of Some (c', Inr _) \<Rightarrow> Some (c', p) | _ \<Rightarrow> None)"
| "prog_step R c (AddVisitedPcs h pcs p) = Some (cs_add_visited_pcs c h pcs, p)"

primrec run_program ::
    "('c, 'r) program \<Rightarrow> ('s, 'c) state_reader \<Rightarrow> ('s, 'c) cached_state \<Rightarrow> (('s, 'c) cached_state \<times> 'r) option" where
  "run_program (Return r) R c = Some (c, r)"
| "run_program (GetStorageAt a k f) R c =
     (case cs_get_storage_at R c a k of Some (c', Inr v) \<Rightarrow> run_program (f v) R c' | _ \<Rightarrow> None)"
| "run_program (GetNonceAt a f) R c =
     (case cs_get_nonce_at R c a of Some (c', Inr v) \<Rightarrow> run_program (f v) R c' | _ \<Rightarrow> None)"
| "run_program (GetClassHashAt a f) R c =
     (case cs_get_class_hash_at R c a of Some (c', Inr v) \<Rightarrow> run_program (f v) R c' | _ \<Rightarrow> None)"
| "run_program (GetCompiledClass h f) R c =
     (case cs_get_compiled_class R c h of
        Some (c', Inr cl) \<Rightarrow> run_program (f (Some cl)) R c'
      | Some (c', Inl (UndeclaredClassHash _)) \<Rightarrow> run_program (f None) R c'
      | _ \<Rightarrow> None)"
| "run_program (SetStorageAt a k v p) R c = run_program p R (cs_set_storage_at c a k v)"
| "run_program (IncrementNonce a p) R c =
     (case cs_increment_nonce R c a of Some (c', Inr _) \<Rightarrow> run_program p R c' | _ \<Rightarrow> None)"
| "run_program (SetClassHashAt a h f) R c =
     (case cs_set_class_hash_at c a h of (c', r) \<Rightarrow> run_program (f r) R c')"
| "run_program (SetContractClass h cl p) R c = run_program p R (cs_set_contract_class c h cl)"
| "run_program (SetCompiledClassHash h ch p) R c = run_program p R (cs_set_compiled_class_hash c h ch)"
| "run_program (UpdateInitialValues p) R c =
     (case update_initial_values_of_write_only_access R c of Some (c', Inr _) \<Rightarrow> run_program p R c' | _ \<Rightarrow> None)"
| "run_program (AddVisitedPcs h pcs p) R c = run_program p R (cs_add_visited_pcs c h pcs)"


lemma run_program_step:
  "prog_step R c P = Some (c', P') \<Longrightarrow> run_program P R c = run_program P' R c'"
  by (cases P) (auto split: option.splits prod.splits sum.splits state_error.splits)

section \<open>Replaying an execution\<close>

text \<open>The views that give the answers that a transaction recorded: \<open>class_of\<close> is the class with a given
  hash.\<close>

definition agrees :: "(class_hash \<Rightarrow> 'c) \<Rightarrow> 'c state_view \<Rightarrow> state_maps \<Rightarrow> bool" where
  "agrees class_of v reads \<longleftrightarrow>
     hm_all (\<lambda>k x. v_storage v k = x) (sm_storage reads) \<and>
     hm_all (\<lambda>a n. v_nonce v a = n) (sm_nonces reads) \<and>
     hm_all (\<lambda>a h. v_class_hash v a = h) (sm_class_hashes reads) \<and>
     hm_all (\<lambda>h b. v_class v h = (if b then Some (class_of h) else None)) (sm_declared_contracts reads)"

text \<open>A reader answers with the class that has the hash, and names the hash that is not declared; this is
  all that is asked of the state that a transaction reads while other transactions change it.\<close>

definition honest_at :: "(class_hash \<Rightarrow> 'c) \<Rightarrow> ('s, 'c) state_reader \<Rightarrow> 's \<Rightarrow> bool" where
  "honest_at class_of R s \<longleftrightarrow>
     (\<forall>h s' cl. rd_compiled_class R s h = Some (s', Inr cl) \<longrightarrow> cl = class_of h) \<and>
     (\<forall>h s' h'. rd_compiled_class R s h = Some (s', Inl (UndeclaredClassHash h')) \<longrightarrow> h' = h)"

definition honest_reader :: "(class_hash \<Rightarrow> 'c) \<Rightarrow> ('s, 'c) state_reader \<Rightarrow> bool" where
  "honest_reader class_of R \<longleftrightarrow> (\<forall>s. honest_at class_of R s)"

lemma honest_readerD:
  "honest_at class_of R s \<Longrightarrow> rd_compiled_class R s h = Some (s', Inr cl) \<Longrightarrow> cl = class_of h"
  "honest_at class_of R s \<Longrightarrow> rd_compiled_class R s h = Some (s', Inl (UndeclaredClassHash h')) \<Longrightarrow> h' = h"
  by (simp_all add: honest_at_def)

text \<open>A program that declares classes under their own hash, and does not ask again for a class that it
  found undeclared (the set \<open>U\<close>) before declaring it.\<close>

primrec wf_program :: "(class_hash \<Rightarrow> 'c) \<Rightarrow> ('c, 'r) program \<Rightarrow> class_hash set \<Rightarrow> bool" where
  "wf_program class_of (Return r) U \<longleftrightarrow> True"
| "wf_program class_of (GetStorageAt a k f) U \<longleftrightarrow> (\<forall>x. wf_program class_of (f x) U)"
| "wf_program class_of (GetNonceAt a f) U \<longleftrightarrow> (\<forall>x. wf_program class_of (f x) U)"
| "wf_program class_of (GetClassHashAt a f) U \<longleftrightarrow> (\<forall>x. wf_program class_of (f x) U)"
| "wf_program class_of (GetCompiledClass h f) U \<longleftrightarrow>
     h \<notin> U \<and> (\<forall>cl. wf_program class_of (f (Some cl)) U) \<and> wf_program class_of (f None) (insert h U)"
| "wf_program class_of (SetStorageAt a k x p) U \<longleftrightarrow> wf_program class_of p U"
| "wf_program class_of (IncrementNonce a p) U \<longleftrightarrow> wf_program class_of p U"
| "wf_program class_of (SetClassHashAt a h f) U \<longleftrightarrow> (\<forall>x. wf_program class_of (f x) U)"
| "wf_program class_of (SetContractClass h cl p) U \<longleftrightarrow> cl = class_of h \<and> wf_program class_of p (U - {h})"
| "wf_program class_of (SetCompiledClassHash h ch p) U \<longleftrightarrow> wf_program class_of p U"
| "wf_program class_of (UpdateInitialValues p) U \<longleftrightarrow> wf_program class_of p U"
| "wf_program class_of (AddVisitedPcs h pcs p) U \<longleftrightarrow> wf_program class_of p U"

definition sm_ok :: "state_maps \<Rightarrow> bool" where
  "sm_ok m \<longleftrightarrow> hm_ok (sm_nonces m) \<and> hm_ok (sm_class_hashes m) \<and> hm_ok (sm_storage m) \<and>
     hm_ok (sm_compiled_class_hashes m) \<and> hm_ok (sm_declared_contracts m)"

definition classes_ok :: "(class_hash \<Rightarrow> 'c) \<Rightarrow> ('s, 'c) cached_state \<Rightarrow> class_hash set \<Rightarrow> bool" where
  "classes_ok class_of c U \<longleftrightarrow>
     hm_ok (cs_class_hash_to_class c) \<and>
     (\<forall>h cl. map_of (cs_class_hash_to_class c) h = Some cl \<longrightarrow> cl = class_of h) \<and>
     (\<forall>h. h \<notin> U \<longrightarrow> map_of (cs_class_hash_to_class c) h = None \<longrightarrow>
        map_of (sm_declared_contracts (initial_reads (cs_cache c))) h = None)"

text \<open>What holds while a program that started as \<open>P0\<close> runs, having reached the cached state \<open>c\<close> and the rest
  \<open>P\<close>: on every view that agrees with the recorded reads, \<open>P0\<close> gets to the same point.\<close>

definition replays :: "(class_hash \<Rightarrow> 'c) \<Rightarrow> ('c, 'r) program \<Rightarrow> ('s, 'c) cached_state \<Rightarrow> ('c, 'r) program \<Rightarrow> bool" where
  "replays class_of P0 c P \<longleftrightarrow>
     (\<forall>v. agrees class_of v (initial_reads (cs_cache c)) \<longrightarrow>
        run_view P0 v = run_view P (overlay v (writes (cs_cache c)) (cs_class_hash_to_class c)))"

definition running :: "(class_hash \<Rightarrow> 'c) \<Rightarrow> ('c, 'r) program \<Rightarrow> ('s, 'c) cached_state \<Rightarrow> ('c, 'r) program \<Rightarrow> bool" where
  "running class_of P0 c P \<longleftrightarrow> replays class_of P0 c P \<and>
     (\<exists>U. wf_program class_of P U \<and> classes_ok class_of c U) \<and>
     sm_ok (initial_reads (cs_cache c)) \<and> sm_ok (writes (cs_cache c))"

lemma running_new: "wf_program class_of P {} \<Longrightarrow> running class_of P (create_transactional s) P"
  by (auto simp: running_def replays_def create_transactional_def cs_new_def sc_default_def classes_ok_def
    sm_ok_def sm_default_def overlay_default[unfolded sm_default_def])

lemma running_env [simp]: "running class_of P0 (c\<lparr>cs_state := s\<rparr>) P \<longleftrightarrow> running class_of P0 c P"
  by (simp add: running_def replays_def classes_ok_def)

lemmas cache_defs = set_storage_initial_value_def set_storage_value_def set_nonce_initial_value_def
  set_nonce_value_def set_class_hash_initial_value_def set_class_hash_write_def
  set_compiled_class_hash_initial_value_def set_compiled_class_hash_write_def
  set_declared_contract_initial_value_def declare_contract_def

lemmas sc_get_defs = sc_get_storage_at_def sc_get_nonce_at_def sc_get_class_hash_at_def sc_get_compiled_class_hash_def

text \<open>Recording a first read.\<close>

lemma agrees_update:
  "map_of (sm_storage rs) k = None \<Longrightarrow> agrees class_of v (rs\<lparr>sm_storage := AList.update k x (sm_storage rs)\<rparr>) \<longleftrightarrow>
     agrees class_of v rs \<and> v_storage v k = x"
  "map_of (sm_nonces rs) a = None \<Longrightarrow> agrees class_of v (rs\<lparr>sm_nonces := AList.update a x (sm_nonces rs)\<rparr>) \<longleftrightarrow>
     agrees class_of v rs \<and> v_nonce v a = x"
  "map_of (sm_class_hashes rs) a = None \<Longrightarrow>
     agrees class_of v (rs\<lparr>sm_class_hashes := AList.update a x (sm_class_hashes rs)\<rparr>) \<longleftrightarrow>
     agrees class_of v rs \<and> v_class_hash v a = x"
  "map_of (sm_declared_contracts rs) h = None \<Longrightarrow>
     agrees class_of v (rs\<lparr>sm_declared_contracts := AList.update h b (sm_declared_contracts rs)\<rparr>) \<longleftrightarrow>
     agrees class_of v rs \<and> v_class v h = (if b then Some (class_of h) else None)"
  by (auto simp: agrees_def hm_all_update)

lemma agrees_compiled [simp]:
  "agrees class_of v (rs\<lparr>sm_compiled_class_hashes := m\<rparr>) \<longleftrightarrow> agrees class_of v rs"
  by (simp add: agrees_def)


text \<open>Calls keep what holds of a running program. First the getters, which differ only in the map they
  read.\<close>

lemma replays_mono:
  assumes "replays class_of P0 c P"
    and "\<And>v. agrees class_of v (initial_reads (cs_cache c')) \<Longrightarrow> agrees class_of v (initial_reads (cs_cache c)) \<and>
      run_view P (overlay v (writes (cs_cache c)) (cs_class_hash_to_class c)) =
      run_view P' (overlay v (writes (cs_cache c')) (cs_class_hash_to_class c'))"
  shows "replays class_of P0 c' P'"
  using assms unfolding replays_def by metis

lemma sm_ok_updates:
  "sm_ok m \<Longrightarrow> sm_ok (m\<lparr>sm_storage := AList.update k x (sm_storage m)\<rparr>)"
  "sm_ok m \<Longrightarrow> sm_ok (m\<lparr>sm_nonces := AList.update a n (sm_nonces m)\<rparr>)"
  "sm_ok m \<Longrightarrow> sm_ok (m\<lparr>sm_class_hashes := AList.update a h (sm_class_hashes m)\<rparr>)"
  "sm_ok m \<Longrightarrow> sm_ok (m\<lparr>sm_compiled_class_hashes := AList.update h x (sm_compiled_class_hashes m)\<rparr>)"
  "sm_ok m \<Longrightarrow> sm_ok (m\<lparr>sm_declared_contracts := AList.update h b (sm_declared_contracts m)\<rparr>)"
  by (simp_all add: sm_ok_def)

lemma running_record:
  assumes "running class_of P0 c P"
  shows "map_of (sm_storage (initial_reads (cs_cache c))) (a, k) = None \<Longrightarrow>
      running class_of P0 (c\<lparr>cs_state := s, cs_cache := set_storage_initial_value (cs_cache c) a k x\<rparr>) P"
    and "map_of (sm_nonces (initial_reads (cs_cache c))) a = None \<Longrightarrow>
      running class_of P0 (c\<lparr>cs_state := s, cs_cache := set_nonce_initial_value (cs_cache c) a x\<rparr>) P"
    and "map_of (sm_class_hashes (initial_reads (cs_cache c))) a = None \<Longrightarrow>
      running class_of P0 (c\<lparr>cs_state := s, cs_cache := set_class_hash_initial_value (cs_cache c) a x\<rparr>) P"
  using assms unfolding running_def
  by (auto simp: cache_defs agrees_update classes_ok_def sm_ok_updates elim!: replays_mono)

text \<open>A getter answers from the cache, after recording the answer of the wrapped reader if need be.\<close>

lemma getter_recorded:
  "cs_get_storage_at R c a k = Some (c', Inr x) \<Longrightarrow> sc_get_storage_at (cs_cache c') a k = Some x \<and>
     (c' = c \<or> map_of (sm_storage (initial_reads (cs_cache c))) (a, k) = None \<and>
       (\<exists>s y. c' = c\<lparr>cs_state := s, cs_cache := set_storage_initial_value (cs_cache c) a k y\<rparr>))"
  "cs_get_nonce_at R c a = Some (c', Inr n) \<Longrightarrow> sc_get_nonce_at (cs_cache c') a = Some n \<and>
     (c' = c \<or> map_of (sm_nonces (initial_reads (cs_cache c))) a = None \<and>
       (\<exists>s y. c' = c\<lparr>cs_state := s, cs_cache := set_nonce_initial_value (cs_cache c) a y\<rparr>))"
  "cs_get_class_hash_at R c a = Some (c', Inr h) \<Longrightarrow> sc_get_class_hash_at (cs_cache c') a = Some h \<and>
     (c' = c \<or> map_of (sm_class_hashes (initial_reads (cs_cache c))) a = None \<and>
       (\<exists>s y. c' = c\<lparr>cs_state := s, cs_cache := set_class_hash_initial_value (cs_cache c) a y\<rparr>))"
  by ((auto simp: cs_get_storage_at_def cs_get_nonce_at_def cs_get_class_hash_at_def on_inner_def rs_try_def
    sc_get_defs split: option.splits sum.splits prod.splits if_splits; blast)[1])+

lemma running_getter:
  "running class_of P0 c P \<Longrightarrow> cs_get_storage_at R c a k = Some (c', Inr x) \<Longrightarrow> running class_of P0 c' P"
  "running class_of P0 c P \<Longrightarrow> cs_get_nonce_at R c a = Some (c', Inr n) \<Longrightarrow> running class_of P0 c' P"
  "running class_of P0 c P \<Longrightarrow> cs_get_class_hash_at R c a = Some (c', Inr h) \<Longrightarrow> running class_of P0 c' P"
  using running_record[of class_of P0 c P] by (auto dest!: getter_recorded)

lemma running_cached:
  "running class_of P0 c (GetStorageAt a k f) \<Longrightarrow> sc_get_storage_at (cs_cache c) a k = Some x \<Longrightarrow>
     running class_of P0 c (f x)"
  "running class_of P0 c (GetNonceAt a g) \<Longrightarrow> sc_get_nonce_at (cs_cache c) a = Some n \<Longrightarrow>
     running class_of P0 c (g n)"
  "running class_of P0 c (GetClassHashAt a g) \<Longrightarrow> sc_get_class_hash_at (cs_cache c) a = Some h \<Longrightarrow>
     running class_of P0 c (g h)"
  unfolding running_def
  by (auto simp: sc_get_defs overlay_def agrees_def dest: hm_allD elim!: replays_mono split: option.splits)

text \<open>The setters.\<close>

lemma overlay_update:
  "overlay v (m\<lparr>sm_storage := AList.update k x (sm_storage m)\<rparr>) cls =
     (overlay v m cls)\<lparr>v_storage := (v_storage (overlay v m cls))(k := x)\<rparr>"
  "overlay v (m\<lparr>sm_nonces := AList.update a n (sm_nonces m)\<rparr>) cls =
     (overlay v m cls)\<lparr>v_nonce := (v_nonce (overlay v m cls))(a := n)\<rparr>"
  "overlay v (m\<lparr>sm_class_hashes := AList.update a h (sm_class_hashes m)\<rparr>) cls =
     (overlay v m cls)\<lparr>v_class_hash := (v_class_hash (overlay v m cls))(a := h)\<rparr>"
  "overlay v m (AList.update h cl cls) = (overlay v m cls)\<lparr>v_class := (v_class (overlay v m cls))(h \<mapsto> cl)\<rparr>"
  "overlay v (m\<lparr>sm_compiled_class_hashes := y\<rparr>) cls = overlay v m cls"
  "overlay v (m\<lparr>sm_declared_contracts := z\<rparr>) cls = overlay v m cls"
  by (auto simp: overlay_def update_conv' fun_eq_iff)

lemma overlay_read_class:
  "map_of cls h = None \<Longrightarrow> v_class v h = Some cl \<Longrightarrow> overlay v m (AList.update h cl cls) = overlay v m cls"
  "v_class (overlay v m cls) h = (case map_of cls h of Some cl \<Rightarrow> Some cl | None \<Rightarrow> v_class v h)"
  by (auto simp: overlay_def update_conv' fun_eq_iff)

lemma running_set_storage:
  "running class_of P0 c (SetStorageAt a k x p) \<Longrightarrow> running class_of P0 (cs_set_storage_at c a k x) p"
  unfolding running_def
  by (auto simp: cs_set_storage_at_def cache_defs overlay_update classes_ok_def sm_ok_updates elim!: replays_mono)

lemma running_set_class_hash:
  "running class_of P0 c (SetClassHashAt a h f) \<Longrightarrow> cs_set_class_hash_at c a h = (c', r) \<Longrightarrow> running class_of P0 c' (f r)"
  unfolding running_def
  by (auto simp: cs_set_class_hash_at_def cache_defs overlay_update classes_ok_def sm_ok_updates
    split: if_splits elim!: replays_mono)

lemma running_set_compiled_class_hash:
  "running class_of P0 c (SetCompiledClassHash h ch p) \<Longrightarrow> running class_of P0 (cs_set_compiled_class_hash c h ch) p"
  unfolding running_def
  by (auto simp: cs_set_compiled_class_hash_def cache_defs overlay_update classes_ok_def sm_ok_updates elim!: replays_mono)

lemma running_increment_nonce:
  assumes "running class_of P0 c (IncrementNonce a p)" "cs_increment_nonce R c a = Some (c', Inr u)"
  shows "running class_of P0 c' p"
proof -
  from assms(2) obtain c1 n where get: "cs_get_nonce_at R c a = Some (c1, Inr n)"
    and c': "c' = c1\<lparr>cs_cache := set_nonce_value (cs_cache c1) a ((n + 1) mod felt_prime)\<rparr>"
    by (auto simp: cs_increment_nonce_def rs_try_Inr_iff)
  have run: "running class_of P0 c1 (IncrementNonce a p)" by (rule running_getter(2)[OF assms(1) get])
  have "v_nonce (overlay v (writes (cs_cache c1)) (cs_class_hash_to_class c1)) a = n"
    if "agrees class_of v (initial_reads (cs_cache c1))" for v
    using getter_recorded(2)[OF get] that
    by (auto simp: sc_get_defs overlay_def agrees_def dest: hm_allD split: option.splits)
  with run show ?thesis
    unfolding running_def c'
    by (auto simp: cache_defs overlay_update classes_ok_def sm_ok_updates elim!: replays_mono)
qed

lemma running_fill:
  "running class_of P0 c P \<Longrightarrow> fill_write_only_storage R c keys = Some (c', Inr u) \<Longrightarrow> running class_of P0 c' P"
proof (induction R c keys rule: fill_write_only_storage.induct)
  case (2 R c a k keys)
  show ?case
  proof (cases "map_of (sm_storage (initial_reads (cs_cache c))) (a, k) = None")
    case True
    with 2(4) obtain s x where x: "rd_storage_at R (cs_state c) a k = Some (s, Inr x)"
      "fill_write_only_storage R (c\<lparr>cs_state := s, cs_cache := set_storage_initial_value (cs_cache c) a k x\<rparr>) keys =
        Some (c', Inr u)"
      by (auto simp: on_inner_def rs_try_Inr_iff)
    with True 2(1)[OF True, of "c\<lparr>cs_state := s\<rparr>" x] running_record(1)[OF 2(3) True, where s=s and x=x] show ?thesis by simp
  next
    case False
    with 2 show ?thesis by simp
  qed
qed simp


lemma running_set_contract_class:
  "running class_of P0 c (SetContractClass h cl p) \<Longrightarrow> running class_of P0 (cs_set_contract_class c h cl) p"
  unfolding running_def
proof (elim conjE exE, intro conjI)
  fix U assume U: "wf_program class_of (SetContractClass h cl p) U" "classes_ok class_of c U"
  show "\<exists>U. wf_program class_of p U \<and> classes_ok class_of (cs_set_contract_class c h cl) U"
    using U by (intro exI[of _ "U - {h}"])
      (auto simp: classes_ok_def cs_set_contract_class_def cache_defs update_conv')
qed (auto simp: cs_set_contract_class_def cache_defs overlay_update sm_ok_updates elim!: replays_mono)

lemma running_get_class:
  assumes "running class_of P0 c (GetCompiledClass h f)" "honest_at class_of R (cs_state c)"
    and "cs_get_compiled_class R c h = Some (c', r)"
    and "r = Inr cl \<and> ans = Some cl \<or> r = Inl (UndeclaredClassHash h') \<and> ans = None"
  shows "running class_of P0 c' (f ans)"
proof (cases "map_of (cs_class_hash_to_class c) h")
  case (Some cl')
  with assms(3,4) have "c' = c" "ans = Some cl'" by (auto simp: cs_get_compiled_class_def)
  with assms(1) Some show ?thesis
    unfolding running_def by (auto simp: overlay_def elim!: replays_mono)
next
  case None
  obtain U where U: "wf_program class_of (GetCompiledClass h f) U" "classes_ok class_of c U"
    using assms(1) by (auto simp: running_def)
  then have fresh: "map_of (sm_declared_contracts (initial_reads (cs_cache c))) h = None"
    using None by (simp add: classes_ok_def)
  have replay: "replays class_of P0 c (GetCompiledClass h f)" and
    ok: "sm_ok (initial_reads (cs_cache c))" "sm_ok (writes (cs_cache c))"
    using assms(1) by (auto simp: running_def)
  show ?thesis
  proof (cases ans)
    case None': None
    with assms(3,4) None obtain s where
      c': "c' = c\<lparr>cs_state := s, cs_cache := set_compiled_class_hash_initial_value
        (set_declared_contract_initial_value (cs_cache c) h False) h 0\<rparr>"
      by (auto simp: cs_get_compiled_class_def on_inner_def
        split: option.splits sum.splits prod.splits state_error.splits dest: honest_readerD(2)[OF assms(2)])
    have "replays class_of P0 c' (f ans)"
      by (rule replays_mono[OF replay]) (auto simp: c' None None' cache_defs agrees_update fresh overlay_def)
    moreover have "wf_program class_of (f ans) (insert h U) \<and> classes_ok class_of c' (insert h U)"
      using U by (auto simp: c' None' classes_ok_def cache_defs update_conv')
    moreover have "sm_ok (initial_reads (cs_cache c'))" "sm_ok (writes (cs_cache c'))"
      using ok by (simp_all add: c' cache_defs sm_ok_def)
    ultimately show ?thesis by (auto simp: running_def)
  next
    case (Some cl')
    with assms(3,4) None obtain s where
      c': "c' = c\<lparr>cs_state := s, cs_cache := set_declared_contract_initial_value (cs_cache c) h True,
        cs_class_hash_to_class := AList.update h cl' (cs_class_hash_to_class c)\<rparr>" and cl': "cl' = class_of h"
      by (auto simp: cs_get_compiled_class_def on_inner_def update_conv'
        split: option.splits sum.splits prod.splits state_error.splits dest: honest_readerD(1)[OF assms(2)])
    have "replays class_of P0 c' (f ans)"
      by (rule replays_mono[OF replay])
        (auto simp: c' cl' Some None cache_defs agrees_update fresh overlay_read_class)
    moreover have "wf_program class_of (f ans) U \<and> classes_ok class_of c' U"
      using U cl' by (auto simp: c' Some classes_ok_def cache_defs update_conv')
    moreover have "sm_ok (initial_reads (cs_cache c'))" "sm_ok (writes (cs_cache c'))"
      using ok by (simp_all add: c' cache_defs sm_ok_def)
    ultimately show ?thesis by (auto simp: running_def)
  qed
qed

lemma running_step:
  assumes "running class_of P0 c P" "honest_at class_of R (cs_state c)" "prog_step R c P = Some (c', P')"
  shows "running class_of P0 c' P'"
proof (cases P)
  case (GetStorageAt a k f)
  with assms(3) obtain x where x: "cs_get_storage_at R c a k = Some (c', Inr x)" "P' = f x"
    by (auto split: option.splits sum.splits prod.splits)
  with running_getter(1)[OF assms(1)] GetStorageAt running_cached(1) getter_recorded(1)[OF x(1)] show ?thesis
    by blast
next
  case (GetNonceAt a f)
  with assms(3) obtain x where x: "cs_get_nonce_at R c a = Some (c', Inr x)" "P' = f x"
    by (auto split: option.splits sum.splits prod.splits)
  with running_getter(2)[OF assms(1)] GetNonceAt running_cached(2) getter_recorded(2)[OF x(1)] show ?thesis
    by blast
next
  case (GetClassHashAt a f)
  with assms(3) obtain x where x: "cs_get_class_hash_at R c a = Some (c', Inr x)" "P' = f x"
    by (auto split: option.splits sum.splits prod.splits)
  with running_getter(3)[OF assms(1)] GetClassHashAt running_cached(3) getter_recorded(3)[OF x(1)] show ?thesis
    by blast
next
  case (GetCompiledClass h f)
  with assms running_get_class[of class_of P0 c h f R c'] show ?thesis
    by (auto split: option.splits sum.splits prod.splits state_error.splits)
next
  case (AddVisitedPcs h pcs p)
  with assms show ?thesis
    by (auto simp: cs_add_visited_pcs_def running_def replays_def classes_ok_def)
next
  case (UpdateInitialValues p)
  with assms running_fill[of class_of P0 c p R] show ?thesis
    by (auto simp: update_initial_values_of_write_only_access_def running_def replays_def
      split: option.splits sum.splits prod.splits)
qed (use assms in \<open>auto split: option.splits sum.splits prod.splits intro: running_set_storage
  running_set_class_hash running_set_contract_class running_set_compiled_class_hash running_increment_nonce\<close>)


lemma run_program_stepE:
  assumes "run_program P R c = Some (c', r)"
  obtains "P = Return r" "c' = c" | c1 P1 where "prog_step R c P = Some (c1, P1)" "run_program P1 R c1 = Some (c', r)"
  using assms by (cases P) (auto split: option.splits prod.splits sum.splits state_error.splits)

text \<open>An execution during which the shared state may change between any two calls.\<close>

inductive interleaved ::
    "('s, 'c) state_reader \<Rightarrow> ('s, 'c) cached_state \<Rightarrow> ('c, 'r) program \<Rightarrow> ('s, 'c) cached_state \<Rightarrow> ('c, 'r) program \<Rightarrow> bool"
  for R where
  start: "interleaved R c P c P"
| env: "interleaved R c P c1 P1 \<Longrightarrow> interleaved R c P (c1\<lparr>cs_state := s\<rparr>) P1"
| call: "interleaved R c P c1 P1 \<Longrightarrow> prog_step R c1 P1 = Some (c2, P2) \<Longrightarrow> interleaved R c P c2 P2"

lemma running_interleaved:
  "interleaved R c P c' P' \<Longrightarrow> honest_reader class_of R \<Longrightarrow> running class_of P0 c P \<Longrightarrow> running class_of P0 c' P'"
  by (induction rule: interleaved.induct) (auto simp: honest_reader_def intro: running_step)

text \<open>The execution in which the call number \<open>i\<close> finds the shared state \<open>ss ! i\<close>.\<close>

fun run_with ::
    "('s, 'c) state_reader \<Rightarrow> 's list \<Rightarrow> ('s, 'c) cached_state \<Rightarrow> ('c, 'r) program
      \<Rightarrow> (('s, 'c) cached_state \<times> ('c, 'r) program) option" where
  "run_with R [] c P = Some (c, P)"
| "run_with R (s # ss) c P = do {
     (c1, P1) \<leftarrow> prog_step R (c\<lparr>cs_state := s\<rparr>) P;
     run_with R ss c1 P1 }"

lemma run_with_interleaved:
  "run_with R ss c P = Some (c', P') \<Longrightarrow> interleaved R c0 P0 c P \<Longrightarrow> interleaved R c0 P0 c' P'"
proof (induction ss arbitrary: c P)
  case (Cons s ss)
  from Cons.prems(1) obtain c1 P1 where
    "prog_step R (c\<lparr>cs_state := s\<rparr>) P = Some (c1, P1)" "run_with R ss c1 P1 = Some (c', P')"
    by (auto simp: bind_eq_Some_conv)
  with Cons.IH interleaved.call[OF interleaved.env[OF Cons.prems(2)]] show ?case by blast
qed simp

section \<open>State differences\<close>

lemma diff_entry:
  assumes "hm_ok m" "strict_subtract_mappings m n = Some d" "hm_all (\<lambda>k x. f k = x) n"
  shows "or_else (map_of d k) (f k) = or_else (map_of m k) (f k)"
    and "map_of d k = Some x \<longleftrightarrow> map_of m k = Some x \<and> f k \<noteq> x"
proof -
  have sub: "k \<in> dom (map_of m) \<Longrightarrow> k \<in> dom (map_of n)" and d: "d = subtract_mappings m n"
    using assms(2) by (auto simp: strict_subtract_eq dom_map_of_conv_image_fst split: if_splits)
  show "or_else (map_of d k) (f k) = or_else (map_of m k) (f k)"
    using assms(1,3) by (auto simp: d map_of_subtract dest: hm_allD split: option.splits)
  show "map_of d k = Some x \<longleftrightarrow> map_of m k = Some x \<and> f k \<noteq> x"
  proof (cases "map_of m k")
    case (Some y)
    with sub obtain z where "map_of n k = Some z" by auto
    with Some assms(3) show ?thesis
      unfolding d map_of_subtract[OF assms(1)] by (auto dest: hm_allD)
  qed (simp only: d map_of_subtract[OF assms(1)], simp)
qed

lemma diff_overlay:
  assumes "sm_ok ws" "sm_diff ws rs = Some d" "agrees class_of v rs"
  shows "overlay v d classes = overlay v ws classes"
  using assms diff_entry(1)[of "sm_storage ws" "sm_storage rs" "sm_storage d" "v_storage v"]
    diff_entry(1)[of "sm_nonces ws" "sm_nonces rs" "sm_nonces d" "v_nonce v"]
    diff_entry(1)[of "sm_class_hashes ws" "sm_class_hashes rs" "sm_class_hashes d" "v_class_hash v"]
  by (auto simp: overlay_def sm_diff_def sm_ok_def agrees_def bind_eq_Some_conv)

section \<open>Properties\<close>

text \<open>C20: Executions are replayable: if a transaction runs while other transactions change the state it
  reads between any two of its calls, then on every state that agrees with the reads it recorded, running
  it undisturbed gives the same result and the same state, both by its writes and by the state diff
  computed from them. So it is enough to validate the recorded reads before a commit. The program is
  assumed to declare classes under their own hash and not to ask twice for a class that it found
  undeclared.\<close>

theorem interleaved_execution_is_replayable:
  assumes "honest_reader class_of R" "wf_program class_of P {}"
    and "interleaved R (create_transactional s) P c (Return r)"
    and "agrees class_of v (initial_reads (cs_cache c))" "sc_to_state_diff (cs_cache c) = Some d"
  shows "run_view P v = (overlay v (writes (cs_cache c)) (cs_class_hash_to_class c), r) \<and>
    run_view P v = (overlay v (ch_state_maps d) (cs_class_hash_to_class c), r)"
proof -
  have run: "running class_of P c (Return r)"
    using running_interleaved[OF assms(3,1) running_new[OF assms(2)]] .
  then have "run_view P v = run_view (Return r :: ('a, 'c) program)
      (overlay v (writes (cs_cache c)) (cs_class_hash_to_class c))"
    using assms(4) by (auto simp: running_def replays_def)
  moreover have "overlay v (ch_state_maps d) (cs_class_hash_to_class c) =
      overlay v (writes (cs_cache c)) (cs_class_hash_to_class c)"
    using run assms(5) diff_overlay[OF _ _ assms(4), of "writes (cs_cache c)"]
    by (auto simp: running_def sc_to_state_diff_def bind_eq_Some_conv)
  ultimately show ?thesis by simp
qed

text \<open>A transaction that adds what it reads in one cell to another one, while the first cell is overwritten
  between its reads.\<close>

definition sample_program :: "(nat, nat) program" where
  "sample_program = GetStorageAt 1 1 (\<lambda>x. IncrementNonce 7 (GetStorageAt 1 2 (\<lambda>y.
     SetStorageAt 1 2 (x + y) (SetStorageAt 1 1 x (Return (x + y))))))"

definition sample_dict :: "felt \<Rightarrow> nat dict_state_reader" where
  "sample_dict x = \<lparr>
     dict_storage_view = [(1, 1) \<mapsto> x, (1, 2) \<mapsto> 2], dict_address_to_nonce = Map.empty,
     dict_address_to_class_hash = Map.empty, dict_class_hash_to_class = [5 \<mapsto> 5],
     dict_class_hash_to_compiled_class_hash = Map.empty\<rparr>"

definition sample_honest :: "(nat dict_state_reader, nat) state_reader" where
  "sample_honest = dict_reader\<lparr>rd_compiled_class := (\<lambda>s h. Some (s, if h = 5 then Inr 5 else Inl (UndeclaredClassHash h)))\<rparr>"

definition sample_final :: "(nat dict_state_reader, nat) cached_state" where
  "sample_final = \<lparr>cs_state = sample_dict 9,
     cs_cache = \<lparr>initial_reads = sm_default\<lparr>sm_storage := [((1, 1), 3), ((1, 2), 2)], sm_nonces := [(7, 0)]\<rparr>,
       writes = sm_default\<lparr>sm_storage := [((1, 2), 5), ((1, 1), 3)], sm_nonces := [(7, 1)]\<rparr>\<rparr>,
     cs_class_hash_to_class = [], cs_visited_pcs = []\<rparr>"

theorem interleaved_execution_is_replayable_witness:
  "run_view sample_program \<lparr>v_storage = (\<lambda>k. if k = (1, 1) then 3 else 2), v_nonce = (\<lambda>_. 0),
       v_class_hash = (\<lambda>_. 0), v_class = Map.empty\<rparr> =
     (\<lparr>v_storage = (\<lambda>k. or_else (map_of [((1, 2), 5)] k) (if k = (1, 1) then 3 else 2)),
       v_nonce = (\<lambda>a. or_else (map_of [(7, 1)] a) 0), v_class_hash = (\<lambda>_. 0), v_class = Map.empty\<rparr>, 5)"
proof -
  let ?v = "\<lparr>v_storage = (\<lambda>k. if k = (1, 1) then 3 else 2), v_nonce = (\<lambda>_. 0),
    v_class_hash = (\<lambda>_. 0), v_class = Map.empty\<rparr> :: nat state_view"
  have "run_with sample_honest [sample_dict 3, sample_dict 9, sample_dict 9, sample_dict 9, sample_dict 9]
      (create_transactional (sample_dict 3)) sample_program = Some (sample_final, Return 5)"
    by (simp add: sample_program_def sample_honest_def sample_dict_def sample_final_def create_transactional_def
      cs_new_def sc_default_def sm_default_def cs_get_storage_at_def cs_increment_nonce_def cs_get_nonce_at_def
      cs_set_storage_at_def sc_get_defs cache_defs on_inner_def dict_reader_def unwrap_or_default_def felt_prime_def)
  then have run: "interleaved sample_honest (create_transactional (sample_dict 3)) sample_program sample_final (Return 5)"
    by (rule run_with_interleaved) (rule interleaved.start)
  have honest: "honest_reader id sample_honest"
    by (auto simp: honest_reader_def honest_at_def sample_honest_def split: if_splits)
  have wf: "wf_program id sample_program {}"
    by (simp add: sample_program_def)
  have agr: "agrees id ?v (initial_reads (cs_cache sample_final))"
    by (auto simp: sample_final_def agrees_def sm_default_def hm_all_def)
  have diff: "sc_to_state_diff (cs_cache sample_final) =
      Some \<lparr>ch_state_maps = sm_default\<lparr>sm_storage := [((1, 2), 5)], sm_nonces := [(7, 1)]\<rparr>, ch_allocated_keys = {}\<rparr>"
    by (simp add: sample_final_def sc_to_state_diff_def sm_diff_def sm_default_def subtract_mappings_def from_storage_diff_def)
  have "run_view sample_program ?v =
      (overlay ?v (sm_default\<lparr>sm_storage := [((1, 2), 5)], sm_nonces := [(7, 1)]\<rparr>) (cs_class_hash_to_class sample_final), 5)"
    using interleaved_execution_is_replayable[OF honest wf run agr diff, THEN conjunct2]
    unfolding state_changes.simps .
  then have "run_view sample_program ?v =
      (overlay ?v (sm_default\<lparr>sm_storage := [((1, 2), 5)], sm_nonces := [(7, 1)]\<rparr>) [], 5)"
    unfolding sample_final_def cached_state.simps .
  then show ?thesis by (simp add: overlay_def sm_default_def)
qed

end
