(* ===== verification/Cached_State_Laws.thy ===== *)
theory Cached_State_Laws
  imports State_Programs
begin

text \<open>
  The contract of a state reader, and that a cached state on top of a reader that keeps it implements
  the abstract state: whatever is cached, getters return what the abstract state holds and setters
  update it. The contract is kept by \<^verbatim>\<open>DictStateReader\<close> and, again, by every cached state on top.
\<close>

section \<open>The contract\<close>

text \<open>\<open>view\<close> is what the reader's state means; reading gives the value there and does not change the
  meaning.\<close>

locale state_reader_laws =
  fixes R :: "('s, 'c) state_reader" and view :: "'s \<Rightarrow> 'c state_view" and good :: "'s \<Rightarrow> bool"
  assumes storage_law: "good s \<Longrightarrow> \<exists>s'. rd_storage_at R s a k = Some (s', Inr (v_storage (view s) (a, k))) \<and>
      view s' = view s \<and> good s'"
    and nonce_law: "good s \<Longrightarrow> \<exists>s'. rd_nonce_at R s a = Some (s', Inr (v_nonce (view s) a)) \<and>
      view s' = view s \<and> good s'"
    and class_hash_law: "good s \<Longrightarrow> \<exists>s'. rd_class_hash_at R s a = Some (s', Inr (v_class_hash (view s) a)) \<and>
      view s' = view s \<and> good s'"
    and class_law: "good s \<Longrightarrow> \<exists>s'. rd_compiled_class R s h =
        Some (s', case v_class (view s) h of Some cl \<Rightarrow> Inr cl | None \<Rightarrow> Inl (UndeclaredClassHash h)) \<and>
      view s' = view s \<and> good s'"

text \<open>The meaning of a cached state, and its invariant: what is cached as read is what the parent holds,
  and exactly the declared classes are there.\<close>

definition cs_view :: "('s \<Rightarrow> 'c state_view) \<Rightarrow> ('s, 'c) cached_state \<Rightarrow> 'c state_view" where
  "cs_view view c = overlay (view (cs_state c)) (writes (cs_cache c)) (cs_class_hash_to_class c)"

definition reads_of :: "'c state_view \<Rightarrow> state_maps \<Rightarrow> bool" where
  "reads_of v reads \<longleftrightarrow>
     hm_all (\<lambda>k x. v_storage v k = x) (sm_storage reads) \<and>
     hm_all (\<lambda>a n. v_nonce v a = n) (sm_nonces reads) \<and>
     hm_all (\<lambda>a h. v_class_hash v a = h) (sm_class_hashes reads) \<and>
     hm_all (\<lambda>h b. b = (v_class v h \<noteq> None)) (sm_declared_contracts reads)"

definition cs_inv :: "('s \<Rightarrow> 'c state_view) \<Rightarrow> ('s \<Rightarrow> bool) \<Rightarrow> ('s, 'c) cached_state \<Rightarrow> bool" where
  "cs_inv view good c \<longleftrightarrow>
     good (cs_state c) \<and> reads_of (view (cs_state c)) (initial_reads (cs_cache c)) \<and>
     sm_ok (initial_reads (cs_cache c)) \<and> sm_ok (writes (cs_cache c)) \<and> hm_ok (cs_class_hash_to_class c) \<and>
     hm_all (\<lambda>h b. b \<and> h \<in> dom (map_of (cs_class_hash_to_class c))) (sm_declared_contracts (writes (cs_cache c)))"

lemma cs_inv_good: "cs_inv view good c \<Longrightarrow> good (cs_state c)"
  by (simp add: cs_inv_def)

lemma cs_inv_new: "good s \<Longrightarrow> cs_inv view good (cs_new s)" "cs_view view (cs_new s) = view s"
  by (auto simp: cs_inv_def cs_new_def sc_default_def reads_of_def sm_ok_def sm_default_def cs_view_def
    overlay_default[unfolded sm_default_def])

lemma reads_of_update:
  "reads_of v rs \<Longrightarrow> reads_of v (rs\<lparr>sm_storage := AList.update k (v_storage v k) (sm_storage rs)\<rparr>)"
  "reads_of v rs \<Longrightarrow> reads_of v (rs\<lparr>sm_nonces := AList.update a (v_nonce v a) (sm_nonces rs)\<rparr>)"
  "reads_of v rs \<Longrightarrow> reads_of v (rs\<lparr>sm_class_hashes := AList.update a (v_class_hash v a) (sm_class_hashes rs)\<rparr>)"
  "reads_of v rs \<Longrightarrow> b = (v_class v h \<noteq> None) \<Longrightarrow>
     reads_of v (rs\<lparr>sm_declared_contracts := AList.update h b (sm_declared_contracts rs)\<rparr>)"
  "reads_of v rs \<Longrightarrow> reads_of v (rs\<lparr>sm_compiled_class_hashes := m\<rparr>)"
  by (auto simp: reads_of_def hm_all_def update_conv' split: if_splits)

text \<open>The getters of storage, nonces and class hashes have one shape.\<close>

definition cached_get ::
    "(state_cache \<Rightarrow> 'a option) \<Rightarrow> (state_cache \<Rightarrow> 'a \<Rightarrow> state_cache) \<Rightarrow> ('s \<Rightarrow> ('s, state_error, 'a) rs_result)
      \<Rightarrow> ('s, 'c) cached_state \<Rightarrow> (('s, 'c) cached_state, state_error, 'a) rs_result" where
  "cached_get get set_initial rd c =
     rs_try
       (if get (cs_cache c) = None
        then rs_try (on_inner c (rd (cs_state c))) (\<lambda>c1 v. Some (c1\<lparr>cs_cache := set_initial (cs_cache c1) v\<rparr>, Inr ()))
        else Some (c, Inr ()))
       (\<lambda>c1 _. map_option (\<lambda>v. (c1, Inr v)) (get (cs_cache c1)))"

lemma getters_cached_get:
  "cs_get_storage_at R c a k =
     cached_get (\<lambda>sc. sc_get_storage_at sc a k) (\<lambda>sc. set_storage_initial_value sc a k) (\<lambda>s. rd_storage_at R s a k) c"
  "cs_get_nonce_at R c a =
     cached_get (\<lambda>sc. sc_get_nonce_at sc a) (\<lambda>sc. set_nonce_initial_value sc a) (\<lambda>s. rd_nonce_at R s a) c"
  "cs_get_class_hash_at R c a =
     cached_get (\<lambda>sc. sc_get_class_hash_at sc a) (\<lambda>sc. set_class_hash_initial_value sc a) (\<lambda>s. rd_class_hash_at R s a) c"
  by (simp_all add: cached_get_def cs_get_storage_at_def cs_get_nonce_at_def cs_get_class_hash_at_def)

lemma cached_get_ok:
  assumes "\<exists>s. rd (cs_state c) = Some (s, Inr x) \<and> view s = view (cs_state c) \<and> good s" "Q c"
    and "\<And>y. get (cs_cache c) = Some y \<Longrightarrow> y = z"
    and "get (cs_cache c) = None \<Longrightarrow> z = x \<and> get (set_initial (cs_cache c) x) = Some x"
    and "\<And>s. view s = view (cs_state c) \<Longrightarrow> good s \<Longrightarrow> Q (c\<lparr>cs_state := s, cs_cache := set_initial (cs_cache c) x\<rparr>)"
  shows "\<exists>c'. cached_get get set_initial rd c = Some (c', Inr z) \<and> Q c'"
proof (cases "get (cs_cache c)")
  case None
  with assms show ?thesis by (fastforce simp: cached_get_def on_inner_def)
qed (use assms in \<open>auto simp: cached_get_def\<close>)

lemma cs_view_simps:
  "v_storage (cs_view view c) (a, k) = or_else (map_of (sm_storage (writes (cs_cache c))) (a, k)) (v_storage (view (cs_state c)) (a, k))"
  "v_nonce (cs_view view c) a = or_else (map_of (sm_nonces (writes (cs_cache c))) a) (v_nonce (view (cs_state c)) a)"
  "v_class_hash (cs_view view c) a = or_else (map_of (sm_class_hashes (writes (cs_cache c))) a) (v_class_hash (view (cs_state c)) a)"
  "v_class (cs_view view c) h = (case map_of (cs_class_hash_to_class c) h of Some cl \<Rightarrow> Some cl | None \<Rightarrow> v_class (view (cs_state c)) h)"
  by (simp_all add: cs_view_def overlay_def)

lemma cached_value:
  "cs_inv view good c \<Longrightarrow> sc_get_storage_at (cs_cache c) a k = Some x \<Longrightarrow> x = v_storage (cs_view view c) (a, k)"
  "cs_inv view good c \<Longrightarrow> sc_get_nonce_at (cs_cache c) a = Some n \<Longrightarrow> n = v_nonce (cs_view view c) a"
  "cs_inv view good c \<Longrightarrow> sc_get_class_hash_at (cs_cache c) a = Some h \<Longrightarrow> h = v_class_hash (cs_view view c) a"
  by (auto simp: sc_get_defs cs_view_simps cs_inv_def reads_of_def dest: hm_allD split: option.splits)

lemma fresh_value:
  "sc_get_storage_at (cs_cache c) a k = None \<Longrightarrow> v_storage (cs_view view c) (a, k) = v_storage (view (cs_state c)) (a, k) \<and>
     sc_get_storage_at (set_storage_initial_value (cs_cache c) a k x) a k = Some x"
  "sc_get_nonce_at (cs_cache c) a = None \<Longrightarrow> v_nonce (cs_view view c) a = v_nonce (view (cs_state c)) a \<and>
     sc_get_nonce_at (set_nonce_initial_value (cs_cache c) a n) a = Some n"
  "sc_get_class_hash_at (cs_cache c) a = None \<Longrightarrow> v_class_hash (cs_view view c) a = v_class_hash (view (cs_state c)) a \<and>
     sc_get_class_hash_at (set_class_hash_initial_value (cs_cache c) a h) a = Some h"
  by (auto simp: sc_get_defs cs_view_simps cache_defs update_conv' split: option.splits)

lemma record_value:
  assumes "cs_inv view good c" "view s = view (cs_state c)" "good s"
  shows "cs_view view (c\<lparr>cs_state := s, cs_cache := set_storage_initial_value (cs_cache c) a k
      (v_storage (view (cs_state c)) (a, k))\<rparr>) = cs_view view c \<and>
    cs_inv view good (c\<lparr>cs_state := s, cs_cache := set_storage_initial_value (cs_cache c) a k
      (v_storage (view (cs_state c)) (a, k))\<rparr>)"
    and "cs_view view (c\<lparr>cs_state := s, cs_cache := set_nonce_initial_value (cs_cache c) a
      (v_nonce (view (cs_state c)) a)\<rparr>) = cs_view view c \<and>
    cs_inv view good (c\<lparr>cs_state := s, cs_cache := set_nonce_initial_value (cs_cache c) a
      (v_nonce (view (cs_state c)) a)\<rparr>)"
    and "cs_view view (c\<lparr>cs_state := s, cs_cache := set_class_hash_initial_value (cs_cache c) a
      (v_class_hash (view (cs_state c)) a)\<rparr>) = cs_view view c \<and>
    cs_inv view good (c\<lparr>cs_state := s, cs_cache := set_class_hash_initial_value (cs_cache c) a
      (v_class_hash (view (cs_state c)) a)\<rparr>)"
  using assms by (auto simp: cs_view_def cs_inv_def cache_defs reads_of_update sm_ok_updates)

text \<open>Applying the writes of a child.\<close>

lemma overlay_extend:
  "sm_ok w \<Longrightarrow> hm_ok cls \<Longrightarrow> overlay v (sm_extend m w) (hm_extend cls0 cls) = overlay (overlay v m cls0) w cls"
  by (auto simp: overlay_def sm_extend_def sm_ok_def fun_eq_iff map_add_def or_else_def split: option.splits)

lemma sm_ok_extend: "sm_ok m \<Longrightarrow> sm_ok (sm_extend m w)"
  by (simp add: sm_ok_def sm_extend_def)

lemma visited_pcs_ok [simp]:
  "cs_view view (update_visited_pcs_cache c pcs) = cs_view view c"
  "cs_inv view good (update_visited_pcs_cache c pcs) = cs_inv view good c"
  by (induction c pcs rule: update_visited_pcs_cache.induct) (simp_all add: cs_view_def cs_inv_def cs_add_visited_pcs_def)

lemma hm_all_set: "hm_ok m \<Longrightarrow> hm_all P m \<longleftrightarrow> (\<forall>(k, v) \<in> set m. P k v)"
  by (auto simp: hm_all_def)

lemma hm_all_extend: "hm_ok n \<Longrightarrow> hm_all P m \<Longrightarrow> hm_all P n \<Longrightarrow> hm_all P (hm_extend m n)"
  unfolding hm_all_def map_of_hm_extend by (auto simp: map_add_def split: option.splits)

lemma apply_writes_ok:
  assumes "cs_inv view good c" "sm_ok w" "hm_ok cls" "hm_all (\<lambda>h b. b \<and> h \<in> dom (map_of cls)) (sm_declared_contracts w)"
  shows "\<exists>c'. cs_apply_writes c w cls pcs = Some c' \<and> cs_view view c' = overlay (cs_view view c) w cls \<and> cs_inv view good c'"
proof -
  let ?c = "c\<lparr>cs_cache := (cs_cache c)\<lparr>writes := sm_extend (writes (cs_cache c)) w\<rparr>,
    cs_class_hash_to_class := hm_extend (cs_class_hash_to_class c) cls\<rparr>"
  have "\<forall>(k, b) \<in> set (sm_declared_contracts w). b = (map_of cls k \<noteq> None)"
    using assms(2,4) by (auto simp: hm_all_set sm_ok_def)
  then have "update_cache c w cls = Some ?c" by (simp add: update_cache_def)
  moreover have "hm_all (\<lambda>h b. b \<and> h \<in> dom (map_of (hm_extend (cs_class_hash_to_class c) cls)))
      (sm_declared_contracts (sm_extend (writes (cs_cache c)) w))"
    using assms unfolding sm_extend_def state_maps.simps
    by (intro hm_all_extend) (auto simp: cs_inv_def sm_ok_def elim!: hm_all_mono)
  then have "cs_inv view good ?c" using assms(1,3) by (auto simp: cs_inv_def sm_ok_extend)
  moreover have "cs_view view ?c = overlay (cs_view view c) w cls"
    using assms(2,3) by (simp add: cs_view_def overlay_extend)
  ultimately show ?thesis by (simp add: cs_apply_writes_def)
qed

context state_reader_laws begin

text \<open>Getters of a cached state.\<close>

lemma get_storage_ok:
  assumes "cs_inv view good c"
  shows "\<exists>c'. cs_get_storage_at R c a k = Some (c', Inr (v_storage (cs_view view c) (a, k))) \<and>
    cs_view view c' = cs_view view c \<and> cs_inv view good c'"
  unfolding getters_cached_get
  using assms storage_law[OF cs_inv_good[OF assms], of a k]
  by (intro cached_get_ok[where view=view and good=good and x="v_storage (view (cs_state c)) (a, k)"])
    (auto simp: fresh_value record_value dest: cached_value)

lemma get_nonce_ok:
  assumes "cs_inv view good c"
  shows "\<exists>c'. cs_get_nonce_at R c a = Some (c', Inr (v_nonce (cs_view view c) a)) \<and>
    cs_view view c' = cs_view view c \<and> cs_inv view good c'"
  unfolding getters_cached_get
  using assms nonce_law[OF cs_inv_good[OF assms], of a]
  by (intro cached_get_ok[where view=view and good=good and x="v_nonce (view (cs_state c)) a"])
    (auto simp: fresh_value record_value dest: cached_value)

lemma get_class_hash_ok:
  assumes "cs_inv view good c"
  shows "\<exists>c'. cs_get_class_hash_at R c a = Some (c', Inr (v_class_hash (cs_view view c) a)) \<and>
    cs_view view c' = cs_view view c \<and> cs_inv view good c'"
  unfolding getters_cached_get
  using assms class_hash_law[OF cs_inv_good[OF assms], of a]
  by (intro cached_get_ok[where view=view and good=good and x="v_class_hash (view (cs_state c)) a"])
    (auto simp: fresh_value record_value dest: cached_value)

lemma get_class_ok:
  assumes "cs_inv view good c"
  shows "\<exists>c'. cs_get_compiled_class R c h =
      Some (c', case v_class (cs_view view c) h of Some cl \<Rightarrow> Inr cl | None \<Rightarrow> Inl (UndeclaredClassHash h)) \<and>
    cs_view view c' = cs_view view c \<and> cs_inv view good c'"
proof (cases "map_of (cs_class_hash_to_class c) h")
  case (Some cl)
  with assms show ?thesis by (simp add: cs_get_compiled_class_def cs_view_simps)
next
  case None
  from assms class_law[of "cs_state c" h] obtain s where
    s: "rd_compiled_class R (cs_state c) h =
      Some (s, case v_class (view (cs_state c)) h of Some cl \<Rightarrow> Inr cl | None \<Rightarrow> Inl (UndeclaredClassHash h))"
    "view s = view (cs_state c)" "good s" by (auto simp: cs_inv_def)
  show ?thesis
  proof (cases "v_class (view (cs_state c)) h")
    case None': None
    with None s assms show ?thesis
      by (auto simp: cs_get_compiled_class_def on_inner_def cs_view_def overlay_read_class(2) cs_inv_def cache_defs
        reads_of_update sm_ok_def)
  next
    case (Some cl)
    with None s assms show ?thesis
      by (auto simp: cs_get_compiled_class_def on_inner_def cs_view_def overlay_read_class cs_inv_def cache_defs
        reads_of_update sm_ok_def update_conv' elim!: hm_all_mono)
  qed
qed

lemma cached_reader_laws: "state_reader_laws (cached_reader R) (cs_view view) (cs_inv view good)"
  using get_storage_ok get_nonce_ok get_class_hash_ok get_class_ok
  by unfold_locales (auto simp: cached_reader_def)

lemma increment_nonce_ok:
  assumes "cs_inv view good c"
  shows "\<exists>c'. cs_increment_nonce R c a = Some (c', Inr ()) \<and> cs_inv view good c' \<and>
    cs_view view c' = (cs_view view c)\<lparr>v_nonce := (v_nonce (cs_view view c))
      (a := (v_nonce (cs_view view c) a + 1) mod felt_prime)\<rparr>"
proof -
  from get_nonce_ok[OF assms, of a] obtain c' where
    c': "cs_get_nonce_at R c a = Some (c', Inr (v_nonce (cs_view view c) a))"
    "cs_view view c' = cs_view view c" "cs_inv view good c'" by blast
  then show ?thesis
    by (auto simp: cs_increment_nonce_def cs_view_def cache_defs overlay_update cs_inv_def sm_ok_updates)
qed

lemma fill_ok:
  "cs_inv view good c \<Longrightarrow> \<exists>c'. fill_write_only_storage R c keys = Some (c', Inr ()) \<and>
     cs_view view c' = cs_view view c \<and> cs_inv view good c'"
proof (induction keys arbitrary: c)
  case (Cons ak keys)
  obtain a k where ak: "ak = (a, k)" by force
  show ?case
  proof (cases "map_of (sm_storage (initial_reads (cs_cache c))) (a, k) = None")
    case True
    from Cons.prems storage_law[of "cs_state c" a k] obtain s where
      s: "rd_storage_at R (cs_state c) a k = Some (s, Inr (v_storage (view (cs_state c)) (a, k)))"
      "view s = view (cs_state c)" "good s" by (auto simp: cs_inv_def)
    let ?c = "c\<lparr>cs_state := s, cs_cache := set_storage_initial_value (cs_cache c) a k (v_storage (view (cs_state c)) (a, k))\<rparr>"
    have "cs_view view ?c = cs_view view c" "cs_inv view good ?c"
      using record_value(1)[OF Cons.prems s(2,3), of a k] by simp_all
    with Cons.IH[of ?c] True s show ?thesis by (auto simp: ak on_inner_def)
  qed (use Cons ak in auto)
qed simp

lemma setters_ok:
  assumes "cs_inv view good c"
  shows "cs_inv view good (cs_set_storage_at c a k x)"
    and "cs_inv view good (fst (cs_set_class_hash_at c a h))"
    and "cs_inv view good (cs_set_contract_class c h cl)"
    and "cs_inv view good (cs_set_compiled_class_hash c h ch)"
    and "cs_inv view good (cs_add_visited_pcs c h pcs)"
    and "cs_view view (cs_set_storage_at c a k x) =
      (cs_view view c)\<lparr>v_storage := (v_storage (cs_view view c))((a, k) := x)\<rparr>"
    and "cs_view view (fst (cs_set_class_hash_at c a h)) =
      (if a = 0 then cs_view view c else (cs_view view c)\<lparr>v_class_hash := (v_class_hash (cs_view view c))(a := h)\<rparr>)"
    and "cs_view view (cs_set_contract_class c h cl) = (cs_view view c)\<lparr>v_class := (v_class (cs_view view c))(h \<mapsto> cl)\<rparr>"
    and "cs_view view (cs_set_compiled_class_hash c h ch) = cs_view view c"
    and "cs_view view (cs_add_visited_pcs c h pcs) = cs_view view c"
  using assms
  by (auto simp: cs_inv_def cs_view_def cs_set_storage_at_def cs_set_class_hash_at_def cs_set_contract_class_def
    cs_set_compiled_class_hash_def cs_add_visited_pcs_def cache_defs overlay_update sm_ok_updates update_conv' hm_all_def)

text \<open>A whole program on a cached state is the program on the abstract state.\<close>

lemma run_program_ok:
  "cs_inv view good c \<Longrightarrow> \<exists>c'. run_program P R c = Some (c', snd (run_view P (cs_view view c))) \<and>
     cs_view view c' = fst (run_view P (cs_view view c)) \<and> cs_inv view good c'"
proof (induction P arbitrary: c)
  case (GetStorageAt a k f)
  from get_storage_ok[OF GetStorageAt.prems, of a k] GetStorageAt.IH[OF rangeI] show ?case by fastforce
next
  case (GetNonceAt a f)
  from get_nonce_ok[OF GetNonceAt.prems, of a] GetNonceAt.IH[OF rangeI] show ?case by fastforce
next
  case (GetClassHashAt a f)
  from get_class_hash_ok[OF GetClassHashAt.prems, of a] GetClassHashAt.IH[OF rangeI] show ?case by fastforce
next
  case (GetCompiledClass h f)
  from get_class_ok[OF GetCompiledClass.prems, of h] GetCompiledClass.IH[OF rangeI] show ?case
    by (cases "v_class (cs_view view c) h") fastforce+
next
  case (IncrementNonce a p)
  from increment_nonce_ok[OF IncrementNonce.prems, of a] IncrementNonce.IH show ?case by fastforce
next
  case (UpdateInitialValues p)
  from fill_ok[OF UpdateInitialValues.prems, of "map fst (sm_storage (writes (cs_cache c)))"] UpdateInitialValues.IH
  show ?case
    by (fastforce simp: update_initial_values_of_write_only_access_def)
next
  case (SetClassHashAt a h f)
  from setters_ok(2,7)[OF SetClassHashAt.prems, of a h] SetClassHashAt.IH[OF rangeI] show ?case
    by (fastforce simp: cs_set_class_hash_at_def split: if_splits)
next
  case (SetStorageAt a k x p)
  from SetStorageAt.IH[OF setters_ok(1)[OF SetStorageAt.prems]] setters_ok(6)[OF SetStorageAt.prems] show ?case by simp
next
  case (SetContractClass h cl p)
  from SetContractClass.IH[OF setters_ok(3)[OF SetContractClass.prems]] setters_ok(8)[OF SetContractClass.prems]
  show ?case by simp
next
  case (SetCompiledClassHash h ch p)
  from SetCompiledClassHash.IH[OF setters_ok(4)[OF SetCompiledClassHash.prems]] setters_ok(9)[OF SetCompiledClassHash.prems]
  show ?case by simp
next
  case (AddVisitedPcs h pcs p)
  from AddVisitedPcs.IH[OF setters_ok(5)[OF AddVisitedPcs.prems]] setters_ok(10)[OF AddVisitedPcs.prems] show ?case by simp
qed simp

text \<open>The contract with the meaning of the state fixed.\<close>

lemma fixed_view_laws: "state_reader_laws R view (\<lambda>s. good s \<and> view s = v)"
proof
  fix s a k h assume "good s \<and> view s = v"
  then show "\<exists>s'. rd_storage_at R s a k = Some (s', Inr (v_storage (view s) (a, k))) \<and> view s' = view s \<and> good s' \<and> view s' = v"
    "\<exists>s'. rd_nonce_at R s a = Some (s', Inr (v_nonce (view s) a)) \<and> view s' = view s \<and> good s' \<and> view s' = v"
    "\<exists>s'. rd_class_hash_at R s a = Some (s', Inr (v_class_hash (view s) a)) \<and> view s' = view s \<and> good s' \<and> view s' = v"
    "\<exists>s'. rd_compiled_class R s h =
        Some (s', case v_class (view s) h of Some cl \<Rightarrow> Inr cl | None \<Rightarrow> Inl (UndeclaredClassHash h)) \<and>
      view s' = view s \<and> good s' \<and> view s' = v"
    using storage_law[of s a k] nonce_law[of s a] class_hash_law[of s a] class_law[of s h] by auto
qed

lemma run_program_keeps_parent:
  assumes "good s" "run_program P R (create_transactional s) = Some (c, r)"
  shows "cs_inv view good c \<and> view (cs_state c) = view s \<and>
    r = snd (run_view P (view s)) \<and> cs_view view c = fst (run_view P (view s))"
proof -
  have "cs_inv view (\<lambda>s'. good s' \<and> view s' = view s) (create_transactional s)"
    unfolding create_transactional_def by (rule cs_inv_new(1)) (use assms(1) in simp)
  from state_reader_laws.run_program_ok[OF fixed_view_laws this, of P] assms(2)
  have "cs_inv view (\<lambda>s'. good s' \<and> view s' = view s) c" "r = snd (run_view P (view s))"
    "cs_view view c = fst (run_view P (view s))"
    by (auto simp: create_transactional_def cs_inv_new(2))
  then show ?thesis unfolding cs_inv_def by blast
qed

end

text \<open>A child state on top of a cached state, committed or dropped.\<close>

context state_reader_laws begin

lemma transactional_ok:
  assumes "cs_inv view good c"
    and "run_program P (cached_reader R) (create_transactional c) = Some (child, r)"
  shows "r = snd (run_view P (cs_view view c)) \<and>
    cs_view view (transactional_abort child) = cs_view view c \<and> cs_inv view good (transactional_abort child) \<and>
    (\<exists>c'. transactional_commit cs_apply_writes child = Some c' \<and>
      cs_view view c' = fst (run_view P (cs_view view c)) \<and> cs_inv view good c')"
proof -
  have child: "cs_inv (cs_view view) (cs_inv view good) child" "cs_view view (cs_state child) = cs_view view c"
    "r = snd (run_view P (cs_view view c))" "cs_view (cs_view view) child = fst (run_view P (cs_view view c))"
    using state_reader_laws.run_program_keeps_parent[OF cached_reader_laws assms] by blast+
  then have "\<exists>c'. cs_apply_writes (cs_state child) (writes (cs_cache child)) (cs_class_hash_to_class child) (cs_visited_pcs child) = Some c' \<and>
      cs_view view c' = overlay (cs_view view (cs_state child)) (writes (cs_cache child)) (cs_class_hash_to_class child) \<and>
      cs_inv view good c'"
    by (intro apply_writes_ok) (auto simp: cs_inv_def)
  with child show ?thesis
    by (auto simp: transactional_commit_def transactional_abort_def cs_view_def[of "cs_view view"] cs_inv_good)
qed

end

section \<open>Instances\<close>

definition dict_view :: "'c dict_state_reader \<Rightarrow> 'c state_view" where
  "dict_view s = \<lparr>v_storage = unwrap_or_default \<circ> dict_storage_view s, v_nonce = unwrap_or_default \<circ> dict_address_to_nonce s,
     v_class_hash = unwrap_or_default \<circ> dict_address_to_class_hash s, v_class = dict_class_hash_to_class s\<rparr>"

interpretation dict: state_reader_laws dict_reader dict_view "\<lambda>_. True"
  by unfold_locales (simp_all add: dict_reader_def dict_view_def)

interpretation cached_dict: state_reader_laws "cached_reader dict_reader" "cs_view dict_view" "cs_inv dict_view (\<lambda>_. True)"
  by (rule dict.cached_reader_laws)

section \<open>State differences\<close>

text \<open>A sequence of caches, each of which recorded its reads on the state that the earlier ones left behind.\<close>

definition reads_values :: "'c state_view \<Rightarrow> state_maps \<Rightarrow> bool" where
  "reads_values v reads \<longleftrightarrow>
     hm_all (\<lambda>k x. v_storage v k = x) (sm_storage reads) \<and>
     hm_all (\<lambda>a n. v_nonce v a = n) (sm_nonces reads) \<and>
     hm_all (\<lambda>a h. v_class_hash v a = h) (sm_class_hashes reads)"

definition apply_cache :: "'c state_view \<Rightarrow> state_cache \<Rightarrow> 'c state_view" where
  "apply_cache v sc = overlay v (writes sc) []"

fun chained :: "'c state_view \<Rightarrow> state_cache list \<Rightarrow> bool" where
  "chained v [] \<longleftrightarrow> True"
| "chained v (sc # scs) \<longleftrightarrow>
     sm_ok (initial_reads sc) \<and> sm_ok (writes sc) \<and> reads_values v (initial_reads sc) \<and>
     sc_to_state_diff sc \<noteq> None \<and> chained (apply_cache v sc) scs"

definition changed_only :: "'c state_view \<Rightarrow> state_maps \<Rightarrow> bool" where
  "changed_only v m \<longleftrightarrow>
     hm_all (\<lambda>k x. v_storage v k \<noteq> x) (sm_storage m) \<and>
     hm_all (\<lambda>a n. v_nonce v a \<noteq> n) (sm_nonces m) \<and>
     hm_all (\<lambda>a h. v_class_hash v a \<noteq> h) (sm_class_hashes m)"

lemma sm_diff_values:
  assumes "sm_ok ws" "sm_diff ws rs = Some d" "reads_values v rs"
  shows "overlay v d cls = overlay v ws cls" "changed_only v d" "sm_ok d"
proof -
  have d: "strict_subtract_mappings (sm_storage ws) (sm_storage rs) = Some (sm_storage d)"
    "strict_subtract_mappings (sm_nonces ws) (sm_nonces rs) = Some (sm_nonces d)"
    "strict_subtract_mappings (sm_class_hashes ws) (sm_class_hashes rs) = Some (sm_class_hashes d)"
    "strict_subtract_mappings (sm_compiled_class_hashes ws) (sm_compiled_class_hashes rs) = Some (sm_compiled_class_hashes d)"
    "sm_declared_contracts d = subtract_mappings (sm_declared_contracts ws) (sm_declared_contracts rs)"
    using assms(2) by (auto simp: sm_diff_def bind_eq_Some_conv)
  note e = diff_entry[OF _ d(1), of "v_storage v"] diff_entry[OF _ d(2), of "v_nonce v"]
    diff_entry[OF _ d(3), of "v_class_hash v"]
  show "overlay v d cls = overlay v ws cls"
    using e(1,3,5) assms(1,3) by (auto simp: overlay_def reads_values_def sm_ok_def)
  show "changed_only v d"
    using e(2,4,6) assms(1,3) by (auto simp: changed_only_def hm_all_def reads_values_def sm_ok_def)
  show "sm_ok d"
    using assms(1) d by (auto simp: sm_ok_def intro: hm_ok_strict_subtract)
qed

lemma overlay_sm_extend: "sm_ok w \<Longrightarrow> overlay v (sm_extend m w) [] = overlay (overlay v m []) w []"
  using overlay_extend[of w "[]" v m "[]"] by simp

text \<open>Later writes win.\<close>

lemma chained_writes:
  "chained v scs \<Longrightarrow> overlay v0 m [] = v \<Longrightarrow>
     overlay v0 (foldl sm_extend m (map writes scs)) [] = foldl apply_cache v scs"
  by (induction v scs arbitrary: m rule: chained.induct) (simp_all add: overlay_sm_extend apply_cache_def)

text \<open>Earlier reads win, and are reads of the state before the sequence: a cell that was written was read
  before by the same cache, since the difference is defined.\<close>

lemma early_reads:
  assumes "hm_ok r" "strict_subtract_mappings w r = Some d" "hm_all (\<lambda>k x. f k = x) r"
    and "hm_all (\<lambda>k x. or_else (map_of w k) (f k) = x) later"
  shows "hm_all (\<lambda>k x. f k = x) (hm_extend later r)"
  unfolding hm_all_def map_of_hm_extend[OF assms(1)]
proof (intro allI impI)
  fix k x assume x: "(map_of later ++ map_of r) k = Some x"
  show "f k = x"
  proof (cases "map_of r k")
    case None
    with assms(2) have "map_of w k = None"
      by (auto simp: strict_subtract_eq map_of_eq_None_iff dom_map_of_conv_image_fst split: if_splits)
    with None x assms(4) show ?thesis by (auto simp: map_add_def dest: hm_allD)
  qed (use x assms(3) in \<open>auto dest: hm_allD\<close>)
qed

lemma sm_extend_simps [simp]:
  "sm_storage (sm_extend m n) = hm_extend (sm_storage m) (sm_storage n)"
  "sm_nonces (sm_extend m n) = hm_extend (sm_nonces m) (sm_nonces n)"
  "sm_class_hashes (sm_extend m n) = hm_extend (sm_class_hashes m) (sm_class_hashes n)"
  "sm_compiled_class_hashes (sm_extend m n) = hm_extend (sm_compiled_class_hashes m) (sm_compiled_class_hashes n)"
  "sm_declared_contracts (sm_extend m n) = hm_extend (sm_declared_contracts m) (sm_declared_contracts n)"
  by (simp_all add: sm_extend_def)

definition covered :: "state_maps \<Rightarrow> state_maps \<Rightarrow> bool" where
  "covered w r \<longleftrightarrow>
     dom (map_of (sm_storage w)) \<subseteq> dom (map_of (sm_storage r)) \<and>
     dom (map_of (sm_nonces w)) \<subseteq> dom (map_of (sm_nonces r)) \<and>
     dom (map_of (sm_class_hashes w)) \<subseteq> dom (map_of (sm_class_hashes r)) \<and>
     dom (map_of (sm_compiled_class_hashes w)) \<subseteq> dom (map_of (sm_compiled_class_hashes r))"

lemma sm_diff_defined: "sm_diff w r \<noteq> None \<longleftrightarrow> covered w r"
  by (auto simp: sm_diff_def covered_def strict_subtract_eq dom_map_of_conv_image_fst)

lemma covered_extend:
  "covered m r \<Longrightarrow> covered w r \<Longrightarrow> sm_ok w \<Longrightarrow> covered (sm_extend m w) r"
  "covered w r \<Longrightarrow> sm_ok r' \<Longrightarrow> covered w (sm_extend r r')"
  "covered w r \<Longrightarrow> sm_ok r \<Longrightarrow> covered w (sm_extend r' r)"
  by (auto simp: covered_def sm_ok_def)

lemma covered_foldl:
  "covered m r \<Longrightarrow> \<forall>w \<in> set ws. covered w r \<and> sm_ok w \<Longrightarrow> covered (foldl sm_extend m ws) r"
  by (induction ws arbitrary: m) (auto simp: covered_extend)

abbreviation squashed_reads :: "state_cache list \<Rightarrow> state_maps" where
  "squashed_reads scs \<equiv> foldl sm_extend sm_default (map initial_reads (rev scs))"

lemma sc_to_state_diff_maps:
  "sc_to_state_diff sc = Some d \<Longrightarrow> sm_diff (writes sc) (initial_reads sc) = Some (ch_state_maps d)"
  by (auto simp: sc_to_state_diff_def bind_eq_Some_conv)

lemma sm_ok_squashed_reads: "sm_ok (squashed_reads scs)"
  by (induction scs) (simp_all add: sm_ok_extend, simp add: sm_ok_def sm_default_def)

lemma chained_reads: "chained v scs \<Longrightarrow> reads_values v (squashed_reads scs)"
proof (induction v scs rule: chained.induct)
  case (2 v sc scs)
  then have ok: "sm_ok (initial_reads sc)" "reads_values v (initial_reads sc)"
    and later: "reads_values (overlay v (writes sc) []) (squashed_reads scs)" by (auto simp: apply_cache_def)
  from 2(2) obtain d where "sm_diff (writes sc) (initial_reads sc) = Some d"
    by (auto dest!: sc_to_state_diff_maps)
  then obtain d1 d2 d3 where
    "strict_subtract_mappings (sm_storage (writes sc)) (sm_storage (initial_reads sc)) = Some d1"
    "strict_subtract_mappings (sm_nonces (writes sc)) (sm_nonces (initial_reads sc)) = Some d2"
    "strict_subtract_mappings (sm_class_hashes (writes sc)) (sm_class_hashes (initial_reads sc)) = Some d3"
    by (auto simp: sm_diff_def bind_eq_Some_conv)
  from early_reads[OF _ this(1)] early_reads[OF _ this(2)] early_reads[OF _ this(3)] ok later
  show ?case by (simp add: reads_values_def overlay_def sm_ok_def)
qed (simp add: reads_values_def sm_default_def)

lemma chained_covered:
  "chained v scs \<Longrightarrow> \<forall>w \<in> set (map writes scs). covered w (squashed_reads scs) \<and> sm_ok w"
proof (induction v scs rule: chained.induct)
  case (2 v sc scs)
  then obtain d where "sm_diff (writes sc) (initial_reads sc) = Some d"
    by (auto dest!: sc_to_state_diff_maps)
  then have "covered (writes sc) (initial_reads sc)" using sm_diff_defined by blast
  with 2 show ?case by (auto intro: covered_extend)
qed simp

lemma squash_state_caches_ok:
  assumes "chained v scs"
  shows "\<exists>d. squash_state_diff scs True = Some d \<and> changed_only v (ch_state_maps d) \<and>
    overlay v (ch_state_maps d) [] = foldl apply_cache v scs"
proof -
  let ?sc = "squash_state_caches scs"
  have sc: "writes ?sc = foldl sm_extend sm_default (map writes scs)" "initial_reads ?sc = squashed_reads scs"
    by (simp_all add: squash_state_caches_def)
  have "covered (writes ?sc) (squashed_reads scs)"
    unfolding sc by (rule covered_foldl[OF _ chained_covered[OF assms]]) (simp add: covered_def sm_default_def)
  then obtain d where d: "sm_diff (writes ?sc) (initial_reads ?sc) = Some d"
    unfolding sc using sm_diff_defined by blast
  have "sm_ok (foldl sm_extend m ws)" if "sm_ok m" for m ws
    using that by (induction ws arbitrary: m) (simp_all add: sm_ok_extend)
  then have "sm_ok (writes ?sc)" unfolding sc by (simp add: sm_ok_def sm_default_def)
  from sm_diff_values[OF this d] chained_reads[OF assms] chained_writes[OF assms, of v sm_default] d
  show ?thesis by (auto simp: sc squash_state_diff_def sc_to_state_diff_def)
qed

lemma merge_state_diffs_ok:
  "chained v scs \<Longrightarrow> overlay v0 (ch_state_maps m) [] = v \<Longrightarrow>
     \<exists>d. merge_state_diffs m scs = Some d \<and> overlay v0 (ch_state_maps d) [] = foldl apply_cache v scs"
proof (induction v scs arbitrary: m rule: chained.induct)
  case (2 v sc scs)
  then obtain c where c: "sc_to_state_diff sc = Some c" by auto
  note maps = sm_diff_values[OF _ sc_to_state_diff_maps[OF c], of v]
  have "overlay v0 (sm_extend (ch_state_maps m) (ch_state_maps c)) [] = apply_cache v sc"
    using 2(2,3) maps by (simp add: overlay_sm_extend apply_cache_def)
  with 2(1)[of "\<lparr>ch_state_maps = sm_extend (ch_state_maps m) (ch_state_maps c),
      ch_allocated_keys = ch_allocated_keys m \<union> ch_allocated_keys c\<rparr>"] 2(2) c show ?case by simp
qed simp

section \<open>Properties\<close>

text \<open>C10: A cached state implements the abstract state: on top of any reader that keeps its contract, a
  program of calls runs without a panic, gets the answers that the abstract state gives, and leaves the
  state that the abstract state has, whatever was cached before; the invariant of the cache is kept.\<close>

theorem cached_state_refines_abstract_state:
  assumes "state_reader_laws R view good" "cs_inv view good c"
  shows "\<exists>c'. run_program P R c = Some (c', snd (run_view P (cs_view view c))) \<and>
    cs_view view c' = fst (run_view P (cs_view view c)) \<and> cs_inv view good c'"
  using state_reader_laws.run_program_ok[OF assms] .

text \<open>A state with a cached value of \<open>(1, 1)\<close>, a written \<open>(1, 2)\<close> and an uncached nonce.\<close>

definition sample_cached :: "(nat dict_state_reader, nat) cached_state" where
  "sample_cached = \<lparr>cs_state = sample_dict 3,
     cs_cache = \<lparr>initial_reads = sm_default\<lparr>sm_storage := [((1, 1), 3)]\<rparr>,
       writes = sm_default\<lparr>sm_storage := [((1, 2), 6)]\<rparr>\<rparr>,
     cs_class_hash_to_class = [], cs_visited_pcs = []\<rparr>"

lemma sample_cached_inv: "cs_inv dict_view (\<lambda>_. True) sample_cached"
  by (auto simp: cs_inv_def sample_cached_def reads_of_def sm_ok_def sm_default_def hm_all_def dict_view_def
    sample_dict_def unwrap_or_default_def)

lemma sample_cached_run:
  "snd (run_view sample_program (cs_view dict_view sample_cached)) = 9"
  "v_storage (fst (run_view sample_program (cs_view dict_view sample_cached))) (1, 2) = 9"
  "v_nonce (fst (run_view sample_program (cs_view dict_view sample_cached))) 7 = 1"
  "v_storage (cs_view dict_view sample_cached) (1, 2) = 6"
  by (simp_all add: sample_program_def cs_view_def overlay_def sample_cached_def sm_default_def dict_view_def
    sample_dict_def unwrap_or_default_def felt_prime_def)

theorem cached_state_refines_abstract_state_witness:
  "\<exists>c'. run_program sample_program dict_reader sample_cached = Some (c', 9) \<and>
     v_storage (cs_view dict_view c') (1, 2) = 9 \<and> v_nonce (cs_view dict_view c') 7 = 1"
  using cached_state_refines_abstract_state[OF dict.state_reader_laws_axioms sample_cached_inv, of sample_program]
  sample_cached_run by metis

text \<open>C21: Transactional states are atomic: a program that runs on a child of a cached state gets the answers
  it would get from the cached state; dropping the child leaves the state of the parent as it was,
  committing it does not panic and leaves the state that the program would have left without the
  child.\<close>

theorem transactional_state_is_atomic:
  assumes "state_reader_laws R view good" "cs_inv view good c"
    and "run_program P (cached_reader R) (create_transactional c) = Some (child, r)"
  shows "r = snd (run_view P (cs_view view c)) \<and>
    cs_view view (transactional_abort child) = cs_view view c \<and>
    (\<exists>c'. transactional_commit cs_apply_writes child = Some c' \<and>
      cs_view view c' = fst (run_view P (cs_view view c)) \<and> cs_inv view good c')"
  using state_reader_laws.transactional_ok[OF assms] by blast

theorem transactional_state_is_atomic_witness:
  "\<exists>child c'. run_program sample_program (cached_reader dict_reader) (create_transactional sample_cached) = Some (child, 9) \<and>
     v_storage (cs_view dict_view (transactional_abort child)) (1, 2) = 6 \<and>
     transactional_commit cs_apply_writes child = Some c' \<and> v_storage (cs_view dict_view c') (1, 2) = 9"
proof -
  have "cs_inv (cs_view dict_view) (cs_inv dict_view (\<lambda>_. True)) (create_transactional sample_cached)"
    unfolding create_transactional_def by (rule cs_inv_new(1)) (rule sample_cached_inv)
  from cached_dict.run_program_ok[OF this, of sample_program] obtain child where
    child: "run_program sample_program (cached_reader dict_reader) (create_transactional sample_cached) =
      Some (child, snd (run_view sample_program (cs_view dict_view sample_cached)))"
    by (auto simp: create_transactional_def cs_inv_new(2))
  from transactional_state_is_atomic[OF dict.state_reader_laws_axioms sample_cached_inv child] child
    sample_cached_run show ?thesis by metis
qed

text \<open>C22: Squashing the caches of consecutive transactions gives the net change: if every cache recorded
  its reads on the state left by the earlier ones and has a state diff of its own, then both ways of squashing
  are defined, and applying the squashed diff to the first state gives the last one; the comprehensive diff has
  only entries that differ from the first state.\<close>

theorem squashed_diff_is_net_change:
  assumes "chained v scs"
  shows "(\<exists>d. squash_state_diff scs True = Some d \<and> changed_only v (ch_state_maps d) \<and>
      overlay v (ch_state_maps d) [] = foldl apply_cache v scs) \<and>
    (\<exists>d. squash_state_diff scs False = Some d \<and> overlay v (ch_state_maps d) [] = foldl apply_cache v scs)"
  using squash_state_caches_ok[OF assms]
    merge_state_diffs_ok[OF assms, of v "\<lparr>ch_state_maps = sm_default, ch_allocated_keys = {}\<rparr>"]
  by (simp add: squash_state_diff_def)

definition sample_caches :: "state_cache list" where
  "sample_caches =
     [\<lparr>initial_reads = sm_default\<lparr>sm_storage := [((1, 1), 0), ((1, 2), 4)]\<rparr>,
       writes = sm_default\<lparr>sm_storage := [((1, 1), 5), ((1, 2), 6)]\<rparr>\<rparr>,
      \<lparr>initial_reads = sm_default\<lparr>sm_storage := [((1, 1), 5)]\<rparr>, writes = sm_default\<lparr>sm_storage := [((1, 1), 0)]\<rparr>\<rparr>]"

theorem squashed_diff_is_net_change_witness:
  "\<exists>d. squash_state_diff sample_caches True = Some d \<and> sm_storage (ch_state_maps d) = [((1, 2), 6)] \<and>
     changed_only \<lparr>v_storage = (\<lambda>k. if k = (1, 2) then 4 else 0), v_nonce = (\<lambda>_. 0), v_class_hash = (\<lambda>_. 0),
       v_class = (\<lambda>_. None :: nat option)\<rparr> (ch_state_maps d)"
proof -
  let ?v = "\<lparr>v_storage = (\<lambda>k. if k = (1, 2) then 4 else 0), v_nonce = (\<lambda>_. 0), v_class_hash = (\<lambda>_. 0),
    v_class = (\<lambda>_. None :: nat option)\<rparr>"
  have "chained ?v sample_caches"
    by (auto simp: sample_caches_def sm_ok_def sm_default_def reads_values_def hm_all_def apply_cache_def overlay_def
      sc_to_state_diff_def sm_diff_def)
  from squashed_diff_is_net_change[OF this] show ?thesis
    by (auto simp: sample_caches_def squash_state_diff_def squash_state_caches_def sm_extend_def sm_default_def
      sc_to_state_diff_def sm_diff_def)
qed

end
