(* ===== verification/Versioned_Storage.thy ===== *)
theory Versioned_Storage
  imports Ordered_Collections Hash_Map
begin

text \<open>
  \<^verbatim>\<open>crates/blockifier/src/concurrency/versioned_storage.rs\<close>: a storage that keeps, per cell, the value
  that each version (transaction index) wrote. \<open>version\<close> is what one version wrote; a read at a
  version finds the latest write up to that version.
\<close>

section \<open>The storage\<close>

record ('k, 'v) versioned_storage =
  cached_initial_values :: "'k \<rightharpoonup> 'v"
  vs_writes :: "('k \<times> (nat \<times> 'v) list) list"

definition vs_default :: "('k, 'v) versioned_storage" where
  "vs_default = \<lparr>cached_initial_values = Map.empty, vs_writes = []\<rparr>"

text \<open>\<^verbatim>\<open>cell.range(..=tx_index).next_back()\<close>\<close>

definition cell_latest :: "nat \<Rightarrow> (nat \<times> 'v) list \<Rightarrow> 'v option" where
  "cell_latest tx_index cell =
     (case rev (filter (\<lambda>(j, _). j \<le> tx_index) cell) of [] \<Rightarrow> None | (_, v) # _ \<Rightarrow> Some v)"

definition vs_read :: "('k, 'v) versioned_storage \<Rightarrow> nat \<Rightarrow> 'k \<Rightarrow> 'v option" where
  "vs_read s tx_index key =
     (case (case map_of (vs_writes s) key of None \<Rightarrow> None | Some cell \<Rightarrow> cell_latest tx_index cell) of
        Some value \<Rightarrow> Some value
      | None \<Rightarrow> cached_initial_values s key)"

definition vs_write :: "('k, 'v) versioned_storage \<Rightarrow> nat \<Rightarrow> 'k \<Rightarrow> 'v \<Rightarrow> ('k, 'v) versioned_storage" where
  "vs_write s tx_index key value =
     (let cell = (case map_of (vs_writes s) key of None \<Rightarrow> [] | Some cell \<Rightarrow> cell)
      in s\<lparr>vs_writes := AList.update key (btm_insert tx_index value cell) (vs_writes s)\<rparr>)"

definition vs_delete_write :: "('k, 'v) versioned_storage \<Rightarrow> 'k \<Rightarrow> nat \<Rightarrow> ('k, 'v) versioned_storage option" where
  "vs_delete_write s key tx_index =
     (case map_of (vs_writes s) key of
        None \<Rightarrow> None
      | Some cell \<Rightarrow> Some (s\<lparr>vs_writes := AList.update key (btm_remove tx_index cell) (vs_writes s)\<rparr>))"

definition set_initial_value :: "('k, 'v) versioned_storage \<Rightarrow> 'k \<Rightarrow> 'v \<Rightarrow> ('k, 'v) versioned_storage" where
  "set_initial_value s key value = s\<lparr>cached_initial_values := (cached_initial_values s)(key \<mapsto> value)\<rparr>"

fun writes_up_to :: "nat \<Rightarrow> ('k \<times> (nat \<times> 'v) list) list \<Rightarrow> ('k \<times> 'v) list" where
  "writes_up_to index [] = []"
| "writes_up_to index ((key, cell) # rest) =
     (case cell_latest index cell of
        Some value \<Rightarrow> (key, value) # writes_up_to index rest
      | None \<Rightarrow> writes_up_to index rest)"

definition vs_get_writes_up_to_index :: "('k, 'v) versioned_storage \<Rightarrow> nat \<Rightarrow> ('k \<times> 'v) list" where
  "vs_get_writes_up_to_index s index = writes_up_to index (vs_writes s)"

section \<open>What the versions wrote\<close>

definition version :: "('k, 'v) versioned_storage \<Rightarrow> nat \<Rightarrow> 'k \<rightharpoonup> 'v" where
  "version s j key = (case map_of (vs_writes s) key of None \<Rightarrow> None | Some cell \<Rightarrow> map_of cell j)"

fun latest :: "(nat \<Rightarrow> 'v option) \<Rightarrow> nat \<Rightarrow> 'v option" where
  "latest f 0 = f 0"
| "latest f (Suc i) = (case f (Suc i) of Some v \<Rightarrow> Some v | None \<Rightarrow> latest f i)"

definition vs_ok :: "('k, 'v) versioned_storage \<Rightarrow> bool" where
  "vs_ok s \<longleftrightarrow> hm_ok (vs_writes s) \<and> hm_all (\<lambda>_ cell. increasing fst cell) (vs_writes s)"

lemma latest_Some_ex: "latest f i = Some v \<Longrightarrow> \<exists>j \<le> i. f j = Some v \<and> (\<forall>m. j < m \<longrightarrow> m \<le> i \<longrightarrow> f m = None)"
proof (induction i)
  case (Suc i)
  show ?case
  proof (cases "f (Suc i)")
    case None
    with Suc obtain j where "j \<le> i" "f j = Some v" "\<forall>m. j < m \<longrightarrow> m \<le> i \<longrightarrow> f m = None" by auto
    with None show ?thesis by (intro exI[of _ j]) (auto simp: le_Suc_eq)
  qed (use Suc in auto)
qed auto

lemma latest_None_iff: "latest f i = None \<longleftrightarrow> (\<forall>j \<le> i. f j = None)"
  by (induction i) (auto simp: le_Suc_eq split: option.splits)

lemma cell_latest_eq:
  assumes "increasing fst cell"
  shows "cell_latest i cell = latest (map_of cell) i"
proof (cases "rev (filter (\<lambda>(j, _). j \<le> i) cell)")
  case Nil
  then have "\<forall>j \<le> i. map_of cell j = None"
    by (auto simp: filter_empty_conv map_of_eq_None_iff)
  with Nil show ?thesis by (simp add: cell_latest_def latest_None_iff[symmetric])
next
  case (Cons jv rest)
  obtain j v where jv: "jv = (j, v)" by force
  with Cons have split: "filter (\<lambda>(j, _). j \<le> i) cell = rev rest @ [(j, v)]"
    by (metis rev.simps(2) rev_rev_ident)
  then have mem: "(j, v) \<in> set cell" "j \<le> i" and inc: "increasing fst (rev rest @ [(j, v)])"
    using increasing_filter[OF assms, of "\<lambda>(j, _). j \<le> i"] by (metis (mono_tags, lifting) case_prodD in_set_conv_decomp mem_Collect_eq set_filter)+
  have last: "m \<le> j" if "(m, w) \<in> set cell" "m \<le> i" for m w
  proof -
    from that have "(m, w) \<in> set (rev rest @ [(j, v)])" unfolding split[symmetric] by auto
    with inc show ?thesis by auto
  qed
  have "latest (map_of cell) i \<noteq> None"
    using mem assms by (auto simp: latest_None_iff increasing_fst_map_of dest!: spec[of _ j])
  then obtain w where w: "latest (map_of cell) i = Some w" by auto
  from latest_Some_ex[OF this] obtain m where
    m: "m \<le> i" "(m, w) \<in> set cell" "\<forall>k. m < k \<longrightarrow> k \<le> i \<longrightarrow> map_of cell k = None"
    using assms by (auto simp: increasing_fst_map_of)
  have "map_of cell j = Some v" "map_of cell m = Some w"
    using mem(1) m(2) increasing_fst_map_of[OF assms] by simp_all
  with m(3) mem(2) have "\<not> m < j" by auto
  with last[OF m(2,1)] have "m = j" by simp
  with \<open>map_of cell j = Some v\<close> \<open>map_of cell m = Some w\<close> have "w = v" by simp
  with w Cons jv show ?thesis by (simp add: cell_latest_def)
qed

lemma vs_read_eq:
  "vs_ok s \<Longrightarrow> vs_read s i key =
     (case latest (\<lambda>j. version s j key) i of Some v \<Rightarrow> Some v | None \<Rightarrow> cached_initial_values s key)"
proof (cases "map_of (vs_writes s) key")
  case None
  then have "latest (\<lambda>j. version s j key) i = None" by (simp add: latest_None_iff version_def)
  with None show ?thesis by (simp add: vs_read_def)
next
  case (Some cell)
  assume "vs_ok s"
  with Some have "increasing fst cell" by (auto simp: vs_ok_def dest: hm_allD)
  moreover have "(\<lambda>j. version s j key) = map_of cell" using Some by (simp add: version_def fun_eq_iff)
  ultimately show ?thesis using Some by (simp add: vs_read_def cell_latest_eq)
qed

lemma vs_read_0: "vs_ok s \<Longrightarrow> vs_read s 0 key = (case version s 0 key of Some v \<Rightarrow> Some v | None \<Rightarrow> cached_initial_values s key)"
  by (simp add: vs_read_eq)

lemma vs_read_Suc: "vs_ok s \<Longrightarrow> vs_read s (Suc i) key = (case version s (Suc i) key of Some v \<Rightarrow> Some v | None \<Rightarrow> vs_read s i key)"
  by (simp add: vs_read_eq split: option.splits)

text \<open>The operations on versions.\<close>

lemma vs_default_ok [simp]: "vs_ok vs_default" "version vs_default j = Map.empty"
  "cached_initial_values vs_default = Map.empty"
  by (auto simp: vs_ok_def vs_default_def version_def)

lemma vs_write_ok [simp]: "vs_ok s \<Longrightarrow> vs_ok (vs_write s i key v)"
  by (auto simp: vs_ok_def vs_write_def Let_def hm_all_def update_conv' split: option.splits if_splits)

lemma version_write [simp]:
  assumes "vs_ok s"
  shows "version (vs_write s i key v) j = (if j = i then (version s j)(key \<mapsto> v) else version s j)"
proof
  fix k
  have "increasing fst (case map_of (vs_writes s) key of None \<Rightarrow> [] | Some cell \<Rightarrow> cell)"
    using assms by (auto simp: vs_ok_def dest: hm_allD split: option.splits)
  then show "version (vs_write s i key v) j k = (if j = i then (version s j)(key \<mapsto> v) else version s j) k"
    by (auto simp: version_def vs_write_def Let_def update_conv' split: option.splits)
qed

lemma vs_delete_ok:
  "vs_ok s \<Longrightarrow> vs_delete_write s key i = Some s' \<Longrightarrow> vs_ok s' \<and>
     (\<forall>j. version s' j = (if j = i then (version s j)(key := None) else version s j)) \<and>
     cached_initial_values s' = cached_initial_values s"
  by (auto simp: vs_ok_def vs_delete_write_def hm_all_def update_conv' version_def fun_eq_iff
    simp del: map_of_eq_Some_iff split: option.splits if_splits)

lemma vs_delete_defined: "version s i key \<noteq> None \<Longrightarrow> vs_delete_write s key i \<noteq> None"
  by (auto simp: version_def vs_delete_write_def split: option.splits)

lemma set_initial_value_simps [simp]:
  "vs_ok (set_initial_value s key v) = vs_ok s"
  "version (set_initial_value s key v) = version s"
  "cached_initial_values (set_initial_value s key v) = (cached_initial_values s)(key \<mapsto> v)"
  "cached_initial_values (vs_write s i k w) = cached_initial_values s"
  by (auto simp: set_initial_value_def vs_ok_def version_def vs_write_def Let_def fun_eq_iff)

lemma vs_get_writes_ok:
  assumes "vs_ok s"
  shows "hm_ok (vs_get_writes_up_to_index s i)"
    and "map_of (vs_get_writes_up_to_index s i) key = latest (\<lambda>j. version s j key) i"
proof -
  have gen: "hm_ok (writes_up_to i ws) \<and> map_of (writes_up_to i ws) key =
      (case map_of ws key of None \<Rightarrow> None | Some cell \<Rightarrow> cell_latest i cell) \<and> fst ` set (writes_up_to i ws) \<subseteq> fst ` set ws"
    if "hm_ok ws" for ws :: "('a \<times> (nat \<times> 'b) list) list"
    using that by (induction i ws rule: writes_up_to.induct) (auto split: option.splits simp: map_of_eq_None_iff)
  have wok: "hm_ok (vs_writes s)" using assms by (simp add: vs_ok_def)
  show "hm_ok (vs_get_writes_up_to_index s i)" using gen[OF wok] by (simp add: vs_get_writes_up_to_index_def)
  have "vs_read (s\<lparr>cached_initial_values := Map.empty\<rparr>) i key = latest (\<lambda>j. version s j key) i"
    using assms by (subst vs_read_eq) (auto simp: vs_ok_def version_def split: option.splits)
  moreover have "vs_read (s\<lparr>cached_initial_values := Map.empty\<rparr>) i key =
      (case map_of (vs_writes s) key of None \<Rightarrow> None | Some cell \<Rightarrow> cell_latest i cell)"
    by (auto simp: vs_read_def split: option.splits)
  ultimately show "map_of (vs_get_writes_up_to_index s i) key = latest (\<lambda>j. version s j key) i"
    using gen[OF wok] by (simp add: vs_get_writes_up_to_index_def)
qed

end
