(* ===== verification/Versioned_State.thy ===== *)
theory Versioned_State
  imports Versioned_Storage Cached_State_Laws
begin

text \<open>
  \<^verbatim>\<open>crates/blockifier/src/concurrency/versioned_state.rs\<close>: the state shared by the workers that execute
  a chunk of transactions concurrently. Every transaction reads and writes it at its own version
  through a \<^verbatim>\<open>VersionedStateProxy\<close>; \<open>proxy_reader R i\<close> is the proxy of version \<open>i\<close> as a
  reader, on top of the reader \<open>R\<close> of the initial state. The mutex makes every function here one
  step for the other workers.
\<close>

section \<open>The state\<close>

record ('s, 'c) versioned_state =
  vst_initial_state :: 's
  vst_storage :: "(storage_entry, felt) versioned_storage"
  vst_nonces :: "(contract_address, nonce) versioned_storage"
  vst_class_hashes :: "(contract_address, class_hash) versioned_storage"
  vst_compiled_class_hashes :: "(class_hash, compiled_class_hash) versioned_storage"
  vst_declared_contracts :: "(class_hash, bool) versioned_storage"
  vst_compiled_contract_classes :: "(class_hash, 'c) versioned_storage"

definition vst_new :: "'s \<Rightarrow> ('s, 'c) versioned_state" where
  "vst_new initial_state = \<lparr>vst_initial_state = initial_state, vst_storage = vs_default, vst_nonces = vs_default,
     vst_class_hashes = vs_default, vst_compiled_class_hashes = vs_default,
     vst_declared_contracts = vs_default, vst_compiled_contract_classes = vs_default\<rparr>"

definition vst_get_writes_up_to_index :: "('s, 'c) versioned_state \<Rightarrow> nat \<Rightarrow> state_maps" where
  "vst_get_writes_up_to_index vs tx_index = \<lparr>
     sm_nonces = vs_get_writes_up_to_index (vst_nonces vs) tx_index,
     sm_class_hashes = vs_get_writes_up_to_index (vst_class_hashes vs) tx_index,
     sm_storage = vs_get_writes_up_to_index (vst_storage vs) tx_index,
     sm_compiled_class_hashes = vs_get_writes_up_to_index (vst_compiled_class_hashes vs) tx_index,
     sm_declared_contracts = vs_get_writes_up_to_index (vst_declared_contracts vs) tx_index\<rparr>"

text \<open>The loops of \<^verbatim>\<open>validate_reads\<close>: a value that is missing is a panic, a different one ends the
  validation.\<close>

fun check_reads :: "('k, 'v) versioned_storage \<Rightarrow> nat \<Rightarrow> ('k \<times> 'v) list \<Rightarrow> bool option" where
  "check_reads s tx_index [] = Some True"
| "check_reads s tx_index ((key, expected_value) # rest) =
     (case vs_read s tx_index key of
        None \<Rightarrow> None
      | Some value \<Rightarrow> if value \<noteq> expected_value then Some False else check_reads s tx_index rest)"

fun check_declared :: "('s, 'c) versioned_state \<Rightarrow> nat \<Rightarrow> (class_hash \<times> bool) list \<Rightarrow> bool option" where
  "check_declared vs tx_index [] = Some True"
| "check_declared vs tx_index ((class_hash, expected_value) # rest) =
     (case vs_read (vst_declared_contracts vs) tx_index class_hash of
        None \<Rightarrow> None
      | Some is_declared \<Rightarrow> do {
          rs_assert (is_declared = (vs_read (vst_compiled_contract_classes vs) tx_index class_hash \<noteq> None));
          if is_declared \<noteq> expected_value then Some False else check_declared vs tx_index rest })"

definition and_then :: "bool option \<Rightarrow> bool option \<Rightarrow> bool option" where
  "and_then x y = (case x of None \<Rightarrow> None | Some False \<Rightarrow> Some False | Some True \<Rightarrow> y)"

definition validate_reads :: "('s, 'c) versioned_state \<Rightarrow> nat \<Rightarrow> state_maps \<Rightarrow> bool option" where
  "validate_reads vs tx_index reads =
     (if tx_index = 0 then Some True
      else (let i = tx_index - 1
        in and_then (check_reads (vst_storage vs) i (sm_storage reads))
          (and_then (check_reads (vst_nonces vs) i (sm_nonces reads))
          (and_then (check_reads (vst_class_hashes vs) i (sm_class_hashes reads))
          (and_then (check_reads (vst_compiled_class_hashes vs) i (sm_compiled_class_hashes reads))
            (check_declared vs i (sm_declared_contracts reads)))))))"

fun write_all :: "nat \<Rightarrow> ('k, 'v) versioned_storage \<Rightarrow> ('k \<times> 'v) list \<Rightarrow> ('k, 'v) versioned_storage" where
  "write_all tx_index s [] = s"
| "write_all tx_index s ((key, value) # rest) = write_all tx_index (vs_write s tx_index key value) rest"

fun write_declared :: "('s, 'c) versioned_state \<Rightarrow> nat \<Rightarrow> (class_hash \<times> bool) list \<Rightarrow> ('s, 'c) versioned_state option" where
  "write_declared vs tx_index [] = Some vs"
| "write_declared vs tx_index ((key, value) # rest) = do {
     let vs1 = vs\<lparr>vst_declared_contracts := vs_write (vst_declared_contracts vs) tx_index key value\<rparr>;
     rs_assert (value = (vs_read (vst_compiled_contract_classes vs1) tx_index key \<noteq> None));
     write_declared vs1 tx_index rest }"

definition vst_apply_writes ::
    "('s, 'c) versioned_state \<Rightarrow> nat \<Rightarrow> state_maps \<Rightarrow> 'c contract_class_mapping \<Rightarrow> ('s, 'c) versioned_state option" where
  "vst_apply_writes vs tx_index ws class_hash_to_class =
     write_declared (vs\<lparr>
         vst_storage := write_all tx_index (vst_storage vs) (sm_storage ws),
         vst_nonces := write_all tx_index (vst_nonces vs) (sm_nonces ws),
         vst_class_hashes := write_all tx_index (vst_class_hashes vs) (sm_class_hashes ws),
         vst_compiled_class_hashes := write_all tx_index (vst_compiled_class_hashes vs) (sm_compiled_class_hashes ws),
         vst_compiled_contract_classes := write_all tx_index (vst_compiled_contract_classes vs) class_hash_to_class\<rparr>)
       tx_index (sm_declared_contracts ws)"

fun delete_all :: "nat \<Rightarrow> ('k, 'v) versioned_storage \<Rightarrow> 'k list \<Rightarrow> ('k, 'v) versioned_storage option" where
  "delete_all tx_index s [] = Some s"
| "delete_all tx_index s (key # rest) = do {
     s1 \<leftarrow> vs_delete_write s key tx_index;
     delete_all tx_index s1 rest }"

definition vst_delete_writes ::
    "('s, 'c) versioned_state \<Rightarrow> nat \<Rightarrow> state_maps \<Rightarrow> 'c contract_class_mapping \<Rightarrow> ('s, 'c) versioned_state option" where
  "vst_delete_writes vs tx_index ws class_hash_to_class = do {
     storage \<leftarrow> delete_all tx_index (vst_storage vs) (map fst (sm_storage ws));
     nonces \<leftarrow> delete_all tx_index (vst_nonces vs) (map fst (sm_nonces ws));
     class_hashes \<leftarrow> delete_all tx_index (vst_class_hashes vs) (map fst (sm_class_hashes ws));
     compiled_class_hashes \<leftarrow>
       delete_all tx_index (vst_compiled_class_hashes vs) (map fst (sm_compiled_class_hashes ws));
     declared_contracts \<leftarrow> delete_all tx_index (vst_declared_contracts vs) (map fst (sm_declared_contracts ws));
     compiled_contract_classes \<leftarrow>
       delete_all tx_index (vst_compiled_contract_classes vs) (map fst class_hash_to_class);
     Some (vs\<lparr>vst_storage := storage, vst_nonces := nonces, vst_class_hashes := class_hashes,
       vst_compiled_class_hashes := compiled_class_hashes, vst_declared_contracts := declared_contracts,
       vst_compiled_contract_classes := compiled_contract_classes\<rparr>) }"

text \<open>The committed transactions' writes go to the block's state; its \<^verbatim>\<open>apply_writes\<close> is the parameter.\<close>

definition commit_chunk_and_recover_block_state ::
    "('s \<Rightarrow> state_maps \<Rightarrow> 'c contract_class_mapping \<Rightarrow> visited_pcs \<Rightarrow> 's option) \<Rightarrow> ('s, 'c) versioned_state
      \<Rightarrow> nat \<Rightarrow> visited_pcs \<Rightarrow> 's option" where
  "commit_chunk_and_recover_block_state apply_writes vs n_committed_txs visited_pcs =
     (if n_committed_txs = 0 then Some (vst_initial_state vs)
      else (let commit_index = n_committed_txs - 1
        in apply_writes (vst_initial_state vs) (vst_get_writes_up_to_index vs commit_index)
             (vs_get_writes_up_to_index (vst_compiled_contract_classes vs) commit_index) visited_pcs))"

section \<open>The proxy of a version\<close>

definition vp_get_storage_at ::
    "('s, 'c) state_reader \<Rightarrow> nat \<Rightarrow> ('s, 'c) versioned_state \<Rightarrow> contract_address \<Rightarrow> storage_key
      \<Rightarrow> (('s, 'c) versioned_state, state_error, felt) rs_result" where
  "vp_get_storage_at R tx_index vs a k =
     (case vs_read (vst_storage vs) tx_index (a, k) of
        Some value \<Rightarrow> Some (vs, Inr value)
      | None \<Rightarrow>
         (case rd_storage_at R (vst_initial_state vs) a k of
            None \<Rightarrow> None
          | Some (s, Inl e) \<Rightarrow> Some (vs\<lparr>vst_initial_state := s\<rparr>, Inl e)
          | Some (s, Inr v) \<Rightarrow>
              Some (vs\<lparr>vst_initial_state := s, vst_storage := set_initial_value (vst_storage vs) (a, k) v\<rparr>, Inr v)))"

definition vp_get_nonce_at ::
    "('s, 'c) state_reader \<Rightarrow> nat \<Rightarrow> ('s, 'c) versioned_state \<Rightarrow> contract_address
      \<Rightarrow> (('s, 'c) versioned_state, state_error, nonce) rs_result" where
  "vp_get_nonce_at R tx_index vs a =
     (case vs_read (vst_nonces vs) tx_index a of
        Some value \<Rightarrow> Some (vs, Inr value)
      | None \<Rightarrow>
         (case rd_nonce_at R (vst_initial_state vs) a of
            None \<Rightarrow> None
          | Some (s, Inl e) \<Rightarrow> Some (vs\<lparr>vst_initial_state := s\<rparr>, Inl e)
          | Some (s, Inr v) \<Rightarrow>
              Some (vs\<lparr>vst_initial_state := s, vst_nonces := set_initial_value (vst_nonces vs) a v\<rparr>, Inr v)))"

definition vp_get_class_hash_at ::
    "('s, 'c) state_reader \<Rightarrow> nat \<Rightarrow> ('s, 'c) versioned_state \<Rightarrow> contract_address
      \<Rightarrow> (('s, 'c) versioned_state, state_error, class_hash) rs_result" where
  "vp_get_class_hash_at R tx_index vs a =
     (case vs_read (vst_class_hashes vs) tx_index a of
        Some value \<Rightarrow> Some (vs, Inr value)
      | None \<Rightarrow>
         (case rd_class_hash_at R (vst_initial_state vs) a of
            None \<Rightarrow> None
          | Some (s, Inl e) \<Rightarrow> Some (vs\<lparr>vst_initial_state := s\<rparr>, Inl e)
          | Some (s, Inr v) \<Rightarrow>
              Some (vs\<lparr>vst_initial_state := s, vst_class_hashes := set_initial_value (vst_class_hashes vs) a v\<rparr>, Inr v)))"

definition vp_get_compiled_class_hash ::
    "('s, 'c) state_reader \<Rightarrow> nat \<Rightarrow> ('s, 'c) versioned_state \<Rightarrow> class_hash
      \<Rightarrow> (('s, 'c) versioned_state, state_error, compiled_class_hash) rs_result" where
  "vp_get_compiled_class_hash R tx_index vs h =
     (case vs_read (vst_compiled_class_hashes vs) tx_index h of
        Some value \<Rightarrow> Some (vs, Inr value)
      | None \<Rightarrow>
         (case rd_compiled_class_hash R (vst_initial_state vs) h of
            None \<Rightarrow> None
          | Some (s, Inl e) \<Rightarrow> Some (vs\<lparr>vst_initial_state := s\<rparr>, Inl e)
          | Some (s, Inr v) \<Rightarrow>
              Some (vs\<lparr>vst_initial_state := s,
                vst_compiled_class_hashes := set_initial_value (vst_compiled_class_hashes vs) h v\<rparr>, Inr v)))"

definition vp_get_compiled_class ::
    "('s, 'c) state_reader \<Rightarrow> nat \<Rightarrow> ('s, 'c) versioned_state \<Rightarrow> class_hash
      \<Rightarrow> (('s, 'c) versioned_state, state_error, 'c) rs_result" where
  "vp_get_compiled_class R tx_index vs h =
     (case vs_read (vst_compiled_contract_classes vs) tx_index h of
        Some value \<Rightarrow> Some (vs, Inr value)
      | None \<Rightarrow>
         (case rd_compiled_class R (vst_initial_state vs) h of
            None \<Rightarrow> None
          | Some (s, Inr initial_value) \<Rightarrow>
              Some (vs\<lparr>vst_initial_state := s,
                vst_declared_contracts := set_initial_value (vst_declared_contracts vs) h True,
                vst_compiled_contract_classes :=
                  set_initial_value (vst_compiled_contract_classes vs) h initial_value\<rparr>, Inr initial_value)
          | Some (s, Inl e) \<Rightarrow>
             (case e of
                UndeclaredClassHash h' \<Rightarrow>
                  Some (vs\<lparr>vst_initial_state := s,
                    vst_declared_contracts := set_initial_value (vst_declared_contracts vs) h' False,
                    vst_compiled_class_hashes := set_initial_value (vst_compiled_class_hashes vs) h' 0\<rparr>,
                    Inl (UndeclaredClassHash h'))
              | _ \<Rightarrow> Some (vs\<lparr>vst_initial_state := s\<rparr>, Inl e))))"

definition proxy_reader :: "('s, 'c) state_reader \<Rightarrow> nat \<Rightarrow> (('s, 'c) versioned_state, 'c) state_reader" where
  "proxy_reader R tx_index = \<lparr>
     rd_storage_at = vp_get_storage_at R tx_index, rd_nonce_at = vp_get_nonce_at R tx_index,
     rd_class_hash_at = vp_get_class_hash_at R tx_index, rd_compiled_class = vp_get_compiled_class R tx_index,
     rd_compiled_class_hash = vp_get_compiled_class_hash R tx_index\<rparr>"

end
