(* ===== verification/Versioned_State_Laws.thy ===== *)
theory Versioned_State_Laws
  imports Versioned_State
begin

text \<open>
  What a versioned state means: at each version, the writes of the versions up to it on top of the
  initial state. A proxy keeps the contract of a state reader for the view of its version, and
  validated reads agree with the view of the version below.
\<close>

section \<open>Views of a version\<close>

definition vst_view :: "('s \<Rightarrow> 'c state_view) \<Rightarrow> nat \<Rightarrow> ('s, 'c) versioned_state \<Rightarrow> 'c state_view" where
  "vst_view view i vs = (let v0 = view (vst_initial_state vs) in \<lparr>
     v_storage = (\<lambda>k. or_else (latest (\<lambda>j. version (vst_storage vs) j k) i) (v_storage v0 k)),
     v_nonce = (\<lambda>a. or_else (latest (\<lambda>j. version (vst_nonces vs) j a) i) (v_nonce v0 a)),
     v_class_hash = (\<lambda>a. or_else (latest (\<lambda>j. version (vst_class_hashes vs) j a) i) (v_class_hash v0 a)),
     v_class = (\<lambda>h. case latest (\<lambda>j. version (vst_compiled_contract_classes vs) j h) i of
        Some cl \<Rightarrow> Some cl | None \<Rightarrow> v_class v0 h)\<rparr>)"

definition vst_below :: "('s \<Rightarrow> 'c state_view) \<Rightarrow> nat \<Rightarrow> ('s, 'c) versioned_state \<Rightarrow> 'c state_view" where
  "vst_below view i vs = (case i of 0 \<Rightarrow> view (vst_initial_state vs) | Suc j \<Rightarrow> vst_view view j vs)"

text \<open>What one version wrote, on top of a view.\<close>

definition at_version :: "('s, 'c) versioned_state \<Rightarrow> nat \<Rightarrow> 'c state_view \<Rightarrow> 'c state_view" where
  "at_version vs i v = \<lparr>
     v_storage = (\<lambda>k. or_else (version (vst_storage vs) i k) (v_storage v k)),
     v_nonce = (\<lambda>a. or_else (version (vst_nonces vs) i a) (v_nonce v a)),
     v_class_hash = (\<lambda>a. or_else (version (vst_class_hashes vs) i a) (v_class_hash v a)),
     v_class = (\<lambda>h. case version (vst_compiled_contract_classes vs) i h of Some cl \<Rightarrow> Some cl | None \<Rightarrow> v_class v h)\<rparr>"

lemma vst_view_split: "vst_view view i vs = at_version vs i (vst_below view i vs)"
  by (cases i) (auto simp: vst_view_def at_version_def vst_below_def Let_def or_else_def fun_eq_iff split: option.splits)

section \<open>The invariant\<close>

definition vst_storages_ok :: "('s, 'c) versioned_state \<Rightarrow> bool" where
  "vst_storages_ok vs \<longleftrightarrow> vs_ok (vst_storage vs) \<and> vs_ok (vst_nonces vs) \<and> vs_ok (vst_class_hashes vs) \<and>
     vs_ok (vst_compiled_class_hashes vs) \<and> vs_ok (vst_declared_contracts vs) \<and> vs_ok (vst_compiled_contract_classes vs)"

definition map_within :: "('k \<Rightarrow> 'v \<Rightarrow> bool) \<Rightarrow> ('k \<rightharpoonup> 'v) \<Rightarrow> bool" where
  "map_within P m \<longleftrightarrow> (\<forall>k v. m k = Some v \<longrightarrow> P k v)"

lemma map_within_upd [simp]: "map_within P m \<Longrightarrow> P k v \<Longrightarrow> map_within P (m(k \<mapsto> v))"
  by (simp add: map_within_def)

definition vst_cached_ok :: "'c state_view \<Rightarrow> ('s, 'c) versioned_state \<Rightarrow> bool" where
  "vst_cached_ok v0 vs \<longleftrightarrow>
     map_within (\<lambda>k x. v_storage v0 k = x) (cached_initial_values (vst_storage vs)) \<and>
     map_within (\<lambda>a n. v_nonce v0 a = n) (cached_initial_values (vst_nonces vs)) \<and>
     map_within (\<lambda>a h. v_class_hash v0 a = h) (cached_initial_values (vst_class_hashes vs)) \<and>
     map_within (\<lambda>h b. b = (v_class v0 h \<noteq> None)) (cached_initial_values (vst_declared_contracts vs)) \<and>
     map_within (\<lambda>h cl. v_class v0 h = Some cl) (cached_initial_values (vst_compiled_contract_classes vs))"

definition vst_inv :: "('s \<Rightarrow> 'c state_view) \<Rightarrow> ('s \<Rightarrow> bool) \<Rightarrow> ('s, 'c) versioned_state \<Rightarrow> bool" where
  "vst_inv view good vs \<longleftrightarrow> good (vst_initial_state vs) \<and> vst_storages_ok vs \<and>
     vst_cached_ok (view (vst_initial_state vs)) vs"

lemma vst_new_inv: "good s \<Longrightarrow> vst_inv view good (vst_new s)"
  by (simp add: vst_inv_def vst_new_def vst_storages_ok_def vst_cached_ok_def map_within_def)

text \<open>Two states with the same versions on the same initial state.\<close>

definition same_versions :: "('s \<Rightarrow> 'c state_view) \<Rightarrow> ('s, 'c) versioned_state \<Rightarrow> ('s, 'c) versioned_state \<Rightarrow> bool" where
  "same_versions view vs vs' \<longleftrightarrow>
     view (vst_initial_state vs') = view (vst_initial_state vs) \<and>
     version (vst_storage vs') = version (vst_storage vs) \<and> version (vst_nonces vs') = version (vst_nonces vs) \<and>
     version (vst_class_hashes vs') = version (vst_class_hashes vs) \<and>
     version (vst_compiled_class_hashes vs') = version (vst_compiled_class_hashes vs) \<and>
     version (vst_declared_contracts vs') = version (vst_declared_contracts vs) \<and>
     version (vst_compiled_contract_classes vs') = version (vst_compiled_contract_classes vs)"

lemma same_versions_refl [simp]: "same_versions view vs vs"
  by (simp add: same_versions_def)

lemma same_versions_view: "same_versions view vs vs' \<Longrightarrow> vst_view view i vs' = vst_view view i vs"
  by (simp add: same_versions_def vst_view_def)

text \<open>Reading at a version.\<close>

lemma vs_read_view:
  assumes "vs_ok s" "map_within (\<lambda>k x. f k = x) (cached_initial_values s)"
  shows "or_else (vs_read s i k) (f k) = or_else (latest (\<lambda>j. version s j k) i) (f k)"
    and "vs_read s i k = Some x \<Longrightarrow> or_else (latest (\<lambda>j. version s j k) i) (f k) = x"
  using assms by (auto simp: vs_read_eq map_within_def or_else_def split: option.splits)

context state_reader_laws begin

lemma vp_get_storage_ok:
  assumes "vst_inv view good vs"
  shows "\<exists>vs'. vp_get_storage_at R i vs a k = Some (vs', Inr (v_storage (vst_view view i vs) (a, k))) \<and>
    same_versions view vs vs' \<and> vst_inv view good vs'"
proof (cases "vs_read (vst_storage vs) i (a, k)")
  case None
  from assms storage_law[of "vst_initial_state vs" a k] obtain s where
    s: "rd_storage_at R (vst_initial_state vs) a k = Some (s, Inr (v_storage (view (vst_initial_state vs)) (a, k)))"
    "view s = view (vst_initial_state vs)" "good s" by (auto simp: vst_inv_def)
  have "v_storage (vst_view view i vs) (a, k) = v_storage (view (vst_initial_state vs)) (a, k)"
    using assms None vs_read_view(1)[of "vst_storage vs" "v_storage (view (vst_initial_state vs))" i "(a, k)"]
    by (simp add: vst_view_def Let_def vst_inv_def vst_storages_ok_def vst_cached_ok_def)
  with None s assms show ?thesis
    by (auto simp: vp_get_storage_at_def vst_inv_def vst_storages_ok_def vst_cached_ok_def same_versions_def)
next
  case (Some x)
  with assms vs_read_view(2)[of "vst_storage vs" "v_storage (view (vst_initial_state vs))" i "(a, k)" x]
  show ?thesis
    by (simp add: vp_get_storage_at_def vst_view_def Let_def vst_inv_def vst_storages_ok_def vst_cached_ok_def)
qed

lemma vp_get_nonce_ok:
  assumes "vst_inv view good vs"
  shows "\<exists>vs'. vp_get_nonce_at R i vs a = Some (vs', Inr (v_nonce (vst_view view i vs) a)) \<and>
    same_versions view vs vs' \<and> vst_inv view good vs'"
proof (cases "vs_read (vst_nonces vs) i a")
  case None
  from assms nonce_law[of "vst_initial_state vs" a] obtain s where
    s: "rd_nonce_at R (vst_initial_state vs) a = Some (s, Inr (v_nonce (view (vst_initial_state vs)) a))"
    "view s = view (vst_initial_state vs)" "good s" by (auto simp: vst_inv_def)
  have "v_nonce (vst_view view i vs) a = v_nonce (view (vst_initial_state vs)) a"
    using assms None vs_read_view(1)[of "vst_nonces vs" "v_nonce (view (vst_initial_state vs))" i a]
    by (simp add: vst_view_def Let_def vst_inv_def vst_storages_ok_def vst_cached_ok_def)
  with None s assms show ?thesis
    by (auto simp: vp_get_nonce_at_def vst_inv_def vst_storages_ok_def vst_cached_ok_def same_versions_def)
next
  case (Some x)
  with assms vs_read_view(2)[of "vst_nonces vs" "v_nonce (view (vst_initial_state vs))" i a x]
  show ?thesis
    by (simp add: vp_get_nonce_at_def vst_view_def Let_def vst_inv_def vst_storages_ok_def vst_cached_ok_def)
qed

lemma vp_get_class_hash_ok:
  assumes "vst_inv view good vs"
  shows "\<exists>vs'. vp_get_class_hash_at R i vs a = Some (vs', Inr (v_class_hash (vst_view view i vs) a)) \<and>
    same_versions view vs vs' \<and> vst_inv view good vs'"
proof (cases "vs_read (vst_class_hashes vs) i a")
  case None
  from assms class_hash_law[of "vst_initial_state vs" a] obtain s where
    s: "rd_class_hash_at R (vst_initial_state vs) a = Some (s, Inr (v_class_hash (view (vst_initial_state vs)) a))"
    "view s = view (vst_initial_state vs)" "good s" by (auto simp: vst_inv_def)
  have "v_class_hash (vst_view view i vs) a = v_class_hash (view (vst_initial_state vs)) a"
    using assms None vs_read_view(1)[of "vst_class_hashes vs" "v_class_hash (view (vst_initial_state vs))" i a]
    by (simp add: vst_view_def Let_def vst_inv_def vst_storages_ok_def vst_cached_ok_def)
  with None s assms show ?thesis
    by (auto simp: vp_get_class_hash_at_def vst_inv_def vst_storages_ok_def vst_cached_ok_def same_versions_def)
next
  case (Some x)
  with assms vs_read_view(2)[of "vst_class_hashes vs" "v_class_hash (view (vst_initial_state vs))" i a x]
  show ?thesis
    by (simp add: vp_get_class_hash_at_def vst_view_def Let_def vst_inv_def vst_storages_ok_def vst_cached_ok_def)
qed

lemma vp_get_class_ok:
  assumes "vst_inv view good vs"
  shows "\<exists>vs'. vp_get_compiled_class R i vs h =
      Some (vs', case v_class (vst_view view i vs) h of Some cl \<Rightarrow> Inr cl | None \<Rightarrow> Inl (UndeclaredClassHash h)) \<and>
    same_versions view vs vs' \<and> vst_inv view good vs'"
proof (cases "vs_read (vst_compiled_contract_classes vs) i h")
  case None
  from assms class_law[of "vst_initial_state vs" h] obtain s where
    s: "rd_compiled_class R (vst_initial_state vs) h = Some (s,
        case v_class (view (vst_initial_state vs)) h of Some cl \<Rightarrow> Inr cl | None \<Rightarrow> Inl (UndeclaredClassHash h))"
    "view s = view (vst_initial_state vs)" "good s" by (auto simp: vst_inv_def)
  have "latest (\<lambda>j. version (vst_compiled_contract_classes vs) j h) i = None"
    using assms None by (auto simp: vs_read_eq vst_inv_def vst_storages_ok_def split: option.splits)
  then have "v_class (vst_view view i vs) h = v_class (view (vst_initial_state vs)) h"
    by (simp add: vst_view_def Let_def)
  with None s assms show ?thesis
    by (cases "v_class (view (vst_initial_state vs)) h")
      (auto simp: vp_get_compiled_class_def vst_inv_def vst_storages_ok_def vst_cached_ok_def same_versions_def)
next
  case (Some cl)
  with assms have "v_class (vst_view view i vs) h = Some cl"
    by (auto simp: vs_read_eq vst_view_def Let_def vst_inv_def vst_storages_ok_def vst_cached_ok_def map_within_def
      split: option.splits)
  with Some assms show ?thesis by (simp add: vp_get_compiled_class_def)
qed

lemma proxy_reader_laws: "state_reader_laws (proxy_reader R i) (vst_view view i) (vst_inv view good)"
proof
  fix vs a k h assume vs: "vst_inv view good vs"
  note same_versions_view [simp]
  show "\<exists>vs'. rd_storage_at (proxy_reader R i) vs a k = Some (vs', Inr (v_storage (vst_view view i vs) (a, k))) \<and>
      vst_view view i vs' = vst_view view i vs \<and> vst_inv view good vs'"
    using vp_get_storage_ok[OF vs, of i a k] by (auto simp: proxy_reader_def)
  show "\<exists>vs'. rd_nonce_at (proxy_reader R i) vs a = Some (vs', Inr (v_nonce (vst_view view i vs) a)) \<and>
      vst_view view i vs' = vst_view view i vs \<and> vst_inv view good vs'"
    using vp_get_nonce_ok[OF vs, of i a] by (auto simp: proxy_reader_def)
  show "\<exists>vs'. rd_class_hash_at (proxy_reader R i) vs a = Some (vs', Inr (v_class_hash (vst_view view i vs) a)) \<and>
      vst_view view i vs' = vst_view view i vs \<and> vst_inv view good vs'"
    using vp_get_class_hash_ok[OF vs, of i a] by (auto simp: proxy_reader_def)
  show "\<exists>vs'. rd_compiled_class (proxy_reader R i) vs h =
        Some (vs', case v_class (vst_view view i vs) h of Some cl \<Rightarrow> Inr cl | None \<Rightarrow> Inl (UndeclaredClassHash h)) \<and>
      vst_view view i vs' = vst_view view i vs \<and> vst_inv view good vs'"
    using vp_get_class_ok[OF vs, of i h] by (auto simp: proxy_reader_def)
qed

end

section \<open>Validated reads\<close>

text \<open>Classes are stored under their own hash, and contracts are only ever declared.\<close>

definition vst_classes_ok :: "(class_hash \<Rightarrow> 'c) \<Rightarrow> 'c state_view \<Rightarrow> ('s, 'c) versioned_state \<Rightarrow> bool" where
  "vst_classes_ok class_of v0 vs \<longleftrightarrow>
     map_within (\<lambda>h cl. cl = class_of h) (v_class v0) \<and>
     (\<forall>j. map_within (\<lambda>h cl. cl = class_of h) (version (vst_compiled_contract_classes vs) j)) \<and>
     (\<forall>j. map_within (\<lambda>h b. b) (version (vst_declared_contracts vs) j))"

lemma check_reads_True: "check_reads s i l = Some True \<Longrightarrow> (k, x) \<in> set l \<Longrightarrow> vs_read s i k = Some x"
  by (induction s i l rule: check_reads.induct) (auto split: option.splits if_splits)

lemma check_declared_True:
  "check_declared vs i l = Some True \<Longrightarrow> (h, b) \<in> set l \<Longrightarrow> vs_read (vst_declared_contracts vs) i h = Some b \<and>
     b = (vs_read (vst_compiled_contract_classes vs) i h \<noteq> None)"
  by (induction vs i l rule: check_declared.induct) (auto simp: rs_assert_def split: option.splits if_splits)

lemma and_then_True: "and_then x y = Some True \<longleftrightarrow> x = Some True \<and> y = Some True"
  by (auto simp: and_then_def split: option.splits bool.splits)

lemma validate_reads_Suc:
  "validate_reads vs (Suc i) reads = Some True \<longleftrightarrow>
     check_reads (vst_storage vs) i (sm_storage reads) = Some True \<and>
     check_reads (vst_nonces vs) i (sm_nonces reads) = Some True \<and>
     check_reads (vst_class_hashes vs) i (sm_class_hashes reads) = Some True \<and>
     check_reads (vst_compiled_class_hashes vs) i (sm_compiled_class_hashes reads) = Some True \<and>
     check_declared vs i (sm_declared_contracts reads) = Some True"
  by (simp add: validate_reads_def Let_def and_then_True)

lemma checked_values:
  assumes "vs_ok s" "map_within (\<lambda>k x. f k = x) (cached_initial_values s)" "check_reads s i l = Some True"
  shows "hm_all (\<lambda>k x. or_else (latest (\<lambda>j. version s j k) i) (f k) = x) l"
  using assms(3) by (auto simp: hm_all_def intro!: vs_read_view(2)[OF assms(1,2)] check_reads_True dest: map_of_SomeD)

lemma checked_class:
  assumes "vst_inv view good vs" "vst_classes_ok class_of (view (vst_initial_state vs)) vs"
    and "vs_read (vst_declared_contracts vs) i h = Some b" "b = (vs_read (vst_compiled_contract_classes vs) i h \<noteq> None)"
  shows "v_class (vst_view view i vs) h = (if b then Some (class_of h) else None)"
proof -
  let ?v0 = "view (vst_initial_state vs)" and ?cl = "latest (\<lambda>j. version (vst_compiled_contract_classes vs) j h) i"
  have ok: "vs_ok (vst_compiled_contract_classes vs)" "vs_ok (vst_declared_contracts vs)" "vst_cached_ok ?v0 vs"
    using assms(1) by (auto simp: vst_inv_def vst_storages_ok_def)
  have cl: "cl = class_of h" if "?cl = Some cl" for cl
    using assms(2) latest_Some_ex[OF that] by (auto simp: vst_classes_ok_def map_within_def)
  show ?thesis
  proof (cases b)
    case True
    with assms(4) ok(1) have "?cl \<noteq> None \<or> cached_initial_values (vst_compiled_contract_classes vs) h \<noteq> None"
      by (auto simp: vs_read_eq split: option.splits)
    with True cl assms(2) ok(3) show ?thesis
      by (cases ?cl) (auto simp: vst_view_def Let_def vst_cached_ok_def vst_classes_ok_def map_within_def)
  next
    case False
    with assms(4) ok(1) have none: "?cl = None" by (auto simp: vs_read_eq split: option.splits)
    have "latest (\<lambda>j. version (vst_declared_contracts vs) j h) i \<noteq> Some False"
    proof
      assume "latest (\<lambda>j. version (vst_declared_contracts vs) j h) i = Some False"
      from latest_Some_ex[OF this] assms(2) show False unfolding vst_classes_ok_def map_within_def by blast
    qed
    with False assms(3) ok(2) have "cached_initial_values (vst_declared_contracts vs) h = Some False"
      by (auto simp: vs_read_eq split: option.splits)
    with ok(3) have "False = (v_class ?v0 h \<noteq> None)" unfolding vst_cached_ok_def map_within_def by blast
    with none False show ?thesis by (simp add: vst_view_def Let_def)
  qed
qed

lemma validate_reads_agrees:
  assumes "vst_inv view good vs" "vst_classes_ok class_of (view (vst_initial_state vs)) vs"
    and "validate_reads vs (Suc i) reads = Some True"
  shows "agrees class_of (vst_view view i vs) reads"
proof -
  have ok: "vs_ok (vst_storage vs)" "vs_ok (vst_nonces vs)" "vs_ok (vst_class_hashes vs)"
    "vst_cached_ok (view (vst_initial_state vs)) vs"
    using assms(1) by (auto simp: vst_inv_def vst_storages_ok_def)
  have "hm_all (\<lambda>h b. v_class (vst_view view i vs) h = (if b then Some (class_of h) else None)) (sm_declared_contracts reads)"
    using assms(3) unfolding hm_all_def validate_reads_Suc
    by (intro allI impI checked_class[OF assms(1,2)]) (auto dest: check_declared_True map_of_SomeD)
  with ok assms(3) checked_values[OF ok(1)] checked_values[OF ok(2)] checked_values[OF ok(3)] show ?thesis
    by (auto simp: agrees_def validate_reads_Suc vst_view_def Let_def vst_cached_ok_def)
qed

section \<open>Writing and deleting a version\<close>

text \<open>The writes that a version consists of.\<close>

definition version_is :: "('s, 'c) versioned_state \<Rightarrow> nat \<Rightarrow> state_maps \<Rightarrow> 'c contract_class_mapping \<Rightarrow> bool" where
  "version_is vs i ws classes \<longleftrightarrow>
     version (vst_storage vs) i = map_of (sm_storage ws) \<and> version (vst_nonces vs) i = map_of (sm_nonces ws) \<and>
     version (vst_class_hashes vs) i = map_of (sm_class_hashes ws) \<and>
     version (vst_compiled_class_hashes vs) i = map_of (sm_compiled_class_hashes ws) \<and>
     version (vst_declared_contracts vs) i = map_of (sm_declared_contracts ws) \<and>
     version (vst_compiled_contract_classes vs) i = map_of classes"

abbreviation version_empty :: "('s, 'c) versioned_state \<Rightarrow> nat \<Rightarrow> bool" where
  "version_empty vs i \<equiv> version_is vs i sm_default []"

lemma at_version_is: "version_is vs i ws classes \<Longrightarrow> at_version vs i v = overlay v ws classes"
  by (simp add: version_is_def at_version_def overlay_def)

text \<open>Everything but one version is unchanged.\<close>

definition only_version :: "('s, 'c) versioned_state \<Rightarrow> nat \<Rightarrow> ('s, 'c) versioned_state \<Rightarrow> bool" where
  "only_version vs i vs' \<longleftrightarrow> vst_initial_state vs' = vst_initial_state vs \<and>
     (\<forall>j. j \<noteq> i \<longrightarrow>
       version (vst_storage vs') j = version (vst_storage vs) j \<and> version (vst_nonces vs') j = version (vst_nonces vs) j \<and>
       version (vst_class_hashes vs') j = version (vst_class_hashes vs) j \<and>
       version (vst_compiled_class_hashes vs') j = version (vst_compiled_class_hashes vs) j \<and>
       version (vst_declared_contracts vs') j = version (vst_declared_contracts vs) j \<and>
       version (vst_compiled_contract_classes vs') j = version (vst_compiled_contract_classes vs) j)"

lemma only_version_at: "only_version vs i vs' \<Longrightarrow> j \<noteq> i \<Longrightarrow> at_version vs' j v = at_version vs j v"
  by (simp add: only_version_def at_version_def)

lemma only_version_is: "only_version vs i vs' \<Longrightarrow> j \<noteq> i \<Longrightarrow> version_is vs' j ws classes = version_is vs j ws classes"
  by (simp add: only_version_def version_is_def)

lemma only_version_below: "only_version vs i vs' \<Longrightarrow> j < i \<Longrightarrow> vst_view view j vs' = vst_view view j vs"
proof (induction j)
  case (Suc j)
  then show ?case
    by (simp add: vst_view_split[of _ "Suc j"] only_version_at) (simp add: vst_below_def)
qed (simp add: vst_view_split[of _ 0] only_version_at vst_below_def, simp add: only_version_def)

lemma write_all_ok:
  "vs_ok s \<Longrightarrow> vs_ok (write_all i s l) \<and> cached_initial_values (write_all i s l) = cached_initial_values s \<and>
     (hm_ok l \<longrightarrow> (\<forall>j. version (write_all i s l) j = (if j = i then version s j ++ map_of l else version s j)))"
proof (induction i s l rule: write_all.induct)
  case (2 i s k v l)
  have "(version s i)(k \<mapsto> v) ++ map_of l = version s i ++ map_of ((k, v) # l)" if "hm_ok ((k, v) # l)"
    using that by (simp add: map_add_upd_left dom_map_of_conv_image_fst)
  with 2 show ?case by auto
qed simp

lemma delete_all_ok:
  "vs_ok s \<Longrightarrow> delete_all i s l = Some s' \<Longrightarrow> vs_ok s' \<and> cached_initial_values s' = cached_initial_values s \<and>
     (\<forall>j. version s' j = (if j = i then version s j |` (- set l) else version s j))"
proof (induction i s l rule: delete_all.induct)
  case (2 i s k l)
  then obtain s1 where s1: "vs_delete_write s k i = Some s1" "delete_all i s1 l = Some s'"
    by (auto simp: bind_eq_Some_conv)
  with vs_delete_ok[OF 2(2) s1(1)] 2(1)[of s1] show ?case
    by (auto simp: fun_eq_iff restrict_map_def)
qed (auto simp: fun_eq_iff)


lemma write_declared_ok:
  "write_declared vs i l = Some vs' \<Longrightarrow> vs' = vs\<lparr>vst_declared_contracts := write_all i (vst_declared_contracts vs) l\<rparr>"
  by (induction vs i l rule: write_declared.induct) (auto simp: Let_def)

lemma apply_writes_versions:
  assumes "vst_inv view good vs" "vst_apply_writes vs i ws classes = Some vs'" "sm_ok ws" "hm_ok classes"
  shows "vst_inv view good vs'" "only_version vs i vs'"
    "at_version vs' i v = overlay (at_version vs i v) ws classes"
    "version_empty vs i \<Longrightarrow> version_is vs' i ws classes"
    "version (vst_declared_contracts vs') i = version (vst_declared_contracts vs) i ++ map_of (sm_declared_contracts ws)"
    "version (vst_compiled_contract_classes vs') i = version (vst_compiled_contract_classes vs) i ++ map_of classes"
proof -
  let ?w = "write_all i"
  have vs': "vs' = vs\<lparr>vst_storage := ?w (vst_storage vs) (sm_storage ws), vst_nonces := ?w (vst_nonces vs) (sm_nonces ws),
      vst_class_hashes := ?w (vst_class_hashes vs) (sm_class_hashes ws),
      vst_compiled_class_hashes := ?w (vst_compiled_class_hashes vs) (sm_compiled_class_hashes ws),
      vst_compiled_contract_classes := ?w (vst_compiled_contract_classes vs) classes,
      vst_declared_contracts := ?w (vst_declared_contracts vs) (sm_declared_contracts ws)\<rparr>"
    using assms(2) by (auto simp: vst_apply_writes_def dest!: write_declared_ok)
  have ok: "vst_storages_ok vs" using assms(1) by (simp add: vst_inv_def)
  note [simp] = write_all_ok
  show "vst_inv view good vs'" "only_version vs i vs'"
    using assms ok by (auto simp: vs' vst_inv_def vst_storages_ok_def vst_cached_ok_def only_version_def sm_ok_def)
  show "at_version vs' i v = overlay (at_version vs i v) ws classes"
    using assms(3,4) ok
    by (auto simp: vs' at_version_def overlay_def vst_storages_ok_def sm_ok_def map_add_def or_else_def fun_eq_iff
      split: option.splits)
  show "version_empty vs i \<Longrightarrow> version_is vs' i ws classes"
    using assms(3,4) ok by (auto simp: vs' version_is_def vst_storages_ok_def sm_ok_def sm_default_def)
  show "version (vst_declared_contracts vs') i = version (vst_declared_contracts vs) i ++ map_of (sm_declared_contracts ws)"
    "version (vst_compiled_contract_classes vs') i = version (vst_compiled_contract_classes vs) i ++ map_of classes"
    using assms(3,4) ok by (auto simp: vs' vst_storages_ok_def sm_ok_def)
qed

lemma delete_writes_versions:
  assumes "vst_inv view good vs" "vst_delete_writes vs i ws classes = Some vs'" "version_is vs i ws classes"
  shows "vst_inv view good vs'" "only_version vs i vs'" "version_empty vs' i"
proof -
  let ?d = "delete_all i"
  from assms(2) obtain s1 s2 s3 s4 s5 s6 where
    d: "?d (vst_storage vs) (map fst (sm_storage ws)) = Some s1" "?d (vst_nonces vs) (map fst (sm_nonces ws)) = Some s2"
    "?d (vst_class_hashes vs) (map fst (sm_class_hashes ws)) = Some s3"
    "?d (vst_compiled_class_hashes vs) (map fst (sm_compiled_class_hashes ws)) = Some s4"
    "?d (vst_declared_contracts vs) (map fst (sm_declared_contracts ws)) = Some s5"
    "?d (vst_compiled_contract_classes vs) (map fst classes) = Some s6"
    and vs': "vs' = vs\<lparr>vst_storage := s1, vst_nonces := s2, vst_class_hashes := s3,
       vst_compiled_class_hashes := s4, vst_declared_contracts := s5, vst_compiled_contract_classes := s6\<rparr>"
    by (auto simp: vst_delete_writes_def bind_eq_Some_conv)
  have ok: "vst_storages_ok vs" using assms(1) by (simp add: vst_inv_def)
  note del = delete_all_ok[OF _ d(1)] delete_all_ok[OF _ d(2)] delete_all_ok[OF _ d(3)] delete_all_ok[OF _ d(4)]
    delete_all_ok[OF _ d(5)] delete_all_ok[OF _ d(6)]
  show "vst_inv view good vs'" "only_version vs i vs'"
    using assms(1) ok del by (auto simp: vs' vst_inv_def vst_storages_ok_def vst_cached_ok_def only_version_def)
  have empty: "map_of m |` (- set (map fst m)) = Map.empty" for m :: "('k \<times> 'v) list"
    by (auto simp: restrict_map_def fun_eq_iff map_of_eq_None_iff)
  show "version_empty vs' i"
    using assms(3) ok del by (simp add: vs' version_is_def vst_storages_ok_def sm_default_def empty[unfolded set_map] )
qed

section \<open>Executing at a version\<close>

text \<open>One call of a program keeps the contract's invariant of the reader's state, and that of the cache if it
  holds.\<close>

context state_reader_laws begin

lemma cached_get_good:
  assumes "good (cs_state c)" "cached_get get set_initial rd c = Some (c', r)"
    and "\<exists>s. rd (cs_state c) = Some (s, x) \<and> view s = view (cs_state c) \<and> good s"
  shows "good (cs_state c')"
  using assms by (auto simp: cached_get_def on_inner_def rs_try_def split: option.splits sum.splits if_splits)

lemma getter_good:
  assumes "good (cs_state c)"
  shows "cs_get_storage_at R c a k = Some (c', r) \<Longrightarrow> good (cs_state c')"
    and "cs_get_nonce_at R c a = Some (c', r2) \<Longrightarrow> good (cs_state c')"
    and "cs_get_class_hash_at R c a = Some (c', r3) \<Longrightarrow> good (cs_state c')"
    and "cs_get_compiled_class R c h = Some (c', r4) \<Longrightarrow> good (cs_state c')"
    and "cs_increment_nonce R c a = Some (c', r5) \<Longrightarrow> good (cs_state c')"
proof -
  show st: "cs_get_storage_at R c a k = Some (c', r) \<Longrightarrow> good (cs_state c')" for r
    unfolding getters_cached_get by (erule cached_get_good[OF assms]) (rule storage_law[OF assms])
  show n: "cs_get_nonce_at R c a = Some (c', r2) \<Longrightarrow> good (cs_state c')" for r2 c'
    unfolding getters_cached_get by (erule cached_get_good[OF assms]) (rule nonce_law[OF assms])
  show "cs_get_class_hash_at R c a = Some (c', r3) \<Longrightarrow> good (cs_state c')"
    unfolding getters_cached_get by (erule cached_get_good[OF assms]) (rule class_hash_law[OF assms])
  show "cs_get_compiled_class R c h = Some (c', r4) \<Longrightarrow> good (cs_state c')"
    using class_law[OF assms, of h] assms
    by (auto simp: cs_get_compiled_class_def on_inner_def rs_try_def split: option.splits sum.splits if_splits state_error.splits)
  show "cs_increment_nonce R c a = Some (c', r5) \<Longrightarrow> good (cs_state c')"
    using n by (auto simp: cs_increment_nonce_def rs_try_def split: option.splits sum.splits prod.splits)
qed

lemma fill_good: "good (cs_state c) \<Longrightarrow> fill_write_only_storage R c keys = Some (c', r) \<Longrightarrow> good (cs_state c')"
proof (induction keys arbitrary: c)
  case (Cons ak keys)
  obtain a k where ak: "ak = (a, k)" by force
  from storage_law[OF Cons.prems(1), of a k] obtain s where
    s: "rd_storage_at R (cs_state c) a k = Some (s, Inr (v_storage (view (cs_state c)) (a, k)))" "good s" by blast
  with Cons.prems Cons.IH[of c] Cons.IH[of "c\<lparr>cs_state := s, cs_cache :=
      set_storage_initial_value (cs_cache c) a k (v_storage (view (cs_state c)) (a, k))\<rparr>"] show ?case
    by (simp add: ak on_inner_def split: if_splits)
qed simp

lemma prog_step_good: "good (cs_state c) \<Longrightarrow> prog_step R c P = Some (c', P') \<Longrightarrow> good (cs_state c')"
  by (cases P) (auto simp: cs_set_storage_at_def cs_set_class_hash_at_def cs_set_contract_class_def
    cs_set_compiled_class_hash_def cs_add_visited_pcs_def update_initial_values_of_write_only_access_def
    dest: getter_good fill_good split: option.splits sum.splits prod.splits if_splits state_error.splits)

lemma prog_step_inv:
  assumes "cs_inv view good c" "prog_step R c P = Some (c', P')"
  shows "cs_inv view good c'"
proof (cases P)
  case (GetStorageAt a k f)
  with assms(2) get_storage_ok[OF assms(1), of a k] show ?thesis by auto
next
  case (GetNonceAt a f)
  with assms(2) get_nonce_ok[OF assms(1), of a] show ?thesis by auto
next
  case (GetClassHashAt a f)
  with assms(2) get_class_hash_ok[OF assms(1), of a] show ?thesis by auto
next
  case (GetCompiledClass h f)
  with assms(2) get_class_ok[OF assms(1), of h] show ?thesis by (auto split: option.splits)
next
  case (IncrementNonce a p)
  with assms(2) increment_nonce_ok[OF assms(1), of a] show ?thesis by auto
next
  case (UpdateInitialValues p)
  with assms(2) fill_ok[OF assms(1), of "map fst (sm_storage (writes (cs_cache c)))"] show ?thesis
    by (auto simp: update_initial_values_of_write_only_access_def)
next
  case (SetClassHashAt a h f)
  with assms(2) setters_ok(2)[OF assms(1), of a h] show ?thesis by (auto split: prod.splits)
qed (use assms setters_ok(1,3-5)[OF assms(1)] in auto)

end

context state_reader_laws begin

text \<open>Executing through a proxy does not change what the versions wrote.\<close>

lemma proxy_same_versions_laws:
  "state_reader_laws (proxy_reader R i) (vst_view view i) (\<lambda>vs'. vst_inv view good vs' \<and> same_versions view vs vs')"
proof
  fix vs' a k h assume "vst_inv view good vs' \<and> same_versions view vs vs'"
  then have vs': "vst_inv view good vs'" and same: "same_versions view vs vs'" by auto
  have trans: "same_versions view vs vs''" if "same_versions view vs' vs''" for vs''
    using same that by (simp add: same_versions_def)
  note [simp] = same_versions_view
  show "\<exists>s'. rd_storage_at (proxy_reader R i) vs' a k = Some (s', Inr (v_storage (vst_view view i vs') (a, k))) \<and>
      vst_view view i s' = vst_view view i vs' \<and> vst_inv view good s' \<and> same_versions view vs s'"
    using vp_get_storage_ok[OF vs', of i a k] trans by (auto simp: proxy_reader_def)
  show "\<exists>s'. rd_nonce_at (proxy_reader R i) vs' a = Some (s', Inr (v_nonce (vst_view view i vs') a)) \<and>
      vst_view view i s' = vst_view view i vs' \<and> vst_inv view good s' \<and> same_versions view vs s'"
    using vp_get_nonce_ok[OF vs', of i a] trans by (auto simp: proxy_reader_def)
  show "\<exists>s'. rd_class_hash_at (proxy_reader R i) vs' a = Some (s', Inr (v_class_hash (vst_view view i vs') a)) \<and>
      vst_view view i s' = vst_view view i vs' \<and> vst_inv view good s' \<and> same_versions view vs s'"
    using vp_get_class_hash_ok[OF vs', of i a] trans by (auto simp: proxy_reader_def)
  show "\<exists>s'. rd_compiled_class (proxy_reader R i) vs' h =
        Some (s', case v_class (vst_view view i vs') h of Some cl \<Rightarrow> Inr cl | None \<Rightarrow> Inl (UndeclaredClassHash h)) \<and>
      vst_view view i s' = vst_view view i vs' \<and> vst_inv view good s' \<and> same_versions view vs s'"
    using vp_get_class_ok[OF vs', of i h] trans by (auto simp: proxy_reader_def)
qed

lemma proxy_step:
  assumes "vst_inv view good (cs_state c)" "prog_step (proxy_reader R i) c P = Some (c', P')"
  shows "vst_inv view good (cs_state c') \<and> same_versions view (cs_state c) (cs_state c')"
  using state_reader_laws.prog_step_good[OF proxy_same_versions_laws[of i "cs_state c"] _ assms(2)] assms(1) by simp

lemma proxy_honest:
  assumes "vst_inv view good vs" "vst_classes_ok class_of (view (vst_initial_state vs)) vs"
  shows "honest_at class_of (proxy_reader R i) vs"
proof -
  have cl: "cl = class_of h" if "v_class (vst_view view i vs) h = Some cl" for h cl
  proof (cases "latest (\<lambda>j. version (vst_compiled_contract_classes vs) j h) i")
    case None
    with that assms(2) show ?thesis by (auto simp: vst_view_def Let_def vst_classes_ok_def map_within_def)
  next
    case (Some cl')
    from latest_Some_ex[OF Some] obtain j where "version (vst_compiled_contract_classes vs) j h = Some cl'" by blast
    with Some that assms(2) show ?thesis by (auto simp: vst_view_def Let_def vst_classes_ok_def map_within_def)
  qed
  have r: "r = (case v_class (vst_view view i vs) h of Some cl \<Rightarrow> Inr cl | None \<Rightarrow> Inl (UndeclaredClassHash h))"
    if "rd_compiled_class (proxy_reader R i) vs h = Some (s', r)" for h s' r
    using that vp_get_class_ok[OF assms(1), of i h] by (auto simp: proxy_reader_def)
  show ?thesis
    unfolding honest_at_def by (intro conjI allI impI; drule r) (auto split: option.splits dest: cl)
qed

end

interpretation proxy_dict: state_reader_laws "proxy_reader dict_reader i" "vst_view dict_view i" "vst_inv dict_view (\<lambda>_. True)"
  for i by (rule dict.proxy_reader_laws)

section \<open>Undoing a version\<close>

lemma delete_all_defined:
  "\<forall>k \<in> set l. map_of (vs_writes s) k \<noteq> None \<Longrightarrow> \<exists>s'. delete_all i s l = Some s'"
proof (induction l arbitrary: s)
  case (Cons k l)
  then obtain s1 where s1: "vs_delete_write s k i = Some s1"
    by (auto simp: vs_delete_write_def)
  then have "\<forall>k \<in> set l. map_of (vs_writes s1) k \<noteq> None"
    using Cons.prems by (auto simp: vs_delete_write_def update_conv' split: option.splits)
  with Cons.IH s1 show ?case by auto
qed simp

lemma written_keys: "version s i k \<noteq> None \<Longrightarrow> map_of (vs_writes s) k \<noteq> None"
  by (auto simp: version_def split: option.splits)

lemma delete_version_defined:
  assumes "version s i = map_of m"
  shows "\<exists>s'. delete_all i s (map fst m) = Some s'"
proof (rule delete_all_defined, intro ballI written_keys[where i=i])
  fix k assume "k \<in> set (map fst m)"
  then show "version s i k \<noteq> None" by (auto simp: assms map_of_eq_None_iff)
qed

lemma delete_writes_defined:
  "version_is vs i ws classes \<Longrightarrow> \<exists>vs'. vst_delete_writes vs i ws classes = Some vs'"
  using delete_version_defined[of "vst_storage vs" i "sm_storage ws"] delete_version_defined[of "vst_nonces vs" i "sm_nonces ws"]
    delete_version_defined[of "vst_class_hashes vs" i "sm_class_hashes ws"]
    delete_version_defined[of "vst_compiled_class_hashes vs" i "sm_compiled_class_hashes ws"]
    delete_version_defined[of "vst_declared_contracts vs" i "sm_declared_contracts ws"]
    delete_version_defined[of "vst_compiled_contract_classes vs" i classes]
  by (auto simp: version_is_def vst_delete_writes_def)

text \<open>C27: Aborting a transaction undoes it: deleting the writes that a transaction applied at its version
  does not panic, and leaves every version, and so the view at every version, as before. It holds for a version
  that had no writes yet, as a version has when its transaction starts to execute.\<close>

theorem delete_writes_undoes_apply_writes:
  assumes "vst_inv view good vs" "version_empty vs i" "sm_ok ws" "hm_ok classes"
    and "vst_apply_writes vs i ws classes = Some vs1"
  shows "\<exists>vs2. vst_delete_writes vs1 i ws classes = Some vs2 \<and> vst_inv view good vs2 \<and>
    same_versions view vs vs2 \<and> (\<forall>j. vst_view view j vs2 = vst_view view j vs)"
proof -
  note ap = apply_writes_versions[OF assms(1,5,3,4)]
  have is1: "version_is vs1 i ws classes" by (rule ap(4)[OF assms(2)])
  from delete_writes_defined[OF this] obtain vs2 where vs2: "vst_delete_writes vs1 i ws classes = Some vs2" by blast
  note del = delete_writes_versions[OF ap(1) vs2 is1]
  have "same_versions view vs vs2"
    using ap(2) del(2,3) assms(2)
    by (auto simp: same_versions_def only_version_def version_is_def sm_default_def fun_eq_iff) metis+
  with vs2 del(1) same_versions_view show ?thesis by blast
qed

definition sample_writes :: state_maps where
  "sample_writes = sm_default\<lparr>sm_storage := [((1, 1), 8)], sm_nonces := [(7, 1)], sm_declared_contracts := [(5, True)]\<rparr>"

definition sample_versioned :: "(nat dict_state_reader, nat) versioned_state" where
  "sample_versioned = the (vst_apply_writes (vst_new (sample_dict 3)) 1 sample_writes [(5, 50)])"

theorem delete_writes_undoes_apply_writes_witness:
  "\<exists>vs2. vst_delete_writes sample_versioned 1 sample_writes [(5, 50)] = Some vs2 \<and>
     v_storage (vst_view dict_view 2 sample_versioned) (1, 1) = 8 \<and>
     v_storage (vst_view dict_view 2 vs2) (1, 1) = 3"
proof -
  let ?vs = "vst_new (sample_dict 3) :: (nat dict_state_reader, nat) versioned_state"
  have "vst_apply_writes ?vs 1 sample_writes [(5, 50)] \<noteq> None"
    by (simp add: vst_apply_writes_def sample_writes_def sm_default_def vst_new_def vs_read_def vs_write_def Let_def
      vs_default_def cell_latest_def)
  then have ap: "vst_apply_writes ?vs 1 sample_writes [(5, 50)] = Some sample_versioned"
    by (auto simp: sample_versioned_def)
  have empty: "version_empty ?vs 1" by (simp add: version_is_def vst_new_def sm_default_def)
  have ok: "sm_ok sample_writes" by (simp add: sm_ok_def sample_writes_def sm_default_def)
  from delete_writes_undoes_apply_writes[OF vst_new_inv empty ok _ ap, where view=dict_view and good="\<lambda>_. True"] obtain vs2 where
    vs2: "vst_delete_writes sample_versioned 1 sample_writes [(5, 50)] = Some vs2"
    "vst_view dict_view 2 vs2 = vst_view dict_view 2 ?vs" by auto
  moreover have "v_storage (vst_view dict_view 2 ?vs) (1, 1) = 3"
    by (simp add: vst_view_def Let_def vst_new_def numeral_2_eq_2 dict_view_def sample_dict_def unwrap_or_default_def)
  moreover have "v_storage (vst_view dict_view 2 sample_versioned) (1, 1) = 8"
    by (simp add: sample_versioned_def vst_apply_writes_def sample_writes_def sm_default_def vst_new_def vs_read_def
      vs_write_def Let_def vs_default_def cell_latest_def vst_view_def numeral_2_eq_2 version_def)
  ultimately show ?thesis by auto
qed

end
