(* ===== verification/Gas_Vector.thy ===== *)
theory Gas_Vector
  imports Mempool_Types
begin

text \<open>
  Gas, prices and fees: \<^verbatim>\<open>crates/starknet_api/src/execution_resources.rs\<close>, the gas prices of
  \<^verbatim>\<open>crates/starknet_api/src/block.rs\<close> and the fee and resource bounds of
  \<^verbatim>\<open>crates/starknet_api/src/transaction/fields.rs\<close>. A \<^verbatim>\<open>NonzeroGasPrice\<close> is a price that
  \<open>nonzero_gas_price_new\<close> accepts; the lemmas assume it of the prices of a block.
\<close>

section \<open>Fees\<close>

type_synonym gas_amount = u64
type_synonym fee = u128

definition price_saturating_mul :: "gas_price \<Rightarrow> gas_amount \<Rightarrow> fee" where
  "price_saturating_mul price amount = saturating_mul price (ucast amount)"

definition price_checked_mul :: "gas_price \<Rightarrow> gas_amount \<Rightarrow> fee option" where
  "price_checked_mul price amount = checked_mul price (ucast amount)"

definition nonzero_gas_price_new :: "gas_price \<Rightarrow> gas_price option" where
  "nonzero_gas_price_new price = (if price = 0 then None else Some price)"

definition fee_checked_div :: "fee \<Rightarrow> gas_price \<Rightarrow> gas_amount option" where
  "fee_checked_div fee price = u64_try_from (fee div price)"

text \<open>The outer \<open>option\<close> is the panic of \<^verbatim>\<open>expect\<close>.\<close>

definition fee_checked_div_ceil :: "fee \<Rightarrow> gas_price \<Rightarrow> gas_amount option option" where
  "fee_checked_div_ceil fee price =
     (case fee_checked_div fee price of
        None \<Rightarrow> Some None
      | Some value \<Rightarrow> do {
          product \<leftarrow> price_checked_mul price value;
          Some (Some (if product < fee then value + 1 else value)) })"

definition fee_saturating_div :: "fee \<Rightarrow> gas_price \<Rightarrow> gas_amount" where
  "fee_saturating_div fee price = (case fee_checked_div fee price of Some value \<Rightarrow> value | None \<Rightarrow> -1)"

section \<open>Gas vectors\<close>

record gas_vector =
  gv_l1_gas :: gas_amount
  gv_l1_data_gas :: gas_amount
  gv_l2_gas :: gas_amount

definition gv_zero :: gas_vector where
  "gv_zero = \<lparr>gv_l1_gas = 0, gv_l1_data_gas = 0, gv_l2_gas = 0\<rparr>"

definition from_l1_gas :: "gas_amount \<Rightarrow> gas_vector" where
  "from_l1_gas l1_gas = gv_zero\<lparr>gv_l1_gas := l1_gas\<rparr>"

definition from_l1_data_gas :: "gas_amount \<Rightarrow> gas_vector" where
  "from_l1_data_gas l1_data_gas = gv_zero\<lparr>gv_l1_data_gas := l1_data_gas\<rparr>"

definition from_l2_gas :: "gas_amount \<Rightarrow> gas_vector" where
  "from_l2_gas l2_gas = gv_zero\<lparr>gv_l2_gas := l2_gas\<rparr>"

definition gv_checked_add :: "gas_vector \<Rightarrow> gas_vector \<Rightarrow> gas_vector option" where
  "gv_checked_add self rhs = do {
     l1_gas \<leftarrow> checked_add (gv_l1_gas self) (gv_l1_gas rhs);
     l1_data_gas \<leftarrow> checked_add (gv_l1_data_gas self) (gv_l1_data_gas rhs);
     l2_gas \<leftarrow> checked_add (gv_l2_gas self) (gv_l2_gas rhs);
     Some \<lparr>gv_l1_gas = l1_gas, gv_l1_data_gas = l1_data_gas, gv_l2_gas = l2_gas\<rparr> }"

definition gv_checked_scalar_mul :: "gas_vector \<Rightarrow> u64 \<Rightarrow> gas_vector option" where
  "gv_checked_scalar_mul self factor = do {
     l1_gas \<leftarrow> checked_mul (gv_l1_gas self) factor;
     l1_data_gas \<leftarrow> checked_mul (gv_l1_data_gas self) factor;
     l2_gas \<leftarrow> checked_mul (gv_l2_gas self) factor;
     Some \<lparr>gv_l1_gas = l1_gas, gv_l1_data_gas = l1_data_gas, gv_l2_gas = l2_gas\<rparr> }"

record gas_price_vector =
  l1_gas_price :: gas_price
  l1_data_gas_price :: gas_price
  l2_gas_price :: gas_price

text \<open>The cost of the vector; an overflow is a panic.\<close>

fun add_costs :: "fee \<Rightarrow> (gas_amount \<times> gas_price) list \<Rightarrow> fee option" where
  "add_costs acc [] = Some acc"
| "add_costs acc ((gas, price) # rest) = do {
     cost \<leftarrow> price_checked_mul price gas;
     acc1 \<leftarrow> checked_add acc cost;
     add_costs acc1 rest }"

definition gv_cost :: "gas_vector \<Rightarrow> gas_price_vector \<Rightarrow> fee option" where
  "gv_cost self gas_prices = add_costs 0
     [(gv_l1_gas self, l1_gas_price gas_prices), (gv_l1_data_gas self, l1_data_gas_price gas_prices),
      (gv_l2_gas self, l2_gas_price gas_prices)]"

definition to_discounted_l1_gas :: "gas_vector \<Rightarrow> gas_price_vector \<Rightarrow> gas_amount option" where
  "to_discounted_l1_gas self gas_prices =
     (if 0 < gv_l2_gas self then None
      else do {
        l1_data_gas_fee \<leftarrow> price_checked_mul (l1_data_gas_price gas_prices) (gv_l1_data_gas self);
        div_ceil \<leftarrow> fee_checked_div_ceil l1_data_gas_fee (l1_gas_price gas_prices);
        l1_data_gas_in_l1_gas_units \<leftarrow> div_ceil;
        checked_add (gv_l1_gas self) l1_data_gas_in_l1_gas_units })"

datatype fee_type = Strk | Eth

record gas_prices =
  eth_gas_prices :: gas_price_vector
  strk_gas_prices :: gas_price_vector

fun gas_price_vector_of :: "gas_prices \<Rightarrow> fee_type \<Rightarrow> gas_price_vector" where
  "gas_price_vector_of prices Strk = strk_gas_prices prices"
| "gas_price_vector_of prices Eth = eth_gas_prices prices"

definition get_fee_by_gas_vector :: "gas_prices \<Rightarrow> gas_vector \<Rightarrow> fee_type \<Rightarrow> fee option" where
  "get_fee_by_gas_vector prices gas_vector fee_type = gv_cost gas_vector (gas_price_vector_of prices fee_type)"

section \<open>Resource bounds\<close>

datatype resource = L1Gas | L2Gas | L1DataGas

record resource_bounds =
  max_amount :: gas_amount
  max_price_per_unit :: gas_price

definition rb_is_zero :: "resource_bounds \<Rightarrow> bool" where
  "rb_is_zero b \<longleftrightarrow> max_amount b = 0 \<and> max_price_per_unit b = 0"

definition rb_default :: resource_bounds where
  "rb_default = \<lparr>max_amount = 0, max_price_per_unit = 0\<rparr>"

record all_resource_bounds =
  arb_l1_gas :: resource_bounds
  arb_l2_gas :: resource_bounds
  arb_l1_data_gas :: resource_bounds

fun get_bound :: "all_resource_bounds \<Rightarrow> resource \<Rightarrow> resource_bounds" where
  "get_bound b L1Gas = arb_l1_gas b"
| "get_bound b L2Gas = arb_l2_gas b"
| "get_bound b L1DataGas = arb_l1_data_gas b"

datatype valid_resource_bounds = L1GasBounds resource_bounds | AllResources all_resource_bounds

datatype gas_vector_computation_mode = All | NoL2Gas

fun get_l1_bounds :: "valid_resource_bounds \<Rightarrow> resource_bounds" where
  "get_l1_bounds (L1GasBounds l1_bounds) = l1_bounds"
| "get_l1_bounds (AllResources b) = arb_l1_gas b"

fun get_l2_bounds :: "valid_resource_bounds \<Rightarrow> resource_bounds" where
  "get_l2_bounds (L1GasBounds _) = rb_default"
| "get_l2_bounds (AllResources b) = arb_l2_gas b"

definition rb_max_fee :: "resource_bounds \<Rightarrow> fee" where
  "rb_max_fee b = price_saturating_mul (max_price_per_unit b) (max_amount b)"

fun max_possible_fee :: "valid_resource_bounds \<Rightarrow> fee" where
  "max_possible_fee (L1GasBounds l1_bounds) = rb_max_fee l1_bounds"
| "max_possible_fee (AllResources b) =
     saturating_add (saturating_add (rb_max_fee (arb_l1_gas b)) (rb_max_fee (arb_l2_gas b)))
       (rb_max_fee (arb_l1_data_gas b))"

fun get_gas_vector_computation_mode :: "valid_resource_bounds \<Rightarrow> gas_vector_computation_mode" where
  "get_gas_vector_computation_mode (AllResources _) = All"
| "get_gas_vector_computation_mode (L1GasBounds _) = NoL2Gas"

text \<open>The serialized form of the bounds is a map; L1 gas alone is distinguished by the other bounds being
  zero. The error is \<^verbatim>\<open>StarknetApiError\<close>.\<close>

definition vrb_to_mapping :: "valid_resource_bounds \<Rightarrow> resource \<rightharpoonup> resource_bounds" where
  "vrb_to_mapping v =
     (case v of
        L1GasBounds l1_gas \<Rightarrow> [L1Gas \<mapsto> l1_gas, L2Gas \<mapsto> rb_default]
      | AllResources b \<Rightarrow> [L1Gas \<mapsto> arb_l1_gas b, L2Gas \<mapsto> arb_l2_gas b, L1DataGas \<mapsto> arb_l1_data_gas b])"

datatype resource_mapping_error = InvalidResourceMappingInitializer "resource \<rightharpoonup> resource_bounds"

definition vrb_try_from :: "(resource \<rightharpoonup> resource_bounds) \<Rightarrow> resource_mapping_error + valid_resource_bounds" where
  "vrb_try_from m =
     (case (m L1Gas, m L2Gas) of
        (Some l1_bounds, Some l2_bounds) \<Rightarrow>
         (case m L1DataGas of
            Some data_bounds \<Rightarrow>
              Inr (AllResources \<lparr>arb_l1_gas = l1_bounds, arb_l2_gas = l2_bounds, arb_l1_data_gas = data_bounds\<rparr>)
          | None \<Rightarrow>
              if rb_is_zero l2_bounds then Inr (L1GasBounds l1_bounds) else Inl (InvalidResourceMappingInitializer m))
      | _ \<Rightarrow> Inl (InvalidResourceMappingInitializer m))"

section \<open>Hexadecimal amounts\<close>

text \<open>\<^verbatim>\<open>format!("0x{:x}", value)\<close>\<close>

definition hex_digit :: "nat \<Rightarrow> char" where
  "hex_digit d = ''0123456789abcdef'' ! d"

fun hex_digits :: "nat \<Rightarrow> string" where
  "hex_digits n = (if n < 16 then [hex_digit n] else hex_digits (n div 16) @ [hex_digit (n mod 16)])"

definition gas_amount_to_hex :: "'a::len word \<Rightarrow> string" where
  "gas_amount_to_hex value = ''0x'' @ hex_digits (unat value)"

text \<open>\<^verbatim>\<open>trim_start_matches("0x")\<close> and \<^verbatim>\<open>from_str_radix(_, 16)\<close> of the standard library.\<close>

fun trim_start_0x :: "string \<Rightarrow> string" where
  "trim_start_0x (c # d # rest) = (if c = CHR ''0'' \<and> d = CHR ''x'' then trim_start_0x rest else c # d # rest)"
| "trim_start_0x s = s"

datatype parse_int_error = Empty | InvalidDigit | PosOverflow

definition to_digit :: "char \<Rightarrow> nat option" where
  "to_digit c =
     map_of (zip ''0123456789abcdef'' [0..<16] @ zip ''ABCDEF'' [10..<16]) c"

fun parse_digits :: "nat \<Rightarrow> nat \<Rightarrow> string \<Rightarrow> parse_int_error + nat" where
  "parse_digits limit acc [] = Inr acc"
| "parse_digits limit acc (c # rest) =
     (case to_digit c of
        None \<Rightarrow> Inl InvalidDigit
      | Some d \<Rightarrow> if limit \<le> 16 * acc + d then Inl PosOverflow else parse_digits limit (16 * acc + d) rest)"

definition from_str_radix_16 :: "nat \<Rightarrow> string \<Rightarrow> parse_int_error + nat" where
  "from_str_radix_16 limit s =
     (case s of
        [] \<Rightarrow> Inl Empty
      | c # rest \<Rightarrow>
          if rest = [] \<and> (c = CHR ''+'' \<or> c = CHR ''-'') then Inl InvalidDigit
          else parse_digits limit 0 (if c = CHR ''+'' then rest else s))"

definition hex_to_gas_amount :: "string \<Rightarrow> parse_int_error + 'a::len word" where
  "hex_to_gas_amount s = map_sum id of_nat (from_str_radix_16 (2 ^ LENGTH('a)) (trim_start_0x s))"

section \<open>Lemmas\<close>

lemma price_checked_mul_iff: "price_checked_mul p a = Some f \<longleftrightarrow> unat f = unat p * unat a"
  by (simp add: price_checked_mul_def checked_mul_Some_iff)

definition cost_sum :: "(gas_amount \<times> gas_price) list \<Rightarrow> nat" where
  "cost_sum l = (\<Sum>(gas, price)\<leftarrow>l. unat price * unat gas)"

lemma add_costs_iff: "add_costs acc l = Some f \<longleftrightarrow> unat f = unat acc + cost_sum l"
proof (induction acc l rule: add_costs.induct)
  case (2 acc gas price rest)
  let ?c = "unat price * unat gas"
  show ?case
  proof (cases "unat acc + ?c < 2 ^ 128")
    case True
    then have "price_checked_mul price gas = Some (price * ucast gas)"
      by (simp add: price_checked_mul_def checked_mul_def)
    then obtain c where c: "price_checked_mul price gas = Some c" "unat c = ?c"
      by (simp add: price_checked_mul_iff)
    with True have "checked_add acc c = Some (acc + c)" by (simp add: checked_add_def)
    then obtain s1 where s1: "checked_add acc c = Some s1" "unat s1 = unat acc + ?c"
      using c(2) by (simp add: checked_add_Some_iff)
    with c 2 show ?thesis by (simp add: cost_sum_def ac_simps)
  next
    case False
    have "checked_add acc c = None" if "price_checked_mul price gas = Some c" for c
      using that False by (simp add: price_checked_mul_iff checked_None_iff)
    then have "add_costs acc ((gas, price) # rest) = None"
      by (cases "price_checked_mul price gas") simp_all
    moreover have "unat f < 2 ^ 128" by (rule order_less_le_trans[OF unsigned_less]) simp
    ultimately show ?thesis using False by (simp add: cost_sum_def)
  qed
qed (auto simp: cost_sum_def word_unat_eq_iff)

lemma fee_checked_div_iff: "fee_checked_div fee price = Some a \<longleftrightarrow> unat a = unat fee div unat price"
proof -
  have "unat fee div unat price < 2 ^ 64 \<Longrightarrow> unat (ucast (fee div price) :: u64) = unat fee div unat price"
    using unat_ucast_u64[of "fee div price"] by (simp add: unat_div)
  moreover have "unat a < 2 ^ 64" by (rule order_less_le_trans[OF unsigned_less]) simp
  ultimately show ?thesis
    by (auto simp: fee_checked_div_def u64_try_from_eq unat_div word_unat_eq_iff[of _ a])
qed

text \<open>Rounding up: exact but for a quotient of \<^verbatim>\<open>u64::MAX\<close> and a remainder, which wraps to zero.\<close>

definition div_ceil_wrapping :: "nat \<Rightarrow> nat \<Rightarrow> nat" where
  "div_ceil_wrapping x y = (if y dvd x then x div y else (x div y + 1) mod 2 ^ 64)"

lemma fee_checked_div_ceil_eq:
  assumes "price \<noteq> 0"
  shows "map_option (map_option unat) (fee_checked_div_ceil fee price) =
    Some (if 2 ^ 64 \<le> unat fee div unat price then None else Some (div_ceil_wrapping (unat fee) (unat price)))"
proof (cases "fee_checked_div fee price")
  case None
  have "2 ^ 64 \<le> unat fee div unat price"
    using None by (auto simp: fee_checked_div_def u64_try_from_eq unat_div split: if_splits)
  with None show ?thesis by (simp add: fee_checked_div_ceil_def)
next
  case (Some q)
  then have q: "unat q = unat fee div unat price" by (simp add: fee_checked_div_iff)
  have small: "unat q < 2 ^ 64" by (rule order_less_le_trans[OF unsigned_less]) simp
  have le: "unat price * unat q \<le> unat fee" by (simp add: q)
  moreover have "unat fee < 2 ^ 128" by (rule order_less_le_trans[OF unsigned_less]) simp
  ultimately have "price_checked_mul price q = Some (price * ucast q)"
    by (simp add: price_checked_mul_def checked_mul_def)
  then obtain c where c: "price_checked_mul price q = Some c" "unat c = unat price * unat q"
    by (simp add: price_checked_mul_iff)
  have "unat price * (unat fee div unat price) = unat fee \<longleftrightarrow> unat price dvd unat fee"
    by (metis dvd_mult_div_cancel dvd_triv_left)
  then have "c < fee \<longleftrightarrow> \<not> unat price dvd unat fee"
    using le c(2) q by (auto simp: word_less_nat_alt less_le)
  moreover have "unat (q + 1) = (unat q + 1) mod 2 ^ 64" by (simp add: unat_word_ariths)
  ultimately show ?thesis
    using Some c(1) q small by (simp add: fee_checked_div_ceil_def div_ceil_wrapping_def)
qed

text \<open>Digits.\<close>

lemma to_digit_hex_digit: "d < 16 \<Longrightarrow> to_digit (hex_digit d) = Some d \<and> hex_digit d \<noteq> CHR ''x'' \<and> hex_digit d \<noteq> CHR ''+'' \<and>
    hex_digit d \<noteq> CHR ''-''"
proof -
  assume "d < 16"
  then have "d \<in> set [0..<16]" by simp
  moreover have "\<forall>d \<in> set [0..<16]. to_digit (hex_digit d) = Some d \<and> hex_digit d \<noteq> CHR ''x'' \<and> hex_digit d \<noteq> CHR ''+'' \<and>
      hex_digit d \<noteq> CHR ''-''"
    by code_simp
  ultimately show ?thesis by blast
qed

declare hex_digits.simps [simp del]

lemma hex_digits_chars: "c \<in> set (hex_digits n) \<Longrightarrow> c \<noteq> CHR ''x'' \<and> c \<noteq> CHR ''+'' \<and> c \<noteq> CHR ''-''"
proof (induction n rule: hex_digits.induct)
  case (1 n)
  then show ?case
    using to_digit_hex_digit[of "n mod 16"] to_digit_hex_digit[of n] hex_digits.simps[of n] by (auto split: if_splits)
qed

lemma hex_digits_nonempty [simp]: "hex_digits n \<noteq> []"
  by (subst hex_digits.simps) simp

lemma parse_digits_append:
  "parse_digits limit acc (s @ t) =
     (case parse_digits limit acc s of Inl e \<Rightarrow> Inl e | Inr acc1 \<Rightarrow> parse_digits limit acc1 t)"
  by (induction limit acc s rule: parse_digits.induct) (auto split: option.splits)

lemma parse_hex_digits: "n < limit \<Longrightarrow> parse_digits limit 0 (hex_digits n) = Inr n"
proof (induction n rule: hex_digits.induct)
  case (1 n)
  then show ?case
    using to_digit_hex_digit[of "n mod 16"] to_digit_hex_digit[of n] hex_digits.simps[of n]
    by (auto simp: parse_digits_append split: if_splits)
qed

lemma trim_hex_digits: "trim_start_0x (''0x'' @ hex_digits n) = hex_digits n"
proof -
  have "trim_start_0x s = s" if "CHR ''x'' \<notin> set s" for s
    using that by (induction s rule: trim_start_0x.induct) auto
  with hex_digits_chars[of "CHR ''x''" n] show ?thesis by auto
qed

text \<open>The discounted gas in terms of numbers.\<close>

lemma discounted_l1_gas_eq:
  assumes "l1_gas_price p \<noteq> 0" "gv_l2_gas g = 0"
  shows "map_option unat (to_discounted_l1_gas g p) =
    (let d = unat (l1_data_gas_price p) * unat (gv_l1_data_gas g);
         units = div_ceil_wrapping d (unat (l1_gas_price p))
     in if 2 ^ 128 \<le> d \<or> 2 ^ 64 \<le> d div unat (l1_gas_price p) \<or> 2 ^ 64 \<le> unat (gv_l1_gas g) + units then None
        else Some (unat (gv_l1_gas g) + units))"
proof (cases "price_checked_mul (l1_data_gas_price p) (gv_l1_data_gas g)")
  case None
  then have "2 ^ 128 \<le> unat (l1_data_gas_price p) * unat (gv_l1_data_gas g)"
    by (simp add: price_checked_mul_def checked_None_iff)
  with None assms show ?thesis by (simp add: to_discounted_l1_gas_def)
next
  case (Some fee)
  let ?d = "unat (l1_data_gas_price p) * unat (gv_l1_data_gas g)"
  have fee: "unat fee = ?d" using Some by (simp add: price_checked_mul_iff)
  have d: "?d < 2 ^ 128" unfolding fee[symmetric] by (rule order_less_le_trans[OF unsigned_less]) simp
  note ceil = fee_checked_div_ceil_eq[OF assms(1), of fee, unfolded fee]
  have add: "map_option unat (checked_add a b) = (if 2 ^ 64 \<le> unat a + unat b then None else Some (unat a + unat b))"
    for a b :: u64
    by (cases "checked_add a b") (auto simp: checked_None_iff checked_add_Some_iff intro: order_less_le_trans[OF unat_u64])
  show ?thesis
  proof (cases "2 ^ 64 \<le> ?d div unat (l1_gas_price p)")
    case True
    with ceil Some assms(2) show ?thesis by (simp add: to_discounted_l1_gas_def)
  next
    case False
    with ceil obtain u where u: "fee_checked_div_ceil fee (l1_gas_price p) = Some (Some u)"
      "unat u = div_ceil_wrapping ?d (unat (l1_gas_price p))" by auto
    show ?thesis
      using Some assms(2) u(1) False d add[of "gv_l1_gas g" u] unfolding u(2)
      by (simp add: to_discounted_l1_gas_def Let_def)
  qed
qed

lemma gv_cost_Some:
  "gv_cost g p = Some f \<Longrightarrow> unat f = unat (l1_gas_price p) * unat (gv_l1_gas g) +
     unat (l1_data_gas_price p) * unat (gv_l1_data_gas g) + unat (l2_gas_price p) * unat (gv_l2_gas g)"
  unfolding gv_cost_def add_costs_iff by (simp add: cost_sum_def)

lemma unat_rb_max_fee: "unat (rb_max_fee b) = min (unat (max_price_per_unit b) * unat (max_amount b)) (2 ^ 128 - 1)"
  by (simp add: rb_max_fee_def price_saturating_mul_def unat_saturating)

lemma unat_max_possible_fee:
  "unat (max_possible_fee (AllResources b)) =
     min (unat (max_price_per_unit (arb_l1_gas b)) * unat (max_amount (arb_l1_gas b)) +
       unat (max_price_per_unit (arb_l2_gas b)) * unat (max_amount (arb_l2_gas b)) +
       unat (max_price_per_unit (arb_l1_data_gas b)) * unat (max_amount (arb_l1_data_gas b))) (2 ^ 128 - 1)"
  by (simp add: unat_saturating unat_rb_max_fee min_def)

section \<open>Properties\<close>

text \<open>The cost of a gas vector is exact: \<^verbatim>\<open>cost\<close> returns a fee exactly when the sum over the three kinds of
  gas of amount times price fits 128 bits, and then returns this sum; otherwise it panics.\<close>

theorem gas_vector_cost_is_exact:
  "map_option unat (gv_cost g p) =
     (let c = unat (l1_gas_price p) * unat (gv_l1_gas g) + unat (l1_data_gas_price p) * unat (gv_l1_data_gas g) +
        unat (l2_gas_price p) * unat (gv_l2_gas g)
      in if c < 2 ^ 128 then Some c else None)"
proof -
  let ?l = "[(gv_l1_gas g, l1_gas_price p), (gv_l1_data_gas g, l1_data_gas_price p), (gv_l2_gas g, l2_gas_price p)]"
  have eq: "gv_cost g p = Some f \<longleftrightarrow> unat f = cost_sum ?l" for f unfolding gv_cost_def add_costs_iff by simp
  have "map_option unat (gv_cost g p) = (if cost_sum ?l < 2 ^ 128 then Some (cost_sum ?l) else None)"
  proof (cases "cost_sum ?l < 2 ^ 128")
    case True
    then have "unat (of_nat (cost_sum ?l) :: fee) = cost_sum ?l" by (simp add: unsigned_of_nat take_bit_nat_eq_self)
    then show ?thesis using True eq[of "of_nat (cost_sum ?l)"] by simp
  next
    case False
    have "gv_cost g p = None"
    proof (rule ccontr)
      assume "gv_cost g p \<noteq> None"
      then obtain f where "gv_cost g p = Some f" by auto
      then have "unat f = cost_sum ?l" by (simp only: eq)
      moreover have "unat f < 2 ^ 128" by (rule order_less_le_trans[OF unsigned_less]) simp
      ultimately show False using False by simp
    qed
    with False show ?thesis by simp
  qed
  moreover have "cost_sum ?l = unat (l1_gas_price p) * unat (gv_l1_gas g) + unat (l1_data_gas_price p) * unat (gv_l1_data_gas g) +
      unat (l2_gas_price p) * unat (gv_l2_gas g)" by (simp add: cost_sum_def)
  ultimately show ?thesis by (simp only: Let_def)
qed

text \<open>C29: The discounted L1 gas of a vector without L2 gas is its L1 gas plus the price of its data gas in units
  of L1 gas, rounded up, whenever these amounts fit; too large ones panic. The one exception is a quotient of
  exactly \<^verbatim>\<open>u64::MAX\<close> with a remainder: rounding it up wraps around, and the data gas counts as nothing.\<close>

theorem discounted_l1_gas_rounds_up:
  assumes "l1_gas_price p \<noteq> 0" "gv_l2_gas g = 0"
  shows "map_option unat (to_discounted_l1_gas g p) =
    (let d = unat (l1_data_gas_price p) * unat (gv_l1_data_gas g);
         units = div_ceil_wrapping d (unat (l1_gas_price p))
     in if 2 ^ 128 \<le> d \<or> 2 ^ 64 \<le> d div unat (l1_gas_price p) \<or> 2 ^ 64 \<le> unat (gv_l1_gas g) + units then None
        else Some (unat (gv_l1_gas g) + units))"
  using assms by (rule discounted_l1_gas_eq)

definition sample_prices :: gas_price_vector where
  "sample_prices = \<lparr>l1_gas_price = 2, l1_data_gas_price = 31, l2_gas_price = 1\<rparr>"

text \<open>Five units of data gas at price 31 count as 78 units of L1 gas at price 2; 1190112520884487201 units count
  as none.\<close>

theorem discounted_l1_gas_rounds_up_witness:
  "to_discounted_l1_gas \<lparr>gv_l1_gas = 7, gv_l1_data_gas = 5, gv_l2_gas = 0\<rparr> sample_prices = Some 85 \<and>
   to_discounted_l1_gas \<lparr>gv_l1_gas = 7, gv_l1_data_gas = 1190112520884487201, gv_l2_gas = 0\<rparr> sample_prices = Some 7"
proof -
  have "map_option unat (to_discounted_l1_gas \<lparr>gv_l1_gas = 7, gv_l1_data_gas = 5, gv_l2_gas = 0\<rparr> sample_prices) = Some 85"
    by (subst discounted_l1_gas_rounds_up) (simp_all add: sample_prices_def div_ceil_wrapping_def)
  moreover have "map_option unat (to_discounted_l1_gas
      \<lparr>gv_l1_gas = 7, gv_l1_data_gas = 1190112520884487201, gv_l2_gas = 0\<rparr> sample_prices) = Some 7"
    by (subst discounted_l1_gas_rounds_up) (simp_all add: sample_prices_def div_ceil_wrapping_def)
  ultimately show ?thesis by (auto simp: word_unat_eq_iff)
qed

text \<open>Resource bounds survive serialization, and amounts survive their hexadecimal form: the bounds read back
  from the map that represents them are the same, and an amount of any width read back from its hexadecimal string is the
  same.\<close>

theorem resource_bounds_round_trip:
  "vrb_try_from (vrb_to_mapping v) = Inr v \<and>
   hex_to_gas_amount (gas_amount_to_hex (x :: 'a::len word)) = Inr x"
proof
  show "vrb_try_from (vrb_to_mapping v) = Inr v"
    by (cases v) (auto simp: vrb_try_from_def vrb_to_mapping_def rb_is_zero_def rb_default_def)
  have "unat x < 2 ^ LENGTH('a)" by (rule unsigned_less)
  then have "from_str_radix_16 (2 ^ LENGTH('a)) (hex_digits (unat x)) = Inr (unat x)"
    using hex_digits_chars[of "hd (hex_digits (unat x))" "unat x"] parse_hex_digits[of "unat x" "2 ^ LENGTH('a)"]
    by (auto simp: from_str_radix_16_def neq_Nil_conv split: list.splits)
  then show "hex_to_gas_amount (gas_amount_to_hex x) = Inr x"
    by (simp add: hex_to_gas_amount_def gas_amount_to_hex_def trim_hex_digits[simplified])
qed

end
