(* ===== verification/Call_Info.thy ===== *)
theory Call_Info
  imports Cached_State Gas_Vector "HOL-Library.Multiset"
begin

text \<open>
  \<^verbatim>\<open>crates/blockifier/src/execution/call_info.rs\<close>: the tree of calls that a transaction made and its
  summary. Of a \<^verbatim>\<open>CallEntryPoint\<close> and a \<^verbatim>\<open>CallExecution\<close> the fields that this file reads are
  there. \<^verbatim>\<open>ExecutionResources\<close> is a struct of the virtual machine's crate; its fields are known from
  the literals in the code, its addition is the parameter \<open>vm_add\<close>.
\<close>

section \<open>Resources of the virtual machine\<close>

datatype builtin_name =
    output_builtin | range_check | pedersen | ecdsa | keccak | bitwise | ec_op | poseidon | segment_arena
  | range_check96 | add_mod | mul_mod

record execution_resources =
  vm_n_steps :: usize
  vm_n_memory_holes :: usize
  vm_builtins :: "(builtin_name \<times> usize) list"

definition vm_default :: execution_resources where
  "vm_default = \<lparr>vm_n_steps = 0, vm_n_memory_holes = 0, vm_builtins = []\<rparr>"

type_synonym vm_add = "execution_resources \<Rightarrow> execution_resources \<Rightarrow> execution_resources"

section \<open>Calls\<close>

record event_content =
  ev_keys :: "felt list"
  ev_data :: "felt list"

record charged_resources =
  ch_vm_resources :: execution_resources
  ch_gas_for_fee :: gas_amount

definition charged_default :: charged_resources where
  "charged_default = \<lparr>ch_vm_resources = vm_default, ch_gas_for_fee = 0\<rparr>"

definition charged_from_execution_resources :: "execution_resources \<Rightarrow> charged_resources" where
  "charged_from_execution_resources resources = charged_default\<lparr>ch_vm_resources := resources\<rparr>"

definition charged_from_gas :: "gas_amount \<Rightarrow> charged_resources" where
  "charged_from_gas gas_for_fee = charged_default\<lparr>ch_gas_for_fee := gas_for_fee\<rparr>"

definition charged_add :: "vm_add \<Rightarrow> charged_resources \<Rightarrow> charged_resources \<Rightarrow> charged_resources option" where
  "charged_add vm_add self other = do {
     gas_for_fee \<leftarrow> checked_add (ch_gas_for_fee self) (ch_gas_for_fee other);
     Some \<lparr>ch_vm_resources = vm_add (ch_vm_resources self) (ch_vm_resources other), ch_gas_for_fee = gas_for_fee\<rparr> }"

datatype call_info = CallInfo
  (ci_class_hash: "class_hash option")
  (ci_storage_address: contract_address)
  (ci_events: "event_content list")
  (ci_l2_to_l1_payloads: "felt list list")
  (ci_inner_calls: "call_info list")
  (ci_charged_resources: charged_resources)
  (ci_storage_read_values: "felt list")
  (ci_accessed_storage_keys: "storage_key set")

section \<open>Iterating over the calls\<close>

text \<open>The iterator pops a call from the end of its stack and pushes the inner calls in reverse.\<close>

function call_info_iter :: "call_info list \<Rightarrow> call_info list" where
  "call_info_iter stack =
     (if stack = [] then []
      else last stack # call_info_iter (butlast stack @ rev (ci_inner_calls (last stack))))"
  by pat_completeness auto

lemma size_inner_calls: "size_list size (ci_inner_calls c) < size c"
  by (cases c) simp

lemma size_list_rev: "size_list f (rev xs) = size_list f xs"
  by (induction xs) simp_all

termination call_info_iter
proof (relation "measure (size_list size)")
  fix stack :: "call_info list" assume "stack \<noteq> []"
  then obtain xs c where stack: "stack = xs @ [c]" by (metis append_butlast_last_id)
  show "(butlast stack @ rev (ci_inner_calls (last stack)), stack) \<in> measure (size_list size)"
    using size_inner_calls[of c] by (simp add: stack size_list_append size_list_rev)
qed simp

definition ci_iter :: "call_info \<Rightarrow> call_info list" where
  "ci_iter call_info = call_info_iter [call_info]"

section \<open>Summaries\<close>

record event_summary =
  n_events :: usize
  total_event_keys :: u64
  total_event_data_size :: u64

definition event_summary_default :: event_summary where
  "event_summary_default = \<lparr>n_events = 0, total_event_keys = 0, total_event_data_size = 0\<rparr>"

definition event_summary_add :: "event_summary \<Rightarrow> event_summary \<Rightarrow> event_summary" where
  "event_summary_add a b = \<lparr>n_events = n_events a + n_events b,
     total_event_keys = total_event_keys a + total_event_keys b,
     total_event_data_size = total_event_data_size a + total_event_data_size b\<rparr>"

fun count_events :: "event_summary \<Rightarrow> event_content list \<Rightarrow> event_summary" where
  "count_events s [] = s"
| "count_events s (event # events) =
     count_events (s\<lparr>total_event_data_size := total_event_data_size s + of_nat (length (ev_data event)),
       total_event_keys := total_event_keys s + of_nat (length (ev_keys event))\<rparr>) events"

definition specific_event_summary :: "call_info \<Rightarrow> event_summary" where
  "specific_event_summary c =
     count_events (event_summary_default\<lparr>n_events := of_nat (length (ci_events c))\<rparr>) (ci_events c)"

record execution_summary =
  es_charged_resources :: charged_resources
  es_executed_class_hashes :: "class_hash set"
  es_visited_storage_entries :: "storage_entry set"
  es_l2_to_l1_payload_lengths :: "usize list"
  es_event_summary :: event_summary

definition execution_summary_default :: execution_summary where
  "execution_summary_default = \<lparr>es_charged_resources = charged_default, es_executed_class_hashes = {},
     es_visited_storage_entries = {}, es_l2_to_l1_payload_lengths = [], es_event_summary = event_summary_default\<rparr>"

text \<open>The loop of \<^verbatim>\<open>summarize\<close> over the calls; a call without a class hash is a panic.\<close>

fun summarize_calls :: "bool \<Rightarrow> execution_summary \<Rightarrow> call_info list \<Rightarrow> execution_summary option" where
  "summarize_calls ignore_inner_event_resources s [] = Some s"
| "summarize_calls ignore_inner_event_resources s (c # cs) = do {
     class_hash \<leftarrow> ci_class_hash c;
     summarize_calls ignore_inner_event_resources (s\<lparr>
       es_executed_class_hashes := insert class_hash (es_executed_class_hashes s),
       es_visited_storage_entries :=
         es_visited_storage_entries s \<union> (\<lambda>key. (ci_storage_address c, key)) ` ci_accessed_storage_keys c,
       es_l2_to_l1_payload_lengths :=
         es_l2_to_l1_payload_lengths s @ map (\<lambda>payload. of_nat (length payload)) (ci_l2_to_l1_payloads c),
       es_event_summary :=
         (if ignore_inner_event_resources then es_event_summary s
          else event_summary_add (es_event_summary s) (specific_event_summary c))\<rparr>) cs }"

definition ci_summarize :: "bool \<Rightarrow> call_info \<Rightarrow> execution_summary option" where
  "ci_summarize ignore_inner_event_resources c = do {
     s \<leftarrow> summarize_calls ignore_inner_event_resources execution_summary_default (ci_iter c);
     Some (s\<lparr>es_charged_resources := ci_charged_resources c,
       es_event_summary := (if ignore_inner_event_resources then specific_event_summary c else es_event_summary s)\<rparr>) }"

definition execution_summary_add ::
    "vm_add \<Rightarrow> execution_summary \<Rightarrow> execution_summary \<Rightarrow> execution_summary option" where
  "execution_summary_add vm_add self other = do {
     charged_resources \<leftarrow> charged_add vm_add (es_charged_resources self) (es_charged_resources other);
     Some \<lparr>es_charged_resources = charged_resources,
       es_executed_class_hashes = es_executed_class_hashes self \<union> es_executed_class_hashes other,
       es_visited_storage_entries = es_visited_storage_entries self \<union> es_visited_storage_entries other,
       es_l2_to_l1_payload_lengths = es_l2_to_l1_payload_lengths self @ es_l2_to_l1_payload_lengths other,
       es_event_summary = event_summary_add (es_event_summary self) (es_event_summary other)\<rparr> }"

fun summarize_sum ::
    "vm_add \<Rightarrow> bool \<Rightarrow> execution_summary \<Rightarrow> call_info list \<Rightarrow> execution_summary option" where
  "summarize_sum vm_add ignore acc [] = Some acc"
| "summarize_sum vm_add ignore acc (c # cs) = do {
     x \<leftarrow> ci_summarize ignore c;
     acc1 \<leftarrow> execution_summary_add vm_add acc x;
     summarize_sum vm_add ignore acc1 cs }"

definition summarize_many :: "vm_add \<Rightarrow> bool \<Rightarrow> call_info list \<Rightarrow> execution_summary option" where
  "summarize_many vm_add ignore_inner_event_resources call_infos =
     summarize_sum vm_add ignore_inner_event_resources execution_summary_default call_infos"

fun summarize_charged_resources :: "vm_add \<Rightarrow> charged_resources \<Rightarrow> call_info list \<Rightarrow> charged_resources option" where
  "summarize_charged_resources vm_add acc [] = Some acc"
| "summarize_charged_resources vm_add acc (c # cs) = do {
     acc1 \<leftarrow> charged_add vm_add acc (ci_charged_resources c);
     summarize_charged_resources vm_add acc1 cs }"

section \<open>The iterator visits the calls in preorder\<close>

primrec preorder :: "call_info \<Rightarrow> call_info list" where
  "preorder (CallInfo h a e m inner r v k) = CallInfo h a e m inner r v k # concat (map preorder inner)"

declare call_info_iter.simps [simp del]

lemma call_info_iter_preorder: "call_info_iter stack = concat (map preorder (rev stack))"
proof (induction stack rule: call_info_iter.induct)
  case (1 stack)
  show ?case
  proof (cases "stack = []")
    case False
    then obtain xs c where stack: "stack = xs @ [c]" by (metis append_butlast_last_id)
    have "preorder c = c # concat (map preorder (ci_inner_calls c))" by (cases c) simp
    with 1 False show ?thesis by (subst call_info_iter.simps) (simp add: stack)
  qed (simp add: call_info_iter.simps)
qed

lemma ci_iter_preorder: "ci_iter c = preorder c"
  by (simp add: ci_iter_def call_info_iter_preorder)

text \<open>What the loop collects.\<close>

lemma summarize_calls_spec:
  "summarize_calls ignore s cs =
     (if \<forall>c \<in> set cs. ci_class_hash c \<noteq> None then Some (s\<lparr>
        es_executed_class_hashes := es_executed_class_hashes s \<union> (\<lambda>c. the (ci_class_hash c)) ` set cs,
        es_visited_storage_entries := es_visited_storage_entries s \<union>
          (\<Union>c \<in> set cs. {ci_storage_address c} \<times> ci_accessed_storage_keys c),
        es_l2_to_l1_payload_lengths := es_l2_to_l1_payload_lengths s @
          concat (map (\<lambda>c. map (\<lambda>payload. of_nat (length payload)) (ci_l2_to_l1_payloads c)) cs),
        es_event_summary := (if ignore then es_event_summary s
          else foldl (\<lambda>a c. event_summary_add a (specific_event_summary c)) (es_event_summary s) cs)\<rparr>)
      else None)"
proof (induction cs arbitrary: s)
  case (Cons c cs)
  have keys: "(\<lambda>key. (ci_storage_address c, key)) ` ci_accessed_storage_keys c =
      {ci_storage_address c} \<times> ci_accessed_storage_keys c" by auto
  show ?case
    by (cases "ci_class_hash c") (simp_all add: Cons.IH keys Un_assoc)
qed simp

section \<open>Properties\<close>

text \<open>Iterating over the call info of a transaction terminates and visits every call of the tree exactly once,
  a call before the calls it made and these in order: the stack of the iterator gives the preorder of the
  tree.\<close>

theorem call_info_iter_is_preorder: "ci_iter c = preorder c"
  by (rule ci_iter_preorder)

text \<open>C30: A summary is complete: it does not panic exactly when every call of the tree has a class hash, and then
  holds all class hashes, all storage entries that any call accessed, the payload lengths of all messages in
  execution order, and the resources charged for the outermost call (which include those of the inner ones).\<close>

theorem summary_is_complete:
  "ci_summarize ignore c =
     (if list_all (\<lambda>d. ci_class_hash d \<noteq> None) (preorder c) then Some \<lparr>
        es_charged_resources = ci_charged_resources c,
        es_executed_class_hashes = (\<lambda>d. the (ci_class_hash d)) ` set (preorder c),
        es_visited_storage_entries = (\<Union>d \<in> set (preorder c). {ci_storage_address d} \<times> ci_accessed_storage_keys d),
        es_l2_to_l1_payload_lengths =
          concat (map (\<lambda>d. map (\<lambda>payload. of_nat (length payload)) (ci_l2_to_l1_payloads d)) (preorder c)),
        es_event_summary = (if ignore then specific_event_summary c
          else foldl (\<lambda>a d. event_summary_add a (specific_event_summary d)) event_summary_default (preorder c))\<rparr>
      else None)"
  by (auto simp: ci_summarize_def summarize_calls_spec ci_iter_preorder execution_summary_default_def
    list_all_iff)

end
