(* ===== verification/Resource_Costs.thy ===== *)
theory Resource_Costs
  imports Call_Info
begin

text \<open>
  From the resources that a transaction used to gas: \<^verbatim>\<open>crates/blockifier/src/fee\<close>
  (\<^verbatim>\<open>eth_gas_constants.rs\<close>, \<^verbatim>\<open>gas_usage.rs\<close>, \<^verbatim>\<open>resources.rs\<close>, and
  \<^verbatim>\<open>get_vm_resources_cost\<close> of \<^verbatim>\<open>fee_utils.rs\<close>), with the part of
  \<^verbatim>\<open>versioned_constants.rs\<close> that they use.

  Resource costs are \<^verbatim>\<open>num_rational\<close> ratios and resources are multiplied by code of the virtual
  machine's crate: the operations of both are parameters (\<open>ratio_ops\<close>, \<open>vm_ops\<close>). A panic is \<open>None\<close>.
\<close>

section \<open>Parameters\<close>

record 'q ratio_ops =
  ratio_new :: "u64 \<Rightarrow> u64 \<Rightarrow> 'q"
  ratio_mul :: "'q \<Rightarrow> 'q \<Rightarrow> 'q"
  ratio_mul_int :: "'q \<Rightarrow> u64 \<Rightarrow> 'q"
  ratio_add_int :: "'q \<Rightarrow> u64 \<Rightarrow> 'q"
  ratio_inv :: "'q \<Rightarrow> 'q"
  ratio_ceil :: "'q \<Rightarrow> u64"
  ratio_to_integer :: "'q \<Rightarrow> u64"

record vm_ops =
  vm_plus :: vm_add
  vm_times :: "execution_resources \<Rightarrow> usize \<Rightarrow> execution_resources"
  vm_filter_unused_builtins :: "execution_resources \<Rightarrow> execution_resources"

section \<open>Constants\<close>

definition GAS_PER_MEMORY_ZERO_BYTE :: usize where
  "GAS_PER_MEMORY_ZERO_BYTE = 4"

definition GAS_PER_MEMORY_BYTE :: usize where
  "GAS_PER_MEMORY_BYTE = 16"

definition WORD_WIDTH :: usize where
  "WORD_WIDTH = 32"

definition GAS_PER_MEMORY_WORD :: usize where
  "GAS_PER_MEMORY_WORD = GAS_PER_MEMORY_BYTE * WORD_WIDTH"

definition FIELD_ELEMENTS_PER_BLOB :: usize where
  "FIELD_ELEMENTS_PER_BLOB = 2 ^ 12"

definition DATA_GAS_PER_BLOB :: usize where
  "DATA_GAS_PER_BLOB = 2 ^ 17"

definition DATA_GAS_PER_FIELD_ELEMENT :: usize where
  "DATA_GAS_PER_FIELD_ELEMENT = DATA_GAS_PER_BLOB div FIELD_ELEMENTS_PER_BLOB"

definition GAS_PER_ZERO_TO_NONZERO_STORAGE_SET :: usize where
  "GAS_PER_ZERO_TO_NONZERO_STORAGE_SET = 20000"

definition GAS_PER_COLD_STORAGE_ACCESS :: usize where
  "GAS_PER_COLD_STORAGE_ACCESS = 2100"

definition GAS_PER_NONZERO_TO_INT_STORAGE_SET :: usize where
  "GAS_PER_NONZERO_TO_INT_STORAGE_SET = 2900"

definition GAS_PER_COUNTER_DECREASE :: usize where
  "GAS_PER_COUNTER_DECREASE = GAS_PER_COLD_STORAGE_ACCESS + GAS_PER_NONZERO_TO_INT_STORAGE_SET"

definition GAS_PER_LOG :: usize where
  "GAS_PER_LOG = 375"

definition GAS_PER_LOG_TOPIC :: usize where
  "GAS_PER_LOG_TOPIC = 375"

definition GAS_PER_LOG_DATA_BYTE :: usize where
  "GAS_PER_LOG_DATA_BYTE = 8"

definition GAS_PER_LOG_DATA_WORD :: usize where
  "GAS_PER_LOG_DATA_WORD = GAS_PER_LOG_DATA_BYTE * WORD_WIDTH"

definition SHARP_ADDITIONAL_GAS_PER_MEMORY_WORD :: usize where
  "SHARP_ADDITIONAL_GAS_PER_MEMORY_WORD = 100"

definition SHARP_GAS_PER_MEMORY_WORD :: usize where
  "SHARP_GAS_PER_MEMORY_WORD = GAS_PER_MEMORY_WORD + SHARP_ADDITIONAL_GAS_PER_MEMORY_WORD"

definition DISCOUNT_PER_DA_WORD :: usize where
  "DISCOUNT_PER_DA_WORD = (SHARP_GAS_PER_MEMORY_WORD * 10) div 100"

definition SHARP_GAS_PER_DA_WORD :: usize where
  "SHARP_GAS_PER_DA_WORD = SHARP_GAS_PER_MEMORY_WORD - DISCOUNT_PER_DA_WORD"

definition L1_TO_L2_MSG_HEADER_SIZE :: usize where
  "L1_TO_L2_MSG_HEADER_SIZE = 5"

definition L2_TO_L1_MSG_HEADER_SIZE :: usize where
  "L2_TO_L1_MSG_HEADER_SIZE = 3"

definition CLASS_UPDATE_SIZE :: usize where
  "CLASS_UPDATE_SIZE = 1"

definition N_STEPS_PER_SEGMENT_ARENA_BUILTIN :: usize where
  "N_STEPS_PER_SEGMENT_ARENA_BUILTIN = 10"

definition N_DEFAULT_TOPICS :: usize where
  "N_DEFAULT_TOPICS = 1"

definition LOG_MSG_TO_L1_N_TOPICS :: usize where
  "LOG_MSG_TO_L1_N_TOPICS = 2"

definition CONSUMED_MSG_TO_L2_N_TOPICS :: usize where
  "CONSUMED_MSG_TO_L2_N_TOPICS = 3"

definition LOG_MSG_TO_L1_ENCODED_DATA_SIZE :: usize where
  "LOG_MSG_TO_L1_ENCODED_DATA_SIZE = (L2_TO_L1_MSG_HEADER_SIZE + 1) - LOG_MSG_TO_L1_N_TOPICS"

definition CONSUMED_MSG_TO_L2_ENCODED_DATA_SIZE :: usize where
  "CONSUMED_MSG_TO_L2_ENCODED_DATA_SIZE = (L1_TO_L2_MSG_HEADER_SIZE + 1) - CONSUMED_MSG_TO_L2_N_TOPICS"


lemmas gas_constant_defs = GAS_PER_MEMORY_ZERO_BYTE_def GAS_PER_MEMORY_BYTE_def WORD_WIDTH_def GAS_PER_MEMORY_WORD_def
  FIELD_ELEMENTS_PER_BLOB_def DATA_GAS_PER_BLOB_def DATA_GAS_PER_FIELD_ELEMENT_def GAS_PER_ZERO_TO_NONZERO_STORAGE_SET_def
  GAS_PER_COLD_STORAGE_ACCESS_def GAS_PER_NONZERO_TO_INT_STORAGE_SET_def GAS_PER_COUNTER_DECREASE_def GAS_PER_LOG_def
  GAS_PER_LOG_TOPIC_def GAS_PER_LOG_DATA_BYTE_def GAS_PER_LOG_DATA_WORD_def SHARP_ADDITIONAL_GAS_PER_MEMORY_WORD_def
  SHARP_GAS_PER_MEMORY_WORD_def DISCOUNT_PER_DA_WORD_def SHARP_GAS_PER_DA_WORD_def L1_TO_L2_MSG_HEADER_SIZE_def
  L2_TO_L1_MSG_HEADER_SIZE_def CLASS_UPDATE_SIZE_def N_STEPS_PER_SEGMENT_ARENA_BUILTIN_def N_DEFAULT_TOPICS_def
  LOG_MSG_TO_L1_N_TOPICS_def CONSUMED_MSG_TO_L2_N_TOPICS_def LOG_MSG_TO_L1_ENCODED_DATA_SIZE_def
  CONSUMED_MSG_TO_L2_ENCODED_DATA_SIZE_def

definition get_calldata_word_cost :: "usize \<Rightarrow> usize" where
  "get_calldata_word_cost n_nonzero_bytes =
     n_nonzero_bytes * GAS_PER_MEMORY_BYTE + (WORD_WIDTH - n_nonzero_bytes) * GAS_PER_MEMORY_ZERO_BYTE"

datatype transaction_type = Declare | DeployAccount | InvokeFunction | L1Handler

record 'q vm_resource_costs =
  vrc_n_steps :: 'q
  vrc_builtins :: "(builtin_name \<times> 'q) list"

record 'q archival_data_gas_costs =
  gas_per_data_felt :: 'q
  event_key_factor :: 'q
  gas_per_code_byte :: 'q

record allocation_cost =
  blob_cost :: gas_vector
  gas_cost :: gas_vector

definition allocation_get_cost :: "allocation_cost \<Rightarrow> bool \<Rightarrow> gas_vector" where
  "allocation_get_cost c use_kzg_da = (if use_kzg_da then blob_cost c else gas_cost c)"

record resources_params =
  rp_constant :: execution_resources
  rp_calldata_factor :: execution_resources

record os_resources =
  execute_txs_inner :: "transaction_type \<rightharpoonup> resources_params"
  compute_os_kzg_commitment_info :: execution_resources

record 'q versioned_constants =
  vc_archival_data_gas_costs :: "'q archival_data_gas_costs"
  vc_deprecated_l2_resource_gas_costs :: "'q archival_data_gas_costs"
  vc_ignore_inner_event_resources :: bool
  vc_vm_resource_fee_cost :: "'q vm_resource_costs"
  vc_allocation_cost :: allocation_cost
  vc_os_resources :: os_resources
  vc_step_gas_cost :: u64
  vc_execute_max_sierra_gas :: gas_amount
  vc_validate_max_sierra_gas :: gas_amount
  vc_validate_block_number_rounding :: u64
  vc_validate_timestamp_rounding :: u64

definition sierra_gas_in_l1_gas_amount :: "'q ratio_ops \<Rightarrow> 'q versioned_constants \<Rightarrow> 'q" where
  "sierra_gas_in_l1_gas_amount Q vc =
     ratio_mul Q (ratio_new Q 1 (vc_step_gas_cost vc)) (vrc_n_steps (vc_vm_resource_fee_cost vc))"

definition l1_gas_to_sierra_gas_amount_round_up :: "'q ratio_ops \<Rightarrow> 'q versioned_constants \<Rightarrow> gas_amount \<Rightarrow> gas_amount" where
  "l1_gas_to_sierra_gas_amount_round_up Q vc l1_gas_amount =
     ratio_ceil Q (ratio_mul_int Q (ratio_inv Q (sierra_gas_in_l1_gas_amount Q vc)) l1_gas_amount)"

definition sierra_gas_to_l1_gas_amount_round_up :: "'q ratio_ops \<Rightarrow> 'q versioned_constants \<Rightarrow> gas_amount \<Rightarrow> gas_amount" where
  "sierra_gas_to_l1_gas_amount_round_up Q vc l2_gas_amount =
     ratio_ceil Q (ratio_mul_int Q (sierra_gas_in_l1_gas_amount Q vc) l2_gas_amount)"

definition initial_gas_no_user_l2_bound :: "'q versioned_constants \<Rightarrow> gas_amount option" where
  "initial_gas_no_user_l2_bound vc = checked_add (vc_execute_max_sierra_gas vc) (vc_validate_max_sierra_gas vc)"

definition poseidon_hash_many_cost :: "usize \<Rightarrow> execution_resources" where
  "poseidon_hash_many_cost data_length = \<lparr>
     vm_n_steps = (data_length div 10) * 55 + ((data_length mod 10) div 2) * 18 + (data_length mod 2) * 3 + 21,
     vm_n_memory_holes = 0,
     vm_builtins = [(poseidon, data_length div 2 + 1)]\<rparr>"

definition resources_for_tx_type :: "vm_ops \<Rightarrow> os_resources \<Rightarrow> transaction_type \<Rightarrow> usize \<Rightarrow> execution_resources option" where
  "resources_for_tx_type V os tx_type calldata_length = do {
     resources_vector \<leftarrow> execute_txs_inner os tx_type;
     Some (vm_plus V (rp_constant resources_vector)
       (vm_times V (rp_calldata_factor resources_vector) calldata_length)) }"

definition os_kzg_da_resources :: "vm_ops \<Rightarrow> os_resources \<Rightarrow> usize \<Rightarrow> execution_resources" where
  "os_kzg_da_resources V os data_segment_length =
     (if compute_os_kzg_commitment_info os = vm_default then vm_default
      else vm_plus V (vm_times V (compute_os_kzg_commitment_info os) data_segment_length)
        (poseidon_hash_many_cost data_segment_length))"

definition get_additional_os_tx_resources ::
    "vm_ops \<Rightarrow> os_resources \<Rightarrow> transaction_type \<Rightarrow> usize \<Rightarrow> usize \<Rightarrow> bool \<Rightarrow> execution_resources option" where
  "get_additional_os_tx_resources V os tx_type calldata_length data_segment_length use_kzg_da = do {
     os_additional_vm_resources \<leftarrow> resources_for_tx_type V os tx_type calldata_length;
     Some (if use_kzg_da
           then vm_plus V os_additional_vm_resources (os_kzg_da_resources V os data_segment_length)
           else os_additional_vm_resources) }"

section \<open>Gas usage\<close>

definition get_onchain_data_segment_length :: "state_changes_count \<Rightarrow> usize" where
  "get_onchain_data_segment_length c =
     of_nat (n_modified_contracts c) * 2 + of_nat (n_class_hash_updates c) * CLASS_UPDATE_SIZE +
     of_nat (n_storage_updates c) * 2 + of_nat (n_compiled_class_hash_updates c) * 2"

definition get_da_gas_cost :: "state_changes_count \<Rightarrow> bool \<Rightarrow> gas_vector" where
  "get_da_gas_cost c use_kzg_da =
     (let onchain_data_segment_length = get_onchain_data_segment_length c
      in if use_kzg_da
         then gv_zero\<lparr>gv_l1_data_gas := onchain_data_segment_length * DATA_GAS_PER_FIELD_ELEMENT\<rparr>
         else (let naive_cost = onchain_data_segment_length * SHARP_GAS_PER_DA_WORD;
                   modified_contract_cost = get_calldata_word_cost (1 + 2 + 3);
                   modified_contract_discount = GAS_PER_MEMORY_WORD - modified_contract_cost;
                   fee_balance_value_cost = get_calldata_word_cost 12;
                   discount = of_nat (n_modified_contracts c) * modified_contract_discount +
                     (GAS_PER_MEMORY_WORD - fee_balance_value_cost)
           in gv_zero\<lparr>gv_l1_gas := saturating_sub naive_cost discount\<rparr>))"

definition get_message_segment_length :: "usize list \<Rightarrow> usize option \<Rightarrow> usize" where
  "get_message_segment_length l2_to_l1_payload_lengths l1_handler_payload_size =
     (let message_segment_length =
        sum_list (map (\<lambda>payload_length. L2_TO_L1_MSG_HEADER_SIZE + payload_length) l2_to_l1_payload_lengths)
      in case l1_handler_payload_size of
           Some payload_size \<Rightarrow> message_segment_length + (L1_TO_L2_MSG_HEADER_SIZE + payload_size)
         | None \<Rightarrow> message_segment_length)"

definition get_event_emission_cost :: "usize \<Rightarrow> usize \<Rightarrow> gas_vector" where
  "get_event_emission_cost n_topics data_length =
     from_l1_gas (GAS_PER_LOG + (n_topics + N_DEFAULT_TOPICS) * GAS_PER_LOG_TOPIC + data_length * GAS_PER_LOG_DATA_WORD)"

definition get_consumed_message_to_l2_emissions_cost :: "usize option \<Rightarrow> gas_vector" where
  "get_consumed_message_to_l2_emissions_cost l1_handler_payload_size =
     (case l1_handler_payload_size of
        None \<Rightarrow> gv_zero
      | Some payload_size \<Rightarrow>
          get_event_emission_cost CONSUMED_MSG_TO_L2_N_TOPICS (CONSUMED_MSG_TO_L2_ENCODED_DATA_SIZE + payload_size))"

fun gv_sum :: "gas_vector \<Rightarrow> gas_vector list \<Rightarrow> gas_vector option" where
  "gv_sum accumulator [] = Some accumulator"
| "gv_sum accumulator (cost # costs) = do {
     accumulator1 \<leftarrow> gv_checked_add accumulator cost;
     gv_sum accumulator1 costs }"

definition get_log_message_to_l1_emissions_cost :: "usize list \<Rightarrow> gas_vector option" where
  "get_log_message_to_l1_emissions_cost l2_to_l1_payload_lengths =
     gv_sum gv_zero (map (\<lambda>len.
       get_event_emission_cost LOG_MSG_TO_L1_N_TOPICS (LOG_MSG_TO_L1_ENCODED_DATA_SIZE + len)) l2_to_l1_payload_lengths)"

definition total_n_steps :: "execution_resources \<Rightarrow> usize" where
  "total_n_steps r = vm_n_steps r + vm_n_memory_holes r +
     N_STEPS_PER_SEGMENT_ARENA_BUILTIN * (case map_of (vm_builtins r) segment_arena of Some n \<Rightarrow> n | None \<Rightarrow> 0)"

definition prover_builtins :: "execution_resources \<Rightarrow> (builtin_name \<times> usize) list" where
  "prover_builtins r = AList.delete segment_arena (vm_builtins r)"

definition get_vm_resources_cost ::
    "'q ratio_ops \<Rightarrow> 'q versioned_constants \<Rightarrow> execution_resources \<Rightarrow> usize \<Rightarrow> gas_vector_computation_mode
      \<Rightarrow> gas_vector option" where
  "get_vm_resources_cost Q vc vm_resource_usage n_reverted_steps computation_mode =
     (let vm_resource_fee_costs = vc_vm_resource_fee_cost vc;
          builtin_usage_for_fee = prover_builtins vm_resource_usage
      in do {
        rs_assert (set (map fst builtin_usage_for_fee) \<subseteq> set (map fst (vrc_builtins vm_resource_fee_costs)));
        let vm_l1_gas_usage = foldl max 0 (map (\<lambda>(cost, usage). ratio_ceil Q (ratio_mul_int Q cost usage))
          (map (\<lambda>(builtin, resource_cost).
             (resource_cost, case map_of builtin_usage_for_fee builtin of Some n \<Rightarrow> n | None \<Rightarrow> 0))
             (vrc_builtins vm_resource_fee_costs) @
           [(vrc_n_steps vm_resource_fee_costs, total_n_steps vm_resource_usage + n_reverted_steps)]));
        Some (case computation_mode of
            NoL2Gas \<Rightarrow> from_l1_gas vm_l1_gas_usage
          | All \<Rightarrow> from_l2_gas (l1_gas_to_sierra_gas_amount_round_up Q vc vm_l1_gas_usage)) })"

section \<open>Resources of a transaction\<close>

record computation_resources =
  cr_vm_resources :: execution_resources
  cr_n_reverted_steps :: usize
  cr_sierra_gas :: gas_amount
  cr_reverted_sierra_gas :: gas_amount

definition computation_to_gas_vector ::
    "'q ratio_ops \<Rightarrow> 'q versioned_constants \<Rightarrow> computation_resources \<Rightarrow> gas_vector_computation_mode \<Rightarrow> gas_vector option" where
  "computation_to_gas_vector Q vc self computation_mode = do {
     vm_cost \<leftarrow> get_vm_resources_cost Q vc (cr_vm_resources self) (cr_n_reverted_steps self) computation_mode;
     total_sierra_gas \<leftarrow> checked_add (cr_sierra_gas self) (cr_reverted_sierra_gas self);
     gv_checked_add vm_cost
       (case computation_mode of
          All \<Rightarrow> from_l2_gas total_sierra_gas
        | NoL2Gas \<Rightarrow> from_l1_gas (sierra_gas_to_l1_gas_amount_round_up Q vc total_sierra_gas)) }"

record archival_data_resources =
  ad_event_summary :: event_summary
  ad_calldata_length :: usize
  ad_signature_length :: usize
  ad_code_size :: usize

definition get_calldata_and_signature_gas_cost ::
    "'q ratio_ops \<Rightarrow> archival_data_resources \<Rightarrow> 'q archival_data_gas_costs \<Rightarrow> gas_amount" where
  "get_calldata_and_signature_gas_cost Q self costs =
     ratio_to_integer Q (ratio_mul_int Q (gas_per_data_felt costs) (ad_calldata_length self + ad_signature_length self))"

definition get_code_gas_cost :: "'q ratio_ops \<Rightarrow> archival_data_resources \<Rightarrow> 'q archival_data_gas_costs \<Rightarrow> gas_amount" where
  "get_code_gas_cost Q self costs = ratio_to_integer Q (ratio_mul_int Q (gas_per_code_byte costs) (ad_code_size self))"

definition get_events_gas_cost :: "'q ratio_ops \<Rightarrow> archival_data_resources \<Rightarrow> 'q archival_data_gas_costs \<Rightarrow> gas_amount" where
  "get_events_gas_cost Q self costs =
     ratio_to_integer Q (ratio_mul Q (gas_per_data_felt costs)
       (ratio_add_int Q (ratio_mul_int Q (event_key_factor costs) (total_event_keys (ad_event_summary self)))
         (total_event_data_size (ad_event_summary self))))"

fun gas_sum :: "gas_amount \<Rightarrow> gas_amount list \<Rightarrow> gas_amount option" where
  "gas_sum accumulator [] = Some accumulator"
| "gas_sum accumulator (cost # costs) = do {
     accumulator1 \<leftarrow> checked_add accumulator cost;
     gas_sum accumulator1 costs }"

definition archival_data_to_gas_vector ::
    "'q ratio_ops \<Rightarrow> 'q versioned_constants \<Rightarrow> archival_data_resources \<Rightarrow> gas_vector_computation_mode \<Rightarrow> gas_vector option" where
  "archival_data_to_gas_vector Q vc self mode =
     (let costs = (case mode of All \<Rightarrow> vc_archival_data_gas_costs vc | NoL2Gas \<Rightarrow> vc_deprecated_l2_resource_gas_costs vc)
      in do {
        gas_amount \<leftarrow> gas_sum 0 [get_calldata_and_signature_gas_cost Q self costs, get_code_gas_cost Q self costs,
          get_events_gas_cost Q self costs];
        Some (case mode of All \<Rightarrow> from_l2_gas gas_amount | NoL2Gas \<Rightarrow> from_l1_gas gas_amount) })"

record message_resources =
  mr_l2_to_l1_payload_lengths :: "usize list"
  mr_message_segment_length :: usize
  mr_l1_handler_payload_size :: "usize option"

definition message_resources_new :: "usize list \<Rightarrow> usize option \<Rightarrow> message_resources" where
  "message_resources_new l2_to_l1_payload_lengths l1_handler_payload_size = \<lparr>
     mr_l2_to_l1_payload_lengths = l2_to_l1_payload_lengths,
     mr_message_segment_length = get_message_segment_length l2_to_l1_payload_lengths l1_handler_payload_size,
     mr_l1_handler_payload_size = l1_handler_payload_size\<rparr>"

definition get_starknet_gas_cost :: "message_resources \<Rightarrow> gas_vector option" where
  "get_starknet_gas_cost self =
     (let n_l2_to_l1_messages = of_nat (length (mr_l2_to_l1_payload_lengths self));
          n_l1_to_l2_messages = (if mr_l1_handler_payload_size self \<noteq> None then 1 else 0)
      in do {
        log_cost \<leftarrow> get_log_message_to_l1_emissions_cost (mr_l2_to_l1_payload_lengths self);
        gv_sum gv_zero
          [from_l1_gas (mr_message_segment_length self * GAS_PER_MEMORY_WORD +
             n_l2_to_l1_messages * GAS_PER_ZERO_TO_NONZERO_STORAGE_SET + n_l1_to_l2_messages * GAS_PER_COUNTER_DECREASE),
           get_consumed_message_to_l2_emissions_cost (mr_l1_handler_payload_size self), log_cost] })"

definition messages_to_gas_vector :: "message_resources \<Rightarrow> gas_vector option" where
  "messages_to_gas_vector self = do {
     starknet_gas_usage \<leftarrow> get_starknet_gas_cost self;
     gv_checked_add starknet_gas_usage (from_l1_gas (mr_message_segment_length self * SHARP_GAS_PER_MEMORY_WORD)) }"

record state_resources =
  state_changes_for_fee :: state_changes_count_for_fee

definition state_resources_new ::
    "(contract_address \<Rightarrow> storage_key) \<Rightarrow> state_changes \<Rightarrow> contract_address option \<Rightarrow> contract_address \<Rightarrow> state_resources" where
  "state_resources_new balance_key state_changes sender_address fee_token_address = \<lparr>
     state_changes_for_fee = count_for_fee_charge balance_key state_changes sender_address fee_token_address\<rparr>"

definition da_gas_vector :: "state_resources \<Rightarrow> bool \<Rightarrow> gas_vector" where
  "da_gas_vector self use_kzg_da = get_da_gas_cost (fee_state_changes_count (state_changes_for_fee self)) use_kzg_da"

definition state_to_gas_vector :: "state_resources \<Rightarrow> bool \<Rightarrow> allocation_cost \<Rightarrow> gas_vector option" where
  "state_to_gas_vector self use_kzg_da allocation_cost = do {
     total_allocation_cost \<leftarrow> gv_checked_scalar_mul (allocation_get_cost allocation_cost use_kzg_da)
       (of_nat (n_allocated_keys (state_changes_for_fee self)));
     gv_checked_add total_allocation_cost (da_gas_vector self use_kzg_da) }"

record starknet_resources =
  sr_archival_data :: archival_data_resources
  sr_messages :: message_resources
  sr_state :: state_resources

definition starknet_resources_new ::
    "usize \<Rightarrow> usize \<Rightarrow> usize \<Rightarrow> state_resources \<Rightarrow> usize option \<Rightarrow> execution_summary \<Rightarrow> starknet_resources" where
  "starknet_resources_new calldata_length signature_length code_size state_resources l1_handler_payload_size
     execution_summary_without_fee_transfer = \<lparr>
     sr_archival_data = \<lparr>ad_event_summary = es_event_summary execution_summary_without_fee_transfer,
       ad_calldata_length = calldata_length, ad_signature_length = signature_length, ad_code_size = code_size\<rparr>,
     sr_messages = message_resources_new (es_l2_to_l1_payload_lengths execution_summary_without_fee_transfer)
       l1_handler_payload_size,
     sr_state = state_resources\<rparr>"

definition starknet_to_gas_vector ::
    "'q ratio_ops \<Rightarrow> 'q versioned_constants \<Rightarrow> starknet_resources \<Rightarrow> bool \<Rightarrow> gas_vector_computation_mode \<Rightarrow> gas_vector option" where
  "starknet_to_gas_vector Q vc self use_kzg_da mode = do {
     archival \<leftarrow> archival_data_to_gas_vector Q vc (sr_archival_data self) mode;
     state \<leftarrow> state_to_gas_vector (sr_state self) use_kzg_da (vc_allocation_cost vc);
     messages \<leftarrow> messages_to_gas_vector (sr_messages self);
     gv_sum gv_zero [archival, state, messages] }"

record transaction_resources =
  tr_starknet_resources :: starknet_resources
  tr_computation :: computation_resources

definition resources_to_gas_vector ::
    "'q ratio_ops \<Rightarrow> 'q versioned_constants \<Rightarrow> transaction_resources \<Rightarrow> bool \<Rightarrow> gas_vector_computation_mode \<Rightarrow> gas_vector option" where
  "resources_to_gas_vector Q vc self use_kzg_da computation_mode = do {
     starknet_gas \<leftarrow> starknet_to_gas_vector Q vc (tr_starknet_resources self) use_kzg_da computation_mode;
     computation_gas \<leftarrow> computation_to_gas_vector Q vc (tr_computation self) computation_mode;
     gv_checked_add starknet_gas computation_gas }"

section \<open>L2 gas\<close>

lemma checked_zero [simp]: "checked_add 0 0 = Some (0 :: 'a::len word)" "checked_mul 0 n = Some (0 :: 'a word)"
  by (simp_all add: checked_add_def checked_mul_def)

lemma gv_checked_add_l2:
  "gv_checked_add a b = Some c \<Longrightarrow> gv_l2_gas a = 0 \<Longrightarrow> gv_l2_gas b = 0 \<Longrightarrow> gv_l2_gas c = 0"
  by (auto simp: gv_checked_add_def bind_eq_Some_conv)

lemma gv_sum_l2:
  "gv_sum a l = Some c \<Longrightarrow> gv_l2_gas a = 0 \<Longrightarrow> list_all (\<lambda>g. gv_l2_gas g = 0) l \<Longrightarrow> gv_l2_gas c = 0"
  by (induction a l rule: gv_sum.induct) (auto simp: bind_eq_Some_conv dest: gv_checked_add_l2)

lemma l2_of_vectors [simp]:
  "gv_l2_gas gv_zero = 0" "gv_l2_gas (from_l1_gas x) = 0" "gv_l2_gas (get_event_emission_cost n len) = 0"
  "gv_l2_gas (get_da_gas_cost c kzg) = 0" "gv_l2_gas (get_consumed_message_to_l2_emissions_cost p) = 0"
  by (auto simp: gv_zero_def from_l1_gas_def get_event_emission_cost_def get_da_gas_cost_def Let_def
    get_consumed_message_to_l2_emissions_cost_def split: option.splits)

lemma gv_scalar_mul_l2: "gv_checked_scalar_mul a n = Some c \<Longrightarrow> gv_l2_gas a = 0 \<Longrightarrow> gv_l2_gas c = 0"
  by (auto simp: gv_checked_scalar_mul_def bind_eq_Some_conv)

lemma log_messages_l2: "get_log_message_to_l1_emissions_cost l = Some g \<Longrightarrow> gv_l2_gas g = 0"
  unfolding get_log_message_to_l1_emissions_cost_def by (erule gv_sum_l2) (simp_all add: list_all_iff)

lemma starknet_gas_cost_l2: "get_starknet_gas_cost m = Some g \<Longrightarrow> gv_l2_gas g = 0"
  unfolding get_starknet_gas_cost_def Let_def bind_eq_Some_conv
  by (elim exE conjE) (erule gv_sum_l2, simp_all add: log_messages_l2)

lemma messages_l2: "messages_to_gas_vector m = Some g \<Longrightarrow> gv_l2_gas g = 0"
  unfolding messages_to_gas_vector_def bind_eq_Some_conv
  by (elim exE conjE) (erule gv_checked_add_l2, simp_all add: starknet_gas_cost_l2)

lemma state_l2:
  "state_to_gas_vector r kzg c = Some g \<Longrightarrow> gv_l2_gas (allocation_get_cost c kzg) = 0 \<Longrightarrow> gv_l2_gas g = 0"
  unfolding state_to_gas_vector_def da_gas_vector_def bind_eq_Some_conv
  by (elim exE conjE) (erule gv_checked_add_l2, simp_all add: gv_scalar_mul_l2)

lemma vm_cost_l2: "get_vm_resources_cost Q vc r n NoL2Gas = Some g \<Longrightarrow> gv_l2_gas g = 0"
  by (auto simp: get_vm_resources_cost_def Let_def)

lemma no_l2_gas_mode:
  assumes "resources_to_gas_vector Q vc r kzg NoL2Gas = Some g" "gv_l2_gas (allocation_get_cost (vc_allocation_cost vc) kzg) = 0"
  shows "gv_l2_gas g = 0"
proof -
  from assms(1) obtain s c where
    s: "starknet_to_gas_vector Q vc (tr_starknet_resources r) kzg NoL2Gas = Some s"
    and c: "computation_to_gas_vector Q vc (tr_computation r) NoL2Gas = Some c" and g: "gv_checked_add s c = Some g"
    by (auto simp: resources_to_gas_vector_def bind_eq_Some_conv)
  have "gv_l2_gas c = 0"
    using c unfolding computation_to_gas_vector_def bind_eq_Some_conv
    by (elim exE conjE) (erule gv_checked_add_l2, simp_all add: vm_cost_l2)
  moreover have "gv_l2_gas s = 0"
    using s unfolding starknet_to_gas_vector_def archival_data_to_gas_vector_def Let_def bind_eq_Some_conv
    by (elim exE conjE) (erule gv_sum_l2, auto simp: messages_l2 dest: state_l2[OF _ assms(2)] simp del: gas_sum.simps)
  ultimately show ?thesis using gv_checked_add_l2[OF g] by simp
qed

end
