(* ===== verification/Transaction_Context.thy ===== *)
theory Transaction_Context
  imports Resource_Costs
begin

text \<open>
  What a transaction is executed in: \<^verbatim>\<open>crates/blockifier/src/context.rs\<close>, the transaction's account
  information of \<^verbatim>\<open>transaction/objects.rs\<close>, the storage keys of balances
  (\<^verbatim>\<open>starknet_api/src/abi/abi_utils.rs\<close>, \<^verbatim>\<open>state.rs\<close>, \<^verbatim>\<open>core.rs\<close>) and
  \<^verbatim>\<open>get_fee_token_balance\<close> of \<^verbatim>\<open>state/state_api.rs\<close>. The hash functions are parameters.
\<close>

section \<open>Storage keys of balances\<close>

record hash_functions =
  keccak256 :: "string \<Rightarrow> nat"
  pedersen_hash :: "felt \<Rightarrow> felt \<Rightarrow> felt"

text \<open>The digest is truncated to 250 bits.\<close>

definition starknet_keccak :: "hash_functions \<Rightarrow> string \<Rightarrow> felt" where
  "starknet_keccak H data = keccak256 H data mod 2 ^ 250"

definition MAX_STORAGE_ITEM_SIZE :: nat where
  "MAX_STORAGE_ITEM_SIZE = 256"

definition CONTRACT_ADDRESS_DOMAIN_SIZE :: nat where
  "CONTRACT_ADDRESS_DOMAIN_SIZE = 2 ^ 251"

definition L2_ADDRESS_UPPER_BOUND :: nat where
  "L2_ADDRESS_UPPER_BOUND = CONTRACT_ADDRESS_DOMAIN_SIZE - MAX_STORAGE_ITEM_SIZE"

definition patricia_key_try_from :: "felt \<Rightarrow> state_error + felt" where
  "patricia_key_try_from value = (if value < CONTRACT_ADDRESS_DOMAIN_SIZE then Inr value else Inl StarknetApiError)"

text \<open>The reduction keeps the key in range, so that the \<^verbatim>\<open>expect\<close> on the conversion succeeds.\<close>

definition get_storage_var_address :: "hash_functions \<Rightarrow> string \<Rightarrow> felt list \<Rightarrow> storage_key" where
  "get_storage_var_address H storage_var_name args =
     foldl (pedersen_hash H) (starknet_keccak H storage_var_name) args mod L2_ADDRESS_UPPER_BOUND"

definition get_fee_token_var_address :: "hash_functions \<Rightarrow> contract_address \<Rightarrow> storage_key" where
  "get_fee_token_var_address H contract_address = get_storage_var_address H ''ERC20_balances'' [contract_address]"

definition next_storage_key :: "storage_key \<Rightarrow> state_error + storage_key" where
  "next_storage_key k = patricia_key_try_from ((k + 1) mod felt_prime)"

definition get_address_balance_keys :: "hash_functions \<Rightarrow> contract_address \<Rightarrow> (storage_key \<times> storage_key) option" where
  "get_address_balance_keys H address =
     (let balance_key_low = get_fee_token_var_address H address
      in case next_storage_key balance_key_low of
           Inr balance_key_high \<Rightarrow> Some (balance_key_low, balance_key_high)
         | Inl _ \<Rightarrow> None)"

definition get_fee_token_balance ::
    "('s, 'c) state_reader \<Rightarrow> hash_functions \<Rightarrow> 's \<Rightarrow> contract_address \<Rightarrow> contract_address
      \<Rightarrow> ('s, state_error, felt \<times> felt) rs_result" where
  "get_fee_token_balance R H s contract_address fee_token_address =
     (let low_key = get_fee_token_var_address H contract_address
      in case next_storage_key low_key of
           Inl e \<Rightarrow> Some (s, Inl e)
         | Inr high_key \<Rightarrow>
             rs_try (rd_storage_at R s fee_token_address low_key) (\<lambda>s1 low.
             rs_try (rd_storage_at R s1 fee_token_address high_key) (\<lambda>s2 high.
               Some (s2, Inr (low, high)))))"

text \<open>The key of the high word always exists, and follows the one of the low word.\<close>

lemma storage_var_address_in_range: "get_storage_var_address H name args < L2_ADDRESS_UPPER_BOUND"
  unfolding get_storage_var_address_def
  by (rule mod_less_divisor)
    (simp add: L2_ADDRESS_UPPER_BOUND_def CONTRACT_ADDRESS_DOMAIN_SIZE_def MAX_STORAGE_ITEM_SIZE_def)

lemma next_balance_key:
  "next_storage_key (get_fee_token_var_address H a) = Inr (get_fee_token_var_address H a + 1)"
proof -
  have "get_fee_token_var_address H a + 1 < CONTRACT_ADDRESS_DOMAIN_SIZE" "CONTRACT_ADDRESS_DOMAIN_SIZE < felt_prime"
    using storage_var_address_in_range[of H "''ERC20_balances''" "[a]"]
    by (simp_all add: get_fee_token_var_address_def L2_ADDRESS_UPPER_BOUND_def CONTRACT_ADDRESS_DOMAIN_SIZE_def
      MAX_STORAGE_ITEM_SIZE_def felt_prime_def)
  then show ?thesis by (simp add: next_storage_key_def patricia_key_try_from_def)
qed

lemma balance_keys:
  "get_address_balance_keys H a = Some (get_fee_token_var_address H a, get_fee_token_var_address H a + 1)"
  by (simp add: get_address_balance_keys_def next_balance_key Let_def)

section \<open>Account information\<close>

record common_account_fields =
  ti_transaction_hash :: transaction_hash
  ti_version :: felt
  ti_signature :: "felt list"
  ti_nonce :: nonce
  ti_sender_address :: contract_address
  ti_only_query :: bool

datatype transaction_info =
    Current common_account_fields valid_resource_bounds
  | Deprecated common_account_fields fee

fun common_fields :: "transaction_info \<Rightarrow> common_account_fields" where
  "common_fields (Current common _) = common"
| "common_fields (Deprecated common _) = common"

definition is_v0 :: "transaction_info \<Rightarrow> bool" where
  "is_v0 t \<longleftrightarrow> ti_version (common_fields t) = 0"

fun enforce_fee :: "transaction_info \<Rightarrow> bool" where
  "enforce_fee (Current _ resource_bounds) \<longleftrightarrow> 0 < max_possible_fee resource_bounds"
| "enforce_fee (Deprecated _ max_fee) \<longleftrightarrow> max_fee \<noteq> 0"

fun gas_mode :: "transaction_info \<Rightarrow> gas_vector_computation_mode" where
  "gas_mode (Current _ resource_bounds) = get_gas_vector_computation_mode resource_bounds"
| "gas_mode (Deprecated _ _) = NoL2Gas"

fun max_fee_for_execution_info_syscall :: "transaction_info \<Rightarrow> fee" where
  "max_fee_for_execution_info_syscall (Current _ _) = 0"
| "max_fee_for_execution_info_syscall (Deprecated _ max_fee) = max_fee"

definition fee_type_of :: "transaction_info \<Rightarrow> fee_type" where
  "fee_type_of t = (if ti_version (common_fields t) < 3 then Eth else Strk)"

section \<open>Block and transaction context\<close>

record block_info =
  bi_block_number :: u64
  bi_block_timestamp :: u64
  bi_sequencer_address :: contract_address
  bi_gas_prices :: gas_prices
  bi_use_kzg_da :: bool

record fee_token_addresses =
  strk_fee_token_address :: contract_address
  eth_fee_token_address :: contract_address

fun get_by_fee_type :: "fee_token_addresses \<Rightarrow> fee_type \<Rightarrow> contract_address" where
  "get_by_fee_type a Strk = strk_fee_token_address a"
| "get_by_fee_type a Eth = eth_fee_token_address a"

record 'q block_context =
  bc_block_info :: block_info
  bc_fee_token_addresses :: fee_token_addresses
  bc_versioned_constants :: "'q versioned_constants"

record 'q transaction_context =
  tc_block_context :: "'q block_context"
  tc_tx_info :: transaction_info

definition fee_token_address :: "'q transaction_context \<Rightarrow> contract_address" where
  "fee_token_address c = get_by_fee_type (bc_fee_token_addresses (tc_block_context c)) (fee_type_of (tc_tx_info c))"

definition sequencer_address :: "'q transaction_context \<Rightarrow> contract_address" where
  "sequencer_address c = bi_sequencer_address (bc_block_info (tc_block_context c))"

definition sender_address :: "'q transaction_context \<Rightarrow> contract_address" where
  "sender_address c = ti_sender_address (common_fields (tc_tx_info c))"

definition is_sequencer_the_sender :: "'q transaction_context \<Rightarrow> bool" where
  "is_sequencer_the_sender c \<longleftrightarrow> sender_address c = sequencer_address c"

definition get_gas_prices :: "'q transaction_context \<Rightarrow> gas_price_vector" where
  "get_gas_prices c = gas_price_vector_of (bi_gas_prices (bc_block_info (tc_block_context c))) (fee_type_of (tc_tx_info c))"

definition initial_sierra_gas :: "'q transaction_context \<Rightarrow> gas_amount option" where
  "initial_sierra_gas c =
     (case tc_tx_info c of
        Current _ (AllResources b) \<Rightarrow> Some (max_amount (arb_l2_gas b))
      | _ \<Rightarrow> initial_gas_no_user_l2_bound (bc_versioned_constants (tc_block_context c)))"

text \<open>A rounding of zero is a division by zero, a panic.\<close>

definition block_info_for_validate :: "'q block_context \<Rightarrow> block_info option" where
  "block_info_for_validate bc =
     (let b = bc_block_info bc;
          number_rounding = vc_validate_block_number_rounding (bc_versioned_constants bc);
          timestamp_rounding = vc_validate_timestamp_rounding (bc_versioned_constants bc)
      in do {
        rs_assert (number_rounding \<noteq> 0 \<and> timestamp_rounding \<noteq> 0);
        Some (b\<lparr>bi_block_number := (bi_block_number b div number_rounding) * number_rounding,
           bi_block_timestamp := (bi_block_timestamp b div timestamp_rounding) * timestamp_rounding,
           bi_sequencer_address := 0\<rparr>) })"

text \<open>The counter of the gas that a transaction may still use.\<close>

record gas_counter =
  spent_gas :: gas_amount
  remaining_gas :: gas_amount

definition gas_counter_new :: "gas_amount \<Rightarrow> gas_counter" where
  "gas_counter_new initial_gas = \<lparr>spent_gas = 0, remaining_gas = initial_gas\<rparr>"

definition spend :: "gas_counter \<Rightarrow> gas_amount \<Rightarrow> gas_counter option" where
  "spend c amount = do {
     spent \<leftarrow> checked_add (spent_gas c) amount;
     remaining \<leftarrow> checked_sub (remaining_gas c) amount;
     Some \<lparr>spent_gas = spent, remaining_gas = remaining\<rparr> }"

definition limit_usage :: "gas_counter \<Rightarrow> gas_amount \<Rightarrow> u64" where
  "limit_usage c amount = min (remaining_gas c) amount"

text \<open>Of the call's execution only the consumed gas matters.\<close>

definition subtract_used_gas :: "gas_counter \<Rightarrow> u64 \<Rightarrow> gas_counter option" where
  "subtract_used_gas c gas_consumed = spend c gas_consumed"

text \<open>A call that stays within its limit can be paid for, and gas is only ever moved.\<close>

lemma spend_within_limit:
  assumes "used \<le> limit_usage c limit" "unat (spent_gas c) + unat (remaining_gas c) < 2 ^ 64"
  shows "\<exists>c'. spend c used = Some c' \<and>
    unat (spent_gas c') + unat (remaining_gas c') = unat (spent_gas c) + unat (remaining_gas c)"
proof -
  have "used \<le> remaining_gas c" using assms(1) by (simp add: limit_usage_def)
  then have "unat used \<le> unat (remaining_gas c)" by (simp add: word_le_nat_alt)
  with assms(2) obtain s r where sr: "checked_add (spent_gas c) used = Some s" "checked_sub (remaining_gas c) used = Some r"
    using checked_None_iff(1)[of "spent_gas c" used] checked_None_iff(3)[of "remaining_gas c" used] by fastforce
  then have "spend c used = Some \<lparr>spent_gas = s, remaining_gas = r\<rparr>" by (simp add: spend_def)
  with sr show ?thesis by (simp add: checked_add_Some_iff checked_sub_Some_iff)
qed

end
