(* ===== verification/Fee_Checks.thy ===== *)
theory Fee_Checks
  imports Transaction_Context Cached_State_Laws
begin

text \<open>
  Fees: \<^verbatim>\<open>crates/blockifier/src/fee\<close> (\<^verbatim>\<open>fee_utils.rs\<close>, \<^verbatim>\<open>receipt.rs\<close>,
  \<^verbatim>\<open>fee_checks.rs\<close>, \<^verbatim>\<open>estimate_minimal_gas_vector\<close> of \<^verbatim>\<open>gas_usage.rs\<close>) and the checks of
  \<^verbatim>\<open>transaction/account_transaction.rs\<close> before and after executing an account transaction.
\<close>

section \<open>Balances\<close>

datatype transaction_fee_error =
    ResourcesBoundsExceedBalance all_resource_bounds nat
  | GasBoundsExceedBalance resource gas_amount gas_price nat
  | MaxFeeExceedsBalance fee nat
  | MaxFeeTooLow fee fee
  | MaxGasPriceTooLow resource gas_price gas_price
  | MaxGasAmountTooLow resource gas_amount gas_amount
  | FeeStateError state_error

definition balance_to_big_uint :: "felt \<Rightarrow> felt \<Rightarrow> nat" where
  "balance_to_big_uint balance_low balance_high = balance_high * 2 ^ 128 + balance_low"

text \<open>\<^verbatim>\<open>?\<close> on an error of another type.\<close>

definition map_err :: "('e \<Rightarrow> 'f) \<Rightarrow> ('s, 'e, 'a) rs_result \<Rightarrow> ('s, 'f, 'a) rs_result" where
  "map_err f m = map_option (map_prod id (map_sum f id)) m"

definition get_balance_and_if_covers_fee ::
    "('s, 'c) state_reader \<Rightarrow> hash_functions \<Rightarrow> 's \<Rightarrow> 'q transaction_context \<Rightarrow> fee
      \<Rightarrow> ('s, transaction_fee_error, felt \<times> felt \<times> bool) rs_result" where
  "get_balance_and_if_covers_fee R H s c fee =
     rs_try (map_err FeeStateError (get_fee_token_balance R H s (sender_address c) (fee_token_address c)))
       (\<lambda>s1 (balance_low, balance_high).
         Some (s1, Inr (balance_low, balance_high, 0 < balance_high \<or> unat fee \<le> balance_low)))"

definition committed_fee :: "transaction_info \<Rightarrow> fee" where
  "committed_fee t =
     (case t of Current _ resource_bounds \<Rightarrow> max_possible_fee resource_bounds | Deprecated _ max_fee \<Rightarrow> max_fee)"

definition verify_can_pay_committed_bounds ::
    "('s, 'c) state_reader \<Rightarrow> hash_functions \<Rightarrow> 's \<Rightarrow> 'q transaction_context
      \<Rightarrow> ('s, transaction_fee_error, unit) rs_result" where
  "verify_can_pay_committed_bounds R H s c =
     rs_try (get_balance_and_if_covers_fee R H s c (committed_fee (tc_tx_info c)))
       (\<lambda>s1 (balance_low, balance_high, can_pay).
         Some (s1, if can_pay then Inr ()
           else Inl (case tc_tx_info c of
               Current _ (L1GasBounds l1_gas) \<Rightarrow>
                 GasBoundsExceedBalance L1Gas (max_amount l1_gas) (max_price_per_unit l1_gas)
                   (balance_to_big_uint balance_low balance_high)
             | Current _ (AllResources bounds) \<Rightarrow>
                 ResourcesBoundsExceedBalance bounds (balance_to_big_uint balance_low balance_high)
             | Deprecated _ max_fee \<Rightarrow>
                 MaxFeeExceedsBalance max_fee (balance_to_big_uint balance_low balance_high))))"

section \<open>Receipts\<close>

record transaction_receipt =
  rcpt_fee :: fee
  rcpt_gas :: gas_vector
  rcpt_da_gas :: gas_vector
  rcpt_resources :: transaction_resources

record receipt_parameters =
  rp_calldata_length :: usize
  rp_signature_length :: usize
  rp_code_size :: usize
  rp_state_changes :: state_changes
  rp_sender_address :: "contract_address option"
  rp_l1_handler_payload_size :: "usize option"
  rp_execution_summary :: execution_summary
  rp_tx_type :: transaction_type
  rp_reverted_steps :: usize

definition receipt_from_params ::
    "'q ratio_ops \<Rightarrow> vm_ops \<Rightarrow> hash_functions \<Rightarrow> 'q transaction_context \<Rightarrow> receipt_parameters \<Rightarrow> transaction_receipt option" where
  "receipt_from_params Q V H c p =
     (let bi = bc_block_info (tc_block_context c);
          vc = bc_versioned_constants (tc_block_context c);
          charged_resources = es_charged_resources (rp_execution_summary p);
          starknet_resources = starknet_resources_new (rp_calldata_length p) (rp_signature_length p) (rp_code_size p)
            (state_resources_new (get_fee_token_var_address H) (rp_state_changes p) (rp_sender_address p) (fee_token_address c))
            (rp_l1_handler_payload_size p) (rp_execution_summary p)
      in do {
        os_resources \<leftarrow> get_additional_os_tx_resources V (vc_os_resources vc) (rp_tx_type p)
          (ad_calldata_length (sr_archival_data starknet_resources))
          (get_onchain_data_segment_length (fee_state_changes_count (state_changes_for_fee (sr_state starknet_resources))))
          (bi_use_kzg_da bi);
        let tx_resources = \<lparr>tr_starknet_resources = starknet_resources,
          tr_computation = \<lparr>
            cr_vm_resources = vm_filter_unused_builtins V (vm_plus V (ch_vm_resources charged_resources) os_resources),
            cr_n_reverted_steps = rp_reverted_steps p, cr_sierra_gas = ch_gas_for_fee charged_resources,
            cr_reverted_sierra_gas = 0\<rparr>\<rparr>;
        gas \<leftarrow> resources_to_gas_vector Q vc tx_resources (bi_use_kzg_da bi) (gas_mode (tc_tx_info c));
        fee \<leftarrow> (if rp_tx_type p = Declare \<and> is_v0 (tc_tx_info c) then Some 0
          else get_fee_by_gas_vector (bi_gas_prices bi) gas (fee_type_of (tc_tx_info c)));
        Some \<lparr>rcpt_fee = fee, rcpt_gas = gas,
          rcpt_da_gas = da_gas_vector (sr_state starknet_resources) (bi_use_kzg_da bi), rcpt_resources = tx_resources\<rparr> })"

definition receipt_from_l1_handler ::
    "'q ratio_ops \<Rightarrow> vm_ops \<Rightarrow> hash_functions \<Rightarrow> 'q transaction_context \<Rightarrow> usize \<Rightarrow> execution_summary \<Rightarrow> state_changes
      \<Rightarrow> transaction_receipt option" where
  "receipt_from_l1_handler Q V H c l1_handler_payload_size summary state_changes =
     receipt_from_params Q V H c \<lparr>rp_calldata_length = l1_handler_payload_size, rp_signature_length = 0, rp_code_size = 0,
       rp_state_changes = state_changes, rp_sender_address = None,
       rp_l1_handler_payload_size = Some l1_handler_payload_size, rp_execution_summary = summary,
       rp_tx_type = L1Handler, rp_reverted_steps = 0\<rparr>"

text \<open>The account transaction with its sizes.\<close>

record account_tx_sizes =
  at_calldata_length :: usize
  at_signature_length :: usize
  at_declare_code_size :: usize
  at_tx_type :: transaction_type

definition receipt_from_account_tx ::
    "'q ratio_ops \<Rightarrow> vm_ops \<Rightarrow> hash_functions \<Rightarrow> account_tx_sizes \<Rightarrow> 'q transaction_context \<Rightarrow> state_changes
      \<Rightarrow> execution_summary \<Rightarrow> usize \<Rightarrow> transaction_receipt option" where
  "receipt_from_account_tx Q V H tx c state_changes summary reverted_steps =
     receipt_from_params Q V H c \<lparr>rp_calldata_length = at_calldata_length tx,
       rp_signature_length = at_signature_length tx, rp_code_size = at_declare_code_size tx,
       rp_state_changes = state_changes, rp_sender_address = Some (sender_address c),
       rp_l1_handler_payload_size = None, rp_execution_summary = summary,
       rp_tx_type = at_tx_type tx, rp_reverted_steps = reverted_steps\<rparr>"

section \<open>Checks before the execution\<close>

text \<open>An account transaction is never an L1 handler.\<close>

definition minimal_state_changes :: "transaction_type \<Rightarrow> state_changes_count" where
  "minimal_state_changes tx_type = \<lparr>n_storage_updates = 1,
     n_class_hash_updates = (if tx_type = DeployAccount then 1 else 0),
     n_compiled_class_hash_updates = 0, n_modified_contracts = 1\<rparr>"

definition estimate_minimal_gas_vector ::
    "'q ratio_ops \<Rightarrow> vm_ops \<Rightarrow> 'q block_context \<Rightarrow> account_tx_sizes \<Rightarrow> gas_vector_computation_mode \<Rightarrow> gas_vector option" where
  "estimate_minimal_gas_vector Q V bc tx mode =
     (let vc = bc_versioned_constants bc;
          state_changes = minimal_state_changes (at_tx_type tx);
          data_segment_length = get_onchain_data_segment_length state_changes
      in do {
        tx_resources \<leftarrow> resources_for_tx_type V (vc_os_resources vc) (at_tx_type tx) (at_calldata_length tx);
        let os_steps_for_type = vm_n_steps tx_resources +
          vm_n_steps (os_kzg_da_resources V (vc_os_resources vc) data_segment_length);
        let da_gas_cost = get_da_gas_cost state_changes (bi_use_kzg_da (bc_block_info bc));
        vm_resources_cost \<leftarrow> get_vm_resources_cost Q vc (vm_default\<lparr>vm_n_steps := os_steps_for_type\<rparr>) 0 mode;
        gv_checked_add da_gas_cost vm_resources_cost })"

fun check_bounds_list ::
    "(resource \<times> resource_bounds \<times> gas_amount \<times> gas_price) list \<Rightarrow> transaction_fee_error + unit" where
  "check_bounds_list [] = Inr ()"
| "check_bounds_list ((resource, resource_bounds, minimal_gas_amount, actual_gas_price) # rest) =
     (if max_amount resource_bounds < minimal_gas_amount
      then Inl (MaxGasAmountTooLow resource (max_amount resource_bounds) minimal_gas_amount)
      else if max_price_per_unit resource_bounds < actual_gas_price
      then Inl (MaxGasPriceTooLow resource (max_price_per_unit resource_bounds) actual_gas_price)
      else check_bounds_list rest)"

definition check_fee_bounds ::
    "'q ratio_ops \<Rightarrow> vm_ops \<Rightarrow> account_tx_sizes \<Rightarrow> 'q transaction_context \<Rightarrow> (transaction_fee_error + unit) option" where
  "check_fee_bounds Q V tx c = do {
     minimal \<leftarrow> estimate_minimal_gas_vector Q V (tc_block_context c) tx (gas_mode (tc_tx_info c));
     let prices = get_gas_prices c;
     (case tc_tx_info c of
        Current _ (L1GasBounds l1_bounds) \<Rightarrow> do {
          minimal_l1 \<leftarrow> to_discounted_l1_gas minimal prices;
          Some (check_bounds_list [(L1Gas, l1_bounds, minimal_l1, l1_gas_price prices)]) }
      | Current _ (AllResources b) \<Rightarrow>
          Some (check_bounds_list
            [(L1Gas, arb_l1_gas b, gv_l1_gas minimal, l1_gas_price prices),
             (L1DataGas, arb_l1_data_gas b, gv_l1_data_gas minimal, l1_data_gas_price prices),
             (L2Gas, arb_l2_gas b, gv_l2_gas minimal, l2_gas_price prices)])
      | Deprecated _ max_fee \<Rightarrow> do {
          min_fee \<leftarrow> gv_cost minimal prices;
          Some (if max_fee < min_fee then Inl (MaxFeeTooLow min_fee max_fee) else Inr ()) }) }"

datatype pre_validation_error =
    InvalidNonce contract_address nonce nonce
  | PreStateError state_error
  | PreFeeError transaction_fee_error

text \<open>The nonce check and the whole stage on a cached state.\<close>

definition handle_nonce ::
    "('s, 'c) state_reader \<Rightarrow> ('s, 'c) cached_state \<Rightarrow> transaction_info \<Rightarrow> bool
      \<Rightarrow> (('s, 'c) cached_state, pre_validation_error, unit) rs_result" where
  "handle_nonce R s t strict =
     (if is_v0 t then Some (s, Inr ())
      else (let address = ti_sender_address (common_fields t); incoming_tx_nonce = ti_nonce (common_fields t)
        in rs_try (map_err PreStateError (cs_get_nonce_at R s address)) (\<lambda>s1 account_nonce.
          (if (if strict then account_nonce = incoming_tx_nonce else account_nonce \<le> incoming_tx_nonce)
           then map_err PreStateError (cs_increment_nonce R s1 address)
           else Some (s1, Inl (InvalidNonce address account_nonce incoming_tx_nonce))))))"

definition perform_pre_validation_stage ::
    "'q ratio_ops \<Rightarrow> vm_ops \<Rightarrow> hash_functions \<Rightarrow> ('s, 'c) state_reader \<Rightarrow> account_tx_sizes \<Rightarrow> bool
      \<Rightarrow> ('s, 'c) cached_state \<Rightarrow> 'q transaction_context \<Rightarrow> bool \<Rightarrow> (('s, 'c) cached_state, pre_validation_error, unit) rs_result" where
  "perform_pre_validation_stage Q V H R tx charge_fee s c strict_nonce_check =
     rs_try (handle_nonce R s (tc_tx_info c) strict_nonce_check) (\<lambda>s1 _.
       if charge_fee then
         (case check_fee_bounds Q V tx c of
            None \<Rightarrow> None
          | Some (Inl e) \<Rightarrow> Some (s1, Inl (PreFeeError e))
          | Some (Inr _) \<Rightarrow> map_err PreFeeError (verify_can_pay_committed_bounds (cached_reader R) H s1 c))
       else Some (s1, Inr ()))"

section \<open>Checks after the execution\<close>

datatype fee_check_error =
    MaxGasAmountExceeded resource gas_amount gas_amount
  | MaxFeeExceeded fee fee
  | InsufficientFeeTokenBalance fee felt felt

record fee_check_report =
  recommended_fee :: fee
  report_error :: "fee_check_error option"

definition from_fee_check_error ::
    "fee \<Rightarrow> gas_vector \<Rightarrow> fee_check_error \<Rightarrow> 'q transaction_context \<Rightarrow> fee_check_report option" where
  "from_fee_check_error actual_fee actual_gas error c = do {
     recommended \<leftarrow> (case error of
         InsufficientFeeTokenBalance _ _ _ \<Rightarrow> Some actual_fee
       | MaxFeeExceeded _ _ \<Rightarrow> (case tc_tx_info c of Deprecated _ max_fee \<Rightarrow> Some max_fee | Current _ _ \<Rightarrow> None)
       | MaxGasAmountExceeded _ _ _ \<Rightarrow>
          (case tc_tx_info c of
             Deprecated _ _ \<Rightarrow> None
           | Current _ resource_bounds \<Rightarrow>
               get_fee_by_gas_vector (bi_gas_prices (bc_block_info (tc_block_context c)))
                 (case resource_bounds of
                    L1GasBounds l1_bounds \<Rightarrow> from_l1_gas (max_amount l1_bounds)
                  | AllResources b \<Rightarrow> \<lparr>
                      gv_l1_gas = min (max_amount (arb_l1_gas b)) (gv_l1_gas actual_gas),
                      gv_l1_data_gas = min (max_amount (arb_l1_data_gas b)) (gv_l1_data_gas actual_gas),
                      gv_l2_gas = min (max_amount (arb_l2_gas b)) (gv_l2_gas actual_gas)\<rparr>)
                 Strk));
     Some \<lparr>recommended_fee = recommended, report_error = Some error\<rparr> }"

fun check_amounts :: "(resource \<times> gas_amount \<times> gas_amount) list \<Rightarrow> fee_check_error + unit" where
  "check_amounts [] = Inr ()"
| "check_amounts ((resource, limit, actual_amount) # rest) =
     (if limit < actual_amount then Inl (MaxGasAmountExceeded resource limit actual_amount)
      else check_amounts rest)"

definition check_all_resources_within_bounds :: "all_resource_bounds \<Rightarrow> gas_vector \<Rightarrow> fee_check_error + unit" where
  "check_all_resources_within_bounds b gas_vector = check_amounts
     [(L1Gas, max_amount (arb_l1_gas b), gv_l1_gas gas_vector), (L2Gas, max_amount (arb_l2_gas b), gv_l2_gas gas_vector),
      (L1DataGas, max_amount (arb_l1_data_gas b), gv_l1_data_gas gas_vector)]"

definition check_l1_gas_within_bounds ::
    "resource_bounds \<Rightarrow> gas_vector \<Rightarrow> 'q transaction_context \<Rightarrow> (fee_check_error + unit) option" where
  "check_l1_gas_within_bounds l1_bounds gas_vector c = do {
     total_discounted_gas_used \<leftarrow> to_discounted_l1_gas gas_vector (get_gas_prices c);
     Some (if max_amount l1_bounds < total_discounted_gas_used
           then Inl (MaxGasAmountExceeded L1Gas (max_amount l1_bounds) total_discounted_gas_used) else Inr ()) }"

fun check_resources_within_bounds ::
    "valid_resource_bounds \<Rightarrow> gas_vector \<Rightarrow> 'q transaction_context \<Rightarrow> (fee_check_error + unit) option" where
  "check_resources_within_bounds (AllResources b) gas_vector c = Some (check_all_resources_within_bounds b gas_vector)"
| "check_resources_within_bounds (L1GasBounds l1_bounds) gas_vector c = check_l1_gas_within_bounds l1_bounds gas_vector c"

definition check_actual_cost_within_bounds ::
    "'q transaction_context \<Rightarrow> transaction_receipt \<Rightarrow> (fee_check_error + unit) option" where
  "check_actual_cost_within_bounds c r =
     (case tc_tx_info c of
        Current _ resource_bounds \<Rightarrow> check_resources_within_bounds resource_bounds (rcpt_gas r) c
      | Deprecated _ max_fee \<Rightarrow>
          Some (if max_fee < rcpt_fee r then Inl (MaxFeeExceeded max_fee (rcpt_fee r)) else Inr ()))"

datatype execution_error = FeeCheckFailed fee_check_error | FeeError transaction_fee_error

definition check_can_pay_fee ::
    "('s, 'c) state_reader \<Rightarrow> hash_functions \<Rightarrow> 's \<Rightarrow> 'q transaction_context \<Rightarrow> transaction_receipt
      \<Rightarrow> ('s, execution_error, unit) rs_result" where
  "check_can_pay_fee R H s c r =
     rs_try (map_err FeeError (get_balance_and_if_covers_fee R H s c (rcpt_fee r)))
       (\<lambda>s1 (balance_low, balance_high, can_pay).
         Some (s1, if can_pay then Inr ()
           else Inl (FeeCheckFailed (InsufficientFeeTokenBalance (rcpt_fee r) balance_low balance_high))))"

definition post_validation_verify :: "'q transaction_context \<Rightarrow> transaction_receipt \<Rightarrow> (fee_check_error + unit) option" where
  "post_validation_verify c r =
     (if \<not> enforce_fee (tc_tx_info c) then Some (Inr ()) else check_actual_cost_within_bounds c r)"

definition post_execution_new ::
    "('s, 'c) state_reader \<Rightarrow> hash_functions \<Rightarrow> 's \<Rightarrow> 'q transaction_context \<Rightarrow> transaction_receipt \<Rightarrow> bool
      \<Rightarrow> ('s, execution_error, fee_check_report) rs_result" where
  "post_execution_new R H s c r charge_fee =
     (if \<not> charge_fee then Some (s, Inr \<lparr>recommended_fee = rcpt_fee r, report_error = None\<rparr>)
      else do {
        cost_within_bounds_result \<leftarrow> check_actual_cost_within_bounds c r;
        (s1, can_pay_fee_result) \<leftarrow> check_can_pay_fee R H s c r;
        (case (cost_within_bounds_result, can_pay_fee_result) of
           (Inl fee_check_error, _) \<Rightarrow>
             map_option (\<lambda>report. (s1, Inr report)) (from_fee_check_error (rcpt_fee r) (rcpt_gas r) fee_check_error c)
         | (Inr _, Inr _) \<Rightarrow> Some (s1, Inr \<lparr>recommended_fee = rcpt_fee r, report_error = None\<rparr>)
         | (Inr _, Inl (FeeCheckFailed fee_check_error)) \<Rightarrow>
             map_option (\<lambda>report. (s1, Inr report)) (from_fee_check_error (rcpt_fee r) (rcpt_gas r) fee_check_error c)
         | (Inr _, Inl other_error) \<Rightarrow> Some (s1, Inl other_error)) })"

text \<open>The assertion on the fee that is charged in the end.\<close>

definition assert_actual_fee_in_bounds :: "transaction_info \<Rightarrow> fee \<Rightarrow> unit option" where
  "assert_actual_fee_in_bounds t actual_fee =
     (case t of
        Current _ resource_bounds \<Rightarrow> rs_assert (\<not> max_possible_fee resource_bounds < actual_fee)
      | Deprecated _ max_fee \<Rightarrow> rs_assert (\<not> max_fee < actual_fee))"

section \<open>Fees stay within the bounds\<close>

lemma check_amounts_ok: "check_amounts l = Inr u \<longleftrightarrow> list_all (\<lambda>(_, limit, actual). actual \<le> limit) l"
  by (induction l rule: check_amounts.induct) (auto simp: not_less)

lemma check_bounds_ok:
  "check_bounds_list l = Inr u \<Longrightarrow> list_all (\<lambda>(_, b, _, price). price \<le> max_price_per_unit b) l"
  by (induction l rule: check_bounds_list.induct) (auto simp: not_less split: if_splits)

lemma product_mono: "p \<le> (q :: u128) \<Longrightarrow> a \<le> (b :: u64) \<Longrightarrow> unat p * unat a \<le> unat q * unat b"
  by (simp add: word_le_nat_alt mult_mono)

lemma all_resources_fee_bound:
  assumes "gv_cost g p = Some f"
    and "l1_gas_price p \<le> max_price_per_unit (arb_l1_gas b)" "gv_l1_gas g \<le> max_amount (arb_l1_gas b)"
    and "l1_data_gas_price p \<le> max_price_per_unit (arb_l1_data_gas b)" "gv_l1_data_gas g \<le> max_amount (arb_l1_data_gas b)"
    and "l2_gas_price p \<le> max_price_per_unit (arb_l2_gas b)" "gv_l2_gas g \<le> max_amount (arb_l2_gas b)"
  shows "f \<le> max_possible_fee (AllResources b)"
proof -
  have "unat f < 2 ^ 128" by (rule order_less_le_trans[OF unsigned_less]) simp
  then have "unat f \<le> unat (max_possible_fee (AllResources b))"
    using product_mono[OF assms(2,3)] product_mono[OF assms(4,5)] product_mono[OF assms(6,7)]
    unfolding unat_max_possible_fee gv_cost_Some[OF assms(1)] by simp
  then show ?thesis by (simp add: word_le_nat_alt)
qed

text \<open>Rounding up without wrapping around.\<close>

lemma div_ceil_covers: "0 < y \<Longrightarrow> x div y < 2 ^ 64 - 1 \<Longrightarrow> x \<le> y * div_ceil_wrapping x y"
proof -
  assume "0 < y" "x div y < 2 ^ 64 - 1"
  moreover have "x \<le> y * (x div y) + y" using \<open>0 < y\<close> mult_div_mod_eq[of y x] mod_less_divisor[of y x] by linarith
  ultimately show ?thesis by (auto simp: div_ceil_wrapping_def)
qed

lemma l1_gas_fee_bound:
  assumes "gv_cost g p = Some f" "to_discounted_l1_gas g p = Some used" "l1_gas_price p \<noteq> 0"
    and "unat (l1_data_gas_price p) * unat (gv_l1_data_gas g) div unat (l1_gas_price p) < 2 ^ 64 - 1"
    and "used \<le> max_amount b" "l1_gas_price p \<le> max_price_per_unit b"
  shows "f \<le> max_possible_fee (L1GasBounds b)"
proof -
  let ?p1 = "unat (l1_gas_price p)" and ?d = "unat (l1_data_gas_price p) * unat (gv_l1_data_gas g)"
  have l2: "gv_l2_gas g = 0" using assms(2) by (auto simp: to_discounted_l1_gas_def word_gt_0 split: if_splits)
  have "unat used = unat (gv_l1_gas g) + div_ceil_wrapping ?d ?p1"
    using discounted_l1_gas_eq[OF assms(3) l2] assms(2) by (auto simp: Let_def split: if_splits)
  moreover have "?d \<le> ?p1 * div_ceil_wrapping ?d ?p1"
    by (rule div_ceil_covers) (use assms(3,4) in \<open>auto simp: unat_gt_0\<close>)
  ultimately have le: "unat f \<le> ?p1 * unat used"
    using gv_cost_Some[OF assms(1)] by (simp add: l2 distrib_left)
  have "unat f < 2 ^ 128" by (rule order_less_le_trans[OF unsigned_less]) simp
  with order_trans[OF le product_mono[OF assms(6,5)]]
  have "unat f \<le> unat (max_possible_fee (L1GasBounds b))" by (simp add: unat_rb_max_fee)
  then show ?thesis by (simp add: word_le_nat_alt)
qed

lemma receipt_fee:
  assumes "receipt_from_params Q V H c p = Some r"
  shows "rcpt_fee r = 0 \<and> is_v0 (tc_tx_info c) \<or> gv_cost (rcpt_gas r) (get_gas_prices c) = Some (rcpt_fee r)"
  using assms
  by (auto simp: receipt_from_params_def Let_def bind_eq_Some_conv get_fee_by_gas_vector_def get_gas_prices_def
    split: if_splits)

text \<open>The prices that the pre-validation accepted.\<close>

fun prices_accepted :: "transaction_info \<Rightarrow> gas_price_vector \<Rightarrow> bool" where
  "prices_accepted (Current _ (L1GasBounds b)) p \<longleftrightarrow> l1_gas_price p \<le> max_price_per_unit b"
| "prices_accepted (Current _ (AllResources b)) p \<longleftrightarrow>
     l1_gas_price p \<le> max_price_per_unit (arb_l1_gas b) \<and> l1_data_gas_price p \<le> max_price_per_unit (arb_l1_data_gas b) \<and>
     l2_gas_price p \<le> max_price_per_unit (arb_l2_gas b)"
| "prices_accepted (Deprecated _ _) p \<longleftrightarrow> True"

lemma tx_info_cases:
  obtains (l1) f b where "t = Current f (L1GasBounds b)" | (all) f b where "t = Current f (AllResources b)"
    | (deprecated) f max_fee where "t = Deprecated f max_fee"
  by (metis transaction_info.exhaust valid_resource_bounds.exhaust)

lemma check_fee_bounds_prices:
  assumes "check_fee_bounds Q V tx c = Some (Inr u)"
  shows "prices_accepted (tc_tx_info c) (get_gas_prices c)"
proof (cases "tc_tx_info c" rule: tx_info_cases)
  case (l1 f b)
  with assms obtain x where "check_bounds_list [(L1Gas, b, x, l1_gas_price (get_gas_prices c))] = Inr u"
    by (auto simp: check_fee_bounds_def Let_def bind_eq_Some_conv simp del: check_bounds_list.simps)
  from check_bounds_ok[OF this] l1 show ?thesis by simp
next
  case (all f b)
  with assms obtain x y z where "check_bounds_list [(L1Gas, arb_l1_gas b, x, l1_gas_price (get_gas_prices c)),
      (L1DataGas, arb_l1_data_gas b, y, l1_data_gas_price (get_gas_prices c)),
      (L2Gas, arb_l2_gas b, z, l2_gas_price (get_gas_prices c))] = Inr u"
    by (auto simp: check_fee_bounds_def Let_def bind_eq_Some_conv simp del: check_bounds_list.simps)
  from check_bounds_ok[OF this] all show ?thesis by simp
qed simp

text \<open>What holds of the context of an account transaction: version 3 has resource bounds, prices are not zero,
  and the data gas, in units of L1 gas, is below \<^verbatim>\<open>u64::MAX\<close>.\<close>

definition fee_context_ok :: "'q transaction_context \<Rightarrow> transaction_receipt \<Rightarrow> bool" where
  "fee_context_ok c r \<longleftrightarrow>
     (case tc_tx_info c of Current common _ \<Rightarrow> 3 \<le> ti_version common | Deprecated _ _ \<Rightarrow> True) \<and>
     l1_gas_price (get_gas_prices c) \<noteq> 0 \<and>
     unat (l1_data_gas_price (get_gas_prices c)) * unat (gv_l1_data_gas (rcpt_gas r)) div
       unat (l1_gas_price (get_gas_prices c)) < 2 ^ 64 - 1"

lemma fee_within_bounds:
  assumes "check_actual_cost_within_bounds c r = Some (Inr u)" "prices_accepted (tc_tx_info c) (get_gas_prices c)"
    and "rcpt_fee r = 0 \<or> gv_cost (rcpt_gas r) (get_gas_prices c) = Some (rcpt_fee r)" "fee_context_ok c r"
  shows "rcpt_fee r \<le> committed_fee (tc_tx_info c)"
proof (cases "rcpt_fee r = 0")
  case False
  with assms(3) have cost: "gv_cost (rcpt_gas r) (get_gas_prices c) = Some (rcpt_fee r)" by simp
  show ?thesis
  proof (cases "tc_tx_info c" rule: tx_info_cases)
    case (l1 f b)
    then obtain used where "to_discounted_l1_gas (rcpt_gas r) (get_gas_prices c) = Some used" "used \<le> max_amount b"
      using assms(1)
      by (auto simp: check_actual_cost_within_bounds_def check_l1_gas_within_bounds_def bind_eq_Some_conv not_less
        split: if_splits)
    with l1 cost assms(2,4) l1_gas_fee_bound[of "rcpt_gas r" "get_gas_prices c" "rcpt_fee r" used b] show ?thesis
      by (auto simp: fee_context_ok_def committed_fee_def)
  next
    case (all f b)
    with assms(1,2) cost all_resources_fee_bound[of "rcpt_gas r" "get_gas_prices c" "rcpt_fee r" b] show ?thesis
      by (auto simp: check_actual_cost_within_bounds_def check_all_resources_within_bounds_def check_amounts_ok
        committed_fee_def simp del: check_amounts.simps)
  next
    case deprecated
    with assms(1) show ?thesis
      by (auto simp: check_actual_cost_within_bounds_def committed_fee_def not_less split: if_splits)
  qed
qed simp

lemma get_fee_strk:
  "tc_tx_info c = Current f b \<Longrightarrow> fee_context_ok c r \<Longrightarrow>
     get_fee_by_gas_vector (bi_gas_prices (bc_block_info (tc_block_context c))) g Strk = gv_cost g (get_gas_prices c)"
  by (simp add: get_fee_by_gas_vector_def get_gas_prices_def fee_type_of_def fee_context_ok_def)

lemma reverted_fee_within_bounds:
  assumes "from_fee_check_error fee gas err c = Some report" "prices_accepted (tc_tx_info c) (get_gas_prices c)"
    and "fee_context_ok c r" "\<And>x y z. err = InsufficientFeeTokenBalance x y z \<Longrightarrow> fee \<le> committed_fee (tc_tx_info c)"
  shows "recommended_fee report \<le> committed_fee (tc_tx_info c)"
proof (cases err)
  case (MaxGasAmountExceeded x y z)
  with assms(1) obtain f v where v: "tc_tx_info c = Current f v"
    by (auto simp: from_fee_check_error_def bind_eq_Some_conv split: transaction_info.splits)
  note strk = get_fee_strk[OF v assms(3)]
  show ?thesis
  proof (cases v)
    case (L1GasBounds b)
    with assms(1) v MaxGasAmountExceeded have cost: "gv_cost (from_l1_gas (max_amount b)) (get_gas_prices c) = Some (recommended_fee report)"
      by (auto simp: from_fee_check_error_def bind_eq_Some_conv strk)
    have "unat (recommended_fee report) < 2 ^ 128" by (rule order_less_le_trans[OF unsigned_less]) simp
    with gv_cost_Some[OF cost] product_mono[of "l1_gas_price (get_gas_prices c)" "max_price_per_unit b" "max_amount b" "max_amount b"]
      assms(2) v L1GasBounds show ?thesis
      by (simp add: committed_fee_def word_le_nat_alt unat_rb_max_fee from_l1_gas_def gv_zero_def)
  next
    case (AllResources b)
    let ?g = "\<lparr>gv_l1_gas = min (max_amount (arb_l1_gas b)) (gv_l1_gas gas),
      gv_l1_data_gas = min (max_amount (arb_l1_data_gas b)) (gv_l1_data_gas gas),
      gv_l2_gas = min (max_amount (arb_l2_gas b)) (gv_l2_gas gas)\<rparr>"
    have "gv_cost ?g (get_gas_prices c) = Some (recommended_fee report)"
      using assms(1) v MaxGasAmountExceeded AllResources by (auto simp: from_fee_check_error_def bind_eq_Some_conv strk)
    with all_resources_fee_bound[of ?g "get_gas_prices c" "recommended_fee report" b] assms(2) v AllResources
    show ?thesis by (simp add: committed_fee_def)
  qed
qed (use assms(1,4) in \<open>auto simp: from_fee_check_error_def committed_fee_def bind_eq_Some_conv split: transaction_info.splits\<close>)

lemma covers_fee_mono:
  assumes "verify_can_pay_committed_bounds R H s c = Some (s', Inr u)" "fee \<le> committed_fee (tc_tx_info c)"
  shows "\<exists>lo hi. get_balance_and_if_covers_fee R H s c fee = Some (s', Inr (lo, hi, True))"
  using assms
  by (auto simp: verify_can_pay_committed_bounds_def get_balance_and_if_covers_fee_def rs_try_def map_err_def
    word_le_nat_alt split: option.splits sum.splits if_splits)

lemma post_execution_cases:
  assumes "post_execution_new R H s c r True = Some (s', Inr report)"
  obtains (bounds) e where "check_actual_cost_within_bounds c r = Some (Inl e)"
      "from_fee_check_error (rcpt_fee r) (rcpt_gas r) e c = Some report"
    | (balance) e where "check_actual_cost_within_bounds c r = Some (Inr ())"
      "from_fee_check_error (rcpt_fee r) (rcpt_gas r) e c = Some report"
    | (ok) "check_actual_cost_within_bounds c r = Some (Inr ())" "recommended_fee report = rcpt_fee r"
proof (cases "check_actual_cost_within_bounds c r")
  case (Some cost)
  with assms obtain s1 pay where pay: "check_can_pay_fee R H s c r = Some (s1, pay)"
    by (auto simp: post_execution_new_def bind_eq_Some_conv)
  show thesis
  proof (cases cost)
    case (Inl e)
    with Some pay assms that(1) show ?thesis by (auto simp: post_execution_new_def)
  next
    case (Inr u)
    show ?thesis
    proof (cases pay)
      case (Inl e)
      with Inr Some pay assms that(2) show ?thesis by (cases e) (auto simp: post_execution_new_def)
    next
      case (Inr u')
      with \<open>cost = Inr u\<close> Some pay assms that(3) show ?thesis by (auto simp: post_execution_new_def)
    qed
  qed
qed (use assms in \<open>simp add: post_execution_new_def\<close>)

lemma bounds_errors: "check_actual_cost_within_bounds c r \<noteq> Some (Inl (InsufficientFeeTokenBalance x y z))"
  by (cases "tc_tx_info c" rule: tx_info_cases)
    (auto simp: check_actual_cost_within_bounds_def check_l1_gas_within_bounds_def check_all_resources_within_bounds_def
      bind_eq_Some_conv)

section \<open>Properties\<close>

text \<open>C8: What is charged stays within what the sender committed to. If a transaction passed the checks of its
  fee bounds and of its balance before the execution, then the fee that the post-execution report recommends,
  be it the actual fee, the fee of a reverted transaction or the maximal fee, passes the assertion on the fee
  that is charged, and the balance before the execution covers it. Assumed of the context is that version 3
  transactions have resource bounds, that the price of L1 gas is not zero, and that the data gas in units of L1
  gas is below \<^verbatim>\<open>u64::MAX\<close> (see the exception of \<open>discounted_l1_gas_eq\<close>).\<close>

theorem charged_fee_is_within_committed_bounds:
  assumes "check_fee_bounds Q V tx c = Some (Inr ())" "verify_can_pay_committed_bounds R H s0 c = Some (s1, Inr ())"
    and "receipt_from_account_tx Q V H tx c changes summary reverted_steps = Some r" "fee_context_ok c r"
    and "post_execution_new R' H s2 c r True = Some (s3, Inr report)"
  shows "assert_actual_fee_in_bounds (tc_tx_info c) (recommended_fee report) = Some () \<and>
    (\<exists>lo hi. get_balance_and_if_covers_fee R H s0 c (recommended_fee report) = Some (s1, Inr (lo, hi, True)))"
proof -
  note prices = check_fee_bounds_prices[OF assms(1)]
  have fee: "rcpt_fee r = 0 \<or> gv_cost (rcpt_gas r) (get_gas_prices c) = Some (rcpt_fee r)"
    using receipt_fee assms(3) unfolding receipt_from_account_tx_def by blast
  have "recommended_fee report \<le> committed_fee (tc_tx_info c)"
    using assms(5)
  proof (cases rule: post_execution_cases)
    case (bounds e)
    then show ?thesis
      by (intro reverted_fee_within_bounds[OF _ prices assms(4)]) (auto simp: bounds_errors)
  next
    case (balance e)
    with fee_within_bounds[OF _ prices fee assms(4)] show ?thesis
      by (intro reverted_fee_within_bounds[OF _ prices assms(4)]) auto
  next
    case ok
    with fee_within_bounds[OF _ prices fee assms(4)] show ?thesis by simp
  qed
  moreover from this have "assert_actual_fee_in_bounds (tc_tx_info c) (recommended_fee report) = Some ()"
    by (auto simp: assert_actual_fee_in_bounds_def committed_fee_def not_less split: transaction_info.splits)
  ultimately show ?thesis using covers_fee_mono[OF assms(2)] by blast
qed

text \<open>A transaction whose L2 gas bound of 300 is too low for its 600 units: it is charged for 300 of them, and for
  its 64 units of data gas.\<close>

definition sample_ratios :: "u64 ratio_ops" where
  "sample_ratios = \<lparr>ratio_new = (\<lambda>a b. a div b), ratio_mul = (*), ratio_mul_int = (*), ratio_add_int = (+),
     ratio_inv = (\<lambda>q. q), ratio_ceil = (\<lambda>q. q), ratio_to_integer = (\<lambda>q. q)\<rparr>"

definition sample_vm_ops :: vm_ops where
  "sample_vm_ops = \<lparr>
     vm_plus = (\<lambda>a b. \<lparr>vm_n_steps = vm_n_steps a + vm_n_steps b,
       vm_n_memory_holes = vm_n_memory_holes a + vm_n_memory_holes b, vm_builtins = vm_builtins a @ vm_builtins b\<rparr>),
     vm_times = (\<lambda>a n. \<lparr>vm_n_steps = vm_n_steps a * n, vm_n_memory_holes = vm_n_memory_holes a * n,
       vm_builtins = map (map_prod id ((*) n)) (vm_builtins a)\<rparr>),
     vm_filter_unused_builtins = vm_builtins_update (filter (\<lambda>(_, n). n \<noteq> 0))\<rparr>"

definition sample_hashes :: hash_functions where
  "sample_hashes = \<lparr>keccak256 = (\<lambda>_. 0), pedersen_hash = (\<lambda>_ x. 10 * x)\<rparr>"

definition sample_constants :: "u64 versioned_constants" where
  "sample_constants =
     (let free = \<lparr>gas_per_data_felt = 0, event_key_factor = 0, gas_per_code_byte = 0\<rparr>
      in \<lparr>vc_archival_data_gas_costs = free, vc_deprecated_l2_resource_gas_costs = free,
        vc_ignore_inner_event_resources = False,
        vc_vm_resource_fee_cost = \<lparr>vrc_n_steps = 1, vrc_builtins = []\<rparr>,
        vc_allocation_cost = \<lparr>blob_cost = gv_zero, gas_cost = gv_zero\<rparr>,
        vc_os_resources = \<lparr>
          execute_txs_inner = (\<lambda>_. Some \<lparr>rp_constant = vm_default\<lparr>vm_n_steps := 100\<rparr>, rp_calldata_factor = vm_default\<rparr>),
          compute_os_kzg_commitment_info = vm_default\<rparr>,
        vc_step_gas_cost = 1, vc_execute_max_sierra_gas = 1000, vc_validate_max_sierra_gas = 1000,
        vc_validate_block_number_rounding = 1, vc_validate_timestamp_rounding = 1\<rparr>)"

definition sample_context :: "u64 transaction_context" where
  "sample_context =
     (let prices = \<lparr>l1_gas_price = 1, l1_data_gas_price = 1, l2_gas_price = 1\<rparr>
      in \<lparr>tc_block_context = \<lparr>
          bc_block_info = \<lparr>bi_block_number = 7, bi_block_timestamp = 7, bi_sequencer_address = 4,
            bi_gas_prices = \<lparr>eth_gas_prices = prices, strk_gas_prices = prices\<rparr>, bi_use_kzg_da = True\<rparr>,
          bc_fee_token_addresses = \<lparr>strk_fee_token_address = 1, eth_fee_token_address = 2\<rparr>,
          bc_versioned_constants = sample_constants\<rparr>,
        tc_tx_info = Current \<lparr>ti_transaction_hash = 9, ti_version = 3, ti_signature = [], ti_nonce = 0,
            ti_sender_address = 5, ti_only_query = False\<rparr>
          (AllResources \<lparr>arb_l1_gas = \<lparr>max_amount = 10, max_price_per_unit = 2\<rparr>,
             arb_l2_gas = \<lparr>max_amount = 300, max_price_per_unit = 2\<rparr>,
             arb_l1_data_gas = \<lparr>max_amount = 200, max_price_per_unit = 2\<rparr>\<rparr>)\<rparr>)"

definition sample_sizes :: account_tx_sizes where
  "sample_sizes = \<lparr>at_calldata_length = 0, at_signature_length = 0, at_declare_code_size = 0, at_tx_type = InvokeFunction\<rparr>"

definition sample_changes :: state_changes where
  "sample_changes = \<lparr>ch_state_maps = sm_default, ch_allocated_keys = {}\<rparr>"

definition sample_summary :: execution_summary where
  "sample_summary = execution_summary_default\<lparr>es_charged_resources := charged_from_gas 500\<rparr>"

definition sample_balances :: "nat dict_state_reader" where
  "sample_balances = (sample_dict 0)\<lparr>dict_storage_view := [(1, 50) \<mapsto> 2000]\<rparr>"

lemmas sample_fee_defs = sample_context_def sample_constants_def sample_sizes_def sample_ratios_def sample_vm_ops_def
  sample_hashes_def

lemma sample_check_fee_bounds: "check_fee_bounds sample_ratios sample_vm_ops sample_sizes sample_context = Some (Inr ())"
  by (simp add: sample_fee_defs check_fee_bounds_def estimate_minimal_gas_vector_def Let_def resources_for_tx_type_def
    minimal_state_changes_def get_onchain_data_segment_length_def gas_constant_defs os_kzg_da_resources_def vm_default_def
    get_da_gas_cost_def get_vm_resources_cost_def prover_builtins_def total_n_steps_def from_l2_gas_def gv_zero_def
    l1_gas_to_sierra_gas_amount_round_up_def sierra_gas_in_l1_gas_amount_def gv_checked_add_def checked_add_def
    get_gas_prices_def fee_type_of_def)

lemma sample_balance:
  "get_fee_token_balance dict_reader sample_hashes sample_balances (sender_address sample_context)
     (fee_token_address sample_context) = Some (sample_balances, Inr (2000, 0))"
proof -
  have key: "get_fee_token_var_address sample_hashes 5 = 50"
    by (simp add: get_fee_token_var_address_def get_storage_var_address_def starknet_keccak_def L2_ADDRESS_UPPER_BOUND_def
      CONTRACT_ADDRESS_DOMAIN_SIZE_def MAX_STORAGE_ITEM_SIZE_def sample_hashes_def)
  have addresses: "sender_address sample_context = 5" "fee_token_address sample_context = 1"
    by (simp_all add: sample_context_def Let_def sender_address_def fee_token_address_def fee_type_of_def)
  show ?thesis
    using next_balance_key[of sample_hashes 5] unfolding get_fee_token_balance_def Let_def addresses key
    by (simp add: sample_balances_def dict_reader_def unwrap_or_default_def)
qed

lemma sample_verify: "verify_can_pay_committed_bounds dict_reader sample_hashes sample_balances sample_context = Some (sample_balances, Inr ())"
proof -
  have "unat (committed_fee (tc_tx_info sample_context)) = 1020"
    by (simp add: committed_fee_def sample_context_def Let_def unat_saturating unat_rb_max_fee)
  then show ?thesis
    by (simp add: verify_can_pay_committed_bounds_def get_balance_and_if_covers_fee_def sample_balance map_err_def)
qed

definition sample_resources :: transaction_resources where
  "sample_resources = \<lparr>
     tr_starknet_resources = \<lparr>
       sr_archival_data = \<lparr>ad_event_summary = event_summary_default, ad_calldata_length = 0, ad_signature_length = 0,
         ad_code_size = 0\<rparr>,
       sr_messages = \<lparr>mr_l2_to_l1_payload_lengths = [], mr_message_segment_length = 0, mr_l1_handler_payload_size = None\<rparr>,
       sr_state = \<lparr>state_changes_for_fee = \<lparr>fee_state_changes_count = \<lparr>n_storage_updates = 1, n_class_hash_updates = 0,
         n_compiled_class_hash_updates = 0, n_modified_contracts = 0\<rparr>, n_allocated_keys = 0\<rparr>\<rparr>\<rparr>,
     tr_computation = \<lparr>cr_vm_resources = \<lparr>vm_n_steps = 100, vm_n_memory_holes = 0, vm_builtins = []\<rparr>,
       cr_n_reverted_steps = 0, cr_sierra_gas = 500, cr_reverted_sierra_gas = 0\<rparr>\<rparr>"

definition sample_receipt :: transaction_receipt where
  "sample_receipt = \<lparr>rcpt_fee = 664, rcpt_gas = \<lparr>gv_l1_gas = 0, gv_l1_data_gas = 64, gv_l2_gas = 600\<rparr>,
     rcpt_da_gas = \<lparr>gv_l1_gas = 0, gv_l1_data_gas = 64, gv_l2_gas = 0\<rparr>, rcpt_resources = sample_resources\<rparr>"

lemma sample_da_gas:
  "get_da_gas_cost \<lparr>n_storage_updates = Suc 0, n_class_hash_updates = 0, n_compiled_class_hash_updates = 0,
     n_modified_contracts = 0\<rparr> True = \<lparr>gv_l1_gas = 0, gv_l1_data_gas = 64, gv_l2_gas = 0\<rparr>"
  by (simp add: get_da_gas_cost_def get_onchain_data_segment_length_def gas_constant_defs gv_zero_def)

lemma sample_archival_gas:
  "archival_data_to_gas_vector sample_ratios sample_constants \<lparr>ad_event_summary = event_summary_default,
     ad_calldata_length = 0, ad_signature_length = 0, ad_code_size = 0\<rparr> All = Some gv_zero"
  by (simp add: archival_data_to_gas_vector_def sample_ratios_def sample_constants_def Let_def from_l2_gas_def gv_zero_def
    get_calldata_and_signature_gas_cost_def get_code_gas_cost_def get_events_gas_cost_def checked_add_def)

lemma sample_message_gas:
  "messages_to_gas_vector \<lparr>mr_l2_to_l1_payload_lengths = [], mr_message_segment_length = 0,
     mr_l1_handler_payload_size = None\<rparr> = Some gv_zero"
  by (simp add: messages_to_gas_vector_def get_starknet_gas_cost_def get_log_message_to_l1_emissions_cost_def
    from_l1_gas_def get_consumed_message_to_l2_emissions_cost_def gv_zero_def gv_checked_add_def)

lemma sample_gas:
  "resources_to_gas_vector sample_ratios sample_constants sample_resources True All =
     Some \<lparr>gv_l1_gas = 0, gv_l1_data_gas = 64, gv_l2_gas = 600\<rparr>"
proof -
  let ?r = "sample_resources"
  have state: "state_to_gas_vector (sr_state (tr_starknet_resources ?r)) True (vc_allocation_cost sample_constants) =
      Some \<lparr>gv_l1_gas = 0, gv_l1_data_gas = 64, gv_l2_gas = 0\<rparr>"
    by (simp add: state_to_gas_vector_def sample_resources_def sample_constants_def Let_def allocation_get_cost_def
      da_gas_vector_def sample_da_gas gv_zero_def gv_checked_scalar_mul_def gv_checked_add_def checked_add_def)
  have comp: "computation_to_gas_vector sample_ratios sample_constants (tr_computation ?r) All = Some (from_l2_gas 600)"
    by (simp add: computation_to_gas_vector_def get_vm_resources_cost_def sample_resources_def sample_constants_def Let_def
      prover_builtins_def total_n_steps_def l1_gas_to_sierra_gas_amount_round_up_def sierra_gas_in_l1_gas_amount_def
      sample_ratios_def from_l2_gas_def gv_zero_def gv_checked_add_def checked_add_def)
  have "starknet_to_gas_vector sample_ratios sample_constants (tr_starknet_resources ?r) True All =
      Some \<lparr>gv_l1_gas = 0, gv_l1_data_gas = 64, gv_l2_gas = 0\<rparr>"
    using state unfolding starknet_to_gas_vector_def
    by (simp add: sample_resources_def sample_archival_gas sample_message_gas gv_zero_def gv_checked_add_def checked_add_def)
  with comp show ?thesis
    by (simp add: resources_to_gas_vector_def from_l2_gas_def gv_zero_def gv_checked_add_def checked_add_def)
qed

lemma sample_receipt_ok:
  "receipt_from_account_tx sample_ratios sample_vm_ops sample_hashes sample_sizes sample_context sample_changes
     sample_summary 0 = Some sample_receipt"
proof -
  have sr: "starknet_resources_new 0 0 0 (state_resources_new (get_fee_token_var_address sample_hashes) sample_changes
      (Some 5) 1) None sample_summary = tr_starknet_resources sample_resources"
    by (simp add: starknet_resources_new_def state_resources_new_def count_for_fee_charge_def sample_changes_def sm_default_def
      get_contract_addresses_def message_resources_new_def get_message_segment_length_def sample_summary_def
      execution_summary_default_def sample_resources_def)
  have os: "get_additional_os_tx_resources sample_vm_ops (vc_os_resources sample_constants) InvokeFunction 0 n True =
      Some (vm_default\<lparr>vm_n_steps := 100\<rparr>)" for n
    by (simp add: get_additional_os_tx_resources_def resources_for_tx_type_def sample_constants_def Let_def sample_vm_ops_def
      os_kzg_da_resources_def vm_default_def)
  have tx: "\<lparr>tr_starknet_resources = tr_starknet_resources sample_resources, tr_computation = \<lparr>
      cr_vm_resources = vm_filter_unused_builtins sample_vm_ops (vm_plus sample_vm_ops
        (ch_vm_resources (es_charged_resources sample_summary)) (vm_default\<lparr>vm_n_steps := 100\<rparr>)),
      cr_n_reverted_steps = 0, cr_sierra_gas = ch_gas_for_fee (es_charged_resources sample_summary),
      cr_reverted_sierra_gas = 0\<rparr>\<rparr> = sample_resources"
    by (simp add: sample_summary_def execution_summary_default_def charged_from_gas_def charged_default_def vm_default_def
      sample_vm_ops_def sample_resources_def)
  have ctx: "bc_versioned_constants (tc_block_context sample_context) = sample_constants"
    "bi_use_kzg_da (bc_block_info (tc_block_context sample_context)) = True" "fee_token_address sample_context = 1"
    "sender_address sample_context = 5" "gas_mode (tc_tx_info sample_context) = All" "fee_type_of (tc_tx_info sample_context) = Strk"
    by (simp_all add: sample_context_def Let_def fee_token_address_def sender_address_def fee_type_of_def)
  have cost: "get_fee_by_gas_vector (bi_gas_prices (bc_block_info (tc_block_context sample_context)))
      \<lparr>gv_l1_gas = 0, gv_l1_data_gas = 64, gv_l2_gas = 600\<rparr> Strk = Some 664"
    by (simp add: sample_context_def Let_def get_fee_by_gas_vector_def gv_cost_def price_checked_mul_def checked_mul_def
      checked_add_def)
  have da: "da_gas_vector (sr_state (tr_starknet_resources sample_resources)) True =
      \<lparr>gv_l1_gas = 0, gv_l1_data_gas = 64, gv_l2_gas = 0\<rparr>"
    by (simp add: da_gas_vector_def sample_resources_def sample_da_gas)
  have len: "ad_calldata_length (sr_archival_data (tr_starknet_resources sample_resources)) = 0"
    by (simp add: sample_resources_def)
  show ?thesis
    unfolding receipt_from_account_tx_def receipt_from_params_def Let_def ctx
    by (simp add: sample_sizes_def sr os tx sample_gas cost da len sample_receipt_def del: One_nat_def)
qed

theorem charged_fee_is_within_committed_bounds_witness:
  "(\<exists>s report. post_execution_new dict_reader sample_hashes sample_balances sample_context sample_receipt True =
       Some (s, Inr report) \<and> recommended_fee report = 364 \<and>
     assert_actual_fee_in_bounds (tc_tx_info sample_context) 364 = Some ())"
proof -
  let ?report = "\<lparr>recommended_fee = 364, report_error = Some (MaxGasAmountExceeded L2Gas 300 600)\<rparr>"
  have ok: "fee_context_ok sample_context sample_receipt"
    by (simp add: fee_context_ok_def sample_context_def Let_def get_gas_prices_def sample_receipt_def fee_type_of_def)
  have cost: "check_actual_cost_within_bounds sample_context sample_receipt = Some (Inl (MaxGasAmountExceeded L2Gas 300 600))"
    by (simp add: check_actual_cost_within_bounds_def sample_context_def Let_def sample_receipt_def
      check_all_resources_within_bounds_def)
  have from_error: "from_fee_check_error (rcpt_fee sample_receipt) (rcpt_gas sample_receipt) (MaxGasAmountExceeded L2Gas 300 600)
      sample_context = Some ?report"
    by (simp add: from_fee_check_error_def sample_context_def Let_def sample_receipt_def get_fee_by_gas_vector_def gv_cost_def
      price_checked_mul_def checked_mul_def checked_add_def)
  have "check_can_pay_fee dict_reader sample_hashes sample_balances sample_context sample_receipt = Some (sample_balances, Inr ())"
    by (simp add: check_can_pay_fee_def get_balance_and_if_covers_fee_def sample_balance map_err_def sample_receipt_def)
  with cost from_error have post: "post_execution_new dict_reader sample_hashes sample_balances sample_context sample_receipt True =
      Some (sample_balances, Inr ?report)"
    by (simp add: post_execution_new_def)
  from charged_fee_is_within_committed_bounds[OF sample_check_fee_bounds sample_verify sample_receipt_ok ok post] post
  show ?thesis by auto
qed

end
