(* ===== verification/Bouncer.thy ===== *)
theory Bouncer
  imports Fee_Checks
begin

text \<open>
  \<^verbatim>\<open>crates/blockifier/src/bouncer.rs\<close>: the bouncer, which decides whether a transaction still fits the block.
  The resources for hashing a class are those that the class estimates (\<open>estimate_casm\<close>), and the loop over a
  hash set of class hashes visits it in some order (\<open>order\<close>); both are parameters, like the addition of
  resources of the virtual machine.
\<close>

section \<open>Weights\<close>

record builtin_count =
  bn_add_mod :: usize
  bn_bitwise :: usize
  bn_ecdsa :: usize
  bn_ec_op :: usize
  bn_keccak :: usize
  bn_mul_mod :: usize
  bn_pedersen :: usize
  bn_poseidon :: usize
  bn_range_check :: usize
  bn_range_check96 :: usize

text \<open>The operations that the macro \<^verbatim>\<open>impl_checked_ops\<close> derives, field by field.\<close>

definition builtin_lift :: "(usize \<Rightarrow> usize \<Rightarrow> usize option) \<Rightarrow> builtin_count \<Rightarrow> builtin_count \<Rightarrow> builtin_count option" where
  "builtin_lift f a b = do {
     x1 \<leftarrow> f (bn_add_mod a) (bn_add_mod b);
     x2 \<leftarrow> f (bn_bitwise a) (bn_bitwise b);
     x3 \<leftarrow> f (bn_ecdsa a) (bn_ecdsa b);
     x4 \<leftarrow> f (bn_ec_op a) (bn_ec_op b);
     x5 \<leftarrow> f (bn_keccak a) (bn_keccak b);
     x6 \<leftarrow> f (bn_mul_mod a) (bn_mul_mod b);
     x7 \<leftarrow> f (bn_pedersen a) (bn_pedersen b);
     x8 \<leftarrow> f (bn_poseidon a) (bn_poseidon b);
     x9 \<leftarrow> f (bn_range_check a) (bn_range_check b);
     x10 \<leftarrow> f (bn_range_check96 a) (bn_range_check96 b);
     Some \<lparr>bn_add_mod = x1, bn_bitwise = x2, bn_ecdsa = x3, bn_ec_op = x4, bn_keccak = x5, bn_mul_mod = x6,
       bn_pedersen = x7, bn_poseidon = x8, bn_range_check = x9, bn_range_check96 = x10\<rparr> }"

definition builtin_all_non_zero :: "builtin_count \<Rightarrow> bool" where
  "builtin_all_non_zero a \<longleftrightarrow> bn_add_mod a \<noteq> 0 \<and> bn_bitwise a \<noteq> 0 \<and> bn_ecdsa a \<noteq> 0 \<and> bn_ec_op a \<noteq> 0 \<and> bn_keccak a \<noteq> 0 \<and>
     bn_mul_mod a \<noteq> 0 \<and> bn_pedersen a \<noteq> 0 \<and> bn_poseidon a \<noteq> 0 \<and> bn_range_check a \<noteq> 0 \<and> bn_range_check96 a \<noteq> 0"

definition builtin_all :: "usize \<Rightarrow> builtin_count" where
  "builtin_all x = \<lparr>bn_add_mod = x, bn_bitwise = x, bn_ecdsa = x, bn_ec_op = x, bn_keccak = x, bn_mul_mod = x,
     bn_pedersen = x, bn_poseidon = x, bn_range_check = x, bn_range_check96 = x\<rparr>"

definition builtin_max :: builtin_count where
  "builtin_max = builtin_all (-1)"

definition builtin_empty :: builtin_count where
  "builtin_empty = builtin_all 0"

definition builtin_default :: builtin_count where
  "builtin_default = \<lparr>bn_add_mod = 156250, bn_bitwise = 39062, bn_ecdsa = 1220, bn_ec_op = 2441, bn_keccak = 1220,
     bn_mul_mod = 156250, bn_pedersen = 78125, bn_poseidon = 78125, bn_range_check = 156250, bn_range_check96 = 156250\<rparr>"

definition known_builtins :: "builtin_name set" where
  "known_builtins = {add_mod, bitwise, ecdsa, ec_op, keccak, mul_mod, pedersen, poseidon, range_check, range_check96}"

definition builtin_count_from :: "(builtin_name \<times> usize) list \<Rightarrow> builtin_count option" where
  "builtin_count_from data =
     (let remove = (\<lambda>b. case map_of data b of Some n \<Rightarrow> n | None \<Rightarrow> 0)
      in do {
        rs_assert (set (map fst data) \<subseteq> known_builtins);
        Some \<lparr>bn_add_mod = remove add_mod, bn_bitwise = remove bitwise, bn_ecdsa = remove ecdsa, bn_ec_op = remove ec_op,
          bn_keccak = remove keccak, bn_mul_mod = remove mul_mod, bn_pedersen = remove pedersen,
          bn_poseidon = remove poseidon, bn_range_check = remove range_check, bn_range_check96 = remove range_check96\<rparr> })"

record bouncer_weights =
  bw_builtin_count :: builtin_count
  bw_l1_gas :: usize
  bw_message_segment_length :: usize
  bw_n_events :: usize
  bw_n_steps :: usize
  bw_state_diff_size :: usize
  bw_sierra_gas :: gas_amount

definition weights_lift :: "(usize \<Rightarrow> usize \<Rightarrow> usize option) \<Rightarrow> bouncer_weights \<Rightarrow> bouncer_weights \<Rightarrow> bouncer_weights option" where
  "weights_lift f a b = do {
     builtin_count \<leftarrow> builtin_lift f (bw_builtin_count a) (bw_builtin_count b);
     l1_gas \<leftarrow> f (bw_l1_gas a) (bw_l1_gas b);
     message_segment_length \<leftarrow> f (bw_message_segment_length a) (bw_message_segment_length b);
     n_events \<leftarrow> f (bw_n_events a) (bw_n_events b);
     n_steps \<leftarrow> f (bw_n_steps a) (bw_n_steps b);
     state_diff_size \<leftarrow> f (bw_state_diff_size a) (bw_state_diff_size b);
     sierra_gas \<leftarrow> f (bw_sierra_gas a) (bw_sierra_gas b);
     Some \<lparr>bw_builtin_count = builtin_count, bw_l1_gas = l1_gas, bw_message_segment_length = message_segment_length,
       bw_n_events = n_events, bw_n_steps = n_steps, bw_state_diff_size = state_diff_size, bw_sierra_gas = sierra_gas\<rparr> }"

definition weights_checked_add :: "bouncer_weights \<Rightarrow> bouncer_weights \<Rightarrow> bouncer_weights option" where
  "weights_checked_add = weights_lift checked_add"

definition weights_checked_sub :: "bouncer_weights \<Rightarrow> bouncer_weights \<Rightarrow> bouncer_weights option" where
  "weights_checked_sub = weights_lift checked_sub"

definition has_room :: "bouncer_weights \<Rightarrow> bouncer_weights \<Rightarrow> bool" where
  "has_room self other \<longleftrightarrow> weights_checked_sub self other \<noteq> None"

definition weights_max :: bouncer_weights where
  "weights_max = \<lparr>bw_builtin_count = builtin_max, bw_l1_gas = -1, bw_message_segment_length = -1, bw_n_events = -1,
     bw_n_steps = -1, bw_state_diff_size = -1, bw_sierra_gas = -1\<rparr>"

definition weights_empty :: bouncer_weights where
  "weights_empty = \<lparr>bw_builtin_count = builtin_empty, bw_l1_gas = 0, bw_message_segment_length = 0, bw_n_events = 0,
     bw_n_steps = 0, bw_state_diff_size = 0, bw_sierra_gas = 0\<rparr>"

definition weights_default :: bouncer_weights where
  "weights_default = \<lparr>bw_builtin_count = builtin_default, bw_l1_gas = 2500000, bw_message_segment_length = 3700,
     bw_n_events = 5000, bw_n_steps = 2500000, bw_state_diff_size = 4000, bw_sierra_gas = 250000000\<rparr>"

record bouncer_config =
  block_max_capacity :: bouncer_weights

definition config_empty :: bouncer_config where
  "config_empty = \<lparr>block_max_capacity = weights_empty\<rparr>"

definition config_max :: bouncer_config where
  "config_max = \<lparr>block_max_capacity = weights_max\<rparr>"

definition config_has_room :: "bouncer_config \<Rightarrow> bouncer_weights \<Rightarrow> bool" where
  "config_has_room self weights \<longleftrightarrow> has_room (block_max_capacity self) weights"

datatype capacity_error = TransactionTooLarge bouncer_weights bouncer_weights

definition within_max_capacity_or_err :: "bouncer_config \<Rightarrow> bouncer_weights \<Rightarrow> capacity_error + unit" where
  "within_max_capacity_or_err self weights =
     (if has_room (block_max_capacity self) weights then Inr ()
      else Inl (TransactionTooLarge (block_max_capacity self) weights))"

section \<open>Weights of a transaction\<close>

fun get_casm_hash_calculation_resources ::
    "vm_ops \<Rightarrow> ('c \<Rightarrow> execution_resources) \<Rightarrow> ('s, 'c) state_reader \<Rightarrow> 's \<Rightarrow> execution_resources \<Rightarrow> class_hash list
      \<Rightarrow> ('s, state_error, execution_resources) rs_result" where
  "get_casm_hash_calculation_resources V estimate_casm R s acc [] = Some (s, Inr acc)"
| "get_casm_hash_calculation_resources V estimate_casm R s acc (class_hash # rest) =
     rs_try (rd_compiled_class R s class_hash) (\<lambda>s1 cl.
       get_casm_hash_calculation_resources V estimate_casm R s1 (vm_plus V acc (estimate_casm cl)) rest)"

definition get_particia_update_resources :: "usize \<Rightarrow> execution_resources" where
  "get_particia_update_resources n_visited_storage_entries =
     (let n_updates = n_visited_storage_entries * 24
      in \<lparr>vm_n_steps = 32 * n_updates, vm_n_memory_holes = 0, vm_builtins = [(pedersen, 2 * n_updates)]\<rparr>)"

text \<open>The panics: an overflow in the gas of messages, and builtins that are not counted.\<close>

definition get_tx_weights ::
    "vm_ops \<Rightarrow> ('c \<Rightarrow> execution_resources) \<Rightarrow> ('s, 'c) state_reader \<Rightarrow> 's \<Rightarrow> class_hash list \<Rightarrow> usize
      \<Rightarrow> transaction_resources \<Rightarrow> state_changes_keys \<Rightarrow> ('s, state_error, bouncer_weights) rs_result" where
  "get_tx_weights V estimate_casm R s executed_class_hashes n_visited_storage_entries tx_resources state_changes_keys =
     (let message_resources = sr_messages (tr_starknet_resources tx_resources)
      in case get_starknet_gas_cost message_resources of
           None \<Rightarrow> None
         | Some message_gas \<Rightarrow>
             rs_try (get_casm_hash_calculation_resources V estimate_casm R s vm_default executed_class_hashes) (\<lambda>s1 casm.
               (let additional_os_resources = vm_plus V casm (get_particia_update_resources n_visited_storage_entries);
                    vm_resources = vm_plus V additional_os_resources (cr_vm_resources (tr_computation tx_resources))
                in case builtin_count_from (prover_builtins vm_resources) of
                     None \<Rightarrow> None
                   | Some builtin_count \<Rightarrow> Some (s1, Inr \<lparr>
                       bw_builtin_count = builtin_count,
                       bw_l1_gas = gv_l1_gas message_gas,
                       bw_message_segment_length = mr_message_segment_length message_resources,
                       bw_n_events = n_events (ad_event_summary (sr_archival_data (tr_starknet_resources tx_resources))),
                       bw_n_steps = total_n_steps vm_resources,
                       bw_state_diff_size = get_onchain_data_segment_length (keys_count state_changes_keys),
                       bw_sierra_gas = cr_sierra_gas (tr_computation tx_resources)\<rparr>))))"

definition verify_tx_weights_within_max_capacity ::
    "vm_ops \<Rightarrow> ('c \<Rightarrow> execution_resources) \<Rightarrow> (class_hash set \<Rightarrow> class_hash list) \<Rightarrow> ('s, 'c) state_reader \<Rightarrow> 's
      \<Rightarrow> execution_summary \<Rightarrow> transaction_resources \<Rightarrow> state_changes_keys \<Rightarrow> bouncer_config
      \<Rightarrow> ('s, state_error + capacity_error, unit) rs_result" where
  "verify_tx_weights_within_max_capacity V estimate_casm order R s summary tx_resources tx_state_changes_keys bouncer_config =
     (case get_tx_weights V estimate_casm R s (order (es_executed_class_hashes summary))
         (of_nat (card (es_visited_storage_entries summary))) tx_resources tx_state_changes_keys of
        None \<Rightarrow> None
      | Some (s1, Inl e) \<Rightarrow> Some (s1, Inl (Inl e))
      | Some (s1, Inr tx_weights) \<Rightarrow> Some (s1, map_sum Inr id (within_max_capacity_or_err bouncer_config tx_weights)))"

section \<open>The bouncer\<close>

record bouncer =
  b_executed_class_hashes :: "class_hash set"
  b_visited_storage_entries :: "storage_entry set"
  b_state_changes_keys :: state_changes_keys
  b_bouncer_config :: bouncer_config
  b_accumulated_weights :: bouncer_weights

definition keys_default :: state_changes_keys where
  "keys_default = \<lparr>nonce_keys = {}, class_hash_keys = {}, storage_keys = {}, compiled_class_hash_keys = {},
     modified_contracts = {}\<rparr>"

definition bouncer_empty :: bouncer where
  "bouncer_empty = \<lparr>b_executed_class_hashes = {}, b_visited_storage_entries = {}, b_state_changes_keys = keys_default,
     b_bouncer_config = config_empty, b_accumulated_weights = weights_empty\<rparr>"

definition bouncer_new :: "bouncer_config \<Rightarrow> bouncer" where
  "bouncer_new bouncer_config = bouncer_empty\<lparr>b_bouncer_config := bouncer_config\<rparr>"

definition bouncer_update :: "bouncer \<Rightarrow> bouncer_weights \<Rightarrow> execution_summary \<Rightarrow> state_changes_keys \<Rightarrow> bouncer option" where
  "bouncer_update b tx_weights summary state_changes_keys = do {
     accumulated_weights \<leftarrow> weights_checked_add (b_accumulated_weights b) tx_weights;
     Some (b\<lparr>b_accumulated_weights := accumulated_weights,
       b_visited_storage_entries := b_visited_storage_entries b \<union> es_visited_storage_entries summary,
       b_executed_class_hashes := b_executed_class_hashes b \<union> es_executed_class_hashes summary,
       b_state_changes_keys := keys_extend (b_state_changes_keys b) state_changes_keys\<rparr>) }"

datatype bouncer_error = BlockFull | BouncerStateError state_error

definition try_update ::
    "vm_ops \<Rightarrow> ('c \<Rightarrow> execution_resources) \<Rightarrow> (class_hash set \<Rightarrow> class_hash list) \<Rightarrow> ('s, 'c) state_reader \<Rightarrow> bouncer
      \<Rightarrow> 's \<Rightarrow> state_changes_keys \<Rightarrow> execution_summary \<Rightarrow> transaction_resources \<Rightarrow> ('s \<times> bouncer, bouncer_error, unit) rs_result" where
  "try_update V estimate_casm order R b s tx_state_changes_keys summary tx_resources =
     (let marginal_state_changes_keys = keys_difference tx_state_changes_keys (b_state_changes_keys b);
          marginal_executed_class_hashes = es_executed_class_hashes summary - b_executed_class_hashes b;
          n_marginal_visited_storage_entries =
            of_nat (card (es_visited_storage_entries summary - b_visited_storage_entries b))
      in case get_tx_weights V estimate_casm R s (order marginal_executed_class_hashes)
             n_marginal_visited_storage_entries tx_resources marginal_state_changes_keys of
           None \<Rightarrow> None
         | Some (s1, Inl e) \<Rightarrow> Some ((s1, b), Inl (BouncerStateError e))
         | Some (s1, Inr tx_weights) \<Rightarrow> do {
             total_weights \<leftarrow> weights_checked_add (b_accumulated_weights b) tx_weights;
             if \<not> config_has_room (b_bouncer_config b) total_weights then Some ((s1, b), Inl BlockFull)
             else do {
               b1 \<leftarrow> bouncer_update b tx_weights summary marginal_state_changes_keys;
               Some ((s1, b1), Inr ()) } })"

section \<open>Room in a block\<close>

definition builtin_le :: "builtin_count \<Rightarrow> builtin_count \<Rightarrow> bool" where
  "builtin_le a b \<longleftrightarrow> bn_add_mod a \<le> bn_add_mod b \<and> bn_bitwise a \<le> bn_bitwise b \<and> bn_ecdsa a \<le> bn_ecdsa b \<and>
     bn_ec_op a \<le> bn_ec_op b \<and> bn_keccak a \<le> bn_keccak b \<and> bn_mul_mod a \<le> bn_mul_mod b \<and>
     bn_pedersen a \<le> bn_pedersen b \<and> bn_poseidon a \<le> bn_poseidon b \<and> bn_range_check a \<le> bn_range_check b \<and>
     bn_range_check96 a \<le> bn_range_check96 b"

definition weights_le :: "bouncer_weights \<Rightarrow> bouncer_weights \<Rightarrow> bool" where
  "weights_le a b \<longleftrightarrow> builtin_le (bw_builtin_count a) (bw_builtin_count b) \<and> bw_l1_gas a \<le> bw_l1_gas b \<and>
     bw_message_segment_length a \<le> bw_message_segment_length b \<and> bw_n_events a \<le> bw_n_events b \<and>
     bw_n_steps a \<le> bw_n_steps b \<and> bw_state_diff_size a \<le> bw_state_diff_size b \<and> bw_sierra_gas a \<le> bw_sierra_gas b"

lemma checked_sub_bind: "Option.bind (checked_sub a b) f = (if b \<le> a then f (a - b) else None)"
  by (simp add: checked_sub_def)

lemma builtin_sub_None: "builtin_lift checked_sub a b = None \<longleftrightarrow> \<not> builtin_le b a"
  by (auto simp: builtin_lift_def builtin_le_def checked_sub_bind)

lemma has_room_iff: "has_room self other \<longleftrightarrow> weights_le other self"
  using builtin_sub_None[of "bw_builtin_count self" "bw_builtin_count other"]
  by (cases "builtin_lift checked_sub (bw_builtin_count self) (bw_builtin_count other)")
    (auto simp: has_room_def weights_checked_sub_def weights_lift_def weights_le_def checked_sub_bind)

lemma weights_empty_le: "weights_le weights_empty w"
  by (simp add: weights_le_def builtin_le_def weights_empty_def builtin_empty_def builtin_all_def)

lemma weights_add_state_diff:
  assumes "weights_checked_add a b = Some c"
  shows "bw_state_diff_size c = bw_state_diff_size a + bw_state_diff_size b"
  using assms unfolding weights_checked_add_def weights_lift_def bind_eq_Some_conv
  by (elim exE conjE) (auto simp: checked_add_def split: if_splits)

lemma tx_weights_state_diff:
  assumes "get_tx_weights V e R s hs n res ks = Some (s1, Inr w)"
  shows "bw_state_diff_size w = get_onchain_data_segment_length (keys_count ks)"
  using assms by (auto simp: get_tx_weights_def rs_try_def Let_def split: option.splits sum.splits prod.splits)

section \<open>Outcomes of an update\<close>

lemma try_update_cases:
  assumes "try_update V e order R b s ks summary res = Some ((s1, b1), r)"
  obtains (state_error) err where "r = Inl (BouncerStateError err)" "b1 = b"
  | (block_full) w w1 where "r = Inl BlockFull" "b1 = b"
      "get_tx_weights V e R s (order (es_executed_class_hashes summary - b_executed_class_hashes b))
         (of_nat (card (es_visited_storage_entries summary - b_visited_storage_entries b))) res
         (keys_difference ks (b_state_changes_keys b)) = Some (s1, Inr w)"
      "weights_checked_add (b_accumulated_weights b) w = Some w1" "\<not> weights_le w1 (block_max_capacity (b_bouncer_config b))"
  | (updated) w w1 where "r = Inr ()"
      "get_tx_weights V e R s (order (es_executed_class_hashes summary - b_executed_class_hashes b))
         (of_nat (card (es_visited_storage_entries summary - b_visited_storage_entries b))) res
         (keys_difference ks (b_state_changes_keys b)) = Some (s1, Inr w)"
      "weights_checked_add (b_accumulated_weights b) w = Some w1" "weights_le w1 (block_max_capacity (b_bouncer_config b))"
      "b1 = b\<lparr>b_accumulated_weights := w1,
         b_visited_storage_entries := b_visited_storage_entries b \<union> es_visited_storage_entries summary,
         b_executed_class_hashes := b_executed_class_hashes b \<union> es_executed_class_hashes summary,
         b_state_changes_keys := keys_extend (b_state_changes_keys b) (keys_difference ks (b_state_changes_keys b))\<rparr>"
proof (cases "get_tx_weights V e R s (order (es_executed_class_hashes summary - b_executed_class_hashes b))
    (of_nat (card (es_visited_storage_entries summary - b_visited_storage_entries b))) res
    (keys_difference ks (b_state_changes_keys b))")
  case None
  then show thesis using assms by (simp add: try_update_def Let_def)
next
  case (Some p)
  obtain s2 o1 where p: "p = (s2, o1)" by (cases p)
  show thesis
  proof (cases o1)
    case (Inl err)
    then show thesis using assms Some p state_error[of err] by (simp add: try_update_def Let_def)
  next
    case (Inr w)
    note tw = Some[unfolded p Inr]
    obtain w1 where w1: "weights_checked_add (b_accumulated_weights b) w = Some w1"
      using assms tw by (cases "weights_checked_add (b_accumulated_weights b) w") (simp_all add: try_update_def Let_def)
    show thesis
    proof (cases "weights_le w1 (block_max_capacity (b_bouncer_config b))")
      case True
      have "s2 = s1" "r = Inr ()" and b1: "b1 = b\<lparr>b_accumulated_weights := w1,
         b_visited_storage_entries := b_visited_storage_entries b \<union> es_visited_storage_entries summary,
         b_executed_class_hashes := b_executed_class_hashes b \<union> es_executed_class_hashes summary,
         b_state_changes_keys := keys_extend (b_state_changes_keys b) (keys_difference ks (b_state_changes_keys b))\<rparr>"
        using assms True by (simp_all add: try_update_def Let_def tw w1 config_has_room_def has_room_iff bouncer_update_def)
      then show thesis using tw w1 True by (intro updated[of w w1]) simp_all
    next
      case False
      have "s2 = s1" "r = Inl BlockFull" "b1 = b"
        using assms False by (simp_all add: try_update_def Let_def tw w1 config_has_room_def has_room_iff)
      then show thesis using tw w1 False by (intro block_full[of w w1]) simp_all
    qed
  qed
qed

section \<open>Blocks\<close>

text \<open>The hash sets of keys of a transaction are finite.\<close>

definition finite_keys :: "state_changes_keys \<Rightarrow> bool" where
  "finite_keys ks \<longleftrightarrow> finite (storage_keys ks) \<and> finite (class_hash_keys ks) \<and> finite (compiled_class_hash_keys ks) \<and>
     finite (modified_contracts ks)"

inductive bouncer_reachable ::
    "vm_ops \<Rightarrow> ('c \<Rightarrow> execution_resources) \<Rightarrow> (class_hash set \<Rightarrow> class_hash list) \<Rightarrow> ('s, 'c) state_reader
      \<Rightarrow> bouncer_config \<Rightarrow> bouncer \<Rightarrow> bool"
  for V e order R config where
  new: "bouncer_reachable V e order R config (bouncer_new config)"
| update: "bouncer_reachable V e order R config b \<Longrightarrow> finite_keys ks \<Longrightarrow>
    try_update V e order R b s ks summary res = Some ((s1, b1), r) \<Longrightarrow> bouncer_reachable V e order R config b1"

definition bouncer_inv :: "bouncer_config \<Rightarrow> bouncer \<Rightarrow> bool" where
  "bouncer_inv config b \<longleftrightarrow> b_bouncer_config b = config \<and> finite_keys (b_state_changes_keys b) \<and>
     weights_le (b_accumulated_weights b) (block_max_capacity config) \<and>
     bw_state_diff_size (b_accumulated_weights b) = get_onchain_data_segment_length (keys_count (b_state_changes_keys b))"

lemma card_extend: "finite A \<Longrightarrow> finite B \<Longrightarrow> card (A \<union> (B - A)) = card A + card (B - A)"
  by (rule card_Un_disjoint) auto

lemma segment_length_extend:
  assumes "finite_keys ks" "finite_keys ks1"
  shows "get_onchain_data_segment_length (keys_count (keys_extend ks (keys_difference ks1 ks))) =
     get_onchain_data_segment_length (keys_count ks) + get_onchain_data_segment_length (keys_count (keys_difference ks1 ks))"
  using assms
  by (simp add: finite_keys_def keys_extend_def keys_difference_def keys_count_def card_extend
    get_onchain_data_segment_length_def algebra_simps del: Un_Diff_cancel)

lemma bouncer_inv_new: "bouncer_inv config (bouncer_new config)"
  by (simp add: bouncer_inv_def bouncer_new_def bouncer_empty_def weights_empty_le finite_keys_def keys_default_def
    get_onchain_data_segment_length_def keys_count_def) (simp add: weights_empty_def)

lemma bouncer_inv_update:
  assumes "bouncer_inv config b" "finite_keys ks" "try_update V e order R b s ks summary res = Some ((s1, b1), r)"
  shows "bouncer_inv config b1"
  using assms(3)
proof (cases rule: try_update_cases)
  case (updated w w1)
  have "bw_state_diff_size w1 = bw_state_diff_size (b_accumulated_weights b) + bw_state_diff_size w"
    using updated(3) by (rule weights_add_state_diff)
  with assms(1,2) updated(4) show ?thesis
    unfolding updated(5) bouncer_inv_def
    by (simp add: segment_length_extend tx_weights_state_diff[OF updated(2)])
      (simp add: finite_keys_def keys_extend_def keys_difference_def)
qed (use assms(1) in simp_all)

lemma bouncer_reachable_inv: "bouncer_reachable V e order R config b \<Longrightarrow> bouncer_inv config b"
  by (induction rule: bouncer_reachable.induct) (auto intro: bouncer_inv_new bouncer_inv_update)

text \<open>The transactions that are tried on a block, one after another, each with the state it is measured on, and the keys of
  those that were accepted.
\<close>

type_synonym 's bouncer_attempt = "'s \<times> state_changes_keys \<times> execution_summary \<times> transaction_resources"

fun fill_block ::
    "vm_ops \<Rightarrow> ('c \<Rightarrow> execution_resources) \<Rightarrow> (class_hash set \<Rightarrow> class_hash list) \<Rightarrow> ('s, 'c) state_reader
      \<Rightarrow> bouncer \<Rightarrow> 's bouncer_attempt list \<Rightarrow> (bouncer \<times> state_changes_keys list) option" where
  "fill_block V e order R b [] = Some (b, [])"
| "fill_block V e order R b ((s, ks, summary, res) # attempts) = do {
     ((s1, b1), r) \<leftarrow> try_update V e order R b s ks summary res;
     (b2, accepted) \<leftarrow> fill_block V e order R b1 attempts;
     Some (b2, if r = Inr () then ks # accepted else accepted) }"

definition attempts_finite :: "'s bouncer_attempt list \<Rightarrow> bool" where
  "attempts_finite = list_all (\<lambda>(s, ks, summary, res). finite_keys ks)"

lemma keys_extend_difference:
  "keys_extend ks (keys_difference ks1 ks) = \<lparr>nonce_keys = nonce_keys ks \<union> nonce_keys ks1,
     class_hash_keys = class_hash_keys ks \<union> class_hash_keys ks1, storage_keys = storage_keys ks \<union> storage_keys ks1,
     compiled_class_hash_keys = compiled_class_hash_keys ks \<union> compiled_class_hash_keys ks1,
     modified_contracts = modified_contracts ks \<union> modified_contracts ks1\<rparr>"
  by (simp add: keys_extend_def keys_difference_def)

lemma fill_block_ok:
  assumes "fill_block V e order R b attempts = Some (b', accepted)" "attempts_finite attempts" "bouncer_inv config b"
  shows "bouncer_inv config b' \<and> b_state_changes_keys b' = \<lparr>
    nonce_keys = nonce_keys (b_state_changes_keys b) \<union> \<Union> (nonce_keys ` set accepted),
    class_hash_keys = class_hash_keys (b_state_changes_keys b) \<union> \<Union> (class_hash_keys ` set accepted),
    storage_keys = storage_keys (b_state_changes_keys b) \<union> \<Union> (storage_keys ` set accepted),
    compiled_class_hash_keys = compiled_class_hash_keys (b_state_changes_keys b) \<union> \<Union> (compiled_class_hash_keys ` set accepted),
    modified_contracts = modified_contracts (b_state_changes_keys b) \<union> \<Union> (modified_contracts ` set accepted)\<rparr>"
  using assms
proof (induction attempts arbitrary: b accepted)
  case (Cons a attempts)
  obtain s ks summary res where a: "a = (s, ks, summary, res)" by (cases a) auto
  from Cons.prems(1) obtain s1 b1 r acc where
    u: "try_update V e order R b s ks summary res = Some ((s1, b1), r)"
    and f: "fill_block V e order R b1 attempts = Some (b', acc)"
    and acc: "accepted = (if r = Inr () then ks # acc else acc)"
    by (auto simp: a bind_eq_Some_conv)
  have fin: "finite_keys ks" "attempts_finite attempts" using Cons.prems(2) by (simp_all add: a attempts_finite_def)
  note IH = Cons.IH[OF f fin(2) bouncer_inv_update[OF Cons.prems(3) fin(1) u]]
  from u show ?case
  proof (cases rule: try_update_cases)
    case (updated w w1)
    with acc IH show ?thesis by (simp add: keys_extend_difference Un_assoc)
  qed (use acc IH in simp_all)
qed simp

section \<open>Properties\<close>

definition sample_keys :: state_changes_keys where
  "sample_keys = keys_default\<lparr>storage_keys := {(1, 2)}, modified_contracts := {1}\<rparr>"

definition sample_weights :: bouncer_weights where
  "sample_weights = weights_empty\<lparr>bw_n_steps := 100, bw_state_diff_size := 4, bw_sierra_gas := 500\<rparr>"

definition sample_config :: "usize \<Rightarrow> bouncer_config" where
  "sample_config n = \<lparr>block_max_capacity = weights_default\<lparr>bw_state_diff_size := n\<rparr>\<rparr>"

abbreviation sample_try_update :: "bouncer \<Rightarrow> (nat dict_state_reader \<times> bouncer, bouncer_error, unit) rs_result" where
  "sample_try_update b \<equiv> try_update sample_vm_ops (\<lambda>_. vm_default) sorted_list_of_set dict_reader b sample_balances
     sample_keys sample_summary sample_resources"

definition sample_bouncer :: bouncer where
  "sample_bouncer = (bouncer_new (sample_config 4))\<lparr>b_accumulated_weights := sample_weights,
     b_state_changes_keys := sample_keys\<rparr>"

lemma sample_segment_length: "get_onchain_data_segment_length (keys_count sample_keys) = 4"
  by (simp add: get_onchain_data_segment_length_def keys_count_def sample_keys_def keys_default_def)

lemma sample_tx_weights:
  "get_tx_weights sample_vm_ops estimate_casm R s [] 0 sample_resources ks =
     Some (s, Inr (sample_weights\<lparr>bw_state_diff_size := get_onchain_data_segment_length (keys_count ks)\<rparr>))"
proof -
  have "get_starknet_gas_cost (sr_messages (tr_starknet_resources sample_resources)) = Some gv_zero"
    by (simp add: sample_resources_def get_starknet_gas_cost_def get_log_message_to_l1_emissions_cost_def from_l1_gas_def
      get_consumed_message_to_l2_emissions_cost_def gv_zero_def gv_checked_add_def checked_add_def)
  moreover have "total_n_steps (vm_plus sample_vm_ops (vm_plus sample_vm_ops vm_default (get_particia_update_resources 0))
      (cr_vm_resources (tr_computation sample_resources))) = 100"
    by (simp add: sample_vm_ops_def vm_default_def get_particia_update_resources_def total_n_steps_def sample_resources_def)
  moreover have "builtin_count_from (prover_builtins (vm_plus sample_vm_ops (vm_plus sample_vm_ops vm_default
      (get_particia_update_resources 0)) (cr_vm_resources (tr_computation sample_resources)))) = Some builtin_empty"
    by (simp add: sample_vm_ops_def vm_default_def get_particia_update_resources_def prover_builtins_def sample_resources_def
      builtin_count_from_def known_builtins_def rs_assert_def builtin_empty_def builtin_all_def)
  ultimately show ?thesis
    by (simp add: get_tx_weights_def rs_try_def Let_def)
      (simp add: sample_resources_def gv_zero_def sample_weights_def weights_empty_def event_summary_default_def)
qed

lemma sample_marginal:
  "es_executed_class_hashes sample_summary = {}" "es_visited_storage_entries sample_summary = {}"
  "keys_difference sample_keys keys_default = sample_keys" "keys_extend keys_default sample_keys = sample_keys"
  by (simp_all add: sample_summary_def execution_summary_default_def keys_difference_def keys_extend_def sample_keys_def
    keys_default_def)

lemma sample_weights_size: "sample_weights\<lparr>bw_state_diff_size := 4\<rparr> = sample_weights"
  by (simp add: sample_weights_def)

lemma sample_add: "weights_checked_add weights_empty sample_weights = Some sample_weights"
  by (simp add: weights_checked_add_def weights_lift_def builtin_lift_def checked_add_def sample_weights_def weights_empty_def
    builtin_empty_def builtin_all_def)

lemma sample_room: "config_has_room (sample_config n) sample_weights \<longleftrightarrow> 4 \<le> n"
  by (simp add: config_has_room_def has_room_iff sample_config_def weights_le_def builtin_le_def sample_weights_def
    weights_empty_def weights_default_def builtin_empty_def builtin_all_def)

lemma sample_update: "sample_try_update (bouncer_new (sample_config 4)) = Some ((sample_balances, sample_bouncer), Inr ())"
  by (simp add: try_update_def Let_def sample_marginal sample_tx_weights sample_segment_length sample_weights_size sample_add sample_room bouncer_update_def
    bouncer_new_def bouncer_empty_def sample_bouncer_def)

lemma sample_update_full:
  "sample_try_update (bouncer_new (sample_config 3)) = Some ((sample_balances, bouncer_new (sample_config 3)), Inl BlockFull)"
  by (simp add: try_update_def Let_def sample_marginal sample_tx_weights sample_segment_length sample_weights_size sample_add sample_room bouncer_new_def
    bouncer_empty_def)

text \<open>The same transaction again: it has no marginal keys.\<close>

lemma sample_update_again: "\<exists>b. sample_try_update sample_bouncer = Some ((sample_balances, b), Inr ())"
proof -
  have "keys_difference sample_keys sample_keys = keys_default"
    by (simp add: keys_difference_def keys_default_def)
  moreover have "get_onchain_data_segment_length (keys_count keys_default) = 0"
    by (simp add: get_onchain_data_segment_length_def keys_count_def keys_default_def)
  moreover have "weights_checked_add sample_weights (sample_weights\<lparr>bw_state_diff_size := 0\<rparr>) =
      Some (sample_weights\<lparr>bw_n_steps := 200, bw_sierra_gas := 1000\<rparr>)"
    by (simp add: weights_checked_add_def weights_lift_def builtin_lift_def checked_add_def sample_weights_def weights_empty_def
      builtin_empty_def builtin_all_def)
  moreover have "config_has_room (sample_config 4) (sample_weights\<lparr>bw_n_steps := 200, bw_sierra_gas := 1000\<rparr>)"
    by (simp add: config_has_room_def has_room_iff sample_config_def weights_le_def builtin_le_def sample_weights_def
      weights_empty_def weights_default_def builtin_empty_def builtin_all_def)
  ultimately show ?thesis
    by (simp add: try_update_def Let_def sample_marginal(1,2) sample_tx_weights bouncer_update_def sample_bouncer_def
      bouncer_new_def bouncer_empty_def)
qed

lemma sample_bouncer_reachable:
  "bouncer_reachable sample_vm_ops (\<lambda>_ :: nat. vm_default) sorted_list_of_set dict_reader (sample_config 4) sample_bouncer"
  by (rule bouncer_reachable.update[OF bouncer_reachable.new _ sample_update])
    (simp add: finite_keys_def sample_keys_def keys_default_def)

text \<open>C7: Whatever transactions are tried, and whatever they report, the accumulated weights of a block never exceed the
  configured capacity in any of the counted resources.
\<close>

theorem bouncer_never_exceeds_capacity:
  assumes "bouncer_reachable V estimate_casm order R config b"
  shows "weights_le (b_accumulated_weights b) (block_max_capacity config)"
  using bouncer_reachable_inv[OF assms] by (simp add: bouncer_inv_def)

theorem bouncer_never_exceeds_capacity_witness:
  "weights_le (b_accumulated_weights sample_bouncer) (block_max_capacity (sample_config 4)) \<and>
   bw_state_diff_size (b_accumulated_weights sample_bouncer) = bw_state_diff_size (block_max_capacity (sample_config 4))"
  using bouncer_never_exceeds_capacity[OF sample_bouncer_reachable]
  by (simp add: sample_bouncer_def sample_weights_def sample_config_def)

text \<open>C28: The state diff weight of a block counts every key once. Whatever transactions are tried on a new block, and
  whichever of them are accepted, the keys that the bouncer holds are the union of the keys of the accepted transactions, and
  the weight is two words for every contract, storage entry and declared class that some accepted transaction changes and
  one word for every contract whose class is set: a key that several transactions of the block change is
  counted once, and the keys of a transaction that was turned away are not counted.
\<close>

theorem state_diff_weight_counts_keys_once:
  assumes "fill_block V estimate_casm order R (bouncer_new config) attempts = Some (b, accepted)" "attempts_finite attempts"
  shows "b_state_changes_keys b = \<lparr>nonce_keys = \<Union> (nonce_keys ` set accepted),
      class_hash_keys = \<Union> (class_hash_keys ` set accepted), storage_keys = \<Union> (storage_keys ` set accepted),
      compiled_class_hash_keys = \<Union> (compiled_class_hash_keys ` set accepted),
      modified_contracts = \<Union> (modified_contracts ` set accepted)\<rparr> \<and>
    bw_state_diff_size (b_accumulated_weights b) =
      2 * of_nat (card (\<Union> (modified_contracts ` set accepted))) + of_nat (card (\<Union> (class_hash_keys ` set accepted))) +
      2 * of_nat (card (\<Union> (storage_keys ` set accepted))) + 2 * of_nat (card (\<Union> (compiled_class_hash_keys ` set accepted)))"
proof -
  have "b_state_changes_keys (bouncer_new config) = keys_default" by (simp add: bouncer_new_def bouncer_empty_def)
  with fill_block_ok[OF assms bouncer_inv_new] show ?thesis
    by (simp add: bouncer_inv_def keys_default_def keys_count_def get_onchain_data_segment_length_def CLASS_UPDATE_SIZE_def)
qed

abbreviation sample_attempt :: "nat dict_state_reader bouncer_attempt" where
  "sample_attempt \<equiv> (sample_balances, sample_keys, sample_summary, sample_resources)"

theorem state_diff_weight_counts_keys_once_witness:
  "\<exists>b. fill_block sample_vm_ops (\<lambda>_. vm_default) sorted_list_of_set dict_reader (bouncer_new (sample_config 4))
       [sample_attempt, sample_attempt] = Some (b, [sample_keys, sample_keys]) \<and>
     bw_state_diff_size (b_accumulated_weights b) = 4"
proof -
  obtain b where b: "fill_block sample_vm_ops (\<lambda>_. vm_default) sorted_list_of_set dict_reader (bouncer_new (sample_config 4))
       [sample_attempt, sample_attempt] = Some (b, [sample_keys, sample_keys])"
    using sample_update sample_update_again by auto
  have "attempts_finite [sample_attempt, sample_attempt]"
    by (simp add: attempts_finite_def finite_keys_def sample_keys_def keys_default_def)
  from state_diff_weight_counts_keys_once[OF b this] b show ?thesis
    by (simp add: sample_keys_def keys_default_def)
qed

text \<open>A transaction that is turned away, for a full block or a failed read, leaves the bouncer as it was; it is turned
  away for a full block only when the accumulated and its own marginal weights exceed the capacity in some resource.
\<close>

theorem rejected_transaction_leaves_bouncer:
  assumes "try_update V estimate_casm order R b s ks summary res = Some ((s1, b1), Inl err)"
  shows "b1 = b \<and> (err = BlockFull \<longrightarrow> (\<exists>w w1.
    get_tx_weights V estimate_casm R s (order (es_executed_class_hashes summary - b_executed_class_hashes b))
      (of_nat (card (es_visited_storage_entries summary - b_visited_storage_entries b))) res
      (keys_difference ks (b_state_changes_keys b)) = Some (s1, Inr w) \<and>
    weights_checked_add (b_accumulated_weights b) w = Some w1 \<and>
    \<not> weights_le w1 (block_max_capacity (b_bouncer_config b))))"
  using assms by (cases rule: try_update_cases) auto

theorem rejected_transaction_leaves_bouncer_witness:
  "\<exists>w w1. sample_try_update (bouncer_new (sample_config 3)) =
       Some ((sample_balances, bouncer_new (sample_config 3)), Inl BlockFull) \<and>
     get_tx_weights sample_vm_ops (\<lambda>_. vm_default) dict_reader sample_balances [] 0 sample_resources sample_keys =
       Some (sample_balances, Inr w) \<and>
     weights_checked_add weights_empty w = Some w1 \<and> \<not> weights_le w1 (block_max_capacity (sample_config 3))"
  using rejected_transaction_leaves_bouncer[OF sample_update_full] sample_update_full
  by (simp add: sample_marginal bouncer_new_def bouncer_empty_def)

end
