(* ===== verification/Fee_Transfer.thy ===== *)
theory Fee_Transfer
  imports Fee_Checks Versioned_State_Laws
begin

text \<open>
  \<^verbatim>\<open>crates/blockifier/src/concurrency/fee_utils.rs\<close>: completing a fee transfer when a transaction is
  committed, with \<^verbatim>\<open>TransactionExecutionInfo\<close> of \<^verbatim>\<open>transaction/objects.rs\<close>. A concurrent
  execution transfers the fee without the sequencer's balance; this adds the fee to that balance, a pair of felts that
  are the words of a 256-bit integer. The state is given by its reader and its \<^verbatim>\<open>apply_writes\<close>. A panic
  is \<open>None\<close>.
\<close>

section \<open>Execution info\<close>

record transaction_execution_info =
  validate_call_info :: "call_info option"
  execute_call_info :: "call_info option"
  fee_transfer_call_info :: "call_info option"
  revert_error :: "string option"
  txi_receipt :: transaction_receipt

definition non_optional_call_infos :: "transaction_execution_info \<Rightarrow> call_info list" where
  "non_optional_call_infos self =
     List.map_filter id [validate_call_info self, execute_call_info self, fee_transfer_call_info self]"

definition is_reverted :: "transaction_execution_info \<Rightarrow> bool" where
  "is_reverted self \<longleftrightarrow> revert_error self \<noteq> None"

definition txi_summarize :: "vm_ops \<Rightarrow> 'q versioned_constants \<Rightarrow> transaction_execution_info \<Rightarrow> execution_summary option" where
  "txi_summarize V vc self = summarize_many (vm_plus V) (vc_ignore_inner_event_resources vc) (non_optional_call_infos self)"

section \<open>Completing the transfer\<close>

definition STORAGE_READ_SEQUENCER_BALANCE_INDICES :: "nat \<times> nat" where
  "STORAGE_READ_SEQUENCER_BALANCE_INDICES = (2, 3)"

definition fill_reads :: "felt list \<Rightarrow> felt \<times> felt \<Rightarrow> felt list option" where
  "fill_reads storage_read_values sequencer_balance = do {
     rs_assert (length storage_read_values = 4);
     let (low_index, high_index) = STORAGE_READ_SEQUENCER_BALANCE_INDICES;
     rs_assert (list_all (\<lambda>index. storage_read_values ! index = 0) [low_index, high_index]);
     let (low, high) = sequencer_balance;
     Some (storage_read_values[low_index := low, high_index := high]) }"

fun with_read_values :: "call_info \<Rightarrow> felt list \<Rightarrow> call_info" where
  "with_read_values (CallInfo h a e m inner r _ k) values = CallInfo h a e m inner r values k"

fun with_inner_calls :: "call_info \<Rightarrow> call_info list \<Rightarrow> call_info" where
  "with_inner_calls (CallInfo h a e m _ r v k) inner = CallInfo h a e m inner r v k"

definition fill_sequencer_balance_reads :: "call_info \<Rightarrow> felt \<times> felt \<Rightarrow> call_info option" where
  "fill_sequencer_balance_reads c sequencer_balance =
     (if ci_inner_calls c = []
      then map_option (with_read_values c) (fill_reads (ci_storage_read_values c) sequencer_balance)
      else do {
        rs_assert (length (ci_inner_calls c) = 1);
        let inner = hd (ci_inner_calls c);
        values \<leftarrow> fill_reads (ci_storage_read_values inner) sequencer_balance;
        Some (with_inner_calls c [with_read_values inner values]) })"

definition felt_to_u128 :: "felt \<Rightarrow> u128 option" where
  "felt_to_u128 x = (if x < 2 ^ 128 then Some (of_nat x) else None)"

definition overflowing_add :: "u128 \<Rightarrow> u128 \<Rightarrow> u128 \<times> bool" where
  "overflowing_add a b = (a + b, 2 ^ 128 \<le> unat a + unat b)"

definition get_sequencer_balance_keys :: "hash_functions \<Rightarrow> 'q block_context \<Rightarrow> (storage_key \<times> storage_key) option" where
  "get_sequencer_balance_keys H bc = get_address_balance_keys H (bi_sequencer_address (bc_block_info bc))"

definition add_fee_to_sequencer_balance ::
    "('s \<Rightarrow> state_maps \<Rightarrow> 'c contract_class_mapping \<Rightarrow> visited_pcs \<Rightarrow> 's option) \<Rightarrow> hash_functions \<Rightarrow> contract_address \<Rightarrow> 's \<Rightarrow> fee
      \<Rightarrow> 'q block_context \<Rightarrow> felt \<times> felt \<Rightarrow> 's option" where
  "add_fee_to_sequencer_balance apply_writes H fee_token s actual_fee bc sequencer_balance = do {
     let (low, high) = sequencer_balance;
     low_as_u128 \<leftarrow> felt_to_u128 low;
     high_as_u128 \<leftarrow> felt_to_u128 high;
     let (new_value_low, carry) = overflowing_add low_as_u128 actual_fee;
     let (new_value_high, carry1) = overflowing_add high_as_u128 (if carry then 1 else 0);
     rs_assert (\<not> carry1);
     (key_low, key_high) \<leftarrow> get_sequencer_balance_keys H bc;
     apply_writes s (sm_default\<lparr>sm_storage := AList.update (fee_token, key_high) (unat new_value_high)
       [((fee_token, key_low), unat new_value_low)]\<rparr>) [] [] }"

definition complete_fee_transfer_flow ::
    "('s, 'c) state_reader \<Rightarrow> ('s \<Rightarrow> state_maps \<Rightarrow> 'c contract_class_mapping \<Rightarrow> visited_pcs \<Rightarrow> 's option) \<Rightarrow> hash_functions
      \<Rightarrow> 'q transaction_context \<Rightarrow> transaction_execution_info \<Rightarrow> 's \<Rightarrow> ('s \<times> transaction_execution_info) option" where
  "complete_fee_transfer_flow R apply_writes H c info s =
     (if is_sequencer_the_sender c then Some (s, info)
      else case fee_transfer_call_info info of
        Some call \<Rightarrow>
          (case get_fee_token_balance R H s (sequencer_address c) (fee_token_address c) of
             Some (s1, Inr sequencer_balance) \<Rightarrow> do {
               call1 \<leftarrow> fill_sequencer_balance_reads call sequencer_balance;
               s2 \<leftarrow> add_fee_to_sequencer_balance apply_writes H (fee_token_address c) s1
                 (rcpt_fee (txi_receipt info)) (tc_block_context c) sequencer_balance;
               Some (s2, info\<lparr>fee_transfer_call_info := Some call1\<rparr>) }
           | _ \<Rightarrow> None)
      | None \<Rightarrow> do {
          rs_assert (\<not> enforce_fee (tc_tx_info c));
          Some (s, info) })"

text \<open>The proxy of a version drops the visited program counters.\<close>

definition proxy_apply_writes ::
    "nat \<Rightarrow> ('s, 'c) versioned_state \<Rightarrow> state_maps \<Rightarrow> 'c contract_class_mapping \<Rightarrow> visited_pcs \<Rightarrow> ('s, 'c) versioned_state option" where
  "proxy_apply_writes tx_index vs ws class_hash_to_class visited = vst_apply_writes vs tx_index ws class_hash_to_class"

section \<open>The sum\<close>

text \<open>The addition with a carry is the addition of 256-bit integers, and panics exactly if it overflows.\<close>

lemma felt_to_u128_Some: "felt_to_u128 x = Some w \<longleftrightarrow> unat w = x"
proof
  assume "felt_to_u128 x = Some w"
  then show "unat w = x"
    by (auto simp: felt_to_u128_def unsigned_of_nat take_bit_nat_eq_self split: if_splits)
next
  assume x: "unat w = x"
  have "unat w < 2 ^ 128" by (rule order_less_le_trans[OF unsigned_less]) simp
  then show "felt_to_u128 x = Some w" by (simp add: felt_to_u128_def x[symmetric])
qed

lemma overflowing_add_eq:
  assumes "overflowing_add a b = (c, carry)"
  shows "unat c + (if carry then 2 ^ 128 else 0) = unat a + unat b"
proof -
  have "unat a < 2 ^ 128" "unat b < 2 ^ 128" by (rule order_less_le_trans[OF unsigned_less], simp)+
  with assms show ?thesis
    by (auto simp: overflowing_add_def unat_word_ariths mod_if)
qed


definition token_balance :: "hash_functions \<Rightarrow> contract_address \<Rightarrow> contract_address \<Rightarrow> 'c state_view \<Rightarrow> nat" where
  "token_balance H token a v = balance_to_big_uint (v_storage v (token, get_fee_token_var_address H a))
     (v_storage v (token, get_fee_token_var_address H a + 1))"

lemma add_fee_eq:
  assumes "lo < 2 ^ 128" "hi < 2 ^ 128"
  shows "add_fee_to_sequencer_balance apply_writes H token s actual_fee bc (lo, hi) =
    (let k = get_fee_token_var_address H (bi_sequencer_address (bc_block_info bc));
         new_balance = balance_to_big_uint lo hi + unat actual_fee
     in if new_balance < 2 ^ 256
        then apply_writes s (sm_default\<lparr>sm_storage :=
          [((token, k), new_balance mod 2 ^ 128), ((token, k + 1), new_balance div 2 ^ 128)]\<rparr>) [] []
        else None)"
proof -
  obtain l h where lh: "felt_to_u128 lo = Some l" "felt_to_u128 hi = Some h" using assms by (simp add: felt_to_u128_def)
  then have words: "unat l = lo" "unat h = hi" by (simp_all add: felt_to_u128_Some)
  obtain nl carry where nl: "overflowing_add l actual_fee = (nl, carry)" by force
  obtain nh carry1 where nh: "overflowing_add h (if carry then 1 else 0) = (nh, carry1)" by force
  have small: "unat nl < 2 ^ 128" "unat nh < 2 ^ 128" by (rule order_less_le_trans[OF unsigned_less], simp)+
  have low: "unat nl + (if carry then 2 ^ 128 else 0) = lo + unat actual_fee"
    using overflowing_add_eq[OF nl] words by simp
  have high: "unat nh + (if carry1 then 2 ^ 128 else 0) = hi + (if carry then 1 else 0)"
    using overflowing_add_eq[OF nh] words by (auto split: if_splits)
  have eq: "balance_to_big_uint lo hi + unat actual_fee = unat nl + (unat nh + (if carry1 then 2 ^ 128 else 0)) * 2 ^ 128"
    using low high by (cases carry) (simp_all add: balance_to_big_uint_def algebra_simps)
  have room: "balance_to_big_uint lo hi + unat actual_fee < 2 ^ 256 \<longleftrightarrow> \<not> carry1"
    unfolding eq using small by (cases carry1) simp_all
  have "(balance_to_big_uint lo hi + unat actual_fee) mod 2 ^ 128 = unat nl"
    "(balance_to_big_uint lo hi + unat actual_fee) div 2 ^ 128 = unat nh" if "\<not> carry1"
    unfolding eq using that small by simp_all
  with room show ?thesis
    by (cases carry1) (simp_all add: add_fee_to_sequencer_balance_def lh nl nh get_sequencer_balance_keys_def balance_keys
      Let_def rs_assert_def)
qed

section \<open>The versions after the transfer\<close>

context state_reader_laws begin

lemma proxy_balance:
  assumes "vst_inv view good vs"
  shows "\<exists>vs1. get_fee_token_balance (proxy_reader R i) H vs a token = Some (vs1, Inr
      (v_storage (vst_view view i vs) (token, get_fee_token_var_address H a),
       v_storage (vst_view view i vs) (token, get_fee_token_var_address H a + 1))) \<and>
    same_versions view vs vs1 \<and> vst_inv view good vs1"
proof -
  let ?k = "get_fee_token_var_address H a"
  from vp_get_storage_ok[OF assms, of i token ?k] obtain vs1 where vs1:
    "vp_get_storage_at R i vs token ?k = Some (vs1, Inr (v_storage (vst_view view i vs) (token, ?k)))"
    "same_versions view vs vs1" "vst_inv view good vs1" by blast
  from vp_get_storage_ok[OF vs1(3), of i token "?k + 1"] obtain vs2 where vs2:
    "vp_get_storage_at R i vs1 token (?k + 1) = Some (vs2, Inr (v_storage (vst_view view i vs1) (token, ?k + 1)))"
    "same_versions view vs1 vs2" "vst_inv view good vs2" by blast
  have "same_versions view vs vs2" using vs1(2) vs2(2) by (simp add: same_versions_def)
  with vs1 vs2 show ?thesis
    unfolding get_fee_token_balance_def Let_def next_balance_key
    by (simp add: proxy_reader_def same_versions_view)
qed

end

lemma storage_writes_versions:
  assumes "vst_inv view good vs" "hm_ok l"
  obtains vs1 where "vst_apply_writes vs i (sm_default\<lparr>sm_storage := l\<rparr>) [] = Some vs1" "vst_inv view good vs1"
    "only_version vs i vs1" "vst_view view i vs1 = overlay (vst_view view i vs) (sm_default\<lparr>sm_storage := l\<rparr>) []"
proof -
  let ?ws = "sm_default\<lparr>sm_storage := l\<rparr>"
  obtain vs1 where vs1: "vst_apply_writes vs i ?ws [] = Some vs1" by (simp add: vst_apply_writes_def sm_default_def)
  have ok: "sm_ok ?ws" "hm_ok []" using assms(2) by (simp_all add: sm_ok_def sm_default_def)
  note ap = apply_writes_versions[OF assms(1) vs1 ok]
  have "vst_below view i vs1 = vst_below view i vs"
    using ap(2) by (cases i) (simp_all add: vst_below_def only_version_below, simp add: only_version_def)
  then have "vst_view view i vs1 = overlay (vst_view view i vs) ?ws []"
    using ap(3) by (simp add: vst_view_split)
  with that vs1 ap(1,2) show thesis by blast
qed

text \<open>What completing a transfer does to a state, without its caches and versions.\<close>

definition charge_sequencer ::
    "hash_functions \<Rightarrow> 'q transaction_context \<Rightarrow> transaction_execution_info \<Rightarrow> 'c state_view \<Rightarrow> 'c state_view" where
  "charge_sequencer H c info v =
     (if is_sequencer_the_sender c \<or> fee_transfer_call_info info = None then v
      else (let token = fee_token_address c; k = get_fee_token_var_address H (sequencer_address c);
                new_balance = token_balance H token (sequencer_address c) v + unat (rcpt_fee (txi_receipt info))
        in v\<lparr>v_storage := (v_storage v)((token, k) := new_balance mod 2 ^ 128, (token, k + 1) := new_balance div 2 ^ 128)\<rparr>))"

lemma add_fee_words:
  "add_fee_to_sequencer_balance apply_writes H token s actual_fee bc (lo, hi) = Some s1 \<Longrightarrow> lo < 2 ^ 128 \<and> hi < 2 ^ 128"
  by (auto simp: add_fee_to_sequencer_balance_def felt_to_u128_def bind_eq_Some_conv split: if_splits)

lemma charge_overlay:
  "overlay v (sm_default\<lparr>sm_storage := [(p, x), (q, y)]\<rparr>) [] = v\<lparr>v_storage := (v_storage v)(p := x, q := y)\<rparr>" if "p \<noteq> q"
  using that by (auto simp: overlay_def sm_default_def fun_eq_iff or_else_def)

lemma fee_flow_view:
  assumes "state_reader_laws R view good" "vst_inv view good vs"
    and "complete_fee_transfer_flow (proxy_reader R i) (proxy_apply_writes i) H c info vs = Some (vs1, info1)"
  shows "vst_inv view good vs1" "vst_view view i vs1 = charge_sequencer H c info (vst_view view i vs)"
    "j < i \<Longrightarrow> vst_view view j vs1 = vst_view view j vs"
    "\<exists>call. info1 = info\<lparr>fee_transfer_call_info := call\<rparr>"
proof -
  have "vst_inv view good vs1 \<and> vst_view view i vs1 = charge_sequencer H c info (vst_view view i vs) \<and>
    (j < i \<longrightarrow> vst_view view j vs1 = vst_view view j vs) \<and> (\<exists>call. info1 = info\<lparr>fee_transfer_call_info := call\<rparr>)"
  proof (cases "is_sequencer_the_sender c \<or> fee_transfer_call_info info = None")
    case True
    then have "vs1 = vs" "info1 = info"
      using assms(3) by (auto simp: complete_fee_transfer_flow_def bind_eq_Some_conv split: if_splits option.splits)
    with True assms(2) show ?thesis
      by (auto simp: charge_sequencer_def intro!: exI[of _ "fee_transfer_call_info info"])
  next
    case False
    then obtain call where call: "fee_transfer_call_info info = Some call" "\<not> is_sequencer_the_sender c" by auto
    let ?v = "vst_view view i vs" and ?token = "fee_token_address c" and ?k = "get_fee_token_var_address H (sequencer_address c)"
    let ?lo = "v_storage ?v (?token, ?k)" and ?hi = "v_storage ?v (?token, ?k + 1)"
    let ?new = "balance_to_big_uint ?lo ?hi + unat (rcpt_fee (txi_receipt info))"
    let ?l = "[((?token, ?k), ?new mod 2 ^ 128), ((?token, ?k + 1), ?new div 2 ^ 128)]"
    from state_reader_laws.proxy_balance[OF assms(1,2), of i H "sequencer_address c" ?token] obtain vs0 where
      vs0: "get_fee_token_balance (proxy_reader R i) H vs (sequencer_address c) ?token = Some (vs0, Inr (?lo, ?hi))"
        "same_versions view vs vs0" "vst_inv view good vs0" by blast
    from assms(3) vs0(1) call obtain call1 where
      add: "add_fee_to_sequencer_balance (proxy_apply_writes i) H ?token vs0 (rcpt_fee (txi_receipt info))
        (tc_block_context c) (?lo, ?hi) = Some vs1" and info1: "info1 = info\<lparr>fee_transfer_call_info := Some call1\<rparr>"
      by (auto simp: complete_fee_transfer_flow_def bind_eq_Some_conv)
    from storage_writes_versions[OF vs0(3), of ?l i] obtain vs2 where
      vs2: "vst_apply_writes vs0 i (sm_default\<lparr>sm_storage := ?l\<rparr>) [] = Some vs2" "vst_inv view good vs2"
        "only_version vs0 i vs2" "vst_view view i vs2 = overlay (vst_view view i vs0) (sm_default\<lparr>sm_storage := ?l\<rparr>) []"
      by auto
    have "vs1 = vs2"
      using add vs2(1) add_fee_words[OF add]
      by (simp add: add_fee_eq Let_def proxy_apply_writes_def sequencer_address_def split: if_splits)
    moreover have "vst_view view i vs2 = charge_sequencer H c info ?v"
      unfolding vs2(4) same_versions_view[OF vs0(2)] charge_sequencer_def token_balance_def Let_def
      using call by (simp add: charge_overlay)
    moreover have "j < i \<longrightarrow> vst_view view j vs2 = vst_view view j vs"
      using only_version_below[OF vs2(3)] same_versions_view[OF vs0(2)] by simp
    ultimately show ?thesis using vs2(2) info1 by blast
  qed
  then show "vst_inv view good vs1" "vst_view view i vs1 = charge_sequencer H c info (vst_view view i vs)"
    "j < i \<Longrightarrow> vst_view view j vs1 = vst_view view j vs" "\<exists>call. info1 = info\<lparr>fee_transfer_call_info := call\<rparr>"
    by auto
qed

section \<open>Properties\<close>

text \<open>C31: Completing a fee transfer is exact: if the transfer call was recorded as expected and the sequencer's
  balance is a pair of 128-bit words, then the flow adds the fee to the sequencer's 256-bit balance at the version of the
  transaction, changes nothing else at this version and no earlier version; it panics exactly if the balance
  overflows.\<close>

theorem fee_transfer_adds_exact_fee:
  assumes "state_reader_laws R view good" "vst_inv view good vs"
    and "\<not> is_sequencer_the_sender c" "fee_transfer_call_info info = Some call"
    and "v_storage (vst_view view i vs) (fee_token_address c, get_fee_token_var_address H (sequencer_address c)) = lo"
    and "v_storage (vst_view view i vs) (fee_token_address c, get_fee_token_var_address H (sequencer_address c) + 1) = hi"
    and "lo < 2 ^ 128" "hi < 2 ^ 128" "fill_sequencer_balance_reads call (lo, hi) = Some call1"
  shows "let flow = complete_fee_transfer_flow (proxy_reader R i) (proxy_apply_writes i) H c info vs;
      balance = token_balance H (fee_token_address c) (sequencer_address c);
      k = get_fee_token_var_address H (sequencer_address c)
    in if balance (vst_view view i vs) + unat (rcpt_fee (txi_receipt info)) < 2 ^ 256
       then \<exists>vs1. flow = Some (vs1, info\<lparr>fee_transfer_call_info := Some call1\<rparr>) \<and> vst_inv view good vs1 \<and>
         balance (vst_view view i vs1) = balance (vst_view view i vs) + unat (rcpt_fee (txi_receipt info)) \<and>
         (\<exists>x y. vst_view view i vs1 = (vst_view view i vs)\<lparr>v_storage := (v_storage (vst_view view i vs))
           ((fee_token_address c, k) := x, (fee_token_address c, k + 1) := y)\<rparr>) \<and>
         (\<forall>j < i. vst_view view j vs1 = vst_view view j vs)
       else flow = None"
proof -
  let ?token = "fee_token_address c" and ?k = "get_fee_token_var_address H (sequencer_address c)"
  let ?new = "balance_to_big_uint lo hi + unat (rcpt_fee (txi_receipt info))"
  let ?l = "[((?token, ?k), ?new mod 2 ^ 128), ((?token, ?k + 1), ?new div 2 ^ 128)]"
  from state_reader_laws.proxy_balance[OF assms(1,2), of i H "sequencer_address c" ?token] obtain vs0 where
    vs0: "get_fee_token_balance (proxy_reader R i) H vs (sequencer_address c) ?token = Some (vs0, Inr (lo, hi))"
      "same_versions view vs vs0" "vst_inv view good vs0"
    unfolding assms(5,6) by blast
  from storage_writes_versions[OF vs0(3), of ?l i] obtain vs1 where
    vs1: "vst_apply_writes vs0 i (sm_default\<lparr>sm_storage := ?l\<rparr>) [] = Some vs1" "vst_inv view good vs1"
      "only_version vs0 i vs1" "vst_view view i vs1 = overlay (vst_view view i vs0) (sm_default\<lparr>sm_storage := ?l\<rparr>) []"
    by auto
  have seq: "bi_sequencer_address (bc_block_info (tc_block_context c)) = sequencer_address c"
    by (simp add: sequencer_address_def)
  have flow: "complete_fee_transfer_flow (proxy_reader R i) (proxy_apply_writes i) H c info vs =
      (if ?new < 2 ^ 256 then Some (vs1, info\<lparr>fee_transfer_call_info := Some call1\<rparr>) else None)"
    using assms(3,4,9) vs0(1) vs1(1)
    by (simp add: complete_fee_transfer_flow_def add_fee_eq[OF assms(7,8)] seq Let_def proxy_apply_writes_def)
  have view: "vst_view view i vs1 = (vst_view view i vs)\<lparr>v_storage := (v_storage (vst_view view i vs))
      ((?token, ?k) := ?new mod 2 ^ 128, (?token, ?k + 1) := ?new div 2 ^ 128)\<rparr>"
    unfolding vs1(4) same_versions_view[OF vs0(2)]
    by (auto simp: overlay_def sm_default_def fun_eq_iff or_else_def)
  have "token_balance H ?token (sequencer_address c) (vst_view view i vs1) = ?new"
    "token_balance H ?token (sequencer_address c) (vst_view view i vs) = balance_to_big_uint lo hi"
    unfolding token_balance_def view using assms(5,6) by (simp_all add: balance_to_big_uint_def)
  moreover have "vst_view view j vs1 = vst_view view j vs" if "j < i" for j
    using only_version_below[OF vs1(3) that] same_versions_view[OF vs0(2)] by simp
  ultimately show ?thesis
    unfolding Let_def flow using view vs1(2) by auto
qed

text \<open>A transfer with a carry from the low word to the high one.\<close>

definition sample_call :: call_info where
  "sample_call = CallInfo (Some 8) 1 [] [] [] charged_default [2000, 0, 0, 0] {}"

definition sample_info :: transaction_execution_info where
  "sample_info = \<lparr>validate_call_info = None, execute_call_info = None, fee_transfer_call_info = Some sample_call,
     revert_error = None, txi_receipt = sample_receipt\<rparr>"

definition sample_sequencer :: "nat dict_state_reader" where
  "sample_sequencer = (sample_dict 0)\<lparr>dict_storage_view := [(1, 40) \<mapsto> 2 ^ 128 - 1]\<rparr>"

lemma sample_sequencer_key: "get_fee_token_var_address sample_hashes 4 = 40"
  by (simp add: get_fee_token_var_address_def get_storage_var_address_def starknet_keccak_def L2_ADDRESS_UPPER_BOUND_def
    CONTRACT_ADDRESS_DOMAIN_SIZE_def MAX_STORAGE_ITEM_SIZE_def sample_hashes_def)

lemma sample_addresses:
  "sequencer_address sample_context = 4" "fee_token_address sample_context = 1" "\<not> is_sequencer_the_sender sample_context"
  by (simp_all add: sample_context_def Let_def sequencer_address_def sender_address_def fee_token_address_def fee_type_of_def
    is_sequencer_the_sender_def)

theorem fee_transfer_adds_exact_fee_witness:
  "\<exists>vs1 info1. complete_fee_transfer_flow (proxy_reader dict_reader 3) (proxy_apply_writes 3) sample_hashes sample_context
     sample_info (vst_new sample_sequencer) = Some (vs1, info1) \<and>
     token_balance sample_hashes 1 4 (vst_view dict_view 3 vs1) = 2 ^ 128 + 663"
proof -
  let ?vs = "vst_new sample_sequencer :: (nat dict_state_reader, nat) versioned_state"
  have laws: "state_reader_laws (dict_reader :: (nat dict_state_reader, nat) state_reader) dict_view (\<lambda>_. True)"
    by (rule dict.state_reader_laws_axioms)
  have view: "vst_view dict_view 3 ?vs = dict_view sample_sequencer"
    by (simp add: vst_view_split vst_below_def at_version_def vst_new_def vst_view_def Let_def numeral_3_eq_3)
  have lo: "v_storage (vst_view dict_view 3 ?vs) (fee_token_address sample_context,
      get_fee_token_var_address sample_hashes (sequencer_address sample_context)) = 2 ^ 128 - 1"
    and hi: "v_storage (vst_view dict_view 3 ?vs) (fee_token_address sample_context,
      get_fee_token_var_address sample_hashes (sequencer_address sample_context) + 1) = 0"
    unfolding view sample_addresses sample_sequencer_key by (simp_all add: dict_view_def sample_sequencer_def unwrap_or_default_def)
  have fill: "fill_sequencer_balance_reads sample_call (2 ^ 128 - 1, 0) =
      Some (CallInfo (Some 8) 1 [] [] [] charged_default [2000, 0, 2 ^ 128 - 1, 0] {})"
    by (simp add: fill_sequencer_balance_reads_def sample_call_def fill_reads_def STORAGE_READ_SEQUENCER_BALANCE_INDICES_def
      rs_assert_def)
  have balance: "token_balance sample_hashes 1 4 (vst_view dict_view 3 ?vs) = 2 ^ 128 - 1"
    using lo hi unfolding token_balance_def balance_to_big_uint_def sample_addresses by simp
  have fee: "unat (rcpt_fee (txi_receipt sample_info)) = 664" "fee_transfer_call_info sample_info = Some sample_call"
    by (simp_all add: sample_info_def sample_receipt_def)
  show ?thesis
    using fee_transfer_adds_exact_fee[OF laws vst_new_inv sample_addresses(3) fee(2) lo hi _ _ fill]
    unfolding Let_def sample_addresses balance fee by auto
qed

end
