(* ===== verification/Scheduler.thy ===== *)
theory Scheduler
  imports Sequencer_Prelude "HOL-Library.Multiset"
begin

text \<open>
  \<^verbatim>\<open>crates/blockifier/src/concurrency/scheduler.rs\<close>: the scheduler that hands out execution and
  validation tasks of a chunk of transactions to concurrent workers and commits them in order.

  The first part are the methods, each as a function on the scheduler; \<open>None\<close> is a failed assertion or an
  index out of range. A method that uses several atomics or mutexes is not one step for the other
  workers: \<open>sched_step\<close> has a step for every access, in any interleaving, and remembers in a multiset of
  activities what each worker is in the middle of. Indices are \<^verbatim>\<open>usize\<close> counters that start at most at the
  chunk's size and grow by one per access: they are natural numbers here. The lock on the commit index is
  an activity of the worker that holds it, until it finds nothing to commit; a transaction that does not fit
  into the block makes it halt the scheduler.
\<close>

section \<open>The methods\<close>

datatype transaction_status = ReadyToExecute | Executing | Executed | Aborting | Committed

datatype task = ExecutionTask nat | ValidationTask nat | AskForTask | NoTaskAvailable | TaskDone

record scheduler =
  execution_index :: nat
  validation_index :: nat
  commit_index :: nat
  chunk_size :: nat
  tx_statuses :: "transaction_status list"
  done_marker :: bool

definition sch_new :: "nat \<Rightarrow> scheduler" where
  "sch_new n = \<lparr>execution_index = 0, validation_index = n, commit_index = 0, chunk_size = n,
     tx_statuses = replicate n ReadyToExecute, done_marker = False\<rparr>"

definition lock_tx_status :: "scheduler \<Rightarrow> nat \<Rightarrow> transaction_status option" where
  "lock_tx_status s i = (if i < length (tx_statuses s) then Some (tx_statuses s ! i) else None)"

definition set_status :: "scheduler \<Rightarrow> nat \<Rightarrow> transaction_status \<Rightarrow> scheduler" where
  "set_status s i st = s\<lparr>tx_statuses := (tx_statuses s)[i := st]\<rparr>"

definition sch_done :: "scheduler \<Rightarrow> bool" where
  "sch_done s = done_marker s"

definition halt :: "scheduler \<Rightarrow> scheduler" where
  "halt s = s\<lparr>done_marker := True\<rparr>"

definition set_executed_status :: "scheduler \<Rightarrow> nat \<Rightarrow> scheduler option" where
  "set_executed_status s i = do {
     status \<leftarrow> lock_tx_status s i;
     rs_assert (status = Executing);
     Some (set_status s i Executed) }"

definition set_ready_status :: "scheduler \<Rightarrow> nat \<Rightarrow> scheduler option" where
  "set_ready_status s i = do {
     status \<leftarrow> lock_tx_status s i;
     rs_assert (status = Aborting);
     Some (set_status s i ReadyToExecute) }"

definition decrease_validation_index :: "scheduler \<Rightarrow> nat \<Rightarrow> scheduler" where
  "decrease_validation_index s target_index = s\<lparr>validation_index := min (validation_index s) target_index\<rparr>"

definition try_incarnate :: "scheduler \<Rightarrow> nat \<Rightarrow> (scheduler \<times> bool) option" where
  "try_incarnate s i =
     (if i < chunk_size s then do {
        status \<leftarrow> lock_tx_status s i;
        if status = ReadyToExecute then Some (set_status s i Executing, True) else Some (s, False) }
      else Some (s, False))"

definition next_version_to_validate :: "scheduler \<Rightarrow> (scheduler \<times> nat option) option" where
  "next_version_to_validate s =
     (if chunk_size s \<le> validation_index s then Some (s, None)
      else (let index_to_validate = validation_index s;
                s1 = s\<lparr>validation_index := validation_index s + 1\<rparr>
        in if index_to_validate < chunk_size s then do {
             status \<leftarrow> lock_tx_status s1 index_to_validate;
             Some (s1, if status = Executed then Some index_to_validate else None) }
           else Some (s1, None)))"

definition next_version_to_execute :: "scheduler \<Rightarrow> (scheduler \<times> nat option) option" where
  "next_version_to_execute s =
     (if chunk_size s \<le> execution_index s then Some (s, None)
      else (let index_to_execute = execution_index s;
                s1 = s\<lparr>execution_index := execution_index s + 1\<rparr>
        in do {
          (s2, incarnated) \<leftarrow> try_incarnate s1 index_to_execute;
          Some (s2, if incarnated then Some index_to_execute else None) }))"

definition next_task :: "scheduler \<Rightarrow> (scheduler \<times> task) option" where
  "next_task s =
     (if sch_done s then Some (s, TaskDone)
      else (let index_to_validate = validation_index s; index_to_execute = execution_index s
        in if chunk_size s \<le> min index_to_validate index_to_execute then Some (s, NoTaskAvailable)
           else do {
             (s1, to_validate) \<leftarrow>
               (if index_to_validate < index_to_execute then next_version_to_validate s else Some (s, None));
             (case to_validate of
                Some tx_index \<Rightarrow> Some (s1, ValidationTask tx_index)
              | None \<Rightarrow> do {
                  (s2, to_execute) \<leftarrow> next_version_to_execute s1;
                  (case to_execute of
                     Some tx_index \<Rightarrow> Some (s2, ExecutionTask tx_index)
                   | None \<Rightarrow> Some (s2, AskForTask)) }) }))"

definition finish_execution :: "scheduler \<Rightarrow> nat \<Rightarrow> scheduler option" where
  "finish_execution s i = map_option (\<lambda>s1. decrease_validation_index s1 i) (set_executed_status s i)"

definition try_validation_abort :: "scheduler \<Rightarrow> nat \<Rightarrow> (scheduler \<times> bool) option" where
  "try_validation_abort s i = do {
     status \<leftarrow> lock_tx_status s i;
     if status = Executed then Some (set_status s i Aborting, True) else Some (s, False) }"

definition finish_abort :: "scheduler \<Rightarrow> nat \<Rightarrow> (scheduler \<times> task) option" where
  "finish_abort s i = do {
     s1 \<leftarrow> set_ready_status s i;
     (if i < execution_index s1 then do {
        (s2, incarnated) \<leftarrow> try_incarnate s1 i;
        Some (s2, if incarnated then ExecutionTask i else AskForTask) }
      else Some (s1, AskForTask)) }"

definition finish_execution_during_commit :: "scheduler \<Rightarrow> nat \<Rightarrow> scheduler" where
  "finish_execution_during_commit s i = decrease_validation_index s (i + 1)"

text \<open>\<^verbatim>\<open>TransactionCommitter\<close>: the holder of the lock on the commit index.\<close>

definition try_commit :: "scheduler \<Rightarrow> (scheduler \<times> nat option) option" where
  "try_commit s =
     (if sch_done s then Some (s, None)
      else do {
        rs_assert (commit_index s < chunk_size s);
        status \<leftarrow> lock_tx_status s (commit_index s);
        (if status \<noteq> Executed then Some (s, None)
         else (let s1 = (set_status s (commit_index s) Committed)\<lparr>commit_index := commit_index s + 1\<rparr>;
                   s2 = (if commit_index s1 = chunk_size s1 then s1\<lparr>done_marker := True\<rparr> else s1)
           in Some (s2, Some (commit_index s2 - 1)))) })"

definition halt_scheduler :: "scheduler \<Rightarrow> scheduler option" where
  "halt_scheduler s = do {
     rs_assert (0 < commit_index s);
     Some (halt (s\<lparr>commit_index := commit_index s - 1\<rparr>)) }"

definition get_n_committed_txs :: "scheduler \<Rightarrow> nat" where
  "get_n_committed_txs s = commit_index s"

section \<open>Interleaved workers\<close>

text \<open>What a worker is doing with a transaction: it has taken an index to execute, or made an aborted
  transaction ready again (and will try to incarnate it), executes, validates or aborts it; it holds the lock on
  the commit index, or has got a transaction from \<^verbatim>\<open>try_commit\<close> while it holds the lock. The state of the
  workers is the multiset of these activities; any number of workers may start one, except for the lock.\<close>

datatype activity =
    Fetched nat | Runs nat | Validates nat | Aborts nat | Readied nat
  | HoldsLock | Committing nat

fun is_committer :: "activity \<Rightarrow> bool" where
  "is_committer HoldsLock \<longleftrightarrow> True"
| "is_committer (Committing i) \<longleftrightarrow> True"
| "is_committer _ \<longleftrightarrow> False"

inductive sched_step :: "scheduler \<times> activity multiset \<Rightarrow> scheduler \<times> activity multiset \<Rightarrow> bool" where
  fetch_execution_index:
  "sched_step (s, W) (s\<lparr>execution_index := execution_index s + 1\<rparr>, add_mset (Fetched (execution_index s)) W)"
| incarnate_fetched:
  "try_incarnate s i = Some (s', b) \<Longrightarrow>
     sched_step (s, add_mset (Fetched i) W) (s', if b then add_mset (Runs i) W else W)"
| incarnate_readied:
  "i < execution_index s \<Longrightarrow> try_incarnate s i = Some (s', b) \<Longrightarrow>
     sched_step (s, add_mset (Readied i) W) (s', if b then add_mset (Runs i) W else W)"
| not_incarnated:
  "\<not> i < execution_index s \<Longrightarrow> sched_step (s, add_mset (Readied i) W) (s, W)"
| executed:
  "set_executed_status s i = Some s' \<Longrightarrow> sched_step (s, add_mset (Runs i) W) (s', W)"
| change_validation_index:
  "sched_step (s, W) (s\<lparr>validation_index := v\<rparr>, W)"
| take_validation:
  "lock_tx_status s i = Some Executed \<Longrightarrow> sched_step (s, W) (s, add_mset (Validates i) W)"
| valid:
  "sched_step (s, add_mset (Validates i) W) (s, W)"
| invalid:
  "try_validation_abort s i = Some (s', b) \<Longrightarrow>
     sched_step (s, add_mset (Validates i) W) (s', if b then add_mset (Aborts i) W else W)"
| ready:
  "set_ready_status s i = Some s' \<Longrightarrow> sched_step (s, add_mset (Aborts i) W) (s', add_mset (Readied i) W)"
| enter_commit_phase:
  "filter_mset is_committer W = {#} \<Longrightarrow> sched_step (s, W) (s, add_mset HoldsLock W)"
| commit:
  "try_commit s = Some (s', Some i) \<Longrightarrow> sched_step (s, add_mset HoldsLock W) (s', add_mset (Committing i) W)"
| leave_commit_phase:
  "try_commit s = Some (s', None) \<Longrightarrow> sched_step (s, add_mset HoldsLock W) (s', W)"
| commit_succeeded:
  "sched_step (s, add_mset (Committing i) W) (s, add_mset HoldsLock W)"
| block_full:
  "halt_scheduler s = Some s' \<Longrightarrow> sched_step (s, add_mset (Committing i) W) (s', add_mset HoldsLock W)"

definition sched_reachable :: "nat \<Rightarrow> scheduler \<Rightarrow> activity multiset \<Rightarrow> bool" where
  "sched_reachable n s W \<longleftrightarrow> sched_step\<^sup>*\<^sup>* (sch_new n, {#}) (s, W)"

text \<open>The invariant: transactions are committed in order, an execution or an abort in progress is exactly one
  worker's, and a ready transaction that was fetched already is about to be incarnated by a worker. After a halt
  the transaction at the commit index has the status \<open>Committed\<close> although it is excluded from the block.\<close>

definition halted :: "scheduler \<Rightarrow> bool" where
  "halted s \<longleftrightarrow> sch_done s \<and> commit_index s < chunk_size s"

definition committed_end :: "scheduler \<Rightarrow> nat" where
  "committed_end s = (if halted s then Suc (commit_index s) else commit_index s)"

definition tx_inv :: "scheduler \<Rightarrow> activity multiset \<Rightarrow> nat \<Rightarrow> bool" where
  "tx_inv s W i \<longleftrightarrow>
     (tx_statuses s ! i = Committed \<longleftrightarrow> i < committed_end s) \<and>
     (execution_index s \<le> i \<longrightarrow> tx_statuses s ! i = ReadyToExecute \<and> Readied i \<notin># W) \<and>
     (i < execution_index s \<longrightarrow> tx_statuses s ! i = ReadyToExecute \<longrightarrow> Fetched i \<in># W \<or> Readied i \<in># W) \<and>
     count W (Runs i) = (if tx_statuses s ! i = Executing then 1 else 0) \<and>
     count W (Aborts i) = (if tx_statuses s ! i = Aborting then 1 else 0)"

definition sched_inv :: "scheduler \<Rightarrow> activity multiset \<Rightarrow> bool" where
  "sched_inv s W \<longleftrightarrow>
     length (tx_statuses s) = chunk_size s \<and> commit_index s \<le> chunk_size s \<and>
     (commit_index s = chunk_size s \<longrightarrow> done_marker s) \<and>
     (\<forall>i < chunk_size s. tx_inv s W i) \<and> (\<forall>i. Fetched i \<in># W \<longrightarrow> i < execution_index s) \<and>
     (\<forall>i \<ge> chunk_size s. Runs i \<notin># W \<and> Aborts i \<notin># W \<and> Validates i \<notin># W \<and> Readied i \<notin># W)"

text \<open>At most one worker holds the lock, and what it commits is below the commit index.\<close>

definition lock_inv :: "scheduler \<Rightarrow> activity multiset \<Rightarrow> bool" where
  "lock_inv s W \<longleftrightarrow> size (filter_mset is_committer W) \<le> 1 \<and>
     (\<forall>i. Committing i \<in># W \<longrightarrow> commit_index s = Suc i \<and> \<not> halted s)"

inductive_cases sched_stepE: "sched_step (s, W) (s', W')"

lemmas status_defs = lock_tx_status_def set_status_def
lemmas halt_defs = halted_def committed_end_def sch_done_def

lemma committed_end_update [simp]:
  "committed_end (set_status s i st) = committed_end s" "committed_end (s\<lparr>tx_statuses := sts\<rparr>) = committed_end s"
  "committed_end (s\<lparr>execution_index := e\<rparr>) = committed_end s" "committed_end (s\<lparr>validation_index := v\<rparr>) = committed_end s"
  by (simp_all add: halt_defs set_status_def)

lemma sched_inv_committer: "is_committer a \<Longrightarrow> sched_inv s (add_mset a W) \<longleftrightarrow> sched_inv s W"
  by (cases a) (simp_all add: sched_inv_def tx_inv_def)

lemma sched_inv_new: "0 < n \<Longrightarrow> sched_inv (sch_new n) {#}"
  by (simp add: sched_inv_def sch_new_def tx_inv_def halt_defs)

lemma fetch_inv:
  "sched_inv s W \<Longrightarrow> sched_inv (s\<lparr>execution_index := execution_index s + 1\<rparr>) (add_mset (Fetched (execution_index s)) W)"
  by (auto simp: sched_inv_def tx_inv_def less_Suc_eq halt_defs)

text \<open>A change of one transaction's status and of the activities on it.\<close>

fun tx_of :: "activity \<Rightarrow> nat" where
  "tx_of (Fetched i) = i" | "tx_of (Runs i) = i" | "tx_of (Validates i) = i" | "tx_of (Aborts i) = i" | "tx_of (Readied i) = i"
| "tx_of (Committing i) = i" | "tx_of HoldsLock = 0"

lemma status_change_inv:
  assumes "sched_inv s W" "i < chunk_size s" "\<And>a. tx_of a \<noteq> i \<Longrightarrow> count W' a = count W a"
    and "tx_inv (set_status s i st) W' i" "Fetched i \<in># W' \<longrightarrow> i < execution_index s"
  shows "sched_inv (set_status s i st) W'"
proof -
  have mem: "a \<in># W' \<longleftrightarrow> a \<in># W" if "tx_of a \<noteq> i" for a
    using assms(3)[OF that] by (simp flip: count_greater_zero_iff)
  have "tx_inv (set_status s i st) W' j" if "j < chunk_size s" for j
  proof (cases "j = i")
    case False
    with assms(1) that have "tx_inv s W j" by (simp add: sched_inv_def)
    with False show ?thesis by (simp add: tx_inv_def set_status_def mem assms(3))
  qed (simp add: assms(4))
  moreover have "j < execution_index s" if "Fetched j \<in># W'" for j
    using assms(1,5) that mem[of "Fetched j"] by (cases "j = i") (auto simp: sched_inv_def)
  moreover have "Runs j \<notin># W' \<and> Aborts j \<notin># W' \<and> Validates j \<notin># W' \<and> Readied j \<notin># W'" if "chunk_size s \<le> j" for j
    using assms(1,2) that mem by (simp add: sched_inv_def)
  ultimately show ?thesis using assms(1) by (simp add: sched_inv_def set_status_def)
qed

lemma sched_invD:
  "sched_inv s W \<Longrightarrow> i < chunk_size s \<Longrightarrow> tx_inv s W i"
  "sched_inv s W \<Longrightarrow> length (tx_statuses s) = chunk_size s"
  "sched_inv s W \<Longrightarrow> Fetched i \<in># W \<Longrightarrow> i < execution_index s"
  "sched_inv s W \<Longrightarrow> Runs i \<in># W \<or> Aborts i \<in># W \<or> Validates i \<in># W \<or> Readied i \<in># W \<Longrightarrow> i < chunk_size s"
  unfolding sched_inv_def by (blast, blast, blast, meson leI)

text \<open>Dropping an activity that the invariant does not need.\<close>

lemma drop_inv:
  assumes "sched_inv s (add_mset a W)"
    and "a = Validates i \<or> (a = Fetched i \<or> a = Readied i) \<and> (i < chunk_size s \<longrightarrow> tx_statuses s ! i \<noteq> ReadyToExecute)"
  shows "sched_inv s W"
  using assms by (auto simp: sched_inv_def tx_inv_def)

lemma incarnate_inv:
  assumes "sched_inv s (add_mset a W)" "a = Fetched i \<or> a = Readied i" "try_incarnate s i = Some (s', b)"
  shows "sched_inv s' (if b then add_mset (Runs i) W else W)"
proof (cases "i < chunk_size s \<and> tx_statuses s ! i = ReadyToExecute")
  case True
  then have s': "s' = set_status s i Executing" and b: b
    using assms(3) sched_invD(2)[OF assms(1)] by (auto simp: try_incarnate_def status_defs)
  have tx: "tx_inv s (add_mset a W) i" using sched_invD(1)[OF assms(1)] True by simp
  then have "i < execution_index s" using assms(1,2) True sched_invD(3)[OF assms(1), of i] by (auto simp: tx_inv_def not_less)
  moreover have "sched_inv s' (add_mset (Runs i) W)"
    unfolding s' using tx True calculation assms(2) sched_invD(2)[OF assms(1)]
    by (intro status_change_inv[OF assms(1)]) (auto simp: tx_inv_def set_status_def)
  ultimately show ?thesis using b by simp
next
  case False
  then have "s' = s" "\<not> b"
    using assms(3) sched_invD(2)[OF assms(1)] by (auto simp: try_incarnate_def status_defs split: if_splits)
  with drop_inv[OF assms(1), of i] assms(2) False show ?thesis by auto
qed

lemma executed_inv:
  assumes "sched_inv s (add_mset (Runs i) W)" "set_executed_status s i = Some s'"
  shows "sched_inv s' W"
proof -
  have i: "i < chunk_size s" using sched_invD(4)[OF assms(1), of i] by simp
  note tx = sched_invD(1)[OF assms(1) i]
  have s': "s' = set_status s i Executed" and st: "tx_statuses s ! i = Executing"
    using assms(2) by (auto simp: set_executed_status_def lock_tx_status_def split: if_splits)
  show ?thesis
    unfolding s' using tx st i sched_invD(2)[OF assms(1)] sched_invD(3)[OF assms(1), of i]
    by (intro status_change_inv[OF assms(1) i]) (auto simp: tx_inv_def set_status_def)
qed

lemma abort_inv:
  assumes "sched_inv s (add_mset (Validates i) W)" "try_validation_abort s i = Some (s', b)"
  shows "sched_inv s' (if b then add_mset (Aborts i) W else W)"
proof -
  have i: "i < chunk_size s" using sched_invD(4)[OF assms(1), of i] by simp
  note tx = sched_invD(1)[OF assms(1) i]
  show ?thesis
  proof (cases "tx_statuses s ! i = Executed")
    case True
    then have s': "s' = set_status s i Aborting" b
      using assms(2) sched_invD(2)[OF assms(1)] i by (auto simp: try_validation_abort_def lock_tx_status_def)
    then show ?thesis
      using tx True i sched_invD(2)[OF assms(1)] sched_invD(3)[OF assms(1), of i] unfolding s'
      by (simp, intro status_change_inv[OF assms(1) i]) (auto simp: tx_inv_def set_status_def not_less)
  next
    case False
    then have "s' = s" "\<not> b" using assms(2) sched_invD(2)[OF assms(1)] i
      by (auto simp: try_validation_abort_def lock_tx_status_def)
    with drop_inv[OF assms(1), of i] show ?thesis by simp
  qed
qed

lemma ready_inv:
  assumes "sched_inv s (add_mset (Aborts i) W)" "set_ready_status s i = Some s'"
  shows "sched_inv s' (add_mset (Readied i) W)"
proof -
  have i: "i < chunk_size s" using sched_invD(4)[OF assms(1), of i] by simp
  note tx = sched_invD(1)[OF assms(1) i]
  have s': "s' = set_status s i ReadyToExecute" and st: "tx_statuses s ! i = Aborting"
    using assms(2) by (auto simp: set_ready_status_def lock_tx_status_def split: if_splits)
  show ?thesis
    unfolding s' using tx st i sched_invD(2)[OF assms(1)] sched_invD(3)[OF assms(1), of i]
    by (intro status_change_inv[OF assms(1) i]) (auto simp: tx_inv_def set_status_def not_less)
qed

lemma try_commit_Some:
  assumes "try_commit s = Some (s', Some i)"
  shows "i = commit_index s" "commit_index s < chunk_size s" "tx_statuses s ! commit_index s = Executed" "\<not> done_marker s"
    "s' = (set_status s (commit_index s) Committed)\<lparr>commit_index := commit_index s + 1,
      done_marker := (commit_index s + 1 = chunk_size s)\<rparr>"
  using assms by (auto simp: try_commit_def sch_done_def lock_tx_status_def set_status_def Let_def split: if_splits)

lemma try_commit_None: "try_commit s = Some (s', None) \<Longrightarrow> s' = s"
  by (auto simp: try_commit_def Let_def bind_eq_Some_conv split: if_splits)

lemma commit_inv:
  assumes "sched_inv s W" "try_commit s = Some (s', Some i)"
  shows "sched_inv s' W"
proof -
  note c = try_commit_Some[OF assms(2)]
  have e: "committed_end s = commit_index s" "committed_end s' = Suc (commit_index s)"
    using c by (auto simp: halt_defs set_status_def)
  have "tx_inv s' W j" if "j < chunk_size s" for j
    using sched_invD(1)[OF assms(1) that] c sched_invD(2)[OF assms(1)] e
    by (auto simp: tx_inv_def set_status_def nth_list_update less_Suc_eq)
  with assms(1) c show ?thesis by (auto simp: sched_inv_def set_status_def)
qed

lemma halt_inv:
  assumes "sched_inv s W" "commit_index s = Suc i" "\<not> halted s" "halt_scheduler s = Some s'"
  shows "sched_inv s' W"
proof -
  have s': "s' = s\<lparr>commit_index := i, done_marker := True\<rparr>"
    using assms(2,4) by (auto simp: halt_scheduler_def halt_def)
  have "i < chunk_size s" using assms(1,2) by (simp add: sched_inv_def)
  then have "committed_end s' = committed_end s" using assms(2,3) by (simp add: committed_end_def) (simp add: s' halt_defs)
  with assms(1,2) show ?thesis by (simp add: sched_inv_def tx_inv_def s')
qed

text \<open>Steps that do not touch the commit index or its lock.\<close>

lemma lock_inv_cong:
  assumes "lock_inv s W" "filter_mset is_committer W' = filter_mset is_committer W"
    and "commit_index s' = commit_index s" "halted s' = halted s"
  shows "lock_inv s' W'"
proof -
  have "Committing i \<in># W' \<longleftrightarrow> Committing i \<in># W" for i
    using arg_cong[OF assms(2), of "\<lambda>C. Committing i \<in># C"] by simp
  with assms show ?thesis by (simp add: lock_inv_def)
qed

lemma other_steps_commit:
  "try_incarnate s i = Some (s', b) \<Longrightarrow> commit_index s' = commit_index s \<and> halted s' = halted s"
  "set_executed_status s i = Some s' \<Longrightarrow> commit_index s' = commit_index s \<and> halted s' = halted s"
  "set_ready_status s i = Some s' \<Longrightarrow> commit_index s' = commit_index s \<and> halted s' = halted s"
  "try_validation_abort s i = Some (s', b) \<Longrightarrow> commit_index s' = commit_index s \<and> halted s' = halted s"
  by (auto simp: try_incarnate_def set_executed_status_def set_ready_status_def try_validation_abort_def bind_eq_Some_conv
    status_defs halt_defs split: if_splits)

lemma lock_unique: "lock_inv s (add_mset a W) \<Longrightarrow> is_committer a \<Longrightarrow> filter_mset is_committer W = {#}"
  by (simp add: lock_inv_def)

lemma no_committer: "filter_mset is_committer W = {#} \<Longrightarrow> is_committer a \<Longrightarrow> a \<notin># W"
  using set_mset_filter[of is_committer W] by auto

lemma lock_inv_held:
  assumes "filter_mset is_committer W = {#}"
  shows "lock_inv s (add_mset HoldsLock W)" "lock_inv s W"
  using no_committer[OF assms] by (simp_all add: lock_inv_def assms)

lemma lock_step_inv:
  assumes "sched_step (s, W) (s', W')" "lock_inv s W"
  shows "lock_inv s' W'"
  using assms(1)
proof (cases rule: sched_step.cases)
  case (commit i V)
  have "filter_mset is_committer V = {#}" using lock_unique[of s HoldsLock V] assms(2) commit by simp
  then have "size (filter_mset is_committer V) = 0" "\<And>j. Committing j \<notin># V" using no_committer[of V] by simp_all
  with try_commit_Some[OF commit(3)] show ?thesis
    unfolding commit(2) by (auto simp: lock_inv_def halt_defs set_status_def)
next
  case leave_commit_phase
  with lock_unique[of s HoldsLock W'] assms(2) show ?thesis by (simp add: lock_inv_held)
next
  case (commit_succeeded i V)
  with lock_unique[of s "Committing i" V] assms(2) show ?thesis by (simp add: lock_inv_held)
next
  case (block_full i V)
  with lock_unique[of s "Committing i" V] assms(2) show ?thesis by (simp add: lock_inv_held)
qed (use assms(2) in \<open>auto simp: lock_inv_held halt_defs intro!: lock_inv_cong[OF assms(2)] dest: other_steps_commit split: if_splits\<close>)

lemma sched_step_inv:
  assumes "sched_step (s, W) (s', W')" "sched_inv s W" "lock_inv s W"
  shows "sched_inv s' W'"
  using assms(1)
proof (cases rule: sched_step.cases)
  case (not_incarnated i)
  then have "i < chunk_size s" using sched_invD(4)[OF assms(2), of i] by simp
  with sched_invD(1)[OF assms(2) this] not_incarnated show ?thesis by (simp add: tx_inv_def)
next
  case (change_validation_index v)
  with assms(2) show ?thesis by (simp add: sched_inv_def tx_inv_def)
next
  case (take_validation i)
  with assms(2) show ?thesis by (auto simp: sched_inv_def tx_inv_def lock_tx_status_def split: if_splits)
next
  case (valid i)
  with assms(2) drop_inv[of s "Validates i" W' i] show ?thesis by simp
next
  case fetch_execution_index
  with assms(2) fetch_inv[of s W] show ?thesis by simp
next
  case (incarnate_fetched i b W1)
  with assms(2) incarnate_inv[of s "Fetched i" W1 i s' b] show ?thesis by simp
next
  case (incarnate_readied i b W1)
  with assms(2) incarnate_inv[of s "Readied i" W1 i s' b] show ?thesis by simp
next
  case (invalid i b W1)
  with assms(2) abort_inv[of s i W1 s' b] show ?thesis by simp
next
  case (block_full i V)
  have "commit_index s = Suc i" "\<not> halted s" using assms(3) block_full(1) by (auto simp: lock_inv_def)
  with halt_inv[OF _ this block_full(3)] block_full assms(2) show ?thesis by (simp add: sched_inv_committer)
qed (use assms(2) in \<open>auto simp: sched_inv_committer dest: try_commit_None intro: executed_inv ready_inv commit_inv\<close>)

lemma sched_reachable_inv: "sched_reachable n s W \<Longrightarrow> 0 < n \<Longrightarrow> sched_inv s W \<and> lock_inv s W"
  unfolding sched_reachable_def
proof (induction "(s, W)" arbitrary: s W rule: rtranclp_induct)
  case base
  then show ?case by (simp add: sched_inv_new lock_inv_def)
next
  case (step y)
  then show ?case by (cases y) (auto intro: sched_step_inv lock_step_inv)
qed

section \<open>The methods are runs of steps\<close>

text \<open>Without interference a method of the scheduler is a run of the steps above, ending with the
  activity that the returned task starts.\<close>

fun started :: "task \<Rightarrow> activity multiset \<Rightarrow> activity multiset" where
  "started (ExecutionTask i) W = add_mset (Runs i) W"
| "started (ValidationTask i) W = add_mset (Validates i) W"
| "started _ W = W"

lemma next_version_to_execute_steps:
  assumes "next_version_to_execute s = Some (s', r)"
  shows "sched_step\<^sup>*\<^sup>* (s, W) (s', case r of Some i \<Rightarrow> add_mset (Runs i) W | None \<Rightarrow> W)"
proof (cases "chunk_size s \<le> execution_index s")
  case True
  with assms show ?thesis by (auto simp: next_version_to_execute_def)
next
  case False
  let ?i = "execution_index s" and ?s1 = "s\<lparr>execution_index := execution_index s + 1\<rparr>"
  obtain b where b: "try_incarnate ?s1 ?i = Some (s', b)" "r = (if b then Some ?i else None)"
    using assms False by (auto simp: next_version_to_execute_def Let_def bind_eq_Some_conv split: if_splits)
  have "sched_step (s, W) (?s1, add_mset (Fetched ?i) W)" by (rule sched_step.fetch_execution_index)
  moreover have "sched_step (?s1, add_mset (Fetched ?i) W) (s', if b then add_mset (Runs ?i) W else W)"
    by (rule sched_step.incarnate_fetched[OF b(1)])
  ultimately show ?thesis using b(2) by (auto intro: converse_rtranclp_into_rtranclp)
qed

lemma next_version_to_validate_steps:
  assumes "next_version_to_validate s = Some (s', r)"
  shows "sched_step\<^sup>*\<^sup>* (s, W) (s', case r of Some i \<Rightarrow> add_mset (Validates i) W | None \<Rightarrow> W)"
proof -
  let ?s1 = "s\<lparr>validation_index := validation_index s + 1\<rparr>"
  have move: "sched_step (s, W) (?s1, W)" by (rule sched_step.change_validation_index)
  consider "s' = s" "r = None" | "s' = ?s1" "r = None"
    | i where "s' = ?s1" "r = Some i" "lock_tx_status ?s1 i = Some Executed"
    using assms by (auto simp: next_version_to_validate_def Let_def bind_eq_Some_conv split: if_splits)
  then show ?thesis
  proof cases
    case (3 i)
    then have "sched_step (?s1, W) (s', add_mset (Validates i) W)" using sched_step.take_validation by blast
    with move 3 show ?thesis by (auto intro: converse_rtranclp_into_rtranclp)
  qed (use move in auto)
qed

lemma next_task_steps:
  assumes "next_task s = Some (s', t)"
  shows "sched_step\<^sup>*\<^sup>* (s, W) (s', started t W)"
proof -
  consider "s' = s" "started t W = W"
    | i where "next_version_to_validate s = Some (s', Some i)" "t = ValidationTask i"
    | s1 r where "next_version_to_validate s = Some (s1, None) \<or> s1 = s"
        "next_version_to_execute s1 = Some (s', r)" "started t W = (case r of Some i \<Rightarrow> add_mset (Runs i) W | None \<Rightarrow> W)"
    using assms
    by (simp add: next_task_def Let_def bind_eq_Some_conv split: if_splits option.splits; fastforce)
  then show ?thesis
  proof cases
    case 2
    then show ?thesis using next_version_to_validate_steps[of s s' "Some i" for i] by auto
  next
    case 3
    have "sched_step\<^sup>*\<^sup>* (s, W) (s1, W)" using 3(1) next_version_to_validate_steps[of s s1 None W] by auto
    moreover have "sched_step\<^sup>*\<^sup>* (s1, W) (s', started t W)"
      using next_version_to_execute_steps[OF 3(2), of W] 3(3) by simp
    ultimately show ?thesis by simp
  qed simp
qed

lemma finish_execution_steps:
  assumes "finish_execution s i = Some s'"
  shows "sched_step\<^sup>*\<^sup>* (s, add_mset (Runs i) W) (s', W)"
proof -
  obtain s1 where s1: "set_executed_status s i = Some s1" "s' = decrease_validation_index s1 i"
    using assms by (auto simp: finish_execution_def)
  have "sched_step (s, add_mset (Runs i) W) (s1, W)" by (rule sched_step.executed[OF s1(1)])
  moreover have "sched_step (s1, W) (s', W)"
    unfolding s1(2) decrease_validation_index_def by (rule sched_step.change_validation_index)
  ultimately show ?thesis by (auto intro: converse_rtranclp_into_rtranclp)
qed

lemma finish_abort_steps:
  assumes "finish_abort s i = Some (s', t)"
  shows "sched_step\<^sup>*\<^sup>* (s, add_mset (Aborts i) W) (s', started t W)"
proof -
  obtain s1 where s1: "set_ready_status s i = Some s1" using assms by (auto simp: finish_abort_def bind_eq_Some_conv)
  have "sched_step (s, add_mset (Aborts i) W) (s1, add_mset (Readied i) W)" by (rule sched_step.ready[OF s1])
  moreover have "sched_step (s1, add_mset (Readied i) W) (s', started t W)"
  proof (cases "i < execution_index s1")
    case True
    then obtain b where b: "try_incarnate s1 i = Some (s', b)" "t = (if b then ExecutionTask i else AskForTask)"
      using assms s1 by (auto simp: finish_abort_def bind_eq_Some_conv split: if_splits)
    with sched_step.incarnate_readied[OF True b(1), of W] show ?thesis by (auto split: if_splits)
  next
    case False
    with assms s1 sched_step.not_incarnated[OF False, of W] show ?thesis by (auto simp: finish_abort_def)
  qed
  ultimately show ?thesis by (auto intro: converse_rtranclp_into_rtranclp)
qed

section \<open>Properties\<close>

text \<open>Three states of a chunk of two transactions: the first transaction is executed by a worker; it is
  committed and no worker is busy; it was excluded from the block and the scheduler is halted.\<close>

definition busy_scheduler :: scheduler where
  "busy_scheduler = \<lparr>execution_index = 1, validation_index = 2, commit_index = 0, chunk_size = 2,
     tx_statuses = [Executing, ReadyToExecute], done_marker = False\<rparr>"

definition idle_scheduler :: scheduler where
  "idle_scheduler = \<lparr>execution_index = 1, validation_index = 0, commit_index = 1, chunk_size = 2,
     tx_statuses = [Committed, ReadyToExecute], done_marker = False\<rparr>"

definition halted_scheduler :: scheduler where
  "halted_scheduler = idle_scheduler\<lparr>commit_index := 0, done_marker := True\<rparr>"

lemmas scheduler_samples = sch_new_def busy_scheduler_def idle_scheduler_def try_incarnate_def status_defs
  set_executed_status_def try_commit_def sch_done_def numeral_2_eq_2 halted_scheduler_def halt_scheduler_def halt_def

lemma sched_reachable_step: "sched_reachable n s W \<Longrightarrow> sched_step (s, W) (s', W') \<Longrightarrow> sched_reachable n s' W'"
  unfolding sched_reachable_def by (rule rtranclp.rtrancl_into_rtrancl)

lemma busy_scheduler_reachable: "sched_reachable 2 busy_scheduler {#Runs 0#}"
proof -
  let ?s = "(sch_new 2)\<lparr>execution_index := 1\<rparr>"
  have "sched_reachable 2 (sch_new 2) {#}" by (simp add: sched_reachable_def)
  moreover have "sched_step (sch_new 2, {#}) (?s, {#Fetched 0#})"
    using sched_step.fetch_execution_index[of "sch_new 2" "{#}"] by (simp add: sch_new_def)
  moreover have "sched_step (?s, {#Fetched 0#}) (busy_scheduler, {#Runs 0#})"
    using sched_step.incarnate_fetched[of ?s 0 busy_scheduler True "{#}"] by (simp add: scheduler_samples)
  ultimately show ?thesis by (rule sched_reachable_step[OF sched_reachable_step])
qed

lemma committing_reachable: "sched_reachable 2 idle_scheduler {#Committing 0#}"
proof -
  let ?s = "busy_scheduler\<lparr>tx_statuses := [Executed, ReadyToExecute]\<rparr>"
  let ?t = "?s\<lparr>validation_index := 0\<rparr>"
  have "sched_step (busy_scheduler, {#Runs 0#}) (?s, {#})"
    using sched_step.executed[of busy_scheduler 0 ?s "{#}"] by (simp add: scheduler_samples)
  from sched_reachable_step[OF busy_scheduler_reachable this] have "sched_reachable 2 ?s {#}" .
  moreover have "sched_step (?s, {#}) (?t, {#})" by (rule sched_step.change_validation_index)
  moreover have "sched_step (?t, {#}) (?t, {#HoldsLock#})" by (rule sched_step.enter_commit_phase) simp
  moreover have "sched_step (?t, {#HoldsLock#}) (idle_scheduler, {#Committing 0#})"
    using sched_step.commit[of ?t idle_scheduler 0 "{#}"] by (simp add: scheduler_samples)
  ultimately show ?thesis by (rule sched_reachable_step[OF sched_reachable_step[OF sched_reachable_step]])
qed

lemma idle_scheduler_reachable: "sched_reachable 2 idle_scheduler {#}"
proof -
  have "sched_step (idle_scheduler, {#Committing 0#}) (idle_scheduler, {#HoldsLock#})" by (rule sched_step.commit_succeeded)
  moreover have "sched_step (idle_scheduler, {#HoldsLock#}) (idle_scheduler, {#})"
    using sched_step.leave_commit_phase[of idle_scheduler idle_scheduler "{#}"] by (simp add: scheduler_samples)
  ultimately show ?thesis by (rule sched_reachable_step[OF sched_reachable_step[OF committing_reachable]])
qed

lemma halted_scheduler_reachable: "sched_reachable 2 halted_scheduler {#HoldsLock#}"
proof -
  have "sched_step (idle_scheduler, {#Committing 0#}) (halted_scheduler, {#HoldsLock#})"
    using sched_step.block_full[of idle_scheduler halted_scheduler 0 "{#}"] by (simp add: scheduler_samples)
  then show ?thesis by (rule sched_reachable_step[OF committing_reachable])
qed

text \<open>C5: The scheduler's assertions hold: in every state that interleaved workers can reach on a chunk that is
  not empty, a worker that finishes an execution finds the transaction executing, one that finishes an abort
  finds it aborting, the holder of the commit lock finds a transaction to commit in range, and one whose
  transaction does not fit into the block can halt the scheduler. An execution in progress is at most one
  worker's, and at most one worker is in the commit phase. Exactly the transactions below the commit index are
  committed; only when the scheduler was halted, the excluded transaction at the commit index has the status
  \<open>Committed\<close> too.\<close>

theorem scheduler_assertions_hold:
  assumes "sched_reachable n s W" "0 < n"
  shows "(Runs i \<in># W \<longrightarrow> set_executed_status s i \<noteq> None \<and> count W (Runs i) = 1) \<and>
    (Aborts i \<in># W \<longrightarrow> set_ready_status s i \<noteq> None \<and> count W (Aborts i) = 1) \<and>
    (Validates i \<in># W \<longrightarrow> try_validation_abort s i \<noteq> None) \<and>
    try_commit s \<noteq> None \<and> try_incarnate s i \<noteq> None \<and>
    (Committing i \<in># W \<longrightarrow> halt_scheduler s \<noteq> None \<and> get_n_committed_txs s = i + 1) \<and>
    size (filter_mset is_committer W) \<le> 1 \<and>
    (\<forall>j < chunk_size s. tx_statuses s ! j = Committed \<longleftrightarrow>
       j < get_n_committed_txs s \<or> sch_done s \<and> j = get_n_committed_txs s)"
proof -
  have inv: "sched_inv s W" and lock: "lock_inv s W" using sched_reachable_inv[OF assms] by simp_all
  note len = sched_invD(2)[OF inv]
  have own: "i < chunk_size s" "tx_inv s W i" if "Runs i \<in># W \<or> Aborts i \<in># W \<or> Validates i \<in># W"
    using sched_invD(4)[OF inv, of i] sched_invD(1)[OF inv, of i] that by blast+
  have "Runs i \<in># W \<longrightarrow> set_executed_status s i \<noteq> None \<and> count W (Runs i) = 1"
    using own len by (auto simp: tx_inv_def set_executed_status_def lock_tx_status_def
      simp flip: count_greater_zero_iff split: if_splits)
  moreover have "Aborts i \<in># W \<longrightarrow> set_ready_status s i \<noteq> None \<and> count W (Aborts i) = 1"
    using own len by (auto simp: tx_inv_def set_ready_status_def lock_tx_status_def
      simp flip: count_greater_zero_iff split: if_splits)
  moreover have "Validates i \<in># W \<longrightarrow> try_validation_abort s i \<noteq> None"
    using own len by (auto simp: try_validation_abort_def lock_tx_status_def)
  moreover have "try_commit s \<noteq> None"
    using inv len by (auto simp: try_commit_def sched_inv_def sch_done_def lock_tx_status_def Let_def)
  moreover have "try_incarnate s i \<noteq> None"
    using len by (auto simp: try_incarnate_def lock_tx_status_def)
  moreover have "Committing i \<in># W \<longrightarrow> halt_scheduler s \<noteq> None \<and> get_n_committed_txs s = i + 1"
    "size (filter_mset is_committer W) \<le> 1"
    using lock by (auto simp: lock_inv_def halt_scheduler_def get_n_committed_txs_def)
  moreover have "\<forall>j < chunk_size s. tx_statuses s ! j = Committed \<longleftrightarrow>
      j < get_n_committed_txs s \<or> sch_done s \<and> j = get_n_committed_txs s"
    using inv by (auto simp: sched_inv_def tx_inv_def get_n_committed_txs_def halt_defs)
  ultimately show ?thesis by blast
qed

theorem scheduler_assertions_hold_witness:
  "set_executed_status busy_scheduler 0 = Some (busy_scheduler\<lparr>tx_statuses := [Executed, ReadyToExecute]\<rparr>) \<and>
   count {#Runs 0#} (Runs 0) = 1 \<and> try_commit busy_scheduler = Some (busy_scheduler, None) \<and>
   halt_scheduler idle_scheduler = Some halted_scheduler \<and> get_n_committed_txs halted_scheduler = 0 \<and>
   tx_statuses halted_scheduler ! 0 = Committed \<and> tx_statuses halted_scheduler ! 1 \<noteq> Committed"
  using scheduler_assertions_hold[OF busy_scheduler_reachable, of 0] scheduler_assertions_hold[OF committing_reachable, of 0]
    scheduler_assertions_hold[OF halted_scheduler_reachable, of 0]
  by (simp add: scheduler_samples get_n_committed_txs_def)

text \<open>C26: Workers never starve: in every reachable state in which the chunk is not done, no worker is busy and
  nothing can be committed, the next call of \<^verbatim>\<open>next_task\<close> returns the execution of the next transaction to
  commit. So no transaction is ever lost, whatever was aborted and re-executed before.\<close>

theorem scheduler_never_starves:
  assumes "sched_reachable n s {#}" "0 < n" "\<not> sch_done s" "try_commit s = Some (s, None)"
  shows "\<exists>s'. next_task s = Some (s', ExecutionTask (get_n_committed_txs s))"
proof -
  have inv: "sched_inv s {#}" using sched_reachable_inv[OF assms(1,2)] by simp
  note len = sched_invD(2)[OF inv]
  let ?c = "commit_index s"
  have c: "?c < chunk_size s" using inv assms(3) by (auto simp: sched_inv_def sch_done_def)
  have tx: "tx_inv s {#} i" if "i < chunk_size s" for i using sched_invD(1)[OF inv that] .
  have e: "committed_end s = ?c" using assms(3) by (simp add: halt_defs)
  have ready: "tx_statuses s ! ?c = ReadyToExecute"
    using tx[OF c] assms(3,4) c len e
    by (cases "tx_statuses s ! ?c") (auto simp: tx_inv_def try_commit_def lock_tx_status_def Let_def sch_done_def split: if_splits)
  have "execution_index s \<le> ?c" using tx[OF c] ready by (auto simp: tx_inv_def not_less)
  moreover have "?c \<le> execution_index s"
  proof (rule ccontr)
    assume "\<not> ?c \<le> execution_index s"
    with tx[of "execution_index s"] c e show False by (auto simp: tx_inv_def)
  qed
  ultimately have exec: "execution_index s = ?c" by simp
  have committed: "tx_statuses s ! i = Committed" if "i < ?c" for i
    using tx[of i] that c e by (simp add: tx_inv_def)
  have val: "(if validation_index s < ?c then next_version_to_validate s else Some (s, None)) =
      Some (if validation_index s < ?c then s\<lparr>validation_index := validation_index s + 1\<rparr> else s, None)"
    using c len committed by (auto simp: next_version_to_validate_def Let_def lock_tx_status_def)
  show ?thesis
    using assms(3) c len ready val exec
    by (auto simp: next_task_def Let_def next_version_to_execute_def try_incarnate_def lock_tx_status_def
      get_n_committed_txs_def min_def)
qed

theorem scheduler_never_starves_witness: "\<exists>s'. next_task idle_scheduler = Some (s', ExecutionTask 1)"
  using scheduler_never_starves[OF idle_scheduler_reachable]
  by (simp add: scheduler_samples get_n_committed_txs_def)

end
