(* ===== verification/Worker_Logic.thy ===== *)
theory Worker_Logic
  imports Bouncer Fee_Transfer Scheduler
begin

text \<open>
  \<^verbatim>\<open>crates/blockifier/src/concurrency/worker_logic.rs\<close>: what a worker does with the scheduler, the
  versioned state and the bouncer. A transaction is the program of its \<^verbatim>\<open>execute_raw\<close>, which ends with an
  error or an execution info. The functions are the code of one worker, from the state it finds to the state it leaves;
  other workers come in through the outputs, which may come from executions interleaved with theirs
  (\<open>output_ok\<close>). A panic is \<open>None\<close>.
\<close>

section \<open>The executor\<close>

record ('c, 'e) execution_task_output =
  eo_reads :: state_maps
  eo_writes :: state_maps
  eo_contract_classes :: "'c contract_class_mapping"
  eo_visited_pcs :: visited_pcs
  eo_result :: "'e + transaction_execution_info"

text \<open>What does not change: the block's parameters, the transactions and their contexts.\<close>

record ('s, 'c, 'e, 'q) worker_env =
  env_reader :: "('s, 'c) state_reader"
  env_vm :: vm_ops
  env_hashes :: hash_functions
  env_estimate_casm :: "'c \<Rightarrow> execution_resources"
  env_order :: "class_hash set \<Rightarrow> class_hash list"
  env_chunk :: "('c, 'e + transaction_execution_info) program list"
  env_contexts :: "'q transaction_context list"

record ('s, 'c, 'e) worker_executor =
  we_scheduler :: scheduler
  we_state :: "('s, 'c) versioned_state"
  we_outputs :: "('c, 'e) execution_task_output option list"
  we_bouncer :: bouncer

definition worker_initialize :: "'s \<Rightarrow> ('s, 'c, 'e, 'q) worker_env \<Rightarrow> bouncer \<Rightarrow> ('s, 'c, 'e) worker_executor" where
  "worker_initialize s E bouncer = \<lparr>we_scheduler = sch_new (length (env_chunk E)), we_state = vst_new s,
     we_outputs = replicate (length (env_chunk E)) None, we_bouncer = bouncer\<rparr>"

definition nth_or_panic :: "'a list \<Rightarrow> nat \<Rightarrow> 'a option" where
  "nth_or_panic xs i = (if i < length xs then Some (xs ! i) else None)"

definition get_output :: "('s, 'c, 'e) worker_executor \<Rightarrow> nat \<Rightarrow> ('c, 'e) execution_task_output option" where
  "get_output w tx_index = Option.bind (nth_or_panic (we_outputs w) tx_index) id"

section \<open>Executing\<close>

text \<open>What follows \<^verbatim>\<open>execute_raw\<close>; the state of the transactional state is the versioned state.\<close>

definition finish_execute_tx ::
    "nat \<Rightarrow> (('s, 'c) versioned_state, 'c) cached_state \<Rightarrow> 'e + transaction_execution_info
      \<Rightarrow> (('s, 'c) versioned_state \<times> ('c, 'e) execution_task_output) option" where
  "finish_execute_tx tx_index c execution_result =
     (case execution_result of
        Inr _ \<Rightarrow> do {
          diff \<leftarrow> sc_to_state_diff (cs_cache c);
          vs \<leftarrow> vst_apply_writes (cs_state c) tx_index (ch_state_maps diff) (cs_class_hash_to_class c);
          Some (vs, \<lparr>eo_reads = initial_reads (cs_cache c), eo_writes = ch_state_maps diff,
            eo_contract_classes = cs_class_hash_to_class c, eo_visited_pcs = cs_visited_pcs c,
            eo_result = execution_result\<rparr>) }
      | Inl _ \<Rightarrow> Some (cs_state c, \<lparr>eo_reads = initial_reads (cs_cache c), eo_writes = sm_default,
            eo_contract_classes = [], eo_visited_pcs = [], eo_result = execution_result\<rparr>))"

definition execute_tx ::
    "('s, 'c, 'e, 'q) worker_env \<Rightarrow> ('s, 'c, 'e) worker_executor \<Rightarrow> nat \<Rightarrow> ('s, 'c, 'e) worker_executor option" where
  "execute_tx E w tx_index = do {
     tx \<leftarrow> nth_or_panic (env_chunk E) tx_index;
     (c, execution_result) \<leftarrow>
       run_program tx (proxy_reader (env_reader E) tx_index) (create_transactional (we_state w));
     (vs, execution_output) \<leftarrow> finish_execute_tx tx_index c execution_result;
     rs_assert (tx_index < length (we_outputs w));
     Some (w\<lparr>we_state := vs, we_outputs := (we_outputs w)[tx_index := Some execution_output]\<rparr>) }"

definition worker_execute ::
    "('s, 'c, 'e, 'q) worker_env \<Rightarrow> ('s, 'c, 'e) worker_executor \<Rightarrow> nat \<Rightarrow> ('s, 'c, 'e) worker_executor option" where
  "worker_execute E w tx_index = do {
     w1 \<leftarrow> execute_tx E w tx_index;
     scheduler \<leftarrow> finish_execution (we_scheduler w1) tx_index;
     Some (w1\<lparr>we_scheduler := scheduler\<rparr>) }"

section \<open>Validating\<close>

definition worker_validate :: "('s, 'c, 'e) worker_executor \<Rightarrow> nat \<Rightarrow> (('s, 'c, 'e) worker_executor \<times> task) option" where
  "worker_validate w tx_index = do {
     execution_output \<leftarrow> get_output w tx_index;
     reads_valid \<leftarrow> validate_reads (we_state w) tx_index (eo_reads execution_output);
     (scheduler, aborted) \<leftarrow>
       (if \<not> reads_valid then try_validation_abort (we_scheduler w) tx_index else Some (we_scheduler w, False));
     if aborted then do {
       vs \<leftarrow> vst_delete_writes (we_state w) tx_index (eo_writes execution_output) (eo_contract_classes execution_output);
       (scheduler1, task) \<leftarrow> finish_abort scheduler tx_index;
       Some (w\<lparr>we_scheduler := scheduler1, we_state := vs\<rparr>, task) }
     else Some (w\<lparr>we_scheduler := scheduler\<rparr>, AskForTask) }"

section \<open>Committing\<close>

text \<open>The first part of \<^verbatim>\<open>commit_tx\<close>: after it the execution is final.\<close>

definition finalize_execution ::
    "('s, 'c, 'e, 'q) worker_env \<Rightarrow> ('s, 'c, 'e) worker_executor \<Rightarrow> nat \<Rightarrow> ('s, 'c, 'e) worker_executor option" where
  "finalize_execution E w tx_index = do {
     execution_output \<leftarrow> get_output w tx_index;
     reads_valid \<leftarrow> validate_reads (we_state w) tx_index (eo_reads execution_output);
     if \<not> reads_valid then do {
       vs \<leftarrow> vst_delete_writes (we_state w) tx_index (eo_writes execution_output) (eo_contract_classes execution_output);
       w1 \<leftarrow> execute_tx E (w\<lparr>we_state := vs\<rparr>) tx_index;
       let w2 = w1\<lparr>we_scheduler := finish_execution_during_commit (we_scheduler w1) tx_index\<rparr>;
       execution_output1 \<leftarrow> get_output w2 tx_index;
       valid \<leftarrow> validate_reads (we_state w2) tx_index (eo_reads execution_output1);
       rs_assert valid;
       Some w2 }
     else Some w }"

text \<open>What follows the bouncer's answer: a full block, or the completion of the fee transfer.\<close>

definition finish_commit ::
    "('s, 'c, 'e, 'q) worker_env \<Rightarrow> ('s, 'c, 'e) worker_executor \<Rightarrow> nat \<Rightarrow> 'q transaction_context
      \<Rightarrow> ('c, 'e) execution_task_output \<Rightarrow> transaction_execution_info \<Rightarrow> bouncer_error + unit
      \<Rightarrow> (('s, 'c, 'e) worker_executor \<times> bool) option" where
  "finish_commit E w tx_index c execution_output info bouncer_result =
     (case bouncer_result of
        Inl BlockFull \<Rightarrow> Some (w, False)
      | Inl (BouncerStateError _) \<Rightarrow> None
      | Inr _ \<Rightarrow> do {
          (vs, info1) \<leftarrow> complete_fee_transfer_flow (proxy_reader (env_reader E) tx_index)
            (proxy_apply_writes tx_index) (env_hashes E) c info (we_state w);
          Some (w\<lparr>we_state := vs, we_outputs := (we_outputs w)
            [tx_index := Some (execution_output\<lparr>eo_result := Inr info1\<rparr>)]\<rparr>, True) })"

text \<open>The second part of \<^verbatim>\<open>commit_tx\<close>, for a transaction that did not fail.\<close>

definition settle_tx ::
    "('s, 'c, 'e, 'q) worker_env \<Rightarrow> ('s, 'c, 'e) worker_executor \<Rightarrow> nat \<Rightarrow> ('c, 'e) execution_task_output
      \<Rightarrow> transaction_execution_info \<Rightarrow> (('s, 'c, 'e) worker_executor \<times> bool) option" where
  "settle_tx E w tx_index execution_output info = do {
     c \<leftarrow> nth_or_panic (env_contexts E) tx_index;
     let keys = update_sequencer_key_in_storage (get_fee_token_var_address (env_hashes E))
       (into_keys (eo_writes execution_output)) (fee_token_address c) (sequencer_address c)
       (is_sequencer_the_sender c) (unat (rcpt_fee (txi_receipt info))) True;
     summary \<leftarrow> txi_summarize (env_vm E) (bc_versioned_constants (tc_block_context c)) info;
     ((vs, bouncer), bouncer_result) \<leftarrow> try_update (env_vm E) (env_estimate_casm E) (env_order E)
       (proxy_reader (env_reader E) tx_index) (we_bouncer w) (we_state w) keys summary
       (rcpt_resources (txi_receipt info));
     finish_commit E (w\<lparr>we_state := vs, we_bouncer := bouncer\<rparr>) tx_index c execution_output info bouncer_result }"

definition commit_tx ::
    "('s, 'c, 'e, 'q) worker_env \<Rightarrow> ('s, 'c, 'e) worker_executor \<Rightarrow> nat \<Rightarrow> (('s, 'c, 'e) worker_executor \<times> bool) option" where
  "commit_tx E w tx_index = do {
     w1 \<leftarrow> finalize_execution E w tx_index;
     execution_output \<leftarrow> get_output w1 tx_index;
     case eo_result execution_output of
       Inl _ \<Rightarrow> Some (w1, True)
     | Inr info \<Rightarrow> settle_tx E w1 tx_index execution_output info }"

text \<open>The loop over the transactions that can be committed. \<open>None\<close> is a loop that did not end within the given number
  of rounds, \<open>Some None\<close> a panic. A round commits a transaction or halts the scheduler, so that as many rounds as there
  are transactions left, and two to stop, are enough (\<open>commit_loop_ends\<close>). The commit lock is free for a worker that
  runs alone; a worker that finds it taken skips the loop.\<close>

fun commit_loop ::
    "nat \<Rightarrow> ('s, 'c, 'e, 'q) worker_env \<Rightarrow> ('s, 'c, 'e) worker_executor \<Rightarrow> ('s, 'c, 'e) worker_executor option option" where
  "commit_loop 0 E w = None"
| "commit_loop (Suc n) E w =
     (case try_commit (we_scheduler w) of
        None \<Rightarrow> Some None
      | Some (scheduler, None) \<Rightarrow> Some (Some (w\<lparr>we_scheduler := scheduler\<rparr>))
      | Some (scheduler, Some tx_index) \<Rightarrow>
         (case commit_tx E (w\<lparr>we_scheduler := scheduler\<rparr>) tx_index of
            None \<Rightarrow> Some None
          | Some (w1, commit_succeeded) \<Rightarrow>
              if commit_succeeded then commit_loop n E w1
              else (case halt_scheduler (we_scheduler w1) of
                  None \<Rightarrow> Some None
                | Some scheduler1 \<Rightarrow> commit_loop n E (w1\<lparr>we_scheduler := scheduler1\<rparr>))))"

definition commit_while_possible ::
    "('s, 'c, 'e, 'q) worker_env \<Rightarrow> ('s, 'c, 'e) worker_executor \<Rightarrow> ('s, 'c, 'e) worker_executor option" where
  "commit_while_possible E w = Option.bind (commit_loop (chunk_size (we_scheduler w) + 2) E w) id"

text \<open>One round of the loop of \<^verbatim>\<open>run\<close>, with the next task, or none to leave the loop. Sleeping is left out.\<close>

definition run_round ::
    "('s, 'c, 'e, 'q) worker_env \<Rightarrow> ('s, 'c, 'e) worker_executor \<Rightarrow> task \<Rightarrow> (('s, 'c, 'e) worker_executor \<times> task option) option" where
  "run_round E w task = do {
     w1 \<leftarrow> commit_while_possible E w;
     case task of
       ExecutionTask tx_index \<Rightarrow> map_option (\<lambda>w2. (w2, Some AskForTask)) (worker_execute E w1 tx_index)
     | ValidationTask tx_index \<Rightarrow> map_option (\<lambda>(w2, next). (w2, Some next)) (worker_validate w1 tx_index)
     | NoTaskAvailable \<Rightarrow> Some (w1, Some AskForTask)
     | AskForTask \<Rightarrow> map_option (\<lambda>(scheduler, next). (w1\<lparr>we_scheduler := scheduler\<rparr>, Some next)) (next_task (we_scheduler w1))
     | TaskDone \<Rightarrow> Some (w1, None) }"

section \<open>Committing ends\<close>

definition same_progress :: "scheduler \<Rightarrow> scheduler \<Rightarrow> bool" where
  "same_progress s s1 \<longleftrightarrow> sch_done s1 = sch_done s \<and> commit_index s1 = commit_index s \<and> chunk_size s1 = chunk_size s"

lemma execute_tx_scheduler: "execute_tx E w i = Some w1 \<Longrightarrow> we_scheduler w1 = we_scheduler w"
  unfolding execute_tx_def bind_eq_Some_conv by (elim exE conjE) (auto simp: bind_eq_Some_conv split: prod.splits)

lemma finalize_cases:
  assumes "finalize_execution E w i = Some w1"
  obtains (valid) out where "get_output w i = Some out" "validate_reads (we_state w) i (eo_reads out) = Some True" "w1 = w"
  | (again) out vs w2 where "get_output w i = Some out"
      "vst_delete_writes (we_state w) i (eo_writes out) (eo_contract_classes out) = Some vs"
      "execute_tx E (w\<lparr>we_state := vs\<rparr>) i = Some w2"
      "w1 = w2\<lparr>we_scheduler := finish_execution_during_commit (we_scheduler w2) i\<rparr>"
proof -
  from assms obtain out b where o: "get_output w i = Some out" "validate_reads (we_state w) i (eo_reads out) = Some b"
    unfolding finalize_execution_def bind_eq_Some_conv by blast
  show thesis
  proof (cases b)
    case True
    have "w1 = w" using assms o True by (simp add: finalize_execution_def)
    then show thesis using valid[OF o(1)] o(2) True by simp
  next
    case False
    from assms obtain vs w2 where
      "vst_delete_writes (we_state w) i (eo_writes out) (eo_contract_classes out) = Some vs"
      "execute_tx E (w\<lparr>we_state := vs\<rparr>) i = Some w2"
      "w1 = w2\<lparr>we_scheduler := finish_execution_during_commit (we_scheduler w2) i\<rparr>"
      unfolding finalize_execution_def using o False by (auto simp: bind_eq_Some_conv Let_def)
    then show thesis by (rule again[OF o(1)])
  qed
qed

lemma finalize_scheduler: "finalize_execution E w i = Some w1 \<Longrightarrow> same_progress (we_scheduler w) (we_scheduler w1)"
  by (erule finalize_cases)
    (simp_all add: same_progress_def execute_tx_scheduler finish_execution_during_commit_def decrease_validation_index_def
      sch_done_def)

lemma settle_obtains:
  assumes "settle_tx E w i out info = Some (w1, b)"
  obtains c vs bouncer keys summary r where "nth_or_panic (env_contexts E) i = Some c"
    "try_update (env_vm E) (env_estimate_casm E) (env_order E) (proxy_reader (env_reader E) i) (we_bouncer w) (we_state w)
       keys summary (rcpt_resources (txi_receipt info)) = Some ((vs, bouncer), r)"
    "finish_commit E (w\<lparr>we_state := vs, we_bouncer := bouncer\<rparr>) i c out info r = Some (w1, b)"
  using assms unfolding settle_tx_def Let_def bind_eq_Some_conv by (auto split: prod.splits)

lemma finish_commit_cases:
  assumes "finish_commit E w i c out info r = Some (w1, b)"
  obtains (full) "\<not> b" "w1 = w"
  | (settled) vs info1 where "b" "r = Inr ()"
      "complete_fee_transfer_flow (proxy_reader (env_reader E) i) (proxy_apply_writes i) (env_hashes E) c info (we_state w) =
         Some (vs, info1)"
      "w1 = w\<lparr>we_state := vs, we_outputs := (we_outputs w)[i := Some (out\<lparr>eo_result := Inr info1\<rparr>)]\<rparr>"
  using assms unfolding finish_commit_def by (auto simp: bind_eq_Some_conv split: sum.splits bouncer_error.splits)

lemma commit_tx_cases:
  assumes "commit_tx E w i = Some (w1, b)"
  obtains (failed) out e where "b" "finalize_execution E w i = Some w1" "get_output w1 i = Some out" "eo_result out = Inl e"
  | (ok) w2 out info where "finalize_execution E w i = Some w2" "get_output w2 i = Some out" "eo_result out = Inr info"
      "settle_tx E w2 i out info = Some (w1, b)"
proof -
  from assms obtain w2 out where w2: "finalize_execution E w i = Some w2" "get_output w2 i = Some out"
    "(case eo_result out of Inl _ \<Rightarrow> Some (w2, True) | Inr info \<Rightarrow> settle_tx E w2 i out info) = Some (w1, b)"
    unfolding commit_tx_def bind_eq_Some_conv by blast
  show thesis
  proof (cases "eo_result out")
    case (Inl e)
    with w2 have "w2 = w1" b by simp_all
    then show thesis using failed[of out e] w2 Inl by simp
  next
    case (Inr info)
    then show thesis using ok[OF w2(1,2) Inr] w2(3) by simp
  qed
qed

lemma commit_tx_scheduler: "commit_tx E w i = Some (w1, b) \<Longrightarrow> same_progress (we_scheduler w) (we_scheduler w1)"
  by (erule commit_tx_cases) (auto elim!: settle_obtains finish_commit_cases dest: finalize_scheduler)

lemma try_commit_cases:
  assumes "try_commit s = Some (s1, r)"
  obtains (stop) "r = None" "s1 = s"
  | (commit) "r = Some (commit_index s)" "\<not> sch_done s" "commit_index s < chunk_size s"
      "commit_index s1 = Suc (commit_index s)" "chunk_size s1 = chunk_size s"
  using assms
  by (auto simp: try_commit_def Let_def bind_eq_Some_conv sch_done_def set_status_def split: if_splits option.splits)

text \<open>The rounds that are left.\<close>

definition rounds_left :: "scheduler \<Rightarrow> nat" where
  "rounds_left s = (if sch_done s then 1 else chunk_size s - commit_index s + 2)"

lemma commit_loop_ends: "rounds_left (we_scheduler w) \<le> n \<Longrightarrow> commit_loop n E w \<noteq> None"
proof (induction n arbitrary: w)
  case 0
  then show ?case by (simp add: rounds_left_def split: if_splits)
next
  case (Suc n)
  show ?case
  proof (cases "try_commit (we_scheduler w)")
    case (Some p)
    obtain s r where p: "p = (s, r)" by (cases p)
    from Some p have tc: "try_commit (we_scheduler w) = Some (s, r)" by simp
    then show ?thesis
    proof (cases rule: try_commit_cases)
      case stop
      with tc show ?thesis by simp
    next
      case commit
      show ?thesis
      proof (cases "commit_tx E (w\<lparr>we_scheduler := s\<rparr>) (commit_index (we_scheduler w))")
        case (Some q)
        obtain w1 b where q: "commit_tx E (w\<lparr>we_scheduler := s\<rparr>) (commit_index (we_scheduler w)) = Some (w1, b)"
          using Some by (cases q) simp
        have same: "same_progress s (we_scheduler w1)" using commit_tx_scheduler[OF q] by simp
        have "rounds_left (we_scheduler w1) \<le> n"
          using same commit Suc.prems by (auto simp: rounds_left_def same_progress_def split: if_splits)
        moreover have "rounds_left s1 \<le> n" if "halt_scheduler (we_scheduler w1) = Some s1" for s1
          using that commit Suc.prems by (auto simp: rounds_left_def halt_scheduler_def halt_def sch_done_def bind_eq_Some_conv)
        ultimately show ?thesis
          using Suc.IH tc q commit(1) by (cases "halt_scheduler (we_scheduler w1)") simp_all
      next
        case None
        with tc commit(1) show ?thesis by simp
      qed
    qed
  qed simp
qed

section \<open>Committed transactions\<close>

text \<open>An output that a possibly interleaved execution of the transaction recorded, and whose writes are those of its
  version. Nothing is below the first transaction, so that its reads are those of the initial state.\<close>

definition output_ok ::
    "(class_hash \<Rightarrow> 'c) \<Rightarrow> ('s \<Rightarrow> 'c state_view) \<Rightarrow> ('s, 'c) versioned_state \<Rightarrow> nat
      \<Rightarrow> ('c, 'e + transaction_execution_info) program \<Rightarrow> ('c, 'e) execution_task_output \<Rightarrow> bool" where
  "output_ok class_of view vs i P out \<longleftrightarrow>
     (\<exists>c :: (('s, 'c) versioned_state, 'c) cached_state.
       running class_of P c (Return (eo_result out)) \<and> eo_reads out = initial_reads (cs_cache c) \<and>
       (case eo_result out of
          Inl _ \<Rightarrow> eo_writes out = sm_default \<and> eo_contract_classes out = []
        | Inr _ \<Rightarrow> map_option ch_state_maps (sc_to_state_diff (cs_cache c)) = Some (eo_writes out) \<and>
            eo_contract_classes out = cs_class_hash_to_class c)) \<and>
     version_is vs i (eo_writes out) (eo_contract_classes out) \<and>
     (i = 0 \<longrightarrow> agrees class_of (view (vst_initial_state vs)) (eo_reads out))"

text \<open>The transaction on a state without versions: a failed one changes nothing.\<close>

definition executed_view :: "('c, 'e + transaction_execution_info) program \<Rightarrow> 'c state_view \<Rightarrow> 'c state_view" where
  "executed_view P v = (case run_view P v of (v1, Inl _) \<Rightarrow> v | (v1, Inr _) \<Rightarrow> v1)"

definition sequential_tx ::
    "hash_functions \<Rightarrow> 'q transaction_context \<Rightarrow> ('c, 'e + transaction_execution_info) program \<Rightarrow> 'c state_view \<Rightarrow> 'c state_view" where
  "sequential_tx H c P v =
     (case run_view P v of (v1, Inl _) \<Rightarrow> v | (v1, Inr info) \<Rightarrow> charge_sequencer H c info v1)"

lemma executed_view_eq:
  "snd (run_view P v) = Inl e \<Longrightarrow> executed_view P v = v"
  "snd (run_view P v) = Inr info \<Longrightarrow> executed_view P v = fst (run_view P v)"
  by (auto simp: executed_view_def split: prod.splits)

lemma sequential_tx_eq:
  "snd (run_view P v) = Inl e \<Longrightarrow> sequential_tx H c P v = executed_view P v"
  "snd (run_view P v) = Inr info \<Longrightarrow> sequential_tx H c P v = charge_sequencer H c info (executed_view P v)"
  by (auto simp: sequential_tx_def executed_view_def split: prod.splits)

lemma validated_output:
  assumes "vst_inv view good vs" "vst_classes_ok class_of (view (vst_initial_state vs)) vs" "output_ok class_of view vs i P out"
    and "validate_reads vs i (eo_reads out) = Some True"
  shows "eo_result out = snd (run_view P (vst_below view i vs))" "vst_view view i vs = executed_view P (vst_below view i vs)"
proof -
  let ?v = "vst_below view i vs"
  from assms(3) obtain c :: "(('a, 'b) versioned_state, 'b) cached_state" where
    run: "running class_of P c (Return (eo_result out))" and reads: "eo_reads out = initial_reads (cs_cache c)" and
    res: "case eo_result out of
          Inl _ \<Rightarrow> eo_writes out = sm_default \<and> eo_contract_classes out = []
        | Inr _ \<Rightarrow> map_option ch_state_maps (sc_to_state_diff (cs_cache c)) = Some (eo_writes out) \<and>
            eo_contract_classes out = cs_class_hash_to_class c" and
    ver: "version_is vs i (eo_writes out) (eo_contract_classes out)"
    by (auto simp: output_ok_def)
  have agr: "agrees class_of ?v (eo_reads out)"
    using assms validate_reads_agrees[OF assms(1,2)] by (cases i) (auto simp: vst_below_def output_ok_def)
  then have rv: "run_view P ?v = (overlay ?v (writes (cs_cache c)) (cs_class_hash_to_class c), eo_result out)"
    using run reads by (simp add: running_def replays_def)
  then show "eo_result out = snd (run_view P ?v)" by simp
  have view: "vst_view view i vs = overlay ?v (eo_writes out) (eo_contract_classes out)"
    by (simp add: vst_view_split at_version_is[OF ver])
  show "vst_view view i vs = executed_view P ?v"
  proof (cases "eo_result out")
    case (Inl e)
    with res view rv show ?thesis by (simp add: executed_view_def)
  next
    case (Inr info)
    then have "sm_diff (writes (cs_cache c)) (initial_reads (cs_cache c)) = Some (eo_writes out)"
      "eo_contract_classes out = cs_class_hash_to_class c"
      using res by (auto simp: sc_to_state_diff_def bind_eq_Some_conv)
    then show ?thesis
      using view rv Inr diff_overlay[of "writes (cs_cache c)" "initial_reads (cs_cache c)" "eo_writes out" class_of ?v]
        run agr reads
      by (simp add: executed_view_def running_def)
  qed
qed

text \<open>An undisturbed execution at a version without writes.\<close>

lemma execute_tx_view:
  assumes laws: "state_reader_laws (env_reader E) view good" and "vst_inv view good (we_state w)" "version_empty (we_state w) i"
    and "execute_tx E w i = Some w1"
  shows "vst_inv view good (we_state w1)"
    "vst_view view i (we_state w1) = executed_view (env_chunk E ! i) (vst_below view i (we_state w))"
    "j < i \<Longrightarrow> vst_view view j (we_state w1) = vst_view view j (we_state w)"
    "\<exists>out. get_output w1 i = Some out \<and> eo_result out = snd (run_view (env_chunk E ! i) (vst_below view i (we_state w)))"
proof -
  let ?vs = "we_state w" and ?P = "env_chunk E ! i" and ?v = "vst_below view i (we_state w)"
  let ?good = "\<lambda>vs'. vst_inv view good vs' \<and> same_versions view ?vs vs'"
  from assms(4) obtain c r vs out where
    run: "run_program ?P (proxy_reader (env_reader E) i) (create_transactional ?vs) = Some (c, r)" and
    fin: "finish_execute_tx i c r = Some (vs, out)" and len: "i < length (we_outputs w)" and
    w1: "w1 = w\<lparr>we_state := vs, we_outputs := (we_outputs w)[i := Some out]\<rparr>"
    by (auto simp: execute_tx_def nth_or_panic_def bind_eq_Some_conv rs_assert_def split: if_splits)
  have empty: "vst_view view i ?vs = ?v"
    by (simp add: vst_view_split at_version_is[OF assms(3)])
  note plaws = state_reader_laws.proxy_same_versions_laws[OF laws, of i ?vs]
  have g: "?good ?vs" using assms(2) by simp
  from state_reader_laws.run_program_keeps_parent[OF plaws g run]
  have c: "cs_inv (vst_view view i) ?good c" "r = snd (run_view ?P ?v)" "cs_view (vst_view view i) c = fst (run_view ?P ?v)"
    by (simp_all add: empty)
  then have cg: "vst_inv view good (cs_state c)" "same_versions view ?vs (cs_state c)" by (auto simp: cs_inv_def)
  have cview: "vst_view view j (cs_state c) = vst_view view j ?vs" for j by (rule same_versions_view[OF cg(2)])
  have "vst_inv view good vs \<and> vst_view view i vs = executed_view ?P ?v \<and>
    (j < i \<longrightarrow> vst_view view j vs = vst_view view j ?vs) \<and> eo_result out = r"
  proof (cases r)
    case (Inl e)
    then have "vs = cs_state c" "eo_result out = r" using fin by (auto simp: finish_execute_tx_def)
    with cg(1) cview empty Inl c(2) show ?thesis by (simp add: executed_view_eq)
  next
    case (Inr info)
    then obtain d where d: "sm_diff (writes (cs_cache c)) (initial_reads (cs_cache c)) = Some d"
      and ap: "vst_apply_writes (cs_state c) i d (cs_class_hash_to_class c) = Some vs" and res: "eo_result out = r"
      using fin by (auto simp: finish_execute_tx_def sc_to_state_diff_def bind_eq_Some_conv)
    have ok: "sm_ok (writes (cs_cache c))" "hm_ok (cs_class_hash_to_class c)"
      "reads_values (vst_view view i (cs_state c)) (initial_reads (cs_cache c))"
      using c(1) by (auto simp: cs_inv_def reads_of_def reads_values_def)
    note diff = sm_diff_values[OF ok(1) d ok(3)]
    note apv = apply_writes_versions[OF cg(1) ap diff(3) ok(2)]
    have "vst_below view i vs = vst_below view i (cs_state c)"
      using apv(2) by (cases i) (simp_all add: vst_below_def only_version_below, simp add: only_version_def)
    then have "vst_view view i vs = overlay (vst_view view i (cs_state c)) d (cs_class_hash_to_class c)"
      using apv(3) by (simp add: vst_view_split)
    also have "\<dots> = fst (run_view ?P ?v)" using diff(1) c(3) by (simp add: cs_view_def)
    finally have "vst_view view i vs = executed_view ?P ?v"
      using Inr c(2) by (simp add: executed_view_eq)
    moreover have "j < i \<longrightarrow> vst_view view j vs = vst_view view j ?vs"
      using only_version_below[OF apv(2)] cview by simp
    ultimately show ?thesis using apv(1) res by simp
  qed
  then show "vst_inv view good (we_state w1)" "vst_view view i (we_state w1) = executed_view ?P ?v"
    "j < i \<Longrightarrow> vst_view view j (we_state w1) = vst_view view j ?vs"
    "\<exists>out. get_output w1 i = Some out \<and> eo_result out = snd (run_view ?P ?v)"
    using c(2) len by (auto simp: w1 get_output_def nth_or_panic_def)
qed

lemma finalized_view:
  assumes laws: "state_reader_laws (env_reader E) view good" and inv: "vst_inv view good (we_state w)"
    and "vst_classes_ok class_of (view (vst_initial_state (we_state w))) (we_state w)"
    and out: "get_output w i = Some out" "output_ok class_of view (we_state w) i (env_chunk E ! i) out"
    and fin: "finalize_execution E w i = Some w1"
  shows "vst_inv view good (we_state w1) \<and>
    vst_view view i (we_state w1) = executed_view (env_chunk E ! i) (vst_below view i (we_state w)) \<and>
    (\<forall>j < i. vst_view view j (we_state w1) = vst_view view j (we_state w)) \<and>
    (\<exists>out1. get_output w1 i = Some out1 \<and> eo_result out1 = snd (run_view (env_chunk E ! i) (vst_below view i (we_state w))))"
  using fin
proof (cases rule: finalize_cases)
  case (valid out')
  then have "out' = out" using out(1) by simp
  with valid validated_output[OF inv assms(3) out(2)] inv out(1) show ?thesis by simp
next
  case (again out' vs w2)
  then have out': "out' = out" using out(1) by simp
  have ver: "version_is (we_state w) i (eo_writes out) (eo_contract_classes out)" using out(2) by (simp add: output_ok_def)
  note del = delete_writes_versions[OF inv again(2)[unfolded out'] ver]
  have below: "vst_below view i vs = vst_below view i (we_state w)"
    using del(2) by (cases i) (simp_all add: vst_below_def only_version_below, simp add: only_version_def)
  let ?w = "w\<lparr>we_state := vs\<rparr>"
  have pre: "vst_inv view good (we_state ?w)" "version_empty (we_state ?w) i" using del by simp_all
  note ex = execute_tx_view[OF laws pre again(3)]
  have "get_output w1 i = get_output w2 i" by (simp add: again(4) get_output_def)
  with ex below only_version_below[OF del(2)] show ?thesis by (simp add: again(4))
qed

text \<open>The bouncer only reads classes.\<close>

lemma casm_resources_versions:
  assumes laws: "state_reader_laws R view good"
  shows "vst_inv view good vs \<Longrightarrow> get_casm_hash_calculation_resources V e (proxy_reader R i) vs acc hs = Some (vs1, r) \<Longrightarrow>
    vst_inv view good vs1 \<and> same_versions view vs vs1"
proof (induction hs arbitrary: vs acc)
  case (Cons h hs)
  from state_reader_laws.vp_get_class_ok[OF laws Cons.prems(1), of i h] obtain vs2 where
    vs2: "vp_get_compiled_class R i vs h =
        Some (vs2, case v_class (vst_view view i vs) h of Some cl \<Rightarrow> Inr cl | None \<Rightarrow> Inl (UndeclaredClassHash h))"
      "same_versions view vs vs2" "vst_inv view good vs2" by blast
  show ?case
  proof (cases "v_class (vst_view view i vs) h")
    case None
    with Cons.prems(2) vs2 show ?thesis by (auto simp: proxy_reader_def rs_try_def)
  next
    case (Some cl)
    then have "get_casm_hash_calculation_resources V e (proxy_reader R i) vs2 (vm_plus V acc (e cl)) hs = Some (vs1, r)"
      using Cons.prems(2) vs2(1) by (simp add: proxy_reader_def rs_try_def)
    from Cons.IH[OF vs2(3) this] vs2(2) show ?thesis by (simp add: same_versions_def)
  qed
qed simp

lemma tx_weights_versions:
  assumes "state_reader_laws R view good" "vst_inv view good vs"
    and "get_tx_weights V e (proxy_reader R i) vs hs n res ks = Some (vs1, r)"
  shows "vst_inv view good vs1 \<and> same_versions view vs vs1"
  using assms(3) casm_resources_versions[OF assms(1,2)]
  by (auto simp: get_tx_weights_def rs_try_def Let_def split: option.splits sum.splits prod.splits)

lemma try_update_versions:
  assumes "state_reader_laws R view good" "vst_inv view good vs"
    and "try_update V e order (proxy_reader R i) b vs ks summary res = Some ((vs1, b1), Inr u)"
  shows "vst_inv view good vs1 \<and> same_versions view vs vs1"
  using assms(3) by (cases rule: try_update_cases) (use tx_weights_versions[OF assms(1,2)] in blast)+

definition without_transfer :: "'e + transaction_execution_info \<Rightarrow> 'e + transaction_execution_info" where
  "without_transfer r = map_sum id (\<lambda>info. info\<lparr>fee_transfer_call_info := None\<rparr>) r"

lemma committed_view:
  assumes laws: "state_reader_laws (env_reader E) view good" and inv: "vst_inv view good (we_state w)"
    and "vst_classes_ok class_of (view (vst_initial_state (we_state w))) (we_state w)" "i < length (env_contexts E)"
    and out: "get_output w i = Some out" "output_ok class_of view (we_state w) i (env_chunk E ! i) out"
    and commit: "commit_tx E w i = Some (w1, True)"
  shows "vst_inv view good (we_state w1) \<and>
    vst_view view i (we_state w1) =
      sequential_tx (env_hashes E) (env_contexts E ! i) (env_chunk E ! i) (vst_below view i (we_state w)) \<and>
    (\<forall>j < i. vst_view view j (we_state w1) = vst_view view j (we_state w)) \<and>
    (\<exists>out1. get_output w1 i = Some out1 \<and>
      without_transfer (eo_result out1) = without_transfer (snd (run_view (env_chunk E ! i) (vst_below view i (we_state w)))))"
  using commit
proof (cases rule: commit_tx_cases)
  case (failed out' e)
  note fin = finalized_view[OF assms(1,2,3,5,6) failed(2)]
  from fin failed(3,4) have res: "snd (run_view (env_chunk E ! i) (vst_below view i (we_state w))) = Inl e" by auto
  from fin show ?thesis unfolding sequential_tx_eq(1)[OF res] by auto
next
  case (ok w2 out' info)
  note fin = finalized_view[OF assms(1,2,3,5,6) ok(1)]
  from fin ok(2,3) have res: "snd (run_view (env_chunk E ! i) (vst_below view i (we_state w))) = Inr info" by auto
  from ok(4) obtain c vs bouncer keys summary r where
    c: "nth_or_panic (env_contexts E) i = Some c" and
    up: "try_update (env_vm E) (env_estimate_casm E) (env_order E) (proxy_reader (env_reader E) i) (we_bouncer w2) (we_state w2)
       keys summary (rcpt_resources (txi_receipt info)) = Some ((vs, bouncer), r)" and
    fc: "finish_commit E (w2\<lparr>we_state := vs, we_bouncer := bouncer\<rparr>) i c out' info r = Some (w1, True)"
    by (rule settle_obtains)
  from fc obtain vs1 info1 where r: "r = Inr ()" and
    flow: "complete_fee_transfer_flow (proxy_reader (env_reader E) i) (proxy_apply_writes i) (env_hashes E) c info vs = Some (vs1, info1)" and
    w1: "w1 = w2\<lparr>we_state := vs1, we_bouncer := bouncer, we_outputs := (we_outputs w2)[i := Some (out'\<lparr>eo_result := Inr info1\<rparr>)]\<rparr>"
    by (cases rule: finish_commit_cases) auto
  have inv2: "vst_inv view good (we_state w2)" using fin by blast
  have vs: "vst_inv view good vs" "same_versions view (we_state w2) vs"
    using try_update_versions[OF laws inv2 up[unfolded r]] by auto
  note fee = fee_flow_view[OF laws vs(1) flow]
  have "c = env_contexts E ! i" using c by (simp add: nth_or_panic_def split: if_splits)
  moreover have "i < length (we_outputs w2)" using ok(2) by (simp add: get_output_def nth_or_panic_def split: if_splits)
  ultimately show ?thesis
    using fin fee res same_versions_view[OF vs(2)]
    by (auto simp: w1 sequential_tx_eq get_output_def nth_or_panic_def without_transfer_def)
qed

section \<open>Properties\<close>

text \<open>C2: A committed transaction is a sequential one: if the output that a worker finds for a transaction was
  recorded by an execution that may have been interleaved with other workers, then a successful commit leaves, at the
  version of the transaction, the state that running it alone on the state below gives, with the sequencer's fee, or
  the state below if it fails; its result is the one of that run, but for the recorded fee transfer. Earlier versions
  do not change.\<close>

theorem committed_transaction_is_sequential:
  assumes "state_reader_laws (env_reader E) view good" "vst_inv view good (we_state w)"
    and "vst_classes_ok class_of (view (vst_initial_state (we_state w))) (we_state w)" "i < length (env_contexts E)"
    and "get_output w i = Some out" "output_ok class_of view (we_state w) i (env_chunk E ! i) out"
    and "commit_tx E w i = Some (w1, True)"
  shows "vst_inv view good (we_state w1) \<and>
    vst_view view i (we_state w1) =
      sequential_tx (env_hashes E) (env_contexts E ! i) (env_chunk E ! i) (vst_below view i (we_state w)) \<and>
    (\<forall>j < i. vst_view view j (we_state w1) = vst_view view j (we_state w)) \<and>
    (\<exists>out1. get_output w1 i = Some out1 \<and>
      without_transfer (eo_result out1) = without_transfer (snd (run_view (env_chunk E ! i) (vst_below view i (we_state w)))))"
  using assms by (rule committed_view)

text \<open>Two transactions that each increment a cell, executed before either was committed: both read 3 and wrote 4. The
  commit of the second one finds its read outdated and executes it again.\<close>

definition sample_worker_info :: transaction_execution_info where
  "sample_worker_info = \<lparr>validate_call_info = None, execute_call_info = None, fee_transfer_call_info = None,
     revert_error = None, txi_receipt = sample_receipt\<rparr>"

definition sample_increment :: "(nat, unit + transaction_execution_info) program" where
  "sample_increment = GetStorageAt 1 1 (\<lambda>x. SetStorageAt 1 1 (x + 1) (Return (Inr sample_worker_info)))"

definition sample_free_context :: "u64 transaction_context" where
  "sample_free_context = sample_context\<lparr>tc_tx_info := Deprecated ((common_fields (tc_tx_info sample_context))\<lparr>ti_version := 1\<rparr>) 0\<rparr>"

definition sample_env :: "(nat dict_state_reader, nat, unit, u64) worker_env" where
  "sample_env = \<lparr>env_reader = dict_reader, env_vm = sample_vm_ops, env_hashes = sample_hashes,
     env_estimate_casm = (\<lambda>_. vm_default), env_order = sorted_list_of_set,
     env_chunk = [sample_increment, sample_increment], env_contexts = [sample_free_context, sample_free_context]\<rparr>"

definition sample_cell :: "felt option \<Rightarrow> (nat dict_state_reader, nat) versioned_state" where
  "sample_cell x = (vst_new (sample_dict 3))\<lparr>vst_storage := \<lparr>cached_initial_values = [(1, 1) \<mapsto> 3],
     vs_writes = [((1, 1), (0, 4) # (case x of Some y \<Rightarrow> [(1, y)] | None \<Rightarrow> []))]\<rparr>\<rparr>"

definition sample_output :: "felt \<Rightarrow> (nat, unit) execution_task_output" where
  "sample_output x = \<lparr>eo_reads = sm_default\<lparr>sm_storage := [((1, 1), x)]\<rparr>, eo_writes = sm_default\<lparr>sm_storage := [((1, 1), x + 1)]\<rparr>,
     eo_contract_classes = [], eo_visited_pcs = [], eo_result = Inr sample_worker_info\<rparr>"

definition sample_worker :: "(nat dict_state_reader, nat, unit) worker_executor" where
  "sample_worker = \<lparr>we_scheduler = sch_new 2, we_state = sample_cell (Some 4),
     we_outputs = [Some (sample_output 3), Some (sample_output 3)], we_bouncer = bouncer_new (sample_config 4000)\<rparr>"

lemmas sample_state_defs = sample_cell_def vst_new_def vs_default_def sm_default_def sample_output_def

lemma sample_delete:
  "vst_delete_writes (sample_cell (Some 4)) 1 (eo_writes (sample_output 3)) (eo_contract_classes (sample_output 3)) =
     Some (sample_cell None)"
  by (simp add: vst_delete_writes_def sample_state_defs vs_delete_write_def btm_remove_def)

lemma sample_invalid: "validate_reads (sample_cell (Some 4)) 1 (eo_reads (sample_output 3)) = Some False"
  by (simp add: validate_reads_def sample_state_defs and_then_def vs_read_def cell_latest_def)

lemma sample_valid: "validate_reads (sample_cell (Some 5)) 1 (eo_reads (sample_output 4)) = Some True"
  by (simp add: validate_reads_def sample_state_defs and_then_def vs_read_def cell_latest_def)

lemma sample_rerun:
  "run_program sample_increment (proxy_reader dict_reader 1) (create_transactional (sample_cell None)) =
     Some (\<lparr>cs_state = sample_cell None, cs_cache = \<lparr>initial_reads = sm_default\<lparr>sm_storage := [((1, 1), 4)]\<rparr>,
       writes = sm_default\<lparr>sm_storage := [((1, 1), 5)]\<rparr>\<rparr>, cs_class_hash_to_class = [], cs_visited_pcs = []\<rparr>,
       Inr sample_worker_info)"
  by (simp add: sample_increment_def create_transactional_def cs_new_def sc_default_def cs_get_storage_at_def
    cs_set_storage_at_def sc_get_defs cache_defs on_inner_def proxy_reader_def vp_get_storage_at_def vs_read_def
    cell_latest_def sample_state_defs)

lemma sample_execute:
  "execute_tx sample_env (sample_worker\<lparr>we_state := sample_cell None\<rparr>) 1 =
     Some (sample_worker\<lparr>we_state := sample_cell (Some 5), we_outputs := [Some (sample_output 3), Some (sample_output 4)]\<rparr>)"
proof -
  have "vst_apply_writes (sample_cell None) 1 (sm_default\<lparr>sm_storage := [((1, 1), 5)]\<rparr>) [] = Some (sample_cell (Some 5))"
    by (simp add: vst_apply_writes_def sample_state_defs vs_write_def Let_def)
  then show ?thesis
    using sample_rerun
    by (simp add: execute_tx_def sample_env_def nth_or_panic_def finish_execute_tx_def sc_to_state_diff_def sm_diff_def
      subtract_mappings_def sample_worker_def sample_output_def sm_default_def rs_assert_def)
qed

lemma sample_finalize:
  "finalize_execution sample_env sample_worker 1 = Some (sample_worker\<lparr>we_state := sample_cell (Some 5),
     we_outputs := [Some (sample_output 3), Some (sample_output 4)], we_scheduler := finish_execution_during_commit (sch_new 2) 1\<rparr>)"
proof -
  have "get_output sample_worker 1 = Some (sample_output 3)" "we_state sample_worker = sample_cell (Some 4)"
    "we_scheduler sample_worker = sch_new 2"
    by (simp_all add: get_output_def nth_or_panic_def sample_worker_def)
  then show ?thesis
    using sample_invalid sample_delete sample_execute sample_valid
    unfolding finalize_execution_def by (simp add: get_output_def nth_or_panic_def rs_assert_def)
qed

lemma sample_free:
  "sequencer_address sample_free_context = 4" "fee_token_address sample_free_context = 2"
  "\<not> is_sequencer_the_sender sample_free_context" "\<not> enforce_fee (tc_tx_info sample_free_context)"
  by (simp_all add: sample_free_context_def sample_context_def Let_def sequencer_address_def sender_address_def
    fee_token_address_def fee_type_of_def is_sequencer_the_sender_def)

lemma sample_bouncer_update:
  "\<exists>b1. try_update sample_vm_ops e order R (bouncer_new (sample_config 4000)) s
     \<lparr>nonce_keys = {}, class_hash_keys = {}, storage_keys = {(1, 1), (2, 40)}, compiled_class_hash_keys = {},
       modified_contracts = {1}\<rparr> execution_summary_default sample_resources = Some ((s, b1), Inr ())"
  if "order {} = []"
proof -
  let ?ks = "\<lparr>nonce_keys = {}, class_hash_keys = {}, storage_keys = {(1, 1), (2, 40)}, compiled_class_hash_keys = {},
       modified_contracts = {1}\<rparr> :: state_changes_keys"
  have six: "get_onchain_data_segment_length (keys_count ?ks) = 6"
    by (simp add: get_onchain_data_segment_length_def keys_count_def)
  let ?w = "sample_weights\<lparr>bw_state_diff_size := 6\<rparr>"
  have add: "weights_checked_add weights_empty ?w = Some ?w"
    by (simp add: weights_checked_add_def weights_lift_def builtin_lift_def checked_add_def sample_weights_def weights_empty_def
      builtin_empty_def builtin_all_def)
  have room: "config_has_room (sample_config 4000) ?w"
    by (simp add: config_has_room_def has_room_iff sample_config_def weights_le_def builtin_le_def sample_weights_def
      weights_empty_def weights_default_def builtin_empty_def builtin_all_def)
  have diff: "keys_difference ?ks keys_default = ?ks" by (simp add: keys_difference_def keys_default_def)
  show ?thesis
    using that six add room diff
    by (simp add: try_update_def Let_def execution_summary_default_def bouncer_new_def bouncer_empty_def sample_tx_weights
      bouncer_update_def)
qed

lemma sample_commit: "\<exists>w1. commit_tx sample_env sample_worker 1 = Some (w1, True)"
proof -
  have keys: "update_sequencer_key_in_storage (get_fee_token_var_address sample_hashes) (into_keys (eo_writes (sample_output 4)))
      2 4 False 664 True = \<lparr>nonce_keys = {}, class_hash_keys = {}, storage_keys = {(1, 1), (2, 40)},
        compiled_class_hash_keys = {}, modified_contracts = {1}\<rparr>"
    by (auto simp: update_sequencer_key_in_storage_def into_keys_def get_contract_addresses_def sample_output_def sm_default_def
      sample_sequencer_key)
  have summary: "txi_summarize V vc sample_worker_info = Some execution_summary_default" for V and vc :: "u64 versioned_constants"
    by (simp add: txi_summarize_def summarize_many_def non_optional_call_infos_def sample_worker_info_def map_filter_def)
  have info: "rcpt_resources (txi_receipt sample_worker_info) = sample_resources"
    "unat (rcpt_fee (txi_receipt sample_worker_info)) = 664" "fee_transfer_call_info sample_worker_info = None"
    by (simp_all add: sample_worker_info_def sample_receipt_def)
  let ?w = "sample_worker\<lparr>we_state := sample_cell (Some 5), we_outputs := [Some (sample_output 3), Some (sample_output 4)],
    we_scheduler := finish_execution_during_commit (sch_new 2) 1\<rparr>"
  from sample_bouncer_update[of sorted_list_of_set "\<lambda>_. vm_default" "proxy_reader dict_reader 1" "sample_cell (Some 5)"]
  obtain b1 where up: "try_update sample_vm_ops (\<lambda>_. vm_default) sorted_list_of_set (proxy_reader dict_reader 1)
      (bouncer_new (sample_config 4000)) (sample_cell (Some 5)) \<lparr>nonce_keys = {}, class_hash_keys = {},
        storage_keys = {(1, 1), (2, 40)}, compiled_class_hash_keys = {}, modified_contracts = {1}\<rparr>
      execution_summary_default sample_resources = Some ((sample_cell (Some 5), b1), Inr ())" by auto
  have env: "nth_or_panic (env_contexts sample_env) 1 = Some sample_free_context" "env_vm sample_env = sample_vm_ops"
    "env_hashes sample_env = sample_hashes" "env_estimate_casm sample_env = (\<lambda>_. vm_default)"
    "env_order sample_env = sorted_list_of_set" "env_reader sample_env = dict_reader"
    by (simp_all add: sample_env_def nth_or_panic_def)
  have "\<exists>w1. settle_tx sample_env ?w 1 (sample_output 4) sample_worker_info = Some (w1, True)"
    using up sample_free
    by (simp add: settle_tx_def env summary info keys sample_worker_def finish_commit_def complete_fee_transfer_flow_def
      rs_assert_def Let_def del: One_nat_def)
  then show ?thesis
    unfolding commit_tx_def sample_finalize
    by (simp add: get_output_def nth_or_panic_def) (simp add: sample_output_def)
qed

lemma sample_classes:
  "vst_classes_ok id (dict_view (vst_initial_state vs)) vs"
  if "vst_initial_state vs = sample_dict 3" "vst_compiled_contract_classes vs = vs_default" "vst_declared_contracts vs = vs_default"
  using that by (auto simp: vst_classes_ok_def map_within_def dict_view_def sample_dict_def version_def vs_default_def
    split: if_splits)

lemma sample_cell_inv: "vst_inv dict_view (\<lambda>_. True) (sample_cell (Some 4))"
  by (simp add: vst_inv_def vst_storages_ok_def vst_cached_ok_def sample_cell_def vst_new_def map_within_def dict_view_def
    sample_dict_def unwrap_or_default_def) (simp add: vs_ok_def hm_all_def increasing_def)

lemma sample_output_ok: "output_ok id dict_view (sample_cell (Some 4)) 1 sample_increment (sample_output 3)"
proof -
  let ?vs = "vst_new (sample_dict 3) :: (nat dict_state_reader, nat) versioned_state"
  let ?R = "proxy_reader dict_reader 1 :: ((nat dict_state_reader, nat) versioned_state, nat) state_reader"
  let ?c0 = "create_transactional ?vs"
  let ?c1 = "\<lparr>cs_state = ?vs\<lparr>vst_storage := \<lparr>cached_initial_values = [(1, 1) \<mapsto> 3], vs_writes = []\<rparr>\<rparr>,
    cs_cache = \<lparr>initial_reads = sm_default\<lparr>sm_storage := [((1, 1), 3)]\<rparr>, writes = sm_default\<rparr>,
    cs_class_hash_to_class = [], cs_visited_pcs = []\<rparr>"
  let ?c2 = "?c1\<lparr>cs_cache := \<lparr>initial_reads = sm_default\<lparr>sm_storage := [((1, 1), 3)]\<rparr>,
    writes = sm_default\<lparr>sm_storage := [((1, 1), 4)]\<rparr>\<rparr>\<rparr>"
  have honest: "honest_at id ?R ?vs"
    by (rule dict.proxy_honest[OF vst_new_inv]) (simp, rule sample_classes, simp_all add: vst_new_def)
  have step: "prog_step ?R ?c0 sample_increment = Some (?c1, SetStorageAt 1 1 4 (Return (Inr sample_worker_info)))"
    by (simp add: sample_increment_def create_transactional_def cs_new_def sc_default_def cs_get_storage_at_def sc_get_defs
      cache_defs on_inner_def proxy_reader_def vp_get_storage_at_def vs_read_def set_initial_value_def vst_new_def vs_default_def
      dict_reader_def sample_dict_def unwrap_or_default_def sm_default_def)
  have "running id sample_increment ?c0 sample_increment"
    by (rule running_new) (simp add: sample_increment_def)
  from running_step[OF this _ step] honest
  have "running id sample_increment ?c1 (SetStorageAt 1 1 4 (Return (Inr sample_worker_info)))"
    by (simp add: create_transactional_def cs_new_def)
  from running_set_storage[OF this] have run: "running id sample_increment ?c2 (Return (eo_result (sample_output 3)))"
    by (simp add: cs_set_storage_at_def cache_defs sm_default_def sample_output_def)
  have "map_option ch_state_maps (sc_to_state_diff (cs_cache ?c2)) = Some (eo_writes (sample_output 3))"
    by (simp add: sc_to_state_diff_def sm_diff_def subtract_mappings_def sample_output_def sm_default_def)
  moreover have "version_is (sample_cell (Some 4)) 1 (eo_writes (sample_output 3)) []"
    by (auto simp: version_is_def version_def sample_state_defs fun_eq_iff)
  ultimately show ?thesis
    unfolding output_ok_def using run by (intro conjI exI[of _ ?c2]) (simp_all add: sample_output_def)
qed

theorem committed_transaction_is_sequential_witness:
  "\<exists>w1. commit_tx sample_env sample_worker 1 = Some (w1, True) \<and>
     v_storage (vst_view dict_view 1 (we_state w1)) (1, 1) = 5 \<and>
     v_storage (vst_view dict_view 0 (we_state w1)) (1, 1) = 4"
proof -
  obtain w1 where w1: "commit_tx sample_env sample_worker 1 = Some (w1, True)" using sample_commit by blast
  have laws: "state_reader_laws (env_reader sample_env) dict_view (\<lambda>_. True)"
    by (simp add: sample_env_def dict.state_reader_laws_axioms)
  have state: "we_state sample_worker = sample_cell (Some 4)" "get_output sample_worker 1 = Some (sample_output 3)"
    "1 < length (env_contexts sample_env)" "env_chunk sample_env ! 1 = sample_increment"
    by (simp_all add: sample_worker_def get_output_def nth_or_panic_def sample_env_def)
  have classes: "vst_classes_ok id (dict_view (vst_initial_state (sample_cell (Some 4)))) (sample_cell (Some 4))"
    by (rule sample_classes) (simp_all add: sample_cell_def vst_new_def)
  have below: "v_storage (vst_below dict_view 1 (sample_cell (Some 4))) (1, 1) = 4"
    by (simp add: vst_below_def vst_view_def sample_state_defs version_def Let_def)
  have seq: "v_storage (sequential_tx H c sample_increment v) (1, 1) = v_storage v (1, 1) + 1" for H v and c :: "u64 transaction_context"
    by (simp add: sequential_tx_def sample_increment_def charge_sequencer_def sample_worker_info_def)
  note th = committed_transaction_is_sequential[of sample_env dict_view "\<lambda>_. True" sample_worker id 1 "sample_output 3" w1,
    unfolded state, OF laws sample_cell_inv classes _ refl sample_output_ok w1]
  have "vst_view dict_view 1 (we_state w1) = sequential_tx (env_hashes sample_env) (env_contexts sample_env ! 1)
      sample_increment (vst_below dict_view 1 (sample_cell (Some 4)))"
    "vst_view dict_view 0 (we_state w1) = vst_below dict_view 1 (sample_cell (Some 4))"
    using th state(3) by (simp_all add: vst_below_def)
  then show ?thesis using w1 seq below by auto
qed

text \<open>C32: Committing ends: from every state the loop over the transactions that can be committed returns, or panics,
  within as many rounds as the chunk has transactions and two more.\<close>

theorem commit_while_possible_terminates: "\<exists>r. commit_loop (chunk_size (we_scheduler w) + 2) E w = Some r"
  using commit_loop_ends[of w "chunk_size (we_scheduler w) + 2" E] by (auto simp: rounds_left_def)

end
