(* ===== verification/Concurrent_Execution.thy ===== *)
theory Concurrent_Execution
  imports Worker_Logic
begin

text \<open>
  Several workers of \<^verbatim>\<open>crates/blockifier/src/concurrency/worker_logic.rs\<close> on one chunk. First an execution
  of a transaction through its version proxy, during which the other workers change the shared state between any two of its
  calls: what it records is an output in the sense of \<open>output_ok\<close>, so that committing it is sequential. Then
  what aborting the declaration of a class does to the validation of transactions that have used the class.
\<close>

section \<open>Interleaved executions\<close>

text \<open>What the workers keep of the shared state while transaction \<open>i\<close> is executing: the invariant, the initial
  state, classes under their own hash, and that only transaction \<open>i\<close> writes at its version.\<close>

definition shared_ok ::
    "(class_hash \<Rightarrow> 'c) \<Rightarrow> ('s \<Rightarrow> 'c state_view) \<Rightarrow> ('s \<Rightarrow> bool) \<Rightarrow> 'c state_view \<Rightarrow> nat \<Rightarrow> ('s, 'c) versioned_state \<Rightarrow> bool" where
  "shared_ok class_of view good v0 i vs \<longleftrightarrow> vst_inv view good vs \<and> view (vst_initial_state vs) = v0 \<and>
     vst_classes_ok class_of v0 vs \<and> version_empty vs i"

text \<open>The execution of transaction \<open>i\<close>, call by call; between two calls the other workers may leave any state with
  \<open>ok\<close>.\<close>

inductive worker_runs ::
    "('s, 'c) state_reader \<Rightarrow> (('s, 'c) versioned_state \<Rightarrow> bool) \<Rightarrow> nat \<Rightarrow> ('c, 'r) program
      \<Rightarrow> (('s, 'c) versioned_state, 'c) cached_state \<Rightarrow> ('c, 'r) program \<Rightarrow> bool"
  for R ok i P where
  start: "ok vs \<Longrightarrow> worker_runs R ok i P (create_transactional vs) P"
| others: "worker_runs R ok i P c Q \<Longrightarrow> ok vs \<Longrightarrow> worker_runs R ok i P (c\<lparr>cs_state := vs\<rparr>) Q"
| call: "worker_runs R ok i P c Q \<Longrightarrow> prog_step (proxy_reader R i) c Q = Some (c', Q') \<Longrightarrow> worker_runs R ok i P c' Q'"

lemma same_versions_shared:
  assumes "same_versions view vs vs'" "vst_inv view good vs'" "shared_ok class_of view good v0 i vs"
  shows "shared_ok class_of view good v0 i vs'"
  using assms by (simp add: shared_ok_def same_versions_def vst_classes_ok_def version_is_def)

text \<open>Nothing is below the first transaction: it reads the initial state.\<close>

lemma first_view: "shared_ok class_of view good v0 0 vs \<Longrightarrow> vst_view view 0 vs = v0"
  using at_version_is[of vs 0 sm_default "[]" v0] by (simp add: vst_view_split shared_ok_def vst_below_def)

lemma worker_runs_ok:
  assumes laws: "state_reader_laws R view good" and "wf_program class_of P {}"
    and "worker_runs R (shared_ok class_of view good v0 i) i P c Q"
  shows "shared_ok class_of view good v0 i (cs_state c) \<and> running class_of P c Q \<and>
    (i = 0 \<longrightarrow> cs_inv (vst_view view 0) (vst_inv view good) c)"
  using assms(3)
proof induction
  case (start vs)
  then have "cs_inv (vst_view view 0) (vst_inv view good) (create_transactional vs)"
    unfolding create_transactional_def by (intro cs_inv_new(1)) (simp add: shared_ok_def)
  with start running_new[OF assms(2)] show ?case by (simp add: create_transactional_def cs_new_def)
next
  case (others c Q vs)
  then show ?case using first_view[of class_of view good v0 vs] first_view[of class_of view good v0 "cs_state c"]
    by (auto simp: cs_inv_def shared_ok_def)
next
  case (call c Q c' Q')
  then have inv: "vst_inv view good (cs_state c)" "vst_classes_ok class_of (view (vst_initial_state (cs_state c))) (cs_state c)"
    by (auto simp: shared_ok_def)
  note step = state_reader_laws.proxy_step[OF laws inv(1) call.hyps(2)]
  have "running class_of P c' Q'"
    using call by (intro running_step[OF _ state_reader_laws.proxy_honest[OF laws inv] call.hyps(2)]) simp
  moreover have "cs_inv (vst_view view 0) (vst_inv view good) c'" if "i = 0"
  proof -
    from call.IH that have "cs_inv (vst_view view 0) (vst_inv view good) c" by blast
    from state_reader_laws.prog_step_inv[OF state_reader_laws.proxy_reader_laws[OF laws] this] call.hyps(2) that
    show ?thesis by blast
  qed
  ultimately show ?case using same_versions_shared step call.IH by blast
qed

lemma reads_of_agrees:
  assumes "reads_of v reads" "map_within (\<lambda>h cl. cl = class_of h) (v_class v)"
  shows "agrees class_of v reads"
proof -
  have "v_class v h = (if b then Some (class_of h) else None)" if "b = (v_class v h \<noteq> None)" for h b
    using that assms(2) by (cases "v_class v h") (simp_all add: map_within_def)
  with assms(1) show ?thesis unfolding reads_of_def agrees_def hm_all_def by blast
qed

lemma sc_to_state_diff_ok: "sc_to_state_diff sc = Some d \<Longrightarrow> sm_ok (writes sc) \<Longrightarrow> sm_ok (ch_state_maps d)"
  by (auto simp: sc_to_state_diff_def sm_diff_def sm_ok_def bind_eq_Some_conv intro: hm_ok_strict_subtract)

lemma interleaved_output_ok:
  assumes laws: "state_reader_laws R view good" and "wf_program class_of P {}"
    and "worker_runs R (shared_ok class_of view good v0 i) i P c (Return r)" "finish_execute_tx i c r = Some (vs, out)"
  shows "output_ok class_of view vs i P out \<and> vst_inv view good vs"
proof -
  note ok = worker_runs_ok[OF assms(1-3)]
  then have run: "running class_of P c (Return r)" and inv: "vst_inv view good (cs_state c)"
    "version_empty (cs_state c) i" "view (vst_initial_state (cs_state c)) = v0" "vst_classes_ok class_of v0 (cs_state c)"
    by (auto simp: shared_ok_def)
  have zero: "agrees class_of v0 (initial_reads (cs_cache c))" if "i = 0"
    using ok that first_view[of class_of view good v0 "cs_state c"] inv(4)
    by (intro reads_of_agrees) (auto simp: cs_inv_def vst_classes_ok_def)
  show ?thesis
  proof (cases r)
    case (Inl e)
    then have "vs = cs_state c" "out = \<lparr>eo_reads = initial_reads (cs_cache c), eo_writes = sm_default,
        eo_contract_classes = [], eo_visited_pcs = [], eo_result = r\<rparr>"
      using assms(4) by (auto simp: finish_execute_tx_def)
    with Inl run inv zero show ?thesis by (auto simp: output_ok_def)
  next
    case (Inr info)
    then obtain d where d: "sc_to_state_diff (cs_cache c) = Some d"
      and ap: "vst_apply_writes (cs_state c) i (ch_state_maps d) (cs_class_hash_to_class c) = Some vs"
      and out: "out = \<lparr>eo_reads = initial_reads (cs_cache c), eo_writes = ch_state_maps d,
        eo_contract_classes = cs_class_hash_to_class c, eo_visited_pcs = cs_visited_pcs c, eo_result = r\<rparr>"
      using assms(4) by (auto simp: finish_execute_tx_def bind_eq_Some_conv)
    have "sm_ok (ch_state_maps d)" "hm_ok (cs_class_hash_to_class c)"
      using run d by (auto simp: running_def classes_ok_def intro: sc_to_state_diff_ok)
    note apv = apply_writes_versions[OF inv(1) ap this]
    have "view (vst_initial_state vs) = v0" using apv(2) inv(3) by (simp add: only_version_def)
    with Inr run inv zero apv d show ?thesis by (auto simp: output_ok_def out)
  qed
qed

lemma finish_execute_tx_initial:
  assumes "finish_execute_tx i c r = Some (vs, out)"
  shows "vst_initial_state vs = vst_initial_state (cs_state c)"
  using assms by (auto simp: finish_execute_tx_def bind_eq_Some_conv vst_apply_writes_def dest!: write_declared_ok
    split: sum.splits)

text \<open>An output that is recorded, with its writes at its version.\<close>

definition recorded :: "('s, 'c, 'e) worker_executor \<Rightarrow> nat \<Rightarrow> ('c, 'e) execution_task_output \<Rightarrow> bool" where
  "recorded w i out \<longleftrightarrow> get_output w i = Some out \<and>
     version_is (we_state w) i (eo_writes out) (eo_contract_classes out)"

section \<open>Aborted declarations\<close>

text \<open>What was read, but for whether one class is declared.\<close>

definition without_declared :: "class_hash \<Rightarrow> state_maps \<Rightarrow> state_maps" where
  "without_declared h reads = reads\<lparr>sm_declared_contracts := AList.delete h (sm_declared_contracts reads)\<rparr>"

lemma validation_aborts:
  assumes "worker_validate w i = Some (w1, ExecutionTask i)" "get_output w i = Some out"
  shows "0 < i" "vst_delete_writes (we_state w) i (eo_writes out) (eo_contract_classes out) = Some (we_state w1)"
    "get_output w1 j = get_output w j"
  using assms by (auto simp: worker_validate_def validate_reads_def get_output_def bind_eq_Some_conv
    split: if_splits)

lemma vs_read_below:
  assumes "vs_ok s" "vs_ok s'" "cached_initial_values s' = cached_initial_values s"
    and "\<And>v. v \<le> k \<Longrightarrow> version s' v key = version s v key"
  shows "vs_read s' k key = vs_read s k key"
proof -
  have "latest (\<lambda>v. version s' v key) m = latest (\<lambda>v. version s v key) m" if "m \<le> k" for m
    using that assms(4) by (induction m) (auto split: option.split)
  then show ?thesis using assms(1-3) by (simp add: vs_read_eq split: option.split)
qed

lemma vs_read_unwritten:
  assumes "vs_ok s" "k \<le> m" "\<And>v. k < v \<Longrightarrow> v \<le> m \<Longrightarrow> version s v key = None"
  shows "vs_read s m key = vs_read s k key"
  using assms(2,3)
proof (induction m rule: dec_induct)
  case (step m)
  then show ?case by (simp add: vs_read_Suc[OF assms(1)])
qed simp

lemma vs_read_written: "vs_ok s \<Longrightarrow> u \<le> m \<Longrightarrow> version s u key \<noteq> None \<Longrightarrow> vs_read s m key \<noteq> None"
  by (auto simp: vs_read_eq latest_None_iff split: option.splits)

lemma check_declared_panics:
  assumes "vs_read (vst_declared_contracts vs) k h = Some False" "vs_read (vst_compiled_contract_classes vs) k h \<noteq> None"
  shows "h \<in> fst ` set l \<Longrightarrow> check_declared vs k (AList.delete h l) = Some True \<Longrightarrow> check_declared vs k l = None"
proof (induction l)
  case (Cons e l)
  obtain h1 b where e: "e = (h1, b)" by force
  show ?case
  proof (cases "h1 = h")
    case True
    with assms show ?thesis by (simp add: e rs_assert_def)
  next
    case False
    with Cons show ?thesis by (auto simp: e rs_assert_def split: option.splits if_splits)
  qed
qed simp

lemma validate_reads_panics:
  assumes "vs_read (vst_declared_contracts vs) (j - 1) h = Some False"
    "vs_read (vst_compiled_contract_classes vs) (j - 1) h \<noteq> None"
    and "map_of (sm_declared_contracts reads) h \<noteq> None" "validate_reads vs j (without_declared h reads) = Some True" "0 < j"
  shows "validate_reads vs j reads = None"
proof -
  obtain k where k: "j = Suc k" using assms(5) by (cases j) auto
  have "h \<in> fst ` set (sm_declared_contracts reads)" using assms(3) by (auto simp: map_of_eq_None_iff)
  with check_declared_panics[of vs k h] assms(1,2,4) show ?thesis
    unfolding k validate_reads_Suc without_declared_def by (simp add: validate_reads_def and_then_def)
qed

lemma deleted_declaration:
  assumes "vst_storages_ok vs" "vst_delete_writes vs i ws classes = Some vs'" "version_is vs i ws classes" "0 < i" "i < j"
    and "vs_read (vst_declared_contracts vs) (i - 1) h = Some False"
    and "\<And>v. i < v \<Longrightarrow> v < j \<Longrightarrow> version (vst_declared_contracts vs) v h = None"
    and "i < u" "u < j" "version (vst_compiled_contract_classes vs) u h \<noteq> None"
  shows "vs_read (vst_declared_contracts vs') (j - 1) h = Some False"
    "vs_read (vst_compiled_contract_classes vs') (j - 1) h \<noteq> None"
proof -
  let ?d = "vst_declared_contracts vs" and ?d' = "vst_declared_contracts vs'"
  from assms(2) have del: "delete_all i ?d (map fst (sm_declared_contracts ws)) = Some ?d'"
    "delete_all i (vst_compiled_contract_classes vs) (map fst classes) = Some (vst_compiled_contract_classes vs')"
    by (auto simp: vst_delete_writes_def bind_eq_Some_conv)
  have ok: "vs_ok ?d" "vs_ok (vst_compiled_contract_classes vs)" using assms(1) by (simp_all add: vst_storages_ok_def)
  note d = delete_all_ok[OF ok(1) del(1)] and c = delete_all_ok[OF ok(2) del(2)]
  have none: "version ?d' v h = None" if "i \<le> v" "v < j" for v
  proof (cases "v = i")
    case True
    have "version ?d i h = map_of (sm_declared_contracts ws) h" using assms(3) by (simp add: version_is_def)
    with True d show ?thesis by (auto simp: restrict_map_def map_of_eq_None_iff)
  next
    case False
    with that assms(7)[of v] d show ?thesis by simp
  qed
  have "vs_read ?d' (j - 1) h = vs_read ?d' (i - 1) h"
    using d none assms(4,5) by (intro vs_read_unwritten) auto
  also have "\<dots> = vs_read ?d (i - 1) h"
    using d ok(1) assms(4) by (intro vs_read_below) auto
  finally show "vs_read ?d' (j - 1) h = Some False" using assms(6) by simp
  show "vs_read (vst_compiled_contract_classes vs') (j - 1) h \<noteq> None"
    using c assms(8-10) by (intro vs_read_written[of _ u]) auto
qed

section \<open>Properties\<close>

text \<open>C34: The concurrent execution of a transaction is invisible once it is committed. Transaction \<open>i\<close> is executed through
  its version proxy, while the other workers change the shared state between any two of its calls as they like, as long as
  they keep the invariant and leave version \<open>i\<close> alone; its output is recorded. When it is committed, in whatever state the
  others have left the other versions, and the commit succeeds, then the state at its version is the one that running the
  transaction alone on the state below gives, with the sequencer's fee, or the state below if it fails; the result is the one
  of that run, but for the recorded fee transfer; and earlier versions do not change.\<close>

theorem interleaved_transaction_commits_sequentially:
  assumes laws: "state_reader_laws (env_reader E) view good" and "wf_program class_of (env_chunk E ! i) {}"
    and "worker_runs (env_reader E) (shared_ok class_of view good v0 i) i (env_chunk E ! i) c (Return r)"
    and "finish_execute_tx i c r = Some (vs, out)"
    and "vst_inv view good (we_state w)" "view (vst_initial_state (we_state w)) = v0" "vst_classes_ok class_of v0 (we_state w)"
    and "recorded w i out" "i < length (env_contexts E)" "commit_tx E w i = Some (w1, True)"
  shows "vst_view view i (we_state w1) =
      sequential_tx (env_hashes E) (env_contexts E ! i) (env_chunk E ! i) (vst_below view i (we_state w)) \<and>
    (\<forall>j < i. vst_view view j (we_state w1) = vst_view view j (we_state w)) \<and>
    (\<exists>out1. get_output w1 i = Some out1 \<and>
      without_transfer (eo_result out1) = without_transfer (snd (run_view (env_chunk E ! i) (vst_below view i (we_state w)))))"
proof -
  from interleaved_output_ok[OF assms(1-4)] have "output_ok class_of view vs i (env_chunk E ! i) out" ..
  moreover have "view (vst_initial_state vs) = v0"
    using finish_execute_tx_initial[OF assms(4)] worker_runs_ok[OF assms(1-3)] by (simp add: shared_ok_def)
  ultimately have "output_ok class_of view (we_state w) i (env_chunk E ! i) out"
    using assms(6,8) by (auto simp: output_ok_def recorded_def)
  with committed_view[OF laws assms(5) _ assms(9) _ _ assms(10)] assms(6-8) show ?thesis
    by (simp add: recorded_def)
qed

text \<open>Transaction 1 of the sample reads the cell before transaction 0 has written it, and finishes after. Its commit executes it
  again.\<close>

lemma sample_shared:
  "shared_ok id dict_view (\<lambda>_. True) (dict_view (sample_dict 3)) 1 (vst_new (sample_dict 3))"
  "shared_ok id dict_view (\<lambda>_. True) (dict_view (sample_dict 3)) 1 (sample_cell None)"
proof -
  have "vst_classes_ok id (dict_view (sample_dict 3)) (vst_new (sample_dict 3))"
    using sample_classes[of "vst_new (sample_dict 3)"] by (simp add: vst_new_def)
  then show "shared_ok id dict_view (\<lambda>_. True) (dict_view (sample_dict 3)) 1 (vst_new (sample_dict 3))"
    by (simp add: shared_ok_def vst_new_inv) (auto simp: version_is_def vst_new_def sm_default_def)
  have "vst_inv dict_view (\<lambda>_. True) (sample_cell None)"
    by (simp add: vst_inv_def vst_storages_ok_def vst_cached_ok_def sample_cell_def vst_new_def map_within_def dict_view_def
      sample_dict_def unwrap_or_default_def) (simp add: vs_ok_def hm_all_def increasing_def)
  moreover have "vst_classes_ok id (dict_view (sample_dict 3)) (sample_cell None)"
    using sample_classes[of "sample_cell None"] by (simp add: sample_cell_def vst_new_def)
  ultimately show "shared_ok id dict_view (\<lambda>_. True) (dict_view (sample_dict 3)) 1 (sample_cell None)"
    by (simp add: shared_ok_def) (auto simp: version_is_def version_def sample_state_defs fun_eq_iff)
qed

lemma sample_runs:
  "\<exists>c. worker_runs dict_reader (shared_ok id dict_view (\<lambda>_. True) (dict_view (sample_dict 3)) 1) 1 sample_increment c
      (Return (Inr sample_worker_info)) \<and>
    finish_execute_tx 1 c (Inr sample_worker_info) = Some (sample_cell (Some 4), sample_output 3)"
proof -
  let ?vs = "vst_new (sample_dict 3) :: (nat dict_state_reader, nat) versioned_state"
  let ?runs = "worker_runs dict_reader (shared_ok id dict_view (\<lambda>_. True) (dict_view (sample_dict 3)) 1) 1 sample_increment"
  let ?R = "proxy_reader dict_reader 1 :: ((nat dict_state_reader, nat) versioned_state, nat) state_reader"
  let ?c1 = "\<lparr>cs_state = ?vs\<lparr>vst_storage := \<lparr>cached_initial_values = [(1, 1) \<mapsto> 3], vs_writes = []\<rparr>\<rparr>,
    cs_cache = \<lparr>initial_reads = sm_default\<lparr>sm_storage := [((1, 1), 3)]\<rparr>, writes = sm_default\<rparr>,
    cs_class_hash_to_class = [], cs_visited_pcs = []\<rparr>"
  let ?c2 = "?c1\<lparr>cs_state := sample_cell None\<rparr>"
  let ?c3 = "cs_set_storage_at ?c2 1 1 4"
  have "prog_step ?R (create_transactional ?vs) sample_increment = Some (?c1, SetStorageAt 1 1 4 (Return (Inr sample_worker_info)))"
    by (simp add: sample_increment_def create_transactional_def cs_new_def sc_default_def cs_get_storage_at_def sc_get_defs
      cache_defs on_inner_def proxy_reader_def vp_get_storage_at_def vs_read_def set_initial_value_def vst_new_def vs_default_def
      dict_reader_def sample_dict_def unwrap_or_default_def sm_default_def)
  then have "?runs ?c1 (SetStorageAt 1 1 4 (Return (Inr sample_worker_info)))"
    by (rule worker_runs.call[rotated]) (rule worker_runs.start, rule sample_shared(1))
  then have "?runs ?c2 (SetStorageAt 1 1 4 (Return (Inr sample_worker_info)))"
    by (rule worker_runs.others) (rule sample_shared(2))
  then have "?runs ?c3 (Return (Inr sample_worker_info))" by (rule worker_runs.call) simp
  moreover have "finish_execute_tx 1 ?c3 (Inr sample_worker_info) = Some (sample_cell (Some 4), sample_output 3)"
    by (simp add: finish_execute_tx_def cs_set_storage_at_def cache_defs sc_to_state_diff_def sm_diff_def subtract_mappings_def
      vst_apply_writes_def vs_write_def Let_def sample_state_defs)
  ultimately show ?thesis by blast
qed

theorem interleaved_transaction_commits_sequentially_witness:
  "\<exists>w1. commit_tx sample_env sample_worker 1 = Some (w1, True) \<and>
     v_storage (vst_view dict_view 1 (we_state w1)) (1, 1) = v_storage (vst_view dict_view 0 (we_state w1)) (1, 1) + 1 \<and>
     vst_view dict_view 0 (we_state w1) = vst_view dict_view 0 (we_state sample_worker)"
proof -
  obtain w1 where w1: "commit_tx sample_env sample_worker 1 = Some (w1, True)" using sample_commit by blast
  obtain c where c: "worker_runs dict_reader (shared_ok id dict_view (\<lambda>_. True) (dict_view (sample_dict 3)) 1) 1 sample_increment c
      (Return (Inr sample_worker_info))"
    "finish_execute_tx 1 c (Inr sample_worker_info) = Some (sample_cell (Some 4), sample_output 3)"
    using sample_runs by blast
  have env: "env_reader sample_env = dict_reader" "env_chunk sample_env ! 1 = sample_increment" "1 < length (env_contexts sample_env)"
    by (simp_all add: sample_env_def)
  have state: "we_state sample_worker = sample_cell (Some 4)" "vst_initial_state (sample_cell x) = sample_dict 3" for x
    by (simp_all add: sample_worker_def sample_cell_def vst_new_def)
  have rec: "recorded sample_worker 1 (sample_output 3)"
    using sample_output_ok by (simp add: recorded_def output_ok_def state get_output_def nth_or_panic_def)
      (simp add: sample_worker_def)
  have classes: "vst_classes_ok id (dict_view (sample_dict 3)) (sample_cell (Some 4))"
    using sample_classes[of "sample_cell (Some 4)"] by (simp add: sample_cell_def vst_new_def)
  have wf: "wf_program id sample_increment {}" by (simp add: sample_increment_def)
  have seq: "v_storage (sequential_tx H c sample_increment v) (1, 1) = v_storage v (1, 1) + 1" for H v and c :: "u64 transaction_context"
    by (simp add: sequential_tx_def sample_increment_def charge_sequencer_def sample_worker_info_def)
  note th = interleaved_transaction_commits_sequentially[of sample_env dict_view "\<lambda>_. True" id 1, unfolded env,
    OF dict.state_reader_laws_axioms wf c _ _ _ rec env(3)[unfolded env] w1, unfolded state, OF sample_cell_inv refl classes]
  then show ?thesis using w1 seq by (auto simp: vst_below_def state)
qed

text \<open>C33: Aborting a declaration can make a later validation panic. Transaction \<open>i\<close> has declared the class \<open>h\<close>, which was not
  declared before; transaction \<open>u\<close>, between \<open>i\<close> and \<open>j\<close>, has only used the class, which its execution has nevertheless
  written at its own version; none between \<open>i\<close> and \<open>j\<close> has declared it again, and \<open>j\<close> has read whether \<open>h\<close> is declared.
  If now the validation of \<open>i\<close> aborts it and the other reads of \<open>j\<close> are still valid, then the deletion of the declaration
  leaves for \<open>j\<close> a class that is there and not declared, and the assertion in the validation of \<open>j\<close> fails.\<close>

theorem validation_panics_after_aborted_declaration:
  assumes "vst_storages_ok (we_state w)" "\<And>v. i \<le> v \<Longrightarrow> v < j \<Longrightarrow> recorded w v (outs v)"
    and "vs_read (vst_declared_contracts (we_state w)) (i - 1) h = Some False"
    and "map_of (sm_declared_contracts (eo_writes (outs i))) h = Some True"
    and "\<And>v. i < v \<Longrightarrow> v < j \<Longrightarrow> map_of (sm_declared_contracts (eo_writes (outs v))) h = None"
    and "i < u" "u < j" "map_of (eo_contract_classes (outs u)) h \<noteq> None"
    and "get_output w j = Some out" "map_of (sm_declared_contracts (eo_reads out)) h \<noteq> None"
    and "worker_validate w i = Some (w1, ExecutionTask i)"
    and "validate_reads (we_state w1) j (without_declared h (eo_reads out)) = Some True"
  shows "vs_read (vst_declared_contracts (we_state w)) (j - 1) h = Some True \<and>
    vs_read (vst_declared_contracts (we_state w1)) (j - 1) h = Some False \<and>
    vs_read (vst_compiled_contract_classes (we_state w1)) (j - 1) h \<noteq> None \<and>
    worker_validate w1 j = None"
proof -
  have rec: "get_output w v = Some (outs v)" "version_is (we_state w) v (eo_writes (outs v)) (eo_contract_classes (outs v))"
    if "i \<le> v" "v < j" for v using assms(2)[OF that] by (simp_all add: recorded_def)
  have ij: "i \<le> i" "i < j" using assms(6,7) by simp_all
  note ab = validation_aborts[OF assms(11) rec(1)[OF ij]]
  have unwritten: "version (vst_declared_contracts (we_state w)) v h = None" if "i < v" "v < j" for v
    using rec(2)[of v] assms(5)[OF that] that by (simp add: version_is_def)
  have used: "version (vst_compiled_contract_classes (we_state w)) u h \<noteq> None"
    using rec(2)[of u] assms(6-8) by (simp add: version_is_def)
  note del = deleted_declaration[OF assms(1) ab(2) rec(2)[OF ij] ab(1) ij(2) assms(3) unwritten assms(6,7) used]
  have ok: "vs_ok (vst_declared_contracts (we_state w))" using assms(1) by (simp add: vst_storages_ok_def)
  obtain k where k: "i = Suc k" using ab(1) by (cases i) auto
  have "version (vst_declared_contracts (we_state w)) i h = Some True"
    using rec(2)[OF ij] assms(4) by (simp add: version_is_def)
  then have "vs_read (vst_declared_contracts (we_state w)) i h = Some True"
    unfolding k by (simp add: vs_read_Suc[OF ok])
  moreover have "vs_read (vst_declared_contracts (we_state w)) (j - 1) h = vs_read (vst_declared_contracts (we_state w)) i h"
    using ij(2) unwritten by (intro vs_read_unwritten[OF ok]) auto
  moreover have "validate_reads (we_state w1) j (eo_reads out) = None"
    using ij(2) by (intro validate_reads_panics[OF del assms(10,12)]) auto
  ultimately show ?thesis using del assms(9) ab(3)[of j] by (simp add: worker_validate_def)
qed

text \<open>A schedule of four transactions on different workers. Transaction 1 declares a class and transactions 2 and 3 use it;
  each has been executed, and a worker has taken each of their validations. Then transaction 0, still executing, writes the cell that
  transaction 1 has read. So transaction 1 is aborted before anything can be committed.\<close>

definition take_task :: "('s, 'c, 'e) worker_executor \<Rightarrow> task \<Rightarrow> ('s, 'c, 'e) worker_executor option" where
  "take_task w task = do {
     (scheduler, next) \<leftarrow> next_task (we_scheduler w);
     rs_assert (next = task);
     Some (w\<lparr>we_scheduler := scheduler\<rparr>) }"

definition sample_declare :: "(nat, unit + transaction_execution_info) program" where
  "sample_declare = GetStorageAt 1 1 (\<lambda>_. GetCompiledClass 7 (\<lambda>cl. case cl of
     None \<Rightarrow> SetContractClass 7 70 (Return (Inr sample_worker_info)) | Some _ \<Rightarrow> Return (Inl ())))"

definition sample_user :: "(nat, unit + transaction_execution_info) program" where
  "sample_user = GetCompiledClass 7 (\<lambda>_. Return (Inr sample_worker_info))"

definition sample_declare_env :: "(nat dict_state_reader, nat, unit, u64) worker_env" where
  "sample_declare_env = sample_env\<lparr>env_chunk := [sample_increment, sample_declare, sample_user, sample_user],
     env_contexts := replicate 4 sample_free_context\<rparr>"

definition sample_schedule :: "(nat dict_state_reader, nat, unit) worker_executor option" where
  "sample_schedule = do {
     let E = sample_declare_env;
     w1 \<leftarrow> take_task (worker_initialize (sample_dict 3) E (bouncer_new (sample_config 4000))) (ExecutionTask 0);
     w2 \<leftarrow> take_task w1 (ExecutionTask 1);
     w3 \<leftarrow> take_task w2 (ExecutionTask 2);
     w4 \<leftarrow> take_task w3 (ExecutionTask 3);
     w5 \<leftarrow> worker_execute E w4 1;
     w6 \<leftarrow> worker_execute E w5 2;
     w7 \<leftarrow> worker_execute E w6 3;
     w8 \<leftarrow> take_task w7 (ValidationTask 1);
     w9 \<leftarrow> take_task w8 (ValidationTask 2);
     w10 \<leftarrow> take_task w9 (ValidationTask 3);
     execute_tx E w10 0 }"

lemmas scheduler_defs = take_task_def next_task_def sch_done_def next_version_to_validate_def next_version_to_execute_def
  try_incarnate_def lock_tx_status_def set_status_def sch_new_def finish_execution_def set_executed_status_def
  decrease_validation_index_def try_validation_abort_def finish_abort_def set_ready_status_def

lemmas worker_defs = worker_initialize_def worker_execute_def execute_tx_def finish_execute_tx_def nth_or_panic_def
  get_output_def worker_validate_def sample_declare_env_def sample_env_def

lemmas access_defs = create_transactional_def cs_new_def sc_default_def sm_default_def cs_get_storage_at_def
  cs_set_storage_at_def cs_get_compiled_class_def cs_set_contract_class_def sc_get_defs cache_defs on_inner_def
  proxy_reader_def vp_get_storage_at_def vp_get_compiled_class_def vs_read_def cell_latest_def set_initial_value_def
  vst_new_def vs_default_def dict_reader_def sample_dict_def unwrap_or_default_def sc_to_state_diff_def sm_diff_def
  subtract_mappings_def vst_apply_writes_def vs_write_def Let_def

lemmas version_defs = recorded_def version_is_def version_def fun_eq_iff vst_storages_ok_def vs_ok_def hm_all_def increasing_def

lemma sample_schedule_ok:
  "\<exists>w out1 out2 out3 w1. sample_schedule = Some w \<and> vst_storages_ok (we_state w) \<and>
     recorded w 1 out1 \<and> recorded w 2 out2 \<and> get_output w 3 = Some out3 \<and>
     vs_read (vst_declared_contracts (we_state w)) 0 7 = Some False \<and>
     map_of (sm_declared_contracts (eo_writes out1)) 7 = Some True \<and>
     map_of (sm_declared_contracts (eo_writes out2)) 7 = None \<and> map_of (eo_contract_classes out2) 7 = Some 70 \<and>
     map_of (sm_declared_contracts (eo_reads out3)) 7 = Some True \<and>
     worker_validate w 1 = Some (w1, ExecutionTask 1) \<and>
     validate_reads (we_state w1) 3 (without_declared 7 (eo_reads out3)) = Some True"
  unfolding sample_schedule_def
  by (simp add: scheduler_defs worker_defs access_defs sample_increment_def sample_declare_def sample_user_def rs_assert_def
    numeral_eq_Suc version_defs without_declared_def validate_reads_def and_then_def vst_delete_writes_def vs_delete_write_def
    btm_remove_def)

theorem validation_panics_after_aborted_declaration_witness:
  "\<exists>w w1. sample_schedule = Some w \<and> worker_validate w 1 = Some (w1, ExecutionTask 1) \<and>
     vs_read (vst_declared_contracts (we_state w)) 2 7 = Some True \<and>
     vs_read (vst_declared_contracts (we_state w1)) 2 7 = Some False \<and> worker_validate w1 3 = None"
proof -
  from sample_schedule_ok obtain w out1 out2 out3 w1 where
    w: "sample_schedule = Some w" "vst_storages_ok (we_state w)"
    and out: "recorded w 1 out1" "recorded w 2 out2" "get_output w 3 = Some out3"
    and decl: "vs_read (vst_declared_contracts (we_state w)) 0 7 = Some False"
      "map_of (sm_declared_contracts (eo_writes out1)) 7 = Some True"
      "map_of (sm_declared_contracts (eo_writes out2)) 7 = None" "map_of (eo_contract_classes out2) 7 = Some 70"
      "map_of (sm_declared_contracts (eo_reads out3)) 7 = Some True"
    and w1: "worker_validate w 1 = Some (w1, ExecutionTask 1)"
      "validate_reads (we_state w1) 3 (without_declared 7 (eo_reads out3)) = Some True" by blast
  let ?outs = "\<lambda>v :: nat. if v = 1 then out1 else out2"
  have rec: "recorded w v (?outs v)" if "1 \<le> v" "v < 3" for v
    using that out(1,2) by (cases "v = 1") (auto simp: numeral_eq_Suc less_Suc_eq)
  have none: "map_of (sm_declared_contracts (eo_writes (?outs v))) 7 = None" if "1 < v" "v < 3" for v
    using that decl(3) by simp
  from validation_panics_after_aborted_declaration[OF w(2) rec _ _ none _ _ _ out(3) _ w1, where u = 2] decl w(1) w1(1)
  show ?thesis by auto
qed

end
