(* ===== verification/Spec2Isabelle.thy ===== *)
theory Spec2Isabelle
  imports Consensus_Robustness Patricia_Commitment Mempool_Properties Stream_Handler Fee_Market L1_Provider Cached_State_Laws Versioned_State_Laws Concurrent_Execution
begin

text \<open>
  A verification development for the Starknet sequencer (\<^verbatim>\<open>src/crates\<close>).

  \<^bold>\<open>The program.\<close> Validators agree on blocks with a Tendermint protocol whose messages arrive as streams. The proposer
  takes transactions from the mempool and from L1, executes them concurrently against the state and charges fees; the
  price of gas follows the use of the blocks. The theories follow these parts; within a theory the definitions are in the
  order of the source and have its names, up to a prefix where names clash.

  \<^bold>\<open>Conventions.\<close> A struct is a record and an enum a datatype. Machine integers are words: \<open>u64\<close>, \<open>u128\<close>, \<open>usize\<close>
  (64 bits) and so on; plain operators wrap as in a build without overflow checks, and the checked and saturating ones are
  in \<open>Sequencer_Prelude\<close>. Field elements, addresses and nonces are natural numbers, reduced by \<open>felt_prime\<close> where
  the code calculates with them. A failed assertion, \<^verbatim>\<open>expect\<close>, \<^verbatim>\<open>unwrap\<close> or index out of range is
  \<open>None\<close>; a \<^verbatim>\<open>Result\<close> is a sum with the error on the left; a function that changes a state and may fail returns
  an \<open>rs_result\<close>, and \<open>rs_try\<close> is the operator \<^verbatim>\<open>?\<close>. A hash map that is only accessed by key is a map, one that is
  iterated is an association list with distinct keys in some order (\<open>Hash_Map\<close>); ordered collections are strictly
  increasing lists (\<open>Ordered_Collections\<close>). A trait is a record of its methods. Code of other crates is a parameter:
  hash functions, ratios (\<open>ratio_ops\<close>), the arithmetic of resources (\<open>vm_ops\<close>), the cost of hashing a class, whether a
  channel accepts a message.

  \<^bold>\<open>Consensus\<close> (\<^verbatim>\<open>sequencing/papyrus_consensus\<close>). \<open>Consensus_State_Machine\<close> and \<open>Consensus_Event_Loop\<close> model
  every method of \<^verbatim>\<open>state_machine.rs\<close>; the mutual recursion of the rules and the event loop are functions with
  termination proofs, so no fuel is involved. \<open>Consensus_Safety\<close> has the lemmas, \<open>Consensus_Properties\<close> the properties:
  one event is a sequence of rules of the Tendermint algorithm, at most one prevote and one precommit per round, locking and
  justification of votes and decisions, silent observers, intersecting quorums. \<open>Single_Height_Consensus\<close> and
  \<open>Consensus_Manager\<close> model \<^verbatim>\<open>single_height_consensus.rs\<close> and \<^verbatim>\<open>manager.rs\<close>, the layers between the state
  machine and the node; the network is a list of what arrives, in any order. \<open>Consensus_Decisions\<close> shows that every
  decision that reaches the node carries a quorum of precommits of one round and that a conflicting vote at any point of
  a height ends consensus, \<open>Consensus_Consistency\<close> that a height and
  its state machine agree about votes and proposals, and \<open>Consensus_Robustness\<close> that no assertion and no internal
  error of a height is reached unless a peer sends messages in the node's own name. \<open>Stream_Handler\<close> models
  \<^verbatim>\<open>stream_handler.rs\<close>: streams received in any order are delivered in order and once, and what a repeated
  message does to a stream is determined.

  \<^bold>\<open>Mempool\<close> (\<^verbatim>\<open>starknet_mempool\<close>). \<open>Mempool_Types\<close>, \<open>Transaction_Pool\<close>, \<open>Transaction_Queue\<close> and \<open>Mempool\<close>
  model the files of the same names. \<open>Transaction_Queue\<close> has the locale \<open>hash_ordered_queue\<close>, the contract of an ordered
  set of references, interpreted for the priority and the pending queue. \<open>Mempool_Invariant\<close> shows that the requests keep
  the invariant of pool, queue and nonces and do not panic; \<open>Mempool_Properties\<close> has the properties of requests and
  sessions.

  \<^bold>\<open>L1 and prices.\<close> \<open>L1_Provider\<close> models \<^verbatim>\<open>starknet_l1_provider\<close>, \<open>Fee_Market\<close> the base gas price of
  \<^verbatim>\<open>papyrus_consensus_orchestrator/src/fee_market\<close>, which is shown equal to the EIP-1559 formula on integers.

  \<^bold>\<open>State\<close> (\<^verbatim>\<open>blockifier/src/state\<close>). \<open>Cached_State\<close> models \<^verbatim>\<open>cached_state.rs\<close>. A transaction is a
  \<open>program\<close> of state calls (\<open>State_Programs\<close>), with a semantics on states without caches, \<open>run_view\<close>. The locale
  \<open>state_reader_laws\<close> (\<open>Cached_State_Laws\<close>) is the contract of a state reader; it is interpreted for the
  dictionary reader, for cached states on top of it and for proxies of versions, and its client lemmas show that
  cached and transactional states implement \<open>run_view\<close>. An execution that is interleaved with other transactions can
  be replayed on every state that agrees with its recorded reads.

  \<^bold>\<open>Concurrent execution\<close> (\<^verbatim>\<open>blockifier/src/concurrency\<close>). \<open>Versioned_Storage\<close> and \<open>Versioned_State\<close> model the
  multi-version state; \<open>Versioned_State_Laws\<close> shows that validated reads agree with the versions below and that
  deleting writes undoes them. \<open>Scheduler\<close> models \<^verbatim>\<open>scheduler.rs\<close>; workers are a multiset of activities in a step
  relation that interleaves them, with the lock of the commit phase and the halting of a full block, and its invariant
  gives that the assertions hold and that workers do not starve.
  \<open>Fee_Transfer\<close> models \<^verbatim>\<open>fee_utils.rs\<close> and \<open>Worker_Logic\<close> the functions of \<^verbatim>\<open>worker_logic.rs\<close>, which combine
  the scheduler, the versioned state and the bouncer: a committed transaction leaves the state of a sequential execution,
  whether its output was validated or it was executed again, and the commit loop ends. The rounds of that loop are
  counted down from the size of the chunk plus two: each round commits one transaction or halts the scheduler, so the
  bound is never reached, which is \<open>commit_while_possible_terminates\<close>. \<open>Concurrent_Execution\<close> has the executions of a
  transaction that other workers interrupt between any two calls: what they record satisfies the hypothesis
  \<open>output_ok\<close> of the theorem on commits, so that they commit like sequential ones; and it shows how the abort of a
  declaration makes a later validation panic.

  \<^bold>\<open>Fees and capacity\<close> (\<^verbatim>\<open>starknet_api\<close>, \<^verbatim>\<open>blockifier/src/fee\<close>, \<^verbatim>\<open>bouncer.rs\<close>). \<open>Gas_Vector\<close> has the
  arithmetic of gas, prices, fees and bounds; \<open>Call_Info\<close> the call tree and its summary; \<open>Resource_Costs\<close> the gas of used
  resources; \<open>Transaction_Context\<close> the context of a transaction; \<open>Fee_Checks\<close> the checks before and after an
  execution, with the property that the charged fee stays within what the sender committed to; \<open>Bouncer\<close> the capacity
  of a block, which is never exceeded and in which a key that several transactions change is counted once.

  \<^bold>\<open>Commitment to the state\<close> (\<^verbatim>\<open>starknet_patricia\<close>). \<open>Patricia_Types\<close> and \<open>Patricia_Nodes\<close> model indices, paths,
  nodes, their bytes and the storage; \<open>Patricia_Original_Skeleton\<close>, \<open>Patricia_Updated_Skeleton\<close> and
  \<open>Patricia_Filled_Tree\<close> the three phases of an update: reading the part of the stored tree that changes, finding the
  structure of the new tree, and calculating its hashes. A \<^verbatim>\<open>U256\<close> is an integer with the wrap-around written out,
  and field elements are integers here; the hash of two field elements is a parameter. The recursive functions take
  a bound on the depth of the recursion, 252 for the tree of height 251, one more than a path can have nodes to go
  through. The tasks of the two children of a node run one after the other. \<open>Patricia_Indices\<close> has the arithmetic of
  indices, with the property of the lowest common ancestor; \<open>Patricia_Spec\<close> says what a well-formed tree is and shows
  that it is determined by its contents; \<open>Patricia_Skeleton_Laws\<close>, \<open>Patricia_Update_Laws\<close> and
  \<open>Patricia_Structure_Laws\<close> show that the second phase gives the well-formed tree with the modified contents;
  \<open>Patricia_Fill_Laws\<close> that the third phase calculates its hashes, \<open>Patricia_Fetch_Laws\<close> that the first phase reads the
  skeleton of the stored tree and the previous leaves; \<open>Patricia_Commitment\<close> puts the phases together: the new root hash
  is that of the tree with the modified contents, and the storage holds that tree when the new nodes are written.

  \<^bold>\<open>Assumptions.\<close> Readers of the initial state satisfy \<open>state_reader_laws\<close>; programs declare a class under its own
  hash and do not ask again for a class that they found undeclared (\<open>wf_program\<close>). A call on the versioned state holds
  its mutex and is one step. Other workers leave the version of a transaction that is executing alone
  (\<open>shared_ok\<close>), which the scheduler's one execution per transaction provides. A stored Patricia tree has field elements as
  hashes, no collisions among its nodes, and leaves that are read back as they were written (\<open>leaf_ok\<close>, for the leaf types
  of other crates).

  \<^bold>\<open>Not modelled.\<close> The joint interleaving of several worker loops with all locks: the step relation of \<open>Scheduler\<close>
  covers the scheduler, and \<open>Concurrent_Execution\<close> one execution among others. Reading a compiled class hash is modelled,
  but not among the calls of a \<open>program\<close>. The Cairo virtual machine, system calls
  and native execution run code of other crates; transactions are arbitrary programs instead. The executor that
  chunks a block, the batcher, the gateway and the node infrastructure are asynchronous servers around the modelled components. Storage,
  synchronization, networking, serialization and RPC (the \<^verbatim>\<open>papyrus\<close> crates) are input and output over libraries.
  The forest of tries around the Patricia tree (\<^verbatim>\<open>starknet_committer\<close>), configuration, logging, metrics, display and test support are left out, and so are the functions of the L1 provider whose body is
  \<^verbatim>\<open>todo!()\<close>.
\<close>

end
